(* ===== verification/Prelude.thy ===== *)
theory Prelude
  imports Main "HOL-Library.Word"
begin

text \<open>
  Shared vocabulary of the development: the machine integer types of the C++ code, coroutine
  handles, little-endian byte encodings, and the generic facts on words and lists that the
  component theories use. Two named collections carry the automation: \<open>abx_simps\<close> holds
  conditional and unconditional rewrite rules on words and bytes, \<open>abx_defs\<close> the definitions
  of small accessors that proofs always unfold.
\<close>

unbundle bit_operations_syntax

named_theorems abx_simps "rewrite rules on words, bytes and lists shared by the components"
named_theorems abx_defs "small definitions that the component proofs always unfold"

type_synonym u8 = "8 word"
type_synonym u16 = "16 word"
type_synonym u32 = "32 word"
type_synonym u64 = "64 word"

text \<open>
  A coroutine handle is its frame address; 0 is the null handle. Every function of the code that
  makes a coroutine ready calls \<open>abstractx::post\<close> or \<open>post_from_isr\<close> and ignores the result,
  so an operation that posts is modelled as returning the list of the handles it posts, in order.
\<close>

type_synonym handle = nat

abbreviation (input) null_handle :: handle where
  "null_handle \<equiv> 0"

section \<open>Words\<close>

lemma unat_and_exp_minus_1 [abx_simps]:
  fixes x :: "'w::len word"
  shows "unat (x AND (2 ^ k - 1)) = unat x mod 2 ^ k"
  by (metis mask_eq_exp_minus_1 take_bit_eq_mask take_bit_eq_mod unsigned_take_bit_eq)

lemma unat_add_one_mod:
  fixes x :: "'w::len word"
  assumes "k \<le> LENGTH('w)"
  shows "unat (x + 1) mod 2 ^ k = Suc (unat x) mod 2 ^ k"
proof -
  have "unat (x + 1) = Suc (unat x) mod 2 ^ LENGTH('w)"
    by (simp add: unat_word_ariths(1))
  moreover have "(2::nat) ^ k dvd 2 ^ LENGTH('w)"
    using assms by (rule le_imp_power_dvd)
  ultimately show ?thesis by (simp add: mod_mod_cancel)
qed

lemma unat_add_of_nat_mod:
  fixes x :: "'w::len word"
  assumes "k \<le> LENGTH('w)"
  shows "unat (x + of_nat n) mod 2 ^ k = (unat x + n) mod 2 ^ k"
proof -
  have "unat (x + of_nat n) = (unat x + n) mod 2 ^ LENGTH('w)"
    by (simp add: unat_word_ariths(1) unat_of_nat mod_add_right_eq)
  moreover have "(2::nat) ^ k dvd 2 ^ LENGTH('w)"
    using assms by (rule le_imp_power_dvd)
  ultimately show ?thesis by (simp add: mod_mod_cancel)
qed

lemma unat_of_nat_small:
  "n < 2 ^ LENGTH('w) \<Longrightarrow> unat (of_nat n :: 'w::len word) = n"
  by (simp add: unat_of_nat)

lemma unat_Suc_less:
  fixes x :: "'w::len word"
  assumes "unat x < n" and "n < 2 ^ LENGTH('w)"
  shows "unat (x + 1) = Suc (unat x)"
  using assms by (simp add: unat_word_ariths(1))

lemma word_diff_add_one:
  fixes t h :: "'w::len word"
  assumes "unat (t - h) < n" and "n < 2 ^ LENGTH('w)"
  shows "unat (t + 1 - h) = Suc (unat (t - h))"
proof -
  have "t + 1 - h = (t - h) + 1" by (simp add: algebra_simps)
  then show ?thesis using unat_Suc_less [OF assms] by (simp only:)
qed

lemma word_diff_sub_one:
  fixes t h :: "'w::len word"
  assumes "t \<noteq> h"
  shows "unat (t - (h + 1)) = unat (t - h) - 1"
proof -
  have "t - (h + 1) = (t - h) - 1" by simp
  moreover have "t - h \<noteq> 0" using assms by simp
  ultimately show ?thesis by (metis unat_minus_one)
qed

lemma unat_diff_eq_0_iff [simp]:
  fixes t h :: "'w::len word"
  shows "unat (t - h) = 0 \<longleftrightarrow> t = h"
  by (simp add: unat_eq_0)

lemma unat_diff_pos_iff [simp]:
  fixes t h :: "'w::len word"
  shows "0 < unat (t - h) \<longleftrightarrow> t \<noteq> h"
  using unat_diff_eq_0_iff [of t h] by (metis bot_nat_0.not_eq_extremum)

section \<open>Little-endian byte encodings\<close>

primrec le_bytes :: "nat \<Rightarrow> 'w::len word \<Rightarrow> u8 list" where
  "le_bytes 0 w = []"
| "le_bytes (Suc n) w = ucast w # le_bytes n (drop_bit 8 w)"

primrec le_word :: "u8 list \<Rightarrow> 'w::len word" where
  "le_word [] = 0"
| "le_word (b # bs) = ucast b OR push_bit 8 (le_word bs)"

lemma length_le_bytes [simp]: "length (le_bytes n w) = n"
  by (induction n arbitrary: w) simp_all

lemma le_word_le_bytes_take:
  "le_word (le_bytes n w) = take_bit (8 * n) (w :: 'w::len word)"
proof (induction n arbitrary: w)
  case 0
  then show ?case by simp
next
  case (Suc n)
  have "ucast (ucast w :: u8) OR push_bit 8 (take_bit (8 * n) (drop_bit 8 w)) =
    take_bit (8 * Suc n) w"
    by (rule bit_word_eqI) (auto simp: bit_simps)
  then show ?case by (simp add: Suc.IH)
qed

lemma le_word_le_bytes [simp]:
  assumes "LENGTH('w) = 8 * n"
  shows "le_word (le_bytes n w) = (w :: 'w::len word)"
  using assms by (simp add: le_word_le_bytes_take flip: assms)

lemma le_bytes_le_word [simp]:
  assumes "8 * length bs \<le> LENGTH('w)"
  shows "le_bytes (length bs) (le_word bs :: 'w::len word) = bs"
  using assms
proof (induction bs)
  case Nil
  then show ?case by simp
next
  case (Cons b bs)
  have len: "8 \<le> LENGTH('w)" using Cons.prems by simp
  let ?r = "le_word bs :: 'w word"
  have low: "ucast (ucast b OR push_bit 8 ?r) = b"
    by (rule bit_word_eqI) (use len in \<open>auto simp: bit_simps\<close>)
  have bounded: "take_bit (LENGTH('w) - 8) ?r = ?r"
  proof -
    have "le_word (le_bytes (length bs) ?r) = ?r"
      using Cons by simp
    then have "take_bit (8 * length bs) ?r = ?r"
      by (simp only: le_word_le_bytes_take)
    moreover have "8 * length bs \<le> LENGTH('w) - 8" using Cons.prems by simp
    ultimately show ?thesis by (metis min.absorb2 take_bit_take_bit)
  qed
  have high: "drop_bit 8 (ucast b OR push_bit 8 ?r) = ?r"
  proof (rule bit_word_eqI)
    fix i assume i: "i < LENGTH('w)"
    have "bit ?r i \<longleftrightarrow> i < LENGTH('w) - 8 \<and> bit ?r i"
      by (subst bounded [symmetric]) (simp add: bit_simps)
    moreover have "\<not> bit b (8 + i)" using bit_imp_le_length by fastforce
    ultimately show "bit (drop_bit 8 (ucast b OR push_bit 8 ?r)) i = bit ?r i"
      by (auto simp: bit_simps)
  qed
  have "le_bytes (length bs) ?r = bs" using Cons by simp
  then show ?case by (simp only: le_word.simps length_Cons le_bytes.simps low high)
qed

lemma le_bytes_le_word_slice:
  "k + n \<le> length bs \<Longrightarrow> 8 * n \<le> LENGTH('w) \<Longrightarrow>
    le_bytes n (le_word (take n (drop k bs)) :: 'w::len word) = take n (drop k bs)"
  using le_bytes_le_word [of "take n (drop k bs)", where 'w = 'w] by simp

section \<open>Lists\<close>

lemma take_update_last [simp]:
  "k < length xs \<Longrightarrow> take (Suc k) (xs[k := v]) = take k xs @ [v]"
  by (simp add: take_Suc_conv_app_nth)

text \<open>Overwriting a run of consecutive elements, as \<open>memcpy\<close> into an array does.\<close>

definition put_at :: "nat \<Rightarrow> 'a list \<Rightarrow> 'a list \<Rightarrow> 'a list" where
  "put_at i ys xs = take i xs @ ys @ drop (i + length ys) xs"

lemma length_put_at [simp]:
  "i + length ys \<le> length xs \<Longrightarrow> length (put_at i ys xs) = length xs"
  by (simp add: put_at_def)

lemma take_drop_put_at [simp]:
  "i + length ys \<le> length xs \<Longrightarrow> take (length ys) (drop i (put_at i ys xs)) = ys"
  by (simp add: put_at_def)

lemma take_put_at [simp]:
  "j \<le> i \<Longrightarrow> i \<le> length xs \<Longrightarrow> take j (put_at i ys xs) = take j xs"
  by (simp add: put_at_def min_def)

lemma nth_put_at:
  "i + length ys \<le> length xs \<Longrightarrow> j < length xs \<Longrightarrow>
    put_at i ys xs ! j = (if i \<le> j \<and> j < i + length ys then ys ! (j - i) else xs ! j)"
  by (auto simp: put_at_def nth_append min_def)

lemma take_drop_put_at_other:
  assumes "i + length ys \<le> length xs" and "j + m \<le> i \<or> i + length ys \<le> j"
  shows "take m (drop j (put_at i ys xs)) = take m (drop j xs)"
proof (rule nth_equalityI)
  show "length (take m (drop j (put_at i ys xs))) = length (take m (drop j xs))"
    using assms by simp
  fix n assume "n < length (take m (drop j (put_at i ys xs)))"
  then show "take m (drop j (put_at i ys xs)) ! n = take m (drop j xs) ! n"
    using assms by (auto simp: nth_put_at)
qed

lemma list_update_eq_put_at: "i < length xs \<Longrightarrow> xs[i := v] = put_at i [v] xs"
  by (simp add: put_at_def upd_conv_take_nth_drop)

lemma put_at_put_at_adjacent:
  "i + length ys \<le> length xs \<Longrightarrow> j = i + length ys \<Longrightarrow>
    put_at j zs (put_at i ys xs) = put_at i (ys @ zs) xs"
  by (simp add: put_at_def ac_simps)

lemma append_slice_drop: "take n (drop k xs) @ drop (k + n) xs = drop k xs"
  by (metis append_take_drop_id drop_drop add.commute)

text \<open>The byte copy loop \<open>for (i = 0; i < n; ++i) d[i] = s[i]\<close> that the code uses in place of \<open>memcpy\<close>.\<close>

definition copy_loop :: "nat \<Rightarrow> 'a list \<Rightarrow> 'a list \<Rightarrow> 'a list" where
  "copy_loop n s d = fold (\<lambda>i d. d[i := s ! i]) [0..<n] d"

lemma copy_loop_eq:
  "n \<le> length s \<Longrightarrow> n \<le> length d \<Longrightarrow> copy_loop n s d = take n s @ drop n d"
proof (induction n)
  case 0
  then show ?case by (simp add: copy_loop_def)
next
  case (Suc n)
  then have "copy_loop (Suc n) s d = (take n s @ drop n d)[n := s ! n]"
    by (simp add: copy_loop_def)
  also have "\<dots> = take n s @ s ! n # drop (Suc n) d"
    using Suc.prems by (simp add: list_update_append Cons_nth_drop_Suc [symmetric] del: Cons_nth_drop_Suc)
  finally show ?case using Suc.prems by (simp add: take_Suc_conv_app_nth)
qed

end
