(* ===== verification/Tlp.thy ===== *)
theory Tlp
  imports Prelude
begin

text \<open>
  The 64-byte transaction layer packet: the wire structure of \<open>include/asp_tlp64.h\<close>, the typed
  wrapper \<open>Tlp64\<close> and its constructors in \<open>include/asp_tlp64.hpp\<close>, and the compact forms and
  views of \<open>include/asp_tlp_msg.hpp\<close>. A payload is a byte list; the invariant \<open>wf_tlp\<close> says
  that it has the 40 bytes of the C array. The packed structures overlaid on the payload by
  \<open>reinterpret_cast\<close> are records with the byte layout written out (little-endian, as the wire
  format is defined).
\<close>

section \<open>Constants\<close>

definition ASP_TLP64_SIZE :: nat where "ASP_TLP64_SIZE = 64"
definition ASP_TLP64_PAYLOAD_SIZE :: nat where "ASP_TLP64_PAYLOAD_SIZE = 40"

definition ASP_ADDR_SPI_BASE :: u32 where "ASP_ADDR_SPI_BASE = 0x40000180"
definition ASP_ADDR_I2C_BASE :: u32 where "ASP_ADDR_I2C_BASE = 0x40000380"
definition ASP_ADDR_GPIO_BASE :: u32 where "ASP_ADDR_GPIO_BASE = 0x40000800"
definition ASP_REG_XFER :: u32 where "ASP_REG_XFER = 0x08"

definition ASP_SPI_FLAG_AUTO_CS :: u8 where "ASP_SPI_FLAG_AUTO_CS = 0x01"
definition ASP_I2C_FLAG_USE_REG :: u8 where "ASP_I2C_FLAG_USE_REG = 0x01"
definition ASP_I2C_FLAG_REPEATED_START :: u8 where "ASP_I2C_FLAG_REPEATED_START = 0x02"

definition ASP_STATUS_OK :: u8 where "ASP_STATUS_OK = 0x00"
definition ASP_STATUS_DMA_ERROR :: u8 where "ASP_STATUS_DMA_ERROR = 0x01"
definition ASP_STATUS_TIMEOUT :: u8 where "ASP_STATUS_TIMEOUT = 0x02"
definition ASP_STATUS_CRC_ERROR :: u8 where "ASP_STATUS_CRC_ERROR = 0x03"
definition ASP_STATUS_QUEUE_FULL :: u8 where "ASP_STATUS_QUEUE_FULL = 0x04"
definition ASP_STATUS_BUS_LOCKED :: u8 where "ASP_STATUS_BUS_LOCKED = 0x05"

definition ASP_DMA_CMD_SETUP :: u8 where "ASP_DMA_CMD_SETUP = 0x01"
definition ASP_DMA_CMD_ENABLE :: u8 where "ASP_DMA_CMD_ENABLE = 0x02"
definition ASP_DMA_CMD_DISABLE :: u8 where "ASP_DMA_CMD_DISABLE = 0x03"

definition ASP_GPIO_REG_CONFIG :: u32 where "ASP_GPIO_REG_CONFIG = 0x00"
definition ASP_GPIO_REG_SET :: u32 where "ASP_GPIO_REG_SET = 0x08"
definition ASP_GPIO_REG_CLR :: u32 where "ASP_GPIO_REG_CLR = 0x0C"
definition ASP_GPIO_REG_XOR :: u32 where "ASP_GPIO_REG_XOR = 0x10"
definition ASP_GPIO_REG_READ :: u32 where "ASP_GPIO_REG_READ = 0x14"
definition ASP_GPIO_REG_IRQ_CFG :: u32 where "ASP_GPIO_REG_IRQ_CFG = 0x18"
definition ASP_GPIO_REG_IRQ_STATUS :: u32 where "ASP_GPIO_REG_IRQ_STATUS = 0x1C"

definition ASP_GPIO_CMD_CONFIG :: u8 where "ASP_GPIO_CMD_CONFIG = 0x01"
definition ASP_GPIO_CMD_WRITE :: u8 where "ASP_GPIO_CMD_WRITE = 0x02"
definition ASP_GPIO_CMD_SET :: u8 where "ASP_GPIO_CMD_SET = 0x03"
definition ASP_GPIO_CMD_CLR :: u8 where "ASP_GPIO_CMD_CLR = 0x04"
definition ASP_GPIO_CMD_XOR :: u8 where "ASP_GPIO_CMD_XOR = 0x05"
definition ASP_GPIO_CMD_READ :: u8 where "ASP_GPIO_CMD_READ = 0x06"
definition ASP_GPIO_CMD_IRQ_ATTACH :: u8 where "ASP_GPIO_CMD_IRQ_ATTACH = 0x07"

datatype tlp_type = MemRead | MemWrite | Completion | Status | DmaStream | DmaConfig

fun tlp_type_code :: "tlp_type \<Rightarrow> u8" where
  "tlp_type_code MemRead = 0x01"
| "tlp_type_code MemWrite = 0x02"
| "tlp_type_code Completion = 0x03"
| "tlp_type_code Status = 0x04"
| "tlp_type_code DmaStream = 0x10"
| "tlp_type_code DmaConfig = 0x11"

datatype channel =
  Control | Telemetry | FlightLog | Debug | EscSerial | SpiBridge | I2cBridge | GpioBridge

fun channel_code :: "channel \<Rightarrow> u8" where
  "channel_code Control = 0x01"
| "channel_code Telemetry = 0x02"
| "channel_code FlightLog = 0x03"
| "channel_code Debug = 0x04"
| "channel_code EscSerial = 0x05"
| "channel_code SpiBridge = 0x06"
| "channel_code I2cBridge = 0x07"
| "channel_code GpioBridge = 0x08"

section \<open>The wire structure\<close>

record tlp =
  wtype :: u8
  wflags :: u8
  wtag :: u8
  wchannel :: u8
  target_address :: u32
  length_dw :: u16
  wsequence :: u16
  timestamp_ns :: u64
  payload :: "u8 list"
  crc32 :: u32

definition tlp_zero :: tlp where
  "tlp_zero = \<lparr>wtype = 0, wflags = 0, wtag = 0, wchannel = 0, target_address = 0, length_dw = 0,
     wsequence = 0, timestamp_ns = 0, payload = replicate ASP_TLP64_PAYLOAD_SIZE 0, crc32 = 0\<rparr>"

definition wf_tlp :: "tlp \<Rightarrow> bool" where
  "wf_tlp t \<longleftrightarrow> length (payload t) = ASP_TLP64_PAYLOAD_SIZE"

text \<open>The packed object representation of \<open>asp_tlp64_t\<close>, field by field at its offset.\<close>

definition tlp_bytes :: "tlp \<Rightarrow> u8 list" where
  "tlp_bytes t = [wtype t, wflags t, wtag t, wchannel t] @ le_bytes 4 (target_address t) @
     le_bytes 2 (length_dw t) @ le_bytes 2 (wsequence t) @ le_bytes 8 (timestamp_ns t) @
     payload t @ le_bytes 4 (crc32 t)"

definition tlp_of_bytes :: "u8 list \<Rightarrow> tlp" where
  "tlp_of_bytes bs = \<lparr>wtype = bs ! 0, wflags = bs ! 1, wtag = bs ! 2, wchannel = bs ! 3,
     target_address = le_word (take 4 (drop 4 bs)), length_dw = le_word (take 2 (drop 8 bs)),
     wsequence = le_word (take 2 (drop 10 bs)), timestamp_ns = le_word (take 8 (drop 12 bs)),
     payload = take 40 (drop 20 bs), crc32 = le_word (take 4 (drop 60 bs))\<rparr>"

definition tlp_store :: "u8 list \<Rightarrow> tlp \<Rightarrow> u8 list" where
  "tlp_store dst src = copy_loop ASP_TLP64_SIZE (tlp_bytes src) dst"

definition tlp_load :: "tlp \<Rightarrow> u8 list \<Rightarrow> tlp" where
  "tlp_load dst src = tlp_of_bytes (copy_loop ASP_TLP64_SIZE src (tlp_bytes dst))"

section \<open>Payload words\<close>

definition payload_word :: "tlp \<Rightarrow> nat \<Rightarrow> u32" where
  "payload_word t k = (let o' = k * 4; p = payload t in
     ucast (p ! o') OR push_bit 8 (ucast (p ! (o' + 1))) OR
     push_bit 16 (ucast (p ! (o' + 2))) OR push_bit 24 (ucast (p ! (o' + 3))))"

definition set_payload_word :: "nat \<Rightarrow> u32 \<Rightarrow> tlp \<Rightarrow> tlp" where
  "set_payload_word k v t = (let o' = k * 4 in
     t\<lparr>payload := (payload t)[o' := ucast v, o' + 1 := ucast (drop_bit 8 v),
        o' + 2 := ucast (drop_bit 16 v), o' + 3 := ucast (drop_bit 24 v)]\<rparr>)"

section \<open>Memory operations\<close>

definition make_mem_read :: "u32 \<Rightarrow> u8 \<Rightarrow> tlp" where
  "make_mem_read addr tag = tlp_zero\<lparr>wtype := tlp_type_code MemRead, wtag := tag,
     wchannel := channel_code Control, target_address := addr, length_dw := 1\<rparr>"

definition make_mem_write :: "u32 \<Rightarrow> u32 \<Rightarrow> u8 \<Rightarrow> tlp" where
  "make_mem_write addr v tag = set_payload_word 0 v
     (tlp_zero\<lparr>wtype := tlp_type_code MemWrite, wtag := tag,
        wchannel := channel_code Control, target_address := addr, length_dw := 1\<rparr>)"

definition make_mem_write_burst :: "u32 \<Rightarrow> u32 list \<Rightarrow> u8 \<Rightarrow> u8 \<Rightarrow> tlp" where
  "make_mem_write_burst addr vals count tag =
    (let max_count = (if count > 9 then 9 else count) in
     fold (\<lambda>i t. set_payload_word i (vals ! i) t) [0..<unat max_count]
       (tlp_zero\<lparr>wtype := tlp_type_code MemWrite, wtag := tag, wchannel := channel_code Control,
          target_address := addr, length_dw := ucast max_count\<rparr>))"

definition make_completion_data :: "u8 \<Rightarrow> u32 \<Rightarrow> channel \<Rightarrow> tlp" where
  "make_completion_data tag v ch = set_payload_word 0 v
     (tlp_zero\<lparr>wtype := tlp_type_code Completion, wtag := tag, wchannel := channel_code ch,
        length_dw := 1\<rparr>)"

definition make_cpl_d :: "u8 \<Rightarrow> u32 \<Rightarrow> channel \<Rightarrow> tlp" where
  "make_cpl_d tag v ch = make_completion_data tag v ch"

section \<open>Packed headers overlaid on the payload\<close>

record spi_req_header =
  sr_bus_id :: u8
  sr_cs_pin :: u8
  sr_tx_len :: u8
  sr_rx_len :: u8

definition spi_req_bytes :: "spi_req_header \<Rightarrow> u8 list" where
  "spi_req_bytes h = [sr_bus_id h, sr_cs_pin h, sr_tx_len h, sr_rx_len h]"

record spi_cpl_header =
  sc_status :: u8
  sc_transferred_len :: u8
  sc_bus_duration_us :: u16

definition spi_cpl_bytes :: "spi_cpl_header \<Rightarrow> u8 list" where
  "spi_cpl_bytes h = [sc_status h, sc_transferred_len h] @ le_bytes 2 (sc_bus_duration_us h)"

record auto_dma_cfg =
  ad_cmd :: u8
  ad_channel_id :: u8
  ad_trigger_pin :: u8
  ad_trigger_edge :: u8
  ad_bus_type :: u8
  ad_bus_id :: u8
  ad_tx_len :: u8
  ad_rx_len :: u8
  ad_tx_cmd :: "u8 list"
  ad_tlp_channel :: u8
  ad_tlp_tag :: u8

definition auto_dma_cfg_bytes :: "auto_dma_cfg \<Rightarrow> u8 list" where
  "auto_dma_cfg_bytes c = [ad_cmd c, ad_channel_id c, ad_trigger_pin c, ad_trigger_edge c,
     ad_bus_type c, ad_bus_id c, ad_tx_len c, ad_rx_len c] @ ad_tx_cmd c @
     [ad_tlp_channel c, ad_tlp_tag c]"

record i2c_req_header =
  ir_bus_id :: u8
  ir_slave_addr :: u8
  ir_reg_offset :: u8
  ir_sub_flags :: u8
  ir_tx_len :: u8
  ir_rx_len :: u8
  ir_reserved :: u16

definition i2c_req_bytes :: "i2c_req_header \<Rightarrow> u8 list" where
  "i2c_req_bytes h = [ir_bus_id h, ir_slave_addr h, ir_reg_offset h, ir_sub_flags h,
     ir_tx_len h, ir_rx_len h] @ le_bytes 2 (ir_reserved h)"

record i2c_cpl_header =
  ic_status :: u8
  ic_transferred_len :: u8
  ic_bus_duration_us :: u16

definition i2c_cpl_bytes :: "i2c_cpl_header \<Rightarrow> u8 list" where
  "i2c_cpl_bytes h = [ic_status h, ic_transferred_len h] @ le_bytes 2 (ic_bus_duration_us h)"

record gpio_req_header =
  gr_cmd :: u8
  gr_pin :: u8
  gr_mode :: u8
  gr_pull_edge :: u8
  gr_mask :: u32
  gr_value :: u32

definition gpio_req_zero :: gpio_req_header where
  "gpio_req_zero = \<lparr>gr_cmd = 0, gr_pin = 0, gr_mode = 0, gr_pull_edge = 0, gr_mask = 0,
     gr_value = 0\<rparr>"

definition gpio_req_bytes :: "gpio_req_header \<Rightarrow> u8 list" where
  "gpio_req_bytes h = [gr_cmd h, gr_pin h, gr_mode h, gr_pull_edge h] @
     le_bytes 4 (gr_mask h) @ le_bytes 4 (gr_value h)"

record gpio_cpl_header =
  gc_status :: u8
  gc_pin :: u8
  gc_level :: u8
  gc_edge_detected :: u8
  gc_mask_state :: u32
  gc_timestamp_ns :: u64

definition gpio_cpl_bytes :: "gpio_cpl_header \<Rightarrow> u8 list" where
  "gpio_cpl_bytes h = [gc_status h, gc_pin h, gc_level h, gc_edge_detected h] @
     le_bytes 4 (gc_mask_state h) @ le_bytes 8 (gc_timestamp_ns h)"

text \<open>
  Writing a header and data through the payload pointer of a freshly zeroed packet: bytes not
  covered stay zero.
\<close>

definition write_payload :: "nat \<Rightarrow> u8 list \<Rightarrow> tlp \<Rightarrow> tlp" where
  "write_payload off bs t = t\<lparr>payload := put_at off bs (payload t)\<rparr>"

section \<open>Bus packets\<close>

definition make_spi_transfer ::
    "u8 \<Rightarrow> u8 \<Rightarrow> u8 list \<Rightarrow> u8 \<Rightarrow> u8 \<Rightarrow> u8 \<Rightarrow> channel \<Rightarrow> tlp" where
  "make_spi_transfer bus_id cs_pin tx_data rx_len flags tag ch =
    (let copy_len = (if length tx_data > 36 then 36 else length tx_data);
         packet = tlp_zero\<lparr>
           wtype := (if rx_len > 0 \<and> tx_data = [] then tlp_type_code MemRead
                     else tlp_type_code MemWrite),
           wflags := flags, wtag := tag, wchannel := channel_code ch,
           target_address := ASP_ADDR_SPI_BASE OR ASP_REG_XFER,
           length_dw := of_nat (1 + (copy_len + 3) div 4)\<rparr>;
         packet = write_payload 0 (spi_req_bytes \<lparr>sr_bus_id = bus_id, sr_cs_pin = cs_pin,
           sr_tx_len = of_nat copy_len, sr_rx_len = rx_len\<rparr>) packet
     in if copy_len > 0 then write_payload 4 (take copy_len tx_data) packet else packet)"

definition make_spi_cpl ::
    "u8 \<Rightarrow> u8 \<Rightarrow> u8 list \<Rightarrow> u16 \<Rightarrow> u64 \<Rightarrow> channel \<Rightarrow> tlp" where
  "make_spi_cpl tag status rx_data duration_us ts ch =
    (let copy_len = (if length rx_data > 36 then 36 else length rx_data);
         packet = tlp_zero\<lparr>wtype := tlp_type_code Completion,
           wflags := (if status = 0 then 0 else 1), wtag := tag, wchannel := channel_code ch,
           target_address := ASP_ADDR_SPI_BASE OR ASP_REG_XFER, timestamp_ns := ts,
           length_dw := of_nat (1 + (copy_len + 3) div 4)\<rparr>;
         packet = write_payload 0 (spi_cpl_bytes \<lparr>sc_status = status,
           sc_transferred_len = of_nat copy_len, sc_bus_duration_us = duration_us\<rparr>) packet
     in if copy_len > 0 then write_payload 4 (take copy_len rx_data) packet else packet)"

definition make_i2c_read_reg :: "u8 \<Rightarrow> u8 \<Rightarrow> u8 \<Rightarrow> u8 \<Rightarrow> u8 \<Rightarrow> channel \<Rightarrow> tlp" where
  "make_i2c_read_reg bus_id slave_addr reg_offset rx_len tag ch =
     write_payload 0 (i2c_req_bytes \<lparr>ir_bus_id = bus_id, ir_slave_addr = slave_addr,
       ir_reg_offset = reg_offset, ir_sub_flags = ASP_I2C_FLAG_USE_REG OR ASP_I2C_FLAG_REPEATED_START,
       ir_tx_len = 0, ir_rx_len = rx_len, ir_reserved = 0\<rparr>)
     (tlp_zero\<lparr>wtype := tlp_type_code MemRead,
        wflags := ASP_I2C_FLAG_USE_REG OR ASP_I2C_FLAG_REPEATED_START, wtag := tag,
        wchannel := channel_code ch, target_address := ASP_ADDR_I2C_BASE OR ASP_REG_XFER,
        length_dw := of_nat (2 + (unat rx_len + 3) div 4)\<rparr>)"

definition make_i2c_write_reg ::
    "u8 \<Rightarrow> u8 \<Rightarrow> u8 \<Rightarrow> u8 list \<Rightarrow> u8 \<Rightarrow> channel \<Rightarrow> tlp" where
  "make_i2c_write_reg bus_id slave_addr reg_offset tx_data tag ch =
    (let copy_len = (if length tx_data > 32 then 32 else length tx_data);
         packet = tlp_zero\<lparr>wtype := tlp_type_code MemWrite, wflags := ASP_I2C_FLAG_USE_REG,
           wtag := tag, wchannel := channel_code ch,
           target_address := ASP_ADDR_I2C_BASE OR ASP_REG_XFER,
           length_dw := of_nat (2 + (copy_len + 3) div 4)\<rparr>;
         packet = write_payload 0 (i2c_req_bytes \<lparr>ir_bus_id = bus_id, ir_slave_addr = slave_addr,
           ir_reg_offset = reg_offset, ir_sub_flags = ASP_I2C_FLAG_USE_REG,
           ir_tx_len = of_nat copy_len, ir_rx_len = 0, ir_reserved = 0\<rparr>) packet
     in if copy_len > 0 then write_payload 8 (take copy_len tx_data) packet else packet)"

definition make_i2c_cpl ::
    "u8 \<Rightarrow> u8 \<Rightarrow> u8 list \<Rightarrow> u16 \<Rightarrow> u64 \<Rightarrow> channel \<Rightarrow> tlp" where
  "make_i2c_cpl tag status rx_data duration_us ts ch =
    (let copy_len = (if length rx_data > 36 then 36 else length rx_data);
         packet = tlp_zero\<lparr>wtype := tlp_type_code Completion,
           wflags := (if status = 0 then 0 else 1), wtag := tag, wchannel := channel_code ch,
           target_address := ASP_ADDR_I2C_BASE OR ASP_REG_XFER, timestamp_ns := ts,
           length_dw := of_nat (1 + (copy_len + 3) div 4)\<rparr>;
         packet = write_payload 0 (i2c_cpl_bytes \<lparr>ic_status = status,
           ic_transferred_len = of_nat copy_len, ic_bus_duration_us = duration_us\<rparr>) packet
     in if copy_len > 0 then write_payload 4 (take copy_len rx_data) packet else packet)"

text \<open>The GPIO requests differ in type, register, command and the fields they set.\<close>

definition gpio_req_packet :: "tlp_type \<Rightarrow> u32 \<Rightarrow> gpio_req_header \<Rightarrow> u8 \<Rightarrow> channel \<Rightarrow> tlp" where
  "gpio_req_packet ty reg req tag ch = write_payload 0 (gpio_req_bytes req)
     (tlp_zero\<lparr>wtype := tlp_type_code ty, wtag := tag, wchannel := channel_code ch,
        target_address := ASP_ADDR_GPIO_BASE OR reg,
        length_dw := of_nat ((length (gpio_req_bytes req) + 3) div 4)\<rparr>)"

definition gpio_mask :: "u8 \<Rightarrow> u32 \<Rightarrow> u32" where
  "gpio_mask pin mask' = (if mask' \<noteq> 0 then mask' else push_bit (unat (pin mod 32)) 1)"

definition make_gpio_config :: "u8 \<Rightarrow> u8 \<Rightarrow> u8 \<Rightarrow> u8 \<Rightarrow> channel \<Rightarrow> tlp" where
  "make_gpio_config pin mode pull tag ch = gpio_req_packet MemWrite ASP_GPIO_REG_CONFIG
     (gpio_req_zero\<lparr>gr_cmd := ASP_GPIO_CMD_CONFIG, gr_pin := pin, gr_mode := mode,
        gr_pull_edge := pull\<rparr>) tag ch"

definition make_gpio_set :: "u8 \<Rightarrow> u32 \<Rightarrow> u8 \<Rightarrow> channel \<Rightarrow> tlp" where
  "make_gpio_set pin mask' tag ch = gpio_req_packet MemWrite ASP_GPIO_REG_SET
     (gpio_req_zero\<lparr>gr_cmd := ASP_GPIO_CMD_SET, gr_pin := pin, gr_mask := gpio_mask pin mask',
        gr_value := 1\<rparr>) tag ch"

definition make_gpio_clr :: "u8 \<Rightarrow> u32 \<Rightarrow> u8 \<Rightarrow> channel \<Rightarrow> tlp" where
  "make_gpio_clr pin mask' tag ch = gpio_req_packet MemWrite ASP_GPIO_REG_CLR
     (gpio_req_zero\<lparr>gr_cmd := ASP_GPIO_CMD_CLR, gr_pin := pin, gr_mask := gpio_mask pin mask',
        gr_value := 0\<rparr>) tag ch"

definition make_gpio_xor :: "u8 \<Rightarrow> u32 \<Rightarrow> u8 \<Rightarrow> channel \<Rightarrow> tlp" where
  "make_gpio_xor pin mask' tag ch = gpio_req_packet MemWrite ASP_GPIO_REG_XOR
     (gpio_req_zero\<lparr>gr_cmd := ASP_GPIO_CMD_XOR, gr_pin := pin, gr_mask := gpio_mask pin mask'\<rparr>)
     tag ch"

definition make_gpio_read :: "u8 \<Rightarrow> u8 \<Rightarrow> channel \<Rightarrow> tlp" where
  "make_gpio_read pin tag ch = gpio_req_packet MemRead ASP_GPIO_REG_READ
     (gpio_req_zero\<lparr>gr_cmd := ASP_GPIO_CMD_READ, gr_pin := pin\<rparr>) tag ch"

definition make_gpio_irq_attach :: "u8 \<Rightarrow> u8 \<Rightarrow> u8 \<Rightarrow> channel \<Rightarrow> tlp" where
  "make_gpio_irq_attach pin edge tag ch = gpio_req_packet MemWrite ASP_GPIO_REG_IRQ_CFG
     (gpio_req_zero\<lparr>gr_cmd := ASP_GPIO_CMD_IRQ_ATTACH, gr_pin := pin, gr_pull_edge := edge\<rparr>)
     tag ch"

definition make_gpio_cpl ::
    "u8 \<Rightarrow> u8 \<Rightarrow> u8 \<Rightarrow> u8 \<Rightarrow> u8 \<Rightarrow> u32 \<Rightarrow> u64 \<Rightarrow> channel \<Rightarrow> tlp" where
  "make_gpio_cpl tag status pin level edge mask_state ts ch =
    (let cpl = gpio_cpl_bytes \<lparr>gc_status = status, gc_pin = pin, gc_level = level,
       gc_edge_detected = edge, gc_mask_state = mask_state, gc_timestamp_ns = ts\<rparr>
     in write_payload 0 cpl
       (tlp_zero\<lparr>wtype := tlp_type_code Completion, wflags := (if status = 0 then 0 else 1),
          wtag := tag, wchannel := channel_code ch,
          target_address := ASP_ADDR_GPIO_BASE OR ASP_GPIO_REG_READ, timestamp_ns := ts,
          length_dw := of_nat ((length cpl + 3) div 4)\<rparr>))"

definition make_gpio_event :: "u8 \<Rightarrow> u8 \<Rightarrow> u8 \<Rightarrow> u64 \<Rightarrow> u8 \<Rightarrow> channel \<Rightarrow> tlp" where
  "make_gpio_event pin level edge ts tag ch =
    (let cpl = gpio_cpl_bytes \<lparr>gc_status = 0, gc_pin = pin, gc_level = level,
       gc_edge_detected = edge, gc_mask_state = 0, gc_timestamp_ns = ts\<rparr>
     in write_payload 0 cpl
       (tlp_zero\<lparr>wtype := tlp_type_code MemWrite, wtag := tag, wchannel := channel_code ch,
          target_address := ASP_ADDR_GPIO_BASE OR ASP_GPIO_REG_IRQ_STATUS, timestamp_ns := ts,
          length_dw := of_nat ((length cpl + 3) div 4)\<rparr>))"

definition make_hw_fusion_setup :: "auto_dma_cfg \<Rightarrow> u8 \<Rightarrow> tlp" where
  "make_hw_fusion_setup cfg tag = write_payload 0
     (auto_dma_cfg_bytes (cfg\<lparr>ad_cmd := ASP_DMA_CMD_SETUP\<rparr>))
     (tlp_zero\<lparr>wtype := tlp_type_code DmaConfig, wtag := tag, wchannel := channel_code Control,
        length_dw := of_nat ((18 + 3) div 4)\<rparr>)"

definition make_hw_fusion_control :: "u8 \<Rightarrow> bool \<Rightarrow> u8 \<Rightarrow> tlp" where
  "make_hw_fusion_control channel_id enable tag = write_payload 0
     [if enable then ASP_DMA_CMD_ENABLE else ASP_DMA_CMD_DISABLE, channel_id]
     (tlp_zero\<lparr>wtype := tlp_type_code DmaConfig, wtag := tag, wchannel := channel_code Control,
        length_dw := 1\<rparr>)"

definition make_hw_fusion_cpl :: "u8 \<Rightarrow> u8 \<Rightarrow> u8 \<Rightarrow> u8 \<Rightarrow> tlp" where
  "make_hw_fusion_cpl tag status cmd channel_id = write_payload 0 [status, cmd, channel_id]
     (tlp_zero\<lparr>wtype := tlp_type_code Completion,
        wflags := (if status = ASP_STATUS_OK then 0 else 1), wtag := tag,
        wchannel := channel_code Control, length_dw := 1\<rparr>)"

definition make_stream_tx :: "channel \<Rightarrow> u16 \<Rightarrow> u8 list \<Rightarrow> u8 \<Rightarrow> tlp" where
  "make_stream_tx ch sq data tag =
    (let copy_len = (if length data > ASP_TLP64_PAYLOAD_SIZE then ASP_TLP64_PAYLOAD_SIZE
                     else length data);
         packet = tlp_zero\<lparr>wtype := tlp_type_code MemWrite, wtag := tag,
           wchannel := channel_code ch, wsequence := sq,
           length_dw := of_nat ((copy_len + 3) div 4)\<rparr>
     in if copy_len > 0 then write_payload 0 (take copy_len data) packet else packet)"

definition make_ctf :: "channel \<Rightarrow> u8 \<Rightarrow> u8 list \<Rightarrow> u64 \<Rightarrow> tlp_type \<Rightarrow> tlp" where
  "make_ctf ch tag ctf_event ts ty = write_payload 0 ctf_event
     (tlp_zero\<lparr>wtype := tlp_type_code ty, wtag := tag, wchannel := channel_code ch,
        length_dw := of_nat ((length ctf_event + 3) div 4), timestamp_ns := ts\<rparr>)"

definition as_ctf :: "nat \<Rightarrow> tlp \<Rightarrow> u8 list" where
  "as_ctf sz t = take sz (payload t)"

definition is_error :: "tlp \<Rightarrow> bool" where
  "is_error t \<longleftrightarrow> wflags t \<noteq> 0"

definition length_bytes :: "tlp \<Rightarrow> nat" where
  "length_bytes t = (let bytes = unat (length_dw t) * 4 in
     if bytes > ASP_TLP64_PAYLOAD_SIZE then ASP_TLP64_PAYLOAD_SIZE else bytes)"

section \<open>Compact forms and views\<close>

record tlp_header =
  h_type :: u8
  h_flags :: u8
  h_tag :: u8
  h_channel :: u8
  h_target_address :: u32
  h_length_dw :: u16
  h_sequence :: u16
  h_timestamp_ns :: u64

definition tlp_header_zero :: tlp_header where
  "tlp_header_zero = \<lparr>h_type = 0, h_flags = 0, h_tag = 0, h_channel = 0, h_target_address = 0,
     h_length_dw = 0, h_sequence = 0, h_timestamp_ns = 0\<rparr>"

record tlp_short =
  ts_header :: tlp_header
  ts_data :: u32

definition short_make_read :: "u32 \<Rightarrow> u8 \<Rightarrow> tlp_short" where
  "short_make_read addr tag = \<lparr>ts_header = tlp_header_zero\<lparr>h_type := tlp_type_code MemRead,
     h_tag := tag, h_channel := channel_code Control, h_target_address := addr, h_length_dw := 1\<rparr>,
     ts_data = 0\<rparr>"

definition short_make_write :: "u32 \<Rightarrow> u32 \<Rightarrow> u8 \<Rightarrow> tlp_short" where
  "short_make_write addr v tag = \<lparr>ts_header = tlp_header_zero\<lparr>h_type := tlp_type_code MemWrite,
     h_tag := tag, h_channel := channel_code Control, h_target_address := addr, h_length_dw := 1\<rparr>,
     ts_data = v\<rparr>"

record tlp_var =
  tv_header :: tlp_header
  tv_payload :: "u8 list"

definition var_total_size :: "tlp_var \<Rightarrow> nat" where
  "var_total_size t = 20 + unat (h_length_dw (tv_header t)) * 4"

definition var_get_payload :: "tlp_var \<Rightarrow> u8 list" where
  "var_get_payload t = (let len = unat (h_length_dw (tv_header t)) * 4;
     len = (if len > length (tv_payload t) then length (tv_payload t) else len)
     in take len (tv_payload t))"

definition spi_view_req_header :: "tlp \<Rightarrow> spi_req_header" where
  "spi_view_req_header t = (let p = payload t in
     \<lparr>sr_bus_id = p ! 0, sr_cs_pin = p ! 1, sr_tx_len = p ! 2, sr_rx_len = p ! 3\<rparr>)"

definition spi_view_cpl_header :: "tlp \<Rightarrow> spi_cpl_header" where
  "spi_view_cpl_header t = (let p = payload t in
     \<lparr>sc_status = p ! 0, sc_transferred_len = p ! 1, sc_bus_duration_us = le_word (take 2 (drop 2 p))\<rparr>)"

definition spi_view_tx_data :: "tlp \<Rightarrow> u8 list" where
  "spi_view_tx_data t = (let l = sr_tx_len (spi_view_req_header t);
     len = (if l > 36 then 36 else unat l) in take len (drop 4 (payload t)))"

definition spi_view_rx_data :: "tlp \<Rightarrow> u8 list" where
  "spi_view_rx_data t = (let l = sc_transferred_len (spi_view_cpl_header t);
     len = (if l > 36 then 36 else unat l) in take len (drop 4 (payload t)))"

definition i2c_view_req_header :: "tlp \<Rightarrow> i2c_req_header" where
  "i2c_view_req_header t = (let p = payload t in
     \<lparr>ir_bus_id = p ! 0, ir_slave_addr = p ! 1, ir_reg_offset = p ! 2, ir_sub_flags = p ! 3,
      ir_tx_len = p ! 4, ir_rx_len = p ! 5, ir_reserved = le_word (take 2 (drop 6 p))\<rparr>)"

definition i2c_view_cpl_header :: "tlp \<Rightarrow> i2c_cpl_header" where
  "i2c_view_cpl_header t = (let p = payload t in
     \<lparr>ic_status = p ! 0, ic_transferred_len = p ! 1, ic_bus_duration_us = le_word (take 2 (drop 2 p))\<rparr>)"

definition i2c_view_tx_data :: "tlp \<Rightarrow> u8 list" where
  "i2c_view_tx_data t = (let l = ir_tx_len (i2c_view_req_header t);
     len = (if l > 32 then 32 else unat l) in take len (drop 8 (payload t)))"

definition i2c_view_rx_data :: "tlp \<Rightarrow> u8 list" where
  "i2c_view_rx_data t = (let l = ic_transferred_len (i2c_view_cpl_header t);
     len = (if l > 36 then 36 else unat l) in take len (drop 4 (payload t)))"

definition gpio_view_req_header :: "tlp \<Rightarrow> gpio_req_header" where
  "gpio_view_req_header t = (let p = payload t in
     \<lparr>gr_cmd = p ! 0, gr_pin = p ! 1, gr_mode = p ! 2, gr_pull_edge = p ! 3,
      gr_mask = le_word (take 4 (drop 4 p)), gr_value = le_word (take 4 (drop 8 p))\<rparr>)"

definition gpio_view_cpl_header :: "tlp \<Rightarrow> gpio_cpl_header" where
  "gpio_view_cpl_header t = (let p = payload t in
     \<lparr>gc_status = p ! 0, gc_pin = p ! 1, gc_level = p ! 2, gc_edge_detected = p ! 3,
      gc_mask_state = le_word (take 4 (drop 4 p)), gc_timestamp_ns = le_word (take 8 (drop 8 p))\<rparr>)"

section \<open>Layout lemmas\<close>

lemmas tlp_consts [simp] = ASP_TLP64_SIZE_def ASP_TLP64_PAYLOAD_SIZE_def

lemma length_tlp_bytes [simp]: "wf_tlp t \<Longrightarrow> length (tlp_bytes t) = 64"
  by (simp add: tlp_bytes_def wf_tlp_def)

lemma wf_tlp_of_bytes [simp]: "length bs = 64 \<Longrightarrow> wf_tlp (tlp_of_bytes bs)"
  by (simp add: wf_tlp_def tlp_of_bytes_def)

lemma tlp_of_bytes_tlp_bytes [simp]: "wf_tlp t \<Longrightarrow> tlp_of_bytes (tlp_bytes t) = t"
  by (cases t) (simp add: tlp_of_bytes_def tlp_bytes_def wf_tlp_def)

text \<open>A list of 64 bytes is the concatenation of the field slices.\<close>

lemma tlp_bytes_tlp_of_bytes [simp]:
  assumes "length bs = 64"
  shows "tlp_bytes (tlp_of_bytes bs) = bs"
proof -
  have "tlp_bytes (tlp_of_bytes bs) =
    [bs ! 0, bs ! 1, bs ! 2, bs ! 3] @ take 4 (drop 4 bs) @ take 2 (drop 8 bs) @
    take 2 (drop 10 bs) @ take 8 (drop 12 bs) @ take 40 (drop 20 bs) @ take 4 (drop 60 bs)"
    using assms le_bytes_le_word [of "drop 60 bs", where 'w = 32]
    by (simp add: tlp_bytes_def tlp_of_bytes_def le_bytes_le_word_slice)
  also have "[bs ! 0, bs ! 1, bs ! 2, bs ! 3] = take 4 bs"
    using assms by (intro nth_equalityI) (auto simp: nth_Cons' less_Suc_eq eval_nat_numeral)
  also have "take 4 (drop 60 bs) = drop 60 bs"
    using assms by simp
  finally show ?thesis
    using append_slice_drop [of 40 20 bs] append_slice_drop [of 8 12 bs]
      append_slice_drop [of 2 10 bs] append_slice_drop [of 2 8 bs] append_slice_drop [of 4 4 bs]
    by simp
qed

lemma tlp_store_eq:
  "wf_tlp t \<Longrightarrow> length slot = 64 \<Longrightarrow> tlp_store slot t = tlp_bytes t"
  by (simp add: tlp_store_def copy_loop_eq)

lemma tlp_load_eq:
  "wf_tlp d \<Longrightarrow> length bs = 64 \<Longrightarrow> tlp_load d bs = tlp_of_bytes bs"
  by (simp add: tlp_load_def copy_loop_eq)

lemma payload_word_eq_le_word:
  "wf_tlp t \<Longrightarrow> k < 10 \<Longrightarrow> payload_word t k = le_word (take 4 (drop (k * 4) (payload t)))"
proof -
  assume "wf_tlp t" "k < 10"
  then have "take 4 (drop (k * 4) (payload t)) = [payload t ! (k * 4), payload t ! (k * 4 + 1),
    payload t ! (k * 4 + 2), payload t ! (k * 4 + 3)]"
    by (intro nth_equalityI) (auto simp: wf_tlp_def nth_Cons' numeral_eq_Suc less_Suc_eq)
  then show ?thesis
    by (simp add: payload_word_def Let_def push_bit_or push_bit_push_bit)
qed

lemma wf_set_payload_word [simp]: "wf_tlp (set_payload_word k v t) = wf_tlp t"
  by (simp add: wf_tlp_def set_payload_word_def Let_def)

lemma payload_set_payload_word:
  assumes "wf_tlp t" and "k < 10"
  shows "payload (set_payload_word k v t) = put_at (k * 4) (le_bytes 4 v) (payload t)"
proof -
  have "le_bytes 4 v = [ucast v, ucast (drop_bit 8 v), ucast (drop_bit 16 v), ucast (drop_bit 24 v)]"
    by (simp add: eval_nat_numeral)
  then show ?thesis using assms
    by (simp add: set_payload_word_def Let_def wf_tlp_def list_update_eq_put_at
      put_at_put_at_adjacent)
qed

lemma payload_word_set [simp]:
  assumes "wf_tlp t" and "k < 10" and "j < 10"
  shows "payload_word (set_payload_word k v t) j = (if j = k then v else payload_word t j)"
proof -
  have "j * 4 + 4 \<le> k * 4 \<or> k * 4 + 4 \<le> j * 4" if "j \<noteq> k"
    using that by linarith
  then have "take 4 (drop (j * 4) (put_at (k * 4) (le_bytes 4 v) (payload t))) =
    (if j = k then le_bytes 4 v else take 4 (drop (j * 4) (payload t)))"
    using assms take_drop_put_at [of "k * 4" "le_bytes 4 v" "payload t"]
      take_drop_put_at_other [of "k * 4" "le_bytes 4 v" "payload t" "j * 4" 4]
    by (auto simp: wf_tlp_def)
  with assms show ?thesis
    by (simp add: payload_word_eq_le_word payload_set_payload_word)
qed

lemma set_payload_word_fields [simp]:
  "wtype (set_payload_word k v t) = wtype t" "wflags (set_payload_word k v t) = wflags t"
  "wtag (set_payload_word k v t) = wtag t" "wchannel (set_payload_word k v t) = wchannel t"
  "target_address (set_payload_word k v t) = target_address t"
  "length_dw (set_payload_word k v t) = length_dw t"
  "wsequence (set_payload_word k v t) = wsequence t"
  "timestamp_ns (set_payload_word k v t) = timestamp_ns t"
  "crc32 (set_payload_word k v t) = crc32 t"
  by (simp_all add: set_payload_word_def Let_def)

lemma wf_tlp_zero [simp]: "wf_tlp tlp_zero"
  by (simp add: wf_tlp_def tlp_zero_def)

lemma payload_word_zero [simp]: "k < 10 \<Longrightarrow> payload_word tlp_zero k = 0"
  by (simp add: payload_word_def tlp_zero_def Let_def)

lemma wf_tlp_update [simp]:
  "wf_tlp (t\<lparr>wtype := a\<rparr>) = wf_tlp t" "wf_tlp (t\<lparr>wflags := a\<rparr>) = wf_tlp t"
  "wf_tlp (t\<lparr>wtag := a\<rparr>) = wf_tlp t" "wf_tlp (t\<lparr>wchannel := a\<rparr>) = wf_tlp t"
  "wf_tlp (t\<lparr>target_address := b\<rparr>) = wf_tlp t" "wf_tlp (t\<lparr>length_dw := c\<rparr>) = wf_tlp t"
  "wf_tlp (t\<lparr>wsequence := c\<rparr>) = wf_tlp t" "wf_tlp (t\<lparr>timestamp_ns := d\<rparr>) = wf_tlp t"
  by (simp_all add: wf_tlp_def)

lemma payload_word_update [simp]:
  "payload_word (t\<lparr>wtype := a\<rparr>) k = payload_word t k"
  "payload_word (t\<lparr>wflags := a\<rparr>) k = payload_word t k"
  "payload_word (t\<lparr>wtag := a\<rparr>) k = payload_word t k"
  "payload_word (t\<lparr>wchannel := a\<rparr>) k = payload_word t k"
  "payload_word (t\<lparr>target_address := b\<rparr>) k = payload_word t k"
  "payload_word (t\<lparr>length_dw := c\<rparr>) k = payload_word t k"
  by (simp_all add: payload_word_def)

lemma set_payload_words_fold:
  assumes "wf_tlp t" and "n \<le> 10"
  shows "wf_tlp (fold (\<lambda>i t. set_payload_word i (f i) t) [0..<n] t) \<and>
    (\<forall>k<10. payload_word (fold (\<lambda>i t. set_payload_word i (f i) t) [0..<n] t) k =
       (if k < n then f k else payload_word t k)) \<and>
    length_dw (fold (\<lambda>i t. set_payload_word i (f i) t) [0..<n] t) = length_dw t"
  using assms(2)
proof (induction n)
  case 0
  then show ?case using assms(1) by simp
next
  case (Suc n)
  then show ?case by (auto simp: less_Suc_eq)
qed

lemma wf_write_payload [simp]:
  "wf_tlp t \<Longrightarrow> off + length bs \<le> 40 \<Longrightarrow> wf_tlp (write_payload off bs t)"
  by (simp add: wf_tlp_def write_payload_def)

lemma payload_write_payload [simp]: "payload (write_payload off bs t) = put_at off bs (payload t)"
  by (simp add: write_payload_def)

lemma length_header_bytes [simp]:
  "length (spi_req_bytes a) = 4" "length (spi_cpl_bytes b) = 4" "length (i2c_req_bytes c) = 8"
  "length (i2c_cpl_bytes d) = 4" "length (gpio_req_bytes e) = 12" "length (gpio_cpl_bytes f) = 16"
  by (simp_all add: spi_req_bytes_def spi_cpl_bytes_def i2c_req_bytes_def i2c_cpl_bytes_def
    gpio_req_bytes_def gpio_cpl_bytes_def)

text \<open>A header at offset 0 followed by data at its end: what the payload then holds.\<close>

lemma write_header_data:
  assumes "length p = 40" and "length hdr + length d \<le> 40"
  shows "put_at (length hdr) d (put_at 0 hdr p) = hdr @ d @ drop (length hdr + length d) p"
  using assms put_at_put_at_adjacent [of 0 hdr p "length hdr" d] by (simp add: put_at_def)

lemma write_payload_fields [simp]:
  "wtype (write_payload off bs t) = wtype t" "wflags (write_payload off bs t) = wflags t"
  "wtag (write_payload off bs t) = wtag t" "wchannel (write_payload off bs t) = wchannel t"
  "target_address (write_payload off bs t) = target_address t"
  "length_dw (write_payload off bs t) = length_dw t"
  "timestamp_ns (write_payload off bs t) = timestamp_ns t"
  by (simp_all add: write_payload_def)

lemma payload_zero [simp]: "payload tlp_zero = replicate 40 0"
  by (simp add: tlp_zero_def)

text \<open>The payload of the two data-carrying request and completion forms.\<close>

lemma payload_make_spi_transfer:
  "payload (make_spi_transfer b c tx r f tag ch) =
    spi_req_bytes \<lparr>sr_bus_id = b, sr_cs_pin = c, sr_tx_len = of_nat (min 36 (length tx)),
      sr_rx_len = r\<rparr> @ take 36 tx @ replicate (36 - length tx) 0"
  using write_header_data [of "replicate 40 0" "spi_req_bytes \<lparr>sr_bus_id = b, sr_cs_pin = c,
    sr_tx_len = of_nat (min 36 (length tx)), sr_rx_len = r\<rparr>" "take 36 tx"]
  by (cases "tx = []") (auto simp: make_spi_transfer_def Let_def min_def put_at_def)

lemma payload_make_spi_cpl:
  "payload (make_spi_cpl tag st rx dur ts ch) =
    spi_cpl_bytes \<lparr>sc_status = st, sc_transferred_len = of_nat (min 36 (length rx)),
      sc_bus_duration_us = dur\<rparr> @ take 36 rx @ replicate (36 - length rx) 0"
  using write_header_data [of "replicate 40 0" "spi_cpl_bytes \<lparr>sc_status = st,
    sc_transferred_len = of_nat (min 36 (length rx)), sc_bus_duration_us = dur\<rparr>" "take 36 rx"]
  by (cases "rx = []") (auto simp: make_spi_cpl_def Let_def min_def put_at_def)

lemma payload_make_i2c_write_reg:
  "payload (make_i2c_write_reg b a r tx tag ch) =
    i2c_req_bytes \<lparr>ir_bus_id = b, ir_slave_addr = a, ir_reg_offset = r,
      ir_sub_flags = ASP_I2C_FLAG_USE_REG, ir_tx_len = of_nat (min 32 (length tx)), ir_rx_len = 0,
      ir_reserved = 0\<rparr> @ take 32 tx @ replicate (32 - length tx) 0"
  using write_header_data [of "replicate 40 0" "i2c_req_bytes \<lparr>ir_bus_id = b, ir_slave_addr = a,
      ir_reg_offset = r, ir_sub_flags = ASP_I2C_FLAG_USE_REG,
      ir_tx_len = of_nat (min 32 (length tx)), ir_rx_len = 0, ir_reserved = 0\<rparr>" "take 32 tx"]
  by (cases "tx = []") (auto simp: make_i2c_write_reg_def Let_def min_def put_at_def)

lemma payload_make_i2c_cpl:
  "payload (make_i2c_cpl tag st rx dur ts ch) =
    i2c_cpl_bytes \<lparr>ic_status = st, ic_transferred_len = of_nat (min 36 (length rx)),
      ic_bus_duration_us = dur\<rparr> @ take 36 rx @ replicate (36 - length rx) 0"
  using write_header_data [of "replicate 40 0" "i2c_cpl_bytes \<lparr>ic_status = st,
    ic_transferred_len = of_nat (min 36 (length rx)), ic_bus_duration_us = dur\<rparr>" "take 36 rx"]
  by (cases "rx = []") (auto simp: make_i2c_cpl_def Let_def min_def put_at_def)

lemma unat_of_nat_min_36 [simp]: "unat (of_nat (min 36 n) :: u8) = min 36 n"
  by (rule unat_of_nat_small) simp

lemma unat_of_nat_min_32 [simp]: "unat (of_nat (min 32 n) :: u8) = min 32 n"
  by (rule unat_of_nat_small) simp

lemma of_nat_min_36_le [simp]: "\<not> 36 < (of_nat (min 36 n) :: u8)"
  by (simp add: word_less_nat_alt)

lemma of_nat_min_32_le [simp]: "\<not> 32 < (of_nat (min 32 n) :: u8)"
  by (simp add: word_less_nat_alt)

lemma take_min_append_replicate [simp]:
  "take (min k (length xs)) (take k xs @ ys) = take k xs"
  by (simp add: min_def)

lemma take_min_length [simp]: "take (min k (length xs)) xs = take k xs"
  by (simp add: min_def)

lemma wflags_spi_i2c_cpl [simp]:
  "wflags (make_spi_cpl tag st rx dur ts ch) = (if st = 0 then 0 else 1)"
  "wflags (make_i2c_cpl tag st rx dur ts ch) = (if st = 0 then 0 else 1)"
  by (simp_all add: make_spi_cpl_def make_i2c_cpl_def Let_def)

lemma payload_make_i2c_read_reg:
  "payload (make_i2c_read_reg b a r rx_len tag ch) =
    i2c_req_bytes \<lparr>ir_bus_id = b, ir_slave_addr = a, ir_reg_offset = r,
      ir_sub_flags = ASP_I2C_FLAG_USE_REG OR ASP_I2C_FLAG_REPEATED_START, ir_tx_len = 0,
      ir_rx_len = rx_len, ir_reserved = 0\<rparr> @ replicate 32 0"
  by (simp add: make_i2c_read_reg_def put_at_def)

section \<open>Properties of the packet\<close>

text \<open>
  (C38) Storing a TLP byte by byte into a 64-byte transport slot and loading it back gives the same
  TLP, whatever the slot and the destination held before; loading 64 arbitrary bytes and storing
  them again gives the same bytes. So the unaligned in-buffer form and the aligned structure carry
  the same information.
\<close>

theorem tlp_store_load_roundtrip:
  assumes "wf_tlp t" and "wf_tlp d" and "length slot = 64" and "length bs = 64"
  shows "length (tlp_store slot t) = 64 \<and> tlp_load d (tlp_store slot t) = t \<and>
    tlp_store slot (tlp_load d bs) = bs"
  using assms by (simp add: tlp_store_eq tlp_load_eq)

theorem tlp_store_load_roundtrip_witness:
  "tlp_load tlp_zero (tlp_store (replicate 64 7) (make_mem_write 0x40000300 0xDEADBEEF 5)) =
    make_mem_write 0x40000300 0xDEADBEEF 5"
  using tlp_store_load_roundtrip [of "make_mem_write 0x40000300 0xDEADBEEF 5" tlp_zero
    "replicate 64 7" "replicate 64 1"]
  by (simp add: make_mem_write_def)

text \<open>
  A burst write carries at most nine words: word \<open>k\<close> of the payload is the caller's
  \<open>k\<close>-th value below the clamped count and zero above it, the length field is the clamped count,
  and the payload keeps its 40 bytes.
\<close>

theorem mem_write_burst_words:
  assumes "k < 10"
  shows "wf_tlp (make_mem_write_burst addr vals count tag) \<and>
    unat (length_dw (make_mem_write_burst addr vals count tag)) = min 9 (unat count) \<and>
    payload_word (make_mem_write_burst addr vals count tag) k =
      (if k < min 9 (unat count) then vals ! k else 0)"
proof -
  let ?m = "if count > 9 then 9 else count"
  have m: "unat ?m = min 9 (unat count)"
    by (auto simp: word_less_nat_alt min_def)
  then have le: "unat ?m \<le> 10" by simp
  have len: "unat (ucast ?m :: u16) = min 9 (unat count)"
    using m by (simp only: unsigned_ucast_eq) (simp add: take_bit_nat_eq_self)
  show ?thesis
    using set_payload_words_fold [OF _ le, of "tlp_zero\<lparr>wtype := tlp_type_code MemWrite,
      wtag := tag, wchannel := channel_code Control, target_address := addr,
      length_dw := ucast ?m\<rparr>" "\<lambda>i. vals ! i"] assms
    unfolding make_mem_write_burst_def Let_def m by (simp add: len del: if_distrib)
qed

theorem mem_write_burst_words_witness:
  "payload_word (make_mem_write_burst 0x40000300 [10, 20, 30] 3 9) 1 = 20"
  using mem_write_burst_words [of 1 "0x40000300" "[10, 20, 30]" 3 9] by simp

text \<open>
  The SPI view reads back what the SPI constructors wrote, on both directions: a request
  carries its bus, chip select, requested receive length and the first 36 transmit bytes, a
  completion its status, duration and the first 36 received bytes, and the error flag is set
  exactly for a non-zero status.
\<close>

theorem spi_view_roundtrip:
  "spi_view_tx_data (make_spi_transfer bus cs tx rx_len flags tag ch) = take 36 tx \<and>
   spi_view_req_header (make_spi_transfer bus cs tx rx_len flags tag ch) =
     \<lparr>sr_bus_id = bus, sr_cs_pin = cs, sr_tx_len = of_nat (min 36 (length tx)), sr_rx_len = rx_len\<rparr> \<and>
   spi_view_rx_data (make_spi_cpl tag st rx dur ts ch) = take 36 rx \<and>
   spi_view_cpl_header (make_spi_cpl tag st rx dur ts ch) =
     \<lparr>sc_status = st, sc_transferred_len = of_nat (min 36 (length rx)), sc_bus_duration_us = dur\<rparr> \<and>
   (is_error (make_spi_cpl tag st rx dur ts ch) \<longleftrightarrow> st \<noteq> 0)"
  by (simp add: spi_view_tx_data_def spi_view_req_header_def spi_view_rx_data_def
    spi_view_cpl_header_def payload_make_spi_transfer payload_make_spi_cpl spi_req_bytes_def
    spi_cpl_bytes_def Let_def is_error_def)

text \<open>
  The I2C view reads back what the I2C constructors wrote: a register write carries bus,
  slave address, register and the first 32 data bytes, a register read asks for \<open>rx_len\<close> bytes
  with the repeated-start flags and no transmit data, and a completion carries status, duration
  and the first 36 received bytes.
\<close>

theorem i2c_view_roundtrip:
  "i2c_view_tx_data (make_i2c_write_reg bus addr reg tx tag ch) = take 32 tx \<and>
   i2c_view_req_header (make_i2c_write_reg bus addr reg tx tag ch) =
     \<lparr>ir_bus_id = bus, ir_slave_addr = addr, ir_reg_offset = reg, ir_sub_flags = ASP_I2C_FLAG_USE_REG,
      ir_tx_len = of_nat (min 32 (length tx)), ir_rx_len = 0, ir_reserved = 0\<rparr> \<and>
   i2c_view_req_header (make_i2c_read_reg bus addr reg rx_len tag ch) =
     \<lparr>ir_bus_id = bus, ir_slave_addr = addr, ir_reg_offset = reg,
      ir_sub_flags = ASP_I2C_FLAG_USE_REG OR ASP_I2C_FLAG_REPEATED_START,
      ir_tx_len = 0, ir_rx_len = rx_len, ir_reserved = 0\<rparr> \<and>
   i2c_view_tx_data (make_i2c_read_reg bus addr reg rx_len tag ch) = [] \<and>
   i2c_view_rx_data (make_i2c_cpl tag st rx dur ts ch) = take 36 rx \<and>
   i2c_view_cpl_header (make_i2c_cpl tag st rx dur ts ch) =
     \<lparr>ic_status = st, ic_transferred_len = of_nat (min 36 (length rx)), ic_bus_duration_us = dur\<rparr> \<and>
   (is_error (make_i2c_cpl tag st rx dur ts ch) \<longleftrightarrow> st \<noteq> 0)"
  by (simp add: i2c_view_tx_data_def i2c_view_req_header_def i2c_view_rx_data_def
    i2c_view_cpl_header_def payload_make_i2c_write_reg payload_make_i2c_cpl payload_make_i2c_read_reg
    i2c_req_bytes_def i2c_cpl_bytes_def Let_def is_error_def)

end
