(* ===== verification/Ring_Buffers.thy ===== *)
theory Ring_Buffers
  imports Prelude
begin

text \<open>
  The bounded rings of the code: \<open>SpscRingBuffer\<close>, \<open>SpscChannelArray\<close> and \<open>MpscRingBuffer\<close>
  of \<open>include/tlp_ring.hpp\<close>, \<open>FrameRing\<close> of \<open>targets/pico2w_rp2350/include/hal/frame_ring.hpp\<close>
  and \<open>events::Ring\<close> of \<open>include/abstractx/trace/event_trace.hpp\<close>. All of them keep two
  free-running machine indices and mask them into a power-of-two array; the index width is the
  type variable \<open>'w\<close>, so a result covers both 32-bit and 64-bit \<open>size_t\<close>. The locale
  \<open>bounded_fifo\<close> states what a client of a ring relies on, and each ring is shown to provide it.
\<close>

section \<open>Free-running indices\<close>

definition slot :: "nat \<Rightarrow> 'w::len word \<Rightarrow> nat" where
  "slot cap i = unat (i AND (of_nat cap - 1))"

definition ring_cap :: "nat \<Rightarrow> 'w::len itself \<Rightarrow> bool" where
  "ring_cap cap w \<longleftrightarrow> (\<exists>k < LENGTH('w). cap = 2 ^ k)"

definition ring_contents :: "'a list \<Rightarrow> 'w::len word \<Rightarrow> 'w word \<Rightarrow> 'a list" where
  "ring_contents buf h t = map (\<lambda>i. buf ! slot (length buf) (h + of_nat i)) [0..<unat (t - h)]"

lemma length_ring_contents [simp]: "length (ring_contents buf h t) = unat (t - h)"
  by (simp add: ring_contents_def)

lemma ring_contents_self [simp]: "ring_contents buf h h = []"
  by (simp add: ring_contents_def)

lemma ring_contents_Nil_iff [simp]: "ring_contents buf h t = [] \<longleftrightarrow> h = t"
  by (auto simp: ring_contents_def)

lemma ring_capE:
  assumes "ring_cap cap TYPE('w::len)"
  obtains k where "k < LENGTH('w)" and "cap = 2 ^ k"
  using assms by (auto simp: ring_cap_def)

lemma ring_cap_less: "ring_cap cap TYPE('w::len) \<Longrightarrow> cap < 2 ^ LENGTH('w)"
  by (auto simp: ring_cap_def)

lemma ring_cap_pos: "ring_cap cap TYPE('w::len) \<Longrightarrow> 0 < cap"
  by (auto simp: ring_cap_def)

lemma slot_eq_mod:
  assumes "ring_cap cap TYPE('w::len)"
  shows "slot cap (i :: 'w word) = unat i mod cap"
  using assms by (auto simp: ring_cap_def slot_def unat_and_exp_minus_1)

lemma slot_less [simp]:
  "ring_cap cap TYPE('w::len) \<Longrightarrow> slot cap (i :: 'w word) < cap"
  by (simp add: slot_eq_mod ring_cap_pos)

lemma slot_add:
  assumes "ring_cap cap TYPE('w::len)"
  shows "slot cap ((i :: 'w word) + of_nat n) = (unat i + n) mod cap"
  using assms
  by (auto simp: slot_eq_mod [OF assms] elim!: ring_capE intro!: unat_add_of_nat_mod)

text \<open>Two positions less than a capacity apart use different slots.\<close>

lemma slot_eq_imp_dist:
  assumes "ring_cap cap TYPE('w::len)" and "slot cap (a :: 'w word) = slot cap b"
    and "unat (b - a) < cap"
  shows "a = b"
proof -
  have "b = a + of_nat (unat (b - a))" by simp
  then have "(unat a + unat (b - a)) mod cap = unat a mod cap"
    using assms(1,2) slot_add [OF assms(1), of a "unat (b - a)"] by (simp add: slot_eq_mod)
  then have "cap dvd unat (b - a)"
    by (simp add: mod_eq_dvd_iff_nat)
  then have "unat (b - a) = 0"
    using assms(3) nat_dvd_not_less by blast
  then show ?thesis by simp
qed

lemma ring_contents_nth:
  "i < unat (t - h) \<Longrightarrow> ring_contents buf h t ! i = buf ! slot (length buf) (h + of_nat i)"
  by (simp add: ring_contents_def)

lemma slot_occupied_ne:
  assumes "ring_cap cap TYPE('w::len)" and "unat (t - h :: 'w word) < cap" and "i < unat (t - h)"
  shows "slot cap (h + of_nat i) \<noteq> slot cap t"
proof -
  have small: "unat (of_nat i :: 'w word) = i"
    using assms ring_cap_less [OF assms(1)] by (intro unat_of_nat_small) simp
  have "h + of_nat i \<noteq> t" using assms(3) small by auto
  moreover have "unat (t - (h + of_nat i)) < cap"
  proof -
    have "t - (h + of_nat i) = (t - h) - of_nat i" by simp
    moreover have "(of_nat i :: 'w word) \<le> t - h"
      using assms(3) small by (simp add: word_le_nat_alt)
    ultimately have "unat (t - (h + of_nat i)) = unat (t - h) - i"
      using small by (metis unat_sub)
    then show ?thesis using assms(2) by simp
  qed
  ultimately show ?thesis
    using slot_eq_imp_dist [OF assms(1)] by blast
qed

text \<open>Writing the slot behind the newest item does not disturb the queued items.\<close>

lemma ring_contents_write:
  assumes "ring_cap (length buf) TYPE('w::len)" and "unat (t - h :: 'w word) < length buf"
  shows "ring_contents (buf[slot (length buf) t := v]) h t = ring_contents buf h t"
  using assms
  by (intro nth_equalityI) (simp_all add: ring_contents_nth slot_occupied_ne [THEN not_sym])

lemma ring_contents_snoc:
  assumes "unat (t - h :: 'w::len word) < n" and "n < 2 ^ LENGTH('w)"
  shows "ring_contents buf h (t + 1) = ring_contents buf h t @ [buf ! slot (length buf) t]"
  using word_diff_add_one [OF assms] by (simp add: ring_contents_def)

lemma ring_contents_push:
  assumes "ring_cap (length buf) TYPE('w::len)" and "unat (t - h :: 'w word) < length buf"
  shows "ring_contents (buf[slot (length buf) t := v]) h (t + 1) = ring_contents buf h t @ [v]"
  using ring_contents_snoc [OF assms(2) ring_cap_less [OF assms(1)],
      of "buf[slot (length buf) t := v]"] ring_contents_write [OF assms, of v] assms(1)
  by simp

lemma ring_contents_pop:
  assumes "h \<noteq> (t :: 'w::len word)"
  shows "ring_contents buf h t = buf ! slot (length buf) h # ring_contents buf (h + 1) t"
proof -
  have len: "unat (t - h) = Suc (unat (t - (h + 1)))"
    using assms word_diff_sub_one [OF assms [symmetric]] unat_diff_eq_0_iff [of t h]
    by (metis Suc_pred' bot_nat_0.not_eq_extremum)
  show ?thesis
    unfolding ring_contents_def len
    by (simp add: upt_conv_Cons map_Suc_upt [symmetric] ac_simps del: upt_Suc)
qed

section \<open>The contract of a bounded queue\<close>

text \<open>
  \<open>acc\<close> says which items a queue takes at all; a full queue or an unacceptable item makes
  \<open>push\<close> return false and leaves the contents alone.
\<close>

datatype 'a queue_op = OpPush 'a | OpPop

datatype 'a queue_res = Pushed bool | Popped "'a option"

fun fifo_step :: "('a \<Rightarrow> bool) \<Rightarrow> nat \<Rightarrow> 'a queue_op \<Rightarrow> 'a list \<Rightarrow> 'a queue_res \<times> 'a list" where
  "fifo_step acc cap (OpPush x) xs =
    (if acc x \<and> length xs < cap then (Pushed True, xs @ [x]) else (Pushed False, xs))"
| "fifo_step acc cap OpPop [] = (Popped None, [])"
| "fifo_step acc cap OpPop (x # xs) = (Popped (Some x), xs)"

fun fifo_run :: "('a \<Rightarrow> bool) \<Rightarrow> nat \<Rightarrow> 'a queue_op list \<Rightarrow> 'a list \<Rightarrow>
    'a queue_res list \<times> 'a list" where
  "fifo_run acc cap [] xs = ([], xs)"
| "fifo_run acc cap (p # ps) xs =
    (let (r, xs) = fifo_step acc cap p xs; (rs, xs) = fifo_run acc cap ps xs in (r # rs, xs))"

fun queue_step :: "('a \<Rightarrow> 's \<Rightarrow> bool \<times> 's) \<Rightarrow> ('s \<Rightarrow> 'a option \<times> 's) \<Rightarrow> 'a queue_op \<Rightarrow> 's \<Rightarrow>
    'a queue_res \<times> 's" where
  "queue_step push pop (OpPush x) s = (let (b, s) = push x s in (Pushed b, s))"
| "queue_step push pop OpPop s = (let (v, s) = pop s in (Popped v, s))"

fun queue_run :: "('a \<Rightarrow> 's \<Rightarrow> bool \<times> 's) \<Rightarrow> ('s \<Rightarrow> 'a option \<times> 's) \<Rightarrow> 'a queue_op list \<Rightarrow> 's \<Rightarrow>
    'a queue_res list \<times> 's" where
  "queue_run push pop [] s = ([], s)"
| "queue_run push pop (p # ps) s =
    (let (r, s) = queue_step push pop p s; (rs, s) = queue_run push pop ps s in (r # rs, s))"

text \<open>The drain loop \<open>while (pop(item)) handler(item)\<close>; it may in principle not end.\<close>

partial_function (option) drain_loop ::
    "('s \<Rightarrow> 'a option \<times> 's) \<Rightarrow> ('a \<Rightarrow> 'h \<Rightarrow> 'h) \<Rightarrow> nat \<Rightarrow> 's \<Rightarrow> 'h \<Rightarrow> (nat \<times> 's \<times> 'h) option" where
  "drain_loop pop handler processed s hs =
    (case pop s of (None, s') \<Rightarrow> Some (processed, s', hs)
     | (Some x, s') \<Rightarrow> drain_loop pop handler (Suc processed) s' (handler x hs))"

locale bounded_fifo =
  fixes inv :: "'s \<Rightarrow> bool"
    and contents :: "'s \<Rightarrow> 'a list"
    and cap :: nat
    and acc :: "'a \<Rightarrow> bool"
    and push :: "'a \<Rightarrow> 's \<Rightarrow> bool \<times> 's"
    and pop :: "'s \<Rightarrow> 'a option \<times> 's"
  assumes length_le_cap: "inv s \<Longrightarrow> length (contents s) \<le> cap"
    and push_ok: "inv s \<Longrightarrow> acc x \<Longrightarrow> length (contents s) < cap \<Longrightarrow>
      fst (push x s) \<and> inv (snd (push x s)) \<and> contents (snd (push x s)) = contents s @ [x]"
    and push_no: "inv s \<Longrightarrow> \<not> (acc x \<and> length (contents s) < cap) \<Longrightarrow>
      \<not> fst (push x s) \<and> inv (snd (push x s)) \<and> contents (snd (push x s)) = contents s"
    and pop_empty: "inv s \<Longrightarrow> contents s = [] \<Longrightarrow>
      fst (pop s) = None \<and> inv (snd (pop s)) \<and> contents (snd (pop s)) = []"
    and pop_ok: "inv s \<Longrightarrow> contents s = x # xs \<Longrightarrow>
      fst (pop s) = Some x \<and> inv (snd (pop s)) \<and> contents (snd (pop s)) = xs"
begin

lemma queue_step_refines:
  assumes "inv s"
  shows "fst (queue_step push pop p s) = fst (fifo_step acc cap p (contents s))"
    and "contents (snd (queue_step push pop p s)) = snd (fifo_step acc cap p (contents s))"
    and "inv (snd (queue_step push pop p s))"
proof -
  have "fst (queue_step push pop p s) = fst (fifo_step acc cap p (contents s)) \<and>
    contents (snd (queue_step push pop p s)) = snd (fifo_step acc cap p (contents s)) \<and>
    inv (snd (queue_step push pop p s))"
  proof (cases p)
    case (OpPush x)
    then show ?thesis
      using push_ok [OF assms, of x] push_no [OF assms, of x]
      by (cases "acc x \<and> length (contents s) < cap") (auto split: prod.split)
  next
    case OpPop
    then show ?thesis
      using pop_empty [OF assms] pop_ok [OF assms]
      by (cases "contents s") (auto split: prod.split)
  qed
  then show "fst (queue_step push pop p s) = fst (fifo_step acc cap p (contents s))"
    and "contents (snd (queue_step push pop p s)) = snd (fifo_step acc cap p (contents s))"
    and "inv (snd (queue_step push pop p s))" by auto
qed

lemma queue_run_refines:
  "inv s \<Longrightarrow>
    fst (queue_run push pop ps s) = fst (fifo_run acc cap ps (contents s)) \<and>
    contents (snd (queue_run push pop ps s)) = snd (fifo_run acc cap ps (contents s)) \<and>
    inv (snd (queue_run push pop ps s))"
proof (induction ps arbitrary: s)
  case Nil
  then show ?case by simp
next
  case (Cons p ps)
  show ?case
    using queue_step_refines [OF Cons.prems, of p] Cons.IH [of "snd (queue_step push pop p s)"]
    by (auto split: prod.split prod.splits)
qed

lemma drain_loop_total:
  "inv s \<Longrightarrow> \<exists>s'. drain_loop pop handler n s hs =
      Some (n + length (contents s), s', fold handler (contents s) hs) \<and> inv s' \<and> contents s' = []"
proof (induction "contents s" arbitrary: s n hs)
  case Nil
  then show ?case
    using pop_empty [OF Nil.prems] by (subst drain_loop.simps) (auto split: prod.split)
next
  case (Cons x xs)
  obtain s' where s': "pop s = (Some x, s')" "inv s'" "contents s' = xs"
    using pop_ok [OF Cons.prems Cons.hyps(2) [symmetric]] by (metis prod.collapse)
  have "drain_loop pop handler n s hs = drain_loop pop handler (Suc n) s' (handler x hs)"
    by (subst drain_loop.simps) (simp add: s')
  with Cons.hyps(1) [of s' "Suc n" "handler x hs"] s' Cons.hyps(2) [symmetric]
  show ?case by simp
qed

end

section \<open>SpscRingBuffer\<close>

record (overloaded) ('a, 'w) spsc =
  sp_buffer :: "'a list"
  sp_head :: "'w::len word"
  sp_tail :: "'w word"

definition spsc_push :: "'a \<Rightarrow> ('a, 'w::len) spsc \<Rightarrow> bool \<times> ('a, 'w) spsc" where
  "spsc_push item s =
    (let current_tail = sp_tail s; current_head = sp_head s; capacity = length (sp_buffer s) in
     if current_tail - current_head \<ge> of_nat capacity then (False, s)
     else (True, s\<lparr>sp_buffer := (sp_buffer s)[slot capacity current_tail := item],
       sp_tail := current_tail + 1\<rparr>))"

definition spsc_pop :: "('a, 'w::len) spsc \<Rightarrow> 'a option \<times> ('a, 'w) spsc" where
  "spsc_pop s =
    (let current_head = sp_head s; current_tail = sp_tail s in
     if current_head = current_tail then (None, s)
     else (Some (sp_buffer s ! slot (length (sp_buffer s)) current_head),
           s\<lparr>sp_head := current_head + 1\<rparr>))"

definition spsc_pop_ref :: "'a \<Rightarrow> ('a, 'w::len) spsc \<Rightarrow> bool \<times> 'a \<times> ('a, 'w) spsc" where
  "spsc_pop_ref item s =
    (let current_head = sp_head s; current_tail = sp_tail s in
     if current_head = current_tail then (False, item, s)
     else (True, sp_buffer s ! slot (length (sp_buffer s)) current_head,
           s\<lparr>sp_head := current_head + 1\<rparr>))"

definition spsc_capacity :: "('a, 'w::len) spsc \<Rightarrow> nat" where
  "spsc_capacity s = length (sp_buffer s)"

definition spsc_size :: "('a, 'w::len) spsc \<Rightarrow> 'w word" where
  "spsc_size s = sp_tail s - sp_head s"

definition spsc_empty :: "('a, 'w::len) spsc \<Rightarrow> bool" where
  "spsc_empty s \<longleftrightarrow> spsc_size s = 0"

definition spsc_full :: "('a, 'w::len) spsc \<Rightarrow> bool" where
  "spsc_full s \<longleftrightarrow> spsc_size s \<ge> of_nat (spsc_capacity s)"

definition spsc_clear :: "('a, 'w::len) spsc \<Rightarrow> ('a, 'w) spsc" where
  "spsc_clear s = s\<lparr>sp_head := 0, sp_tail := 0\<rparr>"

definition spsc_contents :: "('a, 'w::len) spsc \<Rightarrow> 'a list" where
  "spsc_contents s = ring_contents (sp_buffer s) (sp_head s) (sp_tail s)"

definition spsc_inv :: "nat \<Rightarrow> ('a, 'w::len) spsc \<Rightarrow> bool" where
  "spsc_inv cap s \<longleftrightarrow> length (sp_buffer s) = cap \<and> ring_cap cap TYPE('w) \<and>
     unat (sp_tail s - sp_head s) \<le> cap"

lemma word_ge_cap_iff:
  "ring_cap cap TYPE('w::len) \<Longrightarrow> (of_nat cap \<le> (x :: 'w word)) = (cap \<le> unat x)"
  by (simp add: word_le_nat_alt unat_of_nat_small ring_cap_less)

interpretation spsc: bounded_fifo "spsc_inv cap" spsc_contents cap "\<lambda>_. True" spsc_push spsc_pop
  for cap
proof unfold_locales
  fix s :: "('a, 'w::len) spsc" and x :: 'a and xs
  assume inv: "spsc_inv cap s"
  note defs = spsc_inv_def spsc_contents_def spsc_push_def spsc_pop_def Let_def
  show "length (spsc_contents s) \<le> cap" using inv by (simp add: defs)
  show "fst (spsc_push x s) \<and> spsc_inv cap (snd (spsc_push x s)) \<and>
    spsc_contents (snd (spsc_push x s)) = spsc_contents s @ [x]"
    if "length (spsc_contents s) < cap"
    using inv that ring_contents_push [of "sp_buffer s" "sp_tail s" "sp_head s" x]
      word_diff_add_one [of "sp_tail s" "sp_head s" cap]
    by (auto simp: defs word_ge_cap_iff ring_cap_less)
  show "\<not> fst (spsc_push x s) \<and> spsc_inv cap (snd (spsc_push x s)) \<and>
    spsc_contents (snd (spsc_push x s)) = spsc_contents s"
    if "\<not> (True \<and> length (spsc_contents s) < cap)"
    using inv that by (auto simp: defs word_ge_cap_iff)
  show "fst (spsc_pop s) = None \<and> spsc_inv cap (snd (spsc_pop s)) \<and>
    spsc_contents (snd (spsc_pop s)) = []"
    if "spsc_contents s = []"
    using inv that by (auto simp: defs)
  show "fst (spsc_pop s) = Some x \<and> spsc_inv cap (snd (spsc_pop s)) \<and>
    spsc_contents (snd (spsc_pop s)) = xs"
    if c: "spsc_contents s = x # xs"
  proof -
    have ne: "sp_head s \<noteq> sp_tail s" using c by (auto simp: defs)
    then show ?thesis
      using inv c ring_contents_pop [OF ne, of "sp_buffer s"] word_diff_sub_one [OF ne [symmetric]]
      by (auto simp: defs)
  qed
qed

section \<open>SpscChannelArray\<close>

type_synonym ('a, 'w) spsc_channels = "('a, 'w) spsc list"

definition channels_push ::
    "nat \<Rightarrow> 'a \<Rightarrow> ('a, 'w::len) spsc_channels \<Rightarrow> bool \<times> ('a, 'w) spsc_channels" where
  "channels_push ch item cs =
    (if ch \<ge> length cs then (False, cs)
     else let (b, c) = spsc_push item (cs ! ch) in (b, cs[ch := c]))"

definition channels_pop ::
    "nat \<Rightarrow> 'a \<Rightarrow> ('a, 'w::len) spsc_channels \<Rightarrow> bool \<times> 'a \<times> ('a, 'w) spsc_channels" where
  "channels_pop ch item cs =
    (if ch \<ge> length cs then (False, item, cs)
     else let (b, v, c) = spsc_pop_ref item (cs ! ch) in (b, v, cs[ch := c]))"

fun drain_from :: "(nat \<Rightarrow> 'a \<Rightarrow> 'h \<Rightarrow> 'h) \<Rightarrow> nat \<Rightarrow> nat \<Rightarrow> ('a, 'w::len) spsc_channels \<Rightarrow> 'h \<Rightarrow>
    (nat \<times> ('a, 'w) spsc_channels \<times> 'h) option" where
  "drain_from handler ch processed [] hs = Some (processed, [], hs)"
| "drain_from handler ch processed (c # cs) hs =
    (case drain_loop spsc_pop (handler ch) processed c hs of
       None \<Rightarrow> None
     | Some (processed, c, hs) \<Rightarrow>
        (case drain_from handler (Suc ch) processed cs hs of
           None \<Rightarrow> None
         | Some (processed, cs, hs) \<Rightarrow> Some (processed, c # cs, hs)))"

definition drain_all :: "(nat \<Rightarrow> 'a \<Rightarrow> 'h \<Rightarrow> 'h) \<Rightarrow> ('a, 'w::len) spsc_channels \<Rightarrow> 'h \<Rightarrow>
    (nat \<times> ('a, 'w) spsc_channels \<times> 'h) option" where
  "drain_all handler cs hs = drain_from handler 0 0 cs hs"

text \<open>The items of all channels in the order the drain visits them, each with its channel.\<close>

fun tagged_contents :: "nat \<Rightarrow> ('a, 'w::len) spsc_channels \<Rightarrow> (nat \<times> 'a) list" where
  "tagged_contents ch [] = []"
| "tagged_contents ch (c # cs) = map (Pair ch) (spsc_contents c) @ tagged_contents (Suc ch) cs"

lemma fold_map_Pair: "fold (\<lambda>(ch, x) h. f ch x h) (map (Pair c) xs) h = fold (f c) xs h"
  by (induction xs arbitrary: h) simp_all

lemma drain_from_total:
  "list_all (spsc_inv cap) cs \<Longrightarrow> \<exists>cs'. drain_from handler ch n cs hs =
      Some (n + length (tagged_contents ch cs), cs',
        fold (\<lambda>(ch, x) h. handler ch x h) (tagged_contents ch cs) hs) \<and>
      length cs' = length cs \<and> list_all (\<lambda>c. spsc_inv cap c \<and> spsc_contents c = []) cs'"
proof (induction cs arbitrary: ch n hs)
  case Nil
  then show ?case by simp
next
  case (Cons c cs)
  let ?m = "n + length (spsc_contents c)" and ?h = "fold (handler ch) (spsc_contents c) hs"
  obtain c' where c': "drain_loop spsc_pop (handler ch) n c hs = Some (?m, c', ?h)"
    "spsc_inv cap c'" "spsc_contents c' = []"
    using spsc.drain_loop_total [of cap c "handler ch" n hs] Cons.prems by auto
  show ?case
    using Cons.IH [of "Suc ch" ?m ?h] Cons.prems c' by (auto simp: fold_map_Pair)
qed

section \<open>FrameRing\<close>

text \<open>
  A slot is its \<open>SlotBytes\<close> data bytes and the 16-bit length of the published frame. \<open>acquire\<close>
  hands out a span into the slot array; a span is identified by its slot index.
\<close>

record frame_slot =
  fs_data :: "u8 list"
  fs_len :: u16

record frame_ring =
  fr_head :: u32
  fr_tail :: u32
  fr_dropped :: u32
  fr_slots :: "frame_slot list"

definition frame_acquire :: "frame_ring \<Rightarrow> nat option" where
  "frame_acquire r =
    (if fr_head r - fr_tail r \<ge> of_nat (length (fr_slots r)) then None
     else Some (slot (length (fr_slots r)) (fr_head r)))"

definition frame_commit :: "nat \<Rightarrow> nat \<Rightarrow> frame_ring \<Rightarrow> bool \<times> frame_ring" where
  "frame_commit buffer used r =
    (let head = fr_head r; i = slot (length (fr_slots r)) head; s = fr_slots r ! i in
     if buffer \<noteq> i \<or> used = 0 \<or> used > length (fs_data s) then (False, r)
     else (True, r\<lparr>fr_slots := (fr_slots r)[i := s\<lparr>fs_len := of_nat used\<rparr>],
                    fr_head := head + 1\<rparr>))"

definition frame_note_drop :: "frame_ring \<Rightarrow> frame_ring" where
  "frame_note_drop r = r\<lparr>fr_dropped := fr_dropped r + 1\<rparr>"

text \<open>\<open>None\<close> is the null data pointer; the length argument is the length of the bytes passed.\<close>

definition frame_push :: "nat \<Rightarrow> u8 list option \<Rightarrow> frame_ring \<Rightarrow> bool \<times> frame_ring" where
  "frame_push slot_bytes data r =
    (case data of
       None \<Rightarrow> (False, frame_note_drop r)
     | Some bytes \<Rightarrow>
        if length bytes = 0 \<or> length bytes > slot_bytes then (False, frame_note_drop r)
        else (case frame_acquire r of
           None \<Rightarrow> (False, frame_note_drop r)
         | Some i \<Rightarrow>
            let s = fr_slots r ! i;
                d = copy_loop (length bytes) bytes (fs_data s)
            in frame_commit i (length bytes)
                 (r\<lparr>fr_slots := (fr_slots r)[i := s\<lparr>fs_data := d\<rparr>]\<rparr>)))"

definition frame_peek :: "frame_ring \<Rightarrow> u8 list" where
  "frame_peek r =
    (if fr_tail r = fr_head r then []
     else let s = fr_slots r ! slot (length (fr_slots r)) (fr_tail r)
          in take (unat (fs_len s)) (fs_data s))"

definition frame_release :: "frame_ring \<Rightarrow> frame_ring" where
  "frame_release r = (if fr_tail r \<noteq> fr_head r then r\<lparr>fr_tail := fr_tail r + 1\<rparr> else r)"

definition frame_size :: "frame_ring \<Rightarrow> u32" where
  "frame_size r = fr_head r - fr_tail r"

definition frame_bytes :: "frame_slot \<Rightarrow> u8 list" where
  "frame_bytes s = take (unat (fs_len s)) (fs_data s)"

definition frame_contents :: "frame_ring \<Rightarrow> u8 list list" where
  "frame_contents r = map frame_bytes (ring_contents (fr_slots r) (fr_tail r) (fr_head r))"

text \<open>The consumer takes a frame by \<open>peek\<close> and \<open>release\<close>.\<close>

definition frame_take :: "frame_ring \<Rightarrow> u8 list option \<times> frame_ring" where
  "frame_take r = (let f = frame_peek r in if f = [] then (None, r) else (Some f, frame_release r))"

definition frame_inv :: "nat \<Rightarrow> nat \<Rightarrow> frame_ring \<Rightarrow> bool" where
  "frame_inv slots slot_bytes r \<longleftrightarrow> length (fr_slots r) = slots \<and> ring_cap slots TYPE(32) \<and>
     slot_bytes < 2 ^ 16 \<and> (\<forall>s \<in> set (fr_slots r). length (fs_data s) = slot_bytes) \<and>
     unat (fr_head r - fr_tail r) \<le> slots \<and> [] \<notin> set (frame_contents r)"

definition frame_ok :: "nat \<Rightarrow> u8 list \<Rightarrow> bool" where
  "frame_ok slot_bytes bytes \<longleftrightarrow> 0 < length bytes \<and> length bytes \<le> slot_bytes"

lemma ring_contents_map: "map f (ring_contents buf h t) = ring_contents (map f buf) h t"
  if "ring_cap (length buf) TYPE('w)" for h t :: "'w::len word"
  using that by (simp add: ring_contents_def)

lemma frame_contents_eq:
  "ring_cap (length (fr_slots r)) TYPE(32) \<Longrightarrow>
    frame_contents r = ring_contents (map frame_bytes (fr_slots r)) (fr_tail r) (fr_head r)"
  by (simp add: frame_contents_def ring_contents_map)

text \<open>A successful push rewrites one slot with the frame and publishes it.\<close>

lemma frame_push_success:
  assumes inv: "frame_inv slots sb r" and ok: "frame_ok sb bytes"
    and room: "unat (fr_head r - fr_tail r) < slots"
  shows "\<exists>s. frame_push sb (Some bytes) r =
      (True, r\<lparr>fr_slots := (fr_slots r)[slot slots (fr_head r) := s], fr_head := fr_head r + 1\<rparr>) \<and>
      frame_bytes s = bytes \<and> length (fs_data s) = sb"
proof -
  let ?i = "slot slots (fr_head r)" and ?s = "fr_slots r ! slot slots (fr_head r)"
  have i: "?i < slots" and len: "length (fr_slots r) = slots"
    using inv by (simp_all add: frame_inv_def)
  have sb: "length (fs_data ?s) = sb" "length bytes \<le> sb" "bytes \<noteq> []" "length bytes < 2 ^ 16"
    using inv ok i len by (auto simp: frame_inv_def frame_ok_def)
  have acq: "frame_acquire r = Some ?i"
    using inv room by (simp add: frame_acquire_def frame_inv_def word_ge_cap_iff)
  show ?thesis
    using i len sb acq
    by (intro exI [of _ "?s\<lparr>fs_data := bytes @ drop (length bytes) (fs_data ?s),
        fs_len := of_nat (length bytes)\<rparr>"])
      (simp add: frame_push_def frame_commit_def Let_def copy_loop_eq frame_bytes_def
        unat_of_nat_small)
qed

lemma frame_push_failure:
  assumes inv: "frame_inv slots sb r"
    and no: "\<not> (frame_ok sb bytes \<and> unat (fr_head r - fr_tail r) < slots)"
  shows "frame_push sb (Some bytes) r = (False, frame_note_drop r)"
  using inv no
  by (auto simp: frame_push_def frame_acquire_def frame_ok_def frame_inv_def word_ge_cap_iff)

interpretation frames: bounded_fifo "frame_inv slots sb" frame_contents slots "frame_ok sb"
    "\<lambda>bytes. frame_push sb (Some bytes)" frame_take
  for slots sb
proof unfold_locales
  fix r :: frame_ring and x :: "u8 list" and xs
  assume inv: "frame_inv slots sb r"
  have cap: "ring_cap (length (fr_slots r)) TYPE(32)" and len: "length (fr_slots r) = slots"
    using inv by (auto simp: frame_inv_def)
  have clen: "length (frame_contents r) = unat (fr_head r - fr_tail r)"
    by (simp add: frame_contents_def)
  show "length (frame_contents r) \<le> slots" using inv by (simp add: frame_inv_def clen)
  show "fst (frame_push sb (Some x) r) \<and> frame_inv slots sb (snd (frame_push sb (Some x) r)) \<and>
    frame_contents (snd (frame_push sb (Some x) r)) = frame_contents r @ [x]"
    if ok: "frame_ok sb x" and room: "length (frame_contents r) < slots"
  proof -
    obtain s where s: "frame_push sb (Some x) r =
      (True, r\<lparr>fr_slots := (fr_slots r)[slot slots (fr_head r) := s], fr_head := fr_head r + 1\<rparr>)"
      "frame_bytes s = x" "length (fs_data s) = sb"
      using frame_push_success [OF inv ok] room clen by auto
    let ?r = "snd (frame_push sb (Some x) r)"
    have c: "frame_contents ?r = frame_contents r @ [x]"
      using cap len s room clen
        ring_contents_push [of "map frame_bytes (fr_slots r)" "fr_head r" "fr_tail r" x]
      by (simp add: frame_contents_eq map_update)
    moreover have "frame_inv slots sb ?r"
      using inv ok s room clen c word_diff_add_one [of "fr_head r" "fr_tail r" slots]
        ring_cap_less [of slots, where 'w = 32]
      by (auto simp: frame_inv_def frame_ok_def dest!: set_update_subset_insert [THEN subsetD])
    ultimately show ?thesis by (simp add: s)
  qed
  show "\<not> fst (frame_push sb (Some x) r) \<and> frame_inv slots sb (snd (frame_push sb (Some x) r)) \<and>
    frame_contents (snd (frame_push sb (Some x) r)) = frame_contents r"
    if no: "\<not> (frame_ok sb x \<and> length (frame_contents r) < slots)"
    using inv frame_push_failure [OF inv, of x] no clen
    by (auto simp: frame_note_drop_def frame_inv_def frame_contents_def)
  show "fst (frame_take r) = None \<and> frame_inv slots sb (snd (frame_take r)) \<and>
    frame_contents (snd (frame_take r)) = []"
    if "frame_contents r = []"
    using inv that by (auto simp: frame_take_def frame_peek_def frame_contents_def)
  show "fst (frame_take r) = Some x \<and> frame_inv slots sb (snd (frame_take r)) \<and>
    frame_contents (snd (frame_take r)) = xs"
    if c: "frame_contents r = x # xs"
  proof -
    have ne: "fr_tail r \<noteq> fr_head r" using c by (auto simp: frame_contents_def)
    have x: "x = frame_peek r" and xs: "frame_contents (frame_release r) = xs"
      using c ne ring_contents_pop [OF ne, of "fr_slots r"]
      by (auto simp: frame_contents_def frame_peek_def frame_release_def frame_bytes_def Let_def)
    have "x \<noteq> []" using inv c by (auto simp: frame_inv_def)
    moreover have "frame_inv slots sb (frame_release r)"
      using inv xs c ne word_diff_sub_one [OF ne [symmetric]]
      by (auto simp: frame_inv_def frame_release_def)
    ultimately show ?thesis using x xs by (simp add: frame_take_def Let_def)
  qed
qed

section \<open>MpscRingBuffer\<close>

text \<open>
  The multi-producer ring wraps \<open>etl::queue_spsc_isr\<close> of the Embedded Template Library, which is not
  part of the repository. Its operations are a record of functions; what the code relies on is
  \<open>bounded_fifo\<close> for the locked and for the interrupt-context operations.
\<close>

record ('a, 'q) etl_queue =
  q_push :: "'a \<Rightarrow> 'q \<Rightarrow> bool \<times> 'q"
  q_push_from_isr :: "'a \<Rightarrow> 'q \<Rightarrow> bool \<times> 'q"
  q_pop :: "'q \<Rightarrow> 'a option \<times> 'q"
  q_pop_from_isr :: "'q \<Rightarrow> 'a option \<times> 'q"
  q_size :: "'q \<Rightarrow> nat"
  q_empty :: "'q \<Rightarrow> bool"
  q_empty_from_isr :: "'q \<Rightarrow> bool"
  q_clear :: "'q \<Rightarrow> 'q"

definition mpsc_push :: "('a, 'q) etl_queue \<Rightarrow> 'a \<Rightarrow> 'q \<Rightarrow> bool \<times> 'q" where
  "mpsc_push Q item q = q_push Q item q"

definition mpsc_push_from_isr :: "bool \<Rightarrow> ('a, 'q) etl_queue \<Rightarrow> 'a \<Rightarrow> 'q \<Rightarrow> bool \<times> 'q" where
  "mpsc_push_from_isr locked_isr_paths Q item q =
    (if locked_isr_paths then q_push Q item q else q_push_from_isr Q item q)"

definition mpsc_pop :: "('a, 'q) etl_queue \<Rightarrow> 'q \<Rightarrow> 'a option \<times> 'q" where
  "mpsc_pop Q q = (case q_pop Q q of (None, q) \<Rightarrow> (None, q) | (Some item, q) \<Rightarrow> (Some item, q))"

definition mpsc_pop_from_isr :: "bool \<Rightarrow> ('a, 'q) etl_queue \<Rightarrow> 'q \<Rightarrow> 'a option \<times> 'q" where
  "mpsc_pop_from_isr locked_isr_paths Q q =
    (if locked_isr_paths then q_pop Q q else q_pop_from_isr Q q)"

definition mpsc_size :: "('a, 'q) etl_queue \<Rightarrow> 'q \<Rightarrow> nat" where
  "mpsc_size Q q = q_size Q q"

definition mpsc_empty :: "bool \<Rightarrow> ('a, 'q) etl_queue \<Rightarrow> 'q \<Rightarrow> bool" where
  "mpsc_empty locked_isr_paths Q q = (if locked_isr_paths then q_empty Q q else q_empty_from_isr Q q)"

definition mpsc_clear :: "('a, 'q) etl_queue \<Rightarrow> 'q \<Rightarrow> 'q" where
  "mpsc_clear Q q = q_clear Q q"

text \<open>
  The documented behaviour of the library queue, shared by every component that holds one: a
  bounded FIFO, the interrupt variants agreeing with the locked ones on a state nobody else is
  using, and observers that report the contents.
\<close>

definition etl_queue_laws ::
    "('q \<Rightarrow> bool) \<Rightarrow> ('q \<Rightarrow> 'a list) \<Rightarrow> nat \<Rightarrow> ('a, 'q) etl_queue \<Rightarrow> bool" where
  "etl_queue_laws I contents cap Q \<longleftrightarrow>
     bounded_fifo I contents cap (\<lambda>_. True) (q_push Q) (q_pop Q) \<and>
     (\<forall>x q. I q \<longrightarrow> q_push_from_isr Q x q = q_push Q x q) \<and>
     (\<forall>q. I q \<longrightarrow> q_pop_from_isr Q q = q_pop Q q \<and> q_size Q q = length (contents q) \<and>
        (q_empty Q q \<longleftrightarrow> contents q = []) \<and> (q_empty_from_isr Q q \<longleftrightarrow> contents q = []) \<and>
        I (q_clear Q q) \<and> contents (q_clear Q q) = [])"

text \<open>A concrete queue with these laws: a list bounded by a capacity.\<close>

definition list_queue :: "nat \<Rightarrow> ('a, 'a list) etl_queue" where
  "list_queue cap = \<lparr>q_push = (\<lambda>x q. if length q < cap then (True, q @ [x]) else (False, q)),
     q_push_from_isr = (\<lambda>x q. if length q < cap then (True, q @ [x]) else (False, q)),
     q_pop = (\<lambda>q. case q of [] \<Rightarrow> (None, []) | x # xs \<Rightarrow> (Some x, xs)),
     q_pop_from_isr = (\<lambda>q. case q of [] \<Rightarrow> (None, []) | x # xs \<Rightarrow> (Some x, xs)),
     q_size = length, q_empty = (\<lambda>q. q = []), q_empty_from_isr = (\<lambda>q. q = []), q_clear = (\<lambda>_. [])\<rparr>"

lemma list_queue_laws: "etl_queue_laws (\<lambda>q. length q \<le> cap) (\<lambda>q. q) cap (list_queue cap)"
  by (auto simp: etl_queue_laws_def list_queue_def bounded_fifo_def split: list.split)

section \<open>Properties of the rings\<close>

text \<open>
  (C1) Any sequence of pushes and pops on a \<open>SpscRingBuffer\<close>, started in any consistent state and
  across wrap-around of the free-running indices and of the index type itself, returns exactly
  what a bounded FIFO queue returns, and keeps the ring consistent.
\<close>

theorem spsc_refines_fifo:
  assumes "spsc_inv cap (s :: ('a, 'w::len) spsc)"
  shows "fst (queue_run spsc_push spsc_pop ps s) =
      fst (fifo_run (\<lambda>_. True) cap ps (spsc_contents s)) \<and>
    spsc_contents (snd (queue_run spsc_push spsc_pop ps s)) =
      snd (fifo_run (\<lambda>_. True) cap ps (spsc_contents s)) \<and>
    spsc_inv cap (snd (queue_run spsc_push spsc_pop ps s))"
  using spsc.queue_run_refines [OF assms] .

theorem spsc_refines_fifo_witness:
  "fst (queue_run spsc_push spsc_pop [OpPush (7::nat), OpPush 8, OpPush 9, OpPop, OpPush 10, OpPop]
      \<lparr>sp_buffer = [0, 0], sp_head = 255, sp_tail = (255 :: 8 word)\<rparr>) =
    [Pushed True, Pushed True, Pushed False, Popped (Some 7), Pushed True, Popped (Some 8)]"
proof -
  have "ring_cap 2 TYPE(8)" by (auto simp: ring_cap_def intro: exI [of _ 1])
  then have "spsc_inv 2 \<lparr>sp_buffer = [0::nat, 0], sp_head = 255, sp_tail = (255 :: 8 word)\<rparr>"
    by (simp add: spsc_inv_def)
  from spsc_refines_fifo [OF this, of "[OpPush 7, OpPush 8, OpPush 9, OpPop, OpPush 10, OpPop]"]
  show ?thesis by (simp add: spsc_contents_def)
qed

text \<open>
  Draining a channel array terminates, calls the handler once for every queued item, channel by
  channel and in queue order, reports how many it processed, and leaves every channel empty.
\<close>

theorem drain_all_total:
  assumes "list_all (spsc_inv cap) (cs :: ('a, 'w::len) spsc_channels)"
  shows "\<exists>cs'. drain_all handler cs hs =
      Some (length (tagged_contents 0 cs), cs',
        fold (\<lambda>(ch, x) h. handler ch x h) (tagged_contents 0 cs) hs) \<and>
      length cs' = length cs \<and> list_all (\<lambda>c. spsc_inv cap c \<and> spsc_contents c = []) cs'"
  using drain_from_total [OF assms, of handler 0 0 hs] by (simp add: drain_all_def)

theorem drain_all_total_witness:
  "\<exists>cs'. drain_all (\<lambda>ch x h. h @ [(ch, x)])
      [\<lparr>sp_buffer = [5::nat, 6], sp_head = 0, sp_tail = 2\<rparr>,
       \<lparr>sp_buffer = [8, 9], sp_head = 3, sp_tail = (4 :: 32 word)\<rparr>] [] =
    Some (3, cs', [(0, 5), (0, 6), (1, 9)])"
proof -
  have "ring_cap 2 TYPE(32)" by (auto simp: ring_cap_def intro: exI [of _ 1])
  then have "list_all (spsc_inv 2) [\<lparr>sp_buffer = [5::nat, 6], sp_head = 0, sp_tail = 2\<rparr>,
       \<lparr>sp_buffer = [8, 9], sp_head = 3, sp_tail = (4 :: 32 word)\<rparr>]"
    by (simp add: spsc_inv_def)
  moreover have "tagged_contents 0 [\<lparr>sp_buffer = [5::nat, 6], sp_head = 0, sp_tail = 2\<rparr>,
       \<lparr>sp_buffer = [8, 9], sp_head = 3, sp_tail = (4 :: 32 word)\<rparr>] = [(0, 5), (0, 6), (1, 9)]"
    by code_simp
  ultimately show ?thesis
    using drain_all_total [of 2 "[\<lparr>sp_buffer = [5::nat, 6], sp_head = 0, sp_tail = 2\<rparr>,
       \<lparr>sp_buffer = [8, 9], sp_head = 3, sp_tail = (4 :: 32 word)\<rparr>]" "\<lambda>ch x h. h @ [(ch, x)]" "[]"]
    by auto
qed

text \<open>
  A \<open>FrameRing\<close> is a bounded FIFO of frames: a frame of 1 to \<open>SlotBytes\<close> bytes pushed while
  there is room comes out byte for byte in order by \<open>peek\<close> and \<open>release\<close>; a frame that is empty,
  too long or finds the ring full is refused and leaves the queued frames alone.
\<close>

theorem frame_ring_refines_fifo:
  assumes "frame_inv slots sb r"
  shows "fst (queue_run (\<lambda>f. frame_push sb (Some f)) frame_take ps r) =
      fst (fifo_run (frame_ok sb) slots ps (frame_contents r)) \<and>
    frame_contents (snd (queue_run (\<lambda>f. frame_push sb (Some f)) frame_take ps r)) =
      snd (fifo_run (frame_ok sb) slots ps (frame_contents r)) \<and>
    frame_inv slots sb (snd (queue_run (\<lambda>f. frame_push sb (Some f)) frame_take ps r))"
  using frames.queue_run_refines [OF assms] .

definition frame_ring_empty :: "nat \<Rightarrow> nat \<Rightarrow> frame_ring" where
  "frame_ring_empty slots sb = \<lparr>fr_head = 0, fr_tail = 0, fr_dropped = 0,
     fr_slots = replicate slots \<lparr>fs_data = replicate sb 0, fs_len = 0\<rparr>\<rparr>"

theorem frame_ring_refines_fifo_witness:
  "fst (queue_run (\<lambda>f. frame_push 8 (Some f)) frame_take
      [OpPush [1, 2], OpPush [], OpPush [3], OpPush [4], OpPop] (frame_ring_empty 2 8)) =
    [Pushed True, Pushed False, Pushed True, Pushed False, Popped (Some [1, 2])]"
proof -
  have "ring_cap 2 TYPE(32)" by (auto simp: ring_cap_def intro: exI [of _ 1])
  then have "frame_inv 2 8 (frame_ring_empty 2 8)"
    by (simp add: frame_inv_def frame_ring_empty_def frame_contents_def)
  from frame_ring_refines_fifo [OF this, of "[OpPush [1, 2], OpPush [], OpPush [3], OpPush [4], OpPop]"]
  show ?thesis by (simp add: frame_contents_def frame_ring_empty_def frame_ok_def)
qed

end
