(* ===== verification/Spsc_Steps.thy ===== *)
theory Spsc_Steps
  imports Ring_Buffers
begin

text \<open>
  \<open>SpscRingBuffer\<close> under every interleaving of its producer and its consumer
  (\<open>include/tlp_ring.hpp\<close>). \<open>push\<close> and \<open>pop\<close> are split at their shared accesses: the two index
  loads, the slot access and the index store. One step of the relation is one such access of one
  side, so a run is an arbitrary interleaving of an interrupt handler or a second core with the main
  loop. The acquire and release orders of the code make an index store visible only after the slot
  access before it, which is what taking the accesses in program order models.
  The lists \<open>ps_pushed\<close> and \<open>ps_popped\<close> record what \<open>push\<close> accepted and \<open>pop\<close> returned.
\<close>

datatype ('a, 'i) producer =
  P_idle
| P_tail 'a 'i
| P_head 'a 'i 'i
| P_wrote 'a 'i

datatype ('a, 'i) consumer =
  C_idle
| C_head 'i
| C_tail 'i 'i
| C_read 'i 'a

record (overloaded) ('a, 'w) spsc_run =
  ps_ring :: "('a, 'w::len) spsc"
  ps_prod :: "('a, 'w word) producer"
  ps_cons :: "('a, 'w word) consumer"
  ps_pushed :: "'a list"
  ps_popped :: "'a list"

inductive spsc_step :: "('a, 'w::len) spsc_run \<Rightarrow> ('a, 'w) spsc_run \<Rightarrow> bool" where
  push_load_tail: "ps_prod s = P_idle \<Longrightarrow>
    spsc_step s (s\<lparr>ps_prod := P_tail v (sp_tail (ps_ring s))\<rparr>)"
| push_load_head: "ps_prod s = P_tail v t \<Longrightarrow>
    spsc_step s (s\<lparr>ps_prod := P_head v t (sp_head (ps_ring s))\<rparr>)"
| push_full: "ps_prod s = P_head v t h \<Longrightarrow> t - h \<ge> of_nat (length (sp_buffer (ps_ring s))) \<Longrightarrow>
    spsc_step s (s\<lparr>ps_prod := P_idle\<rparr>)"
| push_write: "ps_prod s = P_head v t h \<Longrightarrow> \<not> t - h \<ge> of_nat (length (sp_buffer (ps_ring s))) \<Longrightarrow>
    spsc_step s (s\<lparr>ps_prod := P_wrote v t, ps_ring := (ps_ring s)\<lparr>sp_buffer :=
      (sp_buffer (ps_ring s))[slot (length (sp_buffer (ps_ring s))) t := v]\<rparr>\<rparr>)"
| push_store_tail: "ps_prod s = P_wrote v t \<Longrightarrow>
    spsc_step s (s\<lparr>ps_prod := P_idle, ps_ring := (ps_ring s)\<lparr>sp_tail := t + 1\<rparr>,
      ps_pushed := ps_pushed s @ [v]\<rparr>)"
| pop_load_head: "ps_cons s = C_idle \<Longrightarrow>
    spsc_step s (s\<lparr>ps_cons := C_head (sp_head (ps_ring s))\<rparr>)"
| pop_load_tail: "ps_cons s = C_head h \<Longrightarrow>
    spsc_step s (s\<lparr>ps_cons := C_tail h (sp_tail (ps_ring s))\<rparr>)"
| pop_empty: "ps_cons s = C_tail h t \<Longrightarrow> h = t \<Longrightarrow>
    spsc_step s (s\<lparr>ps_cons := C_idle\<rparr>)"
| pop_read: "ps_cons s = C_tail h t \<Longrightarrow> h \<noteq> t \<Longrightarrow>
    spsc_step s (s\<lparr>ps_cons := C_read h (sp_buffer (ps_ring s) !
      slot (length (sp_buffer (ps_ring s))) h)\<rparr>)"
| pop_store_head: "ps_cons s = C_read h v \<Longrightarrow>
    spsc_step s (s\<lparr>ps_cons := C_idle, ps_ring := (ps_ring s)\<lparr>sp_head := h + 1\<rparr>,
      ps_popped := ps_popped s @ [v]\<rparr>)"

definition spsc_start :: "'a list \<Rightarrow> ('a, 'w::len) spsc_run" where
  "spsc_start buf = \<lparr>ps_ring = \<lparr>sp_buffer = buf, sp_head = 0, sp_tail = 0\<rparr>, ps_prod = P_idle,
     ps_cons = C_idle, ps_pushed = [], ps_popped = []\<rparr>"

text \<open>What each side may assume at its program point while the other side runs.\<close>

fun prod_inv :: "nat \<Rightarrow> ('a, 'w::len) spsc \<Rightarrow> ('a, 'w word) producer \<Rightarrow> bool" where
  "prod_inv cap r P_idle \<longleftrightarrow> True"
| "prod_inv cap r (P_tail v t) \<longleftrightarrow> t = sp_tail r"
| "prod_inv cap r (P_head v t h) \<longleftrightarrow> t = sp_tail r \<and> unat (sp_tail r - sp_head r) \<le> unat (t - h)"
| "prod_inv cap r (P_wrote v t) \<longleftrightarrow> t = sp_tail r \<and> unat (sp_tail r - sp_head r) < cap \<and>
     sp_buffer r ! slot cap t = v"

fun cons_inv :: "nat \<Rightarrow> ('a, 'w::len) spsc \<Rightarrow> ('a, 'w word) consumer \<Rightarrow> bool" where
  "cons_inv cap r C_idle \<longleftrightarrow> True"
| "cons_inv cap r (C_head h) \<longleftrightarrow> h = sp_head r"
| "cons_inv cap r (C_tail h t) \<longleftrightarrow> h = sp_head r \<and> (h \<noteq> t \<longrightarrow> sp_tail r \<noteq> sp_head r)"
| "cons_inv cap r (C_read h v) \<longleftrightarrow> h = sp_head r \<and> sp_tail r \<noteq> sp_head r \<and>
     sp_buffer r ! slot cap h = v"

definition run_inv :: "nat \<Rightarrow> ('a, 'w::len) spsc_run \<Rightarrow> bool" where
  "run_inv cap s \<longleftrightarrow> spsc_inv cap (ps_ring s) \<and> prod_inv cap (ps_ring s) (ps_prod s) \<and>
     cons_inv cap (ps_ring s) (ps_cons s) \<and>
     ps_pushed s = ps_popped s @ spsc_contents (ps_ring s)"

text \<open>Effect of the three steps that change the ring on the other side's invariant.\<close>

lemma cons_inv_write:
  assumes "spsc_inv cap r" and "unat (sp_tail r - sp_head r) < cap" and "cons_inv cap r c"
  shows "cons_inv cap (r\<lparr>sp_buffer := (sp_buffer r)[slot cap (sp_tail r) := v]\<rparr>) c"
proof (cases c)
  case (C_read h x)
  have "slot cap (sp_head r + of_nat 0) \<noteq> slot cap (sp_tail r)"
    using assms C_read
    by (intro slot_occupied_ne) (auto simp: spsc_inv_def)
  then show ?thesis using assms(3) C_read by auto
qed (use assms(3) in auto)

lemma cons_inv_store_tail:
  assumes "spsc_inv cap r" and "unat (sp_tail r - sp_head r) < cap" and "cons_inv cap r c"
  shows "cons_inv cap (r\<lparr>sp_tail := sp_tail r + 1\<rparr>) c"
proof -
  have "unat (sp_tail r + 1 - sp_head r) = Suc (unat (sp_tail r - sp_head r))"
    using assms ring_cap_less by (blast intro: word_diff_add_one dest: spsc_inv_def [THEN iffD1])
  then have "sp_tail r + 1 \<noteq> sp_head r" by auto
  then show ?thesis using assms(3) by (cases c) auto
qed

lemma prod_inv_store_head:
  assumes "sp_tail r \<noteq> sp_head r" and "prod_inv cap r p"
  shows "prod_inv cap (r\<lparr>sp_head := sp_head r + 1\<rparr>) p"
  using assms(2) word_diff_sub_one [OF assms(1)] by (cases p) auto

lemma run_inv_step: "spsc_step s s' \<Longrightarrow> run_inv cap s \<Longrightarrow> run_inv cap s'"
proof (induction rule: spsc_step.induct)
  case (push_write s v t h)
  let ?r = "ps_ring s"
  have inv: "spsc_inv cap ?r" and t: "t = sp_tail ?r" and c: "cons_inv cap ?r (ps_cons s)"
    and room: "unat (sp_tail ?r - sp_head ?r) < cap"
    using push_write by (auto simp: run_inv_def spsc_inv_def word_ge_cap_iff)
  then show ?case
    using push_write(3) cons_inv_write [OF inv room c, of v]
      ring_contents_write [of "sp_buffer ?r" "sp_tail ?r" "sp_head ?r" v]
    by (auto simp: run_inv_def spsc_inv_def spsc_contents_def)
next
  case (push_store_tail s v t)
  let ?r = "ps_ring s"
  have inv: "spsc_inv cap ?r" and t: "t = sp_tail ?r" and c: "cons_inv cap ?r (ps_cons s)"
    and room: "unat (sp_tail ?r - sp_head ?r) < cap" and v: "sp_buffer ?r ! slot cap t = v"
    using push_store_tail by (auto simp: run_inv_def)
  have lt: "cap < 2 ^ LENGTH('b)" using inv by (simp add: spsc_inv_def ring_cap_less)
  show ?case
    using push_store_tail(2) cons_inv_store_tail [OF inv room c] t v
      ring_contents_snoc [OF room lt, of "sp_buffer ?r"] word_diff_add_one [OF room lt] room
    by (auto simp: run_inv_def spsc_inv_def spsc_contents_def)
next
  case (pop_store_head s h v)
  let ?r = "ps_ring s"
  have ne: "sp_tail ?r \<noteq> sp_head ?r" and p: "prod_inv cap ?r (ps_prod s)"
    using pop_store_head by (auto simp: run_inv_def)
  show ?case
    using pop_store_head prod_inv_store_head [OF ne p] word_diff_sub_one [OF ne]
      ring_contents_pop [OF ne [symmetric], of "sp_buffer ?r"]
    by (auto simp: run_inv_def spsc_inv_def spsc_contents_def)
qed (auto simp: run_inv_def spsc_inv_def)

lemma run_inv_reachable: "spsc_step\<^sup>*\<^sup>* s s' \<Longrightarrow> run_inv cap s \<Longrightarrow> run_inv cap s'"
  by (induction rule: rtranclp_induct) (auto intro: run_inv_step)

lemma run_inv_start:
  "ring_cap (length buf) TYPE('w::len) \<Longrightarrow>
    run_inv (length buf) (spsc_start buf :: ('a, 'w) spsc_run)"
  by (simp add: run_inv_def spsc_start_def spsc_inv_def spsc_contents_def)

section \<open>Properties\<close>

text \<open>
  (C2) Whatever the interleaving of the producer's and the consumer's accesses, the items popped so
  far are a prefix of the items whose push succeeded, in the same order, the rest is exactly what
  the ring holds, and the ring never holds more than its capacity: nothing is lost, duplicated,
  reordered or overwritten.
\<close>

theorem spsc_interleaving_fifo:
  assumes "ring_cap (length buf) TYPE('w::len)"
    and "spsc_step\<^sup>*\<^sup>* (spsc_start buf) (s :: ('a, 'w) spsc_run)"
  shows "ps_pushed s = ps_popped s @ spsc_contents (ps_ring s) \<and>
    length (spsc_contents (ps_ring s)) \<le> length buf"
  using run_inv_reachable [OF assms(2) run_inv_start [OF assms(1)]]
  by (auto simp: run_inv_def spsc_inv_def spsc_contents_def)

text \<open>
  A run in which one item is queued, the producer is about to write a second one and the consumer
  is about to read the first.
\<close>

definition demo_state :: "(nat, 32) spsc_run" where
  "demo_state = \<lparr>ps_ring = \<lparr>sp_buffer = [5, 0], sp_head = 0, sp_tail = 1\<rparr>,
     ps_prod = P_head 6 1 0, ps_cons = C_tail 0 1, ps_pushed = [5], ps_popped = []\<rparr>"

lemma demo_reachable: "spsc_step\<^sup>*\<^sup>* (spsc_start [0, 0]) demo_state"
proof -
  let ?s0 = "spsc_start [0, 0] :: (nat, 32) spsc_run"
  let ?s1 = "?s0\<lparr>ps_prod := P_tail 5 0\<rparr>"
  let ?s2 = "?s1\<lparr>ps_prod := P_head 5 0 0\<rparr>"
  let ?s3 = "?s2\<lparr>ps_prod := P_wrote 5 0, ps_ring := \<lparr>sp_buffer = [5, 0], sp_head = 0, sp_tail = 0\<rparr>\<rparr>"
  let ?s4 = "?s3\<lparr>ps_prod := P_idle, ps_ring := \<lparr>sp_buffer = [5, 0], sp_head = 0, sp_tail = 1\<rparr>,
    ps_pushed := [5]\<rparr>"
  let ?s5 = "?s4\<lparr>ps_prod := P_tail 6 1\<rparr>"
  let ?s6 = "?s5\<lparr>ps_cons := C_head 0\<rparr>"
  let ?s7 = "?s6\<lparr>ps_prod := P_head 6 1 0\<rparr>"
  have "spsc_step ?s0 ?s1" using push_load_tail [of ?s0 5] by (simp add: spsc_start_def)
  moreover have "spsc_step ?s1 ?s2" using push_load_head [of ?s1 5 0] by (simp add: spsc_start_def)
  moreover have "spsc_step ?s2 ?s3"
    using push_write [of ?s2 5 0 0] by (simp add: spsc_start_def slot_def)
  moreover have "spsc_step ?s3 ?s4"
    using push_store_tail [of ?s3 5 0] by (simp add: spsc_start_def)
  moreover have "spsc_step ?s4 ?s5" using push_load_tail [of ?s4 6] by (simp add: spsc_start_def)
  moreover have "spsc_step ?s5 ?s6" using pop_load_head [of ?s5] by (simp add: spsc_start_def)
  moreover have "spsc_step ?s6 ?s7" using push_load_head [of ?s6 6 1] by (simp add: spsc_start_def)
  moreover have "spsc_step ?s7 demo_state"
    using pop_load_tail [of ?s7 0] by (simp add: spsc_start_def demo_state_def)
  ultimately show ?thesis
    by (meson converse_rtranclp_into_rtranclp rtranclp.rtrancl_refl)
qed

lemma demo_cap: "ring_cap (length [0, 0 :: nat]) TYPE(32)"
  by (auto simp: ring_cap_def intro: exI [of _ 1])

theorem spsc_interleaving_fifo_witness:
  "ps_pushed demo_state = ps_popped demo_state @ spsc_contents (ps_ring demo_state) \<and>
    ps_pushed demo_state = [5]"
  using spsc_interleaving_fifo [OF demo_cap demo_reachable] by (simp add: demo_state_def)

text \<open>
  (C3) The producer's slot write and the consumer's slot read never touch the same slot: whenever the
  producer has decided to write and the consumer has decided to read, the two slots differ. So the
  non-atomic accesses to the buffer are free of data races.
\<close>

theorem spsc_no_slot_race:
  assumes "ring_cap (length buf) TYPE('w::len)"
    and "spsc_step\<^sup>*\<^sup>* (spsc_start buf) (s :: ('a, 'w) spsc_run)"
    and "ps_prod s = P_head v t h" and "\<not> t - h \<ge> of_nat (length (sp_buffer (ps_ring s)))"
    and "ps_cons s = C_tail h' t'" and "h' \<noteq> t'"
  shows "slot (length (sp_buffer (ps_ring s))) t \<noteq> slot (length (sp_buffer (ps_ring s))) h'"
proof -
  have inv: "run_inv (length buf) s"
    using run_inv_reachable [OF assms(2) run_inv_start [OF assms(1)]] .
  then have "slot (length buf) (h' + of_nat 0) \<noteq> slot (length buf) t"
    using assms(3-6)
    by (intro slot_occupied_ne) (auto simp: run_inv_def spsc_inv_def word_ge_cap_iff)
  then show ?thesis using inv by (simp add: run_inv_def spsc_inv_def)
qed

theorem spsc_no_slot_race_witness: "slot 2 (1 :: 32 word) \<noteq> slot 2 (0 :: 32 word)"
proof -
  have "\<not> (1 :: 32 word) - 0 \<ge> of_nat (length (sp_buffer (ps_ring demo_state)))"
    by code_simp
  from spsc_no_slot_race [OF demo_cap demo_reachable _ this, of 6 0 1] show ?thesis
    by (simp add: demo_state_def numeral_2_eq_2)
qed

end
