(* ===== verification/Dispatcher.thy ===== *)
theory Dispatcher
  imports Ring_Buffers "HOL-Library.Sublist"
begin

text \<open>
  The ready queue of coroutines: \<open>DomainDispatcher\<close> of \<open>include/abstractx/domain_dispatcher.hpp\<close>,
  the executor entry points of \<open>src/executor.cpp\<close> and the wake hooks of \<open>src/wake.cpp\<close>. The queue
  is the library's \<open>etl::queue_spsc_isr\<close>, a parameter \<open>Q\<close> with the laws \<open>etl_queue_laws\<close>.
  Resuming a coroutine runs arbitrary application code, so it is a parameter too: a function on the
  dispatcher and the rest of the world, which may post and purge handles.
\<close>

section \<open>DomainDispatcher\<close>

record 'q dispatcher =
  d_queue :: 'q
  d_dropped :: u32
  d_high_water :: u32

definition is_resumable :: "handle \<Rightarrow> bool" where
  "is_resumable h \<longleftrightarrow> h \<noteq> null_handle"

definition disp_record ::
    "(handle, 'q) etl_queue \<Rightarrow> bool \<Rightarrow> 'q dispatcher \<Rightarrow> bool \<times> 'q dispatcher" where
  "disp_record Q pushed d =
    (if \<not> pushed then (pushed, d\<lparr>d_dropped := d_dropped d + 1\<rparr>)
     else let depth = of_nat (q_size Q (d_queue d))
          in (pushed, if depth > d_high_water d then d\<lparr>d_high_water := depth\<rparr> else d))"

definition disp_push ::
    "(handle, 'q) etl_queue \<Rightarrow> handle \<Rightarrow> 'q dispatcher \<Rightarrow> bool \<times> 'q dispatcher" where
  "disp_push Q h d =
    (if \<not> is_resumable h then (False, d)
     else let (pushed, q) = q_push Q h (d_queue d) in disp_record Q pushed (d\<lparr>d_queue := q\<rparr>))"

definition disp_post ::
    "(handle, 'q) etl_queue \<Rightarrow> handle \<Rightarrow> 'q dispatcher \<Rightarrow> bool \<times> 'q dispatcher" where
  "disp_post Q h d =
    (if \<not> is_resumable h then (False, d)
     else let (pushed, q) = q_push Q h (d_queue d) in disp_record Q pushed (d\<lparr>d_queue := q\<rparr>))"

definition isr_post_resume ::
    "(handle, 'q) etl_queue \<Rightarrow> handle \<Rightarrow> 'q dispatcher \<Rightarrow> bool \<times> 'q dispatcher" where
  "isr_post_resume Q h d = disp_post Q h d"

text \<open>
  \<open>while (count-- > 0 && queue_.pop(handle))\<close>. \<open>finished\<close> is \<open>handle.done()\<close>, \<open>resume\<close> is
  \<open>handle.resume()\<close> with everything the resumed coroutine does.
\<close>

fun process_loop :: "(handle, 'q) etl_queue \<Rightarrow> (handle \<Rightarrow> 'e \<Rightarrow> bool) \<Rightarrow>
    (handle \<Rightarrow> 'q dispatcher \<times> 'e \<Rightarrow> 'q dispatcher \<times> 'e) \<Rightarrow>
    nat \<Rightarrow> 'q dispatcher \<times> 'e \<Rightarrow> 'q dispatcher \<times> 'e" where
  "process_loop Q finished resume 0 w = w"
| "process_loop Q finished resume (Suc count) (d, e) =
    (case q_pop Q (d_queue d) of
       (None, q) \<Rightarrow> (d\<lparr>d_queue := q\<rparr>, e)
     | (Some h, q) \<Rightarrow>
        process_loop Q finished resume count
          (if is_resumable h \<and> \<not> finished h e then resume h (d\<lparr>d_queue := q\<rparr>, e)
           else (d\<lparr>d_queue := q\<rparr>, e)))"

definition process_ready_coroutines :: "(handle, 'q) etl_queue \<Rightarrow> (handle \<Rightarrow> 'e \<Rightarrow> bool) \<Rightarrow>
    (handle \<Rightarrow> 'q dispatcher \<times> 'e \<Rightarrow> 'q dispatcher \<times> 'e) \<Rightarrow>
    'q dispatcher \<times> 'e \<Rightarrow> 'q dispatcher \<times> 'e" where
  "process_ready_coroutines Q finished resume w =
     process_loop Q finished resume (q_size Q (d_queue (fst w))) w"

definition queue_depth :: "(handle, 'q) etl_queue \<Rightarrow> 'q dispatcher \<Rightarrow> nat" where
  "queue_depth Q d = q_size Q (d_queue d)"

fun purge_loop :: "(handle, 'q) etl_queue \<Rightarrow> handle \<Rightarrow> nat \<Rightarrow> nat \<Rightarrow> 'q \<Rightarrow> nat \<times> 'q" where
  "purge_loop Q hd' removed 0 q = (removed, q)"
| "purge_loop Q hd' removed (Suc n) q =
    (case q_pop_from_isr Q q of
       (None, q) \<Rightarrow> (removed, q)
     | (Some h, q) \<Rightarrow> if h = hd' then purge_loop Q hd' (Suc removed) n q
                     else purge_loop Q hd' removed n (snd (q_push_from_isr Q h q)))"

definition purge :: "(handle, 'q) etl_queue \<Rightarrow> handle \<Rightarrow> 'q dispatcher \<Rightarrow> nat \<times> 'q dispatcher" where
  "purge Q h d =
    (if h = null_handle then (0, d)
     else let (removed, q) = purge_loop Q h 0 (q_size Q (d_queue d)) (d_queue d)
          in (removed, d\<lparr>d_queue := q\<rparr>))"

definition high_water :: "bool \<Rightarrow> 'q dispatcher \<Rightarrow> u32 \<times> 'q dispatcher" where
  "high_water reset d = (d_high_water d, if reset then d\<lparr>d_high_water := 0\<rparr> else d)"

definition has_pending_resumes :: "(handle, 'q) etl_queue \<Rightarrow> 'q dispatcher \<Rightarrow> bool" where
  "has_pending_resumes Q d \<longleftrightarrow> \<not> q_empty Q (d_queue d)"

definition disp_reset :: "(handle, 'q) etl_queue \<Rightarrow> 'q dispatcher \<Rightarrow> 'q dispatcher" where
  "disp_reset Q d = d\<lparr>d_queue := q_clear Q (d_queue d), d_dropped := 0, d_high_water := 0\<rparr>"

section \<open>Executor and wake hooks\<close>

text \<open>
  The host's wake hooks and its own post functions act on the host's environment \<open>'e\<close>; \<open>None\<close> is the
  null function pointer of a hook, and for \<open>ex_post\<close> the built-in ring executor.
\<close>

record ('q, 'e) executor =
  ex_disp :: "'q dispatcher"
  ex_env :: 'e
  ex_wake_task :: "('e \<Rightarrow> 'e) option"
  ex_wake_isr :: "('e \<Rightarrow> 'e) option"
  ex_post :: "(handle \<Rightarrow> 'e \<Rightarrow> bool \<times> 'e) option"
  ex_post_isr :: "(handle \<Rightarrow> 'e \<Rightarrow> bool \<times> 'e) option"

definition set_wake ::
    "('e \<Rightarrow> 'e) option \<Rightarrow> ('e \<Rightarrow> 'e) option \<Rightarrow> ('q, 'e) executor \<Rightarrow> ('q, 'e) executor" where
  "set_wake task isr x = x\<lparr>ex_wake_task := task, ex_wake_isr := isr\<rparr>"

definition wake :: "('q, 'e) executor \<Rightarrow> ('q, 'e) executor" where
  "wake x = (case ex_wake_task x of None \<Rightarrow> x | Some fn \<Rightarrow> x\<lparr>ex_env := fn (ex_env x)\<rparr>)"

definition wake_from_isr :: "('q, 'e) executor \<Rightarrow> ('q, 'e) executor" where
  "wake_from_isr x = (case ex_wake_isr x of None \<Rightarrow> x | Some fn \<Rightarrow> x\<lparr>ex_env := fn (ex_env x)\<rparr>)"

definition ring_post ::
    "(handle, 'q) etl_queue \<Rightarrow> handle \<Rightarrow> ('q, 'e) executor \<Rightarrow> bool \<times> ('q, 'e) executor" where
  "ring_post Q h x =
    (let (ok, d) = disp_push Q h (ex_disp x); x = x\<lparr>ex_disp := d\<rparr> in (ok, if ok then wake x else x))"

definition ring_post_from_isr ::
    "(handle, 'q) etl_queue \<Rightarrow> handle \<Rightarrow> ('q, 'e) executor \<Rightarrow> bool \<times> ('q, 'e) executor" where
  "ring_post_from_isr Q h x =
    (let (ok, d) = disp_post Q h (ex_disp x); x = x\<lparr>ex_disp := d\<rparr>
     in (ok, if ok then wake_from_isr x else x))"

definition set_executor :: "(handle \<Rightarrow> 'e \<Rightarrow> bool \<times> 'e) option \<Rightarrow>
    (handle \<Rightarrow> 'e \<Rightarrow> bool \<times> 'e) option \<Rightarrow> ('q, 'e) executor \<Rightarrow> ('q, 'e) executor" where
  "set_executor p p_isr x = x\<lparr>ex_post := p, ex_post_isr := p_isr\<rparr>"

definition post ::
    "(handle, 'q) etl_queue \<Rightarrow> handle \<Rightarrow> ('q, 'e) executor \<Rightarrow> bool \<times> ('q, 'e) executor" where
  "post Q h x = (case ex_post x of
       None \<Rightarrow> ring_post Q h x
     | Some p \<Rightarrow> let (ok, e) = p h (ex_env x) in (ok, x\<lparr>ex_env := e\<rparr>))"

definition post_from_isr ::
    "(handle, 'q) etl_queue \<Rightarrow> handle \<Rightarrow> ('q, 'e) executor \<Rightarrow> bool \<times> ('q, 'e) executor" where
  "post_from_isr Q h x = (case ex_post_isr x of
       None \<Rightarrow> ring_post_from_isr Q h x
     | Some p \<Rightarrow> let (ok, e) = p h (ex_env x) in (ok, x\<lparr>ex_env := e\<rparr>))"

section \<open>The queue laws as rewrite facts\<close>

lemma etl_push_room:
  assumes "etl_queue_laws I contents cap Q" and "I q" and "length (contents q) < cap"
  obtains q' where "q_push Q x q = (True, q')" "q_push_from_isr Q x q = (True, q')" "I q'"
    "contents q' = contents q @ [x]"
proof -
  have "bounded_fifo I contents cap (\<lambda>_. True) (q_push Q) (q_pop Q)"
    and isr: "q_push_from_isr Q x q = q_push Q x q"
    using assms by (auto simp: etl_queue_laws_def)
  from bounded_fifo.push_ok [OF this(1) assms(2) TrueI assms(3), of x] isr that
  show thesis by (metis prod.collapse)
qed

lemma etl_push_full:
  assumes "etl_queue_laws I contents cap Q" and "I q" and "\<not> length (contents q) < cap"
  obtains q' where "q_push Q x q = (False, q')" "I q'" "contents q' = contents q"
proof -
  have "bounded_fifo I contents cap (\<lambda>_. True) (q_push Q) (q_pop Q)"
    using assms by (simp add: etl_queue_laws_def)
  from bounded_fifo.push_no [OF this assms(2), of x] assms(3) that
  show thesis by (metis prod.collapse)
qed

lemma etl_pop_Nil:
  assumes "etl_queue_laws I contents cap Q" and "I q" and "contents q = []"
  obtains q' where "q_pop Q q = (None, q')" "q_pop_from_isr Q q = (None, q')" "I q'"
    "contents q' = []"
proof -
  have "bounded_fifo I contents cap (\<lambda>_. True) (q_push Q) (q_pop Q)"
    and isr: "q_pop_from_isr Q q = q_pop Q q"
    using assms by (auto simp: etl_queue_laws_def)
  from bounded_fifo.pop_empty [OF this(1) assms(2,3)] isr that
  show thesis by (metis prod.collapse)
qed

lemma etl_pop_Cons:
  assumes "etl_queue_laws I contents cap Q" and "I q" and "contents q = x # xs"
  obtains q' where "q_pop Q q = (Some x, q')" "q_pop_from_isr Q q = (Some x, q')" "I q'"
    "contents q' = xs"
proof -
  have "bounded_fifo I contents cap (\<lambda>_. True) (q_push Q) (q_pop Q)"
    and isr: "q_pop_from_isr Q q = q_pop Q q"
    using assms by (auto simp: etl_queue_laws_def)
  from bounded_fifo.pop_ok [OF this(1) assms(2,3)] isr that
  show thesis by (metis prod.collapse)
qed

lemma etl_size [simp]: "etl_queue_laws I contents cap Q \<Longrightarrow> I q \<Longrightarrow> q_size Q q = length (contents q)"
  by (simp add: etl_queue_laws_def)

lemma etl_le_cap: "etl_queue_laws I contents cap Q \<Longrightarrow> I q \<Longrightarrow> length (contents q) \<le> cap"
  unfolding etl_queue_laws_def by (blast intro: bounded_fifo.length_le_cap)

section \<open>Posting\<close>

lemma disp_post_eq_push: "disp_post = disp_push"
  by (intro ext) (simp add: disp_post_def disp_push_def)

lemma disp_push_room:
  assumes laws: "etl_queue_laws I contents cap Q" and I: "I (d_queue d)"
    and room: "length (contents (d_queue d)) < cap" and h: "h \<noteq> null_handle" and cap: "cap < 2 ^ 32"
  shows "fst (disp_push Q h d) \<and> I (d_queue (snd (disp_push Q h d))) \<and>
    contents (d_queue (snd (disp_push Q h d))) = contents (d_queue d) @ [h] \<and>
    d_dropped (snd (disp_push Q h d)) = d_dropped d \<and>
    unat (d_high_water (snd (disp_push Q h d))) =
      max (unat (d_high_water d)) (Suc (length (contents (d_queue d))))"
proof -
  obtain q where q: "q_push Q h (d_queue d) = (True, q)" "I q" "contents q = contents (d_queue d) @ [h]"
    by (rule etl_push_room [OF laws I room, of h])
  have size: "q_size Q q = Suc (length (contents (d_queue d)))" using q laws by simp
  have "unat (of_nat (q_size Q q) :: u32) = Suc (length (contents (d_queue d)))"
    using room cap by (simp only: size) (intro unat_of_nat_small; simp)
  then show ?thesis
    using h q by (auto simp: disp_push_def is_resumable_def disp_record_def Let_def word_less_nat_alt)
qed

lemma disp_push_full:
  assumes laws: "etl_queue_laws I contents cap Q" and I: "I (d_queue d)"
    and full: "\<not> length (contents (d_queue d)) < cap" and h: "h \<noteq> null_handle"
  shows "\<not> fst (disp_push Q h d) \<and> I (d_queue (snd (disp_push Q h d))) \<and>
    contents (d_queue (snd (disp_push Q h d))) = contents (d_queue d) \<and>
    d_dropped (snd (disp_push Q h d)) = d_dropped d + 1 \<and>
    d_high_water (snd (disp_push Q h d)) = d_high_water d"
proof -
  obtain q where "q_push Q h (d_queue d) = (False, q)" "I q" "contents q = contents (d_queue d)"
    by (rule etl_push_full [OF laws I full, of h])
  then show ?thesis using h by (simp add: disp_push_def is_resumable_def disp_record_def)
qed

section \<open>Purging a destroyed coroutine\<close>

text \<open>
  The loop rotates the ring once: \<open>n\<close> entries are still to be looked at, the kept ones are behind
  them.
\<close>

lemma purge_loop_spec:
  assumes laws: "etl_queue_laws I contents cap Q"
  shows "I q \<Longrightarrow> contents q = xs @ ys \<Longrightarrow> length xs = n \<Longrightarrow>
    fst (purge_loop Q h r n q) = r + count_list xs h \<and> I (snd (purge_loop Q h r n q)) \<and>
    contents (snd (purge_loop Q h r n q)) = ys @ filter (\<lambda>x. x \<noteq> h) xs"
proof (induction n arbitrary: q xs ys r)
  case 0
  then show ?case by simp
next
  case (Suc n)
  then obtain x xs' where xs: "xs = x # xs'" "length xs' = n" by (cases xs) auto
  obtain q1 where q1: "q_pop_from_isr Q q = (Some x, q1)" "I q1" "contents q1 = xs' @ ys"
    using etl_pop_Cons [OF laws Suc.prems(1), of x "xs' @ ys"] Suc.prems(2) xs by auto
  show ?case
  proof (cases "x = h")
    case True
    then show ?thesis using Suc.IH [OF q1(2,3) xs(2), of "Suc r"] q1(1) xs(1) by simp
  next
    case False
    have "length (contents q1) < cap"
      using etl_le_cap [OF laws Suc.prems(1)] Suc.prems(2) xs q1(3) by simp
    then obtain q2 where "q_push_from_isr Q x q1 = (True, q2)" "I q2" "contents q2 = xs' @ (ys @ [x])"
      using etl_push_room [OF laws q1(2)] q1(3) by (metis append.assoc)
    then show ?thesis using Suc.IH [of q2 xs' "ys @ [x]" r] q1(1) xs False by simp
  qed
qed

section \<open>Running the ready coroutines\<close>

text \<open>The handles one call of \<open>process\<close> resumes, in order, following the loop.\<close>

fun resumed_by :: "(handle, 'q) etl_queue \<Rightarrow> (handle \<Rightarrow> 'e \<Rightarrow> bool) \<Rightarrow>
    (handle \<Rightarrow> 'q dispatcher \<times> 'e \<Rightarrow> 'q dispatcher \<times> 'e) \<Rightarrow>
    nat \<Rightarrow> 'q dispatcher \<times> 'e \<Rightarrow> handle list" where
  "resumed_by Q finished resume 0 w = []"
| "resumed_by Q finished resume (Suc count) (d, e) =
    (case q_pop Q (d_queue d) of
       (None, q) \<Rightarrow> []
     | (Some h, q) \<Rightarrow>
        if is_resumable h \<and> \<not> finished h e
        then h # resumed_by Q finished resume count (resume h (d\<lparr>d_queue := q\<rparr>, e))
        else resumed_by Q finished resume count (d\<lparr>d_queue := q\<rparr>, e))"

definition appends_posts :: "('q \<Rightarrow> bool) \<Rightarrow> ('q \<Rightarrow> handle list) \<Rightarrow>
    (handle \<Rightarrow> 'q dispatcher \<times> 'e \<Rightarrow> 'q dispatcher \<times> 'e) \<Rightarrow> bool" where
  "appends_posts I contents resume \<longleftrightarrow> (\<forall>h d e. I (d_queue d) \<longrightarrow>
     I (d_queue (fst (resume h (d, e)))) \<and>
     (\<exists>ps. contents (d_queue (fst (resume h (d, e)))) = contents (d_queue d) @ ps))"

lemma process_loop_spec:
  assumes laws: "etl_queue_laws I contents cap Q" and app: "appends_posts I contents resume"
  shows "I (d_queue (fst w)) \<Longrightarrow> contents (d_queue (fst w)) = xs @ ys \<Longrightarrow> length xs = n \<Longrightarrow>
    I (d_queue (fst (process_loop Q finished resume n w))) \<and>
    subseq (resumed_by Q finished resume n w) xs \<and>
    (\<exists>ps. contents (d_queue (fst (process_loop Q finished resume n w))) = ys @ ps) \<and>
    ((\<forall>h e. \<not> finished h e) \<longrightarrow> null_handle \<notin> set xs \<longrightarrow> resumed_by Q finished resume n w = xs)"
proof (induction n arbitrary: w xs ys)
  case 0
  then show ?case by simp
next
  case (Suc n)
  obtain d e where w: "w = (d, e)" by (cases w)
  from Suc.prems obtain x xs' where xs: "xs = x # xs'" "length xs' = n" by (cases xs) auto
  obtain q where q: "q_pop Q (d_queue d) = (Some x, q)" "I q" "contents q = xs' @ ys"
    using etl_pop_Cons [OF laws, of "d_queue d" x "xs' @ ys"] Suc.prems xs w by auto
  show ?case
  proof (cases "is_resumable x \<and> \<not> finished x e")
    case True
    let ?w = "resume x (d\<lparr>d_queue := q\<rparr>, e)"
    have "I (d_queue (d\<lparr>d_queue := q\<rparr>))" using q by simp
    then have "I (d_queue (fst ?w)) \<and>
      (\<exists>ps. contents (d_queue (fst ?w)) = contents (d_queue (d\<lparr>d_queue := q\<rparr>)) @ ps)"
      using app unfolding appends_posts_def by blast
    then obtain ps where ps: "I (d_queue (fst ?w))" "contents (d_queue (fst ?w)) = xs' @ (ys @ ps)"
      using q by auto
    from Suc.IH [OF ps xs(2)] show ?thesis using w q xs True by (auto simp: is_resumable_def)
  next
    case False
    from Suc.IH [of "(d\<lparr>d_queue := q\<rparr>, e)", OF _ _ xs(2)] q show ?thesis
      using w xs False by (auto simp: is_resumable_def)
  qed
qed

lemma length_resumed_by: "length (resumed_by Q finished resume n w) \<le> n"
proof (induction n arbitrary: w)
  case (Suc n)
  then show ?case
    using Suc.IH [THEN le_SucI] by (cases w) (simp split: prod.split option.split)
qed simp

section \<open>Properties\<close>

text \<open>
  Posting is never silent. With the built-in executor, posting a non-null handle either puts it
  at the end of the ready queue, raises the high-water mark to the new depth if it is deeper, and
  runs the wake hook once; or, when the queue is full, returns false, leaves the queue as it is and
  counts one dropped resume without waking anybody. Posting a null handle does nothing.
\<close>

theorem post_queues_or_counts:
  assumes "etl_queue_laws I contents cap Q" and "I (d_queue (ex_disp x))" and "cap < 2 ^ 32"
    and "ex_post x = None"
  shows "contents (d_queue (ex_disp (snd (post Q h x)))) =
      contents (d_queue (ex_disp x)) @ (if fst (post Q h x) then [h] else []) \<and>
    (fst (post Q h x) \<longleftrightarrow> h \<noteq> null_handle \<and> length (contents (d_queue (ex_disp x))) < cap) \<and>
    d_dropped (ex_disp (snd (post Q h x))) =
      d_dropped (ex_disp x) + (if h \<noteq> null_handle \<and> \<not> fst (post Q h x) then 1 else 0) \<and>
    unat (d_high_water (ex_disp (snd (post Q h x)))) =
      (if fst (post Q h x) then max (unat (d_high_water (ex_disp x)))
        (Suc (length (contents (d_queue (ex_disp x))))) else unat (d_high_water (ex_disp x))) \<and>
    ex_env (snd (post Q h x)) =
      (if fst (post Q h x) then (case ex_wake_task x of None \<Rightarrow> ex_env x | Some fn \<Rightarrow> fn (ex_env x))
       else ex_env x)"
proof -
  have post: "post Q h x = ring_post Q h x" using assms(4) by (simp add: post_def)
  consider "h = null_handle"
    | "h \<noteq> null_handle" "length (contents (d_queue (ex_disp x))) < cap"
    | "h \<noteq> null_handle" "\<not> length (contents (d_queue (ex_disp x))) < cap" by blast
  then show ?thesis
  proof cases
    case 1
    then show ?thesis
      unfolding post by (simp add: ring_post_def disp_push_def is_resumable_def)
  next
    case 2
    then show ?thesis using disp_push_room [OF assms(1,2) 2(2,1) assms(3)]
      unfolding post by (auto simp: ring_post_def wake_def split: prod.split option.split)
  next
    case 3
    then show ?thesis using disp_push_full [OF assms(1,2) 3(2,1)]
      unfolding post by (auto simp: ring_post_def split: prod.split)
  qed
qed

theorem post_queues_or_counts_witness:
  "d_queue (ex_disp (snd (post (list_queue 2) 7
      \<lparr>ex_disp = \<lparr>d_queue = [5], d_dropped = 0, d_high_water = 1\<rparr>, ex_env = (0 :: nat),
       ex_wake_task = Some Suc, ex_wake_isr = None, ex_post = None, ex_post_isr = None\<rparr>))) = [5, 7]"
  using post_queues_or_counts [OF list_queue_laws [of 2], of
      "\<lparr>ex_disp = \<lparr>d_queue = [5], d_dropped = 0, d_high_water = 1\<rparr>, ex_env = (0 :: nat),
       ex_wake_task = Some Suc, ex_wake_isr = None, ex_post = None, ex_post_isr = None\<rparr>" 7]
  by simp

text \<open>
  Purging a destroyed coroutine removes every copy of its handle from the ready queue, reports
  how many there were, and keeps all other handles in their order; nothing is dropped while the
  entries are re-queued. So a destroyed task is never resumed from the queue.
\<close>

theorem purge_removes_all:
  assumes "etl_queue_laws I contents cap Q" and "I (d_queue d)" and "h \<noteq> null_handle"
  shows "contents (d_queue (snd (purge Q h d))) = filter (\<lambda>x. x \<noteq> h) (contents (d_queue d)) \<and>
    fst (purge Q h d) = count_list (contents (d_queue d)) h \<and>
    I (d_queue (snd (purge Q h d))) \<and> d_dropped (snd (purge Q h d)) = d_dropped d"
  using purge_loop_spec [OF assms(1,2), of "contents (d_queue d)" "[]" _ h 0] assms
  by (auto simp: purge_def split: prod.split)

theorem purge_removes_all_witness:
  "d_queue (snd (purge (list_queue 4) 7 \<lparr>d_queue = [7, 5, 7, 6], d_dropped = 0, d_high_water = 4\<rparr>)) =
    [5, 6]"
  using purge_removes_all [OF list_queue_laws [of 4], of
    "\<lparr>d_queue = [7, 5, 7, 6], d_dropped = 0, d_high_water = 4\<rparr>" 7] by simp


text \<open>Two coroutines that post themselves again each time they run.\<close>

lemma repost_appends:
  "appends_posts (\<lambda>q. length q \<le> 4) (\<lambda>q. q) (\<lambda>h (d, e). (snd (disp_push (list_queue 4) h d), e))"
proof -
  have "length (d_queue (snd (disp_push (list_queue 4) h d))) \<le> 4 \<and>
    (\<exists>ps. d_queue (snd (disp_push (list_queue 4) h d)) = d_queue d @ ps)"
    if "length (d_queue d) \<le> 4" for h and d :: "handle list dispatcher"
    using that disp_push_room [OF list_queue_laws [of 4], of d h]
      disp_push_full [OF list_queue_laws [of 4], of d h]
    by (cases "h = null_handle"; cases "length (d_queue d) < 4")
      (auto simp: disp_push_def is_resumable_def)
  then show ?thesis by (auto simp: appends_posts_def)
qed


end
