(* ===== verification/Frame_Pool.thy ===== *)
theory Frame_Pool
  imports Prelude "HOL-Library.Multiset"
begin

text \<open>
  The static pool that all coroutine frames come from (\<open>include/asp_coro.hpp\<close>, namespace
  \<open>detail\<close>): a bump offset plus a free list searched for a frame of exactly the same size. The free
  list links live inside the dead frames; it is modelled as the list of the (offset, size) pairs in
  link order. A frame address is its offset in the pool. \<open>'w\<close> is the width of \<open>size_t\<close> and \<open>ff\<close> is
  \<open>sizeof(FreeFrame)\<close>. The compare-and-swap loop on the bump offset and the spinlock around the free
  list make an allocation atomic, so it is one step here.
\<close>

record (overloaded) 'w frame_pool =
  fp_free_list :: "('w::len word \<times> 'w word) list"
  fp_live_bytes :: "'w word"
  fp_offset :: "'w word"

definition kCoroFrameAlign :: "'w::len word" where "kCoroFrameAlign = 64"

definition coro_frame_size :: "'w::len word \<Rightarrow> 'w word \<Rightarrow> 'w word" where
  "coro_frame_size ff sz =
    (let aligned_sz = (sz + kCoroFrameAlign - 1) AND NOT (kCoroFrameAlign - 1)
     in if aligned_sz < ff then ff else aligned_sz)"

text \<open>The search \<open>for (link = &g_coro_free_list; *link; link = &(*link)->next)\<close> with the unlinking.\<close>

fun take_fit :: "'s \<Rightarrow> ('a \<times> 's) list \<Rightarrow> ('a \<times> ('a \<times> 's) list) option" where
  "take_fit aligned_sz [] = None"
| "take_fit aligned_sz ((frame, sz) # rest) =
    (if sz = aligned_sz then Some (frame, rest)
     else case take_fit aligned_sz rest of
            None \<Rightarrow> None
          | Some (f, rest') \<Rightarrow> Some (f, (frame, sz) # rest'))"

definition coro_frame_alloc :: "'w::len word \<Rightarrow> 'w word \<Rightarrow> 'w word \<Rightarrow> 'w frame_pool \<Rightarrow>
    'w word option \<times> 'w frame_pool" where
  "coro_frame_alloc ff capacity sz p =
    (let aligned_sz = coro_frame_size ff sz in
     case take_fit aligned_sz (fp_free_list p) of
       Some (frame, rest) \<Rightarrow>
         (Some frame, p\<lparr>fp_free_list := rest, fp_live_bytes := fp_live_bytes p + aligned_sz\<rparr>)
     | None \<Rightarrow>
         let offset = fp_offset p in
         if aligned_sz > capacity - offset then (None, p)
         else (Some offset, p\<lparr>fp_offset := offset + aligned_sz,
                 fp_live_bytes := fp_live_bytes p + aligned_sz\<rparr>))"

definition coro_frame_free ::
    "'w::len word \<Rightarrow> 'w word option \<Rightarrow> 'w word \<Rightarrow> 'w frame_pool \<Rightarrow> 'w frame_pool" where
  "coro_frame_free ff ptr sz p =
    (case ptr of
       None \<Rightarrow> p
     | Some frame \<Rightarrow>
        let aligned_sz = coro_frame_size ff sz
        in p\<lparr>fp_live_bytes := fp_live_bytes p - aligned_sz,
             fp_free_list := (frame, aligned_sz) # fp_free_list p\<rparr>)"

definition coro_pool_used :: "'w::len frame_pool \<Rightarrow> 'w word" where
  "coro_pool_used p = fp_live_bytes p"

definition coro_pool_high_water :: "'w::len frame_pool \<Rightarrow> 'w word" where
  "coro_pool_high_water p = fp_offset p"

definition pool_start :: "'w::len frame_pool" where
  "pool_start = \<lparr>fp_free_list = [], fp_live_bytes = 0, fp_offset = 0\<rparr>"

section \<open>Frame sizes\<close>

text \<open>A size the compiler may pass: not zero and not within 63 bytes of the address space.\<close>

definition frame_req :: "'w::len word \<Rightarrow> bool" where
  "frame_req sz \<longleftrightarrow> 8 \<le> LENGTH('w) \<and> 0 < unat sz \<and> unat sz + 63 < 2 ^ LENGTH('w)"

lemma unat_and_not_mask:
  fixes x :: "'w::len word"
  shows "unat (x AND NOT (mask k)) = unat x div 2 ^ k * 2 ^ k"
proof -
  have "unat (x AND NOT (mask k)) = push_bit k (drop_bit k (unat x))"
    by (rule bit_eqI) (auto simp: bit_simps dest: bit_imp_le_length)
  then show ?thesis by (simp add: push_bit_eq_mult drop_bit_eq_div)
qed

lemma coro_frame_size_eq:
  fixes sz ff :: "'w::len word"
  assumes "frame_req sz" and "unat ff \<le> 64"
  shows "unat (coro_frame_size ff sz) = (unat sz + 63) div 64 * 64"
proof -
  have w: "sz + kCoroFrameAlign - 1 = sz + 63" by (simp add: kCoroFrameAlign_def)
  have m: "kCoroFrameAlign - 1 = (mask 6 :: 'w word)"
    by (simp add: kCoroFrameAlign_def mask_eq_exp_minus_1)
  have "(64 :: nat) < 2 ^ LENGTH('w)"
    using assms(1) power_increasing [of 8 "LENGTH('w)" "2 :: nat"] by (simp add: frame_req_def)
  then have "unat (63 :: 'w word) = 63" using unat_of_nat_small [of 63, where 'w = 'w] by simp
  then have "unat (sz + 63) = unat sz + 63"
    using assms(1) by (simp add: unat_word_ariths(1) frame_req_def)
  then have *: "unat ((sz + kCoroFrameAlign - 1) AND NOT (kCoroFrameAlign - 1)) =
    (unat sz + 63) div 64 * 64"
    unfolding w m by (simp add: unat_and_not_mask)
  moreover have "unat ff \<le> (unat sz + 63) div 64 * 64"
  proof -
    have "1 \<le> (unat sz + 63) div 64" using assms(1) by (simp add: frame_req_def less_eq_div_iff_mult_less_eq)
    then show ?thesis using assms(2) by simp
  qed
  ultimately show ?thesis
    by (auto simp: coro_frame_size_def Let_def word_less_nat_alt)
qed

section \<open>Tilings of the pool\<close>

text \<open>Blocks that follow each other without gaps from one offset to another.\<close>

fun tiled :: "nat \<Rightarrow> (nat \<times> nat) list \<Rightarrow> nat \<Rightarrow> bool" where
  "tiled s [] e \<longleftrightarrow> s = e"
| "tiled s ((a, n) # bs) e \<longleftrightarrow> a = s \<and> 0 < n \<and> tiled (s + n) bs e"

lemma tiled_snoc: "tiled s (bs @ [(a, n)]) e \<longleftrightarrow> (\<exists>m. tiled s bs m \<and> a = m \<and> 0 < n \<and> e = m + n)"
  by (induction bs arbitrary: s) auto

lemma tiled_sum: "tiled s bs e \<Longrightarrow> s + sum_list (map snd bs) = e"
  by (induction bs arbitrary: s) (auto simp: add.assoc [symmetric])

lemma tiled_bounds:
  "tiled s bs e \<Longrightarrow> (a, n) \<in> set bs \<Longrightarrow> s \<le> a \<and> 0 < n \<and> a + n \<le> e"
proof (induction bs arbitrary: s)
  case (Cons x bs)
  obtain b m where x: "x = (b, m)" by (cases x)
  have rest: "tiled (s + m) bs e" and b: "b = s" "0 < m" using Cons.prems(1) x by auto
  show ?case
  proof (cases "(a, n) = x")
    case True
    then show ?thesis using tiled_sum [OF rest] b x by simp
  next
    case False
    then have "(a, n) \<in> set bs" using Cons.prems(2) by simp
    from Cons.IH [OF rest this] show ?thesis by simp
  qed
qed simp

lemma tiled_distinct: "tiled s bs e \<Longrightarrow> distinct bs"
proof (induction bs arbitrary: s)
  case (Cons b bs)
  then show ?case by (cases b) (auto dest: tiled_bounds)
qed simp

lemma tiled_disjoint:
  "tiled s bs e \<Longrightarrow> (a, n) \<in> set bs \<Longrightarrow> (b, m) \<in> set bs \<Longrightarrow> (a, n) \<noteq> (b, m) \<Longrightarrow>
    a + n \<le> b \<or> b + m \<le> a"
proof (induction bs arbitrary: s)
  case (Cons x bs)
  then show ?case by (cases x) (auto dest: tiled_bounds)
qed simp

lemma tiled_dvd:
  assumes "tiled s bs e" and "k dvd s" and "\<forall>b \<in> set bs. k dvd snd b"
  shows "\<forall>b \<in> set bs. k dvd fst b"
  using assms
proof (induction bs arbitrary: s)
  case (Cons x bs)
  then show ?case using Cons.IH [of "s + snd x"] by (cases x) auto
qed simp

section \<open>The invariant\<close>

text \<open>
  \<open>live\<close> records the frames handed out and not yet freed, with the size the compiler asked for.
  The free and the live frames together tile the carved part of the pool.
\<close>

definition block :: "'w::len word \<times> 'w word \<Rightarrow> nat \<times> nat" where
  "block b = (unat (fst b), unat (snd b))"

definition live_block :: "'w::len word \<Rightarrow> 'w word \<times> 'w word \<Rightarrow> nat \<times> nat" where
  "live_block ff b = (unat (fst b), unat (coro_frame_size ff (snd b)))"

definition pool_inv :: "'w::len word \<Rightarrow> 'w word \<Rightarrow> 'w frame_pool \<times> ('w word \<times> 'w word) list \<Rightarrow> bool" where
  "pool_inv ff capacity = (\<lambda>(p, live).
     (\<exists>bs. tiled 0 bs (unat (fp_offset p)) \<and>
        mset (map (live_block ff) live) + mset (map block (fp_free_list p)) = mset bs \<and>
        (\<forall>b \<in> set bs. 64 dvd snd b)) \<and>
     fp_offset p \<le> capacity \<and> unat ff \<le> 64 \<and>
     unat (fp_live_bytes p) = sum_list (map (snd \<circ> live_block ff) live))"

inductive pool_step :: "'w::len word \<Rightarrow> 'w word \<Rightarrow> 'w frame_pool \<times> ('w word \<times> 'w word) list \<Rightarrow>
    'w frame_pool \<times> ('w word \<times> 'w word) list \<Rightarrow> bool" for ff capacity where
  pool_alloc: "frame_req sz \<Longrightarrow> coro_frame_alloc ff capacity sz p = (Some a, p') \<Longrightarrow>
    pool_step ff capacity (p, live) (p', (a, sz) # live)"
| pool_exhausted: "frame_req sz \<Longrightarrow> coro_frame_alloc ff capacity sz p = (None, p') \<Longrightarrow>
    pool_step ff capacity (p, live) (p', live)"
| pool_free: "(a, sz) \<in> set live \<Longrightarrow>
    pool_step ff capacity (p, live) (coro_frame_free ff (Some a) sz p, remove1 (a, sz) live)"

lemma take_fit_Some:
  "take_fit n xs = Some (f, rest) \<Longrightarrow> mset xs = add_mset (f, n) (mset rest)"
proof (induction n xs arbitrary: rest rule: take_fit.induct)
  case (2 n frame sz xs)
  then show ?case by (auto split: if_splits option.splits)
qed simp

lemma take_fit_None: "take_fit n xs = None \<longleftrightarrow> n \<notin> snd ` set xs"
  by (induction n xs rule: take_fit.induct) (auto split: option.splits)

lemma tiled_split_sum:
  assumes "tiled 0 bs e" and "mset xs + mset ys = mset bs"
  shows "sum_list (map snd xs) + sum_list (map snd ys) = e"
proof -
  have "sum_list (map snd (xs @ ys)) = sum_list (map snd bs)"
    using assms(2) by (metis mset_append mset_map sum_mset_sum_list)
  then show ?thesis using tiled_sum [OF assms(1)] by simp
qed

lemma pool_inv_start: "unat ff \<le> 64 \<Longrightarrow> pool_inv ff capacity (pool_start, [])"
  by (auto simp: pool_inv_def pool_start_def intro: exI [of _ "[]"])

lemma unat_add_no_wrap:
  fixes a b c :: "'w::len word"
  assumes "unat a + unat b \<le> unat c"
  shows "unat (a + b) = unat a + unat b"
proof -
  have "unat a + unat b < 2 ^ LENGTH('w)" using le_less_trans [OF assms unsigned_less [of c]] .
  then show ?thesis by (simp add: unat_word_ariths(1))
qed

lemma pool_inv_reuse:
  assumes inv: "pool_inv ff capacity (p, live)"
    and fit: "take_fit (coro_frame_size ff sz) (fp_free_list p) = Some (a, rest)"
  shows "pool_inv ff capacity
    (p\<lparr>fp_free_list := rest, fp_live_bytes := fp_live_bytes p + coro_frame_size ff sz\<rparr>, (a, sz) # live)"
proof -
  let ?n = "coro_frame_size ff sz"
  obtain bs where bs: "tiled 0 bs (unat (fp_offset p))"
    "mset (map (live_block ff) live) + mset (map block (fp_free_list p)) = mset bs"
    "\<forall>b \<in> set bs. 64 dvd snd b" using inv by (auto simp: pool_inv_def)
  have m: "mset (map (live_block ff) ((a, sz) # live)) + mset (map block rest) = mset bs"
    using bs(2) take_fit_Some [OF fit] by (simp add: live_block_def block_def)
  from tiled_split_sum [OF bs(1) m]
  have "unat (fp_live_bytes p) + unat ?n \<le> unat (fp_offset p)"
    using inv by (auto simp: pool_inv_def live_block_def comp_def)
  then have "unat (fp_live_bytes p + ?n) = unat (fp_live_bytes p) + unat ?n"
    by (rule unat_add_no_wrap)
  with inv bs m show ?thesis by (auto simp: pool_inv_def live_block_def)
qed

lemma pool_inv_carve:
  assumes inv: "pool_inv ff capacity (p, live)" and req: "frame_req sz"
    and room: "\<not> coro_frame_size ff sz > capacity - fp_offset p"
  shows "pool_inv ff capacity
    (p\<lparr>fp_offset := fp_offset p + coro_frame_size ff sz,
       fp_live_bytes := fp_live_bytes p + coro_frame_size ff sz\<rparr>, (fp_offset p, sz) # live)"
proof -
  let ?n = "coro_frame_size ff sz" and ?o = "fp_offset p"
  obtain bs where bs: "tiled 0 bs (unat ?o)"
    "mset (map (live_block ff) live) + mset (map block (fp_free_list p)) = mset bs"
    "\<forall>b \<in> set bs. 64 dvd snd b" using inv by (auto simp: pool_inv_def)
  have n: "unat ?n = (unat sz + 63) div 64 * 64" using coro_frame_size_eq [OF req] inv
    by (simp add: pool_inv_def)
  have le: "?o \<le> capacity" using inv by (simp add: pool_inv_def)
  have sum: "unat ?o + unat ?n \<le> unat capacity"
    using room le unat_sub [OF le] by (simp add: word_less_nat_alt word_le_nat_alt)
  then have o': "unat (?o + ?n) = unat ?o + unat ?n" by (rule unat_add_no_wrap)
  have "unat (fp_live_bytes p) \<le> unat ?o"
    using tiled_split_sum [OF bs(1,2)] inv by (auto simp: pool_inv_def comp_def)
  with sum have "unat (fp_live_bytes p) + unat ?n \<le> unat capacity" by simp
  then have l: "unat (fp_live_bytes p + ?n) = unat (fp_live_bytes p) + unat ?n"
    by (rule unat_add_no_wrap)
  have "0 < (unat sz + 63) div 64" using req by (simp add: frame_req_def div_greater_zero_iff)
  then have "tiled 0 (bs @ [(unat ?o, unat ?n)]) (unat (?o + ?n))"
    using bs(1) n o' by (simp add: tiled_snoc)
  moreover have "mset (map (live_block ff) ((?o, sz) # live)) + mset (map block (fp_free_list p)) =
    mset (bs @ [(unat ?o, unat ?n)])"
    using bs(2) by (simp add: live_block_def)
  moreover have "\<forall>b \<in> set (bs @ [(unat ?o, unat ?n)]). 64 dvd snd b" using bs(3) n by auto
  moreover have "?o + ?n \<le> capacity" using sum o' by (simp add: word_le_nat_alt)
  moreover have "unat ff \<le> 64" "unat (fp_live_bytes p + ?n) = sum_list (map (snd \<circ> live_block ff) ((?o, sz) # live))"
    using inv l by (auto simp: pool_inv_def live_block_def)
  ultimately show ?thesis unfolding pool_inv_def prod.case
    by (intro conjI exI [of _ "bs @ [(unat ?o, unat ?n)]"]) simp_all
qed

lemma pool_inv_free:
  assumes inv: "pool_inv ff capacity (p, live)" and mem: "(a, sz) \<in> set live"
  shows "pool_inv ff capacity (coro_frame_free ff (Some a) sz p, remove1 (a, sz) live)"
proof -
  let ?n = "coro_frame_size ff sz"
  have m: "mset live = add_mset (a, sz) (mset (remove1 (a, sz) live))" using mem by simp
  then have sum: "sum_list (map (snd \<circ> live_block ff) live) =
    unat ?n + sum_list (map (snd \<circ> live_block ff) (remove1 (a, sz) live))"
    using sum_list_map_remove1 [OF mem, of "snd \<circ> live_block ff"] by (simp add: live_block_def)
  then have "unat ?n \<le> unat (fp_live_bytes p)" using inv by (simp add: pool_inv_def)
  then have "unat (fp_live_bytes p - ?n) = unat (fp_live_bytes p) - unat ?n"
    by (intro unat_sub) (simp add: word_le_nat_alt)
  moreover have "mset (map (live_block ff) (remove1 (a, sz) live)) +
      mset (map block ((a, ?n) # fp_free_list p)) =
      mset (map (live_block ff) live) + mset (map block (fp_free_list p))"
    by (simp only: mset_map m) (simp add: live_block_def block_def)
  ultimately show ?thesis
    using inv sum unfolding pool_inv_def prod.case
    by (auto simp: coro_frame_free_def Let_def simp del: mset_map mset.simps list.map mset_remove1)
qed

lemma pool_inv_step: "pool_step ff capacity x y \<Longrightarrow> pool_inv ff capacity x \<Longrightarrow> pool_inv ff capacity y"
proof (induction rule: pool_step.induct)
  case (pool_alloc sz p a p' live)
  then show ?case using pool_inv_reuse [of ff capacity p live sz] pool_inv_carve [of ff capacity p live sz]
    by (auto simp: coro_frame_alloc_def Let_def split: option.splits if_splits)
next
  case (pool_exhausted sz p p' live)
  then show ?case by (auto simp: coro_frame_alloc_def Let_def split: option.splits if_splits)
next
  case (pool_free a sz live p)
  then show ?case by (simp add: pool_inv_free)
qed

lemma pool_inv_reachable:
  "(pool_step ff capacity)\<^sup>*\<^sup>* x y \<Longrightarrow> pool_inv ff capacity x \<Longrightarrow> pool_inv ff capacity y"
  by (induction rule: rtranclp_induct) (auto intro: pool_inv_step)

section \<open>Properties\<close>

text \<open>
  (C6) Over any sequence of allocations and frees of frames that are live, starting from the empty
  pool: every live frame is 64-byte aligned and lies inside the pool, no two live frames overlap, none
  was handed out twice, and the live-byte counter is the sum of the live frame sizes. So storage of a
  live coroutine is never handed out again.
\<close>

theorem live_frames_disjoint:
  assumes "unat ff \<le> 64"
    and "(pool_step ff capacity)\<^sup>*\<^sup>* (pool_start, []) (p, live)"
  shows "distinct live \<and>
    (\<forall>b \<in> set live. 64 dvd unat (fst b) \<and>
       unat (fst b) + unat (coro_frame_size ff (snd b)) \<le> unat capacity) \<and>
    (\<forall>b \<in> set live. \<forall>c \<in> set live. b \<noteq> c \<longrightarrow>
       unat (fst b) + unat (coro_frame_size ff (snd b)) \<le> unat (fst c) \<or>
       unat (fst c) + unat (coro_frame_size ff (snd c)) \<le> unat (fst b)) \<and>
    unat (coro_pool_used p) = (\<Sum>b \<leftarrow> live. unat (coro_frame_size ff (snd b)))"
proof -
  have inv: "pool_inv ff capacity (p, live)"
    using pool_inv_reachable [OF assms(2) pool_inv_start [OF assms(1)]] .
  then obtain bs where bs: "tiled 0 bs (unat (fp_offset p))"
    "mset (map (live_block ff) live) + mset (map block (fp_free_list p)) = mset bs"
    "\<forall>b \<in> set bs. 64 dvd snd b" and cap: "unat (fp_offset p) \<le> unat capacity"
    by (auto simp: pool_inv_def word_le_nat_alt)
  have d: "distinct (map (live_block ff) live)"
    using tiled_distinct [OF bs(1)] bs(2) by (metis distinct_append mset_append mset_eq_imp_distinct_iff)
  have sub: "live_block ff b \<in> set bs" if "b \<in> set live" for b
    using that bs(2) by (metis (no_types, lifting) Un_iff image_eqI set_map set_mset_mset set_mset_union)
  have inside: "64 dvd unat (fst b) \<and> unat (fst b) + unat (coro_frame_size ff (snd b)) \<le> unat capacity"
    if "b \<in> set live" for b
    using tiled_bounds [OF bs(1) sub [OF that, unfolded live_block_def]] cap sub [OF that]
      tiled_dvd [OF bs(1) _ bs(3)] by (fastforce simp: live_block_def)
  have "live_block ff b \<noteq> live_block ff c" if "b \<in> set live" "c \<in> set live" "b \<noteq> c" for b c
    using that d by (auto simp: distinct_map inj_on_def)
  then have apart: "unat (fst b) + unat (coro_frame_size ff (snd b)) \<le> unat (fst c) \<or>
      unat (fst c) + unat (coro_frame_size ff (snd c)) \<le> unat (fst b)"
    if "b \<in> set live" "c \<in> set live" "b \<noteq> c" for b c
    using tiled_disjoint [OF bs(1)] sub that unfolding live_block_def by blast
  show ?thesis
    using d inside apart inv
    by (auto simp: distinct_map pool_inv_def coro_pool_used_def live_block_def comp_def)
qed

text \<open>
  A freed frame is reused: after freeing a frame, an allocation of any size with the same rounded
  frame size succeeds without carving new storage, so a loop that repeatedly creates and destroys
  coroutines of a fixed set of sizes stops growing the pool.
\<close>

theorem freed_frame_is_reused:
  assumes "coro_frame_size ff sz' = coro_frame_size ff sz"
  shows "coro_frame_alloc ff capacity sz' (coro_frame_free ff (Some a) sz p) =
    (Some a, p)"
  using assms by (simp add: coro_frame_alloc_def coro_frame_free_def Let_def)

theorem freed_frame_is_reused_witness:
  "fst (coro_frame_alloc 16 1024 100 (coro_frame_free 16 (Some 64) 70
     \<lparr>fp_free_list = [], fp_live_bytes = 192, fp_offset = (192 :: 64 word)\<rparr>)) = Some 64"
proof -
  have "coro_frame_size 16 (100 :: 64 word) = coro_frame_size 16 70" by code_simp
  from freed_frame_is_reused [OF this] show ?thesis by simp
qed

theorem live_frames_disjoint_witness:
  "\<exists>p. (pool_step 16 256)\<^sup>*\<^sup>* (pool_start, []) (p, [(64, 100), (0, 10 :: 64 word)]) \<and>
    unat (coro_pool_used p) = 192"
proof -
  let ?p1 = "\<lparr>fp_free_list = [], fp_live_bytes = 64, fp_offset = (64 :: 64 word)\<rparr>"
  let ?p2 = "\<lparr>fp_free_list = [], fp_live_bytes = 192, fp_offset = (192 :: 64 word)\<rparr>"
  have "pool_step 16 256 (pool_start, []) (?p1, [(0, 10 :: 64 word)])"
    by (rule pool_alloc) (simp add: frame_req_def, code_simp)
  moreover have "pool_step 16 256 (?p1, [(0, 10 :: 64 word)]) (?p2, [(64, 100), (0, 10)])"
    by (rule pool_alloc) (simp add: frame_req_def, code_simp)
  ultimately have reach: "(pool_step 16 256)\<^sup>*\<^sup>* (pool_start, []) (?p2, [(64, 100), (0, 10 :: 64 word)])"
    by (meson converse_rtranclp_into_rtranclp rtranclp.rtrancl_refl)
  have "coro_frame_size 16 (100 :: 64 word) = 128" "coro_frame_size 16 (10 :: 64 word) = 64"
    by code_simp+
  with live_frames_disjoint [OF _ reach] reach show ?thesis by (intro exI [of _ ?p2]) simp
qed

end
