(* ===== verification/Intrusive_List.thy ===== *)
theory Intrusive_List
  imports Prelude
begin

text \<open>
  Intrusive singly linked lists of awaiters, as the wait queues of \<open>include/asp_coro.hpp\<close>
  (\<open>Event\<close>, \<open>Semaphore\<close>, \<open>AsyncQueue\<close>) and of \<open>include/abstractx/hal/bus_lock.hpp\<close> keep them. A
  node is the address of the awaiter object, 0 is the null pointer, and the \<open>next_\<close> members of all
  nodes form one map. Pointer walks are partial functions: on a cyclic list they would not return.
  The predicate \<open>linked\<close> relates a list head, tail and next map to the sequence of its nodes, and the
  locale \<open>waiter_list\<close> states what the primitives built on such a list rely on.
\<close>

record ilist =
  il_head :: nat
  il_tail :: nat
  il_next :: "nat \<Rightarrow> nat"

definition il_empty :: ilist where
  "il_empty = \<lparr>il_head = 0, il_tail = 0, il_next = (\<lambda>_. 0)\<rparr>"

definition il_append :: "nat \<Rightarrow> ilist \<Rightarrow> ilist" where
  "il_append w l =
    (let nx = (il_next l)(w := 0) in
     if il_tail l \<noteq> 0 then l\<lparr>il_next := nx(il_tail l := w), il_tail := w\<rparr>
     else l\<lparr>il_next := nx, il_head := w, il_tail := w\<rparr>)"

text \<open>
  The walk \<open>prev = nullptr; for (p = head; p; prev = p, p = p->next_) if (p == w) break;\<close>. It returns
  the predecessor (0 at the head) if \<open>w\<close> is found, \<open>None\<close> inside if the list ends first.
\<close>

partial_function (option) il_find :: "(nat \<Rightarrow> nat) \<Rightarrow> nat \<Rightarrow> nat \<Rightarrow> nat \<Rightarrow> nat option option" where
  "il_find nx w prev p =
    (if p = 0 then Some None else if p = w then Some (Some prev) else il_find nx w p (nx p))"

text \<open>
  Linking a found node out of the chain, keeping the tail pointer when the list has one, and
  \<open>il_unlink\<close>, which also clears the link of the removed node.
\<close>

definition link_out :: "nat \<Rightarrow> (nat \<Rightarrow> nat) \<Rightarrow> nat \<Rightarrow> nat \<Rightarrow> nat \<times> (nat \<Rightarrow> nat)" where
  "link_out head nx w prev = (if prev \<noteq> 0 then (head, nx(prev := nx w)) else (nx w, nx))"

definition il_remove :: "nat \<Rightarrow> ilist \<Rightarrow> ilist option" where
  "il_remove w l =
    (case il_find (il_next l) w 0 (il_head l) of
       None \<Rightarrow> None
     | Some None \<Rightarrow> Some l
     | Some (Some prev) \<Rightarrow>
        let (h, nx) = link_out (il_head l) (il_next l) w prev
        in Some \<lparr>il_head = h, il_tail = (if il_tail l = w then prev else il_tail l), il_next = nx\<rparr>)"

definition il_unlink :: "nat \<Rightarrow> ilist \<Rightarrow> ilist option" where
  "il_unlink w l = (case il_remove w l of
     None \<Rightarrow> None | Some l \<Rightarrow> Some (l\<lparr>il_next := (il_next l)(w := 0)\<rparr>))"

text \<open>Taking the first node: \<open>head = w->next_; if (!head) tail = nullptr; w->next_ = nullptr\<close>.\<close>

definition il_pop_front :: "ilist \<Rightarrow> ilist" where
  "il_pop_front l =
    (let w = il_head l; h = il_next l w in
     \<lparr>il_head = h, il_tail = (if h = 0 then 0 else il_tail l), il_next = (il_next l)(w := 0)\<rparr>)"

section \<open>Chains\<close>

fun chain :: "(nat \<Rightarrow> nat) \<Rightarrow> nat \<Rightarrow> nat list \<Rightarrow> nat \<Rightarrow> bool" where
  "chain nx p [] q \<longleftrightarrow> p = q"
| "chain nx p (x # xs) q \<longleftrightarrow> p = x \<and> x \<noteq> 0 \<and> chain nx (nx x) xs q"

definition linked :: "ilist \<Rightarrow> nat list \<Rightarrow> bool" where
  "linked l xs \<longleftrightarrow> chain (il_next l) (il_head l) xs 0 \<and> distinct xs \<and>
     il_tail l = (if xs = [] then 0 else last xs)"

lemma chain_append: "chain nx p (xs @ ys) q \<longleftrightarrow> (\<exists>m. chain nx p xs m \<and> chain nx m ys q)"
  by (induction xs arbitrary: p) auto

lemma chain_upd [simp]: "w \<notin> set xs \<Longrightarrow> chain (nx(w := v)) p xs q = chain nx p xs q"
  by (induction xs arbitrary: p) auto

lemma chain_no_null: "chain nx p xs q \<Longrightarrow> 0 \<notin> set xs"
  by (induction xs arbitrary: p) auto

lemma linked_empty [simp]: "linked il_empty []"
  by (simp add: linked_def il_empty_def)

lemma linked_Nil_iff: "linked l xs \<Longrightarrow> il_head l = 0 \<longleftrightarrow> xs = []"
  by (cases xs) (auto simp: linked_def)

lemma linked_head: "linked l xs \<Longrightarrow> il_head l = (case xs of [] \<Rightarrow> 0 | x # _ \<Rightarrow> x)"
  by (cases xs) (auto simp: linked_def)

lemma linked_no_null: "linked l xs \<Longrightarrow> 0 \<notin> set xs"
  by (auto simp: linked_def dest: chain_no_null)

lemma linked_distinct: "linked l xs \<Longrightarrow> distinct xs"
  by (simp add: linked_def)

lemma linked_append:
  assumes "linked l xs" and "w \<notin> set xs" and "w \<noteq> 0"
  shows "linked (il_append w l) (xs @ [w])"
proof (cases xs rule: rev_cases)
  case Nil
  then show ?thesis using assms by (simp add: linked_def il_append_def)
next
  case (snoc ys y)
  have y: "y \<noteq> 0" "y \<notin> set ys" "il_tail l = y" "w \<noteq> y" "w \<notin> set ys"
    using assms snoc linked_no_null [OF assms(1)] by (auto simp: linked_def)
  have "chain (il_next l) (il_head l) ys y" using assms(1) snoc by (auto simp: linked_def chain_append)
  then have "chain ((il_next l)(w := 0, y := w)) (il_head l) (ys @ [y] @ [w]) 0"
    using y assms(3) by (simp add: chain_append)
  then show ?thesis using assms snoc y by (simp add: linked_def il_append_def Let_def)
qed

lemma il_find_chain:
  "chain nx p xs 0 \<Longrightarrow> w \<noteq> 0 \<Longrightarrow> il_find nx w prev p = Some
    (if w \<in> set xs then Some (last (prev # takeWhile (\<lambda>x. x \<noteq> w) xs)) else None)"
proof (induction xs arbitrary: p prev)
  case Nil
  then show ?case by (subst il_find.simps) simp
next
  case (Cons x xs)
  then show ?case using Cons.IH [of "nx x" x] by (subst il_find.simps) auto
qed

lemma il_find_split:
  assumes "chain nx p (ys @ w # zs) 0" and "w \<notin> set ys"
  shows "il_find nx w prev p = Some (Some (last (prev # ys)))"
proof -
  have "takeWhile (\<lambda>x. x \<noteq> w) (ys @ w # zs) = ys" using assms(2) by (subst takeWhile_append2) auto
  moreover have "w \<noteq> 0" using chain_no_null [OF assms(1)] by auto
  ultimately show ?thesis using il_find_chain [OF assms(1)] by simp
qed

lemma chain_link_out:
  assumes "chain nx p (ys @ w # zs) 0" and "distinct (ys @ w # zs)"
    and "link_out p nx w (last (0 # ys)) = (h, nx')"
  shows "chain nx' h (ys @ zs) 0"
proof (cases ys rule: rev_cases)
  case Nil
  then show ?thesis using assms by (auto simp: link_out_def)
next
  case (snoc us u)
  have "0 \<notin> set (ys @ w # zs)" using assms(1) by (rule chain_no_null)
  then have u: "u \<noteq> 0" "u \<notin> set us" "u \<notin> set zs" "u \<noteq> w" using assms(2) snoc by auto
  have "chain nx p us u" "chain nx (nx w) zs 0" using assms(1) snoc by (auto simp: chain_append)
  then have "chain (nx(u := nx w)) p (us @ u # zs) 0" using u by (simp add: chain_append)
  then show ?thesis using assms(3) snoc u by (auto simp: link_out_def)
qed

text \<open>Removing always returns on a well-formed list and removes exactly the node asked for.\<close>

lemma linked_remove:
  assumes l: "linked l xs" and w: "w \<noteq> 0"
  shows "\<exists>l'. il_remove w l = Some l' \<and> linked l' (remove1 w xs)"
proof (cases "w \<in> set xs")
  case False
  then show ?thesis using assms il_find_chain [of "il_next l" "il_head l" xs w 0]
    by (auto simp: il_remove_def linked_def remove1_idem)
next
  case True
  then obtain ys zs where xs: "xs = ys @ w # zs" and ys: "w \<notin> set ys" by (meson split_list_first)
  have c: "chain (il_next l) (il_head l) (ys @ w # zs) 0" and d: "distinct (ys @ w # zs)"
    and tl: "il_tail l = last (w # zs)" using l xs by (auto simp: linked_def)
  have tlw: "il_tail l = w \<longleftrightarrow> zs = []" using tl d by (auto simp: last_in_set)
  obtain h nx where out: "link_out (il_head l) (il_next l) w (last (0 # ys)) = (h, nx)" by fastforce
  show ?thesis
    using chain_link_out [OF c d out] il_find_split [OF c ys, of 0] out d ys tl tlw xs
    by (auto simp: il_remove_def linked_def remove1_append)
qed

lemma linked_upd_outside: "linked l xs \<Longrightarrow> w \<notin> set xs \<Longrightarrow> linked (l\<lparr>il_next := (il_next l)(w := v)\<rparr>) xs"
  by (simp add: linked_def)

lemma linked_unlink:
  assumes "linked l xs" and "w \<noteq> 0"
  shows "\<exists>l'. il_unlink w l = Some l' \<and> linked l' (remove1 w xs)"
  using linked_remove [OF assms] linked_distinct [OF assms(1)] linked_upd_outside
  by (fastforce simp: il_unlink_def)

lemma linked_pop_front:
  assumes "linked l (x # xs)"
  shows "linked (il_pop_front l) xs"
proof -
  have "chain (il_next l) (il_next l x) xs 0" "x \<notin> set xs" "il_head l = x" "distinct xs"
    "il_tail l = last (x # xs)" using assms by (auto simp: linked_def)
  moreover from this have "il_next l x = 0 \<longleftrightarrow> xs = []" by (cases xs) auto
  ultimately show ?thesis by (auto simp: linked_def il_pop_front_def Let_def)
qed

section \<open>The interface\<close>

locale waiter_list =
  fixes rep :: "'l \<Rightarrow> nat list \<Rightarrow> bool"
    and front :: "'l \<Rightarrow> nat"
    and enqueue :: "nat \<Rightarrow> 'l \<Rightarrow> 'l"
    and unlink :: "nat \<Rightarrow> 'l \<Rightarrow> 'l option"
  assumes front_rep: "rep l xs \<Longrightarrow> front l = (case xs of [] \<Rightarrow> 0 | x # _ \<Rightarrow> x)"
    and rep_no_null: "rep l xs \<Longrightarrow> 0 \<notin> set xs"
    and rep_distinct: "rep l xs \<Longrightarrow> distinct xs"
    and enqueue_rep: "rep l xs \<Longrightarrow> w \<notin> set xs \<Longrightarrow> w \<noteq> 0 \<Longrightarrow> rep (enqueue w l) (xs @ [w])"
    and unlink_rep: "rep l xs \<Longrightarrow> w \<noteq> 0 \<Longrightarrow> \<exists>l'. unlink w l = Some l' \<and> rep l' (remove1 w xs)"
begin

lemma front_zero_iff: "rep l xs \<Longrightarrow> front l = 0 \<longleftrightarrow> xs = []"
  using front_rep [of l xs] rep_no_null [of l xs] by (cases xs) auto

lemma unlink_front:
  assumes "rep l (x # xs)"
  shows "front l = x \<and> (\<exists>l'. unlink x l = Some l' \<and> rep l' xs)"
  using front_rep [OF assms] unlink_rep [OF assms, of x] rep_no_null [OF assms] by auto

text \<open>Any sequence of enqueues and removals leaves the remaining waiters in arrival order.\<close>

fun run_ops :: "(nat + nat) list \<Rightarrow> 'l \<Rightarrow> 'l option" where
  "run_ops [] l = Some l"
| "run_ops (Inl w # ops) l = run_ops ops (enqueue w l)"
| "run_ops (Inr w # ops) l = (case unlink w l of None \<Rightarrow> None | Some l' \<Rightarrow> run_ops ops l')"

fun list_ops :: "(nat + nat) list \<Rightarrow> nat list \<Rightarrow> nat list" where
  "list_ops [] xs = xs"
| "list_ops (Inl w # ops) xs = list_ops ops (xs @ [w])"
| "list_ops (Inr w # ops) xs = list_ops ops (remove1 w xs)"

fun ops_ok :: "(nat + nat) list \<Rightarrow> nat list \<Rightarrow> bool" where
  "ops_ok [] xs \<longleftrightarrow> True"
| "ops_ok (Inl w # ops) xs \<longleftrightarrow> w \<noteq> 0 \<and> w \<notin> set xs \<and> ops_ok ops (xs @ [w])"
| "ops_ok (Inr w # ops) xs \<longleftrightarrow> w \<noteq> 0 \<and> ops_ok ops (remove1 w xs)"

lemma run_ops_refines:
  "rep l xs \<Longrightarrow> ops_ok ops xs \<Longrightarrow> \<exists>l'. run_ops ops l = Some l' \<and> rep l' (list_ops ops xs)"
proof (induction ops arbitrary: l xs)
  case (Cons p ops)
  then show ?case
  proof (cases p)
    case (Inr w)
    then obtain l' where "unlink w l = Some l'" "rep l' (remove1 w xs)"
      using Cons.prems unlink_rep [of l xs w] by auto
    then show ?thesis using Cons Inr by simp
  qed (auto intro: enqueue_rep)
qed auto

end

interpretation il: waiter_list linked il_head il_append il_unlink
  by unfold_locales
    (simp_all add: linked_head linked_no_null linked_distinct linked_append linked_unlink)

end
