(* ===== verification/Sync.thy ===== *)
theory Sync
  imports Intrusive_List
begin

text \<open>
  The cooperative \<open>Event\<close> and \<open>Semaphore\<close> of \<open>include/asp_coro.hpp\<close>. An awaiter object is its
  address; the members \<open>handle_\<close>, \<open>next_\<close> and \<open>granted_\<close> of all awaiters are maps from addresses.
  Operations that wake coroutines return the handles they post. Both classes are used on the
  AbstractX thread only, so an operation is one step.
\<close>

section \<open>Event\<close>

record event =
  ev_state :: bool
  ev_waiters :: nat
  ev_next :: "nat \<Rightarrow> nat"
  ev_handle :: "nat \<Rightarrow> handle"

partial_function (option) event_wake_all :: "event \<Rightarrow> handle list \<Rightarrow> (event \<times> handle list) option" where
  "event_wake_all e posts =
    (if ev_waiters e = 0 then Some (e, posts)
     else let w = ev_waiters e; next = ev_next e w; h = ev_handle e w
          in event_wake_all
               (e\<lparr>ev_handle := (ev_handle e)(w := null_handle), ev_next := (ev_next e)(w := 0),
                  ev_waiters := next\<rparr>)
               (if h \<noteq> null_handle then posts @ [h] else posts))"

definition event_set :: "event \<Rightarrow> (event \<times> handle list) option" where
  "event_set e = event_wake_all (e\<lparr>ev_state := True\<rparr>) []"

definition event_reset :: "event \<Rightarrow> event" where
  "event_reset e = e\<lparr>ev_state := False\<rparr>"

definition event_await_ready :: "event \<Rightarrow> bool" where
  "event_await_ready e = ev_state e"

definition event_await_suspend :: "nat \<Rightarrow> handle \<Rightarrow> event \<Rightarrow> event" where
  "event_await_suspend a h e =
     e\<lparr>ev_handle := (ev_handle e)(a := h), ev_next := (ev_next e)(a := ev_waiters e), ev_waiters := a\<rparr>"

definition event_awaiter_destroy :: "nat \<Rightarrow> event \<Rightarrow> event option" where
  "event_awaiter_destroy a e =
    (if ev_handle e a = null_handle then Some e
     else case il_find (ev_next e) a 0 (ev_waiters e) of
       None \<Rightarrow> None
     | Some None \<Rightarrow> Some e
     | Some (Some prev) \<Rightarrow>
        let (h, nx) = link_out (ev_waiters e) (ev_next e) a prev
        in Some (e\<lparr>ev_waiters := h, ev_next := nx\<rparr>))"

definition event_rep :: "event \<Rightarrow> nat list \<Rightarrow> bool" where
  "event_rep e xs \<longleftrightarrow> chain (ev_next e) (ev_waiters e) xs 0 \<and> distinct xs \<and>
     (\<forall>a. ev_handle e a \<noteq> null_handle \<longleftrightarrow> a \<in> set xs)"

lemma event_rep_suspend:
  assumes "event_rep e xs" and "a \<notin> set xs" and "a \<noteq> 0" and "h \<noteq> null_handle"
  shows "event_rep (event_await_suspend a h e) (a # xs)"
  using assms by (auto simp: event_rep_def event_await_suspend_def)

lemma event_rep_destroy:
  assumes rep: "event_rep e xs" and a: "a \<in> set xs"
  shows "\<exists>e'. event_awaiter_destroy a e = Some e' \<and>
    chain (ev_next e') (ev_waiters e') (remove1 a xs) 0 \<and> ev_handle e' = ev_handle e"
proof -
  obtain ys zs where xs: "xs = ys @ a # zs" "a \<notin> set ys" using a by (meson split_list_first)
  have c: "chain (ev_next e) (ev_waiters e) (ys @ a # zs) 0" and d: "distinct (ys @ a # zs)"
    and h: "ev_handle e a \<noteq> null_handle" using rep a xs by (auto simp: event_rep_def)
  obtain q nx where out: "link_out (ev_waiters e) (ev_next e) a (last (0 # ys)) = (q, nx)" by fastforce
  show ?thesis
    using chain_link_out [OF c d out] il_find_split [OF c xs(2), of 0] out h xs
    by (auto simp: event_awaiter_destroy_def remove1_append)
qed

lemma event_wake_all_spec:
  "chain (ev_next e) (ev_waiters e) xs 0 \<Longrightarrow> distinct xs \<Longrightarrow> \<forall>a \<in> set xs. ev_handle e a \<noteq> null_handle \<Longrightarrow>
    \<exists>e'. event_wake_all e posts = Some (e', posts @ map (ev_handle e) xs) \<and>
      ev_waiters e' = 0 \<and> ev_state e' = ev_state e \<and>
      (\<forall>a. ev_handle e' a = (if a \<in> set xs then null_handle else ev_handle e a))"
proof (induction xs arbitrary: e posts)
  case Nil
  then show ?case by (subst event_wake_all.simps) simp
next
  case (Cons x xs)
  let ?e = "e\<lparr>ev_handle := (ev_handle e)(x := null_handle), ev_next := (ev_next e)(x := 0),
    ev_waiters := ev_next e x\<rparr>"
  have x: "ev_waiters e = x" "x \<noteq> 0" "ev_handle e x \<noteq> null_handle" "x \<notin> set xs"
    using Cons.prems by auto
  have step: "event_wake_all e posts = event_wake_all ?e (posts @ [ev_handle e x])"
    by (subst event_wake_all.simps) (simp add: x Let_def)
  have m: "map (ev_handle ?e) xs = map (ev_handle e) xs" using x(4) by simp
  have "chain (ev_next ?e) (ev_waiters ?e) xs 0" "distinct xs" "\<forall>a \<in> set xs. ev_handle ?e a \<noteq> null_handle"
    using Cons.prems x(4) by auto
  from Cons.IH [OF this, of "posts @ [ev_handle e x]"] obtain e' where
    "event_wake_all ?e (posts @ [ev_handle e x]) = Some (e', posts @ map (ev_handle e) (x # xs))"
    "ev_waiters e' = 0" "ev_state e' = ev_state e"
    "\<forall>a. ev_handle e' a = (if a \<in> set xs then null_handle else ev_handle ?e a)"
    unfolding m by auto
  then show ?case unfolding step using x(4) by (intro exI [of _ e']) auto
qed

section \<open>Semaphore\<close>

record (overloaded) 'w semaphore =
  sm_count :: "'w::len word"
  sm_list :: ilist
  sm_handle :: "nat \<Rightarrow> handle"
  sm_granted :: "nat \<Rightarrow> bool"

definition sem_release :: "'w::len semaphore \<Rightarrow> 'w semaphore \<times> handle list" where
  "sem_release s =
    (let w = il_head (sm_list s) in
     if w \<noteq> 0 then
       (s\<lparr>sm_list := il_pop_front (sm_list s), sm_handle := (sm_handle s)(w := null_handle),
          sm_granted := (sm_granted s)(w := True)\<rparr>, [sm_handle s w])
     else (s\<lparr>sm_count := sm_count s + 1\<rparr>, []))"

text \<open>A new awaiter object: null handle, null link, not granted.\<close>

definition sem_acquire :: "nat \<Rightarrow> 'w::len semaphore \<Rightarrow> 'w semaphore" where
  "sem_acquire a s = s\<lparr>sm_handle := (sm_handle s)(a := null_handle),
     sm_granted := (sm_granted s)(a := False)\<rparr>"

definition sem_await_ready :: "'w::len semaphore \<Rightarrow> bool" where
  "sem_await_ready s \<longleftrightarrow> sm_count s > 0"

definition sem_await_suspend :: "nat \<Rightarrow> handle \<Rightarrow> 'w::len semaphore \<Rightarrow> 'w semaphore" where
  "sem_await_suspend a h s =
     s\<lparr>sm_handle := (sm_handle s)(a := h), sm_list := il_append a (sm_list s)\<rparr>"

definition sem_await_resume :: "nat \<Rightarrow> 'w::len semaphore \<Rightarrow> 'w semaphore" where
  "sem_await_resume a s =
    (if \<not> sm_granted s a \<and> sm_count s > 0 then s\<lparr>sm_count := sm_count s - 1\<rparr> else s)"

definition sem_awaiter_destroy :: "nat \<Rightarrow> 'w::len semaphore \<Rightarrow> 'w semaphore option" where
  "sem_awaiter_destroy a s =
    (if sm_handle s a = null_handle then Some s
     else case il_remove a (sm_list s) of None \<Rightarrow> None | Some l \<Rightarrow> Some (s\<lparr>sm_list := l\<rparr>))"

text \<open>
  The life of the awaiters of one semaphore. The ghost fields count what has happened: permits given
  by \<open>release\<close>, acquisitions completed by \<open>await_resume\<close>, and the granted awaiters whose coroutine
  has not run yet. A coroutine destroyed while it waits in the list runs its awaiter's destructor.
\<close>

record (overloaded) 'w sem_run =
  sr_sem :: "'w::len semaphore"
  sr_waiting :: "nat list"
  sr_pending :: "nat list"
  sr_released :: nat
  sr_acquired :: nat

inductive sem_step :: "'w::len sem_run \<Rightarrow> 'w sem_run \<Rightarrow> bool" where
  acquire_now: "sem_await_ready (sr_sem r) \<Longrightarrow> a \<notin> set (sr_waiting r) \<Longrightarrow> a \<notin> set (sr_pending r) \<Longrightarrow>
    sem_step r (r\<lparr>sr_sem := sem_await_resume a (sem_acquire a (sr_sem r)),
      sr_acquired := Suc (sr_acquired r)\<rparr>)"
| acquire_wait: "\<not> sem_await_ready (sr_sem r) \<Longrightarrow> a \<noteq> 0 \<Longrightarrow> h \<noteq> null_handle \<Longrightarrow>
    a \<notin> set (sr_waiting r) \<Longrightarrow> a \<notin> set (sr_pending r) \<Longrightarrow>
    sem_step r (r\<lparr>sr_sem := sem_await_suspend a h (sem_acquire a (sr_sem r)),
      sr_waiting := sr_waiting r @ [a]\<rparr>)"
| release_grant: "sr_waiting r = a # as \<Longrightarrow>
    sem_step r (r\<lparr>sr_sem := fst (sem_release (sr_sem r)), sr_waiting := as,
      sr_pending := sr_pending r @ [a], sr_released := Suc (sr_released r)\<rparr>)"
| release_count: "sr_waiting r = [] \<Longrightarrow> sm_count (sr_sem r) + 1 \<noteq> 0 \<Longrightarrow>
    sem_step r (r\<lparr>sr_sem := fst (sem_release (sr_sem r)), sr_released := Suc (sr_released r)\<rparr>)"
| resume_granted: "a \<in> set (sr_pending r) \<Longrightarrow>
    sem_step r (r\<lparr>sr_sem := sem_await_resume a (sr_sem r), sr_pending := remove1 a (sr_pending r),
      sr_acquired := Suc (sr_acquired r)\<rparr>)"
| cancel_waiting: "a \<in> set (sr_waiting r) \<Longrightarrow> sem_awaiter_destroy a (sr_sem r) = Some s \<Longrightarrow>
    sem_step r (r\<lparr>sr_sem := s, sr_waiting := remove1 a (sr_waiting r)\<rparr>)"

definition sem_start :: "'w::len word \<Rightarrow> 'w sem_run" where
  "sem_start n = \<lparr>sr_sem = \<lparr>sm_count = n, sm_list = il_empty, sm_handle = (\<lambda>_. null_handle),
     sm_granted = (\<lambda>_. False)\<rparr>, sr_waiting = [], sr_pending = [], sr_released = 0, sr_acquired = 0\<rparr>"

definition sem_inv :: "nat \<Rightarrow> 'w::len sem_run \<Rightarrow> bool" where
  "sem_inv n r \<longleftrightarrow> linked (sm_list (sr_sem r)) (sr_waiting r) \<and>
     (\<forall>a \<in> set (sr_waiting r). sm_handle (sr_sem r) a \<noteq> null_handle \<and> a \<notin> set (sr_pending r)) \<and>
     (\<forall>a \<in> set (sr_pending r). sm_granted (sr_sem r) a) \<and>
     (sm_count (sr_sem r) \<noteq> 0 \<longrightarrow> sr_waiting r = []) \<and>
     unat (sm_count (sr_sem r)) + length (sr_pending r) + sr_acquired r = n + sr_released r"

lemma unat_minus_one_pos: "0 < (x :: 'w::len word) \<Longrightarrow> unat (x - 1) = unat x - 1"
  by (metis unat_minus_one word_neq_0_conv)

lemma unat_plus_one_ne: "(x :: 'w::len word) + 1 \<noteq> 0 \<Longrightarrow> unat (x + 1) = Suc (unat x)"
  by (simp add: unatSuc add.commute)

lemma sem_inv_step: "sem_step r r' \<Longrightarrow> sem_inv n r \<Longrightarrow> sem_inv n r'"
proof (induction rule: sem_step.induct)
  case (acquire_now r a)
  then have "0 < unat (sm_count (sr_sem r))" by (simp add: sem_await_ready_def word_less_nat_alt)
  then show ?case using acquire_now unat_minus_one_pos [of "sm_count (sr_sem r)"]
    by (auto simp: sem_inv_def sem_await_resume_def sem_acquire_def sem_await_ready_def)
next
  case (acquire_wait r a h)
  then show ?case
    by (auto simp: sem_inv_def sem_await_suspend_def sem_acquire_def sem_await_ready_def linked_append
      word_gt_0)
next
  case (release_grant r a as)
  have l: "linked (sm_list (sr_sem r)) (a # as)" using release_grant by (simp add: sem_inv_def)
  then have "il_head (sm_list (sr_sem r)) = a" "a \<noteq> 0" "a \<notin> set as"
    using linked_head [OF l] linked_no_null [OF l] linked_distinct [OF l] by auto
  then show ?case using release_grant linked_pop_front [OF l]
    by (auto simp: sem_inv_def sem_release_def Let_def)
next
  case (release_count r)
  then have "il_head (sm_list (sr_sem r)) = 0" using linked_head by (fastforce simp: sem_inv_def)
  then show ?case using release_count unat_plus_one_ne [of "sm_count (sr_sem r)"]
    by (auto simp: sem_inv_def sem_release_def Let_def)
next
  case (resume_granted a r)
  moreover have "length (sr_pending r) = Suc (length (remove1 a (sr_pending r)))"
    using resume_granted(1) length_pos_if_in_set [OF resume_granted(1)]
    by (simp add: length_remove1)
  moreover have "set (remove1 a (sr_pending r)) \<subseteq> set (sr_pending r)" by (rule set_remove1_subset)
  ultimately show ?case by (auto simp: sem_inv_def sem_await_resume_def)
next
  case (cancel_waiting a r s)
  have "a \<noteq> 0" "distinct (sr_waiting r)" using cancel_waiting linked_no_null linked_distinct
    by (auto simp: sem_inv_def)
  then obtain l where "il_remove a (sm_list (sr_sem r)) = Some l" "linked l (remove1 a (sr_waiting r))"
    using cancel_waiting linked_remove [of "sm_list (sr_sem r)" "sr_waiting r" a]
    by (auto simp: sem_inv_def)
  moreover from this have "s = (sr_sem r)\<lparr>sm_list := l\<rparr>"
    using cancel_waiting by (auto simp: sem_inv_def sem_awaiter_destroy_def split: if_splits)
  moreover have "sr_waiting r \<noteq> []" using cancel_waiting(1) by auto
  ultimately show ?case
    using cancel_waiting \<open>distinct (sr_waiting r)\<close> by (auto simp: sem_inv_def)
qed

lemma sem_inv_start: "sem_inv (unat n) (sem_start n)"
  by (simp add: sem_inv_def sem_start_def)

lemma sem_inv_reachable: "sem_step\<^sup>*\<^sup>* r r' \<Longrightarrow> sem_inv n r \<Longrightarrow> sem_inv n r'"
  by (induction rule: rtranclp_induct) (auto intro: sem_inv_step)

section \<open>Properties\<close>

text \<open>
  Setting an event terminates, posts the handle of every waiting coroutine exactly once, empties
  the waiter list and leaves the event set; waiters that have already been cancelled are not posted.
\<close>

theorem event_set_wakes_all:
  assumes "event_rep e xs"
  shows "\<exists>e'. event_set e = Some (e', map (ev_handle e) xs) \<and> event_rep e' [] \<and> event_await_ready e'"
proof -
  obtain e' where "event_set e = Some (e', map (ev_handle e) xs)" "ev_waiters e' = 0" "ev_state e'"
    "\<forall>a. ev_handle e' a = (if a \<in> set xs then null_handle else ev_handle e a)"
    using event_wake_all_spec [of "e\<lparr>ev_state := True\<rparr>" xs "[]"] assms
    by (auto simp: event_set_def event_rep_def)
  moreover have "ev_handle e a = null_handle" if "a \<notin> set xs" for a
    using assms that unfolding event_rep_def by blast
  ultimately show ?thesis
    by (intro exI [of _ e']) (auto simp: event_rep_def event_await_ready_def)
qed

definition event_start :: event where
  "event_start = \<lparr>ev_state = False, ev_waiters = 0, ev_next = (\<lambda>_. 0), ev_handle = (\<lambda>_. null_handle)\<rparr>"

theorem event_set_wakes_all_witness:
  "\<exists>e'. event_set (event_await_suspend 20 200 (event_await_suspend 10 100 event_start)) = Some (e', [200, 100])"
proof -
  have "event_rep (event_await_suspend 20 200 (event_await_suspend 10 100 event_start)) [20, 10]"
    by (intro event_rep_suspend) (simp_all add: event_rep_def event_start_def)
  from event_set_wakes_all [OF this] show ?thesis
    by (auto simp: event_await_suspend_def)
qed



text \<open>A reachable state with one waiter, the awaiter at address 10 of coroutine 100.\<close>

definition sem_one_waiter :: "32 sem_run" where
  "sem_one_waiter = (sem_start 0)\<lparr>sr_sem :=
     sem_await_suspend 10 100 (sem_acquire 10 (sr_sem (sem_start 0))), sr_waiting := [10]\<rparr>"

lemma sem_one_waiter_reachable: "sem_step\<^sup>*\<^sup>* (sem_start 0) sem_one_waiter"
  using acquire_wait [of "sem_start 0 :: 32 sem_run" 10 100]
  by (auto simp: sem_start_def sem_await_ready_def sem_one_waiter_def)

text \<open>
  A release wakes the waiter that has waited longest and hands it the permit: its handle is the
  only one posted, the free count does not change, and when that coroutine resumes it does not take a
  second permit.
\<close>

theorem semaphore_release_fifo:
  assumes "sem_step\<^sup>*\<^sup>* (sem_start n) r" and "sr_waiting r = a # as"
  shows "snd (sem_release (sr_sem r)) = [sm_handle (sr_sem r) a] \<and>
    sm_count (fst (sem_release (sr_sem r))) = sm_count (sr_sem r) \<and>
    linked (sm_list (fst (sem_release (sr_sem r)))) as \<and>
    sem_await_resume a (fst (sem_release (sr_sem r))) = fst (sem_release (sr_sem r))"
proof -
  have l: "linked (sm_list (sr_sem r)) (a # as)"
    using sem_inv_reachable [OF assms(1) sem_inv_start] assms(2) by (simp add: sem_inv_def)
  then have "il_head (sm_list (sr_sem r)) = a" "a \<noteq> 0"
    using linked_head [OF l] linked_no_null [OF l] by auto
  then show ?thesis using linked_pop_front [OF l]
    by (simp add: sem_release_def Let_def sem_await_resume_def)
qed

theorem semaphore_release_fifo_witness: "snd (sem_release (sr_sem sem_one_waiter)) = [100]"
  using semaphore_release_fifo [OF sem_one_waiter_reachable, of 10 "[]"]
  by (simp add: sem_one_waiter_def sem_await_suspend_def)

text \<open>
  A permit handed to a waiter whose coroutine is destroyed before it runs is lost: the awaiter's
  destructor leaves the semaphore as it is, so after a release to the only waiter and the destruction
  of that waiter there is no free permit, no waiter, and nobody holds the permit.
\<close>

theorem semaphore_granted_then_destroyed_loses_permit:
  assumes "sem_step\<^sup>*\<^sup>* (sem_start n) r" and "sr_waiting r = [a]"
  shows "sem_awaiter_destroy a (fst (sem_release (sr_sem r))) = Some (fst (sem_release (sr_sem r))) \<and>
    sm_count (fst (sem_release (sr_sem r))) = 0 \<and>
    linked (sm_list (fst (sem_release (sr_sem r)))) []"
proof -
  have inv: "sem_inv (unat n) r" using sem_inv_reachable [OF assms(1) sem_inv_start] .
  then have l: "linked (sm_list (sr_sem r)) [a]" using assms(2) by (simp add: sem_inv_def)
  then have "il_head (sm_list (sr_sem r)) = a" "a \<noteq> 0"
    using linked_head [OF l] linked_no_null [OF l] by auto
  then show ?thesis using linked_pop_front [OF l] inv assms(2)
    by (auto simp: sem_release_def Let_def sem_awaiter_destroy_def sem_inv_def)
qed

theorem semaphore_granted_then_destroyed_loses_permit_witness:
  "sem_awaiter_destroy 10 (fst (sem_release (sr_sem sem_one_waiter))) =
    Some (fst (sem_release (sr_sem sem_one_waiter)))"
  using semaphore_granted_then_destroyed_loses_permit [OF sem_one_waiter_reachable, of 10]
  by (simp add: sem_one_waiter_def)

end
