(* ===== verification/Async_Queue.thy ===== *)
theory Async_Queue
  imports Intrusive_List Ring_Buffers
begin

text \<open>
  \<open>AsyncQueue\<close> of \<open>include/asp_coro.hpp\<close>: a ring of items with a list of coroutines waiting to pop
  and a list of coroutines waiting to push. In this class \<open>head_\<close> is the write index and \<open>tail_\<close> the
  read index. The members of the awaiter objects are maps from awaiter addresses. \<open>unlink\<close> walks a
  list, so operations that use it return an option; \<open>None\<close> means the walk does not end, and the
  lemmas show that it does. Woken coroutines are returned as the list of posted handles.
\<close>

record (overloaded) ('a, 'w) async_queue =
  aq_buffer :: "'a list"
  aq_head :: "'w::len word"
  aq_tail :: "'w word"
  aq_rejected :: u32
  aq_poppers :: ilist
  aq_pushers :: ilist
  pop_item :: "nat \<Rightarrow> 'a"
  pop_h :: "nat \<Rightarrow> handle"
  pop_linked :: "nat \<Rightarrow> bool"
  push_item :: "nat \<Rightarrow> 'a"
  push_h :: "nat \<Rightarrow> handle"
  push_linked :: "nat \<Rightarrow> bool"

definition aq_is_empty :: "('a, 'w::len) async_queue \<Rightarrow> bool" where
  "aq_is_empty q \<longleftrightarrow> aq_head q = aq_tail q"

definition aq_is_full :: "('a, 'w::len) async_queue \<Rightarrow> bool" where
  "aq_is_full q \<longleftrightarrow> aq_head q - aq_tail q \<ge> of_nat (length (aq_buffer q))"

definition aq_size :: "('a, 'w::len) async_queue \<Rightarrow> 'w word" where
  "aq_size q = aq_head q - aq_tail q"

definition aq_store :: "'a \<Rightarrow> ('a, 'w::len) async_queue \<Rightarrow> ('a, 'w) async_queue" where
  "aq_store v q = q\<lparr>aq_buffer := (aq_buffer q)[slot (length (aq_buffer q)) (aq_head q) := v],
     aq_head := aq_head q + 1\<rparr>"

definition unlink_popper :: "nat \<Rightarrow> ('a, 'w::len) async_queue \<Rightarrow> ('a, 'w) async_queue option" where
  "unlink_popper w q = (case il_unlink w (aq_poppers q) of
     None \<Rightarrow> None
   | Some l \<Rightarrow> Some (q\<lparr>aq_poppers := l, pop_linked := (pop_linked q)(w := False)\<rparr>))"

definition unlink_pusher :: "nat \<Rightarrow> ('a, 'w::len) async_queue \<Rightarrow> ('a, 'w) async_queue option" where
  "unlink_pusher w q = (case il_unlink w (aq_pushers q) of
     None \<Rightarrow> None
   | Some l \<Rightarrow> Some (q\<lparr>aq_pushers := l, push_linked := (push_linked q)(w := False)\<rparr>))"

definition push_or_hand_off ::
    "'a \<Rightarrow> ('a, 'w::len) async_queue \<Rightarrow> (bool \<times> ('a, 'w) async_queue \<times> handle list) option" where
  "push_or_hand_off v q =
    (let c = il_head (aq_poppers q) in
     if c \<noteq> 0 then
       (case unlink_popper c q of
          None \<Rightarrow> None
        | Some q \<Rightarrow> Some (True, q\<lparr>pop_item := (pop_item q)(c := v)\<rparr>, [pop_h q c]))
     else if aq_is_full q then Some (False, q, [])
     else Some (True, aq_store v q, []))"

definition try_push ::
    "'a \<Rightarrow> ('a, 'w::len) async_queue \<Rightarrow> (bool \<times> ('a, 'w) async_queue \<times> handle list) option" where
  "try_push v q = (case push_or_hand_off v q of
     None \<Rightarrow> None
   | Some (True, q, posts) \<Rightarrow> Some (True, q, posts)
   | Some (False, q, posts) \<Rightarrow> Some (False, q\<lparr>aq_rejected := aq_rejected q + 1\<rparr>, posts))"

definition try_pop ::
    "('a, 'w::len) async_queue \<Rightarrow> ('a option \<times> ('a, 'w) async_queue \<times> handle list) option" where
  "try_pop q =
    (if aq_is_empty q then Some (None, q, [])
     else let out = aq_buffer q ! slot (length (aq_buffer q)) (aq_tail q);
              q = q\<lparr>aq_tail := aq_tail q + 1\<rparr>;
              p = il_head (aq_pushers q)
          in if p \<noteq> 0 then
               (case unlink_pusher p q of
                  None \<Rightarrow> None
                | Some q \<Rightarrow> Some (Some out, aq_store (push_item q p) q, [push_h q p]))
             else Some (Some out, q, []))"

definition try_peek :: "('a, 'w::len) async_queue \<Rightarrow> 'a option" where
  "try_peek q = (if aq_is_empty q then None
     else Some (aq_buffer q ! slot (length (aq_buffer q)) (aq_tail q)))"

text \<open>The awaiters: \<open>await_ready\<close> tries the operation, \<open>await_suspend\<close> joins the list.\<close>

definition pop_await_ready ::
    "nat \<Rightarrow> ('a, 'w::len) async_queue \<Rightarrow> (bool \<times> ('a, 'w) async_queue \<times> handle list) option" where
  "pop_await_ready a q = (case try_pop q of
     None \<Rightarrow> None
   | Some (None, q, posts) \<Rightarrow> Some (False, q, posts)
   | Some (Some v, q, posts) \<Rightarrow> Some (True, q\<lparr>pop_item := (pop_item q)(a := v)\<rparr>, posts))"

definition pop_await_suspend :: "nat \<Rightarrow> handle \<Rightarrow> ('a, 'w::len) async_queue \<Rightarrow> ('a, 'w) async_queue" where
  "pop_await_suspend a h q = q\<lparr>pop_h := (pop_h q)(a := h), aq_poppers := il_append a (aq_poppers q),
     pop_linked := (pop_linked q)(a := True)\<rparr>"

definition pop_await_resume :: "nat \<Rightarrow> ('a, 'w::len) async_queue \<Rightarrow> 'a" where
  "pop_await_resume a q = pop_item q a"

definition pop_awaiter_destroy ::
    "nat \<Rightarrow> ('a, 'w::len) async_queue \<Rightarrow> ('a, 'w) async_queue option" where
  "pop_awaiter_destroy a q = (if pop_linked q a then unlink_popper a q else Some q)"

definition push_awaiter_init :: "nat \<Rightarrow> 'a \<Rightarrow> ('a, 'w::len) async_queue \<Rightarrow> ('a, 'w) async_queue" where
  "push_awaiter_init a v q = q\<lparr>push_item := (push_item q)(a := v)\<rparr>"

definition push_await_ready ::
    "nat \<Rightarrow> ('a, 'w::len) async_queue \<Rightarrow> (bool \<times> ('a, 'w) async_queue \<times> handle list) option" where
  "push_await_ready a q = push_or_hand_off (push_item q a) q"

definition push_await_suspend :: "nat \<Rightarrow> handle \<Rightarrow> ('a, 'w::len) async_queue \<Rightarrow> ('a, 'w) async_queue" where
  "push_await_suspend a h q = q\<lparr>push_h := (push_h q)(a := h), aq_pushers := il_append a (aq_pushers q),
     push_linked := (push_linked q)(a := True)\<rparr>"

definition push_awaiter_destroy ::
    "nat \<Rightarrow> ('a, 'w::len) async_queue \<Rightarrow> ('a, 'w) async_queue option" where
  "push_awaiter_destroy a q = (if push_linked q a then unlink_pusher a q else Some q)"

section \<open>The invariant\<close>

definition aq_contents :: "('a, 'w::len) async_queue \<Rightarrow> 'a list" where
  "aq_contents q = ring_contents (aq_buffer q) (aq_tail q) (aq_head q)"

definition aq_inv :: "nat \<Rightarrow> nat list \<Rightarrow> nat list \<Rightarrow> ('a, 'w::len) async_queue \<Rightarrow> bool" where
  "aq_inv cap cs ps q \<longleftrightarrow> length (aq_buffer q) = cap \<and> ring_cap cap TYPE('w) \<and>
     unat (aq_head q - aq_tail q) \<le> cap \<and>
     linked (aq_poppers q) cs \<and> linked (aq_pushers q) ps \<and>
     (\<forall>a. pop_linked q a \<longleftrightarrow> a \<in> set cs) \<and> (\<forall>a. push_linked q a \<longleftrightarrow> a \<in> set ps) \<and>
     (cs \<noteq> [] \<longrightarrow> aq_contents q = [] \<and> ps = []) \<and>
     (ps \<noteq> [] \<longrightarrow> length (aq_contents q) = cap)"

text \<open>All items in the queue: stored ones, then those of the waiting producers.\<close>

definition aq_queued :: "nat list \<Rightarrow> ('a, 'w::len) async_queue \<Rightarrow> 'a list" where
  "aq_queued ps q = aq_contents q @ map (push_item q) ps"

lemma aq_is_full_iff:
  "aq_inv cap cs ps q \<Longrightarrow> aq_is_full q \<longleftrightarrow> length (aq_contents q) = cap"
  by (auto simp: aq_inv_def aq_is_full_def word_ge_cap_iff aq_contents_def)

lemma aq_is_empty_iff: "aq_is_empty q \<longleftrightarrow> aq_contents q = []"
  by (auto simp: aq_is_empty_def aq_contents_def)

lemma aq_store_spec:
  fixes q :: "('a, 'w::len) async_queue"
  assumes "ring_cap (length (aq_buffer q)) TYPE('w)" and "length (aq_contents q) < length (aq_buffer q)"
  shows "aq_contents (aq_store v q) = aq_contents q @ [v]"
    and "unat (aq_head (aq_store v q) - aq_tail (aq_store v q)) = Suc (length (aq_contents q))"
  using assms ring_contents_push [of "aq_buffer q" "aq_head q" "aq_tail q" v]
    word_diff_add_one [of "aq_head q" "aq_tail q" "length (aq_buffer q)"] ring_cap_less [OF assms(1)]
  by (auto simp: aq_contents_def aq_store_def)

lemma aq_store_fields [simp]:
  "length (aq_buffer (aq_store v q)) = length (aq_buffer q)" "aq_poppers (aq_store v q) = aq_poppers q"
  "aq_pushers (aq_store v q) = aq_pushers q" "pop_linked (aq_store v q) = pop_linked q"
  "push_linked (aq_store v q) = push_linked q" "push_item (aq_store v q) = push_item q"
  "pop_item (aq_store v q) = pop_item q" "aq_rejected (aq_store v q) = aq_rejected q"
  by (simp_all add: aq_store_def)

lemma unlink_popper_spec:
  assumes "aq_inv cap cs ps q" and "c \<in> set cs"
  shows "\<exists>l. unlink_popper c q = Some (q\<lparr>aq_poppers := l, pop_linked := (pop_linked q)(c := False)\<rparr>) \<and>
    linked l (remove1 c cs)"
proof -
  have l: "linked (aq_poppers q) cs" using assms by (simp add: aq_inv_def)
  moreover have "c \<noteq> 0" using linked_no_null [OF l] assms(2) by metis
  ultimately show ?thesis using linked_unlink [of "aq_poppers q" cs c] by (auto simp: unlink_popper_def)
qed

lemma unlink_pusher_spec:
  assumes "linked (aq_pushers q) ps" and "p \<in> set ps"
  shows "\<exists>l. unlink_pusher p q = Some (q\<lparr>aq_pushers := l, push_linked := (push_linked q)(p := False)\<rparr>) \<and>
    linked l (remove1 p ps)"
proof -
  have "p \<noteq> 0" using assms linked_no_null by metis
  then show ?thesis using linked_unlink [OF assms(1), of p] by (auto simp: unlink_pusher_def)
qed

lemma push_hands_off:
  assumes inv: "aq_inv cap (c # cs) ps q"
  shows "\<exists>q'. push_or_hand_off v q = Some (True, q', [pop_h q c]) \<and> aq_inv cap cs [] q' \<and>
    pop_await_resume c q' = v \<and> aq_contents q' = [] \<and> aq_rejected q' = aq_rejected q"
proof -
  have l: "linked (aq_poppers q) (c # cs)" using inv by (simp add: aq_inv_def)
  then have c: "il_head (aq_poppers q) = c" "c \<noteq> 0" "c \<notin> set cs"
    using linked_head [OF l] linked_no_null [OF l] linked_distinct [OF l] by auto
  obtain l' where l': "unlink_popper c q =
      Some (q\<lparr>aq_poppers := l', pop_linked := (pop_linked q)(c := False)\<rparr>)" "linked l' cs"
    using unlink_popper_spec [OF inv, of c] by auto
  show ?thesis
    using inv c l' by (auto simp: push_or_hand_off_def aq_inv_def aq_contents_def pop_await_resume_def)
qed

lemma push_stores:
  assumes inv: "aq_inv cap [] ps q" and room: "length (aq_contents q) < cap"
  shows "push_or_hand_off v q = Some (True, aq_store v q, []) \<and> ps = [] \<and>
    aq_inv cap [] [] (aq_store v q) \<and> aq_contents (aq_store v q) = aq_contents q @ [v]"
proof -
  have "il_head (aq_poppers q) = 0" using inv linked_head by (fastforce simp: aq_inv_def)
  moreover have "\<not> aq_is_full q" using aq_is_full_iff [OF inv] room by simp
  moreover have "ps = []" using inv room by (auto simp: aq_inv_def)
  ultimately show ?thesis using inv room aq_store_spec [of q v]
    by (auto simp: push_or_hand_off_def aq_inv_def)
qed

lemma push_refused:
  assumes inv: "aq_inv cap [] ps q" and full: "length (aq_contents q) = cap"
  shows "push_or_hand_off v q = Some (False, q, [])"
proof -
  have "il_head (aq_poppers q) = 0" using inv linked_head by (fastforce simp: aq_inv_def)
  then show ?thesis using aq_is_full_iff [OF inv] full by (simp add: push_or_hand_off_def)
qed

lemma pop_advances:
  assumes "aq_contents q = x # xs"
  shows "aq_buffer q ! slot (length (aq_buffer q)) (aq_tail q) = x"
    and "aq_contents (q\<lparr>aq_tail := aq_tail q + 1\<rparr>) = xs"
    and "unat (aq_head q - (aq_tail q + 1)) = length xs"
proof -
  have ne: "aq_tail q \<noteq> aq_head q" using assms by (auto simp: aq_contents_def)
  note pop = ring_contents_pop [OF ne, of "aq_buffer q"]
  show "aq_buffer q ! slot (length (aq_buffer q)) (aq_tail q) = x"
    and c: "aq_contents (q\<lparr>aq_tail := aq_tail q + 1\<rparr>) = xs" using assms pop by (auto simp: aq_contents_def)
  show "unat (aq_head q - (aq_tail q + 1)) = length xs" using c by (auto simp: aq_contents_def)
qed

lemma try_pop_plain:
  assumes inv: "aq_inv cap cs [] q" and c: "aq_contents q = x # xs"
  shows "\<exists>q'. try_pop q = Some (Some x, q', []) \<and> aq_inv cap [] [] q' \<and> aq_contents q' = xs \<and>
    push_item q' = push_item q"
proof -
  have "il_head (aq_pushers q) = 0" using inv linked_head by (fastforce simp: aq_inv_def)
  moreover have "cs = []" using inv c by (auto simp: aq_inv_def)
  moreover have "length xs < cap"
    using inv arg_cong [OF c, of length] by (auto simp: aq_inv_def aq_contents_def)
  moreover have "\<not> aq_is_empty q" using c by (simp add: aq_is_empty_iff)
  ultimately show ?thesis using inv pop_advances [OF c] by (auto simp: try_pop_def Let_def aq_inv_def)
qed

lemma try_pop_refill:
  assumes inv: "aq_inv cap cs (p # ps) q" and c: "aq_contents q = x # xs"
  shows "\<exists>q'. try_pop q = Some (Some x, q', [push_h q p]) \<and> aq_inv cap [] ps q' \<and>
    aq_contents q' = xs @ [push_item q p] \<and> push_item q' = push_item q"
proof -
  let ?q = "q\<lparr>aq_tail := aq_tail q + 1\<rparr>"
  have l: "linked (aq_pushers q) (p # ps)" and len: "Suc (length xs) = cap" and cs: "cs = []"
    using inv c by (auto simp: aq_inv_def)
  then have p: "il_head (aq_pushers q) = p" "p \<noteq> 0" "p \<notin> set ps"
    using linked_head [OF l] linked_no_null [OF l] linked_distinct [OF l] by auto
  obtain l' where l': "unlink_pusher p ?q =
      Some (?q\<lparr>aq_pushers := l', push_linked := (push_linked q)(p := False)\<rparr>)" "linked l' ps"
    using unlink_pusher_spec [of ?q "p # ps" p] l by auto
  let ?r = "?q\<lparr>aq_pushers := l', push_linked := (push_linked q)(p := False)\<rparr>"
  have r: "aq_contents ?r = xs" using pop_advances(2) [OF c] by (simp add: aq_contents_def)
  have "ring_cap (length (aq_buffer ?r)) TYPE('b)" "length (aq_contents ?r) < length (aq_buffer ?r)"
    using inv len r by (auto simp: aq_inv_def)
  note s = aq_store_spec [OF this, of "push_item q p"]
  have "\<not> aq_is_empty q" using c by (simp add: aq_is_empty_iff)
  then have "try_pop q = Some (Some x, aq_store (push_item q p) ?r, [push_h q p])"
    using p l' pop_advances(1) [OF c] by (simp add: try_pop_def Let_def)
  moreover have "aq_inv cap [] ps (aq_store (push_item q p) ?r)"
    using inv s r len l' p(3) cs by (auto simp: aq_inv_def)
  ultimately show ?thesis using s r by auto
qed

lemma pop_wait_inv:
  assumes "aq_inv cap cs ps q" and "aq_contents q = []" and "a \<notin> set cs" and "a \<noteq> 0"
  shows "aq_inv cap (cs @ [a]) [] (pop_await_suspend a h q) \<and> ps = []"
proof -
  have "ps = []" using assms ring_cap_pos by (fastforce simp: aq_inv_def)
  then show ?thesis using assms
    by (auto simp: aq_inv_def pop_await_suspend_def aq_contents_def linked_append)
qed

lemma push_wait_inv:
  assumes "aq_inv cap [] ps q" and "length (aq_contents q) = cap" and "a \<notin> set ps" and "a \<noteq> 0"
  shows "aq_inv cap [] (ps @ [a]) (push_await_suspend a h (push_awaiter_init a v q)) \<and>
    aq_queued (ps @ [a]) (push_await_suspend a h (push_awaiter_init a v q)) = aq_queued ps q @ [v]"
proof -
  have "map ((push_item q)(a := v)) ps = map (push_item q) ps" using assms(3) by simp
  then show ?thesis using assms
    by (auto simp: aq_inv_def push_await_suspend_def push_awaiter_init_def aq_contents_def linked_append
      aq_queued_def)
qed

lemma pop_cancel_inv:
  assumes "aq_inv cap cs ps q" and "c \<in> set cs"
  shows "\<exists>q'. pop_awaiter_destroy c q = Some q' \<and> aq_inv cap (remove1 c cs) ps q'"
proof -
  have "distinct cs" "pop_linked q c" "ps = []"
    using assms linked_distinct by (auto simp: aq_inv_def)
  then show ?thesis using assms unlink_popper_spec [OF assms]
    by (auto simp: pop_awaiter_destroy_def aq_inv_def aq_contents_def)
qed

lemma push_cancel_inv:
  assumes "aq_inv cap cs ps q" and "p \<in> set ps"
  shows "\<exists>q'. push_awaiter_destroy p q = Some q' \<and> aq_inv cap cs (remove1 p ps) q' \<and>
    aq_queued (remove1 p ps) q' = aq_contents q @ map (push_item q) (remove1 p ps)"
proof -
  have "distinct ps" "push_linked q p" "linked (aq_pushers q) ps" "cs = []"
    using assms linked_distinct by (auto simp: aq_inv_def)
  then show ?thesis using assms unlink_pusher_spec [of q ps p]
    by (fastforce simp: push_awaiter_destroy_def aq_inv_def aq_contents_def aq_queued_def)
qed

section \<open>Runs\<close>

text \<open>
  The ghost lists record the items in the order their push was accepted or queued, and in the order
  they were delivered: returned by a pop or handed to a waiting consumer.
\<close>

record (overloaded) ('a, 'w) aq_run =
  ar_q :: "('a, 'w::len) async_queue"
  ar_poppers :: "nat list"
  ar_pushers :: "nat list"
  ar_in :: "'a list"
  ar_out :: "'a list"

inductive aq_step :: "('a, 'w::len) aq_run \<Rightarrow> ('a, 'w) aq_run \<Rightarrow> bool" where
  push_taken: "push_or_hand_off v (ar_q r) = Some (True, q, posts) \<Longrightarrow>
    aq_step r (r\<lparr>ar_q := q, ar_poppers := tl (ar_poppers r), ar_in := ar_in r @ [v],
      ar_out := (if ar_poppers r = [] then ar_out r else ar_out r @ [v])\<rparr>)"
| push_waits: "push_or_hand_off v (ar_q r) = Some (False, q, posts) \<Longrightarrow> a \<noteq> 0 \<Longrightarrow>
    a \<notin> set (ar_pushers r) \<Longrightarrow>
    aq_step r (r\<lparr>ar_q := push_await_suspend a h (push_awaiter_init a v q),
      ar_pushers := ar_pushers r @ [a], ar_in := ar_in r @ [v]\<rparr>)"
| push_rejected: "try_push v (ar_q r) = Some (False, q, posts) \<Longrightarrow> aq_step r (r\<lparr>ar_q := q\<rparr>)"
| pop_taken: "try_pop (ar_q r) = Some (Some x, q, posts) \<Longrightarrow>
    aq_step r (r\<lparr>ar_q := q, ar_pushers := tl (ar_pushers r), ar_out := ar_out r @ [x]\<rparr>)"
| pop_waits: "try_pop (ar_q r) = Some (None, q, posts) \<Longrightarrow> a \<noteq> 0 \<Longrightarrow> a \<notin> set (ar_poppers r) \<Longrightarrow>
    aq_step r (r\<lparr>ar_q := pop_await_suspend a h q, ar_poppers := ar_poppers r @ [a]\<rparr>)"
| pop_cancelled: "a \<in> set (ar_poppers r) \<Longrightarrow> pop_awaiter_destroy a (ar_q r) = Some q \<Longrightarrow>
    aq_step r (r\<lparr>ar_q := q, ar_poppers := remove1 a (ar_poppers r)\<rparr>)"

definition aq_run_inv :: "nat \<Rightarrow> ('a, 'w::len) aq_run \<Rightarrow> bool" where
  "aq_run_inv cap r \<longleftrightarrow> aq_inv cap (ar_poppers r) (ar_pushers r) (ar_q r) \<and>
     ar_in r = ar_out r @ aq_queued (ar_pushers r) (ar_q r)"

lemma push_or_hand_off_elim:
  assumes inv: "aq_inv cap cs ps q" and res: "push_or_hand_off v q = Some (b, q', posts)"
  obtains (hand) "cs \<noteq> []" "ps = []" "b" "aq_inv cap (tl cs) [] q'" "aq_contents q = []" "aq_contents q' = []"
    | (store) "cs = []" "ps = []" "b" "aq_inv cap [] [] q'" "aq_contents q' = aq_contents q @ [v]"
    | (full) "cs = []" "\<not> b" "q' = q" "length (aq_contents q) = cap"
proof (cases cs)
  case Nil
  then consider "length (aq_contents q) < cap" | "length (aq_contents q) = cap"
    using inv by (force simp: aq_inv_def aq_contents_def)
  then show thesis
  proof cases
    case 1
    then show thesis using push_stores [of cap ps q v] inv res Nil store by auto
  next
    case 2
    then show thesis using push_refused [of cap ps q v] inv res Nil full by auto
  qed
next
  case (Cons c cs')
  then show thesis using push_hands_off [of cap c cs' ps q v] inv res hand by (auto simp: aq_inv_def)
qed

lemma aq_run_inv_step: "aq_step r r' \<Longrightarrow> aq_run_inv cap r \<Longrightarrow> aq_run_inv cap r'"
proof (induction rule: aq_step.induct)
  case (push_taken v r q posts)
  then have "aq_inv cap (ar_poppers r) (ar_pushers r) (ar_q r)" by (simp add: aq_run_inv_def)
  then show ?case
    by (rule push_or_hand_off_elim [OF _ push_taken(1)])
      (use push_taken(2) in \<open>auto simp: aq_run_inv_def aq_queued_def\<close>)
next
  case (push_waits v r q posts a h)
  then have inv: "aq_inv cap (ar_poppers r) (ar_pushers r) (ar_q r)" by (simp add: aq_run_inv_def)
  then show ?case
    by (rule push_or_hand_off_elim [OF _ push_waits(1)])
      (use push_waits(2-) push_wait_inv [of cap "ar_pushers r" "ar_q r" a h v] in \<open>auto simp: aq_run_inv_def\<close>)
next
  case (push_rejected v r q posts)
  then have inv: "aq_inv cap (ar_poppers r) (ar_pushers r) (ar_q r)" by (simp add: aq_run_inv_def)
  obtain q' where res: "push_or_hand_off v (ar_q r) = Some (False, q', posts)"
    "q = q'\<lparr>aq_rejected := aq_rejected q' + 1\<rparr>"
    using push_rejected(1) by (auto simp: try_push_def split: option.splits bool.splits)
  from inv res(1) have "q' = ar_q r" by (rule push_or_hand_off_elim) auto
  then show ?case using push_rejected(2) res(2)
    by (auto simp: aq_run_inv_def aq_inv_def aq_contents_def aq_queued_def)
next
  case (pop_taken r x q posts)
  have inv: "aq_inv cap (ar_poppers r) (ar_pushers r) (ar_q r)" and gh: "ar_in r = ar_out r @ aq_queued (ar_pushers r) (ar_q r)"
    using pop_taken by (auto simp: aq_run_inv_def)
  obtain y ys where c: "aq_contents (ar_q r) = y # ys"
    using pop_taken(1) by (cases "aq_contents (ar_q r)") (auto simp: try_pop_def aq_is_empty_iff)
  have cs: "ar_poppers r = []" using inv c by (auto simp: aq_inv_def)
  show ?case
  proof (cases "ar_pushers r")
    case Nil
    then show ?thesis using pop_taken(1) inv gh cs c try_pop_plain [of cap "[]" "ar_q r" y ys]
      by (auto simp: aq_run_inv_def aq_queued_def)
  next
    case (Cons p ps)
    then show ?thesis using pop_taken(1) inv gh cs c try_pop_refill [of cap "[]" p ps "ar_q r" y ys]
      by (auto simp: aq_run_inv_def aq_queued_def)
  qed
next
  case (pop_waits r q posts a h)
  then have "q = ar_q r" "aq_contents (ar_q r) = []"
    by (auto simp: try_pop_def aq_is_empty_iff Let_def split: if_splits option.splits)
  then show ?case using pop_waits pop_wait_inv [of cap "ar_poppers r" "ar_pushers r" "ar_q r" a h]
    by (auto simp: aq_run_inv_def aq_queued_def pop_await_suspend_def aq_contents_def)
next
  case (pop_cancelled a r q)
  then show ?case using pop_cancel_inv [of cap "ar_poppers r" "ar_pushers r" "ar_q r" a]
    unlink_popper_spec [of cap "ar_poppers r" "ar_pushers r" "ar_q r" a]
    by (auto simp: aq_run_inv_def pop_awaiter_destroy_def aq_queued_def aq_contents_def split: if_splits)
qed

lemma aq_run_inv_reachable: "aq_step\<^sup>*\<^sup>* r r' \<Longrightarrow> aq_run_inv cap r \<Longrightarrow> aq_run_inv cap r'"
  by (induction rule: rtranclp_induct) (auto intro: aq_run_inv_step)

definition aq_new :: "'a \<Rightarrow> nat \<Rightarrow> ('a, 'w::len) async_queue" where
  "aq_new z cap = \<lparr>aq_buffer = replicate cap z, aq_head = 0, aq_tail = 0, aq_rejected = 0,
     aq_poppers = il_empty, aq_pushers = il_empty, pop_item = (\<lambda>_. z), pop_h = (\<lambda>_. null_handle),
     pop_linked = (\<lambda>_. False), push_item = (\<lambda>_. z), push_h = (\<lambda>_. null_handle),
     push_linked = (\<lambda>_. False)\<rparr>"

definition aq_start :: "'a \<Rightarrow> nat \<Rightarrow> ('a, 'w::len) aq_run" where
  "aq_start z cap = \<lparr>ar_q = aq_new z cap, ar_poppers = [], ar_pushers = [], ar_in = [], ar_out = []\<rparr>"

lemma aq_inv_new: "ring_cap cap TYPE('w::len) \<Longrightarrow> aq_inv cap [] [] (aq_new z cap :: ('a, 'w) async_queue)"
  by (simp add: aq_inv_def aq_new_def)

lemma aq_run_inv_start:
  "ring_cap cap TYPE('w::len) \<Longrightarrow> aq_run_inv cap (aq_start z cap :: ('a, 'w) aq_run)"
  by (simp add: aq_run_inv_def aq_start_def aq_inv_new aq_queued_def) (simp add: aq_contents_def aq_new_def)

section \<open>Properties\<close>


text \<open>A queue of one slot that holds 7 while a producer waits with 8.\<close>

definition aq_demo :: "(nat, 32) aq_run" where
  "aq_demo = \<lparr>ar_q = push_await_suspend 10 100 (push_awaiter_init 10 8 (aq_store 7 (aq_new 0 1))),
     ar_poppers = [], ar_pushers = [10], ar_in = [7, 8], ar_out = []\<rparr>"

lemma aq_demo_cap: "ring_cap 1 TYPE(32)"
  by (auto simp: ring_cap_def intro: exI [of _ 0])

lemma aq_demo_reachable: "aq_step\<^sup>*\<^sup>* (aq_start 0 1) aq_demo"
proof -
  let ?s = "(aq_start 0 1 :: (nat, 32) aq_run)\<lparr>ar_q := aq_store 7 (aq_new 0 1), ar_in := [7]\<rparr>"
  have inv: "aq_inv 1 [] [] (aq_new 0 1 :: (nat, 32) async_queue)" by (rule aq_inv_new [OF aq_demo_cap])
  have e: "aq_contents (aq_new 0 1 :: (nat, 32) async_queue) = []" by (simp add: aq_contents_def aq_new_def)
  have st: "push_or_hand_off 7 (aq_new 0 1 :: (nat, 32) async_queue) = Some (True, aq_store 7 (aq_new 0 1), []) \<and>
    aq_inv 1 [] [] (aq_store 7 (aq_new 0 1) :: (nat, 32) async_queue) \<and>
    aq_contents (aq_store 7 (aq_new 0 1) :: (nat, 32) async_queue) = [7]"
    using push_stores [OF inv, of 7] e by simp
  then have "aq_step (aq_start 0 1) ?s"
    using push_taken [of 7 "aq_start 0 1 :: (nat, 32) aq_run"] by (simp add: aq_start_def)
  moreover have "push_or_hand_off 8 (aq_store 7 (aq_new 0 1) :: (nat, 32) async_queue) =
    Some (False, aq_store 7 (aq_new 0 1), [])" using push_refused [of 1 "[]" "aq_store 7 (aq_new 0 1) :: (nat, 32) async_queue" 8] st by simp
  then have "aq_step ?s aq_demo"
    using push_waits [of 8 ?s _ _ 10 100] by (simp add: aq_start_def aq_demo_def)
  ultimately show ?thesis by (meson converse_rtranclp_into_rtranclp rtranclp.rtrancl_refl)
qed


text \<open>
  Hand-off: a push while consumers wait gives the item straight to the first of them and posts
  only that consumer; when it resumes it returns exactly that item. A pop from a full queue with
  waiting producers returns the oldest item, moves the first producer's item into the ring and posts
  only that producer. Both always return, so a woken waiter never has to try again.
\<close>

theorem async_queue_hand_off:
  shows "(aq_inv cap (c # cs) ps q \<longrightarrow> (\<exists>q'. push_or_hand_off v q = Some (True, q', [pop_h q c]) \<and>
      aq_inv cap cs [] q' \<and> pop_await_resume c q' = v)) \<and>
    (aq_inv cap cs (p # ps) q \<longrightarrow> (\<exists>x xs q'. aq_contents q = x # xs \<and>
      try_pop q = Some (Some x, q', [push_h q p]) \<and> aq_inv cap [] ps q' \<and>
      aq_contents q' = xs @ [push_item q p]))"
proof (intro conjI impI)
  show "\<exists>q'. push_or_hand_off v q = Some (True, q', [pop_h q c]) \<and> aq_inv cap cs [] q' \<and>
    pop_await_resume c q' = v" if "aq_inv cap (c # cs) ps q"
    using push_hands_off [OF that, of v] by auto
  show "\<exists>x xs q'. aq_contents q = x # xs \<and> try_pop q = Some (Some x, q', [push_h q p]) \<and>
    aq_inv cap [] ps q' \<and> aq_contents q' = xs @ [push_item q p]" if inv: "aq_inv cap cs (p # ps) q"
  proof -
    have "length (aq_contents q) = cap" "0 < cap" using inv ring_cap_pos by (auto simp: aq_inv_def)
    then obtain x xs where "aq_contents q = x # xs" by (cases "aq_contents q") auto
    then show ?thesis using try_pop_refill [OF inv] by blast
  qed
qed

theorem async_queue_hand_off_witness:
  "\<exists>q'. try_pop (ar_q aq_demo) = Some (Some 7, q', [100]) \<and> aq_contents q' = [8]"
proof -
  have "aq_run_inv 1 aq_demo"
    using aq_run_inv_reachable [OF aq_demo_reachable aq_run_inv_start [OF aq_demo_cap]] .
  then have "aq_inv 1 [] [10] (ar_q aq_demo)" "ar_in aq_demo = ar_out aq_demo @ aq_queued [10] (ar_q aq_demo)"
    by (simp_all add: aq_run_inv_def aq_demo_def)
  moreover have "push_item (ar_q aq_demo) 10 = 8" "push_h (ar_q aq_demo) 10 = 100"
    by (simp_all add: aq_demo_def push_await_suspend_def push_awaiter_init_def)
  moreover from calculation have "aq_contents (ar_q aq_demo) = [7]"
    by (simp add: aq_queued_def aq_demo_def)
  ultimately show ?thesis
    using conjunct2 [OF async_queue_hand_off [where cap = 1 and cs = "[]" and ps = "[]" and p = 10
      and q = "ar_q aq_demo" and c = 1 and v = 0]] by auto
qed

text \<open>
  An item handed to a waiting consumer whose coroutine is destroyed before it runs is lost: the
  awaiter is no longer in the list, so its destructor changes nothing, and the item is neither in the
  ring nor with any waiter.
\<close>

theorem async_queue_hand_off_then_destroyed_loses_item:
  assumes "aq_inv cap (c # cs) ps q" and "push_or_hand_off v q = Some (True, q', posts)"
  shows "pop_awaiter_destroy c q' = Some q' \<and> aq_contents q' = [] \<and> aq_inv cap cs [] q'"
proof -
  have "distinct (c # cs)" using assms(1) linked_distinct unfolding aq_inv_def by metis
  moreover from push_hands_off [OF assms(1), of v] assms(2)
  have "aq_inv cap cs [] q'" "aq_contents q' = []" by auto
  ultimately show ?thesis by (auto simp: pop_awaiter_destroy_def aq_inv_def)
qed

theorem async_queue_hand_off_then_destroyed_loses_item_witness:
  "\<exists>q'. push_or_hand_off 5 (pop_await_suspend 10 100 (aq_new 0 1 :: (nat, 32) async_queue)) =
      Some (True, q', [100]) \<and> pop_awaiter_destroy 10 q' = Some q' \<and> aq_contents q' = []"
proof -
  let ?q = "pop_await_suspend 10 100 (aq_new 0 1 :: (nat, 32) async_queue)"
  have "aq_contents (aq_new 0 1 :: (nat, 32) async_queue) = []" by (simp add: aq_contents_def aq_new_def)
  then have inv: "aq_inv 1 [10] [] ?q" using pop_wait_inv [OF aq_inv_new [OF aq_demo_cap], of 0 10 100] by simp
  obtain q' where q': "push_or_hand_off 5 ?q = Some (True, q', [pop_h ?q 10])"
    using push_hands_off [OF inv] by blast
  moreover have "pop_h ?q 10 = 100" by (simp add: pop_await_suspend_def)
  ultimately show ?thesis
    using async_queue_hand_off_then_destroyed_loses_item [OF inv q'] by simp
qed

end
