(* ===== verification/Tag_Engine.thy ===== *)
theory Tag_Engine
  imports Tlp Ring_Buffers
begin

text \<open>
  \<open>CoroutineIoEngine\<close> of \<open>include/asp_coro.hpp\<close>: split transactions matched by an 8-bit tag, and
  telemetry streams delivered to one waiting coroutine per channel. The 256 request slots are a
  function on tags; the arrays of eight stream channels are functions on channel numbers that the
  code only reads below 8. A \<open>std::span<Tlp64>\<close> is the identity of its storage (0 for null) and its
  length; \<open>ce_bufs\<close> holds the storage. The engine talks to a pair of rings, either interrupt-locked
  (the library queue \<open>Q\<close>) or lock-free.
\<close>

section \<open>Links\<close>

datatype ('q, 's) link = Mpsc_link 'q | Spsc_link 's | No_link

type_synonym ('q, 'w) tlp_link = "('q, (tlp, 'w) spsc) link"

fun push_tx :: "(tlp, 'q) etl_queue \<Rightarrow> tlp \<Rightarrow> ('q, 'w::len) tlp_link \<Rightarrow> bool \<times> ('q, 'w) tlp_link" where
  "push_tx Q req (Mpsc_link q) = (let (b, q) = mpsc_push Q req q in (b, Mpsc_link q))"
| "push_tx Q req (Spsc_link s) = (let (b, s) = spsc_push req s in (b, Spsc_link s))"
| "push_tx Q req No_link = (False, No_link)"

fun pop_rx :: "(tlp, 'q) etl_queue \<Rightarrow> ('q, 'w::len) tlp_link \<Rightarrow> tlp option \<times> ('q, 'w) tlp_link" where
  "pop_rx Q (Mpsc_link q) = (let (v, q) = mpsc_pop Q q in (v, Mpsc_link q))"
| "pop_rx Q (Spsc_link s) = (let (v, s) = spsc_pop s in (v, Spsc_link s))"
| "pop_rx Q No_link = (None, No_link)"

section \<open>Engine state\<close>

record pending_request =
  pr_active :: bool
  pr_target_addr :: u32
  pr_awaiting_coro :: handle
  pr_response_tlp :: tlp

record tag_engine =
  ce_next_tag :: u8
  ce_pending :: "u8 \<Rightarrow> pending_request"
  ce_stream_awaiters :: "u8 \<Rightarrow> handle"
  ce_latest_stream_tlp :: "u8 \<Rightarrow> tlp"
  ce_batch_out :: "u8 \<Rightarrow> nat \<times> nat"
  ce_batch_min :: "u8 \<Rightarrow> nat"
  ce_batch_count :: "u8 \<Rightarrow> nat"
  ce_no_consumer :: "u8 \<Rightarrow> u32"
  ce_batch_full :: "u8 \<Rightarrow> u32"
  ce_bufs :: "nat \<Rightarrow> tlp list"

abbreviation (input) upd_pending :: "u8 \<Rightarrow> (pending_request \<Rightarrow> pending_request) \<Rightarrow> tag_engine \<Rightarrow> tag_engine" where
  "upd_pending tag f e \<equiv> e\<lparr>ce_pending := (ce_pending e)(tag := f (ce_pending e tag))\<rparr>"

fun allocate_tag_from :: "nat \<Rightarrow> nat \<Rightarrow> tag_engine \<Rightarrow> u8 \<times> tag_engine" where
  "allocate_tag_from 0 i e = (0, e)"
| "allocate_tag_from (Suc n) i e =
    (let tag = of_nat ((unat (ce_next_tag e) + i) mod 255 + 1) in
     if \<not> pr_active (ce_pending e tag)
     then (tag, upd_pending tag (\<lambda>p. p\<lparr>pr_active := True, pr_response_tlp := tlp_zero\<rparr>) (e\<lparr>ce_next_tag := tag\<rparr>))
     else allocate_tag_from n (Suc i) e)"

definition allocate_tag :: "tag_engine \<Rightarrow> u8 \<times> tag_engine" where
  "allocate_tag e = allocate_tag_from 255 1 e"

definition refused_completion :: tlp where
  "refused_completion = tlp_zero\<lparr>wtype := tlp_type_code Completion, wflags := 1, wtag := 0,
     length_dw := 1, payload := (payload tlp_zero)[0 := ASP_STATUS_QUEUE_FULL]\<rparr>"

definition release_tag :: "u8 \<Rightarrow> tag_engine \<Rightarrow> tag_engine" where
  "release_tag tag e = upd_pending tag (\<lambda>p. p\<lparr>pr_active := False, pr_awaiting_coro := null_handle\<rparr>) e"

definition register_awaiter :: "u8 \<Rightarrow> u32 \<Rightarrow> handle \<Rightarrow> tag_engine \<Rightarrow> tag_engine" where
  "register_awaiter tag addr coro e =
     upd_pending tag (\<lambda>p. p\<lparr>pr_target_addr := addr, pr_awaiting_coro := coro\<rparr>) e"

definition stream_drops :: "u8 \<Rightarrow> tag_engine \<Rightarrow> u32 \<times> u32" where
  "stream_drops ch e = (if ch < 8 then (ce_no_consumer e ch, ce_batch_full e ch) else (0, 0))"

definition register_stream_awaiter :: "u8 \<Rightarrow> handle \<Rightarrow> tag_engine \<Rightarrow> tag_engine" where
  "register_stream_awaiter ch coro e =
    (if ch < 8 then e\<lparr>ce_stream_awaiters := (ce_stream_awaiters e)(ch := coro)\<rparr> else e)"

section \<open>Completions\<close>

text \<open>One turn of the loop in \<open>poll_completions\<close>; it returns the coroutine it posts, if any.\<close>

definition stream_arrived :: "tlp \<Rightarrow> tag_engine \<Rightarrow> tag_engine \<times> handle list" where
  "stream_arrived t e =
    (let ch = wchannel t; coro = ce_stream_awaiters e ch; wake =
       (\<lambda>e. (e\<lparr>ce_stream_awaiters := (ce_stream_awaiters e)(ch := null_handle)\<rparr>, [coro])) in
     if ch < 8 \<and> coro = null_handle
     then (e\<lparr>ce_no_consumer := (ce_no_consumer e)(ch := ce_no_consumer e ch + 1)\<rparr>, [])
     else if ch < 8 then
       (let (buf, len) = ce_batch_out e ch in
        if len \<noteq> 0 then
          let idx = ce_batch_count e ch;
              e = (if idx < len
                   then e\<lparr>ce_bufs := (ce_bufs e)(buf := (ce_bufs e buf)[idx := t]),
                          ce_batch_count := (ce_batch_count e)(ch := idx + 1)\<rparr>
                   else e\<lparr>ce_batch_full := (ce_batch_full e)(ch := ce_batch_full e ch + 1)\<rparr>)
          in if ce_batch_count e ch \<ge> ce_batch_min e ch
             then wake (e\<lparr>ce_batch_out := (ce_batch_out e)(ch := (0, 0))\<rparr>)
             else (e, [])
        else wake (e\<lparr>ce_latest_stream_tlp := (ce_latest_stream_tlp e)(ch := t)\<rparr>))
     else (e, []))"

definition completion_arrived :: "tlp \<Rightarrow> tag_engine \<Rightarrow> tag_engine \<times> handle list" where
  "completion_arrived t e =
    (let tag = wtag t; p = ce_pending e tag in
     if pr_active p
     then (upd_pending tag (\<lambda>p. p\<lparr>pr_response_tlp := t, pr_active := False, pr_awaiting_coro := null_handle\<rparr>) e,
           if pr_awaiting_coro p \<noteq> null_handle then [pr_awaiting_coro p] else [])
     else (e, []))"

definition rx_one :: "tlp \<Rightarrow> tag_engine \<times> handle list \<Rightarrow> tag_engine \<times> handle list" where
  "rx_one t = (\<lambda>(e, posts).
     let (e', ps) = (if wtype t = tlp_type_code DmaStream then stream_arrived t e
                     else completion_arrived t e)
     in (e', posts @ ps))"

definition poll_completions :: "(tlp, 'q) etl_queue \<Rightarrow> tag_engine \<Rightarrow> ('q, 'w::len) tlp_link \<Rightarrow>
    (nat \<times> ('q, 'w) tlp_link \<times> (tag_engine \<times> handle list)) option" where
  "poll_completions Q e rx = drain_loop (pop_rx Q) rx_one 0 rx (e, [])"

section \<open>Awaiters\<close>

text \<open>The state of a request awaiter object: its tag and whether the submit was refused.\<close>

record request_awaiter =
  ra_tag :: u8
  ra_refused :: bool

text \<open>
  \<open>await_suspend\<close> of the three request awaiters: allocate a tag, register, build the request with
  that tag, push it. The boolean is its result (suspend or not).
\<close>

definition submit :: "(tlp, 'q) etl_queue \<Rightarrow> u32 \<Rightarrow> (u8 \<Rightarrow> tlp) \<Rightarrow> handle \<Rightarrow> tag_engine \<Rightarrow> ('q, 'w::len) tlp_link \<Rightarrow>
    bool \<times> request_awaiter \<times> tag_engine \<times> ('q, 'w) tlp_link" where
  "submit Q addr mk coro e tx =
    (let (tag, e) = allocate_tag e in
     if tag = 0 then (False, \<lparr>ra_tag = tag, ra_refused = True\<rparr>, e, tx)
     else let e = register_awaiter tag addr coro e;
              (ok, tx) = push_tx Q (mk tag) tx
          in if \<not> ok then (False, \<lparr>ra_tag = tag, ra_refused = True\<rparr>, release_tag tag e, tx)
             else (True, \<lparr>ra_tag = tag, ra_refused = False\<rparr>, e, tx))"

definition read_await_suspend :: "(tlp, 'q) etl_queue \<Rightarrow> u32 \<Rightarrow> handle \<Rightarrow> tag_engine \<Rightarrow> ('q, 'w::len) tlp_link \<Rightarrow>
    bool \<times> request_awaiter \<times> tag_engine \<times> ('q, 'w) tlp_link" where
  "read_await_suspend Q address coro e tx = submit Q address (make_mem_read address) coro e tx"

definition write_await_suspend :: "(tlp, 'q) etl_queue \<Rightarrow> u32 \<Rightarrow> u32 \<Rightarrow> handle \<Rightarrow> tag_engine \<Rightarrow>
    ('q, 'w::len) tlp_link \<Rightarrow> bool \<times> request_awaiter \<times> tag_engine \<times> ('q, 'w) tlp_link" where
  "write_await_suspend Q address v coro e tx = submit Q address (make_mem_write address v) coro e tx"

definition transact_await_suspend :: "(tlp, 'q) etl_queue \<Rightarrow> tlp \<Rightarrow> handle \<Rightarrow> tag_engine \<Rightarrow>
    ('q, 'w::len) tlp_link \<Rightarrow> bool \<times> request_awaiter \<times> tag_engine \<times> ('q, 'w) tlp_link" where
  "transact_await_suspend Q req coro e tx =
     submit Q (target_address req) (\<lambda>tag. req\<lparr>wtag := tag\<rparr>) coro e tx"

definition request_await_resume :: "request_awaiter \<Rightarrow> tag_engine \<Rightarrow> tlp" where
  "request_await_resume a e =
    (if ra_refused a then refused_completion else pr_response_tlp (ce_pending e (ra_tag a)))"

definition request_awaiter_destroy :: "request_awaiter \<Rightarrow> tag_engine \<Rightarrow> tag_engine" where
  "request_awaiter_destroy a e =
    (if ra_tag a \<noteq> 0 \<and> \<not> ra_refused a
     then upd_pending (ra_tag a) (\<lambda>p. p\<lparr>pr_awaiting_coro := null_handle\<rparr>) e else e)"

record stream_awaiter =
  sa_channel :: u8
  sa_refused :: bool
  sa_mine :: handle

definition stream_await_suspend :: "u8 \<Rightarrow> handle \<Rightarrow> tag_engine \<Rightarrow> bool \<times> stream_awaiter \<times> tag_engine" where
  "stream_await_suspend ch coro e =
    (if ch \<ge> 8 \<or> ce_stream_awaiters e ch \<noteq> null_handle
     then (False, \<lparr>sa_channel = ch, sa_refused = True, sa_mine = null_handle\<rparr>, e)
     else (True, \<lparr>sa_channel = ch, sa_refused = False, sa_mine = coro\<rparr>,
       register_stream_awaiter ch coro (e\<lparr>ce_batch_out := (ce_batch_out e)(ch := (0, 0))\<rparr>)))"

definition stream_await_resume :: "stream_awaiter \<Rightarrow> tag_engine \<Rightarrow> tlp" where
  "stream_await_resume a e = (if sa_refused a then tlp_zero else ce_latest_stream_tlp e (sa_channel a))"

definition stream_awaiter_destroy :: "stream_awaiter \<Rightarrow> tag_engine \<Rightarrow> tag_engine" where
  "stream_awaiter_destroy a e =
    (let ch = sa_channel a in
     if sa_mine a \<noteq> null_handle \<and> ch < 8 \<and> ce_stream_awaiters e ch = sa_mine a
     then e\<lparr>ce_stream_awaiters := (ce_stream_awaiters e)(ch := null_handle)\<rparr> else e)"

record batch_awaiter =
  ba_out :: "nat \<times> nat"
  ba_min_count :: nat
  ba_channel :: u8
  ba_refused :: bool

definition batch_await_ready :: "batch_awaiter \<Rightarrow> bool" where
  "batch_await_ready a \<longleftrightarrow> snd (ba_out a) = 0"

definition batch_await_suspend :: "handle \<Rightarrow> batch_awaiter \<Rightarrow> tag_engine \<Rightarrow> bool \<times> batch_awaiter \<times> tag_engine" where
  "batch_await_suspend coro a e =
    (let ch = ba_channel a; len = snd (ba_out a) in
     if ch \<ge> 8 \<or> ce_stream_awaiters e ch \<noteq> null_handle \<or> len = 0 then (False, a\<lparr>ba_refused := True\<rparr>, e)
     else let target = (if ba_min_count a = 0 then 1
                        else if ba_min_count a > len then len else ba_min_count a)
          in (True, a, register_stream_awaiter ch coro
               (e\<lparr>ce_batch_out := (ce_batch_out e)(ch := ba_out a),
                  ce_batch_min := (ce_batch_min e)(ch := target),
                  ce_batch_count := (ce_batch_count e)(ch := 0)\<rparr>)))"

definition batch_await_resume :: "batch_awaiter \<Rightarrow> tag_engine \<Rightarrow> nat" where
  "batch_await_resume a e =
    (if ba_refused a \<or> snd (ba_out a) = 0 then 0 else ce_batch_count e (ba_channel a))"

definition batch_awaiter_destroy :: "batch_awaiter \<Rightarrow> tag_engine \<Rightarrow> tag_engine" where
  "batch_awaiter_destroy a e =
    (let ch = ba_channel a in
     if ch < 8 \<and> fst (ce_batch_out e ch) = fst (ba_out a)
     then e\<lparr>ce_batch_out := (ce_batch_out e)(ch := (0, 0)),
            ce_stream_awaiters := (ce_stream_awaiters e)(ch := null_handle)\<rparr>
     else e)"

section \<open>Tags\<close>

definition tag_at :: "tag_engine \<Rightarrow> nat \<Rightarrow> u8" where
  "tag_at e i = of_nat ((unat (ce_next_tag e) + i) mod 255 + 1)"

lemma unat_tag_at: "unat (tag_at e i) = (unat (ce_next_tag e) + i) mod 255 + 1"
proof -
  have "(unat (ce_next_tag e) + i) mod 255 < 255" by simp
  then show ?thesis unfolding tag_at_def by (intro unat_of_nat_small) simp
qed

lemma tag_at_nonzero [simp]: "tag_at e i \<noteq> 0"
  using unat_tag_at [of e i] by (metis Suc_eq_plus1 nat.distinct(1) unat_0)

lemma tag_at_covers:
  assumes "t \<noteq> 0"
  obtains k where "k < 255" and "tag_at e (Suc k) = t"
proof -
  let ?a = "Suc (unat (ce_next_tag e))" and ?r = "unat t - 1"
  let ?k = "(?r + 254 * ?a) mod 255"
  have t: "unat t \<noteq> 0" "unat t < 256" using assms unsigned_less [of t, where 'a = nat] by (auto simp: unat_eq_0)
  have "(?a + ?k) mod 255 = (?a * 255 + ?r) mod 255"
    by (simp only: mod_add_right_eq) (simp add: algebra_simps)
  also have "\<dots> = ?r" using t by (simp only: mod_mult_self3) simp
  finally have "unat (tag_at e (Suc ?k)) = unat t" using t by (simp add: unat_tag_at)
  then have "tag_at e (Suc ?k) = t" by (rule unsigned_word_eqI)
  then show thesis using that [of ?k] by simp
qed

definition mark_allocated :: "u8 \<Rightarrow> tag_engine \<Rightarrow> tag_engine" where
  "mark_allocated tag e = e\<lparr>ce_next_tag := tag, ce_pending := (ce_pending e)
     (tag := (ce_pending e tag)\<lparr>pr_active := True, pr_response_tlp := tlp_zero\<rparr>)\<rparr>"

lemma allocate_tag_from_cases:
  "(\<exists>k < n. allocate_tag_from n i e = (tag_at e (i + k), mark_allocated (tag_at e (i + k)) e) \<and>
      \<not> pr_active (ce_pending e (tag_at e (i + k)))) \<or>
   (allocate_tag_from n i e = (0, e) \<and> (\<forall>k < n. pr_active (ce_pending e (tag_at e (i + k)))))"
proof (induction n arbitrary: i)
  case (Suc n)
  show ?case
  proof (cases "pr_active (ce_pending e (tag_at e i))")
    case True
    have step: "allocate_tag_from (Suc n) i e = allocate_tag_from n (Suc i) e"
      using True by (simp add: tag_at_def)
    from Suc.IH [of "Suc i"] show ?thesis
    proof (elim disjE exE conjE)
      fix k assume "k < n" "allocate_tag_from n (Suc i) e = (tag_at e (Suc i + k), mark_allocated (tag_at e (Suc i + k)) e)"
        "\<not> pr_active (ce_pending e (tag_at e (Suc i + k)))"
      then show ?thesis unfolding step by (intro disjI1 exI [of _ "Suc k"]) simp
    next
      assume "allocate_tag_from n (Suc i) e = (0, e)" "\<forall>k < n. pr_active (ce_pending e (tag_at e (Suc i + k)))"
      then show ?thesis using True unfolding step by (auto simp: less_Suc_eq_0_disj)
    qed
  next
    case False
    then show ?thesis by (intro disjI1 exI [of _ 0]) (simp add: tag_at_def mark_allocated_def Let_def)
  qed
qed simp

lemma allocate_tag_cases:
  obtains (tag) t where "allocate_tag e = (t, mark_allocated t e)" "t \<noteq> 0" "\<not> pr_active (ce_pending e t)"
  | (none) "allocate_tag e = (0, e)" "\<forall>t. t \<noteq> 0 \<longrightarrow> pr_active (ce_pending e t)"
proof -
  from allocate_tag_from_cases [of 255 1 e] show thesis
  proof (elim disjE exE conjE)
    fix k assume "allocate_tag_from 255 1 e = (tag_at e (1 + k), mark_allocated (tag_at e (1 + k)) e)"
      "\<not> pr_active (ce_pending e (tag_at e (1 + k)))"
    then show thesis using tag [of "tag_at e (1 + k)"] by (simp add: allocate_tag_def)
  next
    assume a: "allocate_tag_from 255 1 e = (0, e)" "\<forall>k < 255. pr_active (ce_pending e (tag_at e (1 + k)))"
    have "pr_active (ce_pending e t)" if "t \<noteq> 0" for t
      using tag_at_covers [OF that, of e] a(2) by (metis plus_1_eq_Suc)
    then show thesis using none a(1) by (simp add: allocate_tag_def)
  qed
qed

lemma allocate_tag_active:
  "allocate_tag e = (t, e') \<Longrightarrow> t \<noteq> 0 \<Longrightarrow> pr_active (ce_pending e' t) \<and> e' = mark_allocated t e \<and>
    \<not> pr_active (ce_pending e t)"
  by (rule allocate_tag_cases [of e]) (auto simp: mark_allocated_def)

section \<open>Matching responses\<close>

text \<open>A packet that is not a response to \<open>tag\<close> leaves that tag's slot alone.\<close>

definition answers :: "u8 \<Rightarrow> tlp \<Rightarrow> bool" where
  "answers tag t \<longleftrightarrow> wtype t \<noteq> tlp_type_code DmaStream \<and> wtag t = tag"

lemma stream_arrived_pending [simp]: "ce_pending (fst (stream_arrived t e)) = ce_pending e"
  by (auto simp: stream_arrived_def Let_def split: prod.split)

lemma rx_one_simps [simp]:
  "fst (rx_one t (e, ps)) = (if wtype t = tlp_type_code DmaStream then fst (stream_arrived t e)
     else fst (completion_arrived t e))"
  "snd (rx_one t (e, ps)) = ps @ (if wtype t = tlp_type_code DmaStream then snd (stream_arrived t e)
     else snd (completion_arrived t e))"
  by (auto simp: rx_one_def split: prod.split)

lemma rx_one_other:
  "\<not> answers tag t \<Longrightarrow> ce_pending (fst (rx_one t (e, ps))) tag = ce_pending e tag"
  by (auto simp: answers_def completion_arrived_def Let_def)

lemma rx_one_inactive:
  "\<not> pr_active (ce_pending e tag) \<Longrightarrow> ce_pending (fst (rx_one t (e, ps))) tag = ce_pending e tag"
  by (auto simp: completion_arrived_def Let_def)

lemma rx_one_answer:
  assumes "answers tag t" and "pr_active (ce_pending e tag)" and "pr_awaiting_coro (ce_pending e tag) \<noteq> null_handle"
  shows "snd (rx_one t (e, ps)) = ps @ [pr_awaiting_coro (ce_pending e tag)]"
    and "pr_response_tlp (ce_pending (fst (rx_one t (e, ps))) tag) = t"
    and "\<not> pr_active (ce_pending (fst (rx_one t (e, ps))) tag)"
  using assms by (auto simp: answers_def completion_arrived_def Let_def)

lemma fold_rx_other:
  "\<forall>t \<in> set ts. \<not> answers tag t \<Longrightarrow> ce_pending (fst (fold rx_one ts w)) tag = ce_pending (fst w) tag"
proof (induction ts arbitrary: w)
  case (Cons t ts)
  then show ?case using rx_one_other [of tag t "fst w" "snd w"] by (simp del: rx_one_simps)
qed simp

lemma fold_rx_inactive:
  "\<not> pr_active (ce_pending (fst w) tag) \<Longrightarrow> ce_pending (fst (fold rx_one ts w)) tag = ce_pending (fst w) tag"
proof (induction ts arbitrary: w)
  case (Cons t ts)
  then show ?case using rx_one_inactive [of "fst w" tag t "snd w"] by (simp del: rx_one_simps)
qed simp

lemma fold_rx_posts: "\<exists>ps. snd (fold rx_one ts w) = snd w @ ps"
proof (induction ts arbitrary: w)
  case (Cons t ts)
  obtain ps where "snd (rx_one t w) = snd w @ ps"
    by (cases w) auto
  then show ?case using Cons.IH [of "rx_one t w"] by auto
qed simp

section \<open>Links are bounded queues\<close>

fun link_inv :: "('q \<Rightarrow> bool) \<Rightarrow> nat \<Rightarrow> ('q, 'w::len) tlp_link \<Rightarrow> bool" where
  "link_inv I cap (Mpsc_link q) \<longleftrightarrow> I q"
| "link_inv I cap (Spsc_link s) \<longleftrightarrow> spsc_inv cap s"
| "link_inv I cap No_link \<longleftrightarrow> False"

fun link_contents :: "('q \<Rightarrow> tlp list) \<Rightarrow> ('q, 'w::len) tlp_link \<Rightarrow> tlp list" where
  "link_contents contents (Mpsc_link q) = contents q"
| "link_contents contents (Spsc_link s) = spsc_contents s"
| "link_contents contents No_link = []"

lemma mpsc_pop_eq [simp]: "mpsc_pop Q q = q_pop Q q"
  by (simp add: mpsc_pop_def split: prod.split option.split)

lemma link_simps [simp]:
  "fst (push_tx Q x (Mpsc_link q)) = fst (q_push Q x q)"
  "snd (push_tx Q x (Mpsc_link q)) = Mpsc_link (snd (q_push Q x q))"
  "fst (push_tx Q x (Spsc_link s)) = fst (spsc_push x s)"
  "snd (push_tx Q x (Spsc_link s)) = Spsc_link (snd (spsc_push x s))"
  "fst (pop_rx Q (Mpsc_link q)) = fst (q_pop Q q)"
  "snd (pop_rx Q (Mpsc_link q)) = Mpsc_link (snd (q_pop Q q))"
  "fst (pop_rx Q (Spsc_link s)) = fst (spsc_pop s)"
  "snd (pop_rx Q (Spsc_link s)) = Spsc_link (snd (spsc_pop s))"
  by (simp_all add: mpsc_push_def split: prod.split)

text \<open>Whichever kind of ring the engine was built with, it offers the bounded-queue contract.\<close>

lemma link_bounded_fifo:
  assumes "etl_queue_laws I contents cap Q"
  shows "bounded_fifo (link_inv I cap :: ('q, 'w::len) tlp_link \<Rightarrow> bool) (link_contents contents) cap
    (\<lambda>_. True) (push_tx Q) (pop_rx Q)"
proof -
  have Q: "bounded_fifo I contents cap (\<lambda>_. True) (q_push Q) (q_pop Q)"
    using assms by (simp add: etl_queue_laws_def)
  show ?thesis
  proof
    fix l :: "('q, 'w) tlp_link" and x xs
    assume l: "link_inv I cap l"
    show "length (link_contents contents l) \<le> cap"
      using l bounded_fifo.length_le_cap [OF Q] spsc.length_le_cap by (cases l) auto
    show "fst (push_tx Q x l) \<and> link_inv I cap (snd (push_tx Q x l)) \<and>
        link_contents contents (snd (push_tx Q x l)) = link_contents contents l @ [x]"
      if "length (link_contents contents l) < cap"
      using l that bounded_fifo.push_ok [OF Q] spsc.push_ok by (cases l) (simp_all del: push_tx.simps)
    show "\<not> fst (push_tx Q x l) \<and> link_inv I cap (snd (push_tx Q x l)) \<and>
        link_contents contents (snd (push_tx Q x l)) = link_contents contents l"
      if "\<not> (True \<and> length (link_contents contents l) < cap)"
      using l that bounded_fifo.push_no [OF Q] spsc.push_no by (cases l) (simp_all del: push_tx.simps)
    show "fst (pop_rx Q l) = None \<and> link_inv I cap (snd (pop_rx Q l)) \<and>
        link_contents contents (snd (pop_rx Q l)) = []"
      if "link_contents contents l = []"
      using l that bounded_fifo.pop_empty [OF Q] spsc.pop_empty by (cases l) (simp_all del: pop_rx.simps)
    show "fst (pop_rx Q l) = Some x \<and> link_inv I cap (snd (pop_rx Q l)) \<and>
        link_contents contents (snd (pop_rx Q l)) = xs"
      if "link_contents contents l = x # xs"
      using l that bounded_fifo.pop_ok [OF Q] spsc.pop_ok by (cases l) (simp_all del: pop_rx.simps)
  qed
qed

section \<open>Batches\<close>

text \<open>A batch waiter on channel \<open>ch\<close> that has received \<open>got\<close> so far and wakes at \<open>target\<close>.\<close>

definition batch_waiting :: "u8 \<Rightarrow> handle \<Rightarrow> nat \<Rightarrow> nat \<Rightarrow> nat \<Rightarrow> tlp list \<Rightarrow> tag_engine \<Rightarrow> bool" where
  "batch_waiting ch coro buf len target got e \<longleftrightarrow> ch < 8 \<and> coro \<noteq> null_handle \<and> buf \<noteq> 0 \<and>
     ce_stream_awaiters e ch = coro \<and> ce_batch_out e ch = (buf, len) \<and> ce_batch_min e ch = target \<and>
     ce_batch_count e ch = length got \<and> 0 < target \<and> target \<le> len \<and> length got < target \<and>
     length (ce_bufs e buf) = len \<and> take (length got) (ce_bufs e buf) = got"

lemma batch_stream_arrived:
  assumes "batch_waiting ch coro buf len target got e" and "wchannel t = ch"
  shows "if Suc (length got) = target
    then snd (stream_arrived t e) = [coro] \<and> ce_batch_count (fst (stream_arrived t e)) ch = target \<and>
      take target (ce_bufs (fst (stream_arrived t e)) buf) = got @ [t] \<and>
      ce_stream_awaiters (fst (stream_arrived t e)) ch = null_handle
    else snd (stream_arrived t e) = [] \<and> batch_waiting ch coro buf len target (got @ [t]) (fst (stream_arrived t e))"
proof -
  have *: "take (Suc (length got)) ((ce_bufs e buf)[length got := t]) = got @ [t]"
    using assms(1) take_update_last [of "length got" "ce_bufs e buf" t] by (simp add: batch_waiting_def)
  then have "take target ((ce_bufs e buf)[length got := t]) = got @ [t]" if "Suc (length got) = target"
    using that by metis
  with * show ?thesis
    using assms by (auto simp: batch_waiting_def stream_arrived_def Let_def)
qed

lemma batch_fold:
  assumes "batch_waiting ch coro buf len target got e"
    and "\<forall>t \<in> set ts. wtype t = tlp_type_code DmaStream \<and> wchannel t = ch"
    and "length got + length ts = target"
  shows "snd (fold rx_one ts (e, ps)) = ps @ [coro] \<and>
    ce_batch_count (fst (fold rx_one ts (e, ps))) ch = target \<and>
    take target (ce_bufs (fst (fold rx_one ts (e, ps))) buf) = got @ ts \<and>
    ce_stream_awaiters (fst (fold rx_one ts (e, ps))) ch = null_handle"
  using assms
proof (induction ts arbitrary: got e ps)
  case Nil
  then show ?case by (simp add: batch_waiting_def)
next
  case (Cons t ts)
  have t: "wtype t = tlp_type_code DmaStream" "wchannel t = ch" using Cons.prems(2) by auto
  have eq: "rx_one t (e, ps) = (fst (stream_arrived t e), ps @ snd (stream_arrived t e))"
    using t by (simp add: prod_eq_iff)
  show ?case
  proof (cases ts)
    case Nil
    then show ?thesis using batch_stream_arrived [OF Cons.prems(1) t(2)] Cons.prems(3) eq by simp
  next
    case (Cons t' ts')
    then have "Suc (length got) \<noteq> target" using Cons.prems(3) by simp
    then have "snd (stream_arrived t e) = []"
      "batch_waiting ch coro buf len target (got @ [t]) (fst (stream_arrived t e))"
      using batch_stream_arrived [OF Cons.prems(1) t(2)] by auto
    then show ?thesis
      using Cons.IH [of "got @ [t]" "fst (stream_arrived t e)" ps] Cons.prems eq by simp
  qed
qed

section \<open>Properties\<close>

text \<open>
  Tag allocation returns tag 0 only when all 255 usable tags have an outstanding request, and
  then changes nothing. Otherwise it returns a tag from 1 to 255 that had no outstanding request,
  marks it outstanding with an empty response, and leaves every other tag alone.
\<close>

theorem allocate_tag_fresh:
  "(fst (allocate_tag e) = 0 \<longleftrightarrow> (\<forall>u. u \<noteq> 0 \<longrightarrow> pr_active (ce_pending e u))) \<and>
   (fst (allocate_tag e) = 0 \<longrightarrow> snd (allocate_tag e) = e) \<and>
   (fst (allocate_tag e) \<noteq> 0 \<longrightarrow>
     \<not> pr_active (ce_pending e (fst (allocate_tag e))) \<and>
     pr_active (ce_pending (snd (allocate_tag e)) (fst (allocate_tag e))) \<and>
     pr_response_tlp (ce_pending (snd (allocate_tag e)) (fst (allocate_tag e))) = tlp_zero \<and>
     (\<forall>u. u \<noteq> fst (allocate_tag e) \<longrightarrow> ce_pending (snd (allocate_tag e)) u = ce_pending e u))"
  by (rule allocate_tag_cases [of e]) (auto simp: mark_allocated_def)

definition engine_new :: tag_engine where
  "engine_new = \<lparr>ce_next_tag = 1, ce_pending = (\<lambda>_. \<lparr>pr_active = False, pr_target_addr = 0,
     pr_awaiting_coro = null_handle, pr_response_tlp = tlp_zero\<rparr>), ce_stream_awaiters = (\<lambda>_. null_handle),
     ce_latest_stream_tlp = (\<lambda>_. tlp_zero), ce_batch_out = (\<lambda>_. (0, 0)), ce_batch_min = (\<lambda>_. 0),
     ce_batch_count = (\<lambda>_. 0), ce_no_consumer = (\<lambda>_. 0), ce_batch_full = (\<lambda>_. 0), ce_bufs = (\<lambda>_. [])\<rparr>"

theorem allocate_tag_fresh_witness:
  "fst (allocate_tag engine_new) \<noteq> 0 \<and>
    pr_active (ce_pending (snd (allocate_tag engine_new)) (fst (allocate_tag engine_new)))"
proof -
  have "\<not> (\<forall>u. u \<noteq> 0 \<longrightarrow> pr_active (ce_pending engine_new u))"
    by (auto simp: engine_new_def intro: exI [of _ 1])
  with allocate_tag_fresh [of engine_new] show ?thesis by blast
qed

text \<open>
  (C4) A split transaction completes: if a request was accepted under some tag, then polling a receive
  ring that holds the response for that tag, after any packets for other tags and streams and before
  anything at all, terminates, empties the ring, posts the requesting coroutine, and the awaiter
  returns exactly that response. A second response with the same tag is ignored.
\<close>

theorem split_transaction_completes:
  assumes "etl_queue_laws I contents cap Q" and "link_inv I cap rx"
    and "submit Q addr mk coro e0 tx = (True, a, e, tx')" and "coro \<noteq> null_handle"
    and "link_contents contents rx = ts @ c # us"
    and "\<forall>t \<in> set ts. \<not> answers (ra_tag a) t" and "answers (ra_tag a) c"
  shows "\<exists>rx' e' ps qs. poll_completions Q e rx =
      Some (length (link_contents contents rx), rx', (e', ps @ [coro] @ qs)) \<and>
    link_contents contents rx' = [] \<and> request_await_resume a e' = c"
proof -
  let ?t = "ra_tag a"
  have act: "pr_active (ce_pending e ?t)" "pr_awaiting_coro (ce_pending e ?t) = coro" "\<not> ra_refused a"
    using assms(3) allocate_tag_active [of e0]
    by (auto simp: submit_def register_awaiter_def Let_def split: prod.splits if_splits)
  let ?w1 = "fold rx_one ts (e, [])"
  let ?w2 = "rx_one c ?w1"
  let ?w3 = "fold rx_one us ?w2"
  have w1: "ce_pending (fst ?w1) ?t = ce_pending e ?t" using fold_rx_other [OF assms(6)] by simp
  have ans: "snd ?w2 = snd ?w1 @ [coro]" "pr_response_tlp (ce_pending (fst ?w2) ?t) = c"
    "\<not> pr_active (ce_pending (fst ?w2) ?t)"
    using rx_one_answer [OF assms(7), of "fst ?w1" "snd ?w1"] act w1 assms(4)
    by (simp_all del: rx_one_simps)
  have w3: "pr_response_tlp (ce_pending (fst ?w3) ?t) = c"
    using fold_rx_inactive [OF ans(3), of us] ans(2) by simp
  obtain qs where qs: "snd ?w3 = snd ?w1 @ [coro] @ qs" using fold_rx_posts [of us ?w2] ans(1) by auto
  obtain rx' where "poll_completions Q e rx = Some (length (link_contents contents rx), rx', ?w3)"
    "link_contents contents rx' = []"
    using bounded_fifo.drain_loop_total [OF link_bounded_fifo [OF assms(1)] assms(2), of rx_one 0 "(e, [])"] assms(5)
    by (auto simp: poll_completions_def)
  then show ?thesis using w3 qs act(3)
    by (intro exI [of _ rx'] exI [of _ "fst ?w3"] exI [of _ "snd ?w1"] exI [of _ qs])
      (simp add: request_await_resume_def prod_eq_iff)
qed

text \<open>A request for register \<open>0x40000300\<close> by coroutine 100 on an idle engine with empty list queues.\<close>

lemma engine_new_submit:
  "\<exists>a e tx'. submit (list_queue 8) 0x40000300 (make_mem_read 0x40000300) 100 engine_new
      (Mpsc_link [] :: (tlp list, 32) tlp_link) = (True, a, e, tx')"
proof -
  have "fst (allocate_tag engine_new) \<noteq> 0"
    by (rule allocate_tag_cases [of engine_new]) (auto simp: engine_new_def dest: spec [of _ 1])
  then show ?thesis
    by (cases "allocate_tag engine_new") (simp add: submit_def Let_def mpsc_push_def list_queue_def)
qed

theorem split_transaction_completes_witness:
  "\<exists>a e e' tx' rx' ps. submit (list_queue 8) 0x40000300 (make_mem_read 0x40000300) 100 engine_new
      (Mpsc_link [] :: (tlp list, 32) tlp_link) = (True, a, e, tx') \<and>
    poll_completions (list_queue 8) e (Mpsc_link [make_cpl_d (ra_tag a) 42 Telemetry] :: (tlp list, 32) tlp_link) =
      Some (1, rx', (e', ps)) \<and> request_await_resume a e' = make_cpl_d (ra_tag a) 42 Telemetry"
proof -
  obtain a e tx' where s: "submit (list_queue 8) 0x40000300 (make_mem_read 0x40000300) 100 engine_new
      (Mpsc_link [] :: (tlp list, 32) tlp_link) = (True, a, e, tx')" using engine_new_submit by blast
  have "answers (ra_tag a) (make_cpl_d (ra_tag a) 42 Telemetry)"
    by (simp add: answers_def make_cpl_d_def make_completion_data_def)
  from split_transaction_completes [OF list_queue_laws [of 8], of
      "Mpsc_link [make_cpl_d (ra_tag a) 42 Telemetry] :: (tlp list, 32) tlp_link",
      OF _ s _ _ _ this, of "[]" "[]"] s show ?thesis by fastforce
qed

text \<open>
  A refused request leaks nothing: when no tag is free or the transmit ring is full,
  \<open>await_suspend\<close> does not suspend, the set of outstanding tags is what it was before, the transmit
  ring is unchanged, and the awaiter returns an error completion with status queue-full instead of
  old data.
\<close>

theorem refused_request_leaks_nothing:
  assumes "etl_queue_laws I contents cap Q" and "link_inv I cap tx"
    and "submit Q addr mk coro e tx = (False, a, e', tx')"
  shows "(\<forall>t. pr_active (ce_pending e' t) = pr_active (ce_pending e t)) \<and>
    link_contents contents tx' = link_contents contents tx \<and>
    is_error (request_await_resume a e') \<and>
    payload (request_await_resume a e') ! 0 = ASP_STATUS_QUEUE_FULL"
proof -
  have err: "is_error refused_completion" "payload refused_completion ! 0 = ASP_STATUS_QUEUE_FULL"
    by (simp_all add: refused_completion_def is_error_def)
  have full: "link_contents contents l = link_contents contents tx" if "push_tx Q x tx = (False, l)" for x l
    using bounded_fifo.push_ok [OF link_bounded_fifo [OF assms(1)] assms(2), of x]
      bounded_fifo.push_no [OF link_bounded_fifo [OF assms(1)] assms(2), of x] that by force
  show ?thesis
  proof (cases rule: allocate_tag_cases [of e])
    case (tag t)
    then show ?thesis using assms(3) err full
      by (auto simp: submit_def release_tag_def register_awaiter_def mark_allocated_def Let_def
          request_await_resume_def split: prod.splits if_splits)
  next
    case none
    then show ?thesis using assms(3) err by (auto simp: submit_def request_await_resume_def)
  qed
qed

theorem refused_request_leaks_nothing_witness:
  "\<exists>a e' tx'. submit (list_queue 0) 0 (make_mem_read 0) 100 engine_new (Mpsc_link [] :: (tlp list, 32) tlp_link) =
      (False, a, e', tx') \<and> is_error (request_await_resume a e')"
proof -
  have "\<not> fst (submit (list_queue 0) 0 (make_mem_read 0) 100 engine_new (Mpsc_link [] :: (tlp list, 32) tlp_link))"
    by (simp add: submit_def Let_def mpsc_push_def list_queue_def split: prod.split)
  then obtain a e' tx' where s: "submit (list_queue 0) 0 (make_mem_read 0) 100 engine_new
      (Mpsc_link [] :: (tlp list, 32) tlp_link) = (False, a, e', tx')" by (metis (full_types) prod.collapse)
  from refused_request_leaks_nothing [OF list_queue_laws [of 0] _ s] s show ?thesis by simp
qed

text \<open>
  A batch wait is woken exactly once, when the clamped minimum number of stream packets has
  arrived on its channel, with those packets in arrival order in the caller's buffer, and the awaiter
  reports that count.
\<close>

theorem stream_batch_delivers:
  assumes "batch_await_suspend coro a e0 = (True, a', e)" and "coro \<noteq> null_handle"
    and "ba_out a = (buf, len)" and "buf \<noteq> 0" and "length (ce_bufs e0 buf) = len" and "\<not> ba_refused a"
    and "\<forall>t \<in> set ts. wtype t = tlp_type_code DmaStream \<and> wchannel t = ba_channel a"
    and "length ts = max 1 (min (ba_min_count a) len)"
  shows "snd (fold rx_one ts (e, [])) = [coro] \<and>
    batch_await_resume a' (fst (fold rx_one ts (e, []))) = length ts \<and>
    take (length ts) (ce_bufs (fst (fold rx_one ts (e, []))) buf) = ts"
proof -
  have a': "a' = a" and w: "batch_waiting (ba_channel a) coro buf len (length ts) [] e"
    using assms(1-6,8)
    by (auto simp: batch_await_suspend_def batch_waiting_def register_stream_awaiter_def Let_def not_le
        split: if_splits)
  then show ?thesis using batch_fold [OF w assms(7)] assms(3,6)
    by (auto simp: batch_await_resume_def batch_waiting_def)
qed

theorem stream_batch_delivers_witness:
  "\<exists>a' e. batch_await_suspend 100 \<lparr>ba_out = (1, 2), ba_min_count = 2, ba_channel = 2, ba_refused = False\<rparr>
      (engine_new\<lparr>ce_bufs := (\<lambda>_. [tlp_zero, tlp_zero])\<rparr>) = (True, a', e) \<and>
    snd (fold rx_one [make_ctf Telemetry 0 [1] 0 DmaStream, make_ctf Telemetry 0 [2] 0 DmaStream] (e, [])) = [100]"
proof -
  let ?a = "\<lparr>ba_out = (1, 2), ba_min_count = 2, ba_channel = 2, ba_refused = False\<rparr>"
  let ?e = "engine_new\<lparr>ce_bufs := (\<lambda>_. [tlp_zero, tlp_zero])\<rparr>"
  have "fst (batch_await_suspend 100 ?a ?e)"
    by (simp add: batch_await_suspend_def engine_new_def Let_def word_le_nat_alt)
  then obtain a' e where s: "batch_await_suspend 100 ?a ?e = (True, a', e)" by (metis (full_types) prod.collapse)
  from stream_batch_delivers [OF s, of 1 2
      "[make_ctf Telemetry 0 [1] 0 DmaStream, make_ctf Telemetry 0 [2] 0 DmaStream]"] s
  show ?thesis by (simp add: make_ctf_def)
qed

text \<open>
  A stream packet on a channel numbered 8 or above, such as the GPIO bridge, is dropped without
  being counted: the engine state, its drop counters included, does not change and nobody is woken.
\<close>

theorem high_channel_stream_dropped_uncounted:
  assumes "wtype t = tlp_type_code DmaStream" and "wchannel t \<ge> 8"
  shows "rx_one t (e, ps) = (e, ps) \<and> stream_drops (wchannel t) e = (0, 0)"
  using assms by (auto simp: rx_one_def stream_arrived_def stream_drops_def Let_def not_less)

theorem high_channel_stream_dropped_uncounted_witness:
  "rx_one (make_ctf GpioBridge 0 [1] 0 DmaStream) (engine_new, []) = (engine_new, [])"
  using high_channel_stream_dropped_uncounted [of "make_ctf GpioBridge 0 [1] 0 DmaStream" engine_new "[]"]
  by (simp add: make_ctf_def)

text \<open>
  Awaiting a batch with an empty buffer withdraws somebody else's wait: the awaiter is ready at
  once, but its destructor compares null storage pointers, finds them equal to the cleared batch slot
  of a plain stream wait on the same channel, and removes that waiting coroutine.
\<close>

theorem empty_batch_withdraws_stream_waiter:
  assumes "stream_await_suspend ch coro e0 = (True, sa, e)" and "ba_channel a = ch" and "ba_out a = (0, 0)"
  shows "batch_await_ready a \<and> ce_stream_awaiters (batch_awaiter_destroy a e) ch = null_handle"
  using assms
  by (auto simp: batch_await_ready_def batch_awaiter_destroy_def stream_await_suspend_def
      register_stream_awaiter_def Let_def not_le split: if_splits)

theorem empty_batch_withdraws_stream_waiter_witness:
  "\<exists>sa e. stream_await_suspend 2 100 engine_new = (True, sa, e) \<and>
    ce_stream_awaiters (batch_awaiter_destroy \<lparr>ba_out = (0, 0), ba_min_count = 1, ba_channel = 2, ba_refused = False\<rparr> e) 2 = 0"
proof -
  have "fst (stream_await_suspend 2 100 engine_new)"
    by (simp add: stream_await_suspend_def engine_new_def word_le_nat_alt)
  then obtain sa e where s: "stream_await_suspend 2 100 engine_new = (True, sa, e)" by (metis (full_types) prod.collapse)
  from empty_batch_withdraws_stream_waiter [OF s,
      of "\<lparr>ba_out = (0, 0), ba_min_count = 1, ba_channel = 2, ba_refused = False\<rparr>"] s
  show ?thesis by simp
qed

text \<open>
  A tag can be given away before the coroutine it completed has run: the response to a request
  frees the tag, and if the next allocation returns the same tag, the first coroutine reads back an
  empty packet instead of its response, and destroying its awaiter removes the waiter of the second
  request.
\<close>

theorem tag_reuse_before_resume:
  assumes "pr_active (ce_pending e (ra_tag a))" and "answers (ra_tag a) c" and "ra_tag a \<noteq> 0"
    and "\<not> ra_refused a"
    and "fst (allocate_tag (fst (rx_one c (e, ps)))) = ra_tag a"
  shows "request_await_resume a (register_awaiter (ra_tag a) addr coro2 (snd (allocate_tag (fst (rx_one c (e, ps)))))) = tlp_zero \<and>
    pr_awaiting_coro (ce_pending (request_awaiter_destroy a
      (register_awaiter (ra_tag a) addr coro2 (snd (allocate_tag (fst (rx_one c (e, ps))))))) (ra_tag a)) = null_handle"
proof -
  have "snd (allocate_tag (fst (rx_one c (e, ps)))) = mark_allocated (ra_tag a) (fst (rx_one c (e, ps)))"
    using allocate_tag_active [of "fst (rx_one c (e, ps))"] assms(3,5) by (metis prod.collapse)
  then show ?thesis using assms(3,4)
    by (simp add: request_await_resume_def request_awaiter_destroy_def register_awaiter_def mark_allocated_def
        del: rx_one_simps)
qed

text \<open>An engine with all tags outstanding, where only the answered tag 5 becomes free.\<close>

definition engine_busy :: tag_engine where
  "engine_busy = engine_new\<lparr>ce_pending := (\<lambda>_. \<lparr>pr_active = True, pr_target_addr = 0,
     pr_awaiting_coro = 100, pr_response_tlp = tlp_zero\<rparr>)\<rparr>"

theorem tag_reuse_before_resume_witness:
  "request_await_resume \<lparr>ra_tag = 5, ra_refused = False\<rparr> (register_awaiter 5 0 200
     (snd (allocate_tag (fst (rx_one (make_cpl_d 5 42 Telemetry) (engine_busy, [])))))) = tlp_zero"
proof -
  let ?c = "make_cpl_d 5 42 Telemetry" and ?a = "\<lparr>ra_tag = 5, ra_refused = False\<rparr>"
  have ans: "answers 5 ?c" by (simp add: answers_def make_cpl_d_def make_completion_data_def)
  have act: "pr_active (ce_pending (fst (rx_one ?c (engine_busy, []))) t) \<longleftrightarrow> t \<noteq> 5" for t
    by (simp add: make_cpl_d_def make_completion_data_def completion_arrived_def engine_busy_def engine_new_def)
  have "fst (allocate_tag (fst (rx_one ?c (engine_busy, [])))) = 5"
    by (rule allocate_tag_cases [of "fst (rx_one ?c (engine_busy, []))"])
      (auto simp: act simp del: rx_one_simps dest: spec [of _ 5])
  with tag_reuse_before_resume [of engine_busy ?a ?c "[]" 0 200] ans show ?thesis
    by (simp add: engine_busy_def del: rx_one_simps)
qed

end
