(* ===== verification/Async_Driver.thy ===== *)
theory Async_Driver
  imports Dispatcher
begin

text \<open>
  The split-queue driver base of \<open>include/abstractx/hal/async_driver.hpp\<close> and the cancellation of a
  request in \<open>src/cancel.cpp\<close>. A request names its awaiter's state word and result slot by address
  (0 is null). The request queue is the library queue \<open>Q\<close>. Handing a request to the hardware
  (\<open>start_hardware_transfer_from_isr\<close>) is recorded in \<open>ad_started\<close>; \<open>can_abort\<close> says whether the
  concrete driver's \<open>abort_active_from_isr\<close> stops the running transfer. \<open>finished\<close> is
  \<open>coro_handle.done()\<close>. Completions return the handles they post.
\<close>

definition kReqIdle :: u8 where "kReqIdle = 0"
definition kReqPending :: u8 where "kReqPending = 1"
definition kReqAbandoned :: u8 where "kReqAbandoned = 2"
definition kReqDone :: u8 where "kReqDone = 3"

lemmas req_state_defs = kReqIdle_def kReqPending_def kReqAbandoned_def kReqDone_def

record request =
  rq_id :: nat
  rq_callback :: bool
  rq_coro_handle :: handle
  rq_result_slot :: nat
  rq_state :: nat

record ('q, 'r) driver =
  ad_input_queue :: 'q
  ad_hardware_busy :: bool
  ad_active_state :: nat
  ad_started :: "request list"
  ad_words :: "nat \<Rightarrow> u8"
  ad_slots :: "nat \<Rightarrow> 'r option"
  ad_callbacks :: "(nat \<times> 'r) list"

section \<open>Request state and completion\<close>

definition arm :: "nat \<Rightarrow> ('q, 'r) driver \<Rightarrow> ('q, 'r) driver" where
  "arm st d = d\<lparr>ad_words := (ad_words d)(st := kReqPending)\<rparr>"

definition disarm :: "nat \<Rightarrow> ('q, 'r) driver \<Rightarrow> ('q, 'r) driver" where
  "disarm st d = d\<lparr>ad_words := (ad_words d)(st := kReqIdle)\<rparr>"

definition abandoned :: "request \<Rightarrow> ('q, 'r) driver \<Rightarrow> bool" where
  "abandoned r d \<longleftrightarrow> rq_state r \<noteq> 0 \<and> ad_words d (rq_state r) = kReqAbandoned"

definition complete :: "(handle \<Rightarrow> bool) \<Rightarrow> request \<Rightarrow> 'r \<Rightarrow> ('q, 'r) driver \<Rightarrow> ('q, 'r) driver \<times> handle list" where
  "complete finished r res d =
    (let d = (if \<not> abandoned r d \<and> rq_callback r
              then d\<lparr>ad_callbacks := ad_callbacks d @ [(rq_id r, res)]\<rparr> else d) in
     if abandoned r d then (d\<lparr>ad_words := (ad_words d)(rq_state r := kReqDone)\<rparr>, [])
     else let d = (if rq_result_slot r \<noteq> 0
                   then d\<lparr>ad_slots := (ad_slots d)(rq_result_slot r := Some res)\<rparr> else d);
              posts = (if rq_coro_handle r \<noteq> null_handle \<and> \<not> finished (rq_coro_handle r)
                       then [rq_coro_handle r] else []);
              d = (if rq_state r \<noteq> 0 then d\<lparr>ad_words := (ad_words d)(rq_state r := kReqDone)\<rparr> else d)
          in (d, posts))"

section \<open>Starting transfers\<close>

definition start_transfer :: "request \<Rightarrow> ('q, 'r) driver \<Rightarrow> ('q, 'r) driver" where
  "start_transfer r d = d\<lparr>ad_hardware_busy := True, ad_active_state := rq_state r,
     ad_started := ad_started d @ [r]\<rparr>"

definition pop_next_request_from_isr :: "bool \<Rightarrow> (request, 'q) etl_queue \<Rightarrow> 'q \<Rightarrow> request option \<times> 'q" where
  "pop_next_request_from_isr locked_isr_paths Q q =
    (if locked_isr_paths then q_pop Q q else q_pop_from_isr Q q)"

definition start_next_from_isr ::
    "bool \<Rightarrow> (request, 'q) etl_queue \<Rightarrow> ('q, 'r) driver \<Rightarrow> ('q, 'r) driver" where
  "start_next_from_isr locked Q d =
    (let d = d\<lparr>ad_hardware_busy := False, ad_active_state := 0\<rparr> in
     case pop_next_request_from_isr locked Q (ad_input_queue d) of
       (None, q) \<Rightarrow> d\<lparr>ad_input_queue := q\<rparr>
     | (Some r, q) \<Rightarrow> start_transfer r (d\<lparr>ad_input_queue := q\<rparr>))"

definition set_hardware_idle_from_isr ::
    "bool \<Rightarrow> (request, 'q) etl_queue \<Rightarrow> ('q, 'r) driver \<Rightarrow> ('q, 'r) driver" where
  "set_hardware_idle_from_isr locked Q d = start_next_from_isr locked Q d"

definition check_and_start_hardware_if_idle ::
    "(request, 'q) etl_queue \<Rightarrow> ('q, 'r) driver \<Rightarrow> ('q, 'r) driver" where
  "check_and_start_hardware_if_idle Q d =
    (if ad_hardware_busy d then d
     else case q_pop_from_isr Q (ad_input_queue d) of
       (None, q) \<Rightarrow> d\<lparr>ad_input_queue := q\<rparr>
     | (Some r, q) \<Rightarrow> start_transfer r (d\<lparr>ad_input_queue := q\<rparr>))"

definition submit_request ::
    "(request, 'q) etl_queue \<Rightarrow> request \<Rightarrow> ('q, 'r) driver \<Rightarrow> bool \<times> ('q, 'r) driver" where
  "submit_request Q r d =
    (if \<not> ad_hardware_busy d \<and> q_empty Q (ad_input_queue d) then (True, start_transfer r d)
     else let (pushed, q) = q_push Q r (ad_input_queue d); d = d\<lparr>ad_input_queue := q\<rparr>
          in (pushed, if pushed then check_and_start_hardware_if_idle Q d else d))"

section \<open>Cancelling\<close>

fun cancel_loop :: "(request, 'q) etl_queue \<Rightarrow> nat \<Rightarrow> bool \<Rightarrow> nat \<Rightarrow> 'q \<Rightarrow> bool \<times> 'q" where
  "cancel_loop Q st removed 0 q = (removed, q)"
| "cancel_loop Q st removed (Suc n) q =
    (case q_pop_from_isr Q q of
       (None, q) \<Rightarrow> (removed, q)
     | (Some r, q) \<Rightarrow> if \<not> removed \<and> rq_state r = st then cancel_loop Q st True n q
                     else cancel_loop Q st removed n (snd (q_push_from_isr Q r q)))"

text \<open>
  \<open>abort_active_from_isr\<close> of a driver that can abort: stop the running transfer and complete it with
  the cancelled result; the default cannot.
\<close>

definition abort_active_from_isr :: "bool \<Rightarrow> (handle \<Rightarrow> bool) \<Rightarrow> 'r \<Rightarrow> ('q, 'r) driver \<Rightarrow>
    bool \<times> ('q, 'r) driver \<times> handle list" where
  "abort_active_from_isr can_abort finished cancelled d =
    (if can_abort \<and> ad_started d \<noteq> []
     then let (d, posts) = complete finished (last (ad_started d)) cancelled d in (True, d, posts)
     else (False, d, []))"

definition cancel_request :: "bool \<Rightarrow> bool \<Rightarrow> (handle \<Rightarrow> bool) \<Rightarrow> 'r \<Rightarrow> (request, 'q) etl_queue \<Rightarrow> nat \<Rightarrow>
    ('q, 'r) driver \<Rightarrow> bool \<times> ('q, 'r) driver \<times> handle list" where
  "cancel_request locked can_abort finished cancelled Q st d =
    (let (removed, q) = cancel_loop Q st False (q_size Q (ad_input_queue d)) (ad_input_queue d);
         d = d\<lparr>ad_input_queue := q\<rparr> in
     if removed then (True, d\<lparr>ad_words := (ad_words d)(st := kReqDone)\<rparr>, [])
     else if ad_hardware_busy d \<and> ad_active_state d = st then
       (let (ok, d, posts) = abort_active_from_isr can_abort finished cancelled d in
        if ok then let d = start_next_from_isr locked Q d in (ad_words d st = kReqDone, d, posts)
        else (False, d, posts))
     else (False, d, []))"

text \<open>\<open>cancel_pending\<close> pops and completes until the queue is empty.\<close>

definition cancel_one :: "(handle \<Rightarrow> bool) \<Rightarrow> 'r \<Rightarrow> request \<Rightarrow> ('q, 'r) driver \<times> handle list \<Rightarrow>
    ('q, 'r) driver \<times> handle list" where
  "cancel_one finished cancelled r = (\<lambda>(d, posts).
     let (d, ps) = complete finished r cancelled d in (d, posts @ ps))"

definition cancel_pending :: "(handle \<Rightarrow> bool) \<Rightarrow> 'r \<Rightarrow> (request, 'q) etl_queue \<Rightarrow> ('q, 'r) driver \<Rightarrow>
    (nat \<times> ('q, 'r) driver \<times> handle list) option" where
  "cancel_pending finished cancelled Q d =
    (case drain_loop (q_pop_from_isr Q) (cancel_one finished cancelled) 0 (ad_input_queue d) (d, []) of
       None \<Rightarrow> None
     | Some (n, q, (d, posts)) \<Rightarrow> Some (n, d\<lparr>ad_input_queue := q\<rparr>, posts))"

definition cancel_active :: "bool \<Rightarrow> bool \<Rightarrow> (handle \<Rightarrow> bool) \<Rightarrow> 'r \<Rightarrow> (request, 'q) etl_queue \<Rightarrow>
    ('q, 'r) driver \<Rightarrow> bool \<times> ('q, 'r) driver \<times> handle list" where
  "cancel_active locked can_abort finished cancelled Q d =
    (if \<not> ad_hardware_busy d then (False, d, [])
     else let (ok, d, posts) = abort_active_from_isr can_abort finished cancelled d
          in if ok then (True, start_next_from_isr locked Q d, posts) else (False, d, posts))"

definition reset_queues :: "bool \<Rightarrow> bool \<Rightarrow> (handle \<Rightarrow> bool) \<Rightarrow> 'r \<Rightarrow> (request, 'q) etl_queue \<Rightarrow>
    ('q, 'r) driver \<Rightarrow> (('q, 'r) driver \<times> handle list) option" where
  "reset_queues locked can_abort finished cancelled Q d =
    (case cancel_pending finished cancelled Q d of
       None \<Rightarrow> None
     | Some (_, d, posts) \<Rightarrow>
        let (_, d, ps) = cancel_active locked can_abort finished cancelled Q d in Some (d, posts @ ps))"

text \<open>
  The bounded wait of \<open>abandon_request\<close>. Each observation is the state word read and whether the
  clock or the spin count has expired by then; the loop returns on Done and traps on expiry.
\<close>

datatype wait_outcome = Returned | Trapped | Waiting

fun wait_done :: "(u8 \<times> bool) list \<Rightarrow> wait_outcome" where
  "wait_done [] = Waiting"
| "wait_done ((w, expired) # obs) = (if w = kReqDone then Returned else if expired then Trapped else wait_done obs)"

definition abandon_request :: "bool \<Rightarrow> bool \<Rightarrow> (handle \<Rightarrow> bool) \<Rightarrow> 'r \<Rightarrow> (request, 'q) etl_queue \<Rightarrow> nat \<Rightarrow>
    (u8 \<times> bool) list \<Rightarrow> ('q, 'r) driver \<Rightarrow> wait_outcome \<times> ('q, 'r) driver \<times> handle list" where
  "abandon_request locked can_abort finished cancelled Q st obs d =
    (if ad_words d st \<noteq> kReqPending then (Returned, d, [])
     else let d = d\<lparr>ad_words := (ad_words d)(st := kReqAbandoned)\<rparr>;
              (ok, d, posts) = cancel_request locked can_abort finished cancelled Q st d
          in (if ok then Returned else wait_done obs, d, posts))"

section \<open>Submitting against a completing interrupt\<close>

text \<open>
  \<open>submit_request\<close> is three critical sections: the direct start, the push, and the check that starts
  the hardware if it went idle in between. The hardware completion interrupt may run between any two.
  \<open>dr_accepted\<close> records the requests the driver has taken.
\<close>

datatype submit_pc = S_idle | S_push request | S_check

record ('q, 'r) driver_run =
  dr_d :: "('q, 'r) driver"
  dr_pc :: submit_pc
  dr_accepted :: "request list"

inductive driver_step :: "bool \<Rightarrow> (request, 'q) etl_queue \<Rightarrow> ('q, 'r) driver_run \<Rightarrow> ('q, 'r) driver_run \<Rightarrow> bool"
  for locked Q where
  submit_direct: "dr_pc s = S_idle \<Longrightarrow> \<not> ad_hardware_busy (dr_d s) \<Longrightarrow> q_empty Q (ad_input_queue (dr_d s)) \<Longrightarrow>
    driver_step locked Q s (s\<lparr>dr_d := start_transfer r (dr_d s), dr_accepted := dr_accepted s @ [r]\<rparr>)"
| submit_queued: "dr_pc s = S_idle \<Longrightarrow> ad_hardware_busy (dr_d s) \<or> \<not> q_empty Q (ad_input_queue (dr_d s)) \<Longrightarrow>
    driver_step locked Q s (s\<lparr>dr_pc := S_push r\<rparr>)"
| submit_pushed: "dr_pc s = S_push r \<Longrightarrow> q_push Q r (ad_input_queue (dr_d s)) = (True, q) \<Longrightarrow>
    driver_step locked Q s (s\<lparr>dr_pc := S_check, dr_d := (dr_d s)\<lparr>ad_input_queue := q\<rparr>,
      dr_accepted := dr_accepted s @ [r]\<rparr>)"
| submit_refused: "dr_pc s = S_push r \<Longrightarrow> q_push Q r (ad_input_queue (dr_d s)) = (False, q) \<Longrightarrow>
    driver_step locked Q s (s\<lparr>dr_pc := S_idle, dr_d := (dr_d s)\<lparr>ad_input_queue := q\<rparr>\<rparr>)"
| submit_checked: "dr_pc s = S_check \<Longrightarrow>
    driver_step locked Q s (s\<lparr>dr_pc := S_idle, dr_d := check_and_start_hardware_if_idle Q (dr_d s)\<rparr>)"
| transfer_done: "ad_hardware_busy (dr_d s) \<Longrightarrow>
    driver_step locked Q s (s\<lparr>dr_d := set_hardware_idle_from_isr locked Q (dr_d s)\<rparr>)"

definition driver_inv :: "('q \<Rightarrow> bool) \<Rightarrow> ('q \<Rightarrow> request list) \<Rightarrow> ('q, 'r) driver_run \<Rightarrow> bool" where
  "driver_inv I contents s \<longleftrightarrow> I (ad_input_queue (dr_d s)) \<and>
     ad_started (dr_d s) @ contents (ad_input_queue (dr_d s)) = dr_accepted s \<and>
     (\<not> ad_hardware_busy (dr_d s) \<and> dr_pc s \<noteq> S_check \<longrightarrow> contents (ad_input_queue (dr_d s)) = [])"

lemma etl_empty_iff: "etl_queue_laws I contents cap Q \<Longrightarrow> I q \<Longrightarrow> q_empty Q q \<longleftrightarrow> contents q = []"
  unfolding etl_queue_laws_def by blast

text \<open>Popping and starting the next request, in the two places that do it.\<close>

lemma start_next_spec:
  assumes laws: "etl_queue_laws I contents cap Q" and I: "I (ad_input_queue d)"
  shows "I (ad_input_queue (start_next_from_isr locked Q d)) \<and>
    ad_started (start_next_from_isr locked Q d) @ contents (ad_input_queue (start_next_from_isr locked Q d)) =
      ad_started d @ contents (ad_input_queue d) \<and>
    (\<not> ad_hardware_busy (start_next_from_isr locked Q d) \<longrightarrow>
      contents (ad_input_queue (start_next_from_isr locked Q d)) = [])"
proof (cases "contents (ad_input_queue d)")
  case Nil
  from etl_pop_Nil [OF laws I Nil] obtain q where
    "q_pop Q (ad_input_queue d) = (None, q)" "q_pop_from_isr Q (ad_input_queue d) = (None, q)" "I q" "contents q = []" .
  then show ?thesis using Nil
    by (simp add: start_next_from_isr_def pop_next_request_from_isr_def Let_def)
next
  case (Cons r rs)
  from etl_pop_Cons [OF laws I Cons] obtain q where
    "q_pop Q (ad_input_queue d) = (Some r, q)" "q_pop_from_isr Q (ad_input_queue d) = (Some r, q)" "I q" "contents q = rs" .
  then show ?thesis using Cons
    by (simp add: start_next_from_isr_def pop_next_request_from_isr_def Let_def start_transfer_def)
qed

lemma check_and_start_spec:
  assumes laws: "etl_queue_laws I contents cap Q" and I: "I (ad_input_queue d)" and idle: "\<not> ad_hardware_busy d"
  shows "I (ad_input_queue (check_and_start_hardware_if_idle Q d)) \<and>
    ad_started (check_and_start_hardware_if_idle Q d) @ contents (ad_input_queue (check_and_start_hardware_if_idle Q d)) =
      ad_started d @ contents (ad_input_queue d) \<and>
    (\<not> ad_hardware_busy (check_and_start_hardware_if_idle Q d) \<longrightarrow>
      contents (ad_input_queue (check_and_start_hardware_if_idle Q d)) = [])"
proof (cases "contents (ad_input_queue d)")
  case Nil
  from etl_pop_Nil [OF laws I Nil] obtain q where
    "q_pop_from_isr Q (ad_input_queue d) = (None, q)" "I q" "contents q = []" by metis
  then show ?thesis using Nil idle by (simp add: check_and_start_hardware_if_idle_def)
next
  case (Cons r rs)
  from etl_pop_Cons [OF laws I Cons] obtain q where
    "q_pop_from_isr Q (ad_input_queue d) = (Some r, q)" "I q" "contents q = rs" by metis
  then show ?thesis using Cons idle by (simp add: check_and_start_hardware_if_idle_def start_transfer_def)
qed

lemma driver_inv_step:
  assumes laws: "etl_queue_laws I contents cap Q"
  shows "driver_step locked Q s s' \<Longrightarrow> driver_inv I contents s \<Longrightarrow> driver_inv I contents s'"
proof (induction rule: driver_step.induct)
  case (submit_direct s r)
  then show ?case using etl_empty_iff [OF laws] by (auto simp: driver_inv_def start_transfer_def)
next
  case (submit_queued s r)
  then show ?case using etl_empty_iff [OF laws] by (auto simp: driver_inv_def)
next
  case (submit_pushed s r q)
  have I: "I (ad_input_queue (dr_d s))" using submit_pushed(3) by (simp add: driver_inv_def)
  have "length (contents (ad_input_queue (dr_d s))) < cap"
    by (rule ccontr, rule etl_push_full [OF laws I, of r]) (use submit_pushed(2) in auto)
  then obtain q' where "q_push Q r (ad_input_queue (dr_d s)) = (True, q')" "I q'"
    "contents q' = contents (ad_input_queue (dr_d s)) @ [r]" using etl_push_room [OF laws I] by metis
  then show ?case using submit_pushed by (auto simp: driver_inv_def)
next
  case (submit_refused s r q)
  have I: "I (ad_input_queue (dr_d s))" using submit_refused(3) by (simp add: driver_inv_def)
  have "\<not> length (contents (ad_input_queue (dr_d s))) < cap"
  proof
    assume "length (contents (ad_input_queue (dr_d s))) < cap"
    then show False by (rule etl_push_room [OF laws I, of r]) (use submit_refused(2) in auto)
  qed
  then obtain q' where "q_push Q r (ad_input_queue (dr_d s)) = (False, q')" "I q'"
    "contents q' = contents (ad_input_queue (dr_d s))" using etl_push_full [OF laws I] by metis
  then show ?case using submit_refused by (auto simp: driver_inv_def)
next
  case (submit_checked s)
  then show ?case
  proof (cases "ad_hardware_busy (dr_d s)")
    case True
    then show ?thesis using submit_checked by (auto simp: driver_inv_def check_and_start_hardware_if_idle_def)
  next
    case False
    then show ?thesis using submit_checked check_and_start_spec [OF laws _ False]
      by (auto simp: driver_inv_def)
  qed
next
  case (transfer_done s)
  then show ?case using start_next_spec [OF laws, of "dr_d s" locked]
    by (auto simp: driver_inv_def set_hardware_idle_from_isr_def)
qed

lemma driver_inv_reachable:
  assumes "etl_queue_laws I contents cap Q"
  shows "(driver_step locked Q)\<^sup>*\<^sup>* s s' \<Longrightarrow> driver_inv I contents s \<Longrightarrow> driver_inv I contents s'"
  by (induction rule: rtranclp_induct) (auto intro: driver_inv_step [OF assms])

section \<open>Withdrawing a queued request\<close>

lemma cancel_loop_spec:
  assumes laws: "etl_queue_laws I contents cap Q"
  shows "I q \<Longrightarrow> contents q = xs @ ys \<Longrightarrow> length xs = n \<Longrightarrow>
    fst (cancel_loop Q st removed n q) = (removed \<or> st \<in> rq_state ` set xs) \<and>
    I (snd (cancel_loop Q st removed n q)) \<and>
    contents (snd (cancel_loop Q st removed n q)) = ys @
      (if removed then xs
       else takeWhile (\<lambda>r. rq_state r \<noteq> st) xs @ tl (dropWhile (\<lambda>r. rq_state r \<noteq> st) xs))"
proof (induction n arbitrary: q xs ys removed)
  case 0
  then show ?case by simp
next
  case (Suc n)
  then obtain x xs' where xs: "xs = x # xs'" "length xs' = n" by (cases xs) auto
  have "contents q = x # (xs' @ ys)" using Suc.prems(2) xs by simp
  from etl_pop_Cons [OF laws Suc.prems(1) this] obtain q1 where q1:
    "q_pop_from_isr Q q = (Some x, q1)" "I q1" "contents q1 = xs' @ ys" by metis
  show ?case
  proof (cases "\<not> removed \<and> rq_state x = st")
    case True
    then show ?thesis using Suc.IH [OF q1(2,3) xs(2), of True] q1(1) xs(1) by auto
  next
    case False
    have "length (contents q1) < cap"
      using etl_le_cap [OF laws Suc.prems(1)] Suc.prems(2) xs q1(3) by simp
    from etl_push_room [OF laws q1(2) this, of x] obtain q2 where
      "q_push_from_isr Q x q1 = (True, q2)" "I q2" "contents q2 = xs' @ (ys @ [x])" using q1(3) by auto
    then show ?thesis using Suc.IH [of q2 xs' "ys @ [x]" removed] q1(1) xs False by auto
  qed
qed

section \<open>Completing every queued request\<close>

lemma complete_frame [simp]:
  "ad_input_queue (fst (complete finished r res d)) = ad_input_queue d"
  "ad_hardware_busy (fst (complete finished r res d)) = ad_hardware_busy d"
  "ad_active_state (fst (complete finished r res d)) = ad_active_state d"
  "ad_started (fst (complete finished r res d)) = ad_started d"
  by (simp_all add: complete_def Let_def)

lemma complete_words:
  "ad_words (fst (complete finished r res d)) =
    (if rq_state r \<noteq> 0 then (ad_words d)(rq_state r := kReqDone) else ad_words d)"
  by (auto simp: complete_def Let_def abandoned_def)

text \<open>The requests of a queue whose coroutines a completion resumes.\<close>

definition resumable :: "(handle \<Rightarrow> bool) \<Rightarrow> ('q, 'r) driver \<Rightarrow> request \<Rightarrow> bool" where
  "resumable finished d r \<longleftrightarrow>
    \<not> abandoned r d \<and> rq_coro_handle r \<noteq> null_handle \<and> \<not> finished (rq_coro_handle r)"

lemma complete_posts:
  "snd (complete finished r res d) = (if resumable finished d r then [rq_coro_handle r] else [])"
  by (auto simp: complete_def Let_def abandoned_def resumable_def)

definition own_states :: "request list \<Rightarrow> nat list" where
  "own_states rs = filter (\<lambda>s. s \<noteq> 0) (map rq_state rs)"

lemma resumable_complete:
  "rq_state r' = 0 \<or> rq_state r' \<noteq> rq_state r \<Longrightarrow>
    resumable finished (fst (complete finished r res d)) r' = resumable finished d r'"
  by (auto simp: resumable_def abandoned_def complete_words)

lemma fold_cancel_one:
  "distinct (own_states rs) \<Longrightarrow>
    ad_input_queue (fst (fold (cancel_one finished res) rs (d, ps))) = ad_input_queue d \<and>
    ad_hardware_busy (fst (fold (cancel_one finished res) rs (d, ps))) = ad_hardware_busy d \<and>
    ad_started (fst (fold (cancel_one finished res) rs (d, ps))) = ad_started d \<and>
    snd (fold (cancel_one finished res) rs (d, ps)) =
      ps @ map rq_coro_handle (filter (resumable finished d) rs) \<and>
    ad_words (fst (fold (cancel_one finished res) rs (d, ps))) =
      (\<lambda>s. if s \<in> set (own_states rs) then kReqDone else ad_words d s)"
proof (induction rs arbitrary: d ps)
  case Nil
  then show ?case by (simp add: own_states_def)
next
  case (Cons r rs)
  let ?d = "fst (complete finished r res d)"
  have one: "cancel_one finished res r (d, ps) = (?d, ps @ snd (complete finished r res d))"
    by (simp add: cancel_one_def split: prod.split)
  have "\<forall>r' \<in> set rs. rq_state r' = 0 \<or> rq_state r' \<noteq> rq_state r"
    using Cons.prems by (auto simp: own_states_def image_iff split: if_splits)
  then have "filter (resumable finished ?d) rs = filter (resumable finished d) rs"
    by (intro filter_cong) (auto simp: resumable_complete)
  moreover have "distinct (own_states rs)" using Cons.prems by (auto simp: own_states_def split: if_splits)
  ultimately show ?case
    using Cons.IH [of ?d "ps @ snd (complete finished r res d)"]
    by (auto simp: one complete_posts complete_words own_states_def fun_eq_iff)
qed

lemma etl_isr_fifo:
  assumes "etl_queue_laws I contents cap Q" "I q"
  shows "\<exists>q'. drain_loop (q_pop_from_isr Q) h n q hs = Some (n + length (contents q), q', fold h (contents q) hs) \<and>
    I q' \<and> contents q' = []"
  using assms(2)
proof (induction "contents q" arbitrary: q n hs)
  case Nil
  from etl_pop_Nil [OF assms(1) Nil(2) Nil(1)[symmetric]] obtain q' where
    "q_pop_from_isr Q q = (None, q')" "I q'" "contents q' = []" by metis
  then show ?case using Nil(1) by (subst drain_loop.simps) auto
next
  case (Cons x xs)
  from etl_pop_Cons [OF assms(1) Cons(3) Cons(2)[symmetric]] obtain q' where
    q': "q_pop_from_isr Q q = (Some x, q')" "I q'" "contents q' = xs" by metis
  from Cons(1) [of q' "Suc n" "h x hs"] q'(2,3) obtain q2 where
    "drain_loop (q_pop_from_isr Q) h (Suc n) q' (h x hs) = Some (Suc n + length xs, q2, fold h xs (h x hs))"
    "I q2" "contents q2 = []" by auto
  then show ?case using q' Cons(2)[symmetric] by (subst drain_loop.simps) auto
qed

section \<open>Properties of the driver base\<close>

text \<open>A driver as constructed, over an empty queue.\<close>

definition fresh_driver :: "'q \<Rightarrow> ('q, 'r) driver" where
  "fresh_driver q = \<lparr>ad_input_queue = q, ad_hardware_busy = False, ad_active_state = 0, ad_started = [],
     ad_words = (\<lambda>_. kReqIdle), ad_slots = (\<lambda>_. None), ad_callbacks = []\<rparr>"

definition fresh_run :: "'q \<Rightarrow> ('q, 'r) driver_run" where
  "fresh_run q = \<lparr>dr_d = fresh_driver q, dr_pc = S_idle, dr_accepted = []\<rparr>"

lemma fresh_run_inv: "I q \<Longrightarrow> contents q = [] \<Longrightarrow> driver_inv I contents (fresh_run q)"
  by (simp add: driver_inv_def fresh_run_def fresh_driver_def)

lemma completions_start_all:
  assumes laws: "etl_queue_laws I contents cap Q"
  shows "I (ad_input_queue d) \<Longrightarrow> length (contents (ad_input_queue d)) = n \<Longrightarrow>
    ad_started ((set_hardware_idle_from_isr locked Q ^^ n) d) = ad_started d @ contents (ad_input_queue d)"
proof (induction n arbitrary: d)
  case 0
  then show ?case by simp
next
  case (Suc n)
  then obtain r rs where rs: "contents (ad_input_queue d) = r # rs" "length rs = n"
    by (cases "contents (ad_input_queue d)") auto
  from etl_pop_Cons [OF laws Suc.prems(1) rs(1)] obtain q where
    "q_pop Q (ad_input_queue d) = (Some r, q)" "q_pop_from_isr Q (ad_input_queue d) = (Some r, q)" "I q" "contents q = rs" .
  moreover from this have "set_hardware_idle_from_isr locked Q d =
      start_transfer r (d\<lparr>ad_hardware_busy := False, ad_active_state := 0, ad_input_queue := q\<rparr>)"
    by (simp add: set_hardware_idle_from_isr_def start_next_from_isr_def pop_next_request_from_isr_def Let_def)
  ultimately show ?case
    using Suc.IH [of "set_hardware_idle_from_isr locked Q d"] rs
    by (simp add: funpow_Suc_right del: funpow.simps) (simp add: start_transfer_def)
qed

text \<open>An uninterrupted \<open>submit_request\<close> is a run of these steps.\<close>

lemma submit_request_steps:
  assumes "dr_pc s = S_idle"
  shows "\<exists>s'. (driver_step locked Q)\<^sup>*\<^sup>* s s' \<and> dr_pc s' = S_idle \<and> dr_d s' = snd (submit_request Q r (dr_d s)) \<and>
    dr_accepted s' = dr_accepted s @ (if fst (submit_request Q r (dr_d s)) then [r] else [])"
proof (cases "\<not> ad_hardware_busy (dr_d s) \<and> q_empty Q (ad_input_queue (dr_d s))")
  case True
  let ?s1 = "s\<lparr>dr_d := start_transfer r (dr_d s), dr_accepted := dr_accepted s @ [r]\<rparr>"
  have "driver_step locked Q s ?s1" using submit_direct [of s Q locked r] assms True by simp
  then show ?thesis using True assms by (intro exI [of _ ?s1]) (auto simp: submit_request_def)
next
  case False
  obtain ok q where push: "q_push Q r (ad_input_queue (dr_d s)) = (ok, q)" by fastforce
  let ?s1 = "s\<lparr>dr_pc := S_push r\<rparr>"
  have 1: "driver_step locked Q s ?s1" using False assms by (intro submit_queued) auto
  show ?thesis
  proof (cases ok)
    case True
    let ?s2 = "?s1\<lparr>dr_pc := S_check, dr_d := (dr_d ?s1)\<lparr>ad_input_queue := q\<rparr>, dr_accepted := dr_accepted ?s1 @ [r]\<rparr>"
    let ?s3 = "?s2\<lparr>dr_pc := S_idle, dr_d := check_and_start_hardware_if_idle Q (dr_d ?s2)\<rparr>"
    have "driver_step locked Q ?s1 ?s2" using push True by (intro submit_pushed) simp_all
    moreover have "driver_step locked Q ?s2 ?s3" by (intro submit_checked) simp
    ultimately have "(driver_step locked Q)\<^sup>*\<^sup>* s ?s3" using 1 by (meson rtranclp.rtrancl_into_rtrancl rtranclp.rtrancl_refl)
    then show ?thesis using False push True by (intro exI [of _ ?s3]) (auto simp: submit_request_def Let_def)
  next
    case no: False
    let ?s2 = "?s1\<lparr>dr_pc := S_idle, dr_d := (dr_d ?s1)\<lparr>ad_input_queue := q\<rparr>\<rparr>"
    have "driver_step locked Q ?s1 ?s2" using push no by (intro submit_refused) simp_all
    then have "(driver_step locked Q)\<^sup>*\<^sup>* s ?s2" using 1 by (meson rtranclp.rtrancl_into_rtrancl rtranclp.rtrancl_refl)
    then show ?thesis using False push no by (intro exI [of _ ?s2]) (auto simp: submit_request_def Let_def)
  qed
qed

text \<open>
  (C9) Requests reach the hardware in the order the driver accepted them, none lost and none started
  twice, however the completion interrupt falls between the three critical sections of
  \<open>submit_request\<close>. When no submission is under way and the hardware is idle, nothing is queued (no
  request stalls), and as many completion interrupts as there are queued requests start them all. The
  sections are \<open>submit_request\<close>: run without an interrupt they do what it does.
\<close>

theorem driver_serves_in_order:
  assumes laws: "etl_queue_laws I contents cap Q" and q: "I q" "contents q = []"
    and run: "(driver_step locked Q)\<^sup>*\<^sup>* (fresh_run q) s"
  shows "ad_started (dr_d s) @ contents (ad_input_queue (dr_d s)) = dr_accepted s \<and>
    (dr_pc s = S_idle \<and> \<not> ad_hardware_busy (dr_d s) \<longrightarrow> contents (ad_input_queue (dr_d s)) = []) \<and>
    ad_started ((set_hardware_idle_from_isr locked Q ^^ length (contents (ad_input_queue (dr_d s)))) (dr_d s)) =
      dr_accepted s \<and>
    (dr_pc s = S_idle \<longrightarrow> (\<exists>s'. (driver_step locked Q)\<^sup>*\<^sup>* s s' \<and> dr_pc s' = S_idle \<and> dr_d s' = snd (submit_request Q r (dr_d s)) \<and>
      dr_accepted s' = dr_accepted s @ (if fst (submit_request Q r (dr_d s)) then [r] else [])))"
proof -
  have inv: "driver_inv I contents s"
    by (rule driver_inv_reachable [OF laws run fresh_run_inv [of I q contents, OF q]])
  then have I: "I (ad_input_queue (dr_d s))"
    and fifo: "ad_started (dr_d s) @ contents (ad_input_queue (dr_d s)) = dr_accepted s"
    and idle: "\<not> ad_hardware_busy (dr_d s) \<and> dr_pc s \<noteq> S_check \<longrightarrow> contents (ad_input_queue (dr_d s)) = []"
    by (auto simp: driver_inv_def)
  show ?thesis
    using fifo idle completions_start_all [OF laws I refl, of locked] submit_request_steps [of s locked Q r] by simp
qed

definition sample_request :: "nat \<Rightarrow> request" where
  "sample_request n = \<lparr>rq_id = n, rq_callback = False, rq_coro_handle = n, rq_result_slot = 0, rq_state = n\<rparr>"

theorem driver_serves_in_order_witness:
  "\<exists>s :: (request list, nat) driver_run. (driver_step False (list_queue 4))\<^sup>*\<^sup>* (fresh_run []) s \<and>
    dr_accepted s = [sample_request 1, sample_request 2] \<and>
    ad_started (dr_d s) @ ad_input_queue (dr_d s) = [sample_request 1, sample_request 2]"
proof -
  let ?Q = "list_queue 4 :: (request, request list) etl_queue" and ?r = sample_request
  let ?s0 = "fresh_run [] :: (request list, nat) driver_run"
  let ?s1 = "?s0\<lparr>dr_d := start_transfer (?r 1) (dr_d ?s0), dr_accepted := dr_accepted ?s0 @ [?r 1]\<rparr>"
  let ?s2 = "?s1\<lparr>dr_pc := S_push (?r 2)\<rparr>"
  let ?s3 = "?s2\<lparr>dr_pc := S_check, dr_d := (dr_d ?s2)\<lparr>ad_input_queue := [?r 2]\<rparr>,
      dr_accepted := dr_accepted ?s2 @ [?r 2]\<rparr>"
  have "driver_step False ?Q ?s0 ?s1"
    by (rule submit_direct) (simp_all add: fresh_run_def fresh_driver_def list_queue_def)
  moreover have "driver_step False ?Q ?s1 ?s2"
    by (rule submit_queued) (simp_all add: fresh_run_def fresh_driver_def start_transfer_def)
  moreover have "driver_step False ?Q ?s2 ?s3"
    by (rule submit_pushed) (simp_all add: fresh_run_def fresh_driver_def start_transfer_def list_queue_def)
  ultimately have run: "(driver_step False ?Q)\<^sup>*\<^sup>* ?s0 ?s3"
    by (meson rtranclp.rtrancl_into_rtrancl rtranclp.rtrancl_refl)
  have acc: "dr_accepted ?s3 = [?r 1, ?r 2]" by (simp add: fresh_run_def)
  show ?thesis
    using driver_serves_in_order [OF list_queue_laws [of 4], of "[]" False ?s3] run acc
    by (intro exI [of _ ?s3]) auto
qed

text \<open>
  (C10) Destroying an awaiter whose request is still queued (\<open>abandon_request\<close>) takes exactly that
  request out of the queue, keeps the others in order, marks it Done without waiting, and neither
  writes a result, runs a callback nor posts a coroutine.
\<close>

theorem abandon_withdraws_queued:
  assumes laws: "etl_queue_laws I contents cap Q" and I: "I (ad_input_queue d)"
    and queued: "contents (ad_input_queue d) = xs @ r # ys" "rq_state r = st" "st \<notin> rq_state ` set (xs @ ys)"
    and pending: "ad_words d st = kReqPending"
    and out: "abandon_request locked can_abort finished cancelled Q st obs d = (w, d', posts)"
  shows "w = Returned \<and> posts = [] \<and> contents (ad_input_queue d') = xs @ ys \<and>
    ad_words d' = (ad_words d)(st := kReqDone) \<and> ad_slots d' = ad_slots d \<and>
    ad_callbacks d' = ad_callbacks d \<and> ad_started d' = ad_started d"
proof -
  let ?q = "ad_input_queue d"
  obtain b q where loop: "cancel_loop Q st False (q_size Q ?q) ?q = (b, q)" by (cases "cancel_loop Q st False (q_size Q ?q) ?q")
  have "\<forall>x \<in> set xs. rq_state x \<noteq> st" using queued(3) by auto
  then have tw: "takeWhile (\<lambda>r. rq_state r \<noteq> st) (xs @ r # ys) = xs"
    "tl (dropWhile (\<lambda>r. rq_state r \<noteq> st) (xs @ r # ys)) = ys"
    using queued(2) by (simp_all add: takeWhile_append2 dropWhile_append2)
  have "b \<and> contents q = xs @ ys"
    using cancel_loop_spec [OF laws I, of "xs @ r # ys" "[]" "length (xs @ r # ys)" st False] loop queued tw
      etl_size [OF laws I] by auto
  then show ?thesis using out pending loop by (auto simp: abandon_request_def cancel_request_def Let_def)
qed

theorem abandon_withdraws_queued_witness:
  "\<exists>d' :: (request list, nat) driver.
    abandon_request False False (\<lambda>_. False) 0 (list_queue 4) 2 []
      ((fresh_driver [sample_request 1, sample_request 2, sample_request 3])\<lparr>ad_words := (\<lambda>_. kReqPending)\<rparr>) =
      (Returned, d', []) \<and> ad_input_queue d' = [sample_request 1, sample_request 3]"
proof -
  let ?d = "(fresh_driver [sample_request 1, sample_request 2, sample_request 3])\<lparr>ad_words := (\<lambda>_. kReqPending)\<rparr>
    :: (request list, nat) driver"
  obtain w d' posts where out: "abandon_request False False (\<lambda>_. False) 0 (list_queue 4) 2 [] ?d = (w, d', posts)"
    by (metis prod_cases3)
  show ?thesis
    using abandon_withdraws_queued [OF list_queue_laws [of 4], of ?d "[sample_request 1]" "sample_request 2"
        "[sample_request 3]" 2, OF _ _ _ _ _ out] out
    by (simp add: fresh_driver_def sample_request_def)
qed

text \<open>
  \<open>cancel_pending\<close> returns, having completed every queued request exactly once: it counts them,
  empties the queue, resumes in queue order the coroutines of those not abandoned and not finished,
  marks every request state Done and leaves the running transfer alone.
\<close>

theorem cancel_pending_completes_all:
  assumes laws: "etl_queue_laws I contents cap Q" and I: "I (ad_input_queue d)"
    and own: "distinct (own_states (contents (ad_input_queue d)))"
  shows "\<exists>d'. cancel_pending finished cancelled Q d =
      Some (length (contents (ad_input_queue d)), d',
        map rq_coro_handle (filter (resumable finished d) (contents (ad_input_queue d)))) \<and>
    contents (ad_input_queue d') = [] \<and> ad_started d' = ad_started d \<and> ad_hardware_busy d' = ad_hardware_busy d \<and>
    (\<forall>r \<in> set (contents (ad_input_queue d)). rq_state r \<noteq> 0 \<longrightarrow> ad_words d' (rq_state r) = kReqDone) \<and>
    (\<forall>s. s \<notin> rq_state ` set (contents (ad_input_queue d)) \<longrightarrow> ad_words d' s = ad_words d s)"
proof -
  let ?c = "contents (ad_input_queue d)" and ?f = "fold (cancel_one finished cancelled) (contents (ad_input_queue d)) (d, [])"
  obtain q where q: "drain_loop (q_pop_from_isr Q) (cancel_one finished cancelled) 0 (ad_input_queue d) (d, []) =
      Some (length ?c, q, ?f)" "contents q = []"
    using etl_isr_fifo [OF laws I, of "cancel_one finished cancelled" 0 "(d, [])"] by auto
  let ?d = "(fst ?f)\<lparr>ad_input_queue := q\<rparr>"
  note f = fold_cancel_one [OF own, of finished cancelled d "[]"]
  have "cancel_pending finished cancelled Q d = Some (length ?c, ?d, snd ?f)"
    by (simp add: cancel_pending_def q split: prod.split)
  moreover have "\<forall>r \<in> set ?c. rq_state r \<noteq> 0 \<longrightarrow> ad_words ?d (rq_state r) = kReqDone"
    "\<forall>s. s \<notin> rq_state ` set ?c \<longrightarrow> ad_words ?d s = ad_words d s"
    using f by (auto simp: own_states_def)
  ultimately show ?thesis using f q(2) by (intro exI [of _ ?d]) auto
qed

theorem cancel_pending_completes_all_witness:
  "\<exists>d' :: (request list, nat) driver.
    cancel_pending (\<lambda>h. h = 2) 0 (list_queue 4)
      (fresh_driver [sample_request 1, sample_request 2, sample_request 3]) = Some (3, d', [1, 3]) \<and>
    ad_words d' 2 = kReqDone"
proof -
  let ?d = "fresh_driver [sample_request 1, sample_request 2, sample_request 3] :: (request list, nat) driver"
  have "filter (resumable (\<lambda>h. h = 2) ?d) (ad_input_queue ?d) = [sample_request 1, sample_request 3]"
    by (simp add: fresh_driver_def sample_request_def resumable_def abandoned_def req_state_defs)
  then show ?thesis
    using cancel_pending_completes_all [OF list_queue_laws [of 4], of ?d "\<lambda>h. h = 2" 0]
    by (auto simp: fresh_driver_def sample_request_def own_states_def eval_nat_numeral)
qed

end
