(* ===== verification/Bus_Lock.thy ===== *)
theory Bus_Lock
  imports Intrusive_List
begin

text \<open>
  The bus lock of \<open>include/abstractx/hal/bus_lock.hpp\<close>: an owner token and an intrusive queue of
  waiting lock requests and waiting transactions. A waiter is the address of its node; the members
  of all nodes are maps. \<open>bl_run w\<close> says that the node's \<open>run\<close> pointer is set (a transaction), and
  the calls the lock makes outward are returned as a list: a coroutine posted, a transaction
  submitted or cancelled through \<open>run\<close>.
\<close>

datatype bus_out = Post handle | Run_submit nat | Run_cancel nat

record bus_lock =
  bl_list :: ilist
  bl_owner :: u32
  bl_last :: u32
  bl_run :: "nat \<Rightarrow> bool"
  bl_handle :: "nat \<Rightarrow> handle"
  bl_granted :: "nat \<Rightarrow> u32"

definition blocks :: "u32 \<Rightarrow> bus_lock \<Rightarrow> bool" where
  "blocks token b \<longleftrightarrow> bl_owner b \<noteq> 0 \<and> bl_owner b \<noteq> token"

definition held :: "bus_lock \<Rightarrow> bool" where
  "held b \<longleftrightarrow> bl_owner b \<noteq> 0"

definition next_token :: "bus_lock \<Rightarrow> u32 \<times> bus_lock" where
  "next_token b =
    (let l = bl_last b + 1; l = (if l = 0 then l + 1 else l) in (l, b\<lparr>bl_last := l\<rparr>))"

definition try_acquire :: "bus_lock \<Rightarrow> u32 \<times> bus_lock" where
  "try_acquire b =
    (if bl_owner b \<noteq> 0 then (0, b)
     else let (t, b) = next_token b in (t, b\<lparr>bl_owner := t\<rparr>))"

definition bus_wait :: "nat \<Rightarrow> bus_lock \<Rightarrow> bus_lock" where
  "bus_wait w b = b\<lparr>bl_list := il_append w (bl_list b)\<rparr>"

definition bus_pop :: "bus_lock \<Rightarrow> nat \<times> bus_lock" where
  "bus_pop b =
    (let w = il_head (bl_list b) in
     if w \<noteq> 0 then (w, b\<lparr>bl_list := il_pop_front (bl_list b)\<rparr>) else (0, b))"

text \<open>The loop of \<open>release\<close>: submit waiting transactions up to the next lock request.\<close>

partial_function (option) release_loop :: "bus_lock \<Rightarrow> bus_out list \<Rightarrow> (bus_lock \<times> bus_out list) option" where
  "release_loop b out =
    (let (w, b) = bus_pop b in
     if w = 0 then Some (b, out)
     else if \<not> bl_run b w then
       (let (t, b) = next_token b
        in Some (b\<lparr>bl_owner := t, bl_granted := (bl_granted b)(w := t)\<rparr>, out @ [Post (bl_handle b w)]))
     else release_loop b (out @ [Run_submit w]))"

definition bus_release :: "u32 \<Rightarrow> bus_lock \<Rightarrow> (bus_lock \<times> bus_out list) option" where
  "bus_release token b =
    (if token = 0 \<or> token \<noteq> bl_owner b then Some (b, []) else release_loop (b\<lparr>bl_owner := 0\<rparr>) [])"

partial_function (option) cancel_waiters :: "bus_lock \<Rightarrow> bus_out list \<Rightarrow> (bus_lock \<times> bus_out list) option" where
  "cancel_waiters b out =
    (let (w, b) = bus_pop b in
     if w = 0 then Some (b, out)
     else if \<not> bl_run b w then
       cancel_waiters (b\<lparr>bl_granted := (bl_granted b)(w := 0)\<rparr>) (out @ [Post (bl_handle b w)])
     else cancel_waiters b (out @ [Run_cancel w]))"

text \<open>The walk of \<open>remove\<close>: stop before \<open>w\<close> or at the last node.\<close>

partial_function (option) bus_find :: "(nat \<Rightarrow> nat) \<Rightarrow> nat \<Rightarrow> nat \<Rightarrow> nat option" where
  "bus_find nx w cur = (if nx cur \<noteq> 0 \<and> nx cur \<noteq> w then bus_find nx w (nx cur) else Some cur)"

definition bus_remove_list :: "nat \<Rightarrow> ilist \<Rightarrow> (bool \<times> ilist) option" where
  "bus_remove_list w l =
    (if w = 0 \<or> il_head l = 0 then Some (False, l)
     else if il_head l = w then
       Some (True, l\<lparr>il_head := il_next l w, il_tail := (if il_tail l = w then 0 else il_tail l),
                     il_next := (il_next l)(w := 0)\<rparr>)
     else case bus_find (il_next l) w (il_head l) of
       None \<Rightarrow> None
     | Some cur \<Rightarrow>
        if il_next l cur = w then
          Some (True, l\<lparr>il_next := (il_next l)(cur := il_next l w, w := 0),
                        il_tail := (if il_tail l = w then cur else il_tail l)\<rparr>)
        else Some (False, l))"

definition bus_remove :: "nat \<Rightarrow> bus_lock \<Rightarrow> (bool \<times> bus_lock) option" where
  "bus_remove w b = (case bus_remove_list w (bl_list b) of
     None \<Rightarrow> None | Some (r, l) \<Rightarrow> Some (r, b\<lparr>bl_list := l\<rparr>))"

definition has_waiters :: "bus_lock \<Rightarrow> bool" where
  "has_waiters b \<longleftrightarrow> il_head (bl_list b) \<noteq> 0"

section \<open>Guards and awaiters\<close>

text \<open>A \<open>BusLockGuard\<close> with a lock is its token, an empty one is \<open>None\<close>.\<close>

definition guard_release :: "u32 option \<Rightarrow> bus_lock \<Rightarrow> (u32 option \<times> bus_lock \<times> bus_out list) option" where
  "guard_release g b = (case g of
     None \<Rightarrow> Some (None, b, [])
   | Some token \<Rightarrow> (case bus_release token b of None \<Rightarrow> None | Some (b, out) \<Rightarrow> Some (None, b, out)))"

definition guard_move_assign ::
    "u32 option \<Rightarrow> u32 option \<Rightarrow> bus_lock \<Rightarrow> (u32 option \<times> u32 option \<times> bus_lock \<times> bus_out list) option" where
  "guard_move_assign g from b = (case guard_release g b of
     None \<Rightarrow> None | Some (_, b, out) \<Rightarrow> Some (from, None, b, out))"

text \<open>The waiter node embedded in an awaiter as constructed: null link, no grant.\<close>

definition new_waiter :: "nat \<Rightarrow> bool \<Rightarrow> bus_lock \<Rightarrow> bus_lock" where
  "new_waiter w run b = b\<lparr>bl_run := (bl_run b)(w := run), bl_granted := (bl_granted b)(w := 0)\<rparr>"

definition lock_await_ready :: "bus_lock \<Rightarrow> bool \<times> u32 \<times> bus_lock" where
  "lock_await_ready b = (let (token, b) = try_acquire b in (token \<noteq> 0, token, b))"

definition lock_await_suspend :: "nat \<Rightarrow> handle \<Rightarrow> bus_lock \<Rightarrow> bus_lock" where
  "lock_await_suspend a h b = bus_wait a (b\<lparr>bl_handle := (bl_handle b)(a := h)\<rparr>)"

definition lock_await_resume :: "nat \<Rightarrow> u32 \<Rightarrow> bus_lock \<Rightarrow> u32 option" where
  "lock_await_resume a token b =
    (let t = (if token \<noteq> 0 then token else bl_granted b a) in if t \<noteq> 0 then Some t else None)"

definition lock_awaiter_destroy :: "nat \<Rightarrow> u32 \<Rightarrow> bus_lock \<Rightarrow> bus_lock option" where
  "lock_awaiter_destroy a token b =
    (if token = 0 \<and> bl_granted b a = 0 then
       (case bus_remove a b of None \<Rightarrow> None | Some (_, b) \<Rightarrow> Some b)
     else Some b)"

section \<open>The waiter queue\<close>

lemma bus_find_chain:
  "chain nx p (ys @ w # zs) 0 \<Longrightarrow> w \<notin> set ys \<Longrightarrow> ys \<noteq> [] \<Longrightarrow> bus_find nx w p = Some (last ys)"
proof (induction ys arbitrary: p)
  case (Cons y ys)
  then show ?case using Cons.IH [of "nx y"] by (cases ys; subst bus_find.simps) auto
qed simp

lemma bus_find_absent:
  "chain nx p xs 0 \<Longrightarrow> w \<notin> set xs \<Longrightarrow> xs \<noteq> [] \<Longrightarrow> bus_find nx w p = Some (last xs) \<and> nx (last xs) = 0"
proof (induction xs arbitrary: p)
  case (Cons y ys)
  then show ?case using Cons.IH [of "nx y"] by (cases ys; subst bus_find.simps) auto
qed simp

lemma chain_last: "chain nx p xs q \<Longrightarrow> xs \<noteq> [] \<Longrightarrow> nx (last xs) = q"
  by (induction xs arbitrary: p) auto

lemma linked_bus_remove:
  assumes l: "linked l xs" and w: "w \<noteq> 0"
  shows "\<exists>l'. bus_remove_list w l = Some (w \<in> set xs, l') \<and> linked l' (remove1 w xs)"
proof (cases "w \<in> set xs")
  case False
  have hd: "il_head l \<noteq> w" using linked_head [OF l] False w by (cases xs) auto
  note hd = hd linked_Nil_iff [OF l]
  show ?thesis
  proof (cases "xs = []")
    case False
    then have "bus_find (il_next l) w (il_head l) = Some (last xs) \<and> il_next l (last xs) = 0"
      using bus_find_absent [of "il_next l" "il_head l" xs w] l \<open>w \<notin> set xs\<close> by (auto simp: linked_def)
    then show ?thesis using hd w l \<open>w \<notin> set xs\<close> by (auto simp: bus_remove_list_def remove1_idem)
  qed (use hd l in \<open>auto simp: bus_remove_list_def\<close>)
next
  case True
  then obtain ys zs where xs: "xs = ys @ w # zs" and ys: "w \<notin> set ys" by (meson split_list_first)
  have c: "chain (il_next l) (il_head l) (ys @ w # zs) 0" and d: "distinct (ys @ w # zs)"
    and tl: "il_tail l = last (w # zs)" using l xs by (auto simp: linked_def)
  have tlw: "il_tail l = w \<longleftrightarrow> zs = []" using tl d by (auto simp: last_in_set)
  obtain h nx where out: "link_out (il_head l) (il_next l) w (last (0 # ys)) = (h, nx)" by fastforce
  have chain': "chain (nx(w := 0)) h (ys @ zs) 0" using chain_link_out [OF c d out] d by simp
  show ?thesis
  proof (cases ys)
    case Nil
    then show ?thesis using c d out chain' tl tlw xs w
      by (auto simp: bus_remove_list_def link_out_def linked_def)
  next
    case (Cons y us)
    have "bus_find (il_next l) w (il_head l) = Some (last ys)"
      using bus_find_chain [OF c ys] Cons by simp
    moreover have "chain (il_next l) (il_head l) ys w" using c by (auto simp: chain_append)
    then have "il_next l (last ys) = w" using chain_last Cons by blast
    moreover have "last ys \<noteq> 0" using chain_no_null [OF c] last_in_set [of ys] Cons by (metis UnI1 list.discI set_append)
    moreover have "il_head l = y" "y \<noteq> w" "y \<noteq> 0" using c ys Cons by auto
    ultimately show ?thesis using out chain' d ys tl tlw xs w Cons
      by (auto simp: bus_remove_list_def link_out_def linked_def remove1_append)
  qed
qed

lemma bus_remove_unlinks:
  "linked l xs \<Longrightarrow> w \<noteq> 0 \<Longrightarrow>
    \<exists>l'. map_option snd (bus_remove_list w l) = Some l' \<and> linked l' (remove1 w xs)"
  by (drule (1) linked_bus_remove) auto

interpretation bus: waiter_list linked il_head il_append "\<lambda>w l. map_option snd (bus_remove_list w l)"
  by unfold_locales
    (simp_all only: linked_head linked_no_null linked_distinct linked_append bus_remove_unlinks not_False_eq_True)

lemma bus_pop_Nil: "linked (bl_list b) [] \<Longrightarrow> bus_pop b = (0, b)"
  using bus.front_zero_iff [of "bl_list b" "[]"] by (simp add: bus_pop_def)

lemma bus_pop_Cons:
  assumes "linked (bl_list b) (w # ws)"
  obtains l where "bus_pop b = (w, b\<lparr>bl_list := l\<rparr>)" "linked l ws" "w \<noteq> 0"
  using assms bus.front_rep [OF assms] bus.rep_no_null [OF assms] linked_pop_front [OF assms]
  by (simp add: bus_pop_def)

lemma next_token_nonzero: "next_token b = (t, b') \<Longrightarrow> t \<noteq> 0 \<and> b' = b\<lparr>bl_last := t\<rparr>"
  by (auto simp: next_token_def Let_def split: if_splits)

text \<open>
  What a release does with the queue: transactions in front are submitted in order, the first lock
  request behind them gets a fresh token, the rest keep waiting.
\<close>

lemma release_loop_spec:
  assumes "linked (bl_list b) xs"
  shows "\<exists>l t. release_loop b out = Some
      (let txs = takeWhile (bl_run b) xs in
       case dropWhile (bl_run b) xs of
         [] \<Rightarrow> (b\<lparr>bl_list := l\<rparr>, out @ map Run_submit txs)
       | w # _ \<Rightarrow> (b\<lparr>bl_list := l, bl_last := t, bl_owner := t, bl_granted := (bl_granted b)(w := t)\<rparr>,
           out @ map Run_submit txs @ [Post (bl_handle b w)])) \<and>
    linked l (tl (dropWhile (bl_run b) xs)) \<and> t \<noteq> 0"
  using assms
proof (induction xs arbitrary: b out)
  case Nil
  then show ?case
    by (subst release_loop.simps) (auto simp: bus_pop_Nil intro!: exI [of _ "bl_list b"] exI [of _ 1])
next
  case (Cons w ws)
  from bus_pop_Cons [OF Cons.prems] obtain l where
    l: "bus_pop b = (w, b\<lparr>bl_list := l\<rparr>)" "linked l ws" "w \<noteq> 0" .
  show ?case
  proof (cases "bl_run b w")
    case True
    have step: "release_loop b out = release_loop (b\<lparr>bl_list := l\<rparr>) (out @ [Run_submit w])"
      using l True by (subst release_loop.simps) simp
    have "linked (bl_list (b\<lparr>bl_list := l\<rparr>)) ws" using l(2) by simp
    from Cons.IH [OF this, of "out @ [Run_submit w]"] show ?thesis
      unfolding step using True by (elim exE) (intro exI, auto simp: Let_def simp del: dropWhile_eq_Nil_conv split: list.split)
  next
    case False
    obtain t b' where t: "next_token (b\<lparr>bl_list := l\<rparr>) = (t, b')" by fastforce
    show ?thesis using next_token_nonzero [OF t] t l False
      by (subst release_loop.simps) (auto intro!: exI [of _ l] exI [of _ t])
  qed
qed

lemma cancel_waiters_spec:
  assumes "linked (bl_list b) xs"
  shows "\<exists>l. cancel_waiters b out = Some
      (b\<lparr>bl_list := l, bl_granted := (\<lambda>w. if w \<in> set xs \<and> \<not> bl_run b w then 0 else bl_granted b w)\<rparr>,
       out @ map (\<lambda>w. if bl_run b w then Run_cancel w else Post (bl_handle b w)) xs) \<and> linked l []"
  using assms
proof (induction xs arbitrary: b out)
  case Nil
  then show ?case
    by (subst cancel_waiters.simps) (auto simp: bus_pop_Nil intro!: exI [of _ "bl_list b"])
next
  case (Cons w ws)
  from bus_pop_Cons [OF Cons.prems] obtain l where
    l: "bus_pop b = (w, b\<lparr>bl_list := l\<rparr>)" "linked l ws" "w \<noteq> 0" .
  let ?b = "if bl_run b w then b\<lparr>bl_list := l\<rparr> else b\<lparr>bl_list := l, bl_granted := (bl_granted b)(w := 0)\<rparr>"
  let ?o = "out @ [if bl_run b w then Run_cancel w else Post (bl_handle b w)]"
  have step: "cancel_waiters b out = cancel_waiters ?b ?o"
    by (subst cancel_waiters.simps) (simp add: l)
  have "linked (bl_list ?b) ws" using l by simp
  from Cons.IH [OF this, of ?o] obtain l' where l': "linked l' []" "cancel_waiters ?b ?o = Some
      (?b\<lparr>bl_list := l', bl_granted := (\<lambda>w. if w \<in> set ws \<and> \<not> bl_run ?b w then 0 else bl_granted ?b w)\<rparr>,
       ?o @ map (\<lambda>w. if bl_run ?b w then Run_cancel w else Post (bl_handle ?b w)) ws)" by blast
  show ?case unfolding step l'(2) using l'(1)
    by (intro exI [of _ l']) (auto simp: fun_eq_iff)
qed

section \<open>The lock under its clients\<close>

text \<open>
  The clients of one lock: coroutines locking it through \<open>BusLockAwaiter\<close>, bus transactions made
  under a token, and the holders of guards. \<open>br_guards\<close> are the tokens of the live guards,
  \<open>br_suspended\<close> the awaiters suspended and neither resumed nor destroyed yet. A coroutine that finds
  the bus held suspends in the same step: both run on the AbstractX thread.
\<close>

record bus_run =
  br_lock :: bus_lock
  br_guards :: "u32 list"
  br_suspended :: "nat set"

definition fresh_node :: "nat \<Rightarrow> nat list \<Rightarrow> bus_run \<Rightarrow> bool" where
  "fresh_node a xs s \<longleftrightarrow> a \<noteq> 0 \<and> a \<notin> set xs \<and> a \<notin> br_suspended s"

inductive bus_steps :: "bus_run \<Rightarrow> bus_run \<Rightarrow> bool" where
  lock_now: "lock_await_ready (br_lock s) = (True, t, b) \<Longrightarrow> lock_await_resume a t b = Some g \<Longrightarrow>
    bus_steps s (s\<lparr>br_lock := b, br_guards := g # br_guards s\<rparr>)"
| lock_later: "linked (bl_list (br_lock s)) xs \<Longrightarrow> fresh_node a xs s \<Longrightarrow>
    lock_await_ready (br_lock s) = (False, t, b) \<Longrightarrow>
    bus_steps s (s\<lparr>br_lock := lock_await_suspend a h (new_waiter a False b),
                   br_suspended := insert a (br_suspended s)\<rparr>)"
| transaction_waits: "linked (bl_list (br_lock s)) xs \<Longrightarrow> fresh_node a xs s \<Longrightarrow>
    blocks token (br_lock s) \<Longrightarrow>
    bus_steps s (s\<lparr>br_lock := bus_wait a (new_waiter a True (br_lock s))\<rparr>)"
| lock_resumed: "a \<in> br_suspended s \<Longrightarrow> linked (bl_list (br_lock s)) xs \<Longrightarrow> a \<notin> set xs \<Longrightarrow>
    bus_steps s (s\<lparr>br_guards := (case lock_await_resume a 0 (br_lock s) of None \<Rightarrow> [] | Some t \<Rightarrow> [t]) @ br_guards s,
                   br_suspended := br_suspended s - {a}\<rparr>)"
| guard_released: "t \<in> set (br_guards s) \<Longrightarrow> guard_release (Some t) (br_lock s) = Some (g, b, out) \<Longrightarrow>
    bus_steps s (s\<lparr>br_lock := b, br_guards := remove1 t (br_guards s)\<rparr>)"
| waiters_cancelled: "cancel_waiters (br_lock s) [] = Some (b, out) \<Longrightarrow> bus_steps s (s\<lparr>br_lock := b\<rparr>)"
| awaiter_destroyed: "a \<in> br_suspended s \<Longrightarrow> lock_awaiter_destroy a 0 (br_lock s) = Some b \<Longrightarrow>
    bus_steps s (s\<lparr>br_lock := b, br_suspended := br_suspended s - {a}\<rparr>)"

text \<open>
  Who holds the bus: the live guards and the suspended awaiters already granted. They never exceed
  one, its token is the owner token, and a free bus has nobody waiting.
\<close>

definition grantees :: "bus_run \<Rightarrow> nat set" where
  "grantees s = {a \<in> br_suspended s. bl_granted (br_lock s) a \<noteq> 0}"

definition bus_inv :: "bus_run \<Rightarrow> nat list \<Rightarrow> bool" where
  "bus_inv s xs \<longleftrightarrow> linked (bl_list (br_lock s)) xs \<and> 0 \<notin> br_suspended s \<and>
    (\<forall>a \<in> set xs. a \<in> br_suspended s \<longleftrightarrow> \<not> bl_run (br_lock s) a) \<and>
    (\<forall>a \<in> set xs. bl_granted (br_lock s) a = 0) \<and>
    (bl_owner (br_lock s) = 0 \<longrightarrow> xs = [] \<and> br_guards s = [] \<and> grantees s = {}) \<and>
    (br_guards s = [] \<and> (grantees s = {} \<or> (\<exists>a. grantees s = {a} \<and> bl_granted (br_lock s) a = bl_owner (br_lock s))) \<or>
     br_guards s = [bl_owner (br_lock s)] \<and> grantees s = {})"

lemma chain_unique: "chain nx p xs 0 \<Longrightarrow> chain nx p ys 0 \<Longrightarrow> xs = ys"
proof (induction xs arbitrary: p ys)
  case Nil
  then show ?case by (cases ys) auto
next
  case (Cons x xs)
  then show ?case by (cases ys) auto
qed

lemma linked_unique: "linked l xs \<Longrightarrow> linked l ys \<Longrightarrow> xs = ys"
  by (auto simp: linked_def intro: chain_unique)

lemma bus_inv_release:
  assumes inv: "bus_inv s xs" and t: "t \<in> set (br_guards s)"
    and rel: "guard_release (Some t) (br_lock s) = Some (g, b, out)"
  shows "\<exists>ys. bus_inv (s\<lparr>br_lock := b, br_guards := remove1 t (br_guards s)\<rparr>) ys"
proof -
  let ?b = "(br_lock s)\<lparr>bl_owner := 0\<rparr>"
  have own: "br_guards s = [t]" "t = bl_owner (br_lock s)" "t \<noteq> 0" "grantees s = {}"
    using inv t by (auto simp: bus_inv_def)
  have l: "linked (bl_list ?b) xs" using inv by (simp add: bus_inv_def)
  have b: "release_loop ?b [] = Some (b, out)"
    using rel own by (auto simp: guard_release_def bus_release_def split: option.splits)
  obtain l' t' where spec: "release_loop ?b [] = Some
      (let txs = takeWhile (bl_run ?b) xs in
       case dropWhile (bl_run ?b) xs of
         [] \<Rightarrow> (?b\<lparr>bl_list := l'\<rparr>, [] @ map Run_submit txs)
       | w # _ \<Rightarrow> (?b\<lparr>bl_list := l', bl_last := t', bl_owner := t', bl_granted := (bl_granted ?b)(w := t')\<rparr>,
           [] @ map Run_submit txs @ [Post (bl_handle ?b w)]))"
    "linked l' (tl (dropWhile (bl_run ?b) xs))" "t' \<noteq> 0"
    using release_loop_spec [OF l, of "[]"] by blast
  show ?thesis
  proof (cases "dropWhile (bl_run ?b) xs")
    case Nil
    then have "b = ?b\<lparr>bl_list := l'\<rparr>" "linked l' []" using b spec by (auto simp: Let_def simp del: dropWhile_eq_Nil_conv)
    then show ?thesis using inv own by (intro exI [of _ "[]"]) (auto simp: bus_inv_def grantees_def)
  next
    case (Cons w ws)
    then have b': "b = ?b\<lparr>bl_list := l', bl_last := t', bl_owner := t', bl_granted := (bl_granted ?b)(w := t')\<rparr>"
      and l': "linked l' ws" using b spec by (auto simp: Let_def)
    have w: "w \<in> set xs" "set ws \<subseteq> set xs" "\<not> bl_run (br_lock s) w" "w \<notin> set ws"
      using Cons linked_distinct [OF l] distinct_dropWhile [of xs "bl_run ?b"] set_dropWhileD [of _ "bl_run ?b" xs]
        dropWhile_eq_Cons_conv [of "bl_run ?b" xs w ws]
      by (auto simp del: dropWhile_eq_Cons_conv)
    then have "w \<in> br_suspended s" using inv by (auto simp: bus_inv_def)
    then show ?thesis using inv own w l' spec(3) b'
      by (intro exI [of _ ws]) (auto simp: bus_inv_def grantees_def)
  qed
qed

lemma bus_inv_step: "bus_steps s s' \<Longrightarrow> bus_inv s xs \<Longrightarrow> \<exists>ys. bus_inv s' ys"
proof (induction rule: bus_steps.induct)
  case (lock_now s t b a g)
  have "bl_owner (br_lock s) = 0" "t \<noteq> 0" "b = (br_lock s)\<lparr>bl_last := t, bl_owner := t\<rparr>" "g = t"
    using lock_now(1,2) by (auto simp: lock_await_ready_def lock_await_resume_def try_acquire_def Let_def
        split: prod.splits if_splits dest!: next_token_nonzero)
  then show ?case using lock_now(3) by (intro exI [of _ "[]"]) (auto simp: bus_inv_def grantees_def)
next
  case (lock_later s ys a t b h)
  have b: "b = br_lock s" "bl_owner (br_lock s) \<noteq> 0" using lock_later(3)
    by (auto simp: lock_await_ready_def try_acquire_def Let_def split: prod.splits if_splits dest!: next_token_nonzero)
  have "ys = xs" using lock_later linked_unique by (auto simp: bus_inv_def)
  then show ?case using lock_later b
    by (intro exI [of _ "xs @ [a]"])
      (auto simp: bus_inv_def grantees_def fresh_node_def lock_await_suspend_def bus_wait_def new_waiter_def
        bus.enqueue_rep)
next
  case (transaction_waits s ys a token)
  have "ys = xs" using transaction_waits linked_unique by (auto simp: bus_inv_def)
  then show ?case using transaction_waits
    by (intro exI [of _ "xs @ [a]"])
      (auto simp: bus_inv_def grantees_def fresh_node_def bus_wait_def new_waiter_def blocks_def bus.enqueue_rep)
next
  case (lock_resumed a s ys)
  have "ys = xs" using lock_resumed linked_unique by (auto simp: bus_inv_def)
  show ?case
  proof (cases "bl_granted (br_lock s) a = 0")
    case True
    then have "grantees (s\<lparr>br_suspended := br_suspended s - {a}\<rparr>) = grantees s" by (auto simp: grantees_def)
    with True show ?thesis using lock_resumed(4) \<open>ys = xs\<close> lock_resumed(1,3)
      by (intro exI [of _ xs]) (auto simp: bus_inv_def grantees_def lock_await_resume_def)
  next
    case False
    then have "a \<in> grantees s" using lock_resumed(1) by (simp add: grantees_def)
    then have "br_guards s = []" "grantees s = {a}" "bl_granted (br_lock s) a = bl_owner (br_lock s)"
      using lock_resumed(4) by (auto simp: bus_inv_def)
    with False show ?thesis using lock_resumed(4) \<open>ys = xs\<close> lock_resumed(1,3)
      by (intro exI [of _ xs]) (auto simp: bus_inv_def grantees_def lock_await_resume_def)
  qed
next
  case (guard_released t s g b out)
  then show ?case using bus_inv_release by blast
next
  case (waiters_cancelled s b out)
  have "(\<lambda>w. if w \<in> set xs \<and> \<not> bl_run (br_lock s) w then 0 else bl_granted (br_lock s) w) = bl_granted (br_lock s)"
    using waiters_cancelled(2) by (auto simp: bus_inv_def)
  then obtain l where "linked l []" "b = (br_lock s)\<lparr>bl_list := l, bl_granted := bl_granted (br_lock s)\<rparr>"
    using cancel_waiters_spec [of "br_lock s" xs "[]"] waiters_cancelled by (auto simp: bus_inv_def)
  then show ?case using waiters_cancelled(2)
    by (intro exI [of _ "[]"]) (auto simp: bus_inv_def grantees_def)
next
  case (awaiter_destroyed a s b)
  have l: "linked (bl_list (br_lock s)) xs" and a: "a \<noteq> 0"
    using awaiter_destroyed by (auto simp: bus_inv_def intro: gr0I)
  show ?case
  proof (cases "bl_granted (br_lock s) a = 0")
    case True
    obtain l' where l': "linked l' (remove1 a xs)" "b = (br_lock s)\<lparr>bl_list := l'\<rparr>"
      using linked_bus_remove [OF l a] awaiter_destroyed(2) True
      by (auto simp: lock_awaiter_destroy_def bus_remove_def)
    have "set (remove1 a xs) = set xs - {a}" using linked_distinct [OF l] by (rule set_remove1_eq)
    then show ?thesis using awaiter_destroyed(3) True l'
      by (intro exI [of _ "remove1 a xs"]) (auto simp: bus_inv_def grantees_def)
  next
    case False
    then have "a \<in> grantees s" using awaiter_destroyed(1) by (simp add: grantees_def)
    then have "br_guards s = []" "grantees s = {a}" "b = br_lock s" "a \<notin> set xs"
      using awaiter_destroyed(2,3) False by (auto simp: bus_inv_def lock_awaiter_destroy_def)
    then show ?thesis using awaiter_destroyed(3)
      by (intro exI [of _ xs]) (auto simp: bus_inv_def grantees_def)
  qed
qed

lemma bus_inv_reachable: "bus_steps\<^sup>*\<^sup>* s s' \<Longrightarrow> bus_inv s xs \<Longrightarrow> \<exists>ys. bus_inv s' ys"
  by (induction arbitrary: xs rule: rtranclp_induct) (blast dest: bus_inv_step)+

definition free_bus :: bus_run where
  "free_bus = \<lparr>br_lock = \<lparr>bl_list = il_empty, bl_owner = 0, bl_last = 0, bl_run = (\<lambda>_. False),
     bl_handle = (\<lambda>_. null_handle), bl_granted = (\<lambda>_. 0)\<rparr>, br_guards = [], br_suspended = {}\<rparr>"

lemma free_bus_inv: "bus_inv free_bus []"
  by (simp add: bus_inv_def free_bus_def grantees_def)

section \<open>Properties of the bus lock\<close>

text \<open>
  (C11) Mutual exclusion, for any sequence of locking, waiting, releasing, cancelling and destroyed
  awaiters, token wrap-around included: at most one guard is live and its token is the owner token;
  while a grant is on its way to a suspended awaiter no guard is live and no second awaiter is
  granted; and when the bus is free nobody is left waiting in its queue.
\<close>

theorem bus_lock_mutual_exclusion:
  assumes "bus_steps\<^sup>*\<^sup>* free_bus s"
  shows "(br_guards s = [] \<or> br_guards s = [bl_owner (br_lock s)]) \<and>
    (br_guards s \<noteq> [] \<longrightarrow> grantees s = {}) \<and>
    (\<forall>a b. a \<in> grantees s \<and> b \<in> grantees s \<longrightarrow> a = b) \<and>
    (\<not> held (br_lock s) \<longrightarrow> br_guards s = [] \<and> grantees s = {} \<and> \<not> has_waiters (br_lock s))"
proof -
  obtain xs where inv: "bus_inv s xs" using bus_inv_reachable [OF assms free_bus_inv] by blast
  have "bl_owner (br_lock s) = 0 \<Longrightarrow> il_head (bl_list (br_lock s)) = 0"
    using inv bus.front_zero_iff [of "bl_list (br_lock s)" xs] by (auto simp: bus_inv_def)
  then show ?thesis using inv by (auto simp: bus_inv_def held_def has_waiters_def)
qed

theorem bus_lock_mutual_exclusion_witness:
  "\<exists>s. bus_steps\<^sup>*\<^sup>* free_bus s \<and> br_guards s = [1] \<and> bl_owner (br_lock s) = 1"
proof -
  let ?b = "(br_lock free_bus)\<lparr>bl_last := 1, bl_owner := 1\<rparr>"
  let ?s = "free_bus\<lparr>br_lock := ?b, br_guards := 1 # br_guards free_bus\<rparr>"
  have "bus_steps free_bus ?s"
    by (rule lock_now [where t = 1])
      (simp_all add: lock_await_ready_def try_acquire_def next_token_def lock_await_resume_def free_bus_def)
  then have "bus_steps\<^sup>*\<^sup>* free_bus ?s" by simp
  with bus_lock_mutual_exclusion [OF this] show ?thesis
    by (intro exI [of _ ?s]) (auto simp: free_bus_def)
qed

text \<open>
  (C12) Release is first come, first served. The holder's release submits the transactions waiting in
  front of the first lock request, in arrival order, posts that request's coroutine with a fresh
  non-zero token that now owns the bus, and leaves everyone behind it queued. With no lock request
  waiting, every transaction is submitted and the bus is free. A stale or zero token does nothing.
\<close>

theorem bus_release_first_come:
  assumes "linked (bl_list b) (txs @ rest)" and "\<forall>w \<in> set txs. bl_run b w"
    and "case rest of [] \<Rightarrow> True | w # _ \<Rightarrow> \<not> bl_run b w"
  shows "\<exists>b' out. bus_release token b = Some (b', out) \<and>
    (if token = 0 \<or> token \<noteq> bl_owner b then b' = b \<and> out = []
     else case rest of
       [] \<Rightarrow> out = map Run_submit txs \<and> \<not> held b' \<and> linked (bl_list b') []
     | w # ws \<Rightarrow> out = map Run_submit txs @ [Post (bl_handle b w)] \<and> held b' \<and>
         bl_granted b' w = bl_owner b' \<and> linked (bl_list b') ws)"
proof -
  have "takeWhile (bl_run b) (txs @ rest) = txs" "dropWhile (bl_run b) (txs @ rest) = rest"
    using assms(2,3) by (auto simp: takeWhile_append2 dropWhile_append2 split: list.splits)
  then have "\<exists>l t. release_loop (b\<lparr>bl_owner := 0\<rparr>) [] = Some
      (case rest of
         [] \<Rightarrow> (b\<lparr>bl_owner := 0, bl_list := l\<rparr>, map Run_submit txs)
       | w # _ \<Rightarrow> (b\<lparr>bl_list := l, bl_last := t, bl_owner := t, bl_granted := (bl_granted b)(w := t)\<rparr>,
           map Run_submit txs @ [Post (bl_handle b w)])) \<and> linked l (tl rest) \<and> t \<noteq> 0"
    using release_loop_spec [of "b\<lparr>bl_owner := 0\<rparr>" "txs @ rest" "[]"] assms(1)
    by (simp add: Let_def cong: list.case_cong)
  then show ?thesis by (cases rest) (auto simp: bus_release_def held_def)
qed

definition queued_bus :: bus_lock where
  "queued_bus = \<lparr>bl_list = il_append 30 (il_append 20 (il_append 10 il_empty)), bl_owner = 4, bl_last = 4,
     bl_run = (\<lambda>w. w = 10), bl_handle = (\<lambda>w. w + 1), bl_granted = (\<lambda>_. 0)\<rparr>"

lemma queued_bus_linked: "linked (bl_list queued_bus) [10, 20, 30]"
proof -
  have "linked (il_append 30 (il_append 20 (il_append 10 il_empty))) ((([] @ [10]) @ [20]) @ [30])"
    by (intro linked_append) simp_all
  then show ?thesis by (simp add: queued_bus_def)
qed

theorem bus_release_first_come_witness:
  "\<exists>b'. bus_release 4 queued_bus = Some (b', [Run_submit 10, Post 21]) \<and> linked (bl_list b') [30]"
  using bus_release_first_come [of queued_bus "[10]" "[20, 30]" 4] queued_bus_linked
  by (auto simp: queued_bus_def)

text \<open>
  A grant can be lost: if the coroutine of a waiting \<open>BusLockAwaiter\<close> is destroyed after
  \<open>release\<close> granted it the bus and before it resumes, the destructor does nothing, so the bus stays
  owned by a token no guard has.
\<close>

theorem bus_grant_lost_on_destroy:
  assumes "linked (bl_list b) (w # ws)" and "\<not> bl_run b w" and "held b"
    and "bus_release (bl_owner b) b = Some (b', out)"
  shows "lock_awaiter_destroy w 0 b' = Some b' \<and> held b' \<and> out = [Post (bl_handle b w)]"
proof -
  have "bl_granted b' w = bl_owner b' \<and> held b' \<and> out = [Post (bl_handle b w)]"
    using release_loop_spec [of "b\<lparr>bl_owner := 0\<rparr>" "w # ws" "[]"] assms
    by (auto simp: bus_release_def held_def Let_def)
  then show ?thesis by (simp add: lock_awaiter_destroy_def held_def)
qed

theorem bus_grant_lost_on_destroy_witness:
  "\<exists>b'. bus_release 4 (queued_bus\<lparr>bl_run := (\<lambda>_. False)\<rparr>) = Some (b', [Post 11]) \<and>
    lock_awaiter_destroy 10 0 b' = Some b' \<and> held b'"
proof -
  let ?b = "queued_bus\<lparr>bl_run := (\<lambda>_. False)\<rparr>"
  have l: "linked (bl_list ?b) [10, 20, 30]" using queued_bus_linked by simp
  then obtain b' out where out: "bus_release 4 ?b = Some (b', out)"
    using release_loop_spec [of "?b\<lparr>bl_owner := 0\<rparr>" "[10, 20, 30]" "[]"]
    by (auto simp: bus_release_def queued_bus_def)
  show ?thesis
    using bus_grant_lost_on_destroy [OF l, of b' out] out by (simp add: queued_bus_def held_def)
qed

end
