(* ===== verification/Io_Status.thy ===== *)
theory Io_Status
  imports Prelude
begin

text \<open>
  The status vocabulary of the hardware layer: \<open>include/abstractx/hal/io_status.hpp\<close>, the UART, SPI
  and I2C status enumerations and their mappings, and the step sequencer of
  \<open>include/abstractx/hal/bus_step.hpp\<close> that ends stepped transactions with one of these statuses.
\<close>

section \<open>Statuses\<close>

datatype io_status = Io_Ok | Io_QueueFull | Io_NotSupported | Io_InvalidArgument | Io_Cancelled | Io_Timeout
  | Io_NackAddress | Io_NackData | Io_ArbitrationLost | Io_BusError | Io_DmaError | Io_Crc | Io_Overrun
  | Io_Framing | Io_Parity | Io_Break | Io_Aborted

datatype uart_status = U_Ok | U_Timeout | U_FramingError | U_OverrunError | U_QueueFull
  | U_NotSupported | U_Cancelled | U_ParityError | U_BreakError | U_InvalidArgument

fun uart_to_io_status :: "uart_status \<Rightarrow> io_status" where
  "uart_to_io_status U_Ok = Io_Ok"
| "uart_to_io_status U_Timeout = Io_Timeout"
| "uart_to_io_status U_FramingError = Io_Framing"
| "uart_to_io_status U_OverrunError = Io_Overrun"
| "uart_to_io_status U_QueueFull = Io_QueueFull"
| "uart_to_io_status U_NotSupported = Io_NotSupported"
| "uart_to_io_status U_Cancelled = Io_Cancelled"
| "uart_to_io_status U_ParityError = Io_Parity"
| "uart_to_io_status U_BreakError = Io_Break"
| "uart_to_io_status U_InvalidArgument = Io_InvalidArgument"

datatype spi_status = Spi_Ok | Spi_DmaError | Spi_Timeout | Spi_CrcError | Spi_QueueFull | Spi_NotSupported
  | Spi_InvalidArgument | Spi_Cancelled | Spi_BusError | Spi_Aborted

fun spi_to_io_status :: "spi_status \<Rightarrow> io_status" where
  "spi_to_io_status Spi_Ok = Io_Ok"
| "spi_to_io_status Spi_DmaError = Io_DmaError"
| "spi_to_io_status Spi_Timeout = Io_Timeout"
| "spi_to_io_status Spi_CrcError = Io_Crc"
| "spi_to_io_status Spi_QueueFull = Io_QueueFull"
| "spi_to_io_status Spi_NotSupported = Io_NotSupported"
| "spi_to_io_status Spi_InvalidArgument = Io_InvalidArgument"
| "spi_to_io_status Spi_Cancelled = Io_Cancelled"
| "spi_to_io_status Spi_BusError = Io_BusError"
| "spi_to_io_status Spi_Aborted = Io_Aborted"

fun spi_status_from :: "io_status \<Rightarrow> spi_status" where
  "spi_status_from Io_Ok = Spi_Ok"
| "spi_status_from Io_Timeout = Spi_Timeout"
| "spi_status_from Io_Aborted = Spi_Aborted"
| "spi_status_from Io_Cancelled = Spi_Cancelled"
| "spi_status_from Io_DmaError = Spi_DmaError"
| "spi_status_from _ = Spi_BusError"

datatype i2c_status = I2c_Ok | I2c_NackAddress | I2c_NackData | I2c_BusError | I2c_Timeout | I2c_QueueFull
  | I2c_ArbitrationLost | I2c_NotSupported | I2c_InvalidArgument | I2c_Cancelled | I2c_Aborted

fun i2c_to_io_status :: "i2c_status \<Rightarrow> io_status" where
  "i2c_to_io_status I2c_Ok = Io_Ok"
| "i2c_to_io_status I2c_NackAddress = Io_NackAddress"
| "i2c_to_io_status I2c_NackData = Io_NackData"
| "i2c_to_io_status I2c_BusError = Io_BusError"
| "i2c_to_io_status I2c_Timeout = Io_Timeout"
| "i2c_to_io_status I2c_QueueFull = Io_QueueFull"
| "i2c_to_io_status I2c_ArbitrationLost = Io_ArbitrationLost"
| "i2c_to_io_status I2c_NotSupported = Io_NotSupported"
| "i2c_to_io_status I2c_InvalidArgument = Io_InvalidArgument"
| "i2c_to_io_status I2c_Cancelled = Io_Cancelled"
| "i2c_to_io_status I2c_Aborted = Io_Aborted"

fun i2c_status_from :: "io_status \<Rightarrow> i2c_status" where
  "i2c_status_from Io_Ok = I2c_Ok"
| "i2c_status_from Io_Timeout = I2c_Timeout"
| "i2c_status_from Io_Aborted = I2c_Aborted"
| "i2c_status_from Io_Cancelled = I2c_Cancelled"
| "i2c_status_from Io_NackAddress = I2c_NackAddress"
| "i2c_status_from Io_NackData = I2c_NackData"
| "i2c_status_from Io_ArbitrationLost = I2c_ArbitrationLost"
| "i2c_status_from _ = I2c_BusError"

section \<open>Stepped transactions\<close>

datatype bus_step = Continue | Repeat | Finish | Fail

text \<open>
  A step hook: the callback (with its context), called with the step index and the bytes received,
  and the number of repeats allowed. \<open>None\<close> is a null function pointer.
\<close>

record step_hook =
  sh_fn :: "(nat \<Rightarrow> u8 list \<Rightarrow> bus_step) option"
  sh_max_repeats :: u16

record sequencer =
  sq_steps :: nat
  sq_index :: nat
  sq_done :: nat
  sq_repeats :: u16

record step_next =
  sn_done :: bool
  sn_index :: nat
  sn_status :: io_status

definition seq_start :: "nat \<Rightarrow> sequencer" where
  "seq_start steps = \<lparr>sq_steps = steps, sq_index = 0, sq_done = 0, sq_repeats = 0\<rparr>"

definition step_done :: "step_hook \<Rightarrow> u8 list \<Rightarrow> sequencer \<Rightarrow> step_next \<times> sequencer" where
  "step_done hook rx q =
    (let s = (case sh_fn hook of None \<Rightarrow> Continue | Some fn \<Rightarrow> fn (sq_index q) rx) in
     case s of
       Repeat \<Rightarrow>
         if sq_repeats q \<ge> sh_max_repeats hook
         then (\<lparr>sn_done = True, sn_index = sq_index q, sn_status = Io_Timeout\<rparr>, q)
         else (\<lparr>sn_done = False, sn_index = sq_index q, sn_status = Io_Ok\<rparr>, q\<lparr>sq_repeats := sq_repeats q + 1\<rparr>)
     | Finish \<Rightarrow> (\<lparr>sn_done = True, sn_index = sq_index q, sn_status = Io_Ok\<rparr>, q\<lparr>sq_done := sq_index q + 1\<rparr>)
     | Fail \<Rightarrow> (\<lparr>sn_done = True, sn_index = sq_index q, sn_status = Io_Aborted\<rparr>, q)
     | Continue \<Rightarrow>
         (let i = sq_index q + 1 in
          (\<lparr>sn_done = (i \<ge> sq_steps q), sn_index = i, sn_status = Io_Ok\<rparr>,
           q\<lparr>sq_index := i, sq_done := i, sq_repeats := 0\<rparr>)))"

text \<open>
  A driver running a stepped transaction: run the step the sequencer names (its received bytes come
  from the bus, \<open>rx k\<close> for the k-th step run), ask the step's hook, until the sequencer says done.
\<close>

partial_function (option) run_steps ::
    "(nat \<Rightarrow> step_hook) \<Rightarrow> (nat \<Rightarrow> u8 list) \<Rightarrow> nat \<Rightarrow> sequencer \<Rightarrow> (nat \<times> io_status \<times> sequencer) option" where
  "run_steps hook rx k q =
    (let (n, q) = step_done (hook (sq_index q)) (rx k) q in
     if sn_done n then Some (Suc k, sn_status n, q) else run_steps hook rx (Suc k) q)"

definition steps_left :: "(nat \<Rightarrow> step_hook) \<Rightarrow> sequencer \<Rightarrow> nat" where
  "steps_left hook q =
    (\<Sum>i = sq_index q..<sq_steps q. unat (sh_max_repeats (hook i)) + 1) - unat (sq_repeats q)"

definition seq_ok :: "(nat \<Rightarrow> step_hook) \<Rightarrow> sequencer \<Rightarrow> bool" where
  "seq_ok hook q \<longleftrightarrow> sq_index q < sq_steps q \<and> sq_done q = sq_index q \<and>
     sq_repeats q \<le> sh_max_repeats (hook (sq_index q))"

lemma steps_left_pos:
  assumes "seq_ok hook q"
  shows "0 < steps_left hook q"
proof -
  have "(\<Sum>i = sq_index q..<sq_steps q. unat (sh_max_repeats (hook i)) + 1) =
      unat (sh_max_repeats (hook (sq_index q))) + 1 +
      (\<Sum>i = Suc (sq_index q)..<sq_steps q. unat (sh_max_repeats (hook i)) + 1)"
    using assms by (intro sum.atLeast_Suc_lessThan) (simp add: seq_ok_def)
  then show ?thesis using assms by (simp add: steps_left_def seq_ok_def word_le_nat_alt)
qed

text \<open>A step that does not end the transaction brings it closer to its end.\<close>

lemma step_done_progress:
  assumes ok: "seq_ok hook q" and step: "step_done (hook (sq_index q)) bytes q = (n, q')"
    and more: "\<not> sn_done n"
  shows "seq_ok hook q' \<and> steps_left hook q' < steps_left hook q \<and> sq_steps q' = sq_steps q"
proof -
  let ?i = "sq_index q" and ?S = "\<lambda>i. \<Sum>j = i..<sq_steps q. unat (sh_max_repeats (hook j)) + 1"
  let ?m = "sh_max_repeats (hook (sq_index q))"
  have split: "?S ?i = unat ?m + 1 + ?S (Suc ?i)"
    using ok by (intro sum.atLeast_Suc_lessThan) (simp add: seq_ok_def)
  define s where "s = (case sh_fn (hook ?i) of None \<Rightarrow> Continue | Some fn \<Rightarrow> fn ?i bytes)"
  consider (Continue) "s = Continue" "Suc ?i < sq_steps q" "q' = q\<lparr>sq_index := Suc ?i, sq_done := Suc ?i, sq_repeats := 0\<rparr>"
    | (Repeat) "s = Repeat" "sq_repeats q < ?m" "q' = q\<lparr>sq_repeats := sq_repeats q + 1\<rparr>"
    using step more by (cases s) (auto simp: step_done_def s_def [symmetric] Let_def split: if_splits)
  then show ?thesis
  proof cases
    case Continue
    then show ?thesis using ok split
      by (auto simp: seq_ok_def steps_left_def word_le_nat_alt)
  next
    case Repeat
    have "unat (sq_repeats q + 1) = Suc (unat (sq_repeats q))"
      using Repeat(2) unsigned_less [of ?m, where ?'a = nat]
      by (intro unat_Suc_less [of _ "unat ?m"]) (simp_all add: word_less_nat_alt)
    then show ?thesis using Repeat ok split
      by (simp add: seq_ok_def steps_left_def word_le_nat_alt word_less_nat_alt)
  qed
qed

lemma run_steps_total:
  "seq_ok hook q \<Longrightarrow> \<exists>k' st q'. run_steps hook rx k q = Some (k', st, q') \<and>
    k < k' \<and> k' \<le> k + steps_left hook q \<and> st \<in> {Io_Ok, Io_Timeout, Io_Aborted} \<and>
    (st = Io_Ok \<longrightarrow> 0 < sq_done q') \<and> sq_done q' \<le> sq_steps q"
proof (induction "steps_left hook q" arbitrary: k q rule: less_induct)
  case less
  obtain n q' where n: "step_done (hook (sq_index q)) (rx k) q = (n, q')" by fastforce
  show ?case
  proof (cases "sn_done n")
    case True
    then have "run_steps hook rx k q = Some (Suc k, sn_status n, q')" using n by (subst run_steps.simps) simp
    moreover have "sn_status n \<in> {Io_Ok, Io_Timeout, Io_Aborted}" "sq_done q' \<le> sq_steps q"
      "sn_status n = Io_Ok \<longrightarrow> 0 < sq_done q'"
      using n less.prems True by (auto simp: step_done_def seq_ok_def Let_def split: bus_step.splits if_splits)
    ultimately show ?thesis using steps_left_pos [OF less.prems] by auto
  next
    case False
    then have step: "run_steps hook rx k q = run_steps hook rx (Suc k) q'"
      using n by (subst run_steps.simps) simp
    note p = step_done_progress [OF less.prems n False]
    from less.hyps [of q' "Suc k"] p show ?thesis unfolding step by fastforce
  qed
qed

text \<open>
  A stepped bus transaction always ends: however the hooks answer, a driver following the
  sequencer runs at most one attempt plus the allowed repeats of every step, and ends with Ok,
  Timeout (repeats used up) or Aborted (a hook failed), never reporting more steps done than exist.
\<close>

theorem stepped_transaction_ends:
  assumes "0 < steps"
  shows "\<exists>k st q. run_steps hook rx 0 (seq_start steps) = Some (k, st, q) \<and>
    k \<le> (\<Sum>i = 0..<steps. unat (sh_max_repeats (hook i)) + 1) \<and> st \<in> {Io_Ok, Io_Timeout, Io_Aborted} \<and>
    (st = Io_Ok \<longrightarrow> 0 < sq_done q) \<and> sq_done q \<le> steps"
proof -
  have "seq_ok hook (seq_start steps)" using assms by (simp add: seq_ok_def seq_start_def)
  from run_steps_total [OF this, of rx 0] show ?thesis
    by (auto simp: steps_left_def seq_start_def ) 
qed

theorem stepped_transaction_ends_witness:
  "\<exists>k st q. run_steps (\<lambda>_. \<lparr>sh_fn = Some (\<lambda>_ _. Repeat), sh_max_repeats = 3\<rparr>) (\<lambda>_. []) 0 (seq_start 1) =
    Some (k, st, q) \<and> k \<le> 4"
  using stepped_transaction_ends [of 1 "\<lambda>_. \<lparr>sh_fn = Some (\<lambda>_ _. Repeat), sh_max_repeats = 3\<rparr>" "\<lambda>_. []"]
  by auto

end
