(* ===== verification/Bus_Checks.thy ===== *)
theory Bus_Checks
  imports Io_Status
begin

unbundle bit_operations_syntax

text \<open>
  The checks a bus transaction passes before it may reach the hardware: device and segment checks of
  \<open>include/abstractx/hal/spi.hpp\<close>, message checks, message building and the SMBus checksum of
  \<open>include/abstractx/hal/i2c.hpp\<close>. A transmit span is the bytes it covers, a receive span its length.
\<close>

section \<open>SPI\<close>

datatype spi_lanes = Single | Dual | Quad | Bad_Lanes u8

fun spi_lane_bit :: "spi_lanes \<Rightarrow> u8" where
  "spi_lane_bit Single = 1"
| "spi_lane_bit Dual = 2"
| "spi_lane_bit Quad = 4"
| "spi_lane_bit (Bad_Lanes b) = b"

definition trigger_kind_bit :: "u8 \<Rightarrow> u8" where
  "trigger_kind_bit k = push_bit (unat k) 1"

record spi_device =
  sd_cs :: u8
  sd_mode :: u8
  sd_max_hz :: u32
  sd_cs_active_high :: bool
  sd_lsb_first :: bool
  sd_fill :: u8
  sd_cs_setup_ns :: u16
  sd_cs_hold_ns :: u16
  sd_word_gap_ns :: u16
  sd_three_wire :: bool
  sd_dc_pin :: int

record spi_segment =
  sg_tx :: "u8 list"
  sg_rx :: nat
  sg_lanes :: spi_lanes
  sg_release_cs_after :: bool
  sg_word_bits :: u8
  sg_hz :: u32
  sg_dummy_cycles :: u16
  sg_dc_level :: int
  sg_on_done :: bool

record spi_capabilities =
  sc_max_hz :: u32
  sc_fifo_bytes :: u16
  sc_max_segments :: u8
  sc_num_cs :: u8
  sc_modes :: u8
  sc_lanes :: u8
  sc_cs_active_high :: bool
  sc_lsb_first :: bool
  sc_cs_release_between :: bool
  sc_dma :: bool
  sc_word_bits :: u32
  sc_per_segment_hz :: bool
  sc_max_dummy_cycles :: u16
  sc_cs_timing :: bool
  sc_max_cs_delay_ns :: u32
  sc_three_wire :: bool
  sc_dc_pin :: bool
  sc_step_hooks :: bool
  sc_trigger_kinds :: u8

definition spi_mode_bit :: "u8 \<Rightarrow> u8" where
  "spi_mode_bit m = push_bit (unat m) 1"

definition spi_word_bytes :: "u8 \<Rightarrow> nat" where
  "spi_word_bytes word_bits = (if word_bits \<le> 8 then 1 else if word_bits \<le> 16 then 2 else 4)"

definition seg_write :: "u8 list \<Rightarrow> spi_lanes \<Rightarrow> spi_segment" where
  "seg_write d l = \<lparr>sg_tx = d, sg_rx = 0, sg_lanes = l, sg_release_cs_after = False, sg_word_bits = 8,
     sg_hz = 0, sg_dummy_cycles = 0, sg_dc_level = -1, sg_on_done = False\<rparr>"

definition seg_read :: "nat \<Rightarrow> spi_lanes \<Rightarrow> spi_segment" where
  "seg_read n l = (seg_write [] l)\<lparr>sg_rx := n\<rparr>"

definition seg_duplex :: "u8 list \<Rightarrow> nat \<Rightarrow> spi_segment" where
  "seg_duplex d n = (seg_write d Single)\<lparr>sg_rx := n\<rparr>"

definition check_spi_device :: "spi_capabilities \<Rightarrow> spi_device \<Rightarrow> spi_status" where
  "check_spi_device caps dev =
    (if sd_max_hz dev = 0 \<or> sd_mode dev > 3 then Spi_InvalidArgument
     else if sd_cs dev \<ge> sc_num_cs caps then Spi_NotSupported
     else if sc_modes caps AND spi_mode_bit (sd_mode dev) = 0 then Spi_NotSupported
     else if sd_cs_active_high dev \<and> \<not> sc_cs_active_high caps then Spi_NotSupported
     else if sd_lsb_first dev \<and> \<not> sc_lsb_first caps then Spi_NotSupported
     else if sd_three_wire dev \<and> \<not> sc_three_wire caps then Spi_NotSupported
     else if sd_dc_pin dev \<ge> 0 \<and> \<not> sc_dc_pin caps then Spi_NotSupported
     else let longest = (if sd_cs_setup_ns dev > sd_cs_hold_ns dev
                         then (if sd_cs_setup_ns dev > sd_word_gap_ns dev then sd_cs_setup_ns dev else sd_word_gap_ns dev)
                         else (if sd_cs_hold_ns dev > sd_word_gap_ns dev then sd_cs_hold_ns dev else sd_word_gap_ns dev))
          in if longest \<noteq> 0 \<and> (\<not> sc_cs_timing caps \<or> ucast longest > sc_max_cs_delay_ns caps)
             then Spi_NotSupported else Spi_Ok)"

text \<open>The first loop of \<open>check_spi_transaction\<close>: true at the first malformed segment.\<close>

fun any_malformed :: "spi_device \<Rightarrow> spi_segment list \<Rightarrow> bool" where
  "any_malformed dev [] = False"
| "any_malformed dev (sg # segs) =
    (if sg_word_bits sg = 0 \<or> sg_word_bits sg > 32 then True
     else let wb = spi_word_bytes (sg_word_bits sg) in
     if length (sg_tx sg) mod wb \<noteq> 0 \<or> sg_rx sg mod wb \<noteq> 0 then True
     else if sg_dc_level sg < -1 \<or> sg_dc_level sg > 1 \<or> (sg_dc_level sg \<ge> 0 \<and> sd_dc_pin dev < 0) then True
     else if sd_three_wire dev \<and> sg_tx sg \<noteq> [] \<and> sg_rx sg \<noteq> 0 then True
     else if sg_lanes sg \<noteq> Single \<and> sg_lanes sg \<noteq> Dual \<and> sg_lanes sg \<noteq> Quad then True
     else if sg_tx sg = [] \<and> sg_rx sg = 0 then True
     else if sg_tx sg \<noteq> [] \<and> sg_rx sg \<noteq> 0 \<and> (sg_lanes sg \<noteq> Single \<or> length (sg_tx sg) \<noteq> sg_rx sg) then True
     else any_malformed dev segs)"

text \<open>The second loop: true at the first segment the capabilities do not cover.\<close>

fun any_unsupported :: "spi_capabilities \<Rightarrow> spi_segment list \<Rightarrow> bool" where
  "any_unsupported caps [] = False"
| "any_unsupported caps (sg # segs) =
    (if sc_lanes caps AND spi_lane_bit (sg_lanes sg) = 0 then True
     else if sg_release_cs_after sg \<and> segs \<noteq> [] \<and> \<not> sc_cs_release_between caps then True
     else if sg_word_bits sg \<noteq> 8 \<and> sc_word_bits caps AND push_bit (unat (sg_word_bits sg - 1)) 1 = 0 then True
     else if sg_hz sg \<noteq> 0 \<and> (\<not> sc_per_segment_hz caps \<or> (sc_max_hz caps \<noteq> 0 \<and> sg_hz sg > sc_max_hz caps)) then True
     else if sg_dummy_cycles sg > sc_max_dummy_cycles caps then True
     else if sg_on_done sg \<and> \<not> sc_step_hooks caps then True
     else any_unsupported caps segs)"

definition check_spi_transaction :: "spi_capabilities \<Rightarrow> spi_device \<Rightarrow> spi_segment list \<Rightarrow> spi_status" where
  "check_spi_transaction caps dev segs =
    (if segs = [] \<or> sd_max_hz dev = 0 \<or> sd_mode dev > 3 then Spi_InvalidArgument
     else if any_malformed dev segs then Spi_InvalidArgument
     else if sc_max_segments caps = 0 \<or> length segs > unat (sc_max_segments caps) then Spi_NotSupported
     else let dst = check_spi_device caps dev in
          if dst \<noteq> Spi_Ok then dst else if any_unsupported caps segs then Spi_NotSupported else Spi_Ok)"

section \<open>I2C\<close>

definition fl_Read :: u8 where "fl_Read = 0x01"
definition fl_NoStart :: u8 where "fl_NoStart = 0x02"
definition fl_Stop :: u8 where "fl_Stop = 0x04"
definition fl_IgnoreNack :: u8 where "fl_IgnoreNack = 0x08"
definition fl_RecvLen :: u8 where "fl_RecvLen = 0x10"

lemmas i2c_flag_defs = fl_Read_def fl_NoStart_def fl_Stop_def fl_IgnoreNack_def fl_RecvLen_def

definition kI2cTenBit :: u16 where "kI2cTenBit = 0x8000"
definition kI2cSmbusBlockMax :: nat where "kI2cSmbusBlockMax = 32"
definition kI2cRegWriteMax :: nat where "kI2cRegWriteMax = 32"

definition i2c_addr10 :: "u16 \<Rightarrow> u16" where
  "i2c_addr10 addr = addr OR kI2cTenBit"

record i2c_msg =
  im_tx :: "u8 list"
  im_rx :: nat
  im_flags :: u8
  im_on_done :: bool

definition msg_write :: "u8 list \<Rightarrow> u8 \<Rightarrow> i2c_msg" where
  "msg_write d f = \<lparr>im_tx = d, im_rx = 0, im_flags = f AND NOT fl_Read, im_on_done = False\<rparr>"

definition msg_read :: "nat \<Rightarrow> u8 \<Rightarrow> i2c_msg" where
  "msg_read n f = \<lparr>im_tx = [], im_rx = n, im_flags = f OR fl_Read, im_on_done = False\<rparr>"

definition has_flag :: "u8 \<Rightarrow> i2c_msg \<Rightarrow> bool" where
  "has_flag fl m \<longleftrightarrow> im_flags m AND fl \<noteq> 0"

definition msg_is_read :: "i2c_msg \<Rightarrow> bool" where
  "msg_is_read m \<longleftrightarrow> has_flag fl_Read m"

definition msg_size :: "i2c_msg \<Rightarrow> nat" where
  "msg_size m = (if msg_is_read m then im_rx m else length (im_tx m))"

record i2c_capabilities =
  ic_max_hz :: u32
  ic_fifo_bytes :: u16
  ic_max_msg_bytes :: u16
  ic_max_msgs :: u8
  ic_ten_bit :: bool
  ic_no_start :: bool
  ic_stop_between :: bool
  ic_zero_length_write :: bool
  ic_bus_recovery :: bool
  ic_dma :: bool
  ic_per_device_hz :: bool
  ic_ignore_nack :: bool
  ic_recv_len :: bool
  ic_step_hooks :: bool
  ic_trigger_kinds :: u8

text \<open>The message loops; \<open>prev\<close> is the direction of the message before, \<open>None\<close> at the first.\<close>

fun any_bad_msg :: "bool option \<Rightarrow> i2c_msg list \<Rightarrow> bool" where
  "any_bad_msg prev [] = False"
| "any_bad_msg prev (m # ms) =
    (if (if msg_is_read m then im_tx m \<noteq> [] \<or> im_rx m = 0 else im_rx m \<noteq> 0) then True
     else if has_flag fl_NoStart m \<and> (prev = None \<or> the prev \<noteq> msg_is_read m) then True
     else if has_flag fl_RecvLen m \<and> (\<not> msg_is_read m \<or> im_rx m < kI2cSmbusBlockMax + 1) then True
     else any_bad_msg (Some (msg_is_read m)) ms)"

fun any_unsupported_msg :: "i2c_capabilities \<Rightarrow> i2c_msg list \<Rightarrow> bool" where
  "any_unsupported_msg caps [] = False"
| "any_unsupported_msg caps (m # ms) =
    (if msg_size m = 0 \<and> \<not> ic_zero_length_write caps then True
     else if ic_max_msg_bytes caps \<noteq> 0 \<and> msg_size m > unat (ic_max_msg_bytes caps) then True
     else if has_flag fl_NoStart m \<and> \<not> ic_no_start caps then True
     else if has_flag fl_Stop m \<and> ms \<noteq> [] \<and> \<not> ic_stop_between caps then True
     else if has_flag fl_IgnoreNack m \<and> \<not> ic_ignore_nack caps then True
     else if has_flag fl_RecvLen m \<and> \<not> ic_recv_len caps then True
     else if im_on_done m \<and> \<not> ic_step_hooks caps then True
     else any_unsupported_msg caps ms)"

definition check_i2c_transfer :: "i2c_capabilities \<Rightarrow> u16 \<Rightarrow> i2c_msg list \<Rightarrow> u32 \<Rightarrow> i2c_status" where
  "check_i2c_transfer caps addr msgs timeout_us =
    (let ten = (addr AND kI2cTenBit \<noteq> 0); a = addr AND NOT kI2cTenBit in
     if msgs = [] \<or> timeout_us = 0 then I2c_InvalidArgument
     else if (if ten then a > 0x3FF else a > 0x7F) then I2c_InvalidArgument
     else if any_bad_msg None msgs then I2c_InvalidArgument
     else if ic_max_msgs caps = 0 \<or> length msgs > unat (ic_max_msgs caps) then I2c_NotSupported
     else if ten \<and> \<not> ic_ten_bit caps then I2c_NotSupported
     else if any_unsupported_msg caps msgs then I2c_NotSupported
     else I2c_Ok)"

definition check_i2c_device_hz :: "i2c_capabilities \<Rightarrow> u32 \<Rightarrow> i2c_status" where
  "check_i2c_device_hz caps hz =
    (if hz = 0 then I2c_Ok
     else if \<not> ic_per_device_hz caps \<or> (ic_max_hz caps \<noteq> 0 \<and> hz > ic_max_hz caps) then I2c_NotSupported
     else I2c_Ok)"

text \<open>SMBus packet error code.\<close>

definition pec_bit :: "u8 \<Rightarrow> u8" where
  "pec_bit crc = (let shifted = push_bit 1 (ucast crc :: u32)
     in ucast (if crc AND 0x80 \<noteq> 0 then shifted XOR 0x07 else shifted))"

fun smbus_pec :: "u8 \<Rightarrow> u8 list \<Rightarrow> u8" where
  "smbus_pec crc [] = crc"
| "smbus_pec crc (b # bs) = smbus_pec ((pec_bit ^^ 8) (crc XOR b)) bs"

section \<open>Building the messages of the register helpers\<close>

text \<open>
  \<open>AsyncMsgAwaiter\<close>: what the register helpers set, and \<open>await_ready\<close>, which builds the messages and
  checks them. \<open>ma_helper\<close>: 0 caller messages, 1 read registers, 2 write registers, 3 recover bus,
  4 write one byte, 5 probe.
\<close>

record msg_awaiter =
  ma_address :: u16
  ma_caller_msgs :: "i2c_msg list"
  ma_timeout_us :: u32
  ma_helper :: nat
  ma_reg :: "u8 list"
  ma_reg_len :: nat
  ma_val_byte :: u8
  ma_out :: nat
  ma_in :: "u8 list"
  ma_own_msgs :: "i2c_msg list"
  ma_hz :: u32

definition msg_awaiter_of :: "u16 \<Rightarrow> i2c_msg list \<Rightarrow> u32 \<Rightarrow> msg_awaiter" where
  "msg_awaiter_of address msgs timeout = \<lparr>ma_address = address, ma_caller_msgs = msgs, ma_timeout_us = timeout,
     ma_helper = 0, ma_reg = [0, 0], ma_reg_len = 1, ma_val_byte = 0, ma_out = 0, ma_in = [],
     ma_own_msgs = [], ma_hz = 0\<rparr>"

definition awaiter_msgs :: "msg_awaiter \<Rightarrow> i2c_msg list" where
  "awaiter_msgs a = (if ma_helper a = 0 then ma_caller_msgs a else ma_own_msgs a)"

definition read_regs_async :: "u16 \<Rightarrow> u8 \<Rightarrow> nat \<Rightarrow> u32 \<Rightarrow> msg_awaiter" where
  "read_regs_async address reg out timeout =
    (msg_awaiter_of address [] timeout)\<lparr>ma_helper := 1, ma_reg := [reg, 0], ma_out := out\<rparr>"

definition write_regs_async :: "u16 \<Rightarrow> u8 \<Rightarrow> u8 list \<Rightarrow> u32 \<Rightarrow> msg_awaiter" where
  "write_regs_async address reg bytes timeout =
    (msg_awaiter_of address [] timeout)\<lparr>ma_helper := 2, ma_reg := [reg, 0], ma_in := bytes\<rparr>"

definition read_regs16_async :: "u16 \<Rightarrow> u16 \<Rightarrow> nat \<Rightarrow> u32 \<Rightarrow> msg_awaiter" where
  "read_regs16_async address reg out timeout =
    (let a = read_regs_async address (ucast (drop_bit 8 reg)) out timeout
     in a\<lparr>ma_reg := (ma_reg a)[1 := ucast reg], ma_reg_len := 2\<rparr>)"

definition write_regs16_async :: "u16 \<Rightarrow> u16 \<Rightarrow> u8 list \<Rightarrow> u32 \<Rightarrow> msg_awaiter" where
  "write_regs16_async address reg bytes timeout =
    (let a = write_regs_async address (ucast (drop_bit 8 reg)) bytes timeout
     in a\<lparr>ma_reg := (ma_reg a)[1 := ucast reg], ma_reg_len := 2\<rparr>)"

definition write_reg_async :: "u16 \<Rightarrow> u8 \<Rightarrow> u8 \<Rightarrow> u32 \<Rightarrow> u32 \<Rightarrow> msg_awaiter" where
  "write_reg_async address reg val hz timeout =
    (msg_awaiter_of address [] timeout)\<lparr>ma_helper := 4, ma_reg := [reg, 0], ma_val_byte := val, ma_hz := hz\<rparr>"

definition probe_async :: "u16 \<Rightarrow> u32 \<Rightarrow> msg_awaiter" where
  "probe_async address timeout = (msg_awaiter_of address [] timeout)\<lparr>ma_helper := 5\<rparr>"

definition recover_bus_async :: "u32 \<Rightarrow> msg_awaiter" where
  "recover_bus_async timeout = (msg_awaiter_of 0 [] timeout)\<lparr>ma_helper := 3\<rparr>"

definition build_msgs :: "i2c_capabilities \<Rightarrow> msg_awaiter \<Rightarrow> i2c_msg list option" where
  "build_msgs caps a =
    (let regs = take (ma_reg_len a) (ma_reg a) in
     if ma_helper a = 5 then
       Some [if ic_zero_length_write caps then msg_write [] 0 else msg_read 1 0]
     else if ma_helper a = 1 then Some [msg_write regs 0, msg_read (ma_out a) 0]
     else if ma_helper a = 2 then
       (if ic_no_start caps then Some [msg_write regs 0, msg_write (ma_in a) fl_NoStart]
        else if length (ma_in a) + ma_reg_len a \<le> kI2cRegWriteMax then Some [msg_write (regs @ ma_in a) 0]
        else None)
     else Some (ma_own_msgs a))"

definition i2c_await_ready :: "i2c_capabilities \<Rightarrow> msg_awaiter \<Rightarrow> bool \<times> i2c_status \<times> msg_awaiter" where
  "i2c_await_ready caps a =
    (if ma_helper a = 3 then
       (let st = (if ic_bus_recovery caps then I2c_Ok else I2c_NotSupported) in (st \<noteq> I2c_Ok, st, a))
     else
       let a = (if ma_helper a = 4 then a\<lparr>ma_in := [ma_val_byte a], ma_helper := 2\<rparr> else a) in
       case build_msgs caps a of
         None \<Rightarrow> (True, I2c_NotSupported, a)
       | Some ms \<Rightarrow>
          (let a = a\<lparr>ma_own_msgs := ms\<rparr>;
               st = check_i2c_transfer caps (ma_address a) (awaiter_msgs a) (ma_timeout_us a);
               st = (if st = I2c_Ok then check_i2c_device_hz caps (ma_hz a) else st)
           in (st \<noteq> I2c_Ok, st, a)))"

text \<open>\<open>AsyncTransactionAwaiter::await_ready\<close> of SPI; the helpers take the bytes they own.\<close>

record spi_awaiter =
  sa_caller_segments :: "spi_segment list"
  sa_helper :: nat
  sa_cmd :: u8
  sa_val_byte :: u8
  sa_tx0 :: "u8 list"
  sa_seg1 :: spi_segment

definition spi_awaiter_of :: "spi_segment list \<Rightarrow> spi_awaiter" where
  "spi_awaiter_of segs = \<lparr>sa_caller_segments = segs, sa_helper = 0, sa_cmd = 0, sa_val_byte = 0, sa_tx0 = [],
     sa_seg1 = seg_write [] Single\<rparr>"

definition spi_segments :: "spi_awaiter \<Rightarrow> spi_segment list" where
  "spi_segments a =
    (if sa_helper a = 0 then sa_caller_segments a
     else [seg_write (if sa_helper a = 2 then sa_tx0 a else [sa_cmd a]) Single,
           if sa_helper a = 3 then seg_write [sa_val_byte a] Single else sa_seg1 a])"

definition spi_write_then_read_async :: "u8 list \<Rightarrow> nat \<Rightarrow> spi_lanes \<Rightarrow> spi_awaiter" where
  "spi_write_then_read_async tx rx lanes =
    (spi_awaiter_of [])\<lparr>sa_helper := 2, sa_tx0 := tx, sa_seg1 := seg_read rx lanes\<rparr>"

definition spi_read_regs_async :: "u8 \<Rightarrow> nat \<Rightarrow> u8 \<Rightarrow> spi_awaiter" where
  "spi_read_regs_async reg out read_flag =
    (spi_awaiter_of [])\<lparr>sa_helper := 1, sa_cmd := reg OR read_flag, sa_seg1 := seg_read out Single\<rparr>"

definition spi_write_regs_async :: "u8 \<Rightarrow> u8 list \<Rightarrow> u8 \<Rightarrow> spi_awaiter" where
  "spi_write_regs_async reg bytes write_mask =
    (spi_awaiter_of [])\<lparr>sa_helper := 1, sa_cmd := reg AND write_mask, sa_seg1 := seg_write bytes Single\<rparr>"

definition spi_write_reg_async :: "u8 \<Rightarrow> u8 \<Rightarrow> u8 \<Rightarrow> spi_awaiter" where
  "spi_write_reg_async reg val write_mask =
    (spi_awaiter_of [])\<lparr>sa_helper := 3, sa_cmd := reg AND write_mask, sa_val_byte := val\<rparr>"

definition spi_await_ready :: "spi_capabilities \<Rightarrow> spi_device \<Rightarrow> spi_awaiter \<Rightarrow> bool \<times> spi_status" where
  "spi_await_ready caps dev a =
    (let st = check_spi_transaction caps dev (spi_segments a) in (st \<noteq> Spi_Ok, st))"

section \<open>What the checks accept\<close>

lemma and_bit_zero_iff: "x AND push_bit n 1 = 0 \<longleftrightarrow> \<not> bit x n" for x :: "'a::len word"
proof -
  have "x AND push_bit n 1 = (if bit x n then push_bit n 1 else 0)"
    by (rule bit_word_eqI) (auto simp: bit_simps)
  moreover have "bit x n \<Longrightarrow> push_bit n (1 :: 'a word) \<noteq> 0"
    by (auto simp: bit_eq_iff bit_simps dest: bit_imp_le_length)
  ultimately show ?thesis by auto
qed

fun lanes_supported :: "u8 \<Rightarrow> spi_lanes \<Rightarrow> bool" where
  "lanes_supported ls Single = bit ls 0"
| "lanes_supported ls Dual = bit ls 1"
| "lanes_supported ls Quad = bit ls 2"
| "lanes_supported ls (Bad_Lanes b) = (ls AND b \<noteq> 0)"

definition segment_well_formed :: "spi_device \<Rightarrow> spi_segment \<Rightarrow> bool" where
  "segment_well_formed dev sg \<longleftrightarrow>
     1 \<le> unat (sg_word_bits sg) \<and> unat (sg_word_bits sg) \<le> 32 \<and>
     spi_word_bytes (sg_word_bits sg) dvd length (sg_tx sg) \<and> spi_word_bytes (sg_word_bits sg) dvd sg_rx sg \<and>
     sg_dc_level sg \<in> {-1, 0, 1} \<and> (sg_dc_level sg \<noteq> -1 \<longrightarrow> 0 \<le> sd_dc_pin dev) \<and>
     sg_lanes sg \<in> {Single, Dual, Quad} \<and> (sg_tx sg \<noteq> [] \<or> 0 < sg_rx sg) \<and>
     (sg_tx sg \<noteq> [] \<and> 0 < sg_rx sg \<longrightarrow>
        \<not> sd_three_wire dev \<and> sg_lanes sg = Single \<and> length (sg_tx sg) = sg_rx sg)"

definition segment_supported :: "spi_capabilities \<Rightarrow> bool \<Rightarrow> spi_segment \<Rightarrow> bool" where
  "segment_supported caps is_last sg \<longleftrightarrow>
     lanes_supported (sc_lanes caps) (sg_lanes sg) \<and>
     (sg_release_cs_after sg \<and> \<not> is_last \<longrightarrow> sc_cs_release_between caps) \<and>
     (sg_word_bits sg \<noteq> 8 \<longrightarrow> bit (sc_word_bits caps) (unat (sg_word_bits sg - 1))) \<and>
     (sg_hz sg \<noteq> 0 \<longrightarrow> sc_per_segment_hz caps \<and> (sc_max_hz caps \<noteq> 0 \<longrightarrow> sg_hz sg \<le> sc_max_hz caps)) \<and>
     sg_dummy_cycles sg \<le> sc_max_dummy_cycles caps \<and> (sg_on_done sg \<longrightarrow> sc_step_hooks caps)"

definition device_supported :: "spi_capabilities \<Rightarrow> spi_device \<Rightarrow> bool" where
  "device_supported caps dev \<longleftrightarrow>
     sd_cs dev < sc_num_cs caps \<and> bit (sc_modes caps) (unat (sd_mode dev)) \<and>
     (sd_cs_active_high dev \<longrightarrow> sc_cs_active_high caps) \<and> (sd_lsb_first dev \<longrightarrow> sc_lsb_first caps) \<and>
     (sd_three_wire dev \<longrightarrow> sc_three_wire caps) \<and> (0 \<le> sd_dc_pin dev \<longrightarrow> sc_dc_pin caps) \<and>
     (\<forall>ns \<in> {sd_cs_setup_ns dev, sd_cs_hold_ns dev, sd_word_gap_ns dev}.
        ns \<noteq> 0 \<longrightarrow> sc_cs_timing caps \<and> unat ns \<le> unat (sc_max_cs_delay_ns caps))"

lemma any_malformed_iff: "any_malformed dev segs \<longleftrightarrow> (\<exists>sg \<in> set segs. \<not> segment_well_formed dev sg)"
proof (induction segs)
  case (Cons sg segs)
  have wb: "sg_word_bits sg = 0 \<longleftrightarrow> \<not> 1 \<le> unat (sg_word_bits sg)"
    "32 < sg_word_bits sg \<longleftrightarrow> \<not> unat (sg_word_bits sg) \<le> 32"
    by (auto simp: unat_eq_zero word_less_nat_alt not_le Suc_le_eq unat_gt_0)
  have dc: "sg_dc_level sg \<in> {-1, 0, 1} \<longleftrightarrow> \<not> sg_dc_level sg < -1 \<and> \<not> 1 < sg_dc_level sg"
    "sg_dc_level sg \<in> {-1, 0, 1} \<Longrightarrow> sg_dc_level sg \<noteq> -1 \<longleftrightarrow> 0 \<le> sg_dc_level sg" by auto
  have ln: "sg_lanes sg \<in> {Single, Dual, Quad} \<longleftrightarrow>
      \<not> (sg_lanes sg \<noteq> Single \<and> sg_lanes sg \<noteq> Dual \<and> sg_lanes sg \<noteq> Quad)" by auto
  have pos: "0 < sg_rx sg \<longleftrightarrow> sg_rx sg \<noteq> 0" "sd_dc_pin dev < 0 \<longleftrightarrow> \<not> 0 \<le> sd_dc_pin dev" by auto
  have "any_malformed dev (sg # segs) \<longleftrightarrow> \<not> segment_well_formed dev sg \<or> any_malformed dev segs"
    unfolding any_malformed.simps segment_well_formed_def Let_def wb dvd_eq_mod_eq_0 ln pos if_bool_eq_disj
    using dc by argo
  then show ?case using Cons.IH by auto
qed simp

lemma any_unsupported_iff:
  "any_unsupported caps segs \<longleftrightarrow>
    (\<exists>i < length segs. \<not> segment_supported caps (i + 1 = length segs) (segs ! i))"
proof (induction segs)
  case (Cons sg segs)
  have lanes: "sc_lanes caps AND spi_lane_bit (sg_lanes sg) = 0 \<longleftrightarrow>
      \<not> lanes_supported (sc_lanes caps) (sg_lanes sg)"
    using and_bit_zero_iff [of "sc_lanes caps" 0] and_bit_zero_iff [of "sc_lanes caps" 1]
      and_bit_zero_iff [of "sc_lanes caps" 2] by (cases "sg_lanes sg") auto
  have "any_unsupported caps (sg # segs) \<longleftrightarrow>
      \<not> segment_supported caps (segs = []) sg \<or> any_unsupported caps segs"
    unfolding any_unsupported.simps segment_supported_def lanes and_bit_zero_iff by auto
  also have "\<dots> \<longleftrightarrow> (\<exists>i < length (sg # segs). \<not> segment_supported caps (i + 1 = length (sg # segs)) ((sg # segs) ! i))"
    unfolding Cons.IH by (simp add: Ex_less_Suc2)
  finally show ?case .
qed simp

lemma check_spi_device_iff:
  assumes "sd_max_hz dev \<noteq> 0" and "sd_mode dev \<le> 3"
  shows "check_spi_device caps dev = (if device_supported caps dev then Spi_Ok else Spi_NotSupported)"
proof -
  let ?m = "sc_max_cs_delay_ns caps"
  have u: "unat (ucast w :: u32) = unat w" for w :: u16 by transfer (simp add: take_bit_eq_mod)
  have le: "?m < ucast w \<longleftrightarrow> \<not> unat w \<le> unat ?m" for w :: u16
    by (simp add: word_less_nat_alt u not_le)
  have m: "\<not> 3 < sd_mode dev" using assms(2) by (simp add: not_less)
  show ?thesis
    unfolding check_spi_device_def device_supported_def and_bit_zero_iff spi_mode_bit_def Let_def le
    using assms(1) m
    by (cases "sd_cs dev < sc_num_cs caps"; cases "bit (sc_modes caps) (unat (sd_mode dev))")
      (auto simp: not_le not_less word_less_nat_alt word_le_nat_alt unat_eq_zero)
qed

section \<open>Properties of the checks\<close>

text \<open>
  (C37) \<open>check_spi_transaction\<close> decides exactly: malformed arguments (no segments, no clock, a bad mode,
  or any segment not well formed) are InvalidArgument whatever the hardware; well-formed ones are Ok
  exactly when the capabilities cover the segment count, the device and every segment, and
  NotSupported otherwise. So nothing the hardware cannot do passes the check, and nothing it can do
  is refused.
\<close>

theorem check_spi_transaction_decides:
  "check_spi_transaction caps dev segs =
    (if segs \<noteq> [] \<and> sd_max_hz dev \<noteq> 0 \<and> sd_mode dev \<le> 3 \<and> (\<forall>sg \<in> set segs. segment_well_formed dev sg)
     then if 0 < sc_max_segments caps \<and> length segs \<le> unat (sc_max_segments caps) \<and> device_supported caps dev \<and>
             (\<forall>i < length segs. segment_supported caps (i + 1 = length segs) (segs ! i))
          then Spi_Ok else Spi_NotSupported
     else Spi_InvalidArgument)"
proof (cases "segs \<noteq> [] \<and> sd_max_hz dev \<noteq> 0 \<and> sd_mode dev \<le> 3 \<and> \<not> any_malformed dev segs")
  case False
  then show ?thesis unfolding check_spi_transaction_def any_malformed_iff by (auto simp: not_le)
next
  case True
  then have dev: "check_spi_device caps dev = (if device_supported caps dev then Spi_Ok else Spi_NotSupported)"
    by (intro check_spi_device_iff) auto
  have gr: "0 < sc_max_segments caps \<longleftrightarrow> sc_max_segments caps \<noteq> 0" by (simp add: word_neq_0_conv)
  have wf: "\<forall>sg \<in> set segs. segment_well_formed dev sg" using True any_malformed_iff by blast
  have un: "any_unsupported caps segs \<longleftrightarrow>
      \<not> (\<forall>i < length segs. segment_supported caps (i + 1 = length segs) (segs ! i))"
    using any_unsupported_iff by blast
  show ?thesis using True wf
    unfolding check_spi_transaction_def dev gr un by (simp add: not_less [symmetric] Let_def)
qed

definition small_spi :: spi_capabilities where
  "small_spi = \<lparr>sc_max_hz = 1000000, sc_fifo_bytes = 0, sc_max_segments = 2, sc_num_cs = 1, sc_modes = 1, sc_lanes = 1,
     sc_cs_active_high = False, sc_lsb_first = False, sc_cs_release_between = False, sc_dma = False, sc_word_bits = 0,
     sc_per_segment_hz = False, sc_max_dummy_cycles = 0, sc_cs_timing = False, sc_max_cs_delay_ns = 0,
     sc_three_wire = False, sc_dc_pin = False, sc_step_hooks = False, sc_trigger_kinds = 0\<rparr>"

definition plain_device :: spi_device where
  "plain_device = \<lparr>sd_cs = 0, sd_mode = 0, sd_max_hz = 500000, sd_cs_active_high = False, sd_lsb_first = False,
     sd_fill = 0xFF, sd_cs_setup_ns = 0, sd_cs_hold_ns = 0, sd_word_gap_ns = 0, sd_three_wire = False, sd_dc_pin = -1\<rparr>"

theorem check_spi_transaction_decides_witness:
  "check_spi_transaction small_spi plain_device [seg_write [1] Single, seg_read 4 Single] = Spi_Ok \<and>
   check_spi_transaction small_spi plain_device [seg_write [1] Single, seg_read 4 Dual] = Spi_NotSupported \<and>
   check_spi_transaction small_spi plain_device [seg_read 0 Dual] = Spi_InvalidArgument"
  unfolding check_spi_transaction_decides
  by (simp add: small_spi_def plain_device_def seg_write_def seg_read_def segment_well_formed_def
      segment_supported_def device_supported_def spi_word_bytes_def less_Suc_eq)

lemma i2c_write_build:
  assumes "ma_helper a = 2" and "build_msgs caps a = Some ms"
  shows "concat (map im_tx ms) = take (ma_reg_len a) (ma_reg a) @ ma_in a \<and> (\<forall>m \<in> set ms. \<not> msg_is_read m) \<and>
    (\<forall>m \<in> set (tl ms). has_flag fl_NoStart m)"
  using assms
  by (auto simp: build_msgs_def msg_write_def msg_is_read_def has_flag_def i2c_flag_defs Let_def split: if_splits)

text \<open>
  The I2C register write helper puts exactly the register address and the data on the wire, in
  order and in one transaction to the same address: as a second message without a repeated start when
  the controller can do that, else as one combined message, and it refuses data too long for that.
\<close>

theorem i2c_register_write_bytes:
  "(let (now, st, a) = i2c_await_ready caps (write_regs_async address reg bytes timeout) in
     st = I2c_Ok \<longrightarrow> \<not> now \<and> concat (map im_tx (awaiter_msgs a)) = reg # bytes \<and>
       (\<forall>m \<in> set (awaiter_msgs a). \<not> msg_is_read m) \<and> (\<forall>m \<in> set (tl (awaiter_msgs a)). has_flag fl_NoStart m)) \<and>
   (let (now, st, a) = i2c_await_ready caps (write_regs16_async address reg16 bytes timeout) in
     st = I2c_Ok \<longrightarrow> \<not> now \<and>
       concat (map im_tx (awaiter_msgs a)) = ucast (drop_bit 8 reg16) # ucast reg16 # bytes) \<and>
   (\<not> ic_no_start caps \<and> 32 \<le> length bytes \<longrightarrow>
     fst (snd (i2c_await_ready caps (write_regs_async address reg bytes timeout))) = I2c_NotSupported)"
proof -
  have ready: "\<exists>ms. build_msgs caps a = Some ms \<and> awaiter_msgs a' = ms \<and> \<not> now"
    if "i2c_await_ready caps a = (now, I2c_Ok, a')" "ma_helper a = 2" for a now a'
    using that by (auto simp: i2c_await_ready_def awaiter_msgs_def Let_def split: option.splits if_splits)
  have h: "ma_helper (write_regs_async address reg bytes timeout) = 2"
    "ma_helper (write_regs16_async address reg16 bytes timeout) = 2"
    by (simp_all add: write_regs_async_def write_regs16_async_def Let_def)
  obtain n1 s1 a1 n2 s2 a2 where
    r: "i2c_await_ready caps (write_regs_async address reg bytes timeout) = (n1, s1, a1)"
      "i2c_await_ready caps (write_regs16_async address reg16 bytes timeout) = (n2, s2, a2)"
    by (metis prod_cases3)
  have one: "s1 = I2c_Ok \<longrightarrow> \<not> n1 \<and> concat (map im_tx (awaiter_msgs a1)) = reg # bytes \<and>
      (\<forall>m \<in> set (awaiter_msgs a1). \<not> msg_is_read m) \<and> (\<forall>m \<in> set (tl (awaiter_msgs a1)). has_flag fl_NoStart m)"
    using ready [of "write_regs_async address reg bytes timeout" n1 a1] r(1) h(1) i2c_write_build [OF h(1)]
    by (auto simp: write_regs_async_def msg_awaiter_of_def)
  have two: "s2 = I2c_Ok \<longrightarrow> \<not> n2 \<and>
      concat (map im_tx (awaiter_msgs a2)) = ucast (drop_bit 8 reg16) # ucast reg16 # bytes"
    using ready [of "write_regs16_async address reg16 bytes timeout" n2 a2] r(2) h(2) i2c_write_build [OF h(2)]
    by (auto simp: write_regs16_async_def write_regs_async_def msg_awaiter_of_def Let_def numeral_2_eq_2)
  have "\<not> ic_no_start caps \<and> 32 \<le> length bytes \<Longrightarrow> s1 = I2c_NotSupported"
    using r(1) by (auto simp: i2c_await_ready_def build_msgs_def write_regs_async_def msg_awaiter_of_def
        kI2cRegWriteMax_def Let_def)
  then show ?thesis using r one two by simp
qed

definition small_i2c :: i2c_capabilities where
  "small_i2c = \<lparr>ic_max_hz = 0, ic_fifo_bytes = 0, ic_max_msg_bytes = 0, ic_max_msgs = 2, ic_ten_bit = False, ic_no_start = False,
     ic_stop_between = False, ic_zero_length_write = False, ic_bus_recovery = False, ic_dma = False, ic_per_device_hz = False,
     ic_ignore_nack = False, ic_recv_len = False, ic_step_hooks = False, ic_trigger_kinds = 0\<rparr>"

theorem i2c_register_write_bytes_witness:
  "fst (snd (i2c_await_ready small_i2c (write_regs_async 0x50 7 [1, 2] 1000))) = I2c_Ok \<and>
   concat (map im_tx (awaiter_msgs (snd (snd (i2c_await_ready small_i2c (write_regs_async 0x50 7 [1, 2] 1000)))))) =
     [7, 1, 2]"
proof -
  have "fst (snd (i2c_await_ready small_i2c (write_regs_async 0x50 7 [1, 2] 1000))) = I2c_Ok"
    by code_simp
  then show ?thesis
    using i2c_register_write_bytes [of small_i2c "0x50" 7 "[1, 2]" 1000 0] by (auto simp: Let_def split: prod.splits)
qed

text \<open>The checksum step is a bijection on bytes: the low bit of the result tells the bit shifted out.\<close>

lemma pec_bit_eq: "pec_bit crc = (if bit crc 7 then push_bit 1 crc XOR 0x07 else push_bit 1 crc)"
proof -
  have "crc AND 0x80 \<noteq> 0 \<longleftrightarrow> bit crc 7" using and_bit_zero_iff [of crc 7] by (simp add: push_bit_eq_mult)
  moreover have "(ucast (push_bit 1 (ucast crc :: u32)) :: u8) = push_bit 1 crc"
    by (rule bit_word_eqI) (auto simp: bit_simps simp del: push_bit_Suc One_nat_def)
  moreover have "(ucast (push_bit 1 (ucast crc :: u32) XOR 7) :: u8) = push_bit 1 crc XOR 7"
    by (rule bit_word_eqI) (auto simp: bit_simps simp del: push_bit_Suc One_nat_def)
  ultimately show ?thesis by (simp add: pec_bit_def Let_def)
qed

lemma word_xor_cancel: "a XOR c = b XOR c \<longleftrightarrow> a = b" for a b c :: "'a::len word"
  by (metis xor.assoc xor.right_neutral xor_self_eq)

lemma pec_bit_inj: "pec_bit x = pec_bit y \<Longrightarrow> x = y"
proof -
  assume eq: "pec_bit x = pec_bit y"
  have low: "bit (pec_bit c) 0 \<longleftrightarrow> bit c 7" for c by (auto simp: pec_bit_eq bit_simps simp del: push_bit_Suc One_nat_def)
  then have seven: "bit x 7 \<longleftrightarrow> bit y 7" using eq by metis
  have "push_bit 1 x = push_bit 1 y"
    using eq seven unfolding pec_bit_eq by (cases "bit x 7") (simp_all only: if_True if_False word_xor_cancel)
  then have "\<forall>n. bit (push_bit 1 x) (Suc n) = bit (push_bit 1 y) (Suc n)" by simp
  then have "bit x n = bit y n" if "n < 7" for n
    using that by (auto simp: bit_simps simp del: push_bit_Suc One_nat_def)
  moreover have "n < 7 \<or> n = 7" if "n < LENGTH(8)" for n using that by auto
  ultimately show "x = y" using seven by (intro bit_word_eqI) blast
qed

lemma pec_step_inj: "(pec_bit ^^ n) x = (pec_bit ^^ n) y \<longleftrightarrow> x = y"
  by (induction n) (auto dest: pec_bit_inj)

lemma pec_step_zero: "(pec_bit ^^ n) 0 = 0"
  by (induction n) (simp_all add: pec_bit_eq)

lemma smbus_pec_append: "smbus_pec crc (xs @ ys) = smbus_pec (smbus_pec crc xs) ys"
  by (induction xs arbitrary: crc) auto

lemma smbus_pec_inj: "smbus_pec x bs = smbus_pec y bs \<longleftrightarrow> x = y"
proof (induction bs arbitrary: x y)
  case (Cons b bs)
  then show ?case by (simp add: pec_step_inj word_xor_cancel)
qed simp

text \<open>
  The SMBus packet error code checks to zero when appended to its message, and changing any one
  byte of a message, by whatever bits, changes its code: such a corruption is always detected.
\<close>

theorem smbus_pec_detects:
  "smbus_pec crc (bytes @ [smbus_pec crc bytes]) = 0 \<and>
   (b \<noteq> b' \<longrightarrow> smbus_pec crc (xs @ b # ys) \<noteq> smbus_pec crc (xs @ b' # ys))"
proof -
  have "z XOR b = z XOR b' \<longleftrightarrow> b = b'" for z by (metis xor.assoc xor.left_neutral xor_self_eq)
  then show ?thesis by (simp add: smbus_pec_append pec_step_zero smbus_pec_inj pec_step_inj)
qed

theorem smbus_pec_detects_witness: "smbus_pec 0 ([0x20] @ 1 # [3]) \<noteq> smbus_pec 0 ([0x20] @ 2 # [3])"
  using smbus_pec_detects [of 0 "[]" 1 2 "[0x20]" "[3]"] by simp

end
