(* ===== verification/Timer.thy ===== *)
theory Timer
  imports Intrusive_List
begin

text \<open>
  The asynchronous timer of \<open>include/abstractx/hal/timer.hpp\<close> (sleeps as absolute deadlines in one
  sorted, doubly linked, intrusive list, with one hardware alarm for the earliest) and the periodic
  schedule of \<open>include/abstractx/deadline.hpp\<close>. An awaiter is its address and the members of all
  awaiters are maps. The target's alarm hook is the parameter \<open>arm\<close>: what it answers for a deadline;
  \<open>tm_alarm\<close> is the deadline the alarm is programmed for. Every operation runs under an interrupt
  guard, so it is one step. Operations that post coroutines return the handles.
\<close>

datatype timer_status = Timer_Ok | Timer_Cancelled | Timer_Timeout | Timer_Error

datatype alarm = Armed | Polled | Unsupported

definition kNow :: u64 where "kNow = 0"
definition kNever :: u64 where "kNever = 0xFFFFFFFFFFFFFFFF"

record timer =
  tm_head :: nat
  tm_mode :: alarm
  tm_alarm :: "u64 option"
  tm_prev :: "nat \<Rightarrow> nat"
  tm_next :: "nat \<Rightarrow> nat"
  tm_linked :: "nat \<Rightarrow> bool"
  tm_deadline :: "nat \<Rightarrow> u64"
  tm_handle :: "nat \<Rightarrow> handle"
  tm_status :: "nat \<Rightarrow> timer_status"
  tm_timestamp :: "nat \<Rightarrow> u64"

definition arm_alarm :: "(u64 \<Rightarrow> alarm) \<Rightarrow> u64 \<Rightarrow> timer \<Rightarrow> alarm \<times> timer" where
  "arm_alarm arm d t = (arm d, if arm d = Unsupported then t else t\<lparr>tm_alarm := Some d\<rparr>)"

definition disarm_alarm :: "timer \<Rightarrow> timer" where
  "disarm_alarm t = t\<lparr>tm_alarm := None\<rparr>"

definition timer_unlink :: "nat \<Rightarrow> timer \<Rightarrow> timer" where
  "timer_unlink n t =
    (let (h, nx) = link_out (tm_head t) (tm_next t) n (tm_prev t n);
         pv = (if nx n \<noteq> 0 then (tm_prev t)(nx n := tm_prev t n) else tm_prev t)
     in t\<lparr>tm_head := h, tm_next := nx(n := 0), tm_prev := pv(n := 0), tm_linked := (tm_linked t)(n := False)\<rparr>)"

text \<open>The walk of \<open>add_sleep\<close>: the last node whose deadline is not after the new one.\<close>

partial_function (option) timer_after :: "timer \<Rightarrow> u64 \<Rightarrow> nat \<Rightarrow> nat \<Rightarrow> nat option" where
  "timer_after t d p after =
    (if p \<noteq> 0 \<and> tm_deadline t p \<le> d then timer_after t d (tm_next t p) p else Some after)"

definition timer_link :: "nat \<Rightarrow> nat \<Rightarrow> timer \<Rightarrow> timer" where
  "timer_link n after t =
    (let nxt = (if after \<noteq> 0 then tm_next t after else tm_head t);
         pv = (tm_prev t)(n := after); pv = (if nxt \<noteq> 0 then pv(nxt := n) else pv);
         nx = (tm_next t)(n := nxt)
     in (if after \<noteq> 0 then t\<lparr>tm_next := nx(after := n)\<rparr> else t\<lparr>tm_next := nx, tm_head := n\<rparr>)
          \<lparr>tm_prev := pv, tm_linked := (tm_linked t)(n := True)\<rparr>)"

definition add_sleep :: "(u64 \<Rightarrow> alarm) \<Rightarrow> nat \<Rightarrow> timer \<Rightarrow> (bool \<times> timer) option" where
  "add_sleep arm n t =
    (case timer_after t (tm_deadline t n) (tm_head t) 0 of
       None \<Rightarrow> None
     | Some after \<Rightarrow>
        let t = timer_link n after t in
        if tm_head t = n then
          (let (a, t) = arm_alarm arm (tm_deadline t n) t in
           if a = Unsupported then Some (False, timer_unlink n t) else Some (True, t\<lparr>tm_mode := a\<rparr>))
        else Some (True, t))"

definition cancel_sleep :: "nat \<Rightarrow> timer \<Rightarrow> timer" where
  "cancel_sleep n t = (if tm_linked t n then timer_unlink n t else t)"

definition sleep_ms_duration :: "u32 \<Rightarrow> u32" where
  "sleep_ms_duration ms = ms * 1000"

definition sleep_await_ready :: "u32 \<Rightarrow> bool" where
  "sleep_await_ready duration \<longleftrightarrow> duration = 0"

definition sleep_await_suspend ::
    "(u64 \<Rightarrow> alarm) \<Rightarrow> u64 \<Rightarrow> u32 \<Rightarrow> nat \<Rightarrow> handle \<Rightarrow> timer \<Rightarrow> (bool \<times> timer) option" where
  "sleep_await_suspend arm now duration n h t =
    (let t = t\<lparr>tm_deadline := (tm_deadline t)(n := now + ucast duration), tm_handle := (tm_handle t)(n := h)\<rparr> in
     case add_sleep arm n t of
       None \<Rightarrow> None
     | Some (False, t) \<Rightarrow> Some (False, t\<lparr>tm_status := (tm_status t)(n := Timer_Error)\<rparr>)
     | Some (True, t) \<Rightarrow> Some (True, t))"

definition sleep_await_resume :: "nat \<Rightarrow> timer \<Rightarrow> timer_status \<times> u64" where
  "sleep_await_resume n t = (tm_status t n, tm_timestamp t n)"

definition sleep_awaiter_destroy :: "nat \<Rightarrow> timer \<Rightarrow> timer" where
  "sleep_awaiter_destroy n t = (if tm_linked t n then cancel_sleep n t else t)"

partial_function (option) expire_loop :: "u64 \<Rightarrow> timer \<Rightarrow> handle list \<Rightarrow> (timer \<times> handle list) option" where
  "expire_loop now t posts =
    (let n = tm_head t in
     if n \<noteq> 0 \<and> tm_deadline t n \<le> now then
       expire_loop now ((timer_unlink n t)\<lparr>tm_status := (tm_status t)(n := Timer_Ok),
           tm_timestamp := (tm_timestamp t)(n := now)\<rparr>) (posts @ [tm_handle t n])
     else Some (t, posts))"

definition expire_sleeps :: "(u64 \<Rightarrow> alarm) \<Rightarrow> u64 \<Rightarrow> timer \<Rightarrow> (u64 \<times> timer \<times> handle list) option" where
  "expire_sleeps arm now t = (case expire_loop now t [] of
     None \<Rightarrow> None
   | Some (t, posts) \<Rightarrow>
      if tm_head t \<noteq> 0 then
        (let next = tm_deadline t (tm_head t); (a, t) = arm_alarm arm next t
         in Some (next, t\<lparr>tm_mode := a\<rparr>, posts))
      else Some (kNever, disarm_alarm t, posts))"

definition service_due_us :: "(u64 \<Rightarrow> alarm) \<Rightarrow> u64 \<Rightarrow> timer \<Rightarrow> (u64 \<times> timer \<times> handle list) option" where
  "service_due_us arm now t = (if tm_mode t \<noteq> Polled then Some (kNever, t, []) else expire_sleeps arm now t)"

partial_function (option) sleep_count :: "timer \<Rightarrow> nat \<Rightarrow> nat \<Rightarrow> nat option" where
  "sleep_count t p n = (if p \<noteq> 0 then sleep_count t (tm_next t p) (Suc n) else Some n)"

definition pending_sleeps :: "timer \<Rightarrow> nat option" where
  "pending_sleeps t = sleep_count t (tm_head t) 0"

text \<open>The destructor: \<open>while (head_ != nullptr) unlink(*head_)\<close>.\<close>

partial_function (option) timer_destroy :: "timer \<Rightarrow> timer option" where
  "timer_destroy t = (if tm_head t \<noteq> 0 then timer_destroy (timer_unlink (tm_head t) t) else Some t)"

section \<open>Periodic schedules\<close>

definition next_period :: "u64 \<Rightarrow> u64 \<Rightarrow> u64 \<Rightarrow> u32 \<Rightarrow> u64 \<times> u32" where
  "next_period previous period now overruns =
    (if period = 0 then (now, overruns)
     else let next = previous + period in
          if next < now then
            let missed = (now - next - 1) div period + 1
            in (next + missed * period, overruns + ucast missed)
          else (next, overruns))"

section \<open>The sorted doubly linked list\<close>

fun prevs :: "(nat \<Rightarrow> nat) \<Rightarrow> nat \<Rightarrow> nat list \<Rightarrow> bool" where
  "prevs pv b [] \<longleftrightarrow> True"
| "prevs pv b (x # xs) \<longleftrightarrow> pv x = b \<and> prevs pv x xs"

lemma prevs_append: "prevs pv b (xs @ ys) \<longleftrightarrow> prevs pv b xs \<and> prevs pv (last (b # xs)) ys"
  by (induction xs arbitrary: b) auto

lemma prevs_upd [simp]: "w \<notin> set xs \<Longrightarrow> prevs (pv(w := v)) b xs = prevs pv b xs"
  by (induction xs arbitrary: b) auto

definition sleeps :: "timer \<Rightarrow> nat list \<Rightarrow> bool" where
  "sleeps t xs \<longleftrightarrow> chain (tm_next t) (tm_head t) xs 0 \<and> prevs (tm_prev t) 0 xs \<and> distinct xs \<and>
     (\<forall>a. tm_linked t a \<longleftrightarrow> a \<in> set xs)"

definition by_deadline :: "timer \<Rightarrow> nat list \<Rightarrow> bool" where
  "by_deadline t xs \<longleftrightarrow> sorted (map (tm_deadline t) xs)"

lemma sleeps_head: "sleeps t xs \<Longrightarrow> tm_head t = (case xs of [] \<Rightarrow> 0 | x # _ \<Rightarrow> x)"
  by (cases xs) (auto simp: sleeps_def)

lemma sleeps_no_null: "sleeps t xs \<Longrightarrow> 0 \<notin> set xs"
  by (auto simp: sleeps_def dest: chain_no_null)

lemma chain_head_zero: "chain nx p xs 0 \<Longrightarrow> p = 0 \<longleftrightarrow> xs = []"
  by (cases xs) auto

lemma timer_unlink_frame [simp]:
  "tm_deadline (timer_unlink n t) = tm_deadline t" "tm_handle (timer_unlink n t) = tm_handle t"
  "tm_status (timer_unlink n t) = tm_status t" "tm_timestamp (timer_unlink n t) = tm_timestamp t"
  "tm_mode (timer_unlink n t) = tm_mode t" "tm_alarm (timer_unlink n t) = tm_alarm t"
  by (simp_all add: timer_unlink_def link_out_def Let_def)

lemma sleeps_unlink:
  assumes "sleeps t (ys @ n # zs)"
  shows "sleeps (timer_unlink n t) (ys @ zs)"
proof -
  have c: "chain (tm_next t) (tm_head t) (ys @ n # zs) 0" and d: "distinct (ys @ n # zs)"
    and b: "prevs (tm_prev t) 0 (ys @ n # zs)" using assms by (auto simp: sleeps_def)
  have pv: "tm_prev t n = last (0 # ys)" "prevs (tm_prev t) n zs" "prevs (tm_prev t) 0 ys"
    using b by (simp_all add: prevs_append)
  obtain h nx where out: "link_out (tm_head t) (tm_next t) n (last (0 # ys)) = (h, nx)" by fastforce
  have chain: "chain (nx(n := 0)) h (ys @ zs) 0" using chain_link_out [OF c d out] d by simp
  have "n \<noteq> last (0 # ys)" using d chain_no_null [OF c] by (metis Un_iff distinct_append insertCI
      last.simps last_in_set list.set(2) set_append disjoint_iff)
  then have nxn: "nx n = (case zs of [] \<Rightarrow> 0 | z # _ \<Rightarrow> z)"
    using c out by (cases zs) (auto simp: chain_append link_out_def split: if_splits)
  have "prevs (if nx n \<noteq> 0 then (tm_prev t)(nx n := tm_prev t n) else tm_prev t) 0 (ys @ zs)"
    using nxn d pv chain_no_null [OF c] by (cases zs) (auto simp: prevs_append)
  then have "prevs ((if nx n \<noteq> 0 then (tm_prev t)(nx n := tm_prev t n) else tm_prev t)(n := 0)) 0 (ys @ zs)"
    using d by simp
  then show ?thesis using chain d out pv(1) assms
    by (auto simp: sleeps_def timer_unlink_def Let_def)
qed

lemma timer_after_spec:
  "chain (tm_next t) p xs 0 \<Longrightarrow>
    timer_after t d p a = Some (last (a # takeWhile (\<lambda>x. tm_deadline t x \<le> d) xs))"
proof (induction xs arbitrary: p a)
  case Nil
  then show ?case by (subst timer_after.simps) simp
next
  case (Cons x xs)
  then show ?case using Cons.IH [of "tm_next t x" x] by (subst timer_after.simps) auto
qed

lemma timer_link_frame [simp]:
  "tm_deadline (timer_link n a t) = tm_deadline t" "tm_handle (timer_link n a t) = tm_handle t"
  "tm_status (timer_link n a t) = tm_status t" "tm_timestamp (timer_link n a t) = tm_timestamp t"
  "tm_mode (timer_link n a t) = tm_mode t" "tm_alarm (timer_link n a t) = tm_alarm t"
  by (simp_all add: timer_link_def Let_def)

lemma sleeps_link:
  assumes "sleeps t (ys @ zs)" and n: "n \<notin> set (ys @ zs)" "n \<noteq> 0"
  shows "sleeps (timer_link n (last (0 # ys)) t) (ys @ n # zs)"
proof -
  have c: "chain (tm_next t) (tm_head t) (ys @ zs) 0" and d: "distinct (ys @ zs)"
    and b: "prevs (tm_prev t) 0 (ys @ zs)" using assms by (auto simp: sleeps_def)
  show ?thesis
  proof (cases ys rule: rev_cases)
    case Nil
    then show ?thesis using c d b n assms chain_no_null [OF c]
      by (cases zs) (auto simp: sleeps_def timer_link_def Let_def)
  next
    case (snoc us u)
    have u: "u \<noteq> 0" "u \<noteq> n" "u \<notin> set us" "u \<notin> set zs" using snoc d n chain_no_null [OF c] by auto
    have "chain (tm_next t) (tm_head t) us u" "chain (tm_next t) (tm_next t u) zs 0"
      using c snoc by (auto simp: chain_append)
    then have "chain ((tm_next t)(n := tm_next t u, u := n)) (tm_head t) (us @ u # n # zs) 0"
      using u n snoc by (simp add: chain_append)
    moreover have "prevs (let pv = (tm_prev t)(n := u) in
        if tm_next t u \<noteq> 0 then pv(tm_next t u := n) else pv) 0 (us @ u # n # zs)"
      using b snoc u n d c chain_no_null [OF c] by (cases zs) (auto simp: prevs_append chain_append Let_def)
    ultimately show ?thesis using snoc u d n assms
      by (auto simp: sleeps_def timer_link_def Let_def)
  qed
qed

lemma sleeps_upd [simp]:
  "sleeps (t\<lparr>tm_alarm := a\<rparr>) xs = sleeps t xs" "sleeps (t\<lparr>tm_mode := m\<rparr>) xs = sleeps t xs"
  "sleeps (t\<lparr>tm_status := st\<rparr>) xs = sleeps t xs" "sleeps (t\<lparr>tm_timestamp := ts\<rparr>) xs = sleeps t xs"
  by (simp_all add: sleeps_def)

lemma sorted_insert_at:
  "sorted (map f xs) \<Longrightarrow>
    sorted (map f (takeWhile (\<lambda>x. f x \<le> f n) xs @ n # dropWhile (\<lambda>x. f x \<le> f n) xs))"
  for f :: "'a \<Rightarrow> 'b::linorder"
proof (induction xs)
  case (Cons x xs)
  then show ?case by (auto simp: dest!: set_takeWhileD set_dropWhileD)
qed simp

text \<open>Adding a sleep: behind every deadline not later than its own; refused only without an alarm.\<close>

lemma add_sleep_spec:
  fixes t n
  defines "d \<equiv> tm_deadline t n"
  defines "ys xs \<equiv> takeWhile (\<lambda>x. tm_deadline t x \<le> d) xs" and "zs xs \<equiv> dropWhile (\<lambda>x. tm_deadline t x \<le> d) xs"
  assumes rep: "sleeps t xs" and n: "n \<notin> set xs" "n \<noteq> 0"
  shows "\<exists>t'. add_sleep arm n t = Some (\<not> (ys xs = [] \<and> arm d = Unsupported), t') \<and>
    tm_deadline t' = tm_deadline t \<and> tm_handle t' = tm_handle t \<and> tm_status t' = tm_status t \<and>
    (if ys xs = [] \<and> arm d = Unsupported then sleeps t' xs \<and> tm_alarm t' = tm_alarm t
     else sleeps t' (ys xs @ n # zs xs) \<and> tm_alarm t' = (if ys xs = [] then Some d else tm_alarm t))"
proof -
  have xs: "xs = ys xs @ zs xs" by (simp add: ys_def zs_def)
  let ?l = "timer_link n (last (0 # ys xs)) t"
  have l: "sleeps ?l (ys xs @ n # zs xs)" using sleeps_link [of t "ys xs" "zs xs" n] rep n xs by simp
  have after: "timer_after t d (tm_head t) 0 = Some (last (0 # ys xs))"
    using timer_after_spec [of t "tm_head t" xs] rep by (simp add: sleeps_def ys_def)
  have "n \<notin> set (ys xs)" using n(1) xs by (metis Un_iff set_append)
  then have hd: "tm_head ?l = n \<longleftrightarrow> ys xs = []"
    using sleeps_head [OF l] by (cases "ys xs") auto
  have un: "sleeps (timer_unlink n ?l) (ys xs @ zs xs)" using sleeps_unlink [OF l] .
  show ?thesis
    using after hd l un xs [symmetric]
    by (auto simp: add_sleep_def d_def [symmetric] Let_def arm_alarm_def)
qed

lemma expire_loop_spec:
  assumes "sleeps t xs"
  shows "\<exists>t'. expire_loop now t posts =
      Some (t', posts @ map (tm_handle t) (takeWhile (\<lambda>x. tm_deadline t x \<le> now) xs)) \<and>
    sleeps t' (dropWhile (\<lambda>x. tm_deadline t x \<le> now) xs) \<and>
    tm_deadline t' = tm_deadline t \<and> tm_alarm t' = tm_alarm t \<and>
    (\<forall>x \<in> set (takeWhile (\<lambda>x. tm_deadline t x \<le> now) xs). sleep_await_resume x t' = (Timer_Ok, now)) \<and>
    (\<forall>x. x \<notin> set (takeWhile (\<lambda>x. tm_deadline t x \<le> now) xs) \<longrightarrow> sleep_await_resume x t' = sleep_await_resume x t)"
  using assms
proof (induction xs arbitrary: t posts)
  case Nil
  then show ?case using sleeps_head [OF Nil] by (subst expire_loop.simps) auto
next
  case (Cons x xs)
  have x: "tm_head t = x" "x \<noteq> 0" "x \<notin> set xs"
    using Cons.prems sleeps_head [OF Cons.prems] sleeps_no_null [OF Cons.prems] by (auto simp: sleeps_def)
  show ?case
  proof (cases "tm_deadline t x \<le> now")
    case False
    then show ?thesis using x Cons.prems by (subst expire_loop.simps) auto
  next
    case True
    let ?t = "(timer_unlink x t)\<lparr>tm_status := (tm_status t)(x := Timer_Ok), tm_timestamp := (tm_timestamp t)(x := now)\<rparr>"
    have step: "expire_loop now t posts = expire_loop now ?t (posts @ [tm_handle t x])"
      using x True by (subst expire_loop.simps) (simp add: Let_def)
    have "sleeps (timer_unlink x t) xs" using sleeps_unlink [of t "[]" x xs] Cons.prems by simp
    then have t: "sleeps ?t xs" by simp
    have tw: "x \<notin> set (takeWhile (\<lambda>x. tm_deadline t x \<le> now) xs)" using x(3) by (auto dest: set_takeWhileD)
    obtain t' where "expire_loop now ?t (posts @ [tm_handle t x]) =
        Some (t', (posts @ [tm_handle t x]) @ map (tm_handle t) (takeWhile (\<lambda>x. tm_deadline t x \<le> now) xs))"
      "sleeps t' (dropWhile (\<lambda>x. tm_deadline t x \<le> now) xs)" "tm_deadline t' = tm_deadline t"
      "tm_alarm t' = tm_alarm t"
      "\<forall>x \<in> set (takeWhile (\<lambda>x. tm_deadline t x \<le> now) xs). sleep_await_resume x t' = (Timer_Ok, now)"
      "\<forall>y. y \<notin> set (takeWhile (\<lambda>x. tm_deadline t x \<le> now) xs) \<longrightarrow>
        sleep_await_resume y t' = sleep_await_resume y ?t"
      using Cons.IH [OF t, of "posts @ [tm_handle t x]"] by auto
    then show ?thesis unfolding step using True tw
      by (intro exI [of _ t']) (auto simp: sleep_await_resume_def)
  qed
qed

lemma sleep_count_spec: "chain (tm_next t) p xs 0 \<Longrightarrow> sleep_count t p n = Some (n + length xs)"
proof (induction xs arbitrary: p n)
  case Nil
  then show ?case by (subst sleep_count.simps) simp
next
  case (Cons x xs)
  then show ?case by (subst sleep_count.simps) auto
qed

lemma timer_destroy_spec: "sleeps t xs \<Longrightarrow> \<exists>t'. timer_destroy t = Some t' \<and> sleeps t' []"
proof (induction xs arbitrary: t)
  case Nil
  then show ?case using sleeps_head [OF Nil] by (subst timer_destroy.simps) auto
next
  case (Cons x xs)
  then have "tm_head t = x" "x \<noteq> 0" using sleeps_head [OF Cons.prems] sleeps_no_null [OF Cons.prems] by auto
  moreover have "sleeps (timer_unlink x t) xs" using sleeps_unlink [of t "[]" x xs] Cons.prems by simp
  ultimately show ?case using Cons.IH by (subst timer_destroy.simps) auto
qed

section \<open>The timer under its clients\<close>

text \<open>
  Coroutines going to sleep, tasks destroyed while they sleep, and the alarm or the polling loop
  expiring sleeps, in any order and at any times.
\<close>

inductive timer_steps :: "(u64 \<Rightarrow> alarm) \<Rightarrow> timer \<Rightarrow> timer \<Rightarrow> bool" for arm where
  sleeping: "\<not> tm_linked t n \<Longrightarrow> n \<noteq> 0 \<Longrightarrow> sleep_await_suspend arm now duration n h t = Some (b, t') \<Longrightarrow>
    timer_steps arm t t'"
| destroyed: "timer_steps arm t (sleep_awaiter_destroy n t)"
| expiring: "expire_sleeps arm now t = Some (next, t', posts) \<Longrightarrow> timer_steps arm t t'"

definition alarm_covers :: "timer \<Rightarrow> nat list \<Rightarrow> bool" where
  "alarm_covers t xs \<longleftrightarrow> xs = [] \<or> (\<exists>a. tm_alarm t = Some a \<and> a \<le> tm_deadline t (hd xs))"

definition timer_inv :: "timer \<Rightarrow> nat list \<Rightarrow> bool" where
  "timer_inv t xs \<longleftrightarrow> sleeps t xs \<and> by_deadline t xs \<and> alarm_covers t xs"

lemma timer_inv_sleep:
  assumes inv: "timer_inv t xs" and n: "\<not> tm_linked t n" "n \<noteq> 0"
    and s: "sleep_await_suspend arm now duration n h t = Some (b, t')"
  shows "\<exists>ys. timer_inv t' ys"
proof -
  let ?t = "t\<lparr>tm_deadline := (tm_deadline t)(n := now + ucast duration), tm_handle := (tm_handle t)(n := h)\<rparr>"
  let ?d = "tm_deadline ?t n"
  define ys zs where "ys = takeWhile (\<lambda>x. tm_deadline ?t x \<le> ?d) xs" and "zs = dropWhile (\<lambda>x. tm_deadline ?t x \<le> ?d) xs"
  have nx: "n \<notin> set xs" using inv n by (simp add: timer_inv_def sleeps_def)
  have rep: "sleeps ?t xs" using inv by (simp add: timer_inv_def sleeps_def)
  have eq: "map (tm_deadline ?t) xs = map (tm_deadline t) xs" using nx by simp
  have sorted: "sorted (map (tm_deadline ?t) xs)"
    using inv unfolding eq by (simp add: timer_inv_def by_deadline_def)
  have cov: "alarm_covers ?t xs" using inv nx by (cases xs) (auto simp: timer_inv_def alarm_covers_def)
  from add_sleep_spec [OF rep nx n(2), of arm] obtain r where r:
    "add_sleep arm n ?t = Some (\<not> (ys = [] \<and> arm ?d = Unsupported), r)"
    "tm_deadline r = tm_deadline ?t"
    "if ys = [] \<and> arm ?d = Unsupported then sleeps r xs \<and> tm_alarm r = tm_alarm ?t
     else sleeps r (ys @ n # zs) \<and> tm_alarm r = (if ys = [] then Some ?d else tm_alarm ?t)"
    unfolding ys_def zs_def by blast
  have t': "t' = (if ys = [] \<and> arm ?d = Unsupported then r\<lparr>tm_status := (tm_status r)(n := Timer_Error)\<rparr> else r)"
    using s r(1) by (auto simp: sleep_await_suspend_def Let_def split: if_splits bool.splits)
  show ?thesis
  proof (cases "ys = [] \<and> arm ?d = Unsupported")
    case True
    then have "sleeps t' xs" "tm_deadline t' = tm_deadline ?t" "tm_alarm t' = tm_alarm ?t"
      using r t' by auto
    then show ?thesis using sorted cov by (intro exI [of _ xs]) (simp add: timer_inv_def by_deadline_def alarm_covers_def)
  next
    case False
    have t': "t' = r" using t' False by argo
    have "by_deadline t' (ys @ n # zs)"
      unfolding by_deadline_def ys_def zs_def t' r(2) by (rule sorted_insert_at [OF sorted])
    moreover have "alarm_covers t' (ys @ n # zs)"
    proof (cases ys)
      case Nil
      then show ?thesis using r t' False by (simp add: alarm_covers_def)
    next
      case (Cons y us)
      then have "hd xs = y" "xs \<noteq> []" unfolding ys_def by (cases xs; auto split: if_splits)+
      then show ?thesis using Cons cov r t' by (auto simp: alarm_covers_def)
    qed
    ultimately show ?thesis using r(3) t' False by (intro exI [of _ "ys @ n # zs"]) (simp add: timer_inv_def)
  qed
qed

lemma sorted_remove_mid: "sorted (map f (ys @ n # zs)) \<Longrightarrow> sorted (map f (ys @ zs))"
  for f :: "'a \<Rightarrow> 'b::linorder"
  by (auto simp: sorted_append)

lemma timer_inv_destroy:
  assumes inv: "timer_inv t xs"
  shows "\<exists>ys. timer_inv (sleep_awaiter_destroy n t) ys"
proof (cases "tm_linked t n")
  case True
  then have "n \<in> set xs" using inv by (simp add: timer_inv_def sleeps_def)
  then obtain ys zs where xs: "xs = ys @ n # zs" by (meson split_list)
  have sorted: "sorted (map (tm_deadline t) (ys @ n # zs))" using inv xs by (simp add: timer_inv_def by_deadline_def)
  have "sleeps (timer_unlink n t) (ys @ zs)" using inv xs sleeps_unlink by (simp add: timer_inv_def)
  moreover have "by_deadline (timer_unlink n t) (ys @ zs)"
    using sorted_remove_mid [OF sorted] by (simp add: by_deadline_def)
  moreover have "alarm_covers (timer_unlink n t) (ys @ zs)"
    using inv xs sorted by (cases ys; cases zs) (auto simp: timer_inv_def alarm_covers_def intro: order_trans)
  ultimately show ?thesis
    using True by (intro exI [of _ "ys @ zs"]) (simp add: timer_inv_def sleep_awaiter_destroy_def cancel_sleep_def)
qed (use inv in \<open>auto simp: sleep_awaiter_destroy_def\<close>)

lemma expire_sleeps_spec:
  assumes rep: "sleeps t xs"
  shows "\<exists>t'. expire_sleeps arm now t =
      Some (case dropWhile (\<lambda>x. tm_deadline t x \<le> now) xs of [] \<Rightarrow> kNever | x # _ \<Rightarrow> tm_deadline t x, t',
        map (tm_handle t) (takeWhile (\<lambda>x. tm_deadline t x \<le> now) xs)) \<and>
    sleeps t' (dropWhile (\<lambda>x. tm_deadline t x \<le> now) xs) \<and> tm_deadline t' = tm_deadline t \<and>
    (case dropWhile (\<lambda>x. tm_deadline t x \<le> now) xs of
       [] \<Rightarrow> tm_alarm t' = None
     | x # _ \<Rightarrow> arm (tm_deadline t x) \<noteq> Unsupported \<longrightarrow> tm_alarm t' = Some (tm_deadline t x)) \<and>
    (\<forall>x \<in> set (takeWhile (\<lambda>x. tm_deadline t x \<le> now) xs). sleep_await_resume x t' = (Timer_Ok, now))"
proof -
  from expire_loop_spec [OF rep, of now "[]"] obtain r where r:
    "expire_loop now t [] = Some (r, map (tm_handle t) (takeWhile (\<lambda>x. tm_deadline t x \<le> now) xs))"
    "sleeps r (dropWhile (\<lambda>x. tm_deadline t x \<le> now) xs)" "tm_deadline r = tm_deadline t"
    "\<forall>x \<in> set (takeWhile (\<lambda>x. tm_deadline t x \<le> now) xs). sleep_await_resume x r = (Timer_Ok, now)" by auto
  show ?thesis
  proof (cases "dropWhile (\<lambda>x. tm_deadline t x \<le> now) xs")
    case Nil
    then have "sleeps r []" using r(2) by (simp del: dropWhile_eq_Nil_conv)
    then have "sleeps (disarm_alarm r) []" "tm_head r = 0"
      using sleeps_head by (auto simp: disarm_alarm_def sleeps_def)
    then show ?thesis using r unfolding Nil
      by (intro exI [of _ "disarm_alarm r"]) (auto simp: expire_sleeps_def disarm_alarm_def sleep_await_resume_def)
  next
    case (Cons x ws)
    let ?r = "(snd (arm_alarm arm (tm_deadline t x) r))\<lparr>tm_mode := arm (tm_deadline t x)\<rparr>"
    have "tm_head r = x" "x \<noteq> 0" using sleeps_head [OF r(2)] sleeps_no_null [OF r(2)] Cons by auto
    moreover have "sleeps ?r (x # ws)" using r(2) Cons by (simp add: sleeps_def arm_alarm_def)
    ultimately show ?thesis using r unfolding Cons
      by (intro exI [of _ ?r]) (auto simp: expire_sleeps_def arm_alarm_def sleep_await_resume_def Let_def)
  qed
qed

lemma timer_inv_step:
  assumes arm: "\<forall>d. arm d \<noteq> Unsupported"
  shows "timer_steps arm t t' \<Longrightarrow> timer_inv t xs \<Longrightarrow> \<exists>ys. timer_inv t' ys"
proof (induction rule: timer_steps.induct)
  case (sleeping t n now duration h b t')
  then show ?case using timer_inv_sleep by blast
next
  case (destroyed t n)
  then show ?case using timer_inv_destroy by blast
next
  case (expiring now t "next" t' posts)
  let ?ys = "dropWhile (\<lambda>x. tm_deadline t x \<le> now) xs"
  have rep: "sleeps t xs" and so: "sorted (map (tm_deadline t) xs)"
    using expiring by (auto simp: timer_inv_def by_deadline_def)
  have t': "sleeps t' ?ys" "tm_deadline t' = tm_deadline t"
    "case ?ys of [] \<Rightarrow> tm_alarm t' = None | x # _ \<Rightarrow> tm_alarm t' = Some (tm_deadline t x)"
    using expire_sleeps_spec [OF rep, of arm now] expiring(1) arm
    by (auto simp del: dropWhile_eq_Nil_conv split: list.splits)
  have "sorted (map (tm_deadline t) ?ys)"
    using so takeWhile_dropWhile_id [of "\<lambda>x. tm_deadline t x \<le> now" xs] by (metis map_append sorted_append)
  moreover have "alarm_covers t' ?ys" using t'(2,3) by (auto simp: alarm_covers_def split: list.splits)
  ultimately show ?case using t' by (intro exI [of _ ?ys]) (simp add: timer_inv_def by_deadline_def)
qed

lemma timer_inv_reachable:
  "\<forall>d. arm d \<noteq> Unsupported \<Longrightarrow> (timer_steps arm)\<^sup>*\<^sup>* t t' \<Longrightarrow> timer_inv t xs \<Longrightarrow> \<exists>ys. timer_inv t' ys"
  by (rotate_tac, induction arbitrary: xs rule: rtranclp_induct) (blast dest: timer_inv_step)+

definition new_timer :: timer where
  "new_timer = \<lparr>tm_head = 0, tm_mode = Armed, tm_alarm = None, tm_prev = (\<lambda>_. 0), tm_next = (\<lambda>_. 0),
     tm_linked = (\<lambda>_. False), tm_deadline = (\<lambda>_. 0), tm_handle = (\<lambda>_. null_handle),
     tm_status = (\<lambda>_. Timer_Ok), tm_timestamp = (\<lambda>_. 0)\<rparr>"

lemma new_timer_inv: "timer_inv new_timer []"
  by (simp add: timer_inv_def new_timer_def sleeps_def by_deadline_def alarm_covers_def)

lemma next_period_missed:
  fixes P p n :: nat
  assumes "0 < p" and "P + p < n"
  shows "n \<le> P + p + ((n - (P + p) - 1) div p + 1) * p" "P + p + ((n - (P + p) - 1) div p + 1) * p < n + p"
proof -
  let ?x = "n - (P + p) - 1"
  define q where "q = ?x div p * p"
  have "q \<le> ?x" "?x < q + p" using assms(1) dividend_less_div_times [of p ?x] by (simp_all add: q_def)
  moreover have "(?x div p + 1) * p = q + p" by (simp add: q_def)
  ultimately show "n \<le> P + p + (?x div p + 1) * p" "P + p + (?x div p + 1) * p < n + p"
    using assms(2) by linarith+
qed

lemma sorted_takeWhile_filter:
  fixes f :: "'a \<Rightarrow> 'b::linorder"
  assumes "sorted (map f xs)"
  shows "takeWhile (\<lambda>x. f x \<le> k) xs = filter (\<lambda>x. f x \<le> k) xs"
    "dropWhile (\<lambda>x. f x \<le> k) xs = filter (\<lambda>x. k < f x) xs"
proof -
  show "takeWhile (\<lambda>x. f x \<le> k) xs = filter (\<lambda>x. f x \<le> k) xs"
    using assms
  proof (induction xs)
    case (Cons x xs)
    then have "\<not> f x \<le> k \<Longrightarrow> filter (\<lambda>x. f x \<le> k) xs = []" by (force simp: filter_empty_conv)
    then show ?case using Cons by auto
  qed simp
  show "dropWhile (\<lambda>x. f x \<le> k) xs = filter (\<lambda>x. k < f x) xs"
    using assms
  proof (induction xs)
    case (Cons x xs)
    then have "\<not> f x \<le> k \<Longrightarrow> filter (\<lambda>x. k < f x) xs = xs" by (force simp: filter_id_conv)
    then show ?case using Cons by (auto simp: not_le)
  qed simp
qed

text \<open>
  The millisecond form multiplies in 32 bits: 4294968 ms (about 71.6 minutes) asks for 704 us.
\<close>

lemma sleep_ms_wraps: "sleep_ms_duration 4294968 = 704"
  by (simp add: sleep_ms_duration_def)

section \<open>Properties of the timer\<close>

text \<open>
  (C13) Whatever sequence of sleeps, destroyed sleepers and expiries has run, the pending sleeps form
  one well-linked list sorted by deadline, and if any sleep is pending the hardware alarm is
  programmed no later than the earliest deadline: no sleep is forgotten by the alarm.
\<close>

theorem timer_alarm_covers_earliest:
  assumes "\<forall>d. arm d \<noteq> Unsupported" and "(timer_steps arm)\<^sup>*\<^sup>* new_timer t"
  shows "\<exists>xs. sleeps t xs \<and> sorted (map (tm_deadline t) xs) \<and> pending_sleeps t = Some (length xs) \<and>
    (xs \<noteq> [] \<longrightarrow> (\<exists>a. tm_alarm t = Some a \<and> (\<forall>n \<in> set xs. a \<le> tm_deadline t n)))"
proof -
  obtain xs where inv: "timer_inv t xs" using timer_inv_reachable [OF assms new_timer_inv] by blast
  have so: "sorted (map (tm_deadline t) xs)" using inv by (simp add: timer_inv_def by_deadline_def)
  have "xs \<noteq> [] \<longrightarrow> (\<exists>a. tm_alarm t = Some a \<and> (\<forall>n \<in> set xs. a \<le> tm_deadline t n))"
    using inv so by (cases xs) (auto simp: timer_inv_def alarm_covers_def intro: order_trans)
  moreover have "pending_sleeps t = Some (length xs)"
    using inv sleep_count_spec [of t "tm_head t" xs 0] by (simp add: pending_sleeps_def timer_inv_def sleeps_def)
  ultimately show ?thesis using inv so by (auto simp: timer_inv_def)
qed

definition one_sleep :: timer where
  "one_sleep = snd (the (sleep_await_suspend (\<lambda>_. Armed) 100 50 8 9 new_timer))"

lemma one_sleep_step: "timer_steps (\<lambda>_. Armed) new_timer one_sleep"
proof (rule sleeping [of _ 8 _ 100 50 9 True])
  show "sleep_await_suspend (\<lambda>_. Armed) 100 50 8 9 new_timer = Some (True, one_sleep)"
    by (simp add: one_sleep_def sleep_await_suspend_def add_sleep_def timer_after.simps timer_link_def
        arm_alarm_def new_timer_def Let_def)
qed (simp_all add: new_timer_def)

theorem timer_alarm_covers_earliest_witness:
  "\<exists>xs. sleeps one_sleep xs \<and> pending_sleeps one_sleep = Some (length xs)"
  using timer_alarm_covers_earliest [of "\<lambda>_. Armed" one_sleep] one_sleep_step by auto

text \<open>
  (C14) Expiring the sleeps at a time posts exactly the sleepers whose deadline has come, in deadline
  order and in order of arrival among equal deadlines, each with an Ok result stamped with that time;
  the others stay listed, and the alarm and the returned time are for the earliest of them (disarmed
  and \<open>kNever\<close> if there is none).
\<close>

theorem expire_posts_exactly_due:
  assumes rep: "sleeps t xs" and so: "by_deadline t xs" and arm: "\<forall>d. arm d \<noteq> Unsupported"
  shows "\<exists>t'. expire_sleeps arm now t =
      Some (case filter (\<lambda>n. now < tm_deadline t n) xs of [] \<Rightarrow> kNever | n # _ \<Rightarrow> tm_deadline t n, t',
        map (tm_handle t) (filter (\<lambda>n. tm_deadline t n \<le> now) xs)) \<and>
    sleeps t' (filter (\<lambda>n. now < tm_deadline t n) xs) \<and>
    tm_alarm t' = (case filter (\<lambda>n. now < tm_deadline t n) xs of [] \<Rightarrow> None | n # _ \<Rightarrow> Some (tm_deadline t n)) \<and>
    (\<forall>n \<in> set xs. tm_deadline t n \<le> now \<longrightarrow> sleep_await_resume n t' = (Timer_Ok, now))"
proof -
  have eq: "takeWhile (\<lambda>x. tm_deadline t x \<le> now) xs = filter (\<lambda>n. tm_deadline t n \<le> now) xs"
    "dropWhile (\<lambda>x. tm_deadline t x \<le> now) xs = filter (\<lambda>n. now < tm_deadline t n) xs"
    using so sorted_takeWhile_filter unfolding by_deadline_def by blast+
  show ?thesis
    using expire_sleeps_spec [OF rep, of arm now] arm unfolding eq
    by (auto split: list.splits)
qed

theorem expire_posts_exactly_due_witness:
  "\<exists>t'. expire_sleeps (\<lambda>_. Armed) 150 one_sleep = Some (kNever, t', [9]) \<and> sleeps t' []"
proof -
  have "sleeps one_sleep [8]" "tm_deadline one_sleep 8 = 150" "tm_handle one_sleep 8 = 9"
    by (auto simp: one_sleep_def sleep_await_suspend_def add_sleep_def timer_after.simps timer_link_def
        arm_alarm_def new_timer_def sleeps_def Let_def)
  then show ?thesis
    using expire_posts_exactly_due [of one_sleep "[8]" "\<lambda>_. Armed" 150] by (auto simp: by_deadline_def)
qed

text \<open>
  \<open>next_period\<close> returns the earliest slot of the schedule that is not before \<open>now\<close> (a later slot
  than the previous one) and adds the number of slots it skipped to the overrun counter, as long as
  the times stay within 64 bits.
\<close>

theorem next_period_least_slot:
  assumes "period \<noteq> 0" and "unat previous + unat period < 2 ^ 64" and "unat now + unat period < 2 ^ 64"
  shows "\<exists>k \<ge> 1. unat (fst (next_period previous period now overruns)) = unat previous + k * unat period \<and>
    now \<le> fst (next_period previous period now overruns) \<and>
    (\<forall>j. 1 \<le> j \<and> j < k \<longrightarrow> unat previous + j * unat period < unat now) \<and>
    snd (next_period previous period now overruns) = overruns + of_nat (k - 1)"
proof -
  let ?P = "unat previous" and ?p = "unat period" and ?n = "unat now" and ?nx = "previous + period"
  have p: "0 < ?p" using assms(1) by (simp add: unat_gt_0)
  have nx: "unat ?nx = ?P + ?p" using assms(2) by (simp add: unat_word_ariths)
  show ?thesis
  proof (cases "?nx < now")
    case False
    then show ?thesis using assms(1) nx
      by (intro exI [of _ 1]) (auto simp: next_period_def Let_def)
  next
    case True
    then have lt: "?P + ?p < ?n" using nx by (simp add: word_less_nat_alt)
    let ?m = "(?n - (?P + ?p) - 1) div ?p + 1" and ?w = "(now - ?nx - 1) div period + 1"
    note b = next_period_missed [OF p lt]
    have d: "unat (now - ?nx) = ?n - (?P + ?p)" using True nx by (simp add: unat_sub order_less_imp_le)
    have d1: "unat (now - ?nx - 1) = ?n - (?P + ?p) - 1"
      using d lt by (subst unat_sub) (auto simp: word_le_nat_alt)
    have "?m \<le> ?n" using div_le_dividend [of "?n - (?P + ?p) - 1" ?p] lt by linarith
    then have m: "unat ?w = ?m" using d1 assms(3) by (simp add: unat_word_ariths unat_div)
    have res: "unat (?nx + ?w * period) = ?P + ?p + ?m * ?p"
      using b(2) assms(3) nx m by (simp add: unat_word_ariths)
    have "?P + j * ?p < ?n" if "j < ?m + 1" for j
    proof -
      have "j * ?p \<le> ?m * ?p" using that by (intro mult_le_mono1) simp
      then show ?thesis using b(2) by linarith
    qed
    moreover have "ucast ?w = (of_nat ?m :: u32)" unfolding m [symmetric] by simp
    moreover have "next_period previous period now overruns = (?nx + ?w * period, overruns + ucast ?w)"
      using assms(1) True by (simp add: next_period_def Let_def)
    moreover have "now \<le> ?nx + ?w * period" using b(1) res by (simp add: word_le_nat_alt)
    ultimately show ?thesis using res by (intro exI [of _ "?m + 1"]) simp
  qed
qed

theorem next_period_least_slot_witness:
  "fst (next_period 0 10 35 7) = 40 \<and> snd (next_period 0 10 35 7) = 10"
proof -
  obtain k where k: "1 \<le> k" "unat (fst (next_period 0 10 35 7)) = k * 10" "35 \<le> fst (next_period 0 10 35 7)"
    "\<forall>j. 1 \<le> j \<and> j < k \<longrightarrow> j * 10 < 35" "snd (next_period 0 10 35 7) = 7 + of_nat (k - 1)"
    using next_period_least_slot [of 10 0 35 7] by auto
  have "35 \<le> unat (fst (next_period 0 10 35 7))" using k(3) by (simp add: word_le_nat_alt)
  then have "35 \<le> k * 10" using k(2) by simp
  then have "k = 4" using spec [OF k(4), of 4] by linarith
  then show ?thesis using k(2,5) by (simp add: word_unat_eq_iff)
qed

end
