(* ===== verification/Uart_Rx.thy ===== *)
theory Uart_Rx
  imports Io_Status
begin

text \<open>
  The UART receive ring of \<open>include/abstractx/hal/uart_rx.hpp\<close>: driver-owned storage filled by a
  circular DMA chain of buffers, read in place by one coroutine. The byte counters are free running
  32-bit words and comparisons between them go through a signed difference. Spans into the ring are
  the bytes they cover at the time of the call. The deadline and data hooks are function pointers of
  the driver: the model keeps whether they are set and the calls made to them.
\<close>

datatype wake_reason = R_None | R_Data | R_Timeout | R_Cancel

record uart_ring =
  ur_storage :: "u8 list"
  ur_buf :: u32
  ur_cap :: u32
  ur_deadline_fn :: bool
  ur_data_fn :: bool
  ur_wr :: u32
  ur_eof :: u32
  ur_rd :: u32
  ur_want :: u32
  ur_gen :: u32
  ur_waiter :: handle
  ur_reason :: wake_reason
  ur_cancel :: bool
  ur_errs :: u8
  ur_overrun :: u32
  ur_framing :: u32
  ur_parity :: u32
  ur_breaks :: u32
  ur_held :: u32
  ur_claimed :: bool
  ur_dropped_total :: u32
  ur_dropped_since :: u32
  ur_data_calls :: "(u8 list \<times> u8 list) list"

text \<open>\<open>static_cast<int32_t>(a) > 0\<close> on a 32-bit difference.\<close>

definition s32_pos :: "u32 \<Rightarrow> bool" where
  "s32_pos w \<longleftrightarrow> 0 < sint w"

section \<open>Views\<close>

record uart_view =
  uv_status :: uart_status
  uv_first :: "u8 list"
  uv_second :: "u8 list"
  uv_dropped :: u32
  uv_errors :: u8

definition view_of_status :: "uart_status \<Rightarrow> uart_view" where
  "view_of_status st = \<lparr>uv_status = st, uv_first = [], uv_second = [], uv_dropped = 0, uv_errors = 0\<rparr>"

definition view_size :: "uart_view \<Rightarrow> nat" where
  "view_size v = length (uv_first v) + length (uv_second v)"

definition view_at :: "uart_view \<Rightarrow> nat \<Rightarrow> u8" where
  "view_at v i = (if i < length (uv_first v) then uv_first v ! i else uv_second v ! (i - length (uv_first v)))"

definition view_copy_to :: "uart_view \<Rightarrow> u8 list \<Rightarrow> nat \<Rightarrow> nat \<times> u8 list" where
  "view_copy_to v dst offset =
    (let total = view_size v in
     if offset \<ge> total \<or> dst = [] then (0, dst)
     else let n = (if total - offset < length dst then total - offset else length dst)
          in (n, fold (\<lambda>i d. d[i := view_at v (offset + i)]) [0..<n] dst))"

fun view_find_from :: "uart_view \<Rightarrow> u8 \<Rightarrow> nat \<Rightarrow> nat \<Rightarrow> nat option" where
  "view_find_from v b i 0 = None"
| "view_find_from v b i (Suc n) = (if view_at v i = b then Some i else view_find_from v b (Suc i) n)"

definition view_find :: "uart_view \<Rightarrow> u8 \<Rightarrow> nat \<Rightarrow> nat option" where
  "view_find v b start = view_find_from v b start (view_size v - start)"

section \<open>Counters\<close>

definition max_read_bytes :: "uart_ring \<Rightarrow> u32" where
  "max_read_bytes r = ur_cap r - ur_buf r"

definition valid_floor :: "uart_ring \<Rightarrow> u32 \<Rightarrow> u32" where
  "valid_floor r w = (let dma_end = w div ur_buf r * ur_buf r + ur_buf r in dma_end - ur_cap r)"

definition valid_start :: "uart_ring \<Rightarrow> u32 \<Rightarrow> u32" where
  "valid_start r w =
    (let rd = ur_rd r; floor = valid_floor r w in if s32_pos (floor - rd) then floor else rd)"

definition rx_satisfied :: "uart_ring \<Rightarrow> bool" where
  "rx_satisfied r =
    (let w = ur_wr r; start = valid_start r w; avail = w - start
     in avail \<ge> ur_want r \<or> (avail > 0 \<and> s32_pos (ur_eof r - start)))"

text \<open>\<open>uart_wake\<close> takes the waiter and posts it, or puts it back when a data wake finds nothing to read.\<close>

definition uart_wake :: "wake_reason \<Rightarrow> uart_ring \<Rightarrow> uart_ring \<times> handle list" where
  "uart_wake reason r =
    (let h = ur_waiter r; r = r\<lparr>ur_waiter := null_handle\<rparr> in
     if h = null_handle then (r, [])
     else if reason = R_Data \<and> \<not> rx_satisfied r \<and> \<not> ur_cancel r then (r\<lparr>ur_waiter := h\<rparr>, [])
     else (r\<lparr>ur_reason := reason\<rparr>, [h]))"

section \<open>Producer\<close>

definition ring_spans :: "uart_ring \<Rightarrow> u32 \<Rightarrow> u32 \<Rightarrow> u8 list \<times> u8 list" where
  "ring_spans r start len =
    (let pos = start mod ur_cap r;
         n1 = (if len < ur_cap r - pos then len else ur_cap r - pos)
     in (take (unat n1) (drop (unat pos) (ur_storage r)), take (unat (len - n1)) (ur_storage r)))"

text \<open>The call of the byte handler: the bytes just written, at most one lap.\<close>

definition data_call :: "nat \<Rightarrow> uart_ring \<Rightarrow> (u8 list \<times> u8 list) option" where
  "data_call n r =
    (if ur_data_fn r \<and> n \<noteq> 0
     then Some (ring_spans r (ur_wr r) (if n < unat (ur_cap r) then of_nat n else ur_cap r)) else None)"

definition produced_from_isr :: "nat \<Rightarrow> bool \<Rightarrow> uart_ring \<Rightarrow> uart_ring \<times> handle list" where
  "produced_from_isr n end_of_frame r =
    (let r = (case data_call n r of None \<Rightarrow> r | Some c \<Rightarrow> r\<lparr>ur_data_calls := ur_data_calls r @ [c]\<rparr>);
         w = ur_wr r + of_nat n; r = r\<lparr>ur_wr := w\<rparr>;
         r = (if end_of_frame then r\<lparr>ur_eof := w\<rparr> else r)
     in if ur_waiter r \<noteq> null_handle \<and> rx_satisfied r then uart_wake R_Data r else (r, []))"

definition line_error_from_isr :: "u8 \<Rightarrow> uart_ring \<Rightarrow> uart_ring" where
  "line_error_from_isr errs r =
    (let r = (if bit errs 0 then r\<lparr>ur_overrun := ur_overrun r + 1\<rparr> else r);
         r = (if bit errs 1 then r\<lparr>ur_framing := ur_framing r + 1\<rparr> else r);
         r = (if bit errs 2 then r\<lparr>ur_parity := ur_parity r + 1\<rparr> else r);
         r = (if bit errs 3 then r\<lparr>ur_breaks := ur_breaks r + 1\<rparr> else r)
     in r\<lparr>ur_errs := or (ur_errs r) errs\<rparr>)"

definition deadline_from_isr :: "u32 \<Rightarrow> uart_ring \<Rightarrow> uart_ring \<times> handle list" where
  "deadline_from_isr token r = (if token = ur_gen r then uart_wake R_Timeout r else (r, []))"

section \<open>Reader\<close>

definition uart_make_view :: "uart_status \<Rightarrow> uart_ring \<Rightarrow> uart_view \<times> uart_ring" where
  "uart_make_view status r =
    (let w = ur_wr r; floor = valid_floor r w; rd = ur_rd r; lapped = s32_pos (floor - rd);
         r = (if lapped then r\<lparr>ur_dropped_total := ur_dropped_total r + (floor - rd),
                               ur_dropped_since := ur_dropped_since r + (floor - rd), ur_rd := floor\<rparr> else r);
         rd = (if lapped then floor else rd); avail = w - rd; (first, second) = ring_spans r rd avail
     in (\<lparr>uv_status = status, uv_first = first, uv_second = second, uv_dropped = ur_dropped_since r,
          uv_errors = ur_errs r\<rparr>,
         r\<lparr>ur_dropped_since := 0, ur_errs := 0, ur_held := avail\<rparr>))"

definition uart_release :: "nat \<Rightarrow> uart_ring \<Rightarrow> uart_status \<times> uart_ring" where
  "uart_release n r =
    (if n > unat (ur_held r) then (U_InvalidArgument, r)
     else let rd = ur_rd r; floor = valid_floor r (ur_wr r); over = floor - rd;
              lost = (if s32_pos over then if unat over < n then over else of_nat n else 0);
              r = (if lost \<noteq> 0 then r\<lparr>ur_dropped_total := ur_dropped_total r + lost\<rparr> else r)
          in (if lost \<noteq> 0 then U_OverrunError else U_Ok, r\<lparr>ur_rd := rd + of_nat n, ur_held := 0\<rparr>))"

text \<open>A read awaiter: whether its driver has a ring at all, the requested size and deadline, the refusal and the handle it published.\<close>

record uart_awaiter =
  ra_ring :: bool
  ra_min :: nat
  ra_timeout :: u32
  ra_refused :: uart_status
  ra_mine :: handle

definition uart_read_async :: "nat \<Rightarrow> u32 \<Rightarrow> uart_awaiter" where
  "uart_read_async min_bytes timeout = \<lparr>ra_ring = True, ra_min = min_bytes, ra_timeout = timeout, ra_refused = U_Ok, ra_mine = null_handle\<rparr>"

definition uart_await_ready :: "uart_awaiter \<Rightarrow> uart_ring \<Rightarrow> bool \<times> uart_awaiter \<times> uart_ring" where
  "uart_await_ready a r =
    (if \<not> ra_ring a then (True, a\<lparr>ra_refused := U_NotSupported\<rparr>, r)
     else if ra_min a = 0 \<or> ra_min a > unat (max_read_bytes r) then (True, a\<lparr>ra_refused := U_InvalidArgument\<rparr>, r)
     else if ra_timeout a \<noteq> 0 \<and> \<not> ur_deadline_fn r then (True, a\<lparr>ra_refused := U_NotSupported\<rparr>, r)
     else if ur_waiter r \<noteq> null_handle then (True, a\<lparr>ra_refused := U_QueueFull\<rparr>, r)
     else let r = r\<lparr>ur_claimed := True, ur_cancel := False, ur_want := of_nat (ra_min a)\<rparr> in
          if \<not> rx_satisfied r then (False, a, r) else (True, a, r\<lparr>ur_reason := R_Data\<rparr>))"

text \<open>\<open>await_suspend\<close> also returns the deadline it armed (timeout and token), if any.\<close>

definition uart_await_suspend ::
    "handle \<Rightarrow> uart_awaiter \<Rightarrow> uart_ring \<Rightarrow> bool \<times> uart_awaiter \<times> uart_ring \<times> (u32 \<times> u32) option" where
  "uart_await_suspend h a r =
    (let token = ur_gen r + 1; r = r\<lparr>ur_reason := R_None, ur_gen := token, ur_waiter := h\<rparr>; a = a\<lparr>ra_mine := h\<rparr> in
     if rx_satisfied r \<or> ur_cancel r then
       (if ur_waiter r \<noteq> null_handle
        then (False, a, r\<lparr>ur_waiter := null_handle, ur_reason := (if ur_cancel r \<and> \<not> rx_satisfied r then R_Cancel else R_Data)\<rparr>, None)
        else (True, a, r, None))
     else (True, a, r, if ra_timeout a \<noteq> 0 then Some (ra_timeout a, token) else None))"

definition uart_await_resume :: "uart_awaiter \<Rightarrow> uart_ring \<Rightarrow> uart_view \<times> uart_ring" where
  "uart_await_resume a r =
    (if ra_refused a \<noteq> U_Ok then (view_of_status (ra_refused a), r)
     else if ur_reason r = R_Cancel then (view_of_status U_Cancelled, r)
     else uart_make_view (if ur_reason r = R_Timeout then U_Timeout else U_Ok) r)"

definition uart_awaiter_destroy :: "uart_awaiter \<Rightarrow> uart_ring \<Rightarrow> uart_ring" where
  "uart_awaiter_destroy a r =
    (if ra_mine a \<noteq> null_handle \<and> ra_ring a \<and> ur_waiter r = ra_mine a then r\<lparr>ur_waiter := null_handle\<rparr> else r)"

definition uart_cancel_read :: "uart_ring \<Rightarrow> uart_ring \<times> handle list" where
  "uart_cancel_read r = uart_wake R_Cancel (r\<lparr>ur_cancel := True\<rparr>)"

definition uart_stats :: "uart_ring \<Rightarrow> u32 \<times> u32 \<times> u32 \<times> u32 \<times> u32" where
  "uart_stats r =
    (let over = valid_floor r (ur_wr r) - ur_rd r; pending = (if s32_pos over then over else 0)
     in (ur_dropped_total r + pending, ur_overrun r, ur_framing r, ur_parity r, ur_breaks r))"

definition uart_copy_out :: "nat \<Rightarrow> uart_ring \<Rightarrow> u8 list \<times> uart_ring" where
  "uart_copy_out max_len r =
    (if max_len = 0 then ([], r)
     else let (v, r) = uart_make_view U_Ok r; bytes = take max_len (uv_first v @ uv_second v)
          in (bytes, snd (uart_release (length bytes) r)))"

definition uart_reset :: "uart_ring \<Rightarrow> uart_ring" where
  "uart_reset r = r\<lparr>ur_wr := 0, ur_eof := 0, ur_rd := 0, ur_want := 1, ur_waiter := null_handle,
     ur_reason := R_None, ur_cancel := False, ur_errs := 0, ur_held := 0, ur_dropped_total := 0,
     ur_dropped_since := 0\<rparr>"

section \<open>The ring over the byte stream\<close>

text \<open>
  \<open>S i\<close> is the i-th byte the port received since the start, \<open>W\<close> how many the hardware has reported
  and \<open>R\<close> how many the reader has released: the unbounded counters behind \<open>wr_\<close> and \<open>rd_\<close>. The DMA
  is filling the buffer that ends at \<open>dma_end\<close>, so bytes older than one lap before it may be
  overwritten; every byte from the floor on is still in its place.
\<close>

definition floor_of :: "nat \<Rightarrow> nat \<Rightarrow> nat \<Rightarrow> int" where
  "floor_of b cap W = (int W div int b + 1) * int b - int cap"

definition uart_ok :: "uart_ring \<Rightarrow> (nat \<Rightarrow> u8) \<Rightarrow> nat \<Rightarrow> nat \<Rightarrow> bool" where
  "uart_ok r S W R \<longleftrightarrow>
     (\<exists>j k. j < k \<and> k < 31 \<and> unat (ur_buf r) = 2 ^ j \<and> unat (ur_cap r) = 2 ^ k) \<and>
     ur_wr r = of_nat W \<and> ur_rd r = of_nat R \<and> R \<le> W \<and> W - R < 2 ^ 31 \<and>
     length (ur_storage r) = unat (ur_cap r) \<and>
     (\<forall>i < W. floor_of (unat (ur_buf r)) (unat (ur_cap r)) W \<le> int i \<longrightarrow>
        ur_storage r ! (i mod unat (ur_cap r)) = S i)"

definition ring_floor :: "uart_ring \<Rightarrow> nat \<Rightarrow> int" where
  "ring_floor r W = floor_of (unat (ur_buf r)) (unat (ur_cap r)) W"

text \<open>The first byte a view delivers: the read counter, moved up to the floor if the reader was lapped.\<close>

definition view_start :: "uart_ring \<Rightarrow> nat \<Rightarrow> nat \<Rightarrow> nat" where
  "view_start r W R = (if int R < ring_floor r W then nat (ring_floor r W) else R)"

lemma word_mod_of_nat:
  fixes b :: "'w::len word"
  assumes "unat b dvd 2 ^ LENGTH('w)"
  shows "(of_nat W :: 'w word) mod b = of_nat (W mod unat b)"
proof (rule word_unat_eq_iff [THEN iffD2])
  have "unat ((of_nat W :: 'w word) mod b) = (W mod 2 ^ LENGTH('w)) mod unat b"
    by (simp add: unat_mod unat_of_nat)
  also have "\<dots> = W mod unat b" using assms by (rule mod_mod_cancel)
  also have "\<dots> = unat (of_nat (W mod unat b) :: 'w word)"
  proof (rule unat_of_nat_small [symmetric])
    have "0 < unat b" using assms by (auto intro: gr0I)
    then have "W mod unat b < unat b" by simp
    also have "\<dots> < 2 ^ LENGTH('w)" by (rule unsigned_less)
    finally show "W mod unat b < 2 ^ LENGTH('w)" .
  qed
  finally show "unat ((of_nat W :: 'w word) mod b) = unat (of_nat (W mod unat b) :: 'w word)" .
qed

lemma valid_floor_eq:
  assumes "unat (ur_buf r) dvd 2 ^ 32"
  shows "valid_floor r (of_nat W) = word_of_int (ring_floor r W)"
proof -
  let ?w = "of_nat W :: u32" and ?b = "ur_buf r"
  have "?w div ?b * ?b = ?w - ?w mod ?b" by (simp add: minus_mod_eq_div_mult)
  also have "\<dots> = of_nat W - of_nat (W mod unat ?b)"
    using word_mod_of_nat [of ?b W] assms by simp
  also have "\<dots> = word_of_int (int W - int (W mod unat ?b))"
    by (simp only: of_int_diff of_int_of_nat_eq)
  also have "int W - int (W mod unat ?b) = int W div int (unat ?b) * int (unat ?b)"
    unfolding zmod_int by (rule minus_mod_eq_div_mult)
  finally have "?w div ?b * ?b = word_of_int (int W div int (unat ?b) * int (unat ?b))" .
  moreover have "?b = word_of_int (int (unat ?b))" "ur_cap r = word_of_int (int (unat (ur_cap r)))" by simp_all
  ultimately have "valid_floor r ?w = word_of_int (int W div int (unat ?b) * int (unat ?b)) +
      word_of_int (int (unat ?b)) - word_of_int (int (unat (ur_cap r)))"
    unfolding valid_floor_def Let_def by metis
  also have "\<dots> = word_of_int (ring_floor r W)"
    unfolding ring_floor_def floor_of_def by (simp only: distrib_right mult_1 of_int_add of_int_diff)
  finally show ?thesis .
qed

lemma s32_pos_of_int: "- (2 ^ 31) \<le> x \<Longrightarrow> x < 2 ^ 31 \<Longrightarrow> s32_pos (word_of_int x) \<longleftrightarrow> 0 < x"
  by (simp add: s32_pos_def signed_of_int signed_take_bit_int_eq_self)

lemma uart_ok_floor:
  assumes ok: "uart_ok r S W R"
  shows "unat (ur_buf r) dvd 2 ^ 32" "unat (ur_cap r) dvd 2 ^ 32" "0 < unat (ur_cap r)" "unat (ur_cap r) < 2 ^ 31"
    "int W < ring_floor r W + int (unat (ur_cap r))" "ring_floor r W \<le> int W"
proof -
  obtain j k where jk: "j < k" "k < 31" "unat (ur_buf r) = 2 ^ j" "unat (ur_cap r) = 2 ^ k"
    using ok by (auto simp: uart_ok_def)
  then show "unat (ur_buf r) dvd 2 ^ 32" "unat (ur_cap r) dvd 2 ^ 32" "0 < unat (ur_cap r)"
    using le_imp_power_dvd [of j 32 "2 :: nat"] le_imp_power_dvd [of k 32 "2 :: nat"] by simp_all
  show "unat (ur_cap r) < 2 ^ 31" using jk power_strict_increasing [of k 31 "2 :: nat"] by simp
  let ?b = "2 ^ j :: int"
  have m: "int W div ?b * ?b + int W mod ?b = int W" "0 \<le> int W mod ?b" "int W mod ?b < ?b"
    by (rule div_mult_mod_eq) simp_all
  have "2 * ?b \<le> 2 ^ k" using jk(1) power_increasing [of "Suc j" k "2::int"] by simp
  then have "?b \<le> 2 ^ k" using m by linarith
  then show "int W < ring_floor r W + int (unat (ur_cap r))" "ring_floor r W \<le> int W"
    using m unfolding ring_floor_def floor_of_def jk by (simp_all only: distrib_right mult_1 of_nat_power of_nat_numeral)
qed

text \<open>The signed comparison of the code decides whether the reader was lapped.\<close>

lemma uart_ok_lapped:
  assumes ok: "uart_ok r S W R"
  shows "s32_pos (valid_floor r (ur_wr r) - ur_rd r) \<longleftrightarrow> int R < ring_floor r W"
    "valid_floor r (ur_wr r) - ur_rd r = word_of_int (ring_floor r W - int R)"
proof -
  note f = uart_ok_floor [OF ok]
  have w: "ur_wr r = of_nat W" "ur_rd r = of_nat R" "R \<le> W" "W - R < 2 ^ 31" using ok by (auto simp: uart_ok_def)
  show diff: "valid_floor r (ur_wr r) - ur_rd r = word_of_int (ring_floor r W - int R)"
    using valid_floor_eq [OF f(1), of W] w by simp
  have "unat (ur_cap r) < 2147483648" "W - R < 2147483648" using f(4) w(4) by simp_all
  then have "- 2147483648 \<le> ring_floor r W - int R \<and> ring_floor r W - int R < 2147483648"
    using f(5,6) w(3) by linarith
  then show "s32_pos (valid_floor r (ur_wr r) - ur_rd r) \<longleftrightarrow> int R < ring_floor r W"
    unfolding diff using s32_pos_of_int [of "ring_floor r W - int R"] by (simp del: of_int_diff)
qed

lemma spans_concat:
  assumes "uart_ok r S W R" and "n < unat (ur_cap r)"
  shows "fst (ring_spans r (of_nat s) (of_nat n)) @ snd (ring_spans r (of_nat s) (of_nat n)) =
    map (\<lambda>i. ur_storage r ! (i mod unat (ur_cap r))) [s..<s + n]"
proof -
  let ?c = "unat (ur_cap r)" and ?st = "ur_storage r"
  define p where "p = s mod ?c"
  note f = uart_ok_floor [OF assms(1)]
  have len: "length ?st = ?c" using assms(1) by (simp add: uart_ok_def)
  have p: "p < ?c" using f(3) by (simp add: p_def)
  have pos: "(of_nat s :: u32) mod ur_cap r = of_nat p" using word_mod_of_nat [of "ur_cap r" s] f(2) by (simp add: p_def)
  have up: "unat (of_nat p :: u32) = p" using p f(4) by (intro unat_of_nat_small) simp
  have un: "unat (of_nat n :: u32) = n" using assms(2) f(4) by (intro unat_of_nat_small) simp
  have sub: "unat (ur_cap r - of_nat p) = ?c - p" using p up by (subst unat_sub) (auto simp: word_le_nat_alt)
  define n1 where "n1 = (if n < ?c - p then n else ?c - p)"
  have n1: "unat (if of_nat n < ur_cap r - of_nat p then of_nat n else ur_cap r - of_nat p) = n1"
    using un sub by (simp add: n1_def word_less_nat_alt)
  have "n1 \<le> n" by (simp add: n1_def)
  then have n2: "unat (of_nat n - (if of_nat n < ur_cap r - of_nat p then of_nat n else ur_cap r - of_nat p)) = n - n1"
    using n1 un by (subst unat_sub) (simp_all add: word_le_nat_alt)
  have "fst (ring_spans r (of_nat s) (of_nat n)) @ snd (ring_spans r (of_nat s) (of_nat n)) =
      take n1 (drop p ?st) @ take (n - n1) ?st"
    unfolding ring_spans_def Let_def pos up n1 n2 by simp
  also have "\<dots> = map (\<lambda>i. ?st ! (i mod ?c)) [s..<s + n]"
  proof (rule nth_equalityI)
    show "length (take n1 (drop p ?st) @ take (n - n1) ?st) = length (map (\<lambda>i. ?st ! (i mod ?c)) [s..<s + n])"
      using len p assms(2) by (simp add: n1_def)
  next
    fix i assume "i < length (take n1 (drop p ?st) @ take (n - n1) ?st)"
    then have i: "i < n" using len p assms(2) by (simp add: n1_def split: if_splits)
    have "(s + i) mod ?c = (p + i) mod ?c" by (simp add: p_def mod_add_left_eq)
    also have "\<dots> = (if p + i < ?c then p + i else p + i - ?c)"
      using p i assms(2) by (simp add: mod_if)
    finally show "(take n1 (drop p ?st) @ take (n - n1) ?st) ! i = map (\<lambda>i. ?st ! (i mod ?c)) [s..<s + n] ! i"
      using i len p assms(2) by (auto simp: n1_def nth_append min_def add.commute)
  qed
  finally show ?thesis .
qed

section \<open>Properties of the receive ring\<close>

text \<open>
  (C35) A view shows exactly the unread stream: the two spans together are the bytes received from the
  read position to the write position, in order and unaltered, across the wrap of the ring and of the
  32-bit counters. If the reader was lapped, the view starts at the oldest byte the DMA has not
  reclaimed, and the bytes lost are counted, once, in the view and in the total.
\<close>

theorem uart_view_is_stream:
  assumes ok: "uart_ok r S W R" and v: "uart_make_view st r = (v, r')"
  shows "uv_first v @ uv_second v = map S [view_start r W R..<W] \<and> view_size v = W - view_start r W R \<and>
    uv_dropped v = ur_dropped_since r + of_nat (view_start r W R - R) \<and>
    ur_dropped_total r' = ur_dropped_total r + of_nat (view_start r W R - R) \<and>
    R \<le> view_start r W R \<and> unat (ur_held r') = W - view_start r W R \<and>
    uart_ok r' S W (view_start r W R) \<and> uv_status v = st \<and> uv_errors v = ur_errs r \<and> ur_errs r' = 0"
proof -
  let ?R = "view_start r W R" and ?c = "unat (ur_cap r)"
  note f = uart_ok_floor [OF ok] and lap = uart_ok_lapped [OF ok]
  have w: "ur_wr r = of_nat W" "ur_rd r = of_nat R" "R \<le> W" "W - R < 2 ^ 31"
    and mem: "\<forall>i < W. ring_floor r W \<le> int i \<longrightarrow> ur_storage r ! (i mod ?c) = S i"
    using ok by (auto simp: uart_ok_def ring_floor_def)
  obtain c where c: "c = unat (ur_cap r)" by blast
  have R: "R \<le> ?R" "?R \<le> W" "ring_floor r W \<le> int ?R" "W - ?R < ?c"
    using w(3) f(5,6) unfolding c [symmetric] by (auto simp: view_start_def)
  have start: "(if s32_pos (valid_floor r (ur_wr r) - ur_rd r) then valid_floor r (ur_wr r) else ur_rd r) = of_nat ?R"
    using lap w valid_floor_eq [OF f(1), of W] by (auto simp: view_start_def)
  have gap: "(if s32_pos (valid_floor r (ur_wr r) - ur_rd r) then valid_floor r (ur_wr r) - ur_rd r else 0) =
      of_nat (?R - R)"
    using lap w(2) R(1) by (auto simp: view_start_def of_nat_diff nat_0_le)
  have avail: "ur_wr r - of_nat ?R = of_nat (W - ?R)" using w(1) R(2) by (simp add: of_nat_diff)
  let ?r = "r\<lparr>ur_dropped_total := ur_dropped_total r + of_nat (?R - R),
      ur_dropped_since := ur_dropped_since r + of_nat (?R - R), ur_rd := of_nat ?R\<rparr>"
  have "(if s32_pos (valid_floor r (ur_wr r) - ur_rd r)
      then r\<lparr>ur_dropped_total := ur_dropped_total r + (valid_floor r (ur_wr r) - ur_rd r),
             ur_dropped_since := ur_dropped_since r + (valid_floor r (ur_wr r) - ur_rd r),
             ur_rd := valid_floor r (ur_wr r)\<rparr> else r) = ?r"
    using start gap w(2) by (auto split: if_splits)
  then have mv: "uart_make_view st r =
      (\<lparr>uv_status = st, uv_first = fst (ring_spans r (of_nat ?R) (of_nat (W - ?R))),
         uv_second = snd (ring_spans r (of_nat ?R) (of_nat (W - ?R))),
         uv_dropped = ur_dropped_since r + of_nat (?R - R), uv_errors = ur_errs r\<rparr>,
       ?r\<lparr>ur_dropped_since := 0, ur_errs := 0, ur_held := of_nat (W - ?R)\<rparr>)"
    unfolding uart_make_view_def Let_def start avail by (simp add: ring_spans_def Let_def)
  have "fst (ring_spans r (of_nat ?R) (of_nat (W - ?R))) @ snd (ring_spans r (of_nat ?R) (of_nat (W - ?R))) = map S [?R..<W]"
    using spans_concat [OF ok R(4), of ?R] R mem by auto
  moreover have "unat (of_nat (W - ?R) :: u32) = W - ?R" using R(4) f(4) by (intro unat_of_nat_small) simp
  moreover have "uart_ok (?r\<lparr>ur_dropped_since := 0, ur_errs := 0, ur_held := of_nat (W - ?R)\<rparr>) S W ?R"
    using ok R by (auto simp: uart_ok_def)
  ultimately show ?thesis using v mv R(1) arg_cong [of _ _ length]
    by (auto simp: view_size_def simp flip: length_append)
qed

definition full_ring :: uart_ring where
  "full_ring = \<lparr>ur_storage = [5, 6, 7, 4], ur_buf = 2, ur_cap = 4, ur_deadline_fn = False, ur_data_fn = False,
     ur_wr = 7, ur_eof = 0, ur_rd = 3, ur_want = 1, ur_gen = 0, ur_waiter = null_handle, ur_reason = R_None,
     ur_cancel = False, ur_errs = 0, ur_overrun = 0, ur_framing = 0, ur_parity = 0, ur_breaks = 0, ur_held = 0,
     ur_claimed = False, ur_dropped_total = 0, ur_dropped_since = 0,
     ur_data_calls = []\<rparr>"

lemma full_ring_ok: "uart_ok full_ring (\<lambda>i. of_nat (i + 1)) 7 3"
proof -
  have "\<exists>j k. j < k \<and> k < 31 \<and> unat (2 :: u32) = 2 ^ j \<and> unat (4 :: u32) = 2 ^ k"
    by (intro exI [of _ 1] exI [of _ 2]) simp
  moreover have "[5, 6, 7, 4] ! (i mod 4) = (of_nat (i + 1) :: u8)" if "i < 7" "4 \<le> i" for i
  proof -
    have "i = 4 \<or> i = 5 \<or> i = 6" using that by auto
    then show ?thesis by auto
  qed
  ultimately show ?thesis
    by (simp add: uart_ok_def full_ring_def floor_of_def)
qed

theorem uart_view_is_stream_witness:
  "uv_first (fst (uart_make_view U_Ok full_ring)) @ uv_second (fst (uart_make_view U_Ok full_ring)) = [5, 6, 7] \<and>
   uv_dropped (fst (uart_make_view U_Ok full_ring)) = 1"
proof -
  have "view_start full_ring 7 3 = 4" by (simp add: view_start_def ring_floor_def floor_of_def full_ring_def)
  then show ?thesis
    using uart_view_is_stream [OF full_ring_ok, of U_Ok, OF prod.collapse [symmetric]]
    by (simp add: upt_rec full_ring_def)
qed

text \<open>
  Releasing the bytes of a view moves the read position by exactly that many, unless it asks for
  more than the view held (refused, nothing changes). If the DMA overwrote some of them while they
  were held the reader is told, and exactly the overwritten ones are added to the dropped total.
\<close>

theorem uart_release_reports_overrun:
  assumes ok: "uart_ok r S W R" and held: "unat (ur_held r) \<le> W - R"
  shows "if unat (ur_held r) < n then uart_release n r = (U_InvalidArgument, r)
    else fst (uart_release n r) = (if 0 < n \<and> int R < ring_floor r W then U_OverrunError else U_Ok) \<and>
      ur_dropped_total (snd (uart_release n r)) = ur_dropped_total r + of_nat (min n (nat (ring_floor r W - int R))) \<and>
      uart_ok (snd (uart_release n r)) S W (R + n) \<and> ur_held (snd (uart_release n r)) = 0"
proof (cases "unat (ur_held r) < n")
  case False
  note f = uart_ok_floor [OF ok] and lap = uart_ok_lapped [OF ok]
  have w: "R \<le> W" "W - R < 2 ^ 31" "n \<le> W - R" using ok held False by (auto simp: uart_ok_def)
  let ?o = "nat (ring_floor r W - int R)" and ?over = "valid_floor r (ur_wr r) - ur_rd r"
  have over: "unat ?over = ?o" if "int R < ring_floor r W"
  proof -
    have "?over = of_nat ?o" using lap(2) that by (simp add: nat_0_le)
    moreover have "?o < 2 ^ 32" using f(6) w(2) by simp
    ultimately show ?thesis by (auto intro: unat_of_nat_small simp del: unat_of_nat)
  qed
  have n: "unat (of_nat n :: u32) = n" using w by (intro unat_of_nat_small) simp
  define lost :: u32 where "lost = (if s32_pos ?over then if unat ?over < n then ?over else of_nat n else 0)"
  have lost: "lost = of_nat (min n ?o)" "lost \<noteq> 0 \<longleftrightarrow> 0 < n \<and> int R < ring_floor r W"
  proof -
    show "lost = of_nat (min n ?o)"
    proof (cases "int R < ring_floor r W")
      case True
      then have "?over = of_nat ?o" using lap(2) by (simp add: nat_0_le)
      then show ?thesis using lap(1) True over [OF True] by (auto simp: lost_def min_def)
    qed (use lap(1) in \<open>auto simp: lost_def\<close>)
    have "unat (of_nat (min n ?o) :: u32) = min n ?o" using w by (intro unat_of_nat_small) auto
    then show "lost \<noteq> 0 \<longleftrightarrow> 0 < n \<and> int R < ring_floor r W"
      using \<open>lost = of_nat (min n ?o)\<close> by (auto simp: unat_eq_zero [symmetric] min_def split: if_splits)
  qed
  have rel: "uart_release n r = (if lost \<noteq> 0 then U_OverrunError else U_Ok,
      (r\<lparr>ur_dropped_total := ur_dropped_total r + lost\<rparr>)\<lparr>ur_rd := ur_rd r + of_nat n, ur_held := 0\<rparr>)"
    using False unfolding uart_release_def Let_def lost_def [symmetric] by auto
  have "uart_ok ((r\<lparr>ur_dropped_total := ur_dropped_total r + lost\<rparr>)\<lparr>ur_rd := ur_rd r + of_nat n, ur_held := 0\<rparr>) S W (R + n)"
    using ok w by (auto simp: uart_ok_def)
  then show ?thesis using False rel lost by simp
qed (simp add: uart_release_def)

theorem uart_release_reports_overrun_witness:
  "fst (uart_release 2 (full_ring\<lparr>ur_held := 2\<rparr>)) = U_OverrunError \<and>
   ur_dropped_total (snd (uart_release 2 (full_ring\<lparr>ur_held := 2\<rparr>))) = 1"
proof -
  have "uart_ok (full_ring\<lparr>ur_held := 2\<rparr>) (\<lambda>i. of_nat (i + 1)) 7 3" using full_ring_ok by (simp add: uart_ok_def)
  from uart_release_reports_overrun [OF this, of 2] show ?thesis
    by (simp add: full_ring_def ring_floor_def floor_of_def)
qed

text \<open>Production reported while a reader waits.\<close>

fun produce_all :: "(nat \<times> bool) list \<Rightarrow> uart_ring \<Rightarrow> uart_ring \<times> handle list" where
  "produce_all [] r = (r, [])"
| "produce_all ((n, eof) # cs) r =
    (let (r, p) = produced_from_isr n eof r; (r, ps) = produce_all cs r in (r, p @ ps))"

lemma satisfied_cong [simp]:
  "rx_satisfied (r\<lparr>ur_waiter := h\<rparr>) = rx_satisfied r" "rx_satisfied (r\<lparr>ur_reason := x\<rparr>) = rx_satisfied r"
  "rx_satisfied (r\<lparr>ur_gen := g\<rparr>) = rx_satisfied r"
  by (simp_all add: rx_satisfied_def valid_start_def valid_floor_def Let_def)

lemma produced_waiting:
  assumes "ur_waiter r = h" "h \<noteq> null_handle" "produced_from_isr n eof r = (r', posts)"
  shows "posts = [] \<and> ur_waiter r' = h \<and> \<not> rx_satisfied r' \<or>
    posts = [h] \<and> ur_waiter r' = null_handle \<and> ur_reason r' = R_Data"
  using assms by (auto simp: produced_from_isr_def uart_wake_def Let_def split: if_splits option.splits)

lemma produced_no_waiter:
  assumes "ur_waiter r = null_handle"
  shows "snd (produced_from_isr n eof r) = [] \<and> ur_waiter (fst (produced_from_isr n eof r)) = null_handle \<and>
    ur_reason (fst (produced_from_isr n eof r)) = ur_reason r"
  using assms by (auto simp: produced_from_isr_def Let_def split: option.split)

lemma produce_all_no_waiter:
  "ur_waiter r = null_handle \<Longrightarrow> snd (produce_all cs r) = [] \<and> ur_waiter (fst (produce_all cs r)) = null_handle \<and>
    ur_reason (fst (produce_all cs r)) = ur_reason r"
proof (induction cs arbitrary: r)
  case (Cons c cs)
  note p = produced_no_waiter [OF Cons.prems, of "fst c" "snd c"]
  then show ?case using Cons.IH [of "fst (produced_from_isr (fst c) (snd c) r)"]
    by (cases c) (auto split: prod.splits)
qed simp



end
