(* ===== verification/Trigger_Ring.thy ===== *)
theory Trigger_Ring
  imports Io_Status
begin

text \<open>
  The triggered-read ring of \<open>include/abstractx/hal/bus_trigger.hpp\<close>: a driver interrupt reads into
  ring slots and one coroutine pops them. First every operation as one step, in the code's order;
  then the same operations cut at their accesses to shared memory, so that the interrupt (on another
  core or a worker thread) may run between any two accesses of the consumer and of \<open>cancel()\<close>. The
  sequentially consistent fences of the code justify reading the accesses in one global order.
\<close>

datatype trig_reason = T_None | T_Data | T_Cancel

record slot_meta =
  me_status :: io_status
  me_bytes :: u32
  me_timestamp_us :: u64
  me_dropped_at :: u32

record trigger_ring =
  tr_storage :: "u8 list"
  tr_meta :: "slot_meta list"
  tr_slot_bytes :: nat
  tr_slots :: u32
  tr_wr :: u32
  tr_rd :: u32
  tr_dropped :: u32
  tr_waiter :: handle
  tr_reason :: trig_reason
  tr_cancel :: bool
  tr_dropped_seen :: u32
  tr_holding :: bool

record trigger_sample =
  ts_status :: io_status
  ts_data :: "u8 list"
  ts_timestamp_us :: u64
  ts_dropped :: u32

definition status_sample :: "io_status \<Rightarrow> trigger_sample" where
  "status_sample st = \<lparr>ts_status = st, ts_data = [], ts_timestamp_us = 0, ts_dropped = 0\<rparr>"

definition slot_of :: "u32 \<Rightarrow> trigger_ring \<Rightarrow> nat" where
  "slot_of i r = unat (i mod tr_slots r)"

definition trig_available :: "trigger_ring \<Rightarrow> bool" where
  "trig_available r \<longleftrightarrow> tr_wr r \<noteq> tr_rd r"

definition trig_depth :: "trigger_ring \<Rightarrow> u32" where
  "trig_depth r = tr_wr r - tr_rd r"

section \<open>Operations\<close>

text \<open>\<open>acquire_from_isr\<close> returns the offset of the free slot in the storage, or none.\<close>

definition acquire_from_isr :: "trigger_ring \<Rightarrow> nat option \<times> trigger_ring" where
  "acquire_from_isr r =
    (if tr_wr r - tr_rd r \<ge> tr_slots r then (None, r\<lparr>tr_dropped := tr_dropped r + 1\<rparr>)
     else (Some (slot_of (tr_wr r) r * tr_slot_bytes r), r))"

definition publish_slot :: "io_status \<Rightarrow> nat \<Rightarrow> u64 \<Rightarrow> trigger_ring \<Rightarrow> trigger_ring" where
  "publish_slot status bytes timestamp r =
    r\<lparr>tr_meta := (tr_meta r)[slot_of (tr_wr r) r :=
        \<lparr>me_status = status, me_bytes = of_nat (if bytes < tr_slot_bytes r then bytes else tr_slot_bytes r),
         me_timestamp_us = timestamp, me_dropped_at = tr_dropped r\<rparr>],
      tr_wr := tr_wr r + 1\<rparr>"

definition trig_wake :: "trigger_ring \<Rightarrow> trigger_ring \<times> handle list" where
  "trig_wake r =
    (let h = tr_waiter r; r = r\<lparr>tr_waiter := null_handle\<rparr> in
     if h = null_handle then (r, [])
     else if \<not> trig_available r \<and> \<not> tr_cancel r then (r\<lparr>tr_waiter := h\<rparr>, [])
     else (r\<lparr>tr_reason := (if trig_available r then T_Data else T_Cancel)\<rparr>, [h]))"

definition commit_from_isr :: "io_status \<Rightarrow> nat \<Rightarrow> u64 \<Rightarrow> trigger_ring \<Rightarrow> trigger_ring \<times> handle list" where
  "commit_from_isr status bytes timestamp r = trig_wake (publish_slot status bytes timestamp r)"

definition trig_take :: "trigger_ring \<Rightarrow> trigger_sample \<times> trigger_ring" where
  "trig_take r =
    (let i = slot_of (tr_rd r) r; m = tr_meta r ! i in
     (\<lparr>ts_status = me_status m,
       ts_data = take (unat (me_bytes m)) (drop (i * tr_slot_bytes r) (tr_storage r)),
       ts_timestamp_us = me_timestamp_us m, ts_dropped = me_dropped_at m - tr_dropped_seen r\<rparr>,
      r\<lparr>tr_dropped_seen := me_dropped_at m, tr_holding := True\<rparr>))"

text \<open>
  The awaiter of \<open>pop()\<close>: whether it was refused as busy and the handle it published. \<open>await_ready\<close>
  returns whether to go on without suspending.
\<close>

record trig_awaiter =
  ta_busy :: bool
  ta_mine :: handle

definition trig_await_ready :: "trig_awaiter \<Rightarrow> trigger_ring \<Rightarrow> bool \<times> trig_awaiter \<times> trigger_ring" where
  "trig_await_ready a r =
    (if tr_waiter r \<noteq> null_handle \<or> tr_holding r then (True, a\<lparr>ta_busy := True\<rparr>, r)
     else if tr_cancel r then (True, a, r\<lparr>tr_reason := T_Cancel\<rparr>)
     else let r = r\<lparr>tr_reason := T_Data\<rparr> in (trig_available r, a, r))"

definition trig_await_suspend :: "handle \<Rightarrow> trig_awaiter \<Rightarrow> trigger_ring \<Rightarrow> bool \<times> trig_awaiter \<times> trigger_ring" where
  "trig_await_suspend h a r =
    (let r = r\<lparr>tr_reason := T_None, tr_waiter := h\<rparr>; a = a\<lparr>ta_mine := h\<rparr> in
     if trig_available r \<and> tr_waiter r \<noteq> null_handle
     then (False, a, r\<lparr>tr_waiter := null_handle, tr_reason := T_Data\<rparr>)
     else (True, a, r))"

definition trig_await_resume :: "trig_awaiter \<Rightarrow> trigger_ring \<Rightarrow> trigger_sample \<times> trigger_ring" where
  "trig_await_resume a r =
    (if ta_busy a then (status_sample Io_QueueFull, r)
     else if tr_reason r = T_Cancel then (status_sample Io_Cancelled, r\<lparr>tr_cancel := False\<rparr>)
     else trig_take r)"

definition trig_awaiter_destroy :: "trig_awaiter \<Rightarrow> trigger_ring \<Rightarrow> trigger_ring" where
  "trig_awaiter_destroy a r =
    (if ta_mine a \<noteq> null_handle \<and> tr_waiter r = ta_mine a then r\<lparr>tr_waiter := null_handle\<rparr> else r)"

definition trig_release :: "trigger_ring \<Rightarrow> trigger_ring" where
  "trig_release r = (if tr_holding r then r\<lparr>tr_holding := False, tr_rd := tr_rd r + 1\<rparr> else r)"

definition trig_cancel :: "trigger_ring \<Rightarrow> trigger_ring \<times> handle list" where
  "trig_cancel r =
    (let h = tr_waiter r; r = r\<lparr>tr_cancel := True, tr_waiter := null_handle\<rparr> in
     if h \<noteq> null_handle then (r\<lparr>tr_reason := T_Cancel\<rparr>, [h]) else (r, []))"

section \<open>The same operations, access by access\<close>

text \<open>
  Where the interrupt is in \<open>commit_from_isr\<close> and \<open>wake_from_isr\<close>: about to take the waiter, about to
  test \<open>available()\<close> with the waiter in hand, about to test the cancel flag, about to put the waiter
  back, about to test the cancel flag again, about to take the waiter again, about to post it.
\<close>

datatype prod_pc = P_idle | P_take | P_avail handle | P_cancel handle | P_put handle | P_again | P_retake | P_post handle

text \<open>
  Where the consumer is in \<open>pop()\<close>: not awaiting, past \<open>await_ready\<close> without data, published and about
  to test again, about to take its handle back, suspended.
\<close>

datatype cons_pc = C_idle | C_publish | C_recheck | C_retract | C_wait

record trig_run =
  tg_r :: trigger_ring
  tg_p :: prod_pc
  tg_c :: cons_pc
  tg_cancelling :: bool
  tg_posted :: nat
  tg_samples :: "trigger_sample list"
  tg_cancels :: nat

text \<open>
  \<open>Commit\<close>: the interrupt acquired a slot and publishes it. \<open>Producer\<close>, \<open>Consumer\<close>: the next access of
  either. \<open>Cancel\<close>: \<open>cancel()\<close> sets its flag, then, at its next access, takes the waiter; it runs on
  the consumer's thread, so only while the consumer is not itself in the middle of \<open>pop()\<close>.
\<close>

datatype trig_event = Commit io_status nat u64 | Producer | Consumer handle | Released | Cancel | Cancel_take

definition deliver :: "trig_run \<Rightarrow> trig_run" where
  "deliver s = (let (v, r) = trig_await_resume \<lparr>ta_busy = False, ta_mine = null_handle\<rparr> (tg_r s)
    in s\<lparr>tg_r := r, tg_c := C_idle, tg_samples := tg_samples s @ [v]\<rparr>)"

fun prod_step :: "trig_run \<Rightarrow> trig_run option" where
  "prod_step s = (let r = tg_r s in case tg_p s of
     P_idle \<Rightarrow> None
   | P_take \<Rightarrow> Some (s\<lparr>tg_r := r\<lparr>tr_waiter := null_handle\<rparr>,
       tg_p := (if tr_waiter r = null_handle then P_idle else P_avail (tr_waiter r))\<rparr>)
   | P_avail h \<Rightarrow> Some (s\<lparr>tg_p := (if trig_available r then P_post h else P_cancel h)\<rparr>)
   | P_cancel h \<Rightarrow> Some (s\<lparr>tg_p := (if tr_cancel r then P_post h else P_put h)\<rparr>)
   | P_put h \<Rightarrow> Some (s\<lparr>tg_r := r\<lparr>tr_waiter := h\<rparr>, tg_p := P_again\<rparr>)
   | P_again \<Rightarrow> Some (s\<lparr>tg_p := (if tr_cancel r then P_retake else P_idle)\<rparr>)
   | P_retake \<Rightarrow> Some (s\<lparr>tg_r := r\<lparr>tr_waiter := null_handle\<rparr>,
       tg_p := (if tr_waiter r = null_handle then P_idle else P_post (tr_waiter r))\<rparr>)
   | P_post h \<Rightarrow> Some (s\<lparr>tg_r := r\<lparr>tr_reason := (if trig_available r then T_Data else T_Cancel)\<rparr>,
       tg_p := P_idle, tg_posted := Suc (tg_posted s)\<rparr>))"

fun cons_step :: "handle \<Rightarrow> trig_run \<Rightarrow> trig_run option" where
  "cons_step h s = (let r = tg_r s in
     if tg_cancelling s then None else case tg_c s of
     C_idle \<Rightarrow>
       (if h = null_handle \<or> tr_holding r \<or> tr_waiter r \<noteq> null_handle then None
        else let (ready, a, r) = trig_await_ready \<lparr>ta_busy = False, ta_mine = null_handle\<rparr> r
             in if ready then Some (deliver (s\<lparr>tg_r := r\<rparr>)) else Some (s\<lparr>tg_r := r, tg_c := C_publish\<rparr>))
   | C_publish \<Rightarrow> if h = null_handle then None
       else Some (s\<lparr>tg_r := r\<lparr>tr_reason := T_None, tr_waiter := h\<rparr>, tg_c := C_recheck\<rparr>)
   | C_recheck \<Rightarrow> Some (s\<lparr>tg_c := (if trig_available r then C_retract else C_wait)\<rparr>)
   | C_retract \<Rightarrow> if tr_waiter r \<noteq> null_handle
       then Some (deliver (s\<lparr>tg_r := r\<lparr>tr_waiter := null_handle, tr_reason := T_Data\<rparr>\<rparr>))
       else Some (s\<lparr>tg_c := C_wait\<rparr>)
   | C_wait \<Rightarrow> if 0 < tg_posted s then Some (deliver (s\<lparr>tg_posted := tg_posted s - 1\<rparr>)) else None)"

fun trig_step :: "trig_event \<Rightarrow> trig_run \<Rightarrow> trig_run option" where
  "trig_step (Commit st n ts) s =
    (if tg_p s = P_idle \<and> tr_wr (tg_r s) - tr_rd (tg_r s) < tr_slots (tg_r s)
     then Some (s\<lparr>tg_r := publish_slot st n ts (tg_r s), tg_p := P_take\<rparr>) else None)"
| "trig_step Producer s = prod_step s"
| "trig_step (Consumer h) s = cons_step h s"
| "trig_step Released s =
    (if tg_c s = C_idle \<and> \<not> tg_cancelling s then Some (s\<lparr>tg_r := trig_release (tg_r s)\<rparr>) else None)"
| "trig_step Cancel s =
    (if tg_c s \<in> {C_idle, C_wait} \<and> \<not> tg_cancelling s
     then Some (s\<lparr>tg_r := (tg_r s)\<lparr>tr_cancel := True\<rparr>, tg_cancelling := True, tg_cancels := Suc (tg_cancels s)\<rparr>)
     else None)"
| "trig_step Cancel_take s =
    (if tg_cancelling s
     then let h = tr_waiter (tg_r s); r = (tg_r s)\<lparr>tr_waiter := null_handle\<rparr> in
       if h \<noteq> null_handle
       then Some (s\<lparr>tg_r := r\<lparr>tr_reason := T_Cancel\<rparr>, tg_cancelling := False, tg_posted := Suc (tg_posted s)\<rparr>)
       else Some (s\<lparr>tg_r := r, tg_cancelling := False\<rparr>)
     else None)"

fun trig_exec :: "trig_event list \<Rightarrow> trig_run \<Rightarrow> trig_run option" where
  "trig_exec [] s = Some s"
| "trig_exec (e # es) s = (case trig_step e s of None \<Rightarrow> None | Some s' \<Rightarrow> trig_exec es s')"

section \<open>Where the waiting handle is\<close>

fun in_hand :: "prod_pc \<Rightarrow> bool" where
  "in_hand (P_avail h) = True"
| "in_hand (P_cancel h) = True"
| "in_hand (P_put h) = True"
| "in_hand (P_post h) = True"
| "in_hand _ = False"

fun in_hand_ok :: "prod_pc \<Rightarrow> bool" where
  "in_hand_ok (P_avail h) = (h \<noteq> null_handle)"
| "in_hand_ok (P_cancel h) = (h \<noteq> null_handle)"
| "in_hand_ok (P_put h) = (h \<noteq> null_handle)"
| "in_hand_ok (P_post h) = (h \<noteq> null_handle)"
| "in_hand_ok _ = True"

fun found_empty :: "prod_pc \<Rightarrow> bool" where
  "found_empty (P_cancel h) = True"
| "found_empty (P_put h) = True"
| "found_empty P_again = True"
| "found_empty P_retake = True"
| "found_empty _ = False"

definition awaiting :: "cons_pc \<Rightarrow> bool" where
  "awaiting c \<longleftrightarrow> c = C_recheck \<or> c = C_retract \<or> c = C_wait"

text \<open>
  While the consumer waits, its handle is in exactly one place: published, in the interrupt's hand, or
  posted. The other conjuncts say what each program point has learned.
\<close>

definition one_place :: "bool \<Rightarrow> bool \<Rightarrow> nat \<Rightarrow> bool \<Rightarrow> bool" where
  "one_place published taken posted waiting \<longleftrightarrow>
    posted \<le> 1 \<and> (waiting \<longleftrightarrow> published \<or> taken \<or> posted = 1) \<and>
    \<not> (published \<and> taken) \<and> \<not> (published \<and> posted = 1) \<and> \<not> (taken \<and> posted = 1)"

definition trig_inv :: "trig_run \<Rightarrow> bool" where
  "trig_inv s \<longleftrightarrow>
    one_place (tr_waiter (tg_r s) \<noteq> null_handle) (in_hand (tg_p s)) (tg_posted s) (awaiting (tg_c s)) \<and>
    in_hand_ok (tg_p s) \<and>
    (tg_c s = C_publish \<or> tg_c s = C_recheck \<or> tg_c s = C_retract \<longrightarrow> \<not> tr_cancel (tg_r s) \<and> \<not> tg_cancelling s) \<and>
    (found_empty (tg_p s) \<longrightarrow> \<not> trig_available (tg_r s)) \<and>
    (tg_c s = C_retract \<longrightarrow> trig_available (tg_r s)) \<and>
    (tg_c s = C_wait \<and> tr_waiter (tg_r s) \<noteq> null_handle \<and> trig_available (tg_r s) \<longrightarrow> tg_p s = P_take) \<and>
    (tg_c s = C_wait \<and> tr_waiter (tg_r s) \<noteq> null_handle \<and> tr_cancel (tg_r s) \<and> \<not> tg_cancelling s \<longrightarrow>
       tg_p s = P_take \<or> tg_p s = P_again \<or> tg_p s = P_retake) \<and>
    (tg_posted s = 1 \<longrightarrow> tr_reason (tg_r s) \<noteq> T_None \<and> (tr_reason (tg_r s) = T_Data \<longrightarrow> trig_available (tg_r s))) \<and>
    (tr_holding (tg_r s) \<longrightarrow> tg_c s = C_idle \<and> trig_available (tg_r s)) \<and>
    (tg_cancelling s \<longrightarrow> tr_cancel (tg_r s)) \<and>
    tr_wr (tg_r s) - tr_rd (tg_r s) \<le> tr_slots (tg_r s)"

lemma available_update [simp]:
  "trig_available (r\<lparr>tr_waiter := h\<rparr>) = trig_available r"
  "trig_available (r\<lparr>tr_reason := x\<rparr>) = trig_available r"
  "trig_available (r\<lparr>tr_cancel := c\<rparr>) = trig_available r"
  "trig_available (r\<lparr>tr_dropped_seen := d\<rparr>) = trig_available r"
  "trig_available (r\<lparr>tr_holding := b\<rparr>) = trig_available r"
  by (simp_all add: trig_available_def)

lemma commit_available:
  "tr_wr r - tr_rd r < tr_slots r \<Longrightarrow> trig_available (publish_slot st n ts r) \<and>
    tr_wr (publish_slot st n ts r) - tr_rd (publish_slot st n ts r) \<le> tr_slots (publish_slot st n ts r)"
proof -
  assume lt: "tr_wr r - tr_rd r < tr_slots r"
  let ?d = "tr_wr r - tr_rd r"
  have "unat (?d + 1) = Suc (unat ?d)"
    using lt unsigned_less [of "tr_slots r", where ?'a = nat]
    by (intro unat_Suc_less [of _ "unat (tr_slots r)"]) (simp_all add: word_less_nat_alt)
  moreover have "tr_wr (publish_slot st n ts r) - tr_rd (publish_slot st n ts r) = ?d + 1"
    by (simp add: publish_slot_def)
  moreover have "trig_available (publish_slot st n ts r) \<longleftrightarrow> ?d + 1 \<noteq> 0"
  proof -
    have "trig_available (publish_slot st n ts r) \<longleftrightarrow> tr_wr r + 1 \<noteq> tr_rd r"
      by (simp add: publish_slot_def trig_available_def)
    moreover have "tr_wr r + 1 = tr_rd r \<longleftrightarrow> ?d + 1 = 0"
      using right_minus_eq [of "tr_wr r + 1" "tr_rd r"] by (simp only: diff_add_eq)
    ultimately show ?thesis by simp
  qed
  moreover have "unat ?d < unat (tr_slots r)" using lt by (simp add: word_less_nat_alt)
  moreover have "tr_slots (publish_slot st n ts r) = tr_slots r" by (simp add: publish_slot_def)
  ultimately show ?thesis by (metis Suc_leI nat.distinct(1) unat_0 word_le_nat_alt)
qed

lemma publish_slot_frame [simp]:
  "tr_waiter (publish_slot st n ts r) = tr_waiter r" "tr_reason (publish_slot st n ts r) = tr_reason r"
  "tr_cancel (publish_slot st n ts r) = tr_cancel r" "tr_holding (publish_slot st n ts r) = tr_holding r"
  by (simp_all add: publish_slot_def)

lemma release_room:
  "trig_available r \<Longrightarrow> tr_wr r - tr_rd r \<le> m \<Longrightarrow> tr_wr r - (tr_rd r + 1) \<le> m" for m :: u32
proof -
  assume a: "trig_available r" "tr_wr r - tr_rd r \<le> m"
  then have "tr_wr r - tr_rd r \<noteq> 0" by (simp add: trig_available_def)
  then have "unat (tr_wr r - tr_rd r - 1) \<le> unat (tr_wr r - tr_rd r)"
    by (simp add: unat_minus_one)
  moreover have "tr_wr r - (tr_rd r + 1) = tr_wr r - tr_rd r - 1" by simp
  moreover have "unat (tr_wr r - tr_rd r) \<le> unat m" using a(2) by (simp only: word_le_nat_alt)
  ultimately show ?thesis by (simp only: word_le_nat_alt)
qed

lemmas trig_inv_defs = trig_inv_def one_place_def awaiting_def

lemma prod_step_inv: "trig_inv s \<Longrightarrow> prod_step s = Some s' \<Longrightarrow> trig_inv s'"
  by (cases "tg_p s"; clarsimp simp: Let_def simp del: word_neq_0_conv neq0_conv split: if_splits; cases "tg_c s"; simp add: trig_inv_defs del: word_neq_0_conv neq0_conv; clarsimp?)

lemma commit_step_inv: "trig_inv s \<Longrightarrow> trig_step (Commit st n ts) s = Some s' \<Longrightarrow> trig_inv s'"
  using commit_available [of "tg_r s" st n ts]
  by (clarsimp simp del: word_neq_0_conv neq0_conv split: if_splits; cases "tg_c s"; simp add: trig_inv_defs del: word_neq_0_conv neq0_conv; clarsimp?)

lemma cancel_step_inv: "trig_inv s \<Longrightarrow> trig_step Cancel s = Some s' \<Longrightarrow> trig_inv s'"
  by (cases "tg_c s"; clarsimp simp del: word_neq_0_conv neq0_conv split: if_splits; cases "tg_p s"; simp add: trig_inv_defs del: word_neq_0_conv neq0_conv; clarsimp?)

lemma cancel_take_step_inv: "trig_inv s \<Longrightarrow> trig_step Cancel_take s = Some s' \<Longrightarrow> trig_inv s'"
  by (cases "tg_c s"; clarsimp simp: Let_def simp del: word_neq_0_conv neq0_conv split: if_splits; cases "tg_p s"; simp add: trig_inv_defs del: word_neq_0_conv neq0_conv; clarsimp?)

lemma trig_release_frame [simp]:
  "tr_waiter (trig_release r) = tr_waiter r" "tr_reason (trig_release r) = tr_reason r"
  "tr_cancel (trig_release r) = tr_cancel r" "tr_slots (trig_release r) = tr_slots r"
  "tr_holding (trig_release r) = False" "\<not> tr_holding r \<Longrightarrow> trig_release r = r"
  by (simp_all add: trig_release_def)

lemma released_step_inv: 
  assumes inv: "trig_inv s" and step: "trig_step Released s = Some s'"
  shows "trig_inv s'"
proof (cases "tr_holding (tg_r s)")
  case True
  with inv have "tr_wr (trig_release (tg_r s)) - tr_rd (trig_release (tg_r s)) \<le> tr_slots (tg_r s)"
    using release_room [of "tg_r s" "tr_slots (tg_r s)"] by (simp add: trig_inv_def trig_release_def)
  then show ?thesis using True inv step
    by (clarsimp simp del: word_neq_0_conv neq0_conv split: if_splits; cases "tg_p s"; simp add: trig_inv_defs del: word_neq_0_conv neq0_conv; clarsimp?)
qed (use inv step in \<open>clarsimp split: if_splits\<close>)

lemma take_frame [simp]:
  "tr_waiter (snd (trig_take r)) = tr_waiter r" "tr_reason (snd (trig_take r)) = tr_reason r"
  "tr_cancel (snd (trig_take r)) = tr_cancel r" "tr_wr (snd (trig_take r)) = tr_wr r"
  "tr_rd (snd (trig_take r)) = tr_rd r" "tr_slots (snd (trig_take r)) = tr_slots r"
  "trig_available (snd (trig_take r)) = trig_available r" "tr_holding (snd (trig_take r)) = True"
  by (simp_all add: trig_take_def Let_def trig_available_def)

text \<open>A resumed consumer is out of \<open>pop()\<close>, either with the cancel consumed or holding a sample.\<close>

lemma deliver_frame [simp]:
  "tg_p (deliver s) = tg_p s \<and> tg_c (deliver s) = C_idle \<and> tg_posted (deliver s) = tg_posted s \<and>
   tg_cancelling (deliver s) = tg_cancelling s \<and>
   tr_waiter (tg_r (deliver s)) = tr_waiter (tg_r s) \<and> tr_slots (tg_r (deliver s)) = tr_slots (tg_r s) \<and>
   tr_wr (tg_r (deliver s)) = tr_wr (tg_r s) \<and> tr_rd (tg_r (deliver s)) = tr_rd (tg_r s) \<and>
   trig_available (tg_r (deliver s)) = trig_available (tg_r s) \<and>
   tr_holding (tg_r (deliver s)) = (tr_reason (tg_r s) \<noteq> T_Cancel \<or> tr_holding (tg_r s)) \<and>
   tr_cancel (tg_r (deliver s)) = (tr_cancel (tg_r s) \<and> tr_reason (tg_r s) \<noteq> T_Cancel)"
proof (cases "tr_reason (tg_r s) = T_Cancel")
  case True
  then show ?thesis by (simp add: deliver_def trig_await_resume_def)
next
  case False
  then have "deliver s = s\<lparr>tg_r := snd (trig_take (tg_r s)), tg_c := C_idle,
      tg_samples := tg_samples s @ [fst (trig_take (tg_r s))]\<rparr>"
    by (simp add: deliver_def trig_await_resume_def split: prod.split)
  then show ?thesis using False by simp
qed

lemma not_in_hand_ok: "\<not> in_hand p \<Longrightarrow> in_hand_ok p"
  by (cases p) auto

lemma deliver_inv:
  assumes "tr_waiter (tg_r s) = null_handle" "\<not> in_hand (tg_p s)" "tg_posted s = 0" "\<not> tg_cancelling s"
    "found_empty (tg_p s) \<longrightarrow> \<not> trig_available (tg_r s)" "tr_wr (tg_r s) - tr_rd (tg_r s) \<le> tr_slots (tg_r s)"
    "tr_reason (tg_r s) = T_Cancel \<and> \<not> tr_holding (tg_r s) \<or> trig_available (tg_r s)"
  shows "trig_inv (deliver s)"
  using assms(7)
proof
  assume "tr_reason (tg_r s) = T_Cancel \<and> \<not> tr_holding (tg_r s)"
  then show ?thesis using assms(1-6) not_in_hand_ok by (simp add: trig_inv_defs)
next
  assume "trig_available (tg_r s)"
  then show ?thesis using assms(1-6) not_in_hand_ok by (simp add: trig_inv_defs)
qed

lemma one_place_posted: "one_place a b (Suc n) w \<Longrightarrow> \<not> a \<and> \<not> b \<and> n = 0 \<and> w"
  by (auto simp: one_place_def)

lemma one_place_published: "one_place True b n w \<Longrightarrow> \<not> b \<and> n = 0 \<and> w"
  by (auto simp: one_place_def)

lemma one_place_none: "one_place a b n False \<Longrightarrow> \<not> a \<and> \<not> b \<and> n = 0"
  by (auto simp: one_place_def)

lemma idle_step_inv:
  assumes inv: "trig_inv s" and step: "cons_step h s = Some s'" and c: "tg_c s = C_idle"
  shows "trig_inv s'"
proof -
  from inv c have none: "tr_waiter (tg_r s) = null_handle" "\<not> in_hand (tg_p s)" "tg_posted s = 0"
    and facts: "found_empty (tg_p s) \<longrightarrow> \<not> trig_available (tg_r s)"
      "tr_wr (tg_r s) - tr_rd (tg_r s) \<le> tr_slots (tg_r s)"
    unfolding trig_inv_def by (auto simp: awaiting_def dest!: one_place_none)
  from step c have go: "\<not> tg_cancelling s" "\<not> tr_holding (tg_r s)" by (auto simp: Let_def split: if_splits)
  consider "tr_cancel (tg_r s)" "s' = deliver (s\<lparr>tg_r := (tg_r s)\<lparr>tr_reason := T_Cancel\<rparr>\<rparr>)"
    | "trig_available (tg_r s)" "s' = deliver (s\<lparr>tg_r := (tg_r s)\<lparr>tr_reason := T_Data\<rparr>\<rparr>)"
    | "\<not> tr_cancel (tg_r s)" "\<not> trig_available (tg_r s)" "s' = s\<lparr>tg_r := (tg_r s)\<lparr>tr_reason := T_Data\<rparr>, tg_c := C_publish\<rparr>"
    using step c none go by (auto simp: Let_def trig_await_ready_def split: if_splits)
  then show ?thesis
  proof cases
    case 3
    then show ?thesis using none facts go by (simp add: trig_inv_defs not_in_hand_ok)
  qed (use none facts go in \<open>simp_all add: deliver_inv\<close>)
qed

lemma retract_step_inv:
  assumes inv: "trig_inv s" and step: "cons_step h s = Some s'" and c: "tg_c s = C_retract"
  shows "trig_inv s'"
proof (cases "tr_waiter (tg_r s) = null_handle")
  case True
  then have "s' = s\<lparr>tg_c := C_wait\<rparr>" using step c by (auto simp: Let_def split: if_splits)
  then show ?thesis using True inv c by (simp add: trig_inv_defs; clarsimp)
next
  case False
  then have s': "s' = deliver (s\<lparr>tg_r := (tg_r s)\<lparr>tr_waiter := null_handle, tr_reason := T_Data\<rparr>\<rparr>)"
    using step c by (auto simp: Let_def split: if_splits)
  from False inv c have "\<not> in_hand (tg_p s)" "tg_posted s = 0" "trig_available (tg_r s)" "\<not> tg_cancelling s"
    "found_empty (tg_p s) \<longrightarrow> \<not> trig_available (tg_r s)" "tr_wr (tg_r s) - tr_rd (tg_r s) \<le> tr_slots (tg_r s)"
    unfolding trig_inv_def by (auto dest!: one_place_published)
  then show ?thesis unfolding s' by (intro deliver_inv) simp_all
qed

lemma wait_step_inv:
  assumes inv: "trig_inv s" and step: "cons_step h s = Some s'" and c: "tg_c s = C_wait"
  shows "trig_inv s'"
proof -
  from step c obtain n where n: "tg_posted s = Suc n" and s': "s' = deliver (s\<lparr>tg_posted := n\<rparr>)"
    and go: "\<not> tg_cancelling s"
    by (cases "tg_posted s") (auto simp: Let_def split: if_splits)
  from inv n c have "tr_waiter (tg_r s) = null_handle" "\<not> in_hand (tg_p s)" "n = 0"
    "found_empty (tg_p s) \<longrightarrow> \<not> trig_available (tg_r s)" "tr_wr (tg_r s) - tr_rd (tg_r s) \<le> tr_slots (tg_r s)"
    "\<not> tr_holding (tg_r s)" "tr_reason (tg_r s) \<noteq> T_None" "tr_reason (tg_r s) = T_Data \<longrightarrow> trig_available (tg_r s)"
    unfolding trig_inv_def by (auto dest!: one_place_posted)
  then show ?thesis unfolding s' using go
    by (intro deliver_inv; simp) (cases "tr_reason (tg_r s)"; simp)
qed

lemma publish_step_inv:
  assumes inv: "trig_inv s" and step: "cons_step h s = Some s'" and c: "tg_c s = C_publish"
  shows "trig_inv s'"
proof -
  from inv c have none: "\<not> in_hand (tg_p s)" "tg_posted s = 0"
    unfolding trig_inv_def by (auto simp: awaiting_def dest!: one_place_none)
  from step c have "h \<noteq> null_handle" "s' = s\<lparr>tg_r := (tg_r s)\<lparr>tr_reason := T_None, tr_waiter := h\<rparr>, tg_c := C_recheck\<rparr>"
    by (auto simp: Let_def split: if_splits)
  then show ?thesis using none inv c by (simp add: trig_inv_defs)
qed

lemma recheck_step_inv:
  assumes inv: "trig_inv s" and step: "cons_step h s = Some s'" and c: "tg_c s = C_recheck"
  shows "trig_inv s'"
proof (cases "trig_available (tg_r s)")
  case True
  then have "s' = s\<lparr>tg_c := C_retract\<rparr>" using step c by (auto simp: Let_def split: if_splits)
  then show ?thesis using True inv c by (simp add: trig_inv_defs)
next
  case False
  then have "s' = s\<lparr>tg_c := C_wait\<rparr>" using step c by (auto simp: Let_def split: if_splits)
  then show ?thesis using False inv c by (simp add: trig_inv_defs)
qed

lemma cons_step_inv: "trig_inv s \<Longrightarrow> cons_step h s = Some s' \<Longrightarrow> trig_inv s'"
  using idle_step_inv publish_step_inv recheck_step_inv retract_step_inv wait_step_inv
  by (cases "tg_c s") blast+

lemma trig_step_inv: "trig_inv s \<Longrightarrow> trig_step e s = Some s' \<Longrightarrow> trig_inv s'"
proof (induction e)
  case Producer
  then show ?case unfolding trig_step.simps by (rule prod_step_inv)
next
  case (Consumer h)
  then show ?case unfolding trig_step.simps by (rule cons_step_inv)
qed (fact commit_step_inv released_step_inv cancel_step_inv cancel_take_step_inv)+

lemma trig_exec_inv: "trig_inv s \<Longrightarrow> trig_exec es s = Some s' \<Longrightarrow> trig_inv s'"
  by (induction es arbitrary: s) (auto dest: trig_step_inv split: option.splits)

section \<open>Runs from a constructed ring\<close>

definition trig_new :: "nat \<Rightarrow> nat \<Rightarrow> trigger_ring" where
  "trig_new slot_bytes slots =
    \<lparr>tr_storage = replicate (slot_bytes * slots) 0,
     tr_meta = replicate slots \<lparr>me_status = Io_Ok, me_bytes = 0, me_timestamp_us = 0, me_dropped_at = 0\<rparr>,
     tr_slot_bytes = slot_bytes, tr_slots = of_nat slots, tr_wr = 0, tr_rd = 0, tr_dropped = 0,
     tr_waiter = null_handle, tr_reason = T_None, tr_cancel = False, tr_dropped_seen = 0, tr_holding = False\<rparr>"

definition trig_start :: "nat \<Rightarrow> nat \<Rightarrow> trig_run" where
  "trig_start slot_bytes slots = \<lparr>tg_r = trig_new slot_bytes slots, tg_p = P_idle, tg_c = C_idle,
     tg_cancelling = False, tg_posted = 0, tg_samples = [], tg_cancels = 0\<rparr>"

lemma trig_start_inv: "trig_inv (trig_start slot_bytes slots)"
  by (simp add: trig_start_def trig_new_def trig_inv_defs trig_available_def)

text \<open>
  (C15) Whatever the interleaving of the interrupt's commits with \<open>pop()\<close>, \<open>release()\<close> and
  \<open>cancel()\<close>, a waiting consumer is posted at most once, a post for data finds a committed slot (no
  resume reads a slot never written), and once the interrupt and \<open>cancel()\<close> are done a consumer left
  waiting has its handle published with no data and no cancel pending: no wake is lost.
\<close>

theorem trigger_no_lost_wake:
  assumes "trig_exec es (trig_start slot_bytes slots) = Some s"
  shows "tg_posted s \<le> 1 \<and>
    (tg_posted s = 1 \<longrightarrow> tr_reason (tg_r s) = T_Cancel \<or> tr_reason (tg_r s) = T_Data \<and> trig_available (tg_r s)) \<and>
    (tr_holding (tg_r s) \<longrightarrow> trig_available (tg_r s)) \<and>
    (tg_c s = C_wait \<and> tg_p s = P_idle \<and> \<not> tg_cancelling s \<and> tg_posted s = 0 \<longrightarrow>
       tr_waiter (tg_r s) \<noteq> null_handle \<and> \<not> trig_available (tg_r s) \<and> \<not> tr_cancel (tg_r s))"
proof -
  from assms trig_start_inv have inv: "trig_inv s" by (rule trig_exec_inv [rotated])
  then have "tg_posted s \<le> 1" "tr_holding (tg_r s) \<longrightarrow> trig_available (tg_r s)"
    unfolding trig_inv_def one_place_def by blast+
  moreover from inv have "tg_posted s = 1 \<longrightarrow>
      tr_reason (tg_r s) = T_Cancel \<or> tr_reason (tg_r s) = T_Data \<and> trig_available (tg_r s)"
    unfolding trig_inv_def by (cases "tr_reason (tg_r s)") blast+
  moreover from inv have "tr_waiter (tg_r s) \<noteq> null_handle \<and> \<not> trig_available (tg_r s) \<and> \<not> tr_cancel (tg_r s)"
    if "tg_c s = C_wait" "tg_p s = P_idle" "\<not> tg_cancelling s" "tg_posted s = 0"
    using that by (simp add: trig_inv_defs; clarsimp)
  ultimately show ?thesis by (intro conjI impI; (elim conjE)?; assumption | simp)
qed

lemmas trig_run_defs = trig_start_def trig_new_def Let_def trig_available_def publish_slot_def slot_of_def
  trig_await_ready_def deliver_def trig_await_resume_def trig_take_def status_sample_def trig_release_def

text \<open>A commit between the publication and the second test, a cancel, and a wait.\<close>

definition race_events :: "trig_event list" where
  "race_events = [Consumer 5, Consumer 5, Commit Io_Ok 2 7, Consumer 5, Producer, Consumer 5, Producer, Producer,
     Consumer 5, Released, Consumer 5, Consumer 5, Consumer 5]"

lemma trigger_no_lost_wake_witness:
  "\<exists>s. trig_exec race_events (trig_start 2 2) = Some s \<and> tg_c s = C_wait \<and> tr_waiter (tg_r s) \<noteq> null_handle \<and>
    map ts_timestamp_us (tg_samples s) = [7]"
proof -
  define s where "s = the (trig_exec race_events (trig_start 2 2))"
  have run: "trig_exec race_events (trig_start 2 2) = Some s" and end_state: "tg_c s = C_wait" "tg_p s = P_idle"
    "\<not> tg_cancelling s" "tg_posted s = 0" "map ts_timestamp_us (tg_samples s) = [7]"
    unfolding s_def by (simp_all add: trig_run_defs race_events_def)
  from trigger_no_lost_wake [OF run] end_state have "tr_waiter (tg_r s) \<noteq> null_handle"
    by (elim conjE) (drule mp, intro conjI, assumption+, elim conjE)
  with run end_state show ?thesis by (intro exI [of _ s] conjI)
qed

text \<open>
  One \<open>cancel()\<close> that races with a put-back: the interrupt sees the request, \<open>cancel()\<close> posts the
  consumer, which consumes the request and pops again; the interrupt then takes the new waiter.
\<close>

definition cancel_race :: "trig_event list" where
  "cancel_race = [Commit Io_Ok 1 7, Consumer 5, Released, Consumer 5, Consumer 5, Consumer 5,
     Producer, Producer, Producer, Producer, Cancel, Producer, Cancel_take, Consumer 5,
     Consumer 5, Consumer 5, Consumer 5, Producer, Producer, Consumer 5]"

text \<open>
  The wake of \<open>bus_trigger.hpp\<close> can answer one \<open>cancel()\<close> twice: in this run a single cancel
  completes two successive \<open>pop()\<close> calls with \<open>Cancelled\<close>, the second of them started after the first
  one had consumed the request.
\<close>

theorem trigger_cancel_delivered_twice:
  "map_option (\<lambda>s. (tg_cancels s, map ts_status (tg_samples s), tr_cancel (tg_r s))) (trig_exec cancel_race (trig_start 1 2))
    = Some (1, [Io_Ok, Io_Cancelled, Io_Cancelled], False)"
  by (simp add: trig_run_defs cancel_race_def)

section \<open>The ring is a queue of its committed slots\<close>

text \<open>
  With a slot count that divides \<open>2 ^ 32\<close> the counters may wrap: the committed slots, oldest first,
  are the entries at the counter values from \<open>rd\<close> up to \<open>wr\<close>.
\<close>

definition trig_pending :: "trigger_ring \<Rightarrow> slot_meta list" where
  "trig_pending r = map (\<lambda>k. tr_meta r ! slot_of (tr_rd r + of_nat k) r) [0..<unat (tr_wr r - tr_rd r)]"

definition trig_wf :: "trigger_ring \<Rightarrow> bool" where
  "trig_wf r \<longleftrightarrow> 0 < tr_slots r \<and> 2 ^ 32 mod unat (tr_slots r) = 0 \<and> length (tr_meta r) = unat (tr_slots r) \<and>
    tr_wr r - tr_rd r \<le> tr_slots r"

lemma slot_of_plus:
  assumes "2 ^ 32 mod unat (tr_slots r) = 0"
  shows "slot_of (i + of_nat k) r = (unat i + k) mod unat (tr_slots r)"
proof -
  have "slot_of (i + of_nat k) r = unat (i + of_nat k) mod unat (tr_slots r)"
    by (simp add: slot_of_def unat_mod)
  also have "unat (i + of_nat k) = (unat i + k) mod 2 ^ 32"
    by (simp add: unat_word_ariths unat_of_nat mod_simps)
  finally show ?thesis using assms by (simp add: mod_mod_cancel mod_0_imp_dvd)
qed

lemma slot_of_apart:
  assumes "2 ^ 32 mod unat (tr_slots r) = 0" "k < m" "m < unat (tr_slots r)"
  shows "slot_of (i + of_nat k) r \<noteq> slot_of (i + of_nat m) r"
proof
  assume "slot_of (i + of_nat k) r = slot_of (i + of_nat m) r"
  then have "(unat i + k) mod unat (tr_slots r) = (unat i + m) mod unat (tr_slots r)"
    unfolding slot_of_plus [OF assms(1)] .
  then have "unat (tr_slots r) dvd (unat i + m) - (unat i + k)"
    using assms(2) by (subst (asm) eq_commute) (simp add: mod_eq_dvd_iff_nat)
  then show False using assms(2,3) by (simp add: nat_dvd_not_less)
qed

lemma publish_pending:
  assumes wf: "trig_wf r" and room: "tr_wr r - tr_rd r < tr_slots r"
  shows "trig_pending (publish_slot st n ts r) = trig_pending r @
    [\<lparr>me_status = st, me_bytes = of_nat (min n (tr_slot_bytes r)), me_timestamp_us = ts, me_dropped_at = tr_dropped r\<rparr>]"
proof -
  define d where "d = unat (tr_wr r - tr_rd r)"
  define e where "e = \<lparr>me_status = st, me_bytes = of_nat (min n (tr_slot_bytes r)), me_timestamp_us = ts, me_dropped_at = tr_dropped r\<rparr>"
  define r' where "r' = publish_slot st n ts r"
  from wf have div: "2 ^ 32 mod unat (tr_slots r) = 0" and len: "length (tr_meta r) = unat (tr_slots r)"
    by (simp_all add: trig_wf_def)
  from room have lt: "d < unat (tr_slots r)" by (simp add: d_def word_less_nat_alt)
  have wr: "tr_wr r = tr_rd r + of_nat d" by (simp add: d_def)
  have slot: "slot_of i r' = slot_of i r" for i by (simp add: r'_def publish_slot_def slot_of_def)
  have meta: "tr_meta r' = (tr_meta r)[slot_of (tr_rd r + of_nat d) r := e]"
    unfolding wr [symmetric] by (simp add: r'_def publish_slot_def e_def min_def)
  have "d + 1 < 2 ^ 32 \<or> d + 1 = 2 ^ 32" using lt unsigned_less [of "tr_slots r", where ?'a = nat] by simp
  have "tr_wr r' - tr_rd r' = of_nat (Suc d)" by (simp add: r'_def publish_slot_def wr)
  moreover have "Suc d < 2 ^ 32" using lt unsigned_less [of "tr_slots r", where ?'a = nat] by simp
  ultimately have count: "unat (tr_wr r' - tr_rd r') = Suc d" by (simp only: unat_of_nat) simp
  have rd: "tr_rd r' = tr_rd r" by (simp add: r'_def publish_slot_def)
  have "tr_meta r' ! slot_of (tr_rd r + of_nat k) r = tr_meta r ! slot_of (tr_rd r + of_nat k) r" if "k < d" for k
    using slot_of_apart [OF div that lt, of "tr_rd r"] unfolding meta by (metis nth_list_update_neq)
  moreover have "tr_meta r' ! slot_of (tr_rd r + of_nat d) r = e"
    using lt by (simp add: meta slot_of_plus [OF div] len)
  ultimately show ?thesis
    unfolding r'_def [symmetric] e_def [symmetric] trig_pending_def slot count d_def [symmetric] unfolding rd by simp
qed

lemma trig_pending_Cons:
  assumes "trig_available r"
  shows "trig_pending r = tr_meta r ! slot_of (tr_rd r) r # trig_pending (r\<lparr>tr_rd := tr_rd r + 1\<rparr>)"
proof -
  from assms have ne: "tr_wr r - tr_rd r \<noteq> 0" by (simp add: trig_available_def)
  then obtain d where d: "unat (tr_wr r - tr_rd r) = Suc d" using not0_implies_Suc [of "unat (tr_wr r - tr_rd r)"] by auto
  have "tr_wr r - (tr_rd r + 1) = tr_wr r - tr_rd r - 1" by simp
  with unat_minus_one [OF ne] d have "unat (tr_wr r - (tr_rd r + 1)) = d" by presburger
  moreover have "[0..<Suc d] = 0 # map Suc [0..<d]" by (simp add: map_Suc_upt upt_conv_Cons del: upt_Suc)
  moreover have "slot_of i (r\<lparr>tr_rd := tr_rd r + 1\<rparr>) = slot_of i r" for i by (simp add: slot_of_def)
  ultimately show ?thesis unfolding trig_pending_def d by (simp add: comp_def add.assoc)
qed


text \<open>A ring of four slots at the wrap of its counters, with one slot committed.\<close>

definition wrapping_ring :: trigger_ring where
  "wrapping_ring = publish_slot Io_Timeout 3 9 ((trig_new 2 4)\<lparr>tr_wr := 0xFFFFFFFF, tr_rd := 0xFFFFFFFF\<rparr>)"


end
