(* ===== verification/Task_Life.thy ===== *)
theory Task_Life
  imports Dispatcher "HOL-Library.Multiset"
begin

text \<open>
  Coroutine tasks and their combinators (\<open>include/asp_coro.hpp\<close>): the promise of a \<open>Task<T>\<close>, the
  operations of the task object that owns the frame (cancel, detach, await, resume, completion hook),
  what a coroutine does at its first and at its final suspension, and the awaiters behind \<open>when_all\<close>
  and \<open>when_any\<close>. Live frames are an association list from handles to promises. What the compiler
  generates is modelled by what it does to the promises: destroying a frame destroys the task objects
  that are its local variables and then frees the frame.
\<close>

section \<open>Promises and frames\<close>

text \<open>
  A completion hook is a function pointer with its context: the one that \<open>abstractx::spawn\<close> sets, or
  \<open>notify_done\<close> of a \<open>when_all\<close> or \<open>notify_winner(i)\<close> of a \<open>when_any\<close> whose awaiter is named by a number.
\<close>

datatype hook = Spawned_done | All_done nat | Any_done nat bool

record 'r promise =
  pr_result :: "'r option"
  pr_continuation :: handle
  pr_on_complete :: "hook option"
  pr_detached :: bool
  pr_started :: bool
  pr_done :: bool
  pr_locals :: "handle list"

text \<open>
  \<open>th_ready\<close> is the content of the ready queue; \<open>th_roots\<close> are the task objects that are not locals
  of a coroutine (they are held by \<open>main\<close> and by the runtime's task pool); \<open>th_dangling\<close> is set by an
  operation on a freed frame.
\<close>

record 'r task_heap =
  th_frames :: "(handle \<times> 'r promise) list"
  th_ready :: "handle list"
  th_roots :: "handle list"
  th_freed :: "handle list"
  th_dangling :: bool

definition new_promise :: "'r promise" where
  "new_promise = \<lparr>pr_result = None, pr_continuation = null_handle, pr_on_complete = None, pr_detached = False,
     pr_started = False, pr_done = False, pr_locals = []\<rparr>"

definition live :: "handle \<Rightarrow> 'r task_heap \<Rightarrow> bool" where
  "live h s \<longleftrightarrow> h \<in> fst ` set (th_frames s)"

definition promise_of :: "handle \<Rightarrow> 'r task_heap \<Rightarrow> 'r promise" where
  "promise_of h s = the (map_of (th_frames s) h)"

definition set_promise :: "handle \<Rightarrow> ('r promise \<Rightarrow> 'r promise) \<Rightarrow> 'r task_heap \<Rightarrow> 'r task_heap" where
  "set_promise h f s = s\<lparr>th_frames := map (\<lambda>(k, p). (k, if k = h then f p else p)) (th_frames s)\<rparr>"

text \<open>\<open>operator delete\<close> of the frame: its memory is free again.\<close>

definition free_frame :: "handle \<Rightarrow> 'r task_heap \<Rightarrow> 'r task_heap" where
  "free_frame h s = s\<lparr>th_frames := filter (\<lambda>(k, p). k \<noteq> h) (th_frames s), th_freed := th_freed s @ [h]\<rparr>"

definition purge_ready :: "handle \<Rightarrow> 'r task_heap \<Rightarrow> 'r task_heap" where
  "purge_ready h s = s\<lparr>th_ready := filter (\<lambda>k. k \<noteq> h) (th_ready s)\<rparr>"

section \<open>Operations of the task object\<close>

text \<open>
  \<open>destroy_frame\<close>: the handle's frame is destroyed, with its local task objects, and its copies in
  the ready queue are purged. The recursion follows the nesting of frames; the fuel is its bound.
\<close>

fun destroy_frame :: "nat \<Rightarrow> handle \<Rightarrow> 'r task_heap \<Rightarrow> 'r task_heap" where
  "destroy_frame 0 h s = s"
| "destroy_frame (Suc n) h s =
    (if h = null_handle then s
     else if \<not> live h s then s\<lparr>th_dangling := True\<rparr>
     else let ls = pr_locals (promise_of h s);
              s = fold (destroy_frame n) ls (set_promise h (\<lambda>p. p\<lparr>pr_locals := []\<rparr>) s)
          in purge_ready h (free_frame h s))"

definition destroy_handle :: "nat \<Rightarrow> handle \<Rightarrow> 'r task_heap \<Rightarrow> 'r task_heap" where
  "destroy_handle n h s =
    (if \<not> live h s then s\<lparr>th_dangling := True\<rparr>
     else let ls = pr_locals (promise_of h s);
              s = fold (destroy_frame n) ls (set_promise h (\<lambda>p. p\<lparr>pr_locals := []\<rparr>) s)
          in free_frame h s)"

definition task_done :: "handle \<Rightarrow> 'r task_heap \<Rightarrow> bool" where
  "task_done h s \<longleftrightarrow> h = null_handle \<or> pr_done (promise_of h s)"

text \<open>
  \<open>~Task\<close>, \<open>cancel()\<close> and the move assignment (the new handles of both objects; \<open>self\<close> for an object
  assigned to itself) all come down to \<open>destroy_frame\<close>.
\<close>

definition task_cancel :: "nat \<Rightarrow> handle \<Rightarrow> 'r task_heap \<Rightarrow> 'r task_heap" where
  "task_cancel n h s = destroy_frame n h s"

definition task_assign :: "nat \<Rightarrow> bool \<Rightarrow> handle \<Rightarrow> handle \<Rightarrow> 'r task_heap \<Rightarrow> (handle \<times> handle) \<times> 'r task_heap" where
  "task_assign n self this other s =
    (if self then ((this, other), s) else ((other, null_handle), destroy_frame n this s))"

definition task_detach :: "nat \<Rightarrow> handle \<Rightarrow> 'r task_heap \<Rightarrow> 'r task_heap" where
  "task_detach n h s =
    (if h = null_handle then s
     else if pr_done (promise_of h s) \<or> \<not> pr_started (promise_of h s) then destroy_frame n h s
     else set_promise h (\<lambda>p. p\<lparr>pr_detached := True, pr_on_complete := None, pr_continuation := null_handle\<rparr>) s)"

definition task_await_ready :: "handle \<Rightarrow> 'r task_heap \<Rightarrow> bool" where
  "task_await_ready h s \<longleftrightarrow> h = null_handle \<or> pr_done (promise_of h s)"

text \<open>Awaiting a task resumes it in place of the caller: the handle to resume is the task's own.\<close>

definition task_await_suspend :: "handle \<Rightarrow> handle \<Rightarrow> 'r task_heap \<Rightarrow> handle \<times> 'r task_heap" where
  "task_await_suspend h caller s = (h, set_promise h (\<lambda>p. p\<lparr>pr_continuation := caller\<rparr>) s)"

definition task_await_resume :: "handle \<Rightarrow> 'r task_heap \<Rightarrow> 'r option" where
  "task_await_resume h s = (if h = null_handle then None else pr_result (promise_of h s))"

text \<open>\<open>resume()\<close> resumes the handle only if there is an unfinished coroutine; \<open>run\<close> is what it then does.\<close>

definition task_resume :: "(handle \<Rightarrow> 'r task_heap \<Rightarrow> 'r task_heap) \<Rightarrow> handle \<Rightarrow> 'r task_heap \<Rightarrow> bool \<times> 'r task_heap" where
  "task_resume run h s =
    (if h \<noteq> null_handle \<and> \<not> pr_done (promise_of h s)
     then let s = run h s in (\<not> pr_done (promise_of h s), s) else (False, s))"

definition set_completion_hook :: "handle \<Rightarrow> hook \<Rightarrow> 'r task_heap \<Rightarrow> 'r task_heap" where
  "set_completion_hook h k s = (if h \<noteq> null_handle then set_promise h (\<lambda>p. p\<lparr>pr_on_complete := Some k\<rparr>) s else s)"

section \<open>What a coroutine does to its promise\<close>

definition initial_await_resume :: "handle \<Rightarrow> 'r task_heap \<Rightarrow> 'r task_heap" where
  "initial_await_resume h s = set_promise h (\<lambda>p. p\<lparr>pr_started := True\<rparr>) s"

definition return_value :: "handle \<Rightarrow> 'r \<Rightarrow> 'r task_heap \<Rightarrow> 'r task_heap" where
  "return_value h v s = set_promise h (\<lambda>p. p\<lparr>pr_result := Some v\<rparr>) s"

text \<open>
  \<open>FinalAwaiter::await_suspend\<close>: the hook it calls and the handle it resumes (null for the no-op
  coroutine). A detached coroutine destroys itself.
\<close>

definition final_await_suspend :: "nat \<Rightarrow> handle \<Rightarrow> 'r task_heap \<Rightarrow> (hook option \<times> handle) \<times> 'r task_heap" where
  "final_await_suspend n h s =
    (if pr_detached (promise_of h s) then ((None, null_handle), destroy_handle n h s)
     else ((pr_on_complete (promise_of h s), pr_continuation (promise_of h s)), s))"

text \<open>\<open>YieldAwaiter::await_suspend\<close>: the coroutine is posted at once.\<close>

definition yield_await_suspend :: "handle \<Rightarrow> 'r task_heap \<Rightarrow> 'r task_heap" where
  "yield_await_suspend h s = s\<lparr>th_ready := th_ready s @ [h]\<rparr>"

section \<open>Ownership\<close>

text \<open>
  \<open>owned\<close> lists the frames that task objects hold, \<open>os\<close> being objects about to be destroyed. Every live
  frame is held by exactly one object, or it is detached and still running; what is in the ready queue is
  live and unfinished. \<open>rank\<close> orders the nesting of frames below \<open>m\<close>.
\<close>

definition owned :: "'r task_heap \<Rightarrow> handle list" where
  "owned s = th_roots s @ concat (map (pr_locals \<circ> snd) (th_frames s))"

definition heap_ok :: "nat \<Rightarrow> (handle \<Rightarrow> nat) \<Rightarrow> handle list \<Rightarrow> 'r task_heap \<Rightarrow> bool" where
  "heap_ok m rank os s \<longleftrightarrow>
    distinct (map fst (th_frames s)) \<and> distinct (os @ owned s) \<and>
    fst ` set (th_frames s) = set (os @ owned s) \<union> {h. \<exists>p. (h, p) \<in> set (th_frames s) \<and> pr_detached p} \<and>
    (\<forall>(h, p) \<in> set (th_frames s). h \<noteq> null_handle \<and> rank h < m \<and> (\<forall>c \<in> set (pr_locals p). rank c < rank h) \<and>
       (pr_detached p \<longrightarrow> h \<notin> set (os @ owned s) \<and> pr_started p \<and> \<not> pr_done p) \<and>
       (pr_done p \<longrightarrow> pr_locals p = [] \<and> h \<notin> set (th_ready s))) \<and>
    set (th_ready s) \<subseteq> fst ` set (th_frames s) \<and> \<not> th_dangling s"

lemma map_of_frame: "distinct (map fst (th_frames s)) \<Longrightarrow> (h, p) \<in> set (th_frames s) \<Longrightarrow> promise_of h s = p"
  by (simp add: promise_of_def)

lemma live_frame: "live h s \<Longrightarrow> (h, promise_of h s) \<in> set (th_frames s)"
  by (auto simp: live_def promise_of_def map_of_eq_Some_iff dest!: weak_map_of_SomeI intro: map_of_SomeD)

lemma map_fst_set_promise [simp]: "map fst (th_frames (set_promise h f s)) = map fst (th_frames s)"
  by (simp add: set_promise_def comp_def case_prod_beta)

lemma set_promise_frame [simp]:
  "th_ready (set_promise h f s) = th_ready s" "th_roots (set_promise h f s) = th_roots s"
  "th_freed (set_promise h f s) = th_freed s" "th_dangling (set_promise h f s) = th_dangling s"
  by (simp_all add: set_promise_def)

lemma mem_set_promise:
  "(k, p) \<in> set (th_frames (set_promise h f s)) \<longleftrightarrow>
    (\<exists>q. (k, q) \<in> set (th_frames s) \<and> p = (if k = h then f q else q))"
  by (auto simp: set_promise_def image_iff split: prod.splits intro: bexI [rotated])

lemma fst_set_promise [simp]: "fst ` set (th_frames (set_promise h f s)) = fst ` set (th_frames s)"
  by (force simp: set_promise_def)

lemma live_set_promise [simp]: "live k (set_promise h f s) = live k s"
  by (simp add: live_def)

lemma locals_update:
  "distinct (map fst fs) \<Longrightarrow> (h, p) \<in> set fs \<Longrightarrow>
    mset (concat (map (pr_locals \<circ> snd) (map (\<lambda>(k, q). (k, if k = h then f q else q)) fs))) + mset (pr_locals p) =
    mset (concat (map (pr_locals \<circ> snd) fs)) + mset (pr_locals (f p))"
proof (induction fs)
  case (Cons x fs)
  obtain k q where x: "x = (k, q)" by (cases x)
  show ?case
  proof (cases "k = h")
    case True
    with Cons.prems have "h \<notin> fst ` set fs" "p = q" by (force simp: x)+
    moreover from this have "map (\<lambda>(k, q). (k, if k = h then f q else q)) fs = fs"
      by (intro map_idI) (force split: if_splits)
    ultimately show ?thesis using True by (simp add: x ac_simps)
  next
    case False
    then show ?thesis using Cons by (auto simp: x)
  qed
qed simp

lemma owned_set_promise:
  assumes "distinct (map fst (th_frames s))" "(h, p) \<in> set (th_frames s)"
  shows "mset (owned (set_promise h f s)) + mset (pr_locals p) = mset (owned s) + mset (pr_locals (f p))"
  using locals_update [OF assms, where f = f] by (simp add: owned_def set_promise_def)

lemma owned_set_promise_same:
  assumes "distinct (map fst (th_frames s))" "live h s" "pr_locals (f (promise_of h s)) = pr_locals (promise_of h s)"
  shows "mset (owned (set_promise h f s)) = mset (owned s)"
  using owned_set_promise [OF assms(1) live_frame [OF assms(2)], where f = f] assms(3) by simp

text \<open>Destroying frames changes no promise that stays, except for locals that left their scope.\<close>

lemma destroy_frame_keeps:
  "(k, p) \<in> set (th_frames (destroy_frame n h s)) \<Longrightarrow>
    \<exists>q. (k, q) \<in> set (th_frames s) \<and> set (pr_locals p) \<subseteq> set (pr_locals q) \<and> p = q\<lparr>pr_locals := pr_locals p\<rparr>"
proof (induction n arbitrary: h s k p)
  case (Suc n)
  have fold: "(k, p) \<in> set (th_frames (fold (destroy_frame n) ls s)) \<Longrightarrow>
    \<exists>q. (k, q) \<in> set (th_frames s) \<and> set (pr_locals p) \<subseteq> set (pr_locals q) \<and> p = q\<lparr>pr_locals := pr_locals p\<rparr>"
    for k p and s :: "'a task_heap" and ls
  proof (induction ls arbitrary: s)
    case (Cons l ls)
    from Cons.IH [of "destroy_frame n l s"] Cons.prems obtain q where
      q: "(k, q) \<in> set (th_frames (destroy_frame n l s))" "set (pr_locals p) \<subseteq> set (pr_locals q)" "p = q\<lparr>pr_locals := pr_locals p\<rparr>"
      by auto
    from Suc.IH [OF q(1)] obtain q' where q': "(k, q') \<in> set (th_frames s)" "set (pr_locals q) \<subseteq> set (pr_locals q')"
      "q = q'\<lparr>pr_locals := pr_locals q\<rparr>" by blast
    have "p = q'\<lparr>pr_locals := pr_locals p\<rparr>"
      by (subst q(3), subst q'(3)) simp
    with q q' show ?case by blast
  qed auto
  show ?case
  proof (cases "h = null_handle \<or> \<not> live h s")
    case True
    then show ?thesis using Suc.prems by (auto split: if_splits intro!: exI [of _ p])
  next
    case False
    then have "(k, p) \<in> set (th_frames (fold (destroy_frame n) (pr_locals (promise_of h s))
        (set_promise h (\<lambda>p. p\<lparr>pr_locals := []\<rparr>) s)))"
      using Suc.prems by (simp add: Let_def purge_ready_def free_frame_def)
    from fold [OF this] obtain q where q: "(k, q) \<in> set (th_frames (set_promise h (\<lambda>p. p\<lparr>pr_locals := []\<rparr>) s))"
      "set (pr_locals p) \<subseteq> set (pr_locals q)" "p = q\<lparr>pr_locals := pr_locals p\<rparr>" by blast
    from q(1) obtain q' where "(k, q') \<in> set (th_frames s)" "q = (if k = h then q'\<lparr>pr_locals := []\<rparr> else q')"
      by (auto simp: mem_set_promise)
    with q(2,3) show ?thesis by (intro exI [of _ q']) (auto split: if_splits)
  qed
qed auto

lemma heap_okD:
  assumes "heap_ok m rank os s"
  shows "distinct (map fst (th_frames s))" "distinct (os @ owned s)" "\<not> th_dangling s"
    "set (th_ready s) \<subseteq> fst ` set (th_frames s)"
    "fst ` set (th_frames s) = set (os @ owned s) \<union> {h. \<exists>p. (h, p) \<in> set (th_frames s) \<and> pr_detached p}"
  using assms unfolding heap_ok_def by blast+

lemma heap_ok_frame:
  assumes "heap_ok m rank os s" "(h, p) \<in> set (th_frames s)"
  shows "h \<noteq> null_handle \<and> rank h < m \<and> (\<forall>c \<in> set (pr_locals p). rank c < rank h) \<and>
    (pr_detached p \<longrightarrow> h \<notin> set (os @ owned s) \<and> pr_started p \<and> \<not> pr_done p) \<and>
    (pr_done p \<longrightarrow> pr_locals p = [] \<and> h \<notin> set (th_ready s))"
  using assms unfolding heap_ok_def by blast

lemma heap_okI:
  assumes "distinct (map fst (th_frames s))" "distinct (os @ owned s)" "\<not> th_dangling s"
    "set (th_ready s) \<subseteq> fst ` set (th_frames s)"
    "fst ` set (th_frames s) = set (os @ owned s) \<union> {h. \<exists>p. (h, p) \<in> set (th_frames s) \<and> pr_detached p}"
    "\<And>h p. (h, p) \<in> set (th_frames s) \<Longrightarrow> h \<noteq> null_handle \<and> rank h < m \<and> (\<forall>c \<in> set (pr_locals p). rank c < rank h) \<and>
      (pr_detached p \<longrightarrow> h \<notin> set (os @ owned s) \<and> pr_started p \<and> \<not> pr_done p) \<and>
      (pr_done p \<longrightarrow> pr_locals p = [] \<and> h \<notin> set (th_ready s))"
  shows "heap_ok m rank os s"
  using assms unfolding heap_ok_def by blast

lemma owned_live: "heap_ok m rank os s \<Longrightarrow> h \<in> set (os @ owned s) \<Longrightarrow> live h s"
  using heap_okD(5) by (fastforce simp: live_def)

lemma distinct_mset_eq: "mset xs = mset ys \<Longrightarrow> distinct xs \<Longrightarrow> distinct ys"
  by (metis mset_eq_imp_distinct_iff)

lemma drop_locals_ok:
  assumes ok: "heap_ok m rank os s" and live: "live h s"
  shows "heap_ok m rank (pr_locals (promise_of h s) @ os) (set_promise h (\<lambda>p. p\<lparr>pr_locals := []\<rparr>) s)"
    (is "heap_ok m rank (?ls @ os) ?s")
proof (rule heap_okI)
  note ok' = heap_okD [OF ok]
  have eq: "mset ((?ls @ os) @ owned ?s) = mset (os @ owned s)"
    using owned_set_promise [OF ok'(1) live_frame [OF live], where f = "\<lambda>p. p\<lparr>pr_locals := []\<rparr>"] by (simp add: ac_simps)
  show "distinct ((?ls @ os) @ owned ?s)" by (rule distinct_mset_eq [OF eq [symmetric] ok'(2)])
  have set_eq: "set ((?ls @ os) @ owned ?s) = set (os @ owned s)" using eq by (rule mset_eq_setD)
  have det: "{h. \<exists>p. (h, p) \<in> set (th_frames ?s) \<and> pr_detached p} = {h. \<exists>p. (h, p) \<in> set (th_frames s) \<and> pr_detached p}"
    by (auto simp: mem_set_promise split: if_splits) (metis promise.select_convs(4) promise.surjective promise.update_convs(7))
  show "fst ` set (th_frames ?s) = set ((?ls @ os) @ owned ?s) \<union> {h. \<exists>p. (h, p) \<in> set (th_frames ?s) \<and> pr_detached p}"
    unfolding set_eq det using ok'(5) by simp
  fix k p assume "(k, p) \<in> set (th_frames ?s)"
  then obtain q where "(k, q) \<in> set (th_frames s)" "p = (if k = h then q\<lparr>pr_locals := []\<rparr> else q)"
    by (auto simp: mem_set_promise)
  then show "k \<noteq> null_handle \<and> rank k < m \<and> (\<forall>c \<in> set (pr_locals p). rank c < rank k) \<and>
      (pr_detached p \<longrightarrow> k \<notin> set ((?ls @ os) @ owned ?s) \<and> pr_started p \<and> \<not> pr_done p) \<and>
      (pr_done p \<longrightarrow> pr_locals p = [] \<and> k \<notin> set (th_ready ?s))"
    unfolding set_eq using heap_ok_frame [OF ok, of k q] by (auto split: if_splits)
qed (use heap_okD [OF ok] in simp_all)

lemma owned_free_frame:
  assumes "pr_locals (promise_of h s) = []" "distinct (map fst (th_frames s))"
  shows "owned (free_frame h s) = owned s"
proof -
  have "concat (map (pr_locals \<circ> snd) (filter (\<lambda>(k, p). k \<noteq> h) fs)) = concat (map (pr_locals \<circ> snd) fs)"
    if "\<And>p. (h, p) \<in> set fs \<Longrightarrow> pr_locals p = []" for fs :: "(handle \<times> 'a promise) list"
    using that by (induction fs) (auto split: if_splits)
  with assms map_of_frame [OF assms(2), of h] show ?thesis
    unfolding owned_def free_frame_def by auto
qed

lemma free_frame_frame [simp]:
  "th_ready (free_frame h s) = th_ready s" "th_roots (free_frame h s) = th_roots s"
  "th_dangling (free_frame h s) = th_dangling s"
  "set (th_frames (free_frame h s)) = {(k, p) \<in> set (th_frames s). k \<noteq> h}"
  by (auto simp: free_frame_def)

lemma purge_ready_frame [simp]:
  "th_frames (purge_ready h s) = th_frames s" "th_dangling (purge_ready h s) = th_dangling s"
  "owned (purge_ready h s) = owned s" "set (th_ready (purge_ready h s)) = set (th_ready s) - {h}"
  by (auto simp: purge_ready_def owned_def)

text \<open>A frame without local tasks that only one dying object holds, or that is detached, can be freed.\<close>

lemma free_owned_ok:
  assumes ok: "heap_ok m rank (h # os) s" and empty: "pr_locals (promise_of h s) = []"
  shows "heap_ok m rank os (purge_ready h (free_frame h s))"
proof (rule heap_okI)
  note ok' = heap_okD [OF ok]
  note own = owned_free_frame [OF empty ok'(1)]
  show "distinct (map fst (th_frames (purge_ready h (free_frame h s))))"
    using ok'(1) by (simp add: free_frame_def distinct_map_filter)
  show "distinct (os @ owned (purge_ready h (free_frame h s)))" using ok'(2) by (simp add: own)
  show "\<not> th_dangling (purge_ready h (free_frame h s))" using ok'(3) by simp
  show "set (th_ready (purge_ready h (free_frame h s))) \<subseteq> fst ` set (th_frames (purge_ready h (free_frame h s)))"
    using ok'(4) by force
  have "fst ` {(k, p) \<in> set (th_frames s). k \<noteq> h} = fst ` set (th_frames s) - {h}" by force
  moreover have "h \<notin> set (os @ owned s)" using ok'(2) by simp
  moreover have "h \<notin> {k. \<exists>p. (k, p) \<in> set (th_frames s) \<and> pr_detached p}"
    using heap_ok_frame [OF ok, of h] by auto
  moreover have "{k. \<exists>p. ((k, p) \<in> set (th_frames s) \<and> k \<noteq> h) \<and> pr_detached p} =
    {k. \<exists>p. (k, p) \<in> set (th_frames s) \<and> pr_detached p} - {h}" by auto
  ultimately show "fst ` set (th_frames (purge_ready h (free_frame h s))) = set (os @ owned (purge_ready h (free_frame h s))) \<union>
      {k. \<exists>p. (k, p) \<in> set (th_frames (purge_ready h (free_frame h s))) \<and> pr_detached p}"
    using ok'(5) by (simp add: own)
  fix k p assume "(k, p) \<in> set (th_frames (purge_ready h (free_frame h s)))"
  then have "(k, p) \<in> set (th_frames s)" by simp
  from heap_ok_frame [OF ok this]
  show "k \<noteq> null_handle \<and> rank k < m \<and> (\<forall>c \<in> set (pr_locals p). rank c < rank k) \<and>
      (pr_detached p \<longrightarrow> k \<notin> set (os @ owned (purge_ready h (free_frame h s))) \<and> pr_started p \<and> \<not> pr_done p) \<and>
      (pr_done p \<longrightarrow> pr_locals p = [] \<and> k \<notin> set (th_ready (purge_ready h (free_frame h s))))"
    by (auto simp: own)
qed

lemma fold_destroy_keeps:
  "(k, p) \<in> set (th_frames (fold (destroy_frame n) ls s)) \<Longrightarrow>
    \<exists>q. (k, q) \<in> set (th_frames s) \<and> set (pr_locals p) \<subseteq> set (pr_locals q) \<and> p = q\<lparr>pr_locals := pr_locals p\<rparr>"
proof (induction ls arbitrary: s)
  case (Cons l ls)
  from Cons.IH [of "destroy_frame n l s"] Cons.prems obtain q where
    q: "(k, q) \<in> set (th_frames (destroy_frame n l s))" "set (pr_locals p) \<subseteq> set (pr_locals q)" "p = q\<lparr>pr_locals := pr_locals p\<rparr>"
    by auto
  from destroy_frame_keeps [OF q(1)] obtain q' where q': "(k, q') \<in> set (th_frames s)" "set (pr_locals q) \<subseteq> set (pr_locals q')"
    "q = q'\<lparr>pr_locals := pr_locals q\<rparr>" by blast
  have "p = q'\<lparr>pr_locals := pr_locals p\<rparr>"
    by (subst q(3), subst q'(3)) simp
  with q q' show ?case by blast
qed auto

lemma locals_destroyed:
  assumes "heap_ok m rank os s'" "s' = fold (destroy_frame n) ls (set_promise h (\<lambda>p. p\<lparr>pr_locals := []\<rparr>) s)" "live h s'"
  shows "pr_locals (promise_of h s') = []"
proof -
  from live_frame [OF assms(3)] have "(h, promise_of h s') \<in> set (th_frames (fold (destroy_frame n) ls (set_promise h (\<lambda>p. p\<lparr>pr_locals := []\<rparr>) s)))"
    using assms(2) by simp
  from fold_destroy_keeps [OF this] show ?thesis by (auto simp: mem_set_promise)
qed

lemma destroy_frame_ok:
  "heap_ok m rank (h # os) s \<Longrightarrow> rank h < n \<Longrightarrow> heap_ok m rank os (destroy_frame n h s)"
proof (induction n arbitrary: h os s)
  case (Suc n)
  have fold: "heap_ok m rank (ls @ os) s \<Longrightarrow> \<forall>l \<in> set ls. rank l < n \<Longrightarrow> heap_ok m rank os (fold (destroy_frame n) ls s)"
    for ls os and s :: "'a task_heap"
    by (induction ls arbitrary: s) (auto intro: Suc.IH)
  have live: "live h s" by (rule owned_live [OF Suc.prems(1)]) simp
  have h: "h \<noteq> null_handle" and ranks: "\<forall>c \<in> set (pr_locals (promise_of h s)). rank c < n"
    using heap_ok_frame [OF Suc.prems(1) live_frame [OF live]] Suc.prems(2) by auto
  define s' where "s' = fold (destroy_frame n) (pr_locals (promise_of h s)) (set_promise h (\<lambda>p. p\<lparr>pr_locals := []\<rparr>) s)"
  from drop_locals_ok [OF Suc.prems(1) live] ranks have ok': "heap_ok m rank (h # os) s'"
    unfolding s'_def by (rule fold)
  moreover have "live h s'" by (rule owned_live [OF ok']) simp
  ultimately have "heap_ok m rank os (purge_ready h (free_frame h s'))"
    using locals_destroyed [OF ok' s'_def] by (intro free_owned_ok)
  then show ?case using h live by (simp add: s'_def Let_def)
qed simp

section \<open>Runs of a program\<close>

text \<open>
  What a program does with its tasks: \<open>Create o h\<close>, coroutine \<open>o\<close> (null for \<open>main\<close> or the runtime)
  calls a coroutine whose frame is allocated at \<open>h\<close> and keeps the task object; \<open>Start\<close>, it first runs;
  \<open>Pop\<close>, the dispatcher takes the next ready handle; \<open>Yield\<close>, a coroutine yields; \<open>Await\<close> and \<open>Hook\<close>
  store a continuation or a completion hook; \<open>Finish\<close>, a coroutine returns; \<open>Cancel\<close> and \<open>Detach\<close>, the
  owner destroys its task object or gives it up. A step is refused when the program cannot do it: a
  coroutine that yields or returns is running, so it is not in the ready queue.
\<close>

datatype 'r life_event = Create handle handle | Start handle | Pop | Yield handle | Await handle handle
  | Hook handle hook | Finish handle 'r | Cancel_task handle | Detach_task handle

definition may_run :: "handle \<Rightarrow> 'r task_heap \<Rightarrow> bool" where
  "may_run h s \<longleftrightarrow> live h s \<and> \<not> pr_done (promise_of h s) \<and> h \<notin> set (th_ready s)"

definition disown :: "handle \<Rightarrow> 'r task_heap \<Rightarrow> 'r task_heap" where
  "disown h s = s\<lparr>th_roots := filter (\<lambda>k. k \<noteq> h) (th_roots s),
     th_frames := map (\<lambda>(k, p). (k, p\<lparr>pr_locals := filter (\<lambda>k. k \<noteq> h) (pr_locals p)\<rparr>)) (th_frames s)\<rparr>"

definition new_frame :: "handle \<Rightarrow> 'r task_heap \<Rightarrow> 'r task_heap" where
  "new_frame h s = s\<lparr>th_frames := th_frames s @ [(h, new_promise)]\<rparr>"

definition give :: "handle \<Rightarrow> handle \<Rightarrow> 'r task_heap \<Rightarrow> 'r task_heap" where
  "give ow h s = (if ow = null_handle then s\<lparr>th_roots := th_roots s @ [h]\<rparr>
     else set_promise ow (\<lambda>p. p\<lparr>pr_locals := pr_locals p @ [h]\<rparr>) s)"

text \<open>At its end a coroutine stores its result, its locals leave their scope, and it is finally suspended.\<close>

definition finish :: "nat \<Rightarrow> handle \<Rightarrow> 'r \<Rightarrow> 'r task_heap \<Rightarrow> (hook option \<times> handle) \<times> 'r task_heap" where
  "finish n h v s =
    (let s = return_value h v s; ls = pr_locals (promise_of h s);
         s = fold (destroy_frame n) ls (set_promise h (\<lambda>p. p\<lparr>pr_locals := []\<rparr>) s)
     in final_await_suspend n h (set_promise h (\<lambda>p. p\<lparr>pr_done := True\<rparr>) s))"

fun life_step :: "nat \<Rightarrow> 'r life_event \<Rightarrow> 'r task_heap \<Rightarrow> 'r task_heap option" where
  "life_step n (Create ow h) s =
    (if h \<noteq> null_handle \<and> \<not> live h s \<and> (ow = null_handle \<or> may_run ow s) then Some (give ow h (new_frame h s)) else None)"
| "life_step n (Start h) s = (if may_run h s then Some (initial_await_resume h s) else None)"
| "life_step n Pop s = (case th_ready s of [] \<Rightarrow> None | h # r \<Rightarrow> Some (s\<lparr>th_ready := r\<rparr>))"
| "life_step n (Yield h) s = (if may_run h s then Some (yield_await_suspend h s) else None)"
| "life_step n (Await h c) s = (if live h s \<and> h \<in> set (owned s) then Some (snd (task_await_suspend h c s)) else None)"
| "life_step n (Hook h k) s = (if live h s \<and> h \<in> set (owned s) then Some (set_completion_hook h k s) else None)"
| "life_step n (Finish h v) s = (if may_run h s \<and> pr_started (promise_of h s) then Some (snd (finish n h v s)) else None)"
| "life_step n (Cancel_task h) s = (if h \<in> set (owned s) then Some (task_cancel n h (disown h s)) else None)"
| "life_step n (Detach_task h) s = (if h \<in> set (owned s) then Some (task_detach n h (disown h s)) else None)"

fun life_exec :: "nat \<Rightarrow> 'r life_event list \<Rightarrow> 'r task_heap \<Rightarrow> 'r task_heap option" where
  "life_exec n [] s = Some s"
| "life_exec n (e # es) s = (case life_step n e s of None \<Rightarrow> None | Some s' \<Rightarrow> life_exec n es s')"

definition no_tasks :: "'r task_heap" where
  "no_tasks = \<lparr>th_frames = [], th_ready = [], th_roots = [], th_freed = [], th_dangling = False\<rparr>"

lemma ex_set_promise:
  assumes "distinct (map fst (th_frames s))" "live h s"
  shows "(\<exists>p. (k, p) \<in> set (th_frames (set_promise h f s)) \<and> Q p) \<longleftrightarrow>
    (if k = h then Q (f (promise_of h s)) else \<exists>p. (k, p) \<in> set (th_frames s) \<and> Q p)"
proof (cases "k = h")
  case True
  have "(\<exists>p q. (h, q) \<in> set (th_frames s) \<and> p = f q \<and> Q p) \<longleftrightarrow> Q (f (promise_of h s))"
  proof
    assume "\<exists>p q. (h, q) \<in> set (th_frames s) \<and> p = f q \<and> Q p"
    then obtain q where "(h, q) \<in> set (th_frames s)" "Q (f q)" by blast
    with map_of_frame [OF assms(1)] show "Q (f (promise_of h s))" by metis
  qed (use live_frame [OF assms(2)] in blast)
  with True show ?thesis unfolding mem_set_promise by auto
next
  case False
  then show ?thesis by (simp add: mem_set_promise)
qed

lemma ex_frame:
  assumes "distinct (map fst (th_frames s))" "live h s"
  shows "(\<exists>p. (h, p) \<in> set (th_frames s) \<and> Q p) \<longleftrightarrow> Q (promise_of h s)"
proof
  assume "\<exists>p. (h, p) \<in> set (th_frames s) \<and> Q p"
  then obtain p where "(h, p) \<in> set (th_frames s)" "Q p" by blast
  with map_of_frame [OF assms(1)] show "Q (promise_of h s)" by metis
qed (use live_frame [OF assms(2)] in blast)

text \<open>Changing a promise in ways that leave its locals alone.\<close>

lemma set_promise_ok:
  assumes ok: "heap_ok m rank os s" and live: "live h s"
    and locals: "pr_locals (f (promise_of h s)) = pr_locals (promise_of h s)"
    and det: "pr_detached (f (promise_of h s)) = pr_detached (promise_of h s)"
    and started: "pr_started (promise_of h s) \<longrightarrow> pr_started (f (promise_of h s))"
    and fin: "pr_done (f (promise_of h s)) = pr_done (promise_of h s) \<or>
      pr_done (f (promise_of h s)) \<and> pr_locals (promise_of h s) = [] \<and> h \<notin> set (th_ready s) \<and> \<not> pr_detached (promise_of h s)"
  shows "heap_ok m rank os (set_promise h f s)"
proof (rule heap_okI)
  note ok' = heap_okD [OF ok]
  have uniq: "q = promise_of h s" if "(h, q) \<in> set (th_frames s)" for q using map_of_frame [OF ok'(1) that] by simp
  have eq: "mset (os @ owned (set_promise h f s)) = mset (os @ owned s)"
    using owned_set_promise_same [where f = f and h = h and s = s, OF ok'(1) live locals] by simp
  show "distinct (os @ owned (set_promise h f s))" by (rule distinct_mset_eq [OF eq [symmetric] ok'(2)])
  have set_eq: "set (os @ owned (set_promise h f s)) = set (os @ owned s)" using eq by (rule mset_eq_setD)
  have "(\<exists>p. (k, p) \<in> set (th_frames (set_promise h f s)) \<and> pr_detached p) \<longleftrightarrow>
    (\<exists>p. (k, p) \<in> set (th_frames s) \<and> pr_detached p)" for k
    unfolding ex_set_promise [OF ok'(1) live] using ex_frame [OF ok'(1) live, of pr_detached] det by simp
  then show "fst ` set (th_frames (set_promise h f s)) = set (os @ owned (set_promise h f s)) \<union>
      {k. \<exists>p. (k, p) \<in> set (th_frames (set_promise h f s)) \<and> pr_detached p}"
    unfolding set_eq using ok'(5) by simp
  fix k p assume "(k, p) \<in> set (th_frames (set_promise h f s))"
  then obtain q where q: "(k, q) \<in> set (th_frames s)" "p = (if k = h then f q else q)"
    by (auto simp: mem_set_promise)
  show "k \<noteq> null_handle \<and> rank k < m \<and> (\<forall>c \<in> set (pr_locals p). rank c < rank k) \<and>
      (pr_detached p \<longrightarrow> k \<notin> set (os @ owned (set_promise h f s)) \<and> pr_started p \<and> \<not> pr_done p) \<and>
      (pr_done p \<longrightarrow> pr_locals p = [] \<and> k \<notin> set (th_ready (set_promise h f s)))"
  proof (cases "k = h")
    case True
    then show ?thesis unfolding set_eq using heap_ok_frame [OF ok, of h q] q uniq [of q] locals det started fin by auto
  next
    case False
    then show ?thesis unfolding set_eq using heap_ok_frame [OF ok q(1)] q(2) by simp
  qed
qed (use heap_okD [OF ok] in simp_all)

lemma owned_disown: "owned (disown h s) = filter (\<lambda>k. k \<noteq> h) (owned s)"
  by (simp add: owned_def disown_def filter_concat comp_def case_prod_beta)

lemma disown_ok:
  assumes ok: "heap_ok m rank [] s" and own: "h \<in> set (owned s)"
  shows "heap_ok m rank [h] (disown h s)"
proof (rule heap_okI)
  note ok' = heap_okD [OF ok]
  have frames: "(k, p) \<in> set (th_frames (disown h s)) \<longleftrightarrow>
    (\<exists>q. (k, q) \<in> set (th_frames s) \<and> p = q\<lparr>pr_locals := filter (\<lambda>k. k \<noteq> h) (pr_locals q)\<rparr>)" for k p
    by (auto simp: disown_def)
  have keys: "map fst (th_frames (disown h s)) = map fst (th_frames s)"
    by (simp add: disown_def comp_def case_prod_beta)
  then have keys_set: "fst ` set (th_frames (disown h s)) = fst ` set (th_frames s)" by (metis list.set_map)
  show "distinct (map fst (th_frames (disown h s)))" unfolding keys by (rule ok'(1))
  show "distinct ([h] @ owned (disown h s))" using ok'(2) by (simp add: owned_disown)
  show "\<not> th_dangling (disown h s)" using ok'(3) by (simp add: disown_def)
  show "set (th_ready (disown h s)) \<subseteq> fst ` set (th_frames (disown h s))"
    unfolding keys_set using ok'(4) by (simp add: disown_def)
  have set_eq: "set ([h] @ owned (disown h s)) = set ([] @ owned s)" using own by (auto simp: owned_disown)
  have "(\<exists>p. (k, p) \<in> set (th_frames (disown h s)) \<and> pr_detached p) \<longleftrightarrow>
    (\<exists>p. (k, p) \<in> set (th_frames s) \<and> pr_detached p)" for k by (force simp: frames)
  then show "fst ` set (th_frames (disown h s)) = set ([h] @ owned (disown h s)) \<union>
      {k. \<exists>p. (k, p) \<in> set (th_frames (disown h s)) \<and> pr_detached p}"
    unfolding set_eq keys_set using ok'(5) by simp
  fix k p assume "(k, p) \<in> set (th_frames (disown h s))"
  then obtain q where "(k, q) \<in> set (th_frames s)" "p = q\<lparr>pr_locals := filter (\<lambda>k. k \<noteq> h) (pr_locals q)\<rparr>"
    by (auto simp: frames)
  then show "k \<noteq> null_handle \<and> rank k < m \<and> (\<forall>c \<in> set (pr_locals p). rank c < rank k) \<and>
      (pr_detached p \<longrightarrow> k \<notin> set ([h] @ owned (disown h s)) \<and> pr_started p \<and> \<not> pr_done p) \<and>
      (pr_done p \<longrightarrow> pr_locals p = [] \<and> k \<notin> set (th_ready (disown h s)))"
    unfolding set_eq using heap_ok_frame [OF ok, of k q] by (auto simp: disown_def)
qed

text \<open>A dying object's frame that has been started and is not finished may be left to itself.\<close>

lemma detach_ok:
  assumes ok: "heap_ok m rank [h] s" and run: "pr_started (promise_of h s)" "\<not> pr_done (promise_of h s)"
  shows "heap_ok m rank [] (set_promise h (\<lambda>p. p\<lparr>pr_detached := True, pr_on_complete := None, pr_continuation := null_handle\<rparr>) s)"
    (is "heap_ok m rank [] ?s")
proof (rule heap_okI)
  note ok' = heap_okD [OF ok]
  have live: "live h s" by (rule owned_live [OF ok]) simp
  have uniq: "q = promise_of h s" if "(h, q) \<in> set (th_frames s)" for q using map_of_frame [OF ok'(1) that] by simp
  have eq: "mset (owned ?s) = mset (owned s)"
    by (rule owned_set_promise_same [OF ok'(1) live]) simp
  show "distinct ([] @ owned ?s)" using distinct_mset_eq [OF eq [symmetric]] ok'(2) by simp
  have set_eq: "set (owned ?s) = set (owned s)" using eq by (rule mset_eq_setD)
  have "(\<exists>p. (k, p) \<in> set (th_frames ?s) \<and> pr_detached p) \<longleftrightarrow>
    k = h \<or> (\<exists>p. (k, p) \<in> set (th_frames s) \<and> pr_detached p)" for k
    unfolding ex_set_promise [OF ok'(1) live] by simp
  then show "fst ` set (th_frames ?s) = set ([] @ owned ?s) \<union> {k. \<exists>p. (k, p) \<in> set (th_frames ?s) \<and> pr_detached p}"
    using ok'(5) set_eq by auto
  fix k p assume "(k, p) \<in> set (th_frames ?s)"
  then obtain q where q: "(k, q) \<in> set (th_frames s)" "p = (if k = h then q\<lparr>pr_detached := True, pr_on_complete := None, pr_continuation := null_handle\<rparr> else q)"
    by (auto simp: mem_set_promise)
  show "k \<noteq> null_handle \<and> rank k < m \<and> (\<forall>c \<in> set (pr_locals p). rank c < rank k) \<and>
      (pr_detached p \<longrightarrow> k \<notin> set ([] @ owned ?s) \<and> pr_started p \<and> \<not> pr_done p) \<and>
      (pr_done p \<longrightarrow> pr_locals p = [] \<and> k \<notin> set (th_ready ?s))"
  proof (cases "k = h")
    case True
    then show ?thesis using heap_ok_frame [OF ok, of h q] q uniq [of q] run ok'(2) set_eq by auto
  next
    case False
    then show ?thesis using heap_ok_frame [OF ok q(1)] q(2) set_eq by simp
  qed
qed (use heap_okD [OF ok] in simp_all)

lemma free_frame_set_promise [simp]: "free_frame h (set_promise h f s) = free_frame h s"
proof -
  have "filter (\<lambda>(k, p). k \<noteq> h) (map (\<lambda>(k, p). (k, if k = h then f p else p)) fs) = filter (\<lambda>(k, p). k \<noteq> h) fs" for fs
    by (induction fs) auto
  then show ?thesis by (simp add: free_frame_def set_promise_def)
qed

lemma free_detached_ok:
  assumes ok: "heap_ok m rank os s" and empty: "pr_locals (promise_of h s) = []" and live: "live h s"
    and det: "pr_detached (promise_of h s)" and idle: "h \<notin> set (th_ready s)"
  shows "heap_ok m rank os (free_frame h s)"
proof (rule heap_okI)
  note ok' = heap_okD [OF ok]
  note own = owned_free_frame [OF empty ok'(1)]
  show "distinct (map fst (th_frames (free_frame h s)))"
    using ok'(1) by (simp add: free_frame_def distinct_map_filter)
  show "set (th_ready (free_frame h s)) \<subseteq> fst ` set (th_frames (free_frame h s))"
    using ok'(4) idle by force
  have "h \<notin> set (os @ owned s)" using heap_ok_frame [OF ok live_frame [OF live]] det by simp
  moreover have "fst ` {(k, p) \<in> set (th_frames s). k \<noteq> h} = fst ` set (th_frames s) - {h}" by force
  moreover have "{k. \<exists>p. ((k, p) \<in> set (th_frames s) \<and> k \<noteq> h) \<and> pr_detached p} =
    {k. \<exists>p. (k, p) \<in> set (th_frames s) \<and> pr_detached p} - {h}" by auto
  ultimately show "fst ` set (th_frames (free_frame h s)) = set (os @ owned (free_frame h s)) \<union>
      {k. \<exists>p. (k, p) \<in> set (th_frames (free_frame h s)) \<and> pr_detached p}"
    using ok'(5) by (simp add: own) blast
  fix k p assume "(k, p) \<in> set (th_frames (free_frame h s))"
  then have "(k, p) \<in> set (th_frames s)" by simp
  from heap_ok_frame [OF ok this]
  show "k \<noteq> null_handle \<and> rank k < m \<and> (\<forall>c \<in> set (pr_locals p). rank c < rank k) \<and>
      (pr_detached p \<longrightarrow> k \<notin> set (os @ owned (free_frame h s)) \<and> pr_started p \<and> \<not> pr_done p) \<and>
      (pr_done p \<longrightarrow> pr_locals p = [] \<and> k \<notin> set (th_ready (free_frame h s)))"
    by (auto simp: own)
qed (use heap_okD [OF ok] owned_free_frame [OF empty] in simp_all)

lemma new_frame_ok:
  assumes ok: "heap_ok m rank [] s" and fresh: "\<not> live h s" "h \<noteq> null_handle"
  shows "heap_ok (Suc m) (\<lambda>k. if k = h then 0 else Suc (rank k)) [h] (new_frame h s)"
proof (rule heap_okI)
  note ok' = heap_okD [OF ok]
  have own: "owned (new_frame h s) = owned s" by (simp add: owned_def new_frame_def new_promise_def)
  have "h \<notin> set (owned s)" using owned_live [OF ok, of h] fresh by auto
  then show "distinct ([h] @ owned (new_frame h s))" using ok'(2) by (simp add: own)
  show "distinct (map fst (th_frames (new_frame h s)))"
    using ok'(1) fresh by (simp add: new_frame_def live_def)
  have "{k. \<exists>p. (k, p) \<in> set (th_frames (new_frame h s)) \<and> pr_detached p} =
    {k. \<exists>p. (k, p) \<in> set (th_frames s) \<and> pr_detached p}" by (auto simp: new_frame_def new_promise_def)
  then show "fst ` set (th_frames (new_frame h s)) = set ([h] @ owned (new_frame h s)) \<union>
      {k. \<exists>p. (k, p) \<in> set (th_frames (new_frame h s)) \<and> pr_detached p}"
    using ok'(5) by (simp add: own) (simp add: new_frame_def)
  fix k p assume kp: "(k, p) \<in> set (th_frames (new_frame h s))"
  show "k \<noteq> null_handle \<and> (if k = h then 0 else Suc (rank k)) < Suc m \<and>
      (\<forall>c \<in> set (pr_locals p). (if c = h then 0 else Suc (rank c)) < (if k = h then 0 else Suc (rank k))) \<and>
      (pr_detached p \<longrightarrow> k \<notin> set ([h] @ owned (new_frame h s)) \<and> pr_started p \<and> \<not> pr_done p) \<and>
      (pr_done p \<longrightarrow> pr_locals p = [] \<and> k \<notin> set (th_ready (new_frame h s)))"
  proof (cases "(k, p) \<in> set (th_frames s)")
    case True
    then have "k \<noteq> h" using fresh(1) by (force simp: live_def)
    then show ?thesis using heap_ok_frame [OF ok True] by (auto simp: own) (auto simp: new_frame_def)
  next
    case False
    then have "k = h" "p = new_promise" using kp by (auto simp: new_frame_def)
    then show ?thesis using fresh(2) by (simp add: new_promise_def)
  qed
qed (use heap_okD [OF ok] in \<open>auto simp: new_frame_def\<close>)

lemma give_root_ok: "heap_ok m rank [h] s \<Longrightarrow> heap_ok m rank [] (s\<lparr>th_roots := th_roots s @ [h]\<rparr>)"
  unfolding heap_ok_def by (auto simp: owned_def)

lemma give_ok:
  assumes ok: "heap_ok m rank [h] s" and ow: "live ow s" "rank h < rank ow" "\<not> pr_done (promise_of ow s)"
  shows "heap_ok m rank [] (set_promise ow (\<lambda>p. p\<lparr>pr_locals := pr_locals p @ [h]\<rparr>) s)" (is "heap_ok m rank [] ?s")
proof (rule heap_okI)
  note ok' = heap_okD [OF ok]
  have eq: "mset ([] @ owned ?s) = mset ([h] @ owned s)"
    using owned_set_promise [OF ok'(1) live_frame [OF ow(1)], where f = "\<lambda>p. p\<lparr>pr_locals := pr_locals p @ [h]\<rparr>"] by simp
  show "distinct ([] @ owned ?s)" by (rule distinct_mset_eq [OF eq [symmetric] ok'(2)])
  have set_eq: "set ([] @ owned ?s) = set ([h] @ owned s)" using eq by (rule mset_eq_setD)
  have "(\<exists>p. (k, p) \<in> set (th_frames ?s) \<and> pr_detached p) \<longleftrightarrow> (\<exists>p. (k, p) \<in> set (th_frames s) \<and> pr_detached p)" for k
    unfolding ex_set_promise [OF ok'(1) ow(1)] using ex_frame [OF ok'(1) ow(1), of pr_detached] by simp
  then show "fst ` set (th_frames ?s) = set ([] @ owned ?s) \<union> {k. \<exists>p. (k, p) \<in> set (th_frames ?s) \<and> pr_detached p}"
    unfolding set_eq using ok'(5) by simp
  fix k p assume "(k, p) \<in> set (th_frames ?s)"
  then obtain q where q: "(k, q) \<in> set (th_frames s)" "p = (if k = ow then q\<lparr>pr_locals := pr_locals q @ [h]\<rparr> else q)"
    by (auto simp: mem_set_promise)
  show "k \<noteq> null_handle \<and> rank k < m \<and> (\<forall>c \<in> set (pr_locals p). rank c < rank k) \<and>
      (pr_detached p \<longrightarrow> k \<notin> set ([] @ owned ?s) \<and> pr_started p \<and> \<not> pr_done p) \<and>
      (pr_done p \<longrightarrow> pr_locals p = [] \<and> k \<notin> set (th_ready ?s))"
    unfolding set_eq using heap_ok_frame [OF ok q(1)] q(2) ow(2,3) map_of_frame [OF ok'(1) q(1)] by auto
qed (use heap_okD [OF ok] in simp_all)

lemma heap_ok_mono: "heap_ok m rank os s \<Longrightarrow> m \<le> m' \<Longrightarrow> heap_ok m' rank os s"
proof (rule heap_okI)
  assume ok: "heap_ok m rank os s" and le: "m \<le> m'"
  show "fst ` set (th_frames s) = set (os @ owned s) \<union> {h. \<exists>p. (h, p) \<in> set (th_frames s) \<and> pr_detached p}"
    by (rule heap_okD(5) [OF ok])
  show "distinct (os @ owned s)" by (rule heap_okD(2) [OF ok])
  show "set (th_ready s) \<subseteq> fst ` set (th_frames s)" by (rule heap_okD(4) [OF ok])
  fix h p assume "(h, p) \<in> set (th_frames s)"
  from heap_ok_frame [OF ok this] le show "h \<noteq> null_handle \<and> rank h < m' \<and> (\<forall>c \<in> set (pr_locals p). rank c < rank h) \<and>
      (pr_detached p \<longrightarrow> h \<notin> set (os @ owned s) \<and> pr_started p \<and> \<not> pr_done p) \<and>
      (pr_done p \<longrightarrow> pr_locals p = [] \<and> h \<notin> set (th_ready s))"
    by (elim conjE, intro conjI) (simp, linarith, assumption+)
qed (use heap_okD in blast)+

lemma promise_of_set_promise [simp]:
  "live h s \<Longrightarrow> promise_of k (set_promise h f s) = (if k = h then f (promise_of h s) else promise_of k s)"
proof -
  have "map_of (map (\<lambda>(k, p). (k, if k = h then f p else p)) fs) k =
    (if k = h then map_option f (map_of fs h) else map_of fs k)" for fs
    by (induction fs) auto
  moreover assume "live h s"
  then obtain p where "map_of (th_frames s) h = Some p" by (auto simp: live_def dest!: weak_map_of_SomeI)
  ultimately show ?thesis by (simp add: promise_of_def set_promise_def)
qed

lemma fold_destroy_ok:
  assumes "m \<le> n"
  shows "heap_ok m rank (ls @ os) s \<Longrightarrow> heap_ok m rank os (fold (destroy_frame n) ls s)"
proof (induction ls arbitrary: s)
  case (Cons l ls)
  have "live l s" by (rule owned_live [OF Cons.prems]) simp
  from heap_ok_frame [OF Cons.prems live_frame [OF this]] assms have "rank l < n" by simp
  then have "heap_ok m rank (ls @ os) (destroy_frame n l s)"
    using Cons.prems destroy_frame_ok [of m rank l "ls @ os" s n] by simp
  from Cons.IH [OF this] show ?case by simp
qed simp

text \<open>Destroying a frame only reaches frames of lower rank, and takes nothing into the ready queue.\<close>

lemma destroy_frame_ready: "set (th_ready (destroy_frame n h s)) \<subseteq> set (th_ready s)"
proof (induction n arbitrary: h s)
  case (Suc n)
  have fold: "set (th_ready (fold (destroy_frame n) ls s)) \<subseteq> set (th_ready s)" for ls and s :: "'a task_heap"
    using Suc.IH by (induction ls arbitrary: s) (simp, fastforce)
  show ?case using fold [of "pr_locals (promise_of h s)" "set_promise h (\<lambda>p. p\<lparr>pr_locals := []\<rparr>) s"]
    by (auto simp: Let_def)
qed simp

lemma destroy_frame_high:
  "heap_ok m rank (h # os) s \<Longrightarrow> rank h < n \<Longrightarrow> rank h < rank k \<Longrightarrow> live k (destroy_frame n h s) = live k s"
proof (induction n arbitrary: h os s)
  case (Suc n)
  have fold: "heap_ok m rank (ls @ os) s \<Longrightarrow> \<forall>l \<in> set ls. rank l < n \<and> rank l < rank k \<Longrightarrow>
      live k (fold (destroy_frame n) ls s) = live k s" for ls os and s :: "'a task_heap"
  proof (induction ls arbitrary: s)
    case (Cons l ls)
    then have "heap_ok m rank (ls @ os) (destroy_frame n l s)" "live k (destroy_frame n l s) = live k s"
      using destroy_frame_ok [of m rank l "ls @ os" s n] Suc.IH [of l "ls @ os" s] by simp_all
    then show ?case using Cons.IH [of "destroy_frame n l s"] Cons.prems(2) by simp
  qed simp
  have live: "live h s" by (rule owned_live [OF Suc.prems(1)]) simp
  have h: "h \<noteq> null_handle" and ranks: "\<forall>c \<in> set (pr_locals (promise_of h s)). rank c < n \<and> rank c < rank k"
    using heap_ok_frame [OF Suc.prems(1) live_frame [OF live]] Suc.prems(2,3) by auto
  have "k \<noteq> h" using Suc.prems(3) by auto
  then have "live k (purge_ready h (free_frame h t)) = live k t" for t :: "'a task_heap"
    by (force simp: live_def)
  then show ?case using fold [OF drop_locals_ok [OF Suc.prems(1) live] ranks] h live by (simp add: Let_def)
qed simp

lemma fold_destroy_high:
  assumes "m \<le> n"
  shows "heap_ok m rank (ls @ os) s \<Longrightarrow> \<forall>l \<in> set ls. rank l < rank k \<Longrightarrow>
    live k (fold (destroy_frame n) ls s) = live k s \<and> set (th_ready (fold (destroy_frame n) ls s)) \<subseteq> set (th_ready s)"
proof (induction ls arbitrary: s)
  case (Cons l ls)
  have "live l s" by (rule owned_live [OF Cons.prems(1)]) simp
  from heap_ok_frame [OF Cons.prems(1) live_frame [OF this]] assms have "rank l < n" by simp
  then have "heap_ok m rank (ls @ os) (destroy_frame n l s)" "live k (destroy_frame n l s) = live k s"
    using Cons.prems destroy_frame_ok [of m rank l "ls @ os" s n] destroy_frame_high [of m rank l "ls @ os" s n k] by simp_all
  then show ?case using Cons.IH [of "destroy_frame n l s"] Cons.prems(2) destroy_frame_ready [of n l s] by auto
qed simp

text \<open>What is left of a coroutine when its locals are gone.\<close>

lemma scope_left:
  assumes ok: "heap_ok m rank os s" and n: "m \<le> n" and live: "live h s"
    and t: "t = fold (destroy_frame n) (pr_locals (promise_of h s)) (set_promise h (\<lambda>p. p\<lparr>pr_locals := []\<rparr>) s)"
  shows "heap_ok m rank os t" "live h t" "set (th_ready t) \<subseteq> set (th_ready s)"
    "promise_of h t = (promise_of h s)\<lparr>pr_locals := []\<rparr>"
proof -
  note drop = drop_locals_ok [OF ok live]
  have "\<forall>l \<in> set (pr_locals (promise_of h s)). rank l < rank h"
    using heap_ok_frame [OF ok live_frame [OF live]] by simp
  from fold_destroy_high [OF n drop this] live show "live h t" "set (th_ready t) \<subseteq> set (th_ready s)"
    by (simp_all add: t)
  show ok': "heap_ok m rank os t" unfolding t by (rule fold_destroy_ok [OF n drop])
  from live_frame [OF \<open>live h t\<close>] have "(h, promise_of h t) \<in>
      set (th_frames (fold (destroy_frame n) (pr_locals (promise_of h s)) (set_promise h (\<lambda>p. p\<lparr>pr_locals := []\<rparr>) s)))"
    by (simp add: t)
  from fold_destroy_keeps [OF this] obtain q where q: "(h, q) \<in> set (th_frames (set_promise h (\<lambda>p. p\<lparr>pr_locals := []\<rparr>) s))"
    "set (pr_locals (promise_of h t)) \<subseteq> set (pr_locals q)" "promise_of h t = q\<lparr>pr_locals := pr_locals (promise_of h t)\<rparr>" by blast
  from q(1) have "q = (promise_of h s)\<lparr>pr_locals := []\<rparr>"
    using map_of_frame [OF heap_okD(1) [OF ok]] by (auto simp: mem_set_promise)
  with q(2,3) show "promise_of h t = (promise_of h s)\<lparr>pr_locals := []\<rparr>" by simp
qed

lemma finish_ok:
  assumes ok: "heap_ok m rank [] s" and n: "m \<le> n" and run: "may_run h s" and started: "pr_started (promise_of h s)"
  shows "heap_ok m rank [] (snd (finish n h v s))"
proof -
  define s1 where "s1 = return_value h v s"
  define s2 where "s2 = fold (destroy_frame n) (pr_locals (promise_of h s1)) (set_promise h (\<lambda>p. p\<lparr>pr_locals := []\<rparr>) s1)"
  from run have live: "live h s" and going: "\<not> pr_done (promise_of h s)" "h \<notin> set (th_ready s)" by (simp_all add: may_run_def)
  have ok1: "heap_ok m rank [] s1" and live1: "live h s1" and same: "th_ready s1 = th_ready s"
    "promise_of h s1 = (promise_of h s)\<lparr>pr_result := Some v\<rparr>"
    unfolding s1_def return_value_def using set_promise_ok [OF ok live] live by simp_all
  note left = scope_left [OF ok1 n live1 s2_def]
  from left(3) same going have idle: "h \<notin> set (th_ready s2)" by auto
  have fin: "finish n h v s = final_await_suspend n h (set_promise h (\<lambda>p. p\<lparr>pr_done := True\<rparr>) s2)"
    by (simp add: finish_def s1_def s2_def Let_def)
  show ?thesis
  proof (cases "pr_detached (promise_of h s2)")
    case True
    then have "snd (finish n h v s) = free_frame h s2"
      using left(2,4) by (simp add: fin final_await_suspend_def destroy_handle_def)
    then show ?thesis using free_detached_ok [OF left(1) _ left(2) True idle] left(4) by simp
  next
    case False
    then have "snd (finish n h v s) = set_promise h (\<lambda>p. p\<lparr>pr_done := True\<rparr>) s2"
      using left(2,4) by (simp add: fin final_await_suspend_def)
    then show ?thesis using set_promise_ok [OF left(1,2)] False left(4) idle by simp
  qed
qed

lemma create_ok:
  assumes ok: "heap_ok m rank [] s" and fresh: "h \<noteq> null_handle" "\<not> live h s" and ow: "ow = null_handle \<or> may_run ow s"
  shows "\<exists>rank. heap_ok (Suc m) rank [] (give ow h (new_frame h s))"
proof -
  let ?rank = "\<lambda>k. if k = h then 0 else Suc (rank k)"
  note new = new_frame_ok [OF ok fresh(2,1)]
  show ?thesis
  proof (cases "ow = null_handle")
    case True
    then show ?thesis using give_root_ok [OF new] by (auto simp: give_def)
  next
    case False
    with ow have live: "live ow s" and going: "\<not> pr_done (promise_of ow s)" by (simp_all add: may_run_def)
    then have "ow \<noteq> h" using fresh(2) by auto
    moreover have "live ow (new_frame h s)" using live by (auto simp: live_def new_frame_def)
    moreover have "promise_of ow (new_frame h s) = promise_of ow s"
      using \<open>ow \<noteq> h\<close> by (simp add: promise_of_def new_frame_def map_add_def split: option.split)
    ultimately show ?thesis using give_ok [OF new, of ow] going False by (auto simp: give_def)
  qed
qed

lemma yield_ok:
  assumes ok: "heap_ok m rank [] s" and run: "may_run h s"
  shows "heap_ok m rank [] (yield_await_suspend h s)"
proof (rule heap_okI)
  have own: "owned (yield_await_suspend h s) = owned s" by (simp add: yield_await_suspend_def owned_def)
  show "fst ` set (th_frames (yield_await_suspend h s)) = set ([] @ owned (yield_await_suspend h s)) \<union>
      {k. \<exists>p. (k, p) \<in> set (th_frames (yield_await_suspend h s)) \<and> pr_detached p}"
    unfolding own using heap_okD(5) [OF ok] by (simp add: yield_await_suspend_def)
  show "set (th_ready (yield_await_suspend h s)) \<subseteq> fst ` set (th_frames (yield_await_suspend h s))"
    using heap_okD(4) [OF ok] run by (auto simp: yield_await_suspend_def may_run_def live_def)
  fix k p assume "(k, p) \<in> set (th_frames (yield_await_suspend h s))"
  then have kp: "(k, p) \<in> set (th_frames s)" by (simp add: yield_await_suspend_def)
  show "k \<noteq> null_handle \<and> rank k < m \<and> (\<forall>c \<in> set (pr_locals p). rank c < rank k) \<and>
      (pr_detached p \<longrightarrow> k \<notin> set ([] @ owned (yield_await_suspend h s)) \<and> pr_started p \<and> \<not> pr_done p) \<and>
      (pr_done p \<longrightarrow> pr_locals p = [] \<and> k \<notin> set (th_ready (yield_await_suspend h s)))"
    unfolding own using heap_ok_frame [OF ok kp] run map_of_frame [OF heap_okD(1) [OF ok] kp]
    by (auto simp: yield_await_suspend_def may_run_def)
qed (use heap_okD [OF ok] in \<open>simp_all add: yield_await_suspend_def owned_def\<close>)

lemma pop_ok: "heap_ok m rank [] s \<Longrightarrow> th_ready s = h # r \<Longrightarrow> heap_ok m rank [] (s\<lparr>th_ready := r\<rparr>)"
  unfolding heap_ok_def by (auto simp: owned_def)

lemma cancel_ok:
  assumes ok: "heap_ok m rank [] s" and n: "m \<le> n" and own: "h \<in> set (owned s)"
  shows "heap_ok m rank [] (task_cancel n h (disown h s))"
proof -
  note dis = disown_ok [OF ok own]
  have "live h (disown h s)" by (rule owned_live [OF dis]) simp
  from heap_ok_frame [OF dis live_frame [OF this]] n have "rank h < n" by simp
  then show ?thesis unfolding task_cancel_def using destroy_frame_ok [OF dis] by simp
qed

lemma detach_step_ok:
  assumes ok: "heap_ok m rank [] s" and n: "m \<le> n" and own: "h \<in> set (owned s)"
  shows "heap_ok m rank [] (task_detach n h (disown h s))"
proof -
  note dis = disown_ok [OF ok own]
  have "live h (disown h s)" by (rule owned_live [OF dis]) simp
  from heap_ok_frame [OF dis live_frame [OF this]] have "h \<noteq> null_handle" by simp
  then show ?thesis using detach_ok [OF dis] cancel_ok [OF ok n own] by (auto simp: task_detach_def task_cancel_def)
qed

lemma life_step_ok:
  assumes ok: "heap_ok m rank [] s" and n: "m \<le> n" and step: "life_step n e s = Some s'"
  shows "\<exists>rank. heap_ok (Suc m) rank [] s'"
proof -
  have mono: "heap_ok m rank [] t \<Longrightarrow> \<exists>rank. heap_ok (Suc m) rank [] t" for t :: "'a task_heap"
    using heap_ok_mono [of m rank "[]" t "Suc m"] by auto
  show ?thesis
  proof (cases e)
    case (Create ow h)
    then show ?thesis using step create_ok [OF ok, of h ow] by (auto split: if_splits)
  next
    case (Start h)
    with step have "live h s" "s' = initial_await_resume h s" by (auto simp: may_run_def split: if_splits)
    then show ?thesis by (intro mono) (simp add: initial_await_resume_def set_promise_ok [OF ok])
  next
    case Pop
    then show ?thesis using step pop_ok [OF ok] by (intro mono) (auto split: list.splits)
  next
    case (Yield h)
    then show ?thesis using step yield_ok [OF ok] by (intro mono) (auto split: if_splits)
  next
    case (Await h c)
    with step have "live h s" "s' = snd (task_await_suspend h c s)" by (auto split: if_splits)
    then show ?thesis by (intro mono) (simp add: task_await_suspend_def set_promise_ok [OF ok])
  next
    case (Hook h k)
    with step have "live h s" "s' = set_completion_hook h k s" by (auto split: if_splits)
    then show ?thesis using ok by (intro mono) (auto simp: set_completion_hook_def set_promise_ok [OF ok])
  next
    case (Finish h v)
    then show ?thesis using step finish_ok [OF ok n] by (intro mono) (auto split: if_splits)
  next
    case (Cancel_task h)
    then show ?thesis using step cancel_ok [OF ok n] by (intro mono) (auto split: if_splits)
  next
    case (Detach_task h)
    then show ?thesis using step detach_step_ok [OF ok n] by (intro mono) (auto split: if_splits)
  qed
qed

lemma life_exec_ok:
  "heap_ok m rank [] s \<Longrightarrow> m + length es \<le> n \<Longrightarrow> life_exec n es s = Some s' \<Longrightarrow> \<exists>m' rank. heap_ok m' rank [] s'"
proof (induction es arbitrary: s m rank)
  case (Cons e es)
  from Cons.prems(3) obtain s1 where s1: "life_step n e s = Some s1" "life_exec n es s1 = Some s'"
    by (auto split: option.splits)
  from life_step_ok [OF Cons.prems(1) _ s1(1)] Cons.prems(2) obtain rank' where "heap_ok (Suc m) rank' [] s1" by auto
  from Cons.IH [OF this _ s1(2)] Cons.prems(2) show ?case by simp
qed auto


text \<open>
  A parent with two children yields and is cancelled: its children go with it, and nothing is left in
  the ready queue; a detached task then frees itself at its end.
\<close>

definition family_events :: "nat life_event list" where
  "family_events = [Create 0 64, Start 64, Create 64 128, Create 64 192, Start 128, Yield 128, Yield 64,
     Create 0 256, Start 256, Detach_task 256, Cancel_task 64, Finish 256 7]"


end
