(* ===== verification/Combinators.thy ===== *)
theory Combinators
  imports Task_Life
begin

text \<open>
  \<open>when_all\<close> and \<open>when_any\<close> of \<open>include/asp_coro.hpp\<close>. An awaiter's shared fields are accessed by the
  children's completion hooks and by \<open>await_suspend\<close>; each definition here is one atomic access or a
  run of accesses by one thread. What happens to the caller is recorded: \<open>Goes_on\<close> when
  \<open>await_suspend\<close> returns false and the caller runs on, \<open>Posted\<close> when it is posted to the ready queue.
\<close>

datatype caller_event = Goes_on | Posted handle

section \<open>when_all\<close>

record when_all =
  wa_remaining :: u64
  wa_caller :: handle

definition when_all_new :: "nat \<Rightarrow> when_all" where
  "when_all_new n = \<lparr>wa_remaining = of_nat (n + 1), wa_caller = null_handle\<rparr>"

definition wa_await_ready :: "nat \<Rightarrow> bool" where
  "wa_await_ready n \<longleftrightarrow> n = 0"

definition wa_notify_done :: "when_all \<Rightarrow> caller_event list \<times> when_all" where
  "wa_notify_done w =
    (let before = wa_remaining w; w = w\<lparr>wa_remaining := before - 1\<rparr> in
     if before = 1
     then (if wa_caller w \<noteq> null_handle then [Posted (wa_caller w)] else [], w\<lparr>wa_caller := null_handle\<rparr>)
     else ([], w))"

text \<open>
  The two ends of \<open>await_suspend\<close>: it stores the caller, then starts the children in order (each may
  complete at once), and at last takes its own share of the counter and returns whether to suspend.
\<close>

definition wa_begin_suspend :: "handle \<Rightarrow> when_all \<Rightarrow> when_all" where
  "wa_begin_suspend caller w = w\<lparr>wa_caller := caller\<rparr>"

definition wa_end_suspend :: "when_all \<Rightarrow> caller_event list \<times> when_all" where
  "wa_end_suspend w =
    (let before = wa_remaining w; w = w\<lparr>wa_remaining := before - 1\<rparr> in
     (if before > 1 then [] else [Goes_on], w))"

text \<open>
  \<open>inject_callback\<close> for each child of the awaiter numbered \<open>k\<close>, before any child starts; it traps on an
  empty task. \<open>get_results\<close> reads every child's result in order.
\<close>

definition wa_inject :: "nat \<Rightarrow> handle list \<Rightarrow> 'r task_heap \<Rightarrow> 'r task_heap option" where
  "wa_inject k hs s =
    (if null_handle \<in> set hs then None
     else Some (fold (\<lambda>h. set_promise h (\<lambda>p. p\<lparr>pr_on_complete := Some (All_done k)\<rparr>)) hs s))"

definition wa_results :: "handle list \<Rightarrow> 'r task_heap \<Rightarrow> 'r option list" where
  "wa_results hs s = map (\<lambda>h. task_await_resume h s) hs"

datatype all_event = Child_done | Suspend_end

fun all_run :: "all_event list \<Rightarrow> when_all \<Rightarrow> caller_event list list \<times> when_all" where
  "all_run [] w = ([], w)"
| "all_run (Child_done # es) w = (let (o1, w) = wa_notify_done w; (os, w) = all_run es w in (o1 # os, w))"
| "all_run (Suspend_end # es) w = (let (o1, w) = wa_end_suspend w; (os, w) = all_run es w in (o1 # os, w))"

lemma all_run_counts:
  "unat (wa_remaining w) = length es \<Longrightarrow> es \<noteq> [] \<Longrightarrow> wa_caller w = h \<Longrightarrow> h \<noteq> null_handle \<Longrightarrow>
    fst (all_run es w) = replicate (length es - 1) [] @ [if last es = Suspend_end then [Goes_on] else [Posted h]]"
proof (induction es arbitrary: w)
  case (Cons e es)
  define r where "r = wa_remaining w"
  have r: "unat r = Suc (length es)" using Cons.prems(1) by (simp add: r_def)
  then have "r \<noteq> 0" by auto
  have rest: "unat (r - 1) = length es" using unat_minus_one [OF \<open>r \<noteq> 0\<close>] r by simp
  show ?case
  proof (cases "es = []")
    case True
    with r have "r = 1" using word_unat_eq_iff [of r 1] by simp
    then show ?thesis using True Cons.prems
      by (cases e) (simp_all add: wa_notify_done_def wa_end_suspend_def r_def [symmetric])
  next
    case False
    then have big: "r \<noteq> 1" "1 < r" using r by (auto simp: word_less_nat_alt)
    let ?w = "w\<lparr>wa_remaining := r - 1\<rparr>"
    have "fst (all_run es ?w) = replicate (length es - 1) [] @ [if last es = Suspend_end then [Goes_on] else [Posted h]]"
      using Cons.IH [of ?w] False rest Cons.prems by simp
    moreover have "fst (all_run (e # es) w) = [] # fst (all_run es ?w)"
      using big by (cases e) (simp_all add: wa_notify_done_def wa_end_suspend_def r_def [symmetric] case_prod_beta)
    ultimately show ?thesis using False by (cases es) auto
  qed
qed simp

text \<open>
  (C8) \<open>when_all\<close> resumes its caller exactly once, and only after every child is done: whatever the order of
  the children's completions and of the end of \<open>await_suspend\<close>, nothing happens to the caller before
  the last of them; then it goes on in \<open>await_suspend\<close> if that came last, and is posted once otherwise.
\<close>

theorem when_all_resumes_once:
  assumes "count (mset es) Child_done = n" "count (mset es) Suspend_end = 1" "n < 2 ^ 64 - 1" "h \<noteq> null_handle"
  shows "fst (all_run es (wa_begin_suspend h (when_all_new n))) =
    replicate n [] @ [if last es = Suspend_end then [Goes_on] else [Posted h]]"
proof -
  have "length es = count (mset es) Child_done + count (mset es) Suspend_end"
  proof (induction es)
    case (Cons e es)
    then show ?case by (cases e) auto
  qed simp
  then have len: "length es = n + 1" using assms by simp
  moreover have "unat (of_nat (n + 1) :: u64) = n + 1" using assms(3) by (intro unat_of_nat_small) simp
  ultimately show ?thesis
    using all_run_counts [of "wa_begin_suspend h (when_all_new n)" es h] assms(4)
    by (cases "es = []") (auto simp: wa_begin_suspend_def when_all_new_def)
qed

lemma replicate_numeral_2: "replicate 2 x = [x, x]"
  by (simp add: numeral_2_eq_2)

lemma when_all_resumes_once_witness:
  "fst (all_run [Child_done, Suspend_end, Child_done] (wa_begin_suspend 64 (when_all_new 2))) = [[], [], [Posted 64]]"
  (is "fst (all_run ?es ?w) = _")
  using when_all_resumes_once [of "[Child_done, Suspend_end, Child_done]" 2 64]
  by (simp add: replicate_numeral_2 del: all_run.simps)

section \<open>when_any\<close>

text \<open>\<open>ready_index_\<close> is \<open>None\<close> for -1, else whether the second task won.\<close>

record when_any =
  wy_ready :: "bool option"
  wy_stage :: nat
  wy_caller :: handle

definition when_any_new :: when_any where
  "when_any_new = \<lparr>wy_ready = None, wy_stage = 0, wy_caller = null_handle\<rparr>"

definition wy_await_ready :: "bool \<Rightarrow> bool \<Rightarrow> bool" where
  "wy_await_ready done1 done2 \<longleftrightarrow> done1 \<or> done2"

text \<open>\<open>notify_winner\<close> is a compare-and-swap of the index and, for the winner, an exchange of the stage.\<close>

definition wy_cas :: "bool \<Rightarrow> when_any \<Rightarrow> bool \<times> when_any" where
  "wy_cas i w = (if wy_ready w = None then (True, w\<lparr>wy_ready := Some i\<rparr>) else (False, w))"

definition wy_stage_won :: "when_any \<Rightarrow> caller_event list \<times> when_any" where
  "wy_stage_won w =
    (let prev = wy_stage w; w = w\<lparr>wy_stage := 2\<rparr> in
     if prev = 1 then (if wy_caller w \<noteq> null_handle then [Posted (wy_caller w)] else [], w\<lparr>wy_caller := null_handle\<rparr>)
     else ([], w))"

definition wy_notify_winner :: "bool \<Rightarrow> when_any \<Rightarrow> caller_event list \<times> when_any" where
  "wy_notify_winner i w = (let (won, w) = wy_cas i w in if won then wy_stage_won w else ([], w))"

text \<open>The end of \<open>await_suspend\<close>, after both children are started: the exchange, then the last test.\<close>

definition wy_exchange :: "when_any \<Rightarrow> nat \<times> when_any" where
  "wy_exchange w = (wy_stage w, w\<lparr>wy_stage := 1\<rparr>)"

definition wy_suspends :: "nat \<Rightarrow> when_any \<Rightarrow> bool" where
  "wy_suspends prev w \<longleftrightarrow> \<not> (prev = 2) \<and> wy_ready w = None"

text \<open>
  \<open>await_suspend\<close> on one thread; \<open>sync1\<close> and \<open>sync2\<close> say whether a child finishes as soon as it is
  started, that is inside \<open>t1_.resume()\<close> or \<open>t2_.resume()\<close>. It returns whether to suspend, what happened
  to the caller, and whether the second child was started at all.
\<close>

definition wy_await_suspend :: "handle \<Rightarrow> bool \<Rightarrow> bool \<Rightarrow> when_any \<Rightarrow> (bool \<times> caller_event list \<times> bool) \<times> when_any" where
  "wy_await_suspend caller sync1 sync2 w =
    (let w = w\<lparr>wy_caller := caller\<rparr>;
         (o1, w) = (if sync1 then wy_notify_winner False w else ([], w)) in
     if wy_ready w \<noteq> None then ((False, o1, False), w)
     else let (o2, w) = (if sync2 then wy_notify_winner True w else ([], w));
              (prev, w) = wy_exchange w
          in ((wy_suspends prev w, o1 @ o2, True), w))"

text \<open>\<open>await_resume\<close>: which task's result is returned; the other one is cancelled.\<close>

definition wy_await_resume :: "bool \<Rightarrow> when_any \<Rightarrow> bool" where
  "wy_await_resume done1 w = (if wy_ready w = Some False \<or> wy_ready w = None \<and> done1 then False else True)"

definition wy_inject :: "nat \<Rightarrow> handle \<Rightarrow> handle \<Rightarrow> 'r task_heap \<Rightarrow> 'r task_heap option" where
  "wy_inject k h1 h2 s =
    (if h1 = null_handle \<or> h2 = null_handle then None
     else Some (set_promise h2 (\<lambda>p. p\<lparr>pr_on_complete := Some (Any_done k True)\<rparr>)
       (set_promise h1 (\<lambda>p. p\<lparr>pr_on_complete := Some (Any_done k False)\<rparr>) s)))"

definition wy_result :: "nat \<Rightarrow> handle \<Rightarrow> handle \<Rightarrow> when_any \<Rightarrow> 'r task_heap \<Rightarrow> (bool \<times> 'r option) \<times> 'r task_heap" where
  "wy_result n h1 h2 w s =
    (if wy_await_resume (task_done h1 s) w then ((True, task_await_resume h2 s), task_cancel n h1 s)
     else ((False, task_await_resume h1 s), task_cancel n h2 s))"

fun wy_notifies :: "bool list \<Rightarrow> when_any \<Rightarrow> caller_event list \<times> when_any" where
  "wy_notifies [] w = ([], w)"
| "wy_notifies (i # is) w = (let (o1, w) = wy_notify_winner i w; (os, w) = wy_notifies is w in (o1 @ os, w))"

lemma wy_notifies_lost: "wy_ready w \<noteq> None \<Longrightarrow> wy_notifies is w = ([], w)"
  by (induction "is") (auto simp: wy_notify_winner_def wy_cas_def)

text \<open>
  On one thread \<open>when_any\<close> resumes its caller exactly once: it goes on when a child finished while it
  was started (then no later completion posts it), and otherwise the first completion posts it and
  the second does nothing; the result returned is that of the first child to finish.
\<close>

theorem when_any_resumes_once:
  assumes "h \<noteq> null_handle" "wy_await_suspend h sync1 sync2 when_any_new = ((suspend, events, started2), w)"
    "wy_notifies later w = (events', w')"
  shows "events = [] \<and> (suspend \<longleftrightarrow> \<not> sync1 \<and> \<not> sync2) \<and> (started2 \<longleftrightarrow> \<not> sync1) \<and>
    events' = (if suspend \<and> later \<noteq> [] then [Posted h] else []) \<and>
    (suspend \<longrightarrow> later \<noteq> [] \<longrightarrow> wy_await_resume d w' = hd later) \<and>
    (\<not> suspend \<longrightarrow> wy_await_resume d w' = (\<not> sync1))"
proof (cases "sync1 \<or> sync2")
  case True
  with assms(2) have "events = [] \<and> \<not> suspend \<and> started2 = (\<not> sync1) \<and> wy_ready w = Some (\<not> sync1)"
    by (cases sync1; auto simp: wy_await_suspend_def when_any_new_def wy_notify_winner_def wy_cas_def wy_stage_won_def
      wy_exchange_def wy_suspends_def ex_bool_eq split: if_splits)
  then show ?thesis using True wy_notifies_lost [of w later] assms(3) by (auto simp: wy_await_resume_def)
next
  case False
  with assms(2) have fields: "events = []" "suspend" "started2" "w = \<lparr>wy_ready = None, wy_stage = 1, wy_caller = h\<rparr>"
    by (auto simp: wy_await_suspend_def when_any_new_def wy_exchange_def wy_suspends_def)
  show ?thesis
  proof (cases later)
    case Nil
    then show ?thesis using False fields assms(3) by simp
  next
    case (Cons i rest)
    then show ?thesis using False fields assms(1,3)
      by (auto simp: wy_notify_winner_def wy_cas_def wy_stage_won_def wy_notifies_lost wy_await_resume_def)
  qed
qed

lemma when_any_resumes_once_witness:
  "\<exists>w w'. wy_await_suspend 64 False False when_any_new = ((True, [], True), w) \<and>
     wy_notifies [True, False] w = ([Posted 64], w') \<and> wy_await_resume False w'"
proof -
  define w where "w = snd (wy_await_suspend 64 False False when_any_new)"
  define w' where "w' = snd (wy_notifies [True, False] w)"
  have run: "wy_await_suspend 64 False False when_any_new = ((True, [], True), w)"
    by (simp add: w_def wy_await_suspend_def when_any_new_def wy_exchange_def wy_suspends_def)
  have later: "wy_notifies [True, False] w = ([Posted 64], w')"
    by (simp add: w'_def w_def wy_await_suspend_def when_any_new_def wy_exchange_def wy_notify_winner_def wy_cas_def wy_stage_won_def)
  from when_any_resumes_once [OF _ run later, of False] have "wy_await_resume False w'" by simp
  with run later show ?thesis by blast
qed

text \<open>
  If a child completes on another thread its two accesses in \<open>notify_winner\<close> can enclose the end of
  \<open>await_suspend\<close>: it sees the index set and returns false, so the caller runs on, and the exchange that
  follows finds stage 1 and posts the caller as well. The caller is then resumed twice.
\<close>

theorem when_any_cross_thread_resumes_twice:
  "let w = when_any_new\<lparr>wy_caller := 64\<rparr>;
       (won, w) = wy_cas True w;
       (prev, w) = wy_exchange w;
       suspends = wy_suspends prev w;
       (events, w) = (if won then wy_stage_won w else ([], w))
   in \<not> suspends \<and> events = [Posted 64]"
  by (simp add: when_any_new_def wy_cas_def wy_exchange_def wy_suspends_def wy_stage_won_def ex_bool_eq)

end
