(* ===== verification/Ctf_Tracer.thy ===== *)
theory Ctf_Tracer
  imports Tlp
begin

text \<open>
  The trace engine of \<open>include/abstractx/trace/tracer.hpp\<close>: binary CTF packets are built in buffers
  lent by a transport and handed back when they are full or flushed. Packets are byte lists in the wire
  layout; the transport is a pair of functions on its own state, with the static pool of the same file
  as the instance that the code uses on a host.
\<close>

section \<open>Transports\<close>

text \<open>\<open>ITraceTransport\<close>: \<open>acquire(max)\<close> lends a buffer (empty if none is free), \<open>commit(buffer, used)\<close> takes it back.\<close>

record 'e transport =
  tp_acquire :: "nat \<Rightarrow> 'e \<Rightarrow> u8 list \<times> 'e"
  tp_commit :: "u8 list \<Rightarrow> nat \<Rightarrow> 'e \<Rightarrow> 'e"

text \<open>\<open>StaticPoolTraceTransport\<close>; \<open>sp_sent\<close> is what the flush callback has been given, if one is set.\<close>

record static_pool =
  sp_pool :: "u8 list list"
  sp_next :: nat
  sp_handler :: bool
  sp_sent :: "u8 list list"

definition pool_new :: "nat \<Rightarrow> nat \<Rightarrow> static_pool" where
  "pool_new packet_size num = \<lparr>sp_pool = replicate num (replicate packet_size 0), sp_next = 0, sp_handler = False, sp_sent = []\<rparr>"

definition set_pool_handler :: "bool \<Rightarrow> static_pool \<Rightarrow> static_pool" where
  "set_pool_handler h p = p\<lparr>sp_handler := h\<rparr>"

definition pool_acquire :: "nat \<Rightarrow> nat \<Rightarrow> nat \<Rightarrow> static_pool \<Rightarrow> u8 list \<times> static_pool" where
  "pool_acquire packet_size num max_bytes p =
    (let buf = sp_pool p ! sp_next p
     in (take (if max_bytes < packet_size then max_bytes else packet_size) buf, p\<lparr>sp_next := (sp_next p + 1) mod num\<rparr>))"

definition pool_commit :: "u8 list \<Rightarrow> nat \<Rightarrow> static_pool \<Rightarrow> static_pool" where
  "pool_commit buf used p = (if sp_handler p then p\<lparr>sp_sent := sp_sent p @ [take used buf]\<rparr> else p)"

definition pool_reset :: "static_pool \<Rightarrow> static_pool" where
  "pool_reset p = p\<lparr>sp_next := 0\<rparr>"

definition pool_transport :: "nat \<Rightarrow> nat \<Rightarrow> static_pool transport" where
  "pool_transport packet_size num = \<lparr>tp_acquire = pool_acquire packet_size num, tp_commit = pool_commit\<rparr>"

section \<open>Packets\<close>

definition ctf_magic :: u32 where
  "ctf_magic = 0xC1FC1FC1"

definition header_size :: nat where
  "header_size = 40"

text \<open>\<open>CtfPacketHeaderWire\<close>, 40 bytes.\<close>

definition wire_header :: "u8 \<Rightarrow> u32 \<Rightarrow> u32 \<Rightarrow> u64 \<Rightarrow> u64 \<Rightarrow> u32 \<Rightarrow> u8 list" where
  "wire_header stream packet_bits content_bits ts_begin ts_end discarded =
    le_bytes 4 ctf_magic @ [stream, 0, 0, 0] @ le_bytes 4 packet_bits @ le_bytes 4 content_bits @
    le_bytes 8 ts_begin @ le_bytes 8 ts_end @ le_bytes 4 discarded @ le_bytes 4 (0 :: u32)"

record 'e ctf_engine =
  ct_packet_size :: nat
  ct_transport :: "'e transport option"
  ct_env :: 'e
  ct_buf :: "u8 list"
  ct_offset :: nat
  ct_discarded :: u32
  ct_last_event :: u64

definition open_packet :: "u64 \<Rightarrow> 'e ctf_engine \<Rightarrow> bool \<times> 'e ctf_engine" where
  "open_packet now e = (case ct_transport e of
       None \<Rightarrow> (False, e)
     | Some t \<Rightarrow>
         let (buf, env) = tp_acquire t (ct_packet_size e) (ct_env e); e = e\<lparr>ct_env := env\<rparr> in
         if length buf < header_size then (False, e)
         else (True, e\<lparr>ct_buf := put_at 0 (wire_header 0 (of_nat (length buf * 8)) (of_nat (header_size * 8)) now 0
                 (ct_discarded e)) buf, ct_offset := header_size\<rparr>))"

definition commit_packet :: "u64 \<Rightarrow> 'e ctf_engine \<Rightarrow> 'e ctf_engine" where
  "commit_packet now e = (case ct_transport e of
       None \<Rightarrow> e
     | Some t \<Rightarrow>
         if ct_buf e = [] then e
         else let buf = put_at 12 (le_bytes 4 (of_nat (ct_offset e * 8) :: u32)) (ct_buf e);
                  buf = put_at 24 (le_bytes 8 now) buf;
                  buf = put_at 32 (le_bytes 4 (ct_discarded e)) buf;
                  used = ct_offset e;
                  e = e\<lparr>ct_buf := [], ct_offset := 0\<rparr>
              in e\<lparr>ct_env := tp_commit t buf used (ct_env e)\<rparr>)"

definition trace_flush :: "u64 \<Rightarrow> 'e ctf_engine \<Rightarrow> 'e ctf_engine" where
  "trace_flush now e = (if ct_buf e \<noteq> [] \<and> ct_offset e > header_size then commit_packet now e else e)"

definition has_pending_events :: "'e ctf_engine \<Rightarrow> bool" where
  "has_pending_events e \<longleftrightarrow> ct_buf e \<noteq> [] \<and> ct_offset e > header_size"

definition current_offset :: "'e ctf_engine \<Rightarrow> nat" where
  "current_offset e = (if ct_buf e = [] then header_size else ct_offset e)"

definition count_discard :: "'e ctf_engine \<Rightarrow> 'e ctf_engine" where
  "count_discard e = e\<lparr>ct_discarded := ct_discarded e + 1\<rparr>"

text \<open>\<open>emplace\<close> with the bytes that its caller leaves in the reserved space; false if the event is discarded.\<close>

definition emplace :: "u8 list \<Rightarrow> u64 \<Rightarrow> 'e ctf_engine \<Rightarrow> bool \<times> 'e ctf_engine" where
  "emplace ev now e =
    (let e = (if ct_buf e \<noteq> [] \<and> ct_offset e + length ev > length (ct_buf e) then commit_packet now e else e);
         (ok, e) = (if ct_buf e = [] then open_packet now e else (True, e)) in
     if \<not> ok then (False, count_discard e)
     else if ct_offset e + length ev > length (ct_buf e) then (False, count_discard e)
     else (True, e\<lparr>ct_buf := put_at (ct_offset e) ev (ct_buf e), ct_offset := ct_offset e + length ev, ct_last_event := now\<rparr>))"

text \<open>\<open>emit_stream_packet\<close>; \<open>fill\<close> is what the callback writes after the header.\<close>

definition emit_stream_packet :: "u8 \<Rightarrow> u8 list \<Rightarrow> u64 \<Rightarrow> 'e ctf_engine \<Rightarrow> bool \<times> 'e ctf_engine" where
  "emit_stream_packet stream fill now e =
    (let e = trace_flush now e;
         (ok, e) = (if ct_buf e \<noteq> [] then (False, e) else open_packet now e) in
     if \<not> ok then (False, count_discard e)
     else if ct_offset e + length fill > length (ct_buf e) then (False, commit_packet now (count_discard e))
     else let e = e\<lparr>ct_buf := put_at (ct_offset e) fill (put_at 4 [stream] (ct_buf e)), ct_offset := ct_offset e + length fill\<rparr>
          in (True, commit_packet now e))"

definition set_transport :: "'e transport option \<Rightarrow> 'e transport option \<Rightarrow> 'e ctf_engine \<Rightarrow> 'e ctf_engine" where
  "set_transport pool t e =
    (let e = trace_flush (ct_last_event e) e in e\<lparr>ct_transport := (case t of None \<Rightarrow> pool | Some t \<Rightarrow> Some t)\<rparr>)"

definition set_flush_handler :: "nat \<Rightarrow> nat \<Rightarrow> bool \<Rightarrow> static_pool ctf_engine \<Rightarrow> static_pool ctf_engine" where
  "set_flush_handler packet_size num h e =
    (let e = trace_flush (ct_last_event e) e
     in e\<lparr>ct_env := set_pool_handler h (ct_env e), ct_transport := Some (pool_transport packet_size num)\<rparr>)"

definition trace_init :: "nat \<Rightarrow> nat \<Rightarrow> bool \<Rightarrow> static_pool ctf_engine \<Rightarrow> static_pool ctf_engine" where
  "trace_init packet_size num h e =
    e\<lparr>ct_env := pool_reset (set_pool_handler h (ct_env e)), ct_transport := Some (pool_transport packet_size num),
      ct_buf := [], ct_offset := 0, ct_discarded := 0\<rparr>"

text \<open>Which pool buffer the next packet goes into, and which one the last packet was in.\<close>

definition fill_idx :: "static_pool ctf_engine \<Rightarrow> nat" where
  "fill_idx e = sp_next (ct_env e)"

definition transmit_idx :: "nat \<Rightarrow> static_pool ctf_engine \<Rightarrow> nat" where
  "transmit_idx num e = (if num = 0 then 0 else (sp_next (ct_env e) + num - 1) mod num)"

section \<open>Events\<close>

text \<open>
  \<open>for (i = 0; i < cap - 1 && src[i]; ++i) dst[i] = src[i]\<close> into a zeroed array that holds a default
  text; \<open>None\<close> is a null pointer.
\<close>

fun copy_text :: "nat \<Rightarrow> u8 list \<Rightarrow> u8 list \<Rightarrow> u8 list" where
  "copy_text (Suc k) (d # ds) (c # cs) = c # copy_text k ds cs"
| "copy_text _ ds _ = ds"

lemma length_copy_text: "length (copy_text k d c) = length d"
  by (induction k d c rule: copy_text.induct) simp_all

definition text_field :: "nat \<Rightarrow> u8 list option \<Rightarrow> u8 list" where
  "text_field cap t = (let d = 0x3F # replicate (cap - 1) 0 in case t of None \<Rightarrow> d | Some t \<Rightarrow> copy_text (cap - 1) d t)"

datatype coro_state = CS_Spawn | CS_Suspend | CS_Resume | CS_Done

definition coro_state_byte :: "coro_state \<Rightarrow> u8" where
  "coro_state_byte s = (case s of CS_Spawn \<Rightarrow> 0 | CS_Suspend \<Rightarrow> 1 | CS_Resume \<Rightarrow> 2 | CS_Done \<Rightarrow> 3)"

definition coro_event :: "u32 \<Rightarrow> u32 \<Rightarrow> coro_state \<Rightarrow> u8 \<Rightarrow> u8 list option \<Rightarrow> u8 list option \<Rightarrow> u64 \<Rightarrow> u8 list" where
  "coro_event task_id handle_addr state reason name token now =
    [1] @ le_bytes 8 now @ le_bytes 4 task_id @ le_bytes 4 handle_addr @ [coro_state_byte state, reason] @
    text_field 8 name @ text_field 11 token"

definition imu_event :: "u32 \<Rightarrow> u16 \<Rightarrow> u16 \<Rightarrow> u16 \<Rightarrow> u16 \<Rightarrow> u16 \<Rightarrow> u16 \<Rightarrow> u16 \<Rightarrow> u64 \<Rightarrow> u8 list" where
  "imu_event seq ax ay az gx gy gz temp now =
    [1] @ le_bytes 8 now @ le_bytes 4 seq @ le_bytes 2 ax @ le_bytes 2 ay @ le_bytes 2 az @
    le_bytes 2 gx @ le_bytes 2 gy @ le_bytes 2 gz @ le_bytes 2 temp"

definition gps_event :: "u32 \<Rightarrow> u32 \<Rightarrow> u32 \<Rightarrow> u32 \<Rightarrow> u32 \<Rightarrow> u32 \<Rightarrow> u8 \<Rightarrow> u8 \<Rightarrow> u64 \<Rightarrow> u8 list" where
  "gps_event itow lat lon alt speed heading sats fix_type now =
    [2] @ le_bytes 8 now @ le_bytes 4 itow @ le_bytes 4 lat @ le_bytes 4 lon @ le_bytes 4 alt @ le_bytes 4 speed @
    le_bytes 4 heading @ [sats, fix_type]"

definition hal_event :: "u8 \<Rightarrow> u16 \<Rightarrow> u16 \<Rightarrow> u32 \<Rightarrow> u8 \<Rightarrow> u64 \<Rightarrow> u8 list" where
  "hal_event peripheral req_size transferred duration status now =
    [1] @ le_bytes 8 now @ [peripheral] @ le_bytes 2 req_size @ le_bytes 2 transferred @ le_bytes 4 duration @ [status]"

definition tlp_event :: "bool \<Rightarrow> u8 \<Rightarrow> u8 \<Rightarrow> u32 \<Rightarrow> u16 \<Rightarrow> u64 \<Rightarrow> u8 list" where
  "tlp_event is_push tag channel target_addr len_dw now =
    [2] @ le_bytes 8 now @ [if is_push then 1 else 0, tag, channel] @ le_bytes 4 target_addr @ le_bytes 2 len_dw"

definition trace_coro_named :: "u32 \<Rightarrow> u32 \<Rightarrow> coro_state \<Rightarrow> u8 \<Rightarrow> u8 list option \<Rightarrow> u8 list option \<Rightarrow> u64 \<Rightarrow>
    'e ctf_engine \<Rightarrow> 'e ctf_engine" where
  "trace_coro_named task_id handle_addr state reason name token now e =
    snd (emplace (coro_event task_id handle_addr state reason name token now) now e)"

definition trace_coro :: "u32 \<Rightarrow> u32 \<Rightarrow> coro_state \<Rightarrow> u8 \<Rightarrow> u64 \<Rightarrow> 'e ctf_engine \<Rightarrow> 'e ctf_engine" where
  "trace_coro task_id handle_addr state reason now e =
    trace_coro_named task_id handle_addr state reason (Some [0x3F]) (Some [0x3F]) now e"

definition trace_imu :: "u32 \<Rightarrow> u16 \<Rightarrow> u16 \<Rightarrow> u16 \<Rightarrow> u16 \<Rightarrow> u16 \<Rightarrow> u16 \<Rightarrow> u16 \<Rightarrow> u64 \<Rightarrow> 'e ctf_engine \<Rightarrow> 'e ctf_engine" where
  "trace_imu seq ax ay az gx gy gz temp now e = snd (emplace (imu_event seq ax ay az gx gy gz temp now) now e)"

definition trace_gps :: "u32 \<Rightarrow> u32 \<Rightarrow> u32 \<Rightarrow> u32 \<Rightarrow> u32 \<Rightarrow> u32 \<Rightarrow> u8 \<Rightarrow> u8 \<Rightarrow> u64 \<Rightarrow> 'e ctf_engine \<Rightarrow> 'e ctf_engine" where
  "trace_gps itow lat lon alt speed heading sats fix_type now e =
    snd (emplace (gps_event itow lat lon alt speed heading sats fix_type now) now e)"

definition trace_hal :: "u8 \<Rightarrow> u16 \<Rightarrow> u16 \<Rightarrow> u32 \<Rightarrow> u8 \<Rightarrow> u64 \<Rightarrow> 'e ctf_engine \<Rightarrow> 'e ctf_engine" where
  "trace_hal peripheral req_size transferred duration status now e =
    snd (emplace (hal_event peripheral req_size transferred duration status now) now e)"

definition trace_tlp :: "bool \<Rightarrow> u8 \<Rightarrow> u8 \<Rightarrow> u32 \<Rightarrow> u16 \<Rightarrow> u64 \<Rightarrow> 'e ctf_engine \<Rightarrow> 'e ctf_engine" where
  "trace_tlp is_push tag channel target_addr len_dw now e =
    snd (emplace (tlp_event is_push tag channel target_addr len_dw now) now e)"

definition make_coro_tlp :: "u32 \<Rightarrow> u32 \<Rightarrow> coro_state \<Rightarrow> u8 \<Rightarrow> u8 list option \<Rightarrow> u8 list option \<Rightarrow> u64 \<Rightarrow> tlp" where
  "make_coro_tlp task_id handle_addr state reason name token now =
    make_ctf Debug 0 (coro_event task_id handle_addr state reason name token now) (now * 1000) DmaStream"

definition make_imu_tlp :: "u32 \<Rightarrow> u16 \<Rightarrow> u16 \<Rightarrow> u16 \<Rightarrow> u16 \<Rightarrow> u16 \<Rightarrow> u16 \<Rightarrow> u16 \<Rightarrow> u64 \<Rightarrow> u8 \<Rightarrow> tlp" where
  "make_imu_tlp seq ax ay az gx gy gz temp now tag =
    make_ctf Telemetry tag (imu_event seq ax ay az gx gy gz temp now) (now * 1000) DmaStream"

definition make_gps_tlp :: "u32 \<Rightarrow> u32 \<Rightarrow> u32 \<Rightarrow> u32 \<Rightarrow> u32 \<Rightarrow> u32 \<Rightarrow> u8 \<Rightarrow> u8 \<Rightarrow> u64 \<Rightarrow> u8 \<Rightarrow> tlp" where
  "make_gps_tlp itow lat lon alt speed heading sats fix_type now tag =
    make_ctf Telemetry tag (gps_event itow lat lon alt speed heading sats fix_type now) (now * 1000) DmaStream"

section \<open>Packets handed over\<close>

text \<open>
  A well-formed packet: the magic number, the content size in bits equal to its length, and not more
  content than the buffer it was built in. Its body is what follows the header.
\<close>

definition packet_ok :: "u8 list \<Rightarrow> bool" where
  "packet_ok p \<longleftrightarrow> header_size \<le> length p \<and> le_word (take 4 p) = ctf_magic \<and>
    unat (le_word (take 4 (drop 12 p)) :: u32) = 8 * length p \<and>
    unat (le_word (take 4 (drop 12 p)) :: u32) \<le> unat (le_word (take 4 (drop 8 p)) :: u32)"

definition body :: "u8 list \<Rightarrow> u8 list" where
  "body p = drop header_size p"

lemma length_wire_header [simp]: "length (wire_header st pb cb tb te d) = header_size"
  by (simp add: wire_header_def header_size_def)

definition open_ok :: "'e ctf_engine \<Rightarrow> bool" where
  "open_ok e \<longleftrightarrow> (if ct_buf e = [] then ct_offset e = 0
    else header_size \<le> ct_offset e \<and> ct_offset e \<le> length (ct_buf e) \<and> length (ct_buf e) \<le> ct_packet_size e \<and>
      take 4 (ct_buf e) = le_bytes 4 ctf_magic \<and> take 4 (drop 8 (ct_buf e)) = le_bytes 4 (of_nat (8 * length (ct_buf e)) :: u32))"

definition open_body :: "'e ctf_engine \<Rightarrow> u8 list" where
  "open_body e = drop header_size (take (ct_offset e) (ct_buf e))"

lemma le_word_le_bytes4 [simp]: "le_word (le_bytes 4 (w :: u32)) = w"
  by (rule le_word_le_bytes) simp

text \<open>
  What a transport promises: it lends at most what was asked for, and hands over exactly the first
  \<open>used\<close> bytes of what it gets back. \<open>usable\<close> is the state in which it does.
\<close>

locale ctf_transport =
  fixes T :: "'e transport" and handed :: "'e \<Rightarrow> u8 list list" and usable :: "'e \<Rightarrow> bool"
  assumes acquire_length: "length (fst (tp_acquire T n s)) \<le> n"
    and acquire_handed: "usable s \<Longrightarrow> handed (snd (tp_acquire T n s)) = handed s \<and> usable (snd (tp_acquire T n s))"
    and commit_handed: "usable s \<Longrightarrow> handed (tp_commit T b n s) = handed s @ [take n b] \<and> usable (tp_commit T b n s)"
begin

definition engine_ok :: "'e ctf_engine \<Rightarrow> bool" where
  "engine_ok e \<longleftrightarrow> ct_transport e = Some T \<and> usable (ct_env e) \<and> ct_packet_size e < 2 ^ 28 \<and> open_ok e \<and>
    (\<forall>p \<in> set (handed (ct_env e)). packet_ok p)"

definition content :: "'e ctf_engine \<Rightarrow> u8 list" where
  "content e = concat (map body (handed (ct_env e))) @ open_body e"

lemma commit_packet_ok:
  assumes ok: "engine_ok e"
  shows "engine_ok (commit_packet now e)" "content (commit_packet now e) = content e"
    "ct_buf (commit_packet now e) = []" "ct_discarded (commit_packet now e) = ct_discarded e"
    "ct_packet_size (commit_packet now e) = ct_packet_size e"
proof -
  have "engine_ok (commit_packet now e) \<and> content (commit_packet now e) = content e \<and>
    ct_buf (commit_packet now e) = [] \<and> ct_discarded (commit_packet now e) = ct_discarded e \<and>
    ct_packet_size (commit_packet now e) = ct_packet_size e"
  proof (cases "ct_buf e = []")
    case True
    then show ?thesis using ok by (simp add: commit_packet_def engine_ok_def)
  next
    case False
    define n where "n = ct_offset e"
    from ok False have n: "40 \<le> n" "n \<le> length (ct_buf e)" "length (ct_buf e) < 2 ^ 28"
      and head: "take 4 (ct_buf e) = le_bytes 4 ctf_magic" "take 4 (drop 8 (ct_buf e)) = le_bytes 4 (of_nat (8 * length (ct_buf e)) :: u32)"
      and env: "usable (ct_env e)" "ct_transport e = Some T" "\<forall>p \<in> set (handed (ct_env e)). packet_ok p" "ct_packet_size e < 2 ^ 28"
      by (auto simp: engine_ok_def open_ok_def header_size_def n_def)
    define b where "b = put_at 32 (le_bytes 4 (ct_discarded e)) (put_at 24 (le_bytes 8 now) (put_at 12 (le_bytes 4 (of_nat (n * 8) :: u32)) (ct_buf e)))"
    have len: "length b = length (ct_buf e)" using n by (simp add: b_def)
    have other: "take m (drop j b) = take m (drop j (ct_buf e))" if "j + m \<le> 12 \<or> 40 \<le> j" for j m
      using that n by (auto simp: b_def take_drop_put_at_other)
    have size: "take 4 (drop 12 b) = le_bytes 4 (of_nat (n * 8) :: u32)"
      using n take_drop_put_at [of 12 "le_bytes 4 (of_nat (n * 8) :: u32)" "ct_buf e"]
      by (simp add: b_def take_drop_put_at_other del: take_drop_put_at)
    have bits: "unat (of_nat (n * 8) :: u32) = 8 * n" "unat (of_nat (8 * length (ct_buf e)) :: u32) = 8 * length (ct_buf e)"
      using n by (simp_all add: unat_of_nat_small del: of_nat_mult)
    have "packet_ok (take n b)"
      using n len other [of 0 4] other [of 8 4] size head bits
      by (simp add: packet_ok_def header_size_def take_drop min_def del: of_nat_mult)
    moreover have "body (take n b) = open_body e"
      using n len other [of 40 "n - 40"] by (simp add: body_def open_body_def header_size_def n_def drop_take)
    moreover have "commit_packet now e = e\<lparr>ct_buf := [], ct_offset := 0, ct_env := tp_commit T b n (ct_env e)\<rparr>"
      using False env by (simp add: commit_packet_def b_def n_def Let_def)
    ultimately show ?thesis using env commit_handed [OF env(1), of b n]
      by (simp add: engine_ok_def open_ok_def content_def) (simp add: open_body_def)
  qed
  then show "engine_ok (commit_packet now e)" "content (commit_packet now e) = content e"
    "ct_buf (commit_packet now e) = []" "ct_discarded (commit_packet now e) = ct_discarded e"
    "ct_packet_size (commit_packet now e) = ct_packet_size e" by blast+
qed

lemma trace_flush_ok:
  assumes "engine_ok e"
  shows "engine_ok (trace_flush now e)" "content (trace_flush now e) = content e" "ct_discarded (trace_flush now e) = ct_discarded e"
    "ct_packet_size (trace_flush now e) = ct_packet_size e"
  using commit_packet_ok [OF assms] assms by (simp_all add: trace_flush_def)

lemma open_packet_ok:
  assumes ok: "engine_ok e" and empty: "ct_buf e = []"
  shows "engine_ok (snd (open_packet now e))" "content (snd (open_packet now e)) = content e"
    "ct_discarded (snd (open_packet now e)) = ct_discarded e" "ct_packet_size (snd (open_packet now e)) = ct_packet_size e"
    "fst (open_packet now e) \<Longrightarrow> ct_buf (snd (open_packet now e)) \<noteq> [] \<and> ct_offset (snd (open_packet now e)) = header_size"
proof -
  from ok empty have env: "usable (ct_env e)" "ct_transport e = Some T" "ct_offset e = 0" "ct_packet_size e < 2 ^ 28"
      "\<forall>p \<in> set (handed (ct_env e)). packet_ok p"
    by (simp_all add: engine_ok_def open_ok_def)
  obtain buf s where acq: "tp_acquire T (ct_packet_size e) (ct_env e) = (buf, s)" by fastforce
  from acquire_length [of "ct_packet_size e" "ct_env e"] acquire_handed [OF env(1), of "ct_packet_size e"] acq
  have buf: "length buf \<le> ct_packet_size e" "handed s = handed (ct_env e)" "usable s" by simp_all
  define hd where "hd = wire_header 0 (of_nat (length buf * 8)) (of_nat (header_size * 8)) now 0 (ct_discarded e)"
  have hd: "length hd = 40" "take 4 hd = le_bytes 4 ctf_magic" "take 4 (drop 8 hd) = le_bytes 4 (of_nat (8 * length buf) :: u32)"
    by (simp_all add: hd_def header_size_def wire_header_def mult.commute)
  have "engine_ok (snd (open_packet now e)) \<and> content (snd (open_packet now e)) = content e \<and>
    ct_discarded (snd (open_packet now e)) = ct_discarded e \<and> ct_packet_size (snd (open_packet now e)) = ct_packet_size e \<and>
    (fst (open_packet now e) \<longrightarrow> ct_buf (snd (open_packet now e)) \<noteq> [] \<and> ct_offset (snd (open_packet now e)) = header_size)"
  proof (cases "length buf < header_size")
    case True
    then show ?thesis using ok env empty buf acq
      by (simp add: open_packet_def engine_ok_def open_ok_def content_def open_body_def)
  next
    case False
    then have len: "length (put_at 0 hd buf) = length buf" "put_at 0 hd buf = hd @ drop 40 buf" "40 \<le> length buf"
      using hd(1) by (simp_all add: header_size_def put_at_def)
    have "take 4 (put_at 0 hd buf) = take 4 hd" "take 4 (drop 8 (put_at 0 hd buf)) = take 4 (drop 8 hd)"
      using len hd(1) by simp_all
    moreover have "put_at 0 hd buf \<noteq> []" using len by (cases buf) auto
    moreover have "take 40 (put_at 0 hd buf) = hd" using len hd(1) by simp
    ultimately show ?thesis using env empty buf acq False hd len
      by (simp add: open_packet_def engine_ok_def open_ok_def content_def open_body_def hd_def [symmetric] del: of_nat_mult)
         (simp add: header_size_def)
  qed
  then show "engine_ok (snd (open_packet now e))" "content (snd (open_packet now e)) = content e"
    "ct_discarded (snd (open_packet now e)) = ct_discarded e" "ct_packet_size (snd (open_packet now e)) = ct_packet_size e"
    "fst (open_packet now e) \<Longrightarrow> ct_buf (snd (open_packet now e)) \<noteq> [] \<and> ct_offset (snd (open_packet now e)) = header_size"
    by blast+
qed

lemma append_event_ok:
  assumes ok: "engine_ok e" and buf: "ct_buf e \<noteq> []" and fit: "ct_offset e + length ev \<le> length (ct_buf e)"
  shows "engine_ok (e\<lparr>ct_buf := put_at (ct_offset e) ev (ct_buf e), ct_offset := ct_offset e + length ev, ct_last_event := t\<rparr>)"
    "content (e\<lparr>ct_buf := put_at (ct_offset e) ev (ct_buf e), ct_offset := ct_offset e + length ev, ct_last_event := t\<rparr>) = content e @ ev"
proof -
  from ok buf have bounds: "40 \<le> ct_offset e" "ct_offset e \<le> length (ct_buf e)"
    by (simp_all add: engine_ok_def open_ok_def header_size_def)
  have "take 4 (put_at (ct_offset e) ev (ct_buf e)) = take 4 (ct_buf e)"
    "take 4 (drop 8 (put_at (ct_offset e) ev (ct_buf e))) = take 4 (drop 8 (ct_buf e))"
    using bounds fit by (simp_all add: take_drop_put_at_other)
  moreover have "put_at (ct_offset e) ev (ct_buf e) \<noteq> []" using bounds fit buf by (metis length_0_conv length_put_at)
  ultimately show "engine_ok (e\<lparr>ct_buf := put_at (ct_offset e) ev (ct_buf e), ct_offset := ct_offset e + length ev, ct_last_event := t\<rparr>)"
    using ok buf fit bounds by (simp add: engine_ok_def open_ok_def)
  have "take (ct_offset e + length ev) (put_at (ct_offset e) ev (ct_buf e)) = take (ct_offset e) (ct_buf e) @ ev"
    using bounds by (simp add: put_at_def)
  then show "content (e\<lparr>ct_buf := put_at (ct_offset e) ev (ct_buf e), ct_offset := ct_offset e + length ev, ct_last_event := t\<rparr>) = content e @ ev"
    using bounds by (simp add: content_def open_body_def header_size_def)
qed

lemma set_stream_ok:
  assumes ok: "engine_ok e" and buf: "ct_buf e \<noteq> []"
  shows "engine_ok (e\<lparr>ct_buf := put_at 4 [st] (ct_buf e)\<rparr>)" "content (e\<lparr>ct_buf := put_at 4 [st] (ct_buf e)\<rparr>) = content e"
proof -
  from ok buf have bounds: "40 \<le> ct_offset e" "ct_offset e \<le> length (ct_buf e)"
    by (simp_all add: engine_ok_def open_ok_def header_size_def)
  have "take 4 (put_at 4 [st] (ct_buf e)) = take 4 (ct_buf e)"
    "take 4 (drop 8 (put_at 4 [st] (ct_buf e))) = take 4 (drop 8 (ct_buf e))"
    "take (ct_offset e - 40) (drop 40 (put_at 4 [st] (ct_buf e))) = take (ct_offset e - 40) (drop 40 (ct_buf e))"
    using bounds by (simp_all add: take_drop_put_at_other)
  moreover have "put_at 4 [st] (ct_buf e) \<noteq> []" using bounds buf by (simp add: put_at_def)
  ultimately show "engine_ok (e\<lparr>ct_buf := put_at 4 [st] (ct_buf e)\<rparr>)" "content (e\<lparr>ct_buf := put_at 4 [st] (ct_buf e)\<rparr>) = content e"
    using ok buf bounds by (simp_all add: engine_ok_def open_ok_def content_def open_body_def header_size_def drop_take)
qed

lemma count_discard_ok:
  "engine_ok e \<Longrightarrow> engine_ok (count_discard e)" "content (count_discard e) = content e"
  "ct_discarded (count_discard e) = ct_discarded e + 1"
  by (simp_all add: count_discard_def engine_ok_def open_ok_def content_def open_body_def)

text \<open>An event is either the next content or counted as discarded.\<close>

lemma emplace_ok:
  assumes ok: "engine_ok e" and run: "emplace ev now e = (acc, e')"
  shows "engine_ok e'" "content e' = content e @ (if acc then ev else [])"
    "ct_discarded e' = ct_discarded e + (if acc then 0 else 1)"
proof -
  define e1 where "e1 = (if ct_buf e \<noteq> [] \<and> ct_offset e + length ev > length (ct_buf e) then commit_packet now e else e)"
  have e1: "engine_ok e1" "content e1 = content e" "ct_discarded e1 = ct_discarded e"
    using commit_packet_ok [OF ok] ok by (simp_all add: e1_def)
  define op where "op = (if ct_buf e1 = [] then open_packet now e1 else (True, e1))"
  obtain ok2 e2 where e2': "op = (ok2, e2)" by fastforce
  have e2: "engine_ok e2" "content e2 = content e" "ct_discarded e2 = ct_discarded e" "ok2 \<Longrightarrow> ct_buf e2 \<noteq> []"
    using open_packet_ok [OF e1(1), of now] e1 e2' by (auto simp: op_def split: if_splits)
  have run': "(acc, e') = (if \<not> ok2 then (False, count_discard e2)
     else if ct_offset e2 + length ev > length (ct_buf e2) then (False, count_discard e2)
     else (True, e2\<lparr>ct_buf := put_at (ct_offset e2) ev (ct_buf e2), ct_offset := ct_offset e2 + length ev, ct_last_event := now\<rparr>))"
    using run e2' by (simp add: emplace_def e1_def [symmetric] op_def)
  consider "\<not> acc" "e' = count_discard e2"
    | "acc" "ct_buf e2 \<noteq> []" "ct_offset e2 + length ev \<le> length (ct_buf e2)"
      "e' = e2\<lparr>ct_buf := put_at (ct_offset e2) ev (ct_buf e2), ct_offset := ct_offset e2 + length ev, ct_last_event := now\<rparr>"
    using run' e2(4) by (auto split: if_splits)
  then have "engine_ok e' \<and> content e' = content e @ (if acc then ev else []) \<and>
    ct_discarded e' = ct_discarded e + (if acc then 0 else 1)"
  proof cases
    case 1
    then show ?thesis using e2 count_discard_ok by simp
  next
    case 2
    then show ?thesis using e2 append_event_ok [OF e2(1), of ev now] by simp
  qed
  then show "engine_ok e'" "content e' = content e @ (if acc then ev else [])"
    "ct_discarded e' = ct_discarded e + (if acc then 0 else 1)" by blast+
qed

lemma emit_stream_packet_ok:
  assumes ok: "engine_ok e" and run: "emit_stream_packet st fill now e = (acc, e')"
  shows "engine_ok e'" "content e' = content e @ (if acc then fill else [])"
    "ct_discarded e' = ct_discarded e + (if acc then 0 else 1)"
proof -
  define e1 where "e1 = trace_flush now e"
  have e1: "engine_ok e1" "content e1 = content e" "ct_discarded e1 = ct_discarded e"
    using trace_flush_ok [OF ok] by (simp_all add: e1_def)
  define op where "op = (if ct_buf e1 \<noteq> [] then (False, e1) else open_packet now e1)"
  obtain ok2 e2 where e2': "op = (ok2, e2)" by fastforce
  have e2: "engine_ok e2" "content e2 = content e" "ct_discarded e2 = ct_discarded e" "ok2 \<Longrightarrow> ct_buf e2 \<noteq> []"
    using open_packet_ok [OF e1(1), of now] e1 e2' by (auto simp: op_def split: if_splits)
  define e3 where "e3 = e2\<lparr>ct_buf := put_at 4 [st] (ct_buf e2)\<rparr>"
  define e4 where "e4 = e2\<lparr>ct_buf := put_at (ct_offset e2) fill (put_at 4 [st] (ct_buf e2)), ct_offset := ct_offset e2 + length fill\<rparr>"
  have run': "(acc, e') = (if \<not> ok2 then (False, count_discard e2)
     else if ct_offset e2 + length fill > length (ct_buf e2) then (False, commit_packet now (count_discard e2))
     else (True, commit_packet now e4))"
    using run e2' by (simp add: emit_stream_packet_def e1_def [symmetric] op_def e4_def Let_def split: if_splits)
  consider "\<not> acc" "e' = count_discard e2 \<or> e' = commit_packet now (count_discard e2)"
    | "acc" "ct_buf e2 \<noteq> []" "ct_offset e2 + length fill \<le> length (ct_buf e2)" "e' = commit_packet now e4"
    using run' e2(4) by (auto split: if_splits)
  then have "engine_ok e' \<and> content e' = content e @ (if acc then fill else []) \<and>
    ct_discarded e' = ct_discarded e + (if acc then 0 else 1)"
  proof cases
    case 1
    then show ?thesis using e2 count_discard_ok commit_packet_ok [OF count_discard_ok(1) [OF e2(1)]] by auto
  next
    case 2
    note e3 = set_stream_ok [OF e2(1) 2(2), of st, folded e3_def]
    from e2(1) 2(2) have "5 \<le> length (ct_buf e2)" by (simp add: engine_ok_def open_ok_def header_size_def)
    then have "ct_buf e3 \<noteq> []" "ct_offset e3 + length fill \<le> length (ct_buf e3)" using 2 by (auto simp: e3_def put_at_def)
    from append_event_ok [OF e3(1) this, of "ct_last_event e3"] have "engine_ok e4" "content e4 = content e2 @ fill"
      using e3(2) by (simp_all add: e4_def e3_def)
    moreover have "ct_discarded e4 = ct_discarded e2" by (simp add: e4_def)
    ultimately show ?thesis using 2 commit_packet_ok [of e4] e2 by simp
  qed
  then show "engine_ok e'" "content e' = content e @ (if acc then fill else [])"
    "ct_discarded e' = ct_discarded e + (if acc then 0 else 1)" by blast+
qed

text \<open>
  A run of trace calls: events and flushes of the open packet, and packets of their own. The result
  collects the bytes accepted and counts the calls refused.
\<close>

end

datatype trace_op = Op_event "u8 list" u64 | Op_packet u8 "u8 list" u64 | Op_flush u64

fun trace_op_run :: "trace_op \<Rightarrow> 'e ctf_engine \<Rightarrow> (bool \<times> u8 list) \<times> 'e ctf_engine" where
  "trace_op_run (Op_event ev now) e = (let (acc, e) = emplace ev now e in ((acc, ev), e))"
| "trace_op_run (Op_packet st fill now) e = (let (acc, e) = emit_stream_packet st fill now e in ((acc, fill), e))"
| "trace_op_run (Op_flush now) e = ((True, []), trace_flush now e)"

fun trace_run :: "trace_op list \<Rightarrow> 'e ctf_engine \<Rightarrow> (u8 list \<times> nat) \<times> 'e ctf_engine" where
  "trace_run [] e = (([], 0), e)"
| "trace_run (x # xs) e =
    (let ((acc, bs), e) = trace_op_run x e; ((out, n), e) = trace_run xs e
     in ((if acc then bs @ out else out, if acc then n else Suc n), e))"

context ctf_transport
begin

lemma trace_op_run_ok:
  assumes "engine_ok e" "trace_op_run x e = ((acc, bs), e')"
  shows "engine_ok e' \<and> content e' = content e @ (if acc then bs else []) \<and>
    ct_discarded e' = ct_discarded e + (if acc then 0 else 1)"
proof (cases x)
  case (Op_event ev now)
  with assms(2) have "emplace ev now e = (acc, e')" "bs = ev" by (auto split: prod.splits)
  then show ?thesis using emplace_ok [OF assms(1)] by auto
next
  case (Op_packet st fill now)
  with assms(2) have "emit_stream_packet st fill now e = (acc, e')" "bs = fill" by (auto split: prod.splits)
  then show ?thesis using emit_stream_packet_ok [OF assms(1)] by auto
next
  case (Op_flush now)
  then show ?thesis using assms trace_flush_ok [OF assms(1), of now] by auto
qed

lemma trace_run_ok:
  "engine_ok e \<Longrightarrow> trace_run xs e = ((out, n), e') \<Longrightarrow>
    engine_ok e' \<and> content e' = content e @ out \<and> ct_discarded e' = ct_discarded e + of_nat n"
proof (induction xs arbitrary: e out n e')
  case (Cons x xs)
  obtain acc bs e1 where x: "trace_op_run x e = ((acc, bs), e1)" by (metis surj_pair)
  obtain out1 n1 e2 where xs: "trace_run xs e1 = ((out1, n1), e2)" by (metis surj_pair)
  have res: "e' = e2" "out = (if acc then bs @ out1 else out1)" "n = (if acc then n1 else Suc n1)"
    using Cons.prems(2) x xs by auto
  note 1 = trace_op_run_ok [OF Cons.prems(1) x]
  from Cons.IH [OF _ xs] 1 have "engine_ok e2 \<and> content e2 = content e1 @ out1 \<and> ct_discarded e2 = ct_discarded e1 + of_nat n1"
    by blast
  with 1 res show ?case by (simp add: add.assoc)
qed simp

end

section \<open>The static pool\<close>

interpretation pool: ctf_transport "pool_transport ps num" sp_sent sp_handler for ps num :: nat
  by unfold_locales (auto simp: pool_transport_def pool_acquire_def pool_commit_def Let_def)

text \<open>The engine of a host program: \<open>init\<close> and then \<open>set_flush_handler\<close>.\<close>

definition trace_start :: "nat \<Rightarrow> nat \<Rightarrow> static_pool ctf_engine" where
  "trace_start ps num = set_flush_handler ps num True
     (trace_init ps num False \<lparr>ct_packet_size = ps, ct_transport = None, ct_env = pool_new ps num, ct_buf = [], ct_offset = 0,
        ct_discarded = 0, ct_last_event = 0\<rparr>)"

lemma trace_start_fields:
  "ct_packet_size (trace_start ps num) = ps" "ct_transport (trace_start ps num) = Some (pool_transport ps num)"
  "ct_buf (trace_start ps num) = []" "ct_offset (trace_start ps num) = 0" "ct_discarded (trace_start ps num) = 0"
  "ct_env (trace_start ps num) = (pool_new ps num)\<lparr>sp_handler := True\<rparr>"
  by (simp_all add: trace_start_def set_flush_handler_def trace_init_def trace_flush_def set_pool_handler_def
    pool_reset_def pool_new_def Let_def)

lemma trace_start_ok: "ps < 2 ^ 28 \<Longrightarrow> pool.engine_ok ps num (trace_start ps num)"
  by (simp add: pool.engine_ok_def trace_start_fields open_ok_def pool_new_def)

text \<open>
  (C30) Nothing traced is lost silently and no packet is malformed. Whatever is traced, emitted as a packet of
  its own, and flushed, every packet handed to the flush callback is well formed, the bodies of the
  packets followed by the open packet's are exactly the accepted events in order, and the discard
  counter is the number of refused ones.
\<close>

theorem trace_events_accounted:
  assumes "trace_run ops (trace_start ps num) = ((accepted, refused), e)" "ps < 2 ^ 28"
  shows "(\<forall>p \<in> set (sp_sent (ct_env e)). packet_ok p) \<and>
    concat (map body (sp_sent (ct_env e))) @ open_body e = accepted \<and> ct_discarded e = of_nat refused"
proof -
  have "pool.content (trace_start ps num) = []"
    by (simp add: pool.content_def trace_start_fields open_body_def pool_new_def)
  with pool.trace_run_ok [OF trace_start_ok [OF assms(2)] assms(1)]
  have "pool.engine_ok ps num e" "pool.content e = accepted" "ct_discarded e = of_nat refused"
    by (simp_all add: trace_start_fields)
  then show ?thesis by (simp add: pool.engine_ok_def pool.content_def)
qed

text \<open>Two events fill a packet of 62 bytes; a third opens the next one, and one of 30 bytes is refused.\<close>

definition full_packet_ops :: "trace_op list" where
  "full_packet_ops = [Op_event (replicate 11 1) 5, Op_event (replicate 11 2) 6, Op_event (replicate 11 3) 7,
     Op_event (replicate 30 4) 8, Op_flush 9]"

lemma trace_events_accounted_witness:
  "\<exists>accepted refused e. trace_run full_packet_ops (trace_start 62 2) = ((accepted, refused), e) \<and>
     (\<forall>p \<in> set (sp_sent (ct_env e)). packet_ok p) \<and> refused = 1 \<and> ct_discarded e = 1 \<and> length accepted = 33"
proof -
  obtain accepted refused e where run: "trace_run full_packet_ops (trace_start 62 2) = ((accepted, refused), e)"
    by (metis surj_pair)
  have "let ((a, n), e) = trace_run full_packet_ops (trace_start 62 2) in n = 1 \<and> length a = 33" by code_simp
  with run have "refused = 1" "length accepted = 33" by simp_all
  with trace_events_accounted [OF run] run show ?thesis by auto
qed

text \<open>
  With a pool an event that fits an empty packet is never refused: there is always a next buffer.
\<close>

definition pool_full_size :: "nat \<Rightarrow> nat \<Rightarrow> static_pool ctf_engine \<Rightarrow> bool" where
  "pool_full_size ps num e \<longleftrightarrow> ct_transport e = Some (pool_transport ps num) \<and> ct_packet_size e = ps \<and>
    length (sp_pool (ct_env e)) = num \<and> sp_next (ct_env e) < num \<and>
    (\<forall>b \<in> set (sp_pool (ct_env e)). length b = ps) \<and> (ct_buf e = [] \<or> length (ct_buf e) = ps \<and> ct_offset e \<le> ps)"

lemma pool_commit_packet: "pool_full_size ps num e \<Longrightarrow> pool_full_size ps num (commit_packet now e) \<and> ct_buf (commit_packet now e) = []"
  by (cases "ct_buf e = []") (simp_all add: pool_full_size_def commit_packet_def pool_transport_def pool_commit_def Let_def)

lemma pool_open_packet:
  assumes "pool_full_size ps num e" "header_size \<le> ps" "ct_buf e = []"
  shows "fst (open_packet now e)" "pool_full_size ps num (snd (open_packet now e))"
    "ct_offset (snd (open_packet now e)) = header_size" "length (ct_buf (snd (open_packet now e))) = ps"
proof -
  have "length (sp_pool (ct_env e) ! sp_next (ct_env e)) = ps" using assms(1) by (simp add: pool_full_size_def)
  moreover have "(sp_next (ct_env e) + 1) mod num < num" using assms(1) by (simp add: pool_full_size_def)
  ultimately show "fst (open_packet now e)" "pool_full_size ps num (snd (open_packet now e))"
    "ct_offset (snd (open_packet now e)) = header_size" "length (ct_buf (snd (open_packet now e))) = ps"
    using assms by (simp_all add: pool_full_size_def open_packet_def pool_transport_def pool_acquire_def Let_def header_size_def)
qed

lemma pool_emplace:
  assumes pool: "pool_full_size ps num e" and fits: "header_size + length ev \<le> ps"
  shows "fst (emplace ev now e) \<and> pool_full_size ps num (snd (emplace ev now e))"
proof -
  define e1 where "e1 = (if ct_buf e \<noteq> [] \<and> ct_offset e + length ev > length (ct_buf e) then commit_packet now e else e)"
  have e1: "pool_full_size ps num e1" "ct_buf e1 \<noteq> [] \<Longrightarrow> ct_offset e1 + length ev \<le> ps"
    using pool pool_commit_packet [OF pool, of now] by (auto simp: e1_def pool_full_size_def split: if_splits)
  define e2 where "e2 = (if ct_buf e1 = [] then snd (open_packet now e1) else e1)"
  have e2: "pool_full_size ps num e2" "ct_offset e2 + length ev \<le> ps" "length (ct_buf e2) = ps"
    using e1 pool_open_packet [OF e1(1), of now] fits by (auto simp: e2_def pool_full_size_def)
  have "(if ct_buf e1 = [] then open_packet now e1 else (True, e1)) = (True, e2)"
  proof (cases "ct_buf e1 = []")
    case True
    then show ?thesis using pool_open_packet(1) [OF e1(1) _ True, of now] fits by (simp add: e2_def prod_eq_iff)
  qed (simp add: e2_def)
  then have "emplace ev now e = (True, e2\<lparr>ct_buf := put_at (ct_offset e2) ev (ct_buf e2), ct_offset := ct_offset e2 + length ev, ct_last_event := now\<rparr>)"
    using e2 by (simp add: emplace_def e1_def [symmetric])
  then show ?thesis using e2 by (simp add: pool_full_size_def)
qed

lemma single_event_packet:
  assumes "0 < num" "header_size + length ev \<le> ps" "ev \<noteq> []"
  shows "\<exists>p. sp_sent (ct_env (trace_flush t (snd (emplace ev now (trace_start ps num))))) = [p] \<and>
    length p = header_size + length ev \<and> p ! 4 = 0 \<and> p ! header_size = hd ev"
proof -
  define hd where "hd = wire_header 0 (of_nat (ps * 8)) (of_nat (header_size * 8)) now 0 0"
  define b where "b = put_at 40 ev (put_at 0 hd (replicate ps 0))"
  have len: "length hd = 40" "length b = ps" using assms(2) by (simp_all add: hd_def b_def header_size_def)
  have open': "open_packet now (trace_start ps num) = (True, (trace_start ps num)\<lparr>ct_env := snd (pool_acquire ps num ps (ct_env (trace_start ps num))),
      ct_buf := put_at 0 hd (replicate ps 0), ct_offset := header_size\<rparr>)"
    using assms by (simp add: open_packet_def trace_start_fields pool_transport_def pool_acquire_def pool_new_def hd_def Let_def)
  have "snd (emplace ev now (trace_start ps num)) =
     (trace_start ps num)\<lparr>ct_env := snd (pool_acquire ps num ps (ct_env (trace_start ps num))), ct_buf := b,
       ct_offset := header_size + length ev, ct_last_event := now\<rparr>"
    using assms(2) len by (simp add: emplace_def trace_start_fields open' b_def header_size_def)
  moreover have "b \<noteq> []" using len assms(2) by (auto simp: header_size_def)
  moreover define p where "p = take (header_size + length ev) (put_at 32 (le_bytes 4 (0 :: u32)) (put_at 24 (le_bytes 8 t)
    (put_at 12 (le_bytes 4 (of_nat ((header_size + length ev) * 8) :: u32)) b)))"
  ultimately have "sp_sent (ct_env (trace_flush t (snd (emplace ev now (trace_start ps num))))) = [p]"
    using assms(3) by (simp add: trace_flush_def commit_packet_def trace_start_fields pool_transport_def pool_commit_def
      pool_acquire_def pool_new_def Let_def del: of_nat_mult of_nat_add)
  moreover have "length p = header_size + length ev" using assms(2) len by (simp add: p_def header_size_def)
  moreover have "p ! 4 = hd ! 4" "p ! header_size = ev ! 0"
    using assms(2,3) len by (simp_all add: p_def b_def nth_put_at header_size_def flip: length_greater_0_conv)
  moreover have "hd ! 4 = 0" by (simp add: hd_def wire_header_def nth_append)
  ultimately show ?thesis using assms(3) by (simp add: hd_conv_nth)
qed

text \<open>
  The StreamId of an event is never written: \<open>open_packet\<close> leaves stream 0 in the header, whatever is
  traced. A packet of IMU samples therefore carries the stream and event numbers of coroutine events.
\<close>

theorem imu_packets_claim_coroutine_stream:
  "(let p = hd (sp_sent (ct_env (trace_flush 9 (trace_imu seq ax ay az gx gy gz temp 7 (trace_start 100 2)))));
        q = hd (sp_sent (ct_env (trace_flush 9 (trace_coro task h st reason 7 (trace_start 100 2)))))
    in p ! 4 = 0 \<and> q ! 4 = 0 \<and> p ! 40 = q ! 40 \<and> length p = 67 \<and> length q = 78)"
proof -
  have len: "length (imu_event seq ax ay az gx gy gz temp 7) = 27" "hd (imu_event seq ax ay az gx gy gz temp 7) = 1"
    "length (coro_event task h st reason (Some [0x3F]) (Some [0x3F]) 7) = 38"
    "hd (coro_event task h st reason (Some [0x3F]) (Some [0x3F]) 7) = 1"
    "imu_event seq ax ay az gx gy gz temp 7 \<noteq> []" "coro_event task h st reason (Some [0x3F]) (Some [0x3F]) 7 \<noteq> []"
    by (simp_all add: imu_event_def coro_event_def text_field_def length_copy_text)
  obtain p where p: "sp_sent (ct_env (trace_flush 9 (trace_imu seq ax ay az gx gy gz temp 7 (trace_start 100 2)))) = [p]"
    "length p = 67" "p ! 4 = 0" "p ! 40 = 1"
    using single_event_packet [of 2 "imu_event seq ax ay az gx gy gz temp 7" 100 9 7] len
    unfolding trace_imu_def header_size_def by auto
  obtain q where q: "sp_sent (ct_env (trace_flush 9 (trace_coro task h st reason 7 (trace_start 100 2)))) = [q]"
    "length q = 78" "q ! 4 = 0" "q ! 40 = 1"
    using single_event_packet [of 2 "coro_event task h st reason (Some [0x3F]) (Some [0x3F]) 7" 100 9 7] len
    unfolding trace_coro_def trace_coro_named_def header_size_def by auto
  show ?thesis unfolding p(1) q(1) using p q by simp
qed

end
