(* ===== verification/Event_Trace.thy ===== *)
theory Event_Trace
  imports Ctf_Tracer
begin

text \<open>
  Profiler samples and timeline spans: the rings of \<open>include/abstractx/trace/event_trace.hpp\<close> and their
  draining into CTF packets by \<open>src/runtime.cpp\<close>. Head and tail are free-running 32-bit counters over a
  capacity that is a power of two.
\<close>

section \<open>Rings\<close>

text \<open>\<open>er_items\<close> is \<open>None\<close> for the null pointer of a ring that is not attached.\<close>

record 'a event_ring =
  er_items :: "'a list option"
  er_mask :: u32
  er_head :: u32
  er_tail :: u32
  er_dropped :: u32
  er_first_wait_us :: u64

definition er_attach :: "'a list option \<Rightarrow> u32 \<Rightarrow> 'a event_ring" where
  "er_attach storage capacity =
    (let items = (if capacity \<noteq> 0 \<and> capacity AND (capacity - 1) = 0 then storage else None)
     in \<lparr>er_items = items, er_mask = (if items \<noteq> None then capacity - 1 else 0), er_head = 0, er_tail = 0,
         er_dropped = 0, er_first_wait_us = 0\<rparr>)"

definition er_size :: "'a event_ring \<Rightarrow> u32" where
  "er_size r = er_head r - er_tail r"

definition er_push :: "'a \<Rightarrow> 'a event_ring \<Rightarrow> bool \<times> 'a event_ring" where
  "er_push v r = (case er_items r of
       None \<Rightarrow> (False, r)
     | Some items \<Rightarrow>
         let h = er_head r in
         if h - er_tail r > er_mask r then (False, r\<lparr>er_dropped := er_dropped r + 1\<rparr>)
         else (True, r\<lparr>er_items := Some (items[unat (h AND er_mask r) := v]), er_head := h + 1\<rparr>))"

section \<open>Samples, spans and their packets\<close>

record profile_sample =
  ps_pc :: u32
  ps_owner :: u32

record timeline_event =
  te_start :: u32
  te_duration :: u32
  te_id :: u32
  te_kind :: u8

datatype span_kind = Sk_Resume | Sk_Isr | Sk_Idle

definition span_kind_byte :: "span_kind \<Rightarrow> u8" where
  "span_kind_byte k = (case k of Sk_Resume \<Rightarrow> 1 | Sk_Isr \<Rightarrow> 2 | Sk_Idle \<Rightarrow> 3)"

definition sample_bytes :: "profile_sample \<Rightarrow> u8 list" where
  "sample_bytes s = le_bytes 4 (ps_pc s) @ le_bytes 4 (ps_owner s)"

definition span_bytes :: "timeline_event \<Rightarrow> u8 list" where
  "span_bytes e = le_bytes 4 (te_start e) @ le_bytes 4 (te_duration e) @ le_bytes 4 (te_id e) @ [te_kind e, 0, 0, 0]"

definition profile_header :: "u32 \<Rightarrow> u16 \<Rightarrow> u32 \<Rightarrow> u8 list" where
  "profile_header sample_hz n dropped = [0x30, 1] @ le_bytes 2 n @ le_bytes 4 sample_hz @ le_bytes 4 dropped @ le_bytes 4 (0 :: u32)"

definition timeline_header :: "u32 \<Rightarrow> u64 \<Rightarrow> u16 \<Rightarrow> u32 \<Rightarrow> u8 list" where
  "timeline_header cycle_hz cycles_now n dropped = [0x31, 1] @ le_bytes 2 n @ le_bytes 4 cycle_hz @ le_bytes 8 cycles_now @
     le_bytes 4 dropped @ le_bytes 4 (0 :: u32)"

definition max_samples_per_packet :: u32 where
  "max_samples_per_packet = (496 - 40 - 16) div 8"

definition max_events_per_packet :: u32 where
  "max_events_per_packet = (496 - 40 - 24) div 16"

definition profile_flush_us :: u64 where
  "profile_flush_us = 100000"

definition timeline_flush_us :: u64 where
  "timeline_flush_us = 50000"

record events_state =
  ev_samples :: "profile_sample event_ring"
  ev_spans :: "timeline_event event_ring"
  ev_sample_hz :: u32
  ev_timeline_on :: bool

definition events_pending :: "events_state \<Rightarrow> bool" where
  "events_pending s \<longleftrightarrow> er_size (ev_samples s) \<noteq> 0 \<or> ev_timeline_on s \<and> er_size (ev_spans s) \<noteq> 0"

text \<open>The sample timer's interrupt: \<open>owner\<close> is the frame address of the task that has the CPU, if any.\<close>

definition take_sample :: "u32 \<Rightarrow> bool \<Rightarrow> u64 option \<Rightarrow> events_state \<Rightarrow> events_state" where
  "take_sample pc idle owner s =
    (let who = (if idle then 1 else case owner of None \<Rightarrow> 0 | Some f \<Rightarrow> ucast f)
     in s\<lparr>ev_samples := snd (er_push \<lparr>ps_pc = pc, ps_owner = who\<rparr> (ev_samples s))\<rparr>)"

definition add_span :: "span_kind \<Rightarrow> u32 \<Rightarrow> u64 \<Rightarrow> u64 \<Rightarrow> events_state \<Rightarrow> events_state" where
  "add_span kind who start cycles s =
    (if \<not> ev_timeline_on s then s
     else s\<lparr>ev_spans := snd (er_push \<lparr>te_start = ucast start, te_duration = (if cycles > 0xFFFFFFFF then 0xFFFFFFFF else ucast cycles),
            te_id = who, te_kind = span_kind_byte kind\<rparr> (ev_spans s))\<rparr>)"

definition attach_profile :: "profile_sample list option \<Rightarrow> u32 \<Rightarrow> u32 \<Rightarrow> events_state \<Rightarrow> events_state" where
  "attach_profile storage capacity hz s =
    (let r = er_attach storage capacity in s\<lparr>ev_samples := r, ev_sample_hz := (if er_items r \<noteq> None then hz else 0)\<rparr>)"

definition attach_timeline :: "timeline_event list option \<Rightarrow> u32 \<Rightarrow> bool \<Rightarrow> events_state \<Rightarrow> events_state" where
  "attach_timeline storage capacity on s =
    (let r = er_attach storage capacity in s\<lparr>ev_spans := r, ev_timeline_on := (on \<and> er_items r \<noteq> None)\<rparr>)"

section \<open>Draining into packets\<close>

text \<open>
  \<open>drain_once\<close>: \<open>enc\<close> is the wire form of an item, \<open>hdr n dropped\<close> that of the packet's header,
  \<open>listening\<close> what \<open>platform_trace_listening()\<close> says.
\<close>

definition drain_once :: "bool \<Rightarrow> ('a \<Rightarrow> u8 list) \<Rightarrow> u8 \<Rightarrow> u32 \<Rightarrow> u64 \<Rightarrow> (u16 \<Rightarrow> u32 \<Rightarrow> u8 list) \<Rightarrow> u64 \<Rightarrow>
    'a event_ring \<Rightarrow> 'e ctf_engine \<Rightarrow> 'a event_ring \<times> 'e ctf_engine" where
  "drain_once listening enc stream max_n wait_us hdr now r e =
    (let n = er_size r in
     if n = 0 then (r\<lparr>er_first_wait_us := 0\<rparr>, e)
     else if \<not> listening then (r\<lparr>er_tail := er_tail r + n, er_first_wait_us := 0\<rparr>, e)
     else let r = (if er_first_wait_us r = 0 then r\<lparr>er_first_wait_us := now\<rparr> else r) in
       if n < max_n \<and> now - er_first_wait_us r < wait_us then (r, e)
       else let n = (if n > max_n then max_n else n); t = er_tail r;
                fill = hdr (ucast n) (er_dropped r) @
                  concat (map (\<lambda>i. enc (the (er_items r) ! unat ((t + of_nat i) AND er_mask r))) [0..<unat n]);
                (sent, e) = emit_stream_packet stream fill now e in
            if sent then let r = r\<lparr>er_tail := t + n\<rparr>
                         in (r\<lparr>er_first_wait_us := (if er_size r \<noteq> 0 then now else 0)\<rparr>, e)
            else (r, e))"

fun drain_ring :: "nat \<Rightarrow> bool \<Rightarrow> ('a \<Rightarrow> u8 list) \<Rightarrow> u8 \<Rightarrow> u32 \<Rightarrow> u64 \<Rightarrow> (u16 \<Rightarrow> u32 \<Rightarrow> u8 list) \<Rightarrow> u64 \<Rightarrow>
    'a event_ring \<Rightarrow> 'e ctf_engine \<Rightarrow> 'a event_ring \<times> 'e ctf_engine" where
  "drain_ring 0 listening enc stream max_n wait_us hdr now r e = (r, e)"
| "drain_ring (Suc k) listening enc stream max_n wait_us hdr now r e =
    (let before = er_tail r; (r, e) = drain_once listening enc stream max_n wait_us hdr now r e in
     if er_tail r = before \<or> er_size r < max_n then (r, e)
     else drain_ring k listening enc stream max_n wait_us hdr now r e)"

definition events_service :: "bool \<Rightarrow> u32 \<Rightarrow> u64 \<Rightarrow> u64 \<Rightarrow> events_state \<Rightarrow> 'e ctf_engine \<Rightarrow> events_state \<times> 'e ctf_engine" where
  "events_service listening hz cycles_now now s e =
    (let (s, e) = (if er_items (ev_samples s) \<noteq> None
           then let (r, e) = drain_ring 4 listening sample_bytes 4 max_samples_per_packet profile_flush_us
                  (profile_header (ev_sample_hz s)) now (ev_samples s) e in (s\<lparr>ev_samples := r\<rparr>, e)
           else (s, e))
     in if ev_timeline_on s
        then let (r, e) = drain_ring 4 listening span_bytes 5 max_events_per_packet timeline_flush_us
               (timeline_header hz cycles_now) now (ev_spans s) e in (s\<lparr>ev_spans := r\<rparr>, e)
        else (s, e))"

section \<open>The ring is a bounded queue\<close>

definition er_list :: "'a event_ring \<Rightarrow> 'a list" where
  "er_list r = map (\<lambda>i. the (er_items r) ! unat ((er_tail r + of_nat i) AND er_mask r)) [0..<unat (er_size r)]"

text \<open>An attached ring of \<open>2 ^ k\<close> slots.\<close>

definition er_ok :: "nat \<Rightarrow> 'a event_ring \<Rightarrow> bool" where
  "er_ok k r \<longleftrightarrow> k < 32 \<and> er_mask r = 2 ^ k - 1 \<and> (\<exists>xs. er_items r = Some xs \<and> length xs = 2 ^ k) \<and> unat (er_size r) \<le> 2 ^ k"

lemma er_slot:
  "er_ok k r \<Longrightarrow> unat ((t + of_nat i) AND er_mask r) = (unat t + i) mod 2 ^ k"
  by (simp add: er_ok_def unat_and_exp_minus_1 unat_add_of_nat_mod)

lemma er_capacity: "er_ok k r \<Longrightarrow> (2 :: nat) ^ k < 2 ^ 32"
  unfolding er_ok_def by (rule power_strict_increasing) simp_all

lemma er_mask_value: "er_ok k r \<Longrightarrow> unat (er_mask r) = 2 ^ k - 1"
proof -
  assume ok: "er_ok k r"
  then have "(2 :: nat) ^ k < 2 ^ 32" by (rule er_capacity)
  then have "unat ((2 :: u32) ^ k) = 2 ^ k" using unat_of_nat_small [where 'w = 32, of "2 ^ k"] by simp
  moreover have "(1 :: u32) \<le> 2 ^ k" using \<open>unat ((2 :: u32) ^ k) = 2 ^ k\<close> by (simp add: word_le_nat_alt)
  ultimately show ?thesis using ok by (simp add: er_ok_def unat_sub)
qed

lemma er_push_room:
  assumes ok: "er_ok k r" and room: "length (er_list r) < 2 ^ k"
  shows "fst (er_push v r)" "er_ok k (snd (er_push v r))" "er_list (snd (er_push v r)) = er_list r @ [v]"
    "er_dropped (snd (er_push v r)) = er_dropped r"
proof -
  obtain xs where xs: "er_items r = Some xs" "length xs = 2 ^ k" using ok by (auto simp: er_ok_def)
  define d where "d = unat (er_size r)"
  have d: "d < 2 ^ k" "(2 :: nat) ^ k < 2 ^ 32" using room er_capacity [OF ok] by (simp_all add: er_list_def d_def)
  have head: "er_head r = er_tail r + of_nat d" by (simp add: d_def er_size_def)
  define j where "j = (unat (er_tail r) + d) mod 2 ^ k"
  have slot: "unat (er_head r AND er_mask r) = j" unfolding head j_def by (rule er_slot [OF ok])
  have "\<not> er_mask r < er_head r - er_tail r"
    using d er_mask_value [OF ok] by (simp add: word_less_nat_alt d_def er_size_def [symmetric])
  then have push: "er_push v r = (True, r\<lparr>er_items := Some (xs[j := v]), er_head := er_head r + 1\<rparr>)"
    by (simp add: er_push_def xs(1) slot Let_def)
  have "er_size (snd (er_push v r)) = er_size r + 1" by (simp add: push er_size_def)
  moreover have "unat (er_size r + 1) = Suc d"
    unfolding d_def by (rule unat_Suc_less [of _ "2 ^ k"]) (use d in \<open>simp_all add: d_def\<close>)
  ultimately have size: "unat (er_size (snd (er_push v r))) = Suc d" by simp
  show "fst (er_push v r)" "er_dropped (snd (er_push v r)) = er_dropped r" by (simp_all add: push)
  show ok': "er_ok k (snd (er_push v r))" using ok xs(2) size d by (simp add: er_ok_def push)
  have apart: "(unat (er_tail r) + i) mod 2 ^ k \<noteq> j" if "i < d" for i
  proof
    assume "(unat (er_tail r) + i) mod 2 ^ k = j"
    then have "2 ^ k dvd (unat (er_tail r) + d) - (unat (er_tail r) + i)"
      unfolding j_def using that by (subst (asm) eq_commute) (simp add: mod_eq_dvd_iff_nat)
    then show False using that d by (simp add: nat_dvd_not_less)
  qed
  have "er_list (snd (er_push v r)) = map (\<lambda>i. xs[j := v] ! ((unat (er_tail r) + i) mod 2 ^ k)) [0..<Suc d]"
    using er_slot [OF ok'] unfolding er_list_def size by (simp add: push)
  also have "\<dots> = map (\<lambda>i. xs ! ((unat (er_tail r) + i) mod 2 ^ k)) [0..<d] @ [v]"
    using apart xs(2) by (simp add: j_def [symmetric]) (auto simp: j_def nth_list_update_neq [OF not_sym])
  also have "map (\<lambda>i. xs ! ((unat (er_tail r) + i) mod 2 ^ k)) [0..<d] = er_list r"
    using er_slot [OF ok] by (simp add: er_list_def xs(1) d_def)
  finally show "er_list (snd (er_push v r)) = er_list r @ [v]" .
qed

lemma drop_map_upt: "drop n (map f [0..<m]) = map (\<lambda>i. f (n + i)) [0..<m - n]"
  by (intro nth_equalityI) (auto simp: less_diff_conv add.commute)

text \<open>Taking the first \<open>n\<close> items off the ring.\<close>

lemma er_drop:
  assumes ok: "er_ok k r" and n: "n \<le> er_size r"
  shows "er_ok k (r\<lparr>er_tail := er_tail r + n, er_first_wait_us := w\<rparr>)"
    "er_list (r\<lparr>er_tail := er_tail r + n, er_first_wait_us := w\<rparr>) = drop (unat n) (er_list r)"
proof -
  let ?r = "r\<lparr>er_tail := er_tail r + n, er_first_wait_us := w\<rparr>"
  have "er_size ?r = er_size r - n" by (simp add: er_size_def)
  then have size: "unat (er_size ?r) = unat (er_size r) - unat n" using n by (simp add: unat_sub)
  then show ok': "er_ok k ?r" using ok by (auto simp: er_ok_def)
  have "n = of_nat (unat n)" by simp
  then have "unat (er_tail r + n + of_nat i) mod 2 ^ k = (unat (er_tail r) + (unat n + i)) mod 2 ^ k" for i
    using unat_add_of_nat_mod [where 'w = 32, of k "er_tail r" "unat n + i"] ok by (simp add: er_ok_def add.assoc)
  moreover have "unat (er_tail ?r + of_nat i AND er_mask ?r) = unat (er_tail r + n + of_nat i) mod 2 ^ k" for i
    using ok by (simp add: er_ok_def unat_and_exp_minus_1)
  ultimately have "unat (er_tail ?r + of_nat i AND er_mask ?r) = unat (er_tail r + of_nat (unat n + i) AND er_mask r)" for i
    using er_slot [OF ok, of "er_tail r" "unat n + i"] by presburger
  then show "er_list ?r = drop (unat n) (er_list r)"
    unfolding er_list_def size drop_map_upt by (intro map_cong refl) simp
qed

lemma er_list_wait [simp]: "er_list (r\<lparr>er_first_wait_us := w\<rparr>) = er_list r" "er_ok k (r\<lparr>er_first_wait_us := w\<rparr>) = er_ok k r"
  "er_size (r\<lparr>er_first_wait_us := w\<rparr>) = er_size r"
  by (simp_all add: er_list_def er_ok_def er_size_def)

text \<open>What one call sends is the first items of the ring, in one packet, or nothing.\<close>

lemma drain_once_sends:
  assumes ok: "er_ok k r" and run: "drain_once True enc stream max_n wait_us hdr now r e = (r', e')"
  shows "er_ok k r' \<and> er_dropped r' = er_dropped r \<and>
    (er_list r' = er_list r \<and> (e' = e \<or> (\<exists>fill. emit_stream_packet stream fill now e = (False, e'))) \<or>
     (\<exists>c. er_list r = c @ er_list r' \<and> length c \<le> unat max_n \<and>
       emit_stream_packet stream (hdr (ucast (of_nat (length c) :: u32)) (er_dropped r) @ concat (map enc c)) now e = (True, e')))"
proof -
  define r1 where "r1 = (if er_first_wait_us r = 0 then r\<lparr>er_first_wait_us := now\<rparr> else r)"
  have r1: "er_list r1 = er_list r" "er_ok k r1" "er_size r1 = er_size r" "er_tail r1 = er_tail r" "er_items r1 = er_items r"
    "er_mask r1 = er_mask r" "er_dropped r1 = er_dropped r" using ok by (simp_all add: r1_def)
  define n where "n = (if er_size r > max_n then max_n else er_size r)"
  define c where "c = take (unat n) (er_list r)"
  have n: "n \<le> er_size r" "n \<le> max_n" by (auto simp: n_def)
  then have len: "length c = unat n" by (simp add: c_def er_list_def word_le_nat_alt)
  have c: "concat (map enc c) = concat (map (\<lambda>i. enc (the (er_items r) ! unat ((er_tail r + of_nat i) AND er_mask r))) [0..<unat n])"
    using n(1) by (simp add: c_def er_list_def take_map take_upt word_le_nat_alt comp_def)
  define fill where "fill = hdr (ucast n) (er_dropped r) @ concat (map enc c)"
  consider "er_size r = 0" "r' = r\<lparr>er_first_wait_us := 0\<rparr>" "e' = e" | "r' = r1" "e' = e"
    | "r' = r1" "emit_stream_packet stream fill now e = (False, e')"
    | w where "r' = r1\<lparr>er_tail := er_tail r + n, er_first_wait_us := w\<rparr>" "emit_stream_packet stream fill now e = (True, e')"
    using run unfolding drain_once_def r1_def [symmetric] n_def [symmetric] Let_def r1 c [symmetric] fill_def [symmetric]
    by (auto split: if_splits prod.splits)
  then show ?thesis
  proof cases
    case 4
    have "er_ok k r'" "er_list r' = drop (unat n) (er_list r)"
      using er_drop [OF r1(2), of n w] n r1 4 by simp_all
    moreover have "er_list r = c @ drop (unat n) (er_list r)" by (simp add: c_def)
    moreover have "(of_nat (length c) :: u32) = n" by (simp add: len)
    ultimately show ?thesis using 4 len n r1 by (auto simp: fill_def word_le_nat_alt)
  qed (use ok r1 in auto)
qed

definition chunk_body :: "('a \<Rightarrow> u8 list) \<Rightarrow> (u16 \<Rightarrow> u32 \<Rightarrow> u8 list) \<Rightarrow> u32 \<Rightarrow> 'a list \<Rightarrow> u8 list" where
  "chunk_body enc hdr dropped c = hdr (ucast (of_nat (length c) :: u32)) dropped @ concat (map enc c)"

context ctf_transport
begin

lemma drain_once_content:
  assumes ok: "er_ok k r" "engine_ok e" and run: "drain_once True enc stream max_n wait_us hdr now r e = (r', e')"
  shows "er_ok k r' \<and> engine_ok e' \<and> er_dropped r' = er_dropped r \<and>
    (\<exists>cs. length cs \<le> 1 \<and> (\<forall>c \<in> set cs. length c \<le> unat max_n) \<and> er_list r = concat cs @ er_list r' \<and>
      content e' = content e @ concat (map (chunk_body enc hdr (er_dropped r)) cs))"
proof -
  note once = drain_once_sends [OF ok(1) run]
  then consider "er_list r' = er_list r" "e' = e"
    | fill where "er_list r' = er_list r" "emit_stream_packet stream fill now e = (False, e')"
    | c where "er_list r = c @ er_list r'" "length c \<le> unat max_n"
        "emit_stream_packet stream (chunk_body enc hdr (er_dropped r) c) now e = (True, e')"
    unfolding chunk_body_def by blast
  then show ?thesis
  proof cases
    case 1
    then show ?thesis using once ok(2) by (auto intro!: exI [of _ "[]"])
  next
    case 2
    then show ?thesis using once emit_stream_packet_ok [OF ok(2) 2(2)] by (auto intro!: exI [of _ "[]"])
  next
    case 3
    then show ?thesis using once emit_stream_packet_ok [OF ok(2) 3(3)] by (auto intro!: exI [of _ "[c]"])
  qed
qed

lemma drain_ring_content:
  "er_ok k r \<Longrightarrow> engine_ok e \<Longrightarrow> drain_ring j True enc stream max_n wait_us hdr now r e = (r', e') \<Longrightarrow>
    er_ok k r' \<and> engine_ok e' \<and> er_dropped r' = er_dropped r \<and>
    (\<exists>cs. length cs \<le> j \<and> (\<forall>c \<in> set cs. length c \<le> unat max_n) \<and> er_list r = concat cs @ er_list r' \<and>
      content e' = content e @ concat (map (chunk_body enc hdr (er_dropped r)) cs))"
proof (induction j arbitrary: r e)
  case 0
  then show ?case by (auto intro!: exI [of _ "[]"])
next
  case (Suc j)
  obtain r1 e1 where once: "drain_once True enc stream max_n wait_us hdr now r e = (r1, e1)" by fastforce
  note 1 = drain_once_content [OF Suc.prems(1,2) once]
  then obtain cs where cs: "length cs \<le> 1" "\<forall>c \<in> set cs. length c \<le> unat max_n" "er_list r = concat cs @ er_list r1"
    "content e1 = content e @ concat (map (chunk_body enc hdr (er_dropped r)) cs)" by blast
  show ?case
  proof (cases "er_tail r1 = er_tail r \<or> er_size r1 < max_n")
    case True
    then have "r' = r1" "e' = e1" using Suc.prems(3) once by (simp_all add: Let_def)
    then show ?thesis using 1 cs by (auto intro!: exI [of _ cs])
  next
    case False
    then have "drain_ring j True enc stream max_n wait_us hdr now r1 e1 = (r', e')"
      using Suc.prems(3) once by (simp add: Let_def)
    from Suc.IH [OF _ _ this] 1 obtain ds where
      ds: "er_ok k r'" "engine_ok e'" "er_dropped r' = er_dropped r" "length ds \<le> j" "\<forall>c \<in> set ds. length c \<le> unat max_n"
        "er_list r1 = concat ds @ er_list r'" "content e' = content e1 @ concat (map (chunk_body enc hdr (er_dropped r)) ds)"
      by auto
    then show ?thesis using cs by (intro conjI exI [of _ "cs @ ds"]) (auto simp: ball_Un)
  qed
qed

end

text \<open>
  (C31) Draining a ring of samples or spans loses and reorders nothing while a reader listens: what leaves the
  ring is its oldest items, cut into at most four packets of at most \<open>max_n\<close> items, each packet the
  header with its count and the ring's drop counter followed by its items; the packets follow what was
  traced before, and an item whose packet the transport refused stays in the ring.
\<close>

theorem drain_ring_sends_in_order:
  assumes "trace_run ops (trace_start ps num) = (out, e)" "ps < 2 ^ 28" "er_ok k r"
    "drain_ring 4 True enc stream max_n wait_us hdr now r e = (r', e')"
  shows "er_ok k r' \<and> (\<exists>cs. length cs \<le> 4 \<and> (\<forall>c \<in> set cs. length c \<le> unat max_n) \<and> er_list r = concat cs @ er_list r' \<and>
    concat (map body (sp_sent (ct_env e'))) @ open_body e' =
      concat (map body (sp_sent (ct_env e))) @ open_body e @ concat (map (chunk_body enc hdr (er_dropped r)) cs))"
proof -
  have "pool.engine_ok ps num e"
    using pool.trace_run_ok [OF trace_start_ok [OF assms(2)]] assms(1) by (metis surj_pair)
  from pool.drain_ring_content [OF assms(3) this assms(4)] show ?thesis
    by (simp add: pool.content_def)
qed

text \<open>A ring of four samples with three waiting, drained two to a packet.\<close>

definition three_samples :: "profile_sample event_ring" where
  "three_samples = (let r = er_attach (Some (replicate 4 \<lparr>ps_pc = 0, ps_owner = 0\<rparr>)) 4;
     r = snd (er_push \<lparr>ps_pc = 10, ps_owner = 1\<rparr> r); r = snd (er_push \<lparr>ps_pc = 20, ps_owner = 1\<rparr> r)
     in snd (er_push \<lparr>ps_pc = 30, ps_owner = 0\<rparr> r))"

lemma drain_ring_sends_in_order_witness:
  "\<exists>r' e'. drain_ring 4 True sample_bytes 4 2 100 (profile_header 1000) 500 three_samples (trace_start 100 2) = (r', e') \<and>
    er_ok 2 r' \<and> map ps_pc (er_list three_samples) = [10, 20, 30]"
proof -
  obtain r' e' where run: "drain_ring 4 True sample_bytes 4 2 100 (profile_header 1000) 500 three_samples (trace_start 100 2) = (r', e')"
    by fastforce
  have ok: "er_ok 2 three_samples" and items: "map ps_pc (er_list three_samples) = [10, 20, 30]"
    by (simp_all add: er_ok_def three_samples_def er_attach_def er_push_def er_size_def er_list_def Let_def upt_rec)
  from drain_ring_sends_in_order [OF _ _ ok run, of "[]" _] run items show ?thesis by simp
qed

end
