(* ===== verification/Runtime_Stats.thy ===== *)
theory Runtime_Stats
  imports Event_Trace
begin

text \<open>
  Time accounting of \<open>include/abstractx/trace/runtime_stats.hpp\<close>: the cycles since the last mark, less
  those of interrupt handlers, are charged to whoever owned the CPU. The cycle clock and the interrupt
  cycle counter are read by the code; here each operation takes the two values it reads.
\<close>

section \<open>State\<close>

record task_slot =
  sl_frame :: u64
  sl_name :: "u8 list option"
  sl_resumes :: u32
  sl_run_cycles :: u64
  sl_max_cycles :: u64

text \<open>
  \<open>st_owner\<close> is the index of the slot the owner pointer points to, \<open>None\<close> for the loop itself.
  \<open>st_hook\<close> says whether a span hook is set; its calls are returned by the operations.
\<close>

record stats_state =
  st_hz :: u32
  st_tasks :: "task_slot list"
  st_idle_cycles :: u64
  st_steps :: u32
  st_owner :: "nat option"
  st_mark :: u64
  st_isr_mark :: u32
  st_idle :: bool
  st_idle_start :: u64
  st_hook :: bool

definition max_tasks :: nat where
  "max_tasks = 8"

definition empty_slot :: task_slot where
  "empty_slot = \<lparr>sl_frame = 0, sl_name = None, sl_resumes = 0, sl_run_cycles = 0, sl_max_cycles = 0\<rparr>"

definition stats_new :: stats_state where
  "stats_new = \<lparr>st_hz = 0, st_tasks = replicate max_tasks empty_slot, st_idle_cycles = 0, st_steps = 0, st_owner = None,
     st_mark = 0, st_isr_mark = 0, st_idle = False, st_idle_start = 0, st_hook = False\<rparr>"

text \<open>A call of the span hook: kind, id, start, cycles.\<close>

type_synonym span_call = "u8 \<times> u32 \<times> u64 \<times> u64"

section \<open>Operations\<close>

definition set_cycle_clock :: "u32 \<Rightarrow> u64 \<Rightarrow> u32 \<Rightarrow> stats_state \<Rightarrow> stats_state" where
  "set_cycle_clock hz now isr s = s\<lparr>st_hz := hz, st_mark := now, st_isr_mark := isr\<rparr>"

definition account :: "u64 \<Rightarrow> u32 \<Rightarrow> stats_state \<Rightarrow> stats_state" where
  "account now isr s =
    (let elapsed = now - st_mark s; in_isr = isr - st_isr_mark s;
         elapsed = (if elapsed > ucast in_isr then elapsed - ucast in_isr else 0);
         s = (if st_idle s then s\<lparr>st_idle_cycles := st_idle_cycles s + elapsed\<rparr>
              else case st_owner s of
                None \<Rightarrow> s
              | Some i \<Rightarrow> let t = st_tasks s ! i in s\<lparr>st_tasks := (st_tasks s)[i := t\<lparr>sl_run_cycles := sl_run_cycles t + elapsed\<rparr>]\<rparr>)
     in s\<lparr>st_mark := now, st_isr_mark := isr\<rparr>)"

text \<open>\<open>slot_for\<close>: the frame's slot, else a free one, else the last slot, which collects the others.\<close>

fun find_slot :: "u64 \<Rightarrow> nat \<Rightarrow> task_slot list \<Rightarrow> nat option" where
  "find_slot f i [] = None"
| "find_slot f i (t # ts) = (if sl_frame t = f then Some i else find_slot f (Suc i) ts)"

definition other_name :: "u8 list" where
  "other_name = [0x6F, 0x74, 0x68, 0x65, 0x72]"

definition slot_for :: "u64 \<Rightarrow> stats_state \<Rightarrow> nat \<times> stats_state" where
  "slot_for f s =
    (let other = max_tasks - 1; ts = take other (st_tasks s) in
     case find_slot f 0 ts of
       Some i \<Rightarrow> (i, s)
     | None \<Rightarrow> (case find_slot 0 0 ts of
         Some i \<Rightarrow> (i, s\<lparr>st_tasks := (st_tasks s)[i := (st_tasks s ! i)\<lparr>sl_frame := f\<rparr>]\<rparr>)
       | None \<Rightarrow> (other, s\<lparr>st_tasks := (st_tasks s)[other := (st_tasks s ! other)\<lparr>sl_name := Some other_name\<rparr>]\<rparr>)))"

definition name_task :: "u64 \<Rightarrow> u8 list \<Rightarrow> stats_state \<Rightarrow> stats_state" where
  "name_task f name s =
    (let (i, s) = slot_for f s in
     if i = max_tasks - 1 then s
     else s\<lparr>st_tasks := (st_tasks s)[i := \<lparr>sl_frame = f, sl_name = Some name, sl_resumes = 0, sl_run_cycles = 0, sl_max_cycles = 0\<rparr>]\<rparr>)"

text \<open>\<open>ResumeScope\<close>: the slot that owned the CPU before, the resumed frame's slot, and when it started.\<close>

record resume_scope =
  rs_prev :: "nat option"
  rs_self :: nat
  rs_start :: u64

definition scope_begin :: "u64 \<Rightarrow> u64 \<Rightarrow> u32 \<Rightarrow> stats_state \<Rightarrow> resume_scope \<times> stats_state" where
  "scope_begin f now isr s =
    (let prev = st_owner s; (self, s) = slot_for f s; s = account now isr s; t = st_tasks s ! self in
     (\<lparr>rs_prev = prev, rs_self = self, rs_start = st_mark s\<rparr>,
      s\<lparr>st_tasks := (st_tasks s)[self := t\<lparr>sl_resumes := sl_resumes t + 1\<rparr>], st_owner := Some self\<rparr>))"

definition scope_end :: "resume_scope \<Rightarrow> u64 \<Rightarrow> u32 \<Rightarrow> stats_state \<Rightarrow> span_call list \<times> stats_state" where
  "scope_end c now isr s =
    (let s = account now isr s; wall = st_mark s - rs_start c; t = st_tasks s ! rs_self c;
         s = (if wall > sl_max_cycles t then s\<lparr>st_tasks := (st_tasks s)[rs_self c := t\<lparr>sl_max_cycles := wall\<rparr>]\<rparr> else s);
         s = s\<lparr>st_owner := rs_prev c\<rparr>
     in (if st_hook s then [(1, ucast (sl_frame t), rs_start c, wall)] else [], s))"

definition idle_begin :: "u64 \<Rightarrow> u32 \<Rightarrow> stats_state \<Rightarrow> stats_state" where
  "idle_begin now isr s = (let s = account now isr s in s\<lparr>st_idle := True, st_idle_start := st_mark s\<rparr>)"

definition idle_end :: "u64 \<Rightarrow> u32 \<Rightarrow> stats_state \<Rightarrow> span_call list \<times> stats_state" where
  "idle_end now isr s =
    (let s = (account now isr s)\<lparr>st_idle := False\<rparr>
     in (if st_hook s then [(3, 0, st_idle_start s, st_mark s - st_idle_start s)] else [], s))"

definition count_step :: "stats_state \<Rightarrow> stats_state" where
  "count_step s = s\<lparr>st_steps := st_steps s + 1\<rparr>"

definition stats_reset :: "u64 \<Rightarrow> u32 \<Rightarrow> stats_state \<Rightarrow> stats_state" where
  "stats_reset now isr s = set_cycle_clock (st_hz s) now isr (stats_new\<lparr>st_hook := st_hook s\<rparr>)"

section \<open>The report\<close>

record driver_stats =
  dr_name :: "u8 list option"
  dr_id :: u16
  dr_events :: u32
  dr_cycles :: u32
  dr_errors :: u32

text \<open>\<open>copy_name\<close> of \<open>src/runtime.cpp\<close> into a zeroed field of \<open>cap\<close> bytes.\<close>

definition copy_name :: "nat \<Rightarrow> u8 list option \<Rightarrow> u8 list" where
  "copy_name cap name = (case name of None \<Rightarrow> replicate cap 0 | Some n \<Rightarrow> copy_text (cap - 1) (replicate cap 0) n)"

definition task_record :: "task_slot \<Rightarrow> u8 list" where
  "task_record t = copy_name 12 (sl_name t) @ le_bytes 4 (ucast (sl_frame t) :: u32) @ le_bytes 4 (sl_resumes t) @
     le_bytes 4 (ucast (sl_run_cycles t) :: u32) @
     le_bytes 4 (if sl_max_cycles t > 0xFFFFFFFF then 0xFFFFFFFF else ucast (sl_max_cycles t) :: u32)"

definition driver_record :: "driver_stats \<Rightarrow> u8 list" where
  "driver_record d = copy_name 8 (dr_name d) @ le_bytes 2 (dr_id d) @ le_bytes 2 (0 :: u16) @ le_bytes 4 (dr_events d) @
     le_bytes 4 (dr_cycles d) @ le_bytes 4 (dr_errors d)"

text \<open>Switching the timeline on also sets the span hook of the accounting, switching it off removes it.\<close>

definition attach_timeline_hook :: "timeline_event list option \<Rightarrow> u32 \<Rightarrow> bool \<Rightarrow> events_state \<Rightarrow> stats_state \<Rightarrow> events_state \<times> stats_state" where
  "attach_timeline_hook storage capacity on ev st =
    (let ev = attach_timeline storage capacity on ev in (ev, st\<lparr>st_hook := ev_timeline_on ev\<rparr>))"

text \<open>What the report reads from the frame pool, the ready queue and the tracer.\<close>

record runtime_gauges =
  ga_pool_used :: u32
  ga_pool_high_water :: u32
  ga_pool_capacity :: u32
  ga_dropped_resumes :: u32
  ga_queue_depth :: u16
  ga_queue_capacity :: u16
  ga_queue_high_water :: u16
  ga_trace_discarded :: u32

definition max_drivers :: nat where
  "max_drivers = 6"

definition reported :: "stats_state \<Rightarrow> task_slot list" where
  "reported s = filter (\<lambda>t. \<not> (sl_frame t = 0 \<and> sl_resumes t = 0)) (st_tasks s)"

definition stats_header :: "nat \<Rightarrow> nat \<Rightarrow> u64 \<Rightarrow> runtime_gauges \<Rightarrow> stats_state \<Rightarrow> u8 list" where
  "stats_header n_tasks n_drivers now g s =
    [0x20, 1, of_nat n_tasks, of_nat n_drivers] @ le_bytes 8 now @ le_bytes 4 (st_hz s) @
    le_bytes 4 (ucast (st_mark s) :: u32) @ le_bytes 4 (ucast (st_idle_cycles s) :: u32) @ le_bytes 4 (st_steps s) @
    le_bytes 4 (ga_pool_used g) @ le_bytes 4 (ga_pool_high_water g) @ le_bytes 4 (ga_pool_capacity g) @
    le_bytes 4 (ga_dropped_resumes g) @ le_bytes 2 (ga_queue_depth g) @ le_bytes 2 (ga_queue_capacity g) @
    le_bytes 4 (ga_trace_discarded g) @ le_bytes 2 (ga_queue_high_water g) @ le_bytes 2 (0 :: u16)"

definition emit_status :: "u64 \<Rightarrow> u64 \<Rightarrow> u32 \<Rightarrow> driver_stats list \<Rightarrow> runtime_gauges \<Rightarrow> stats_state \<Rightarrow> 'e ctf_engine \<Rightarrow>
    stats_state \<times> 'e ctf_engine" where
  "emit_status now clock isr drivers g s e =
    (let s = account clock isr s; ts = reported s; ds = take max_drivers drivers;
         fill = stats_header (length ts) (length ds) now g s @ concat (map task_record ts) @ concat (map driver_record ds)
     in (s, snd (emit_stream_packet 3 fill now e)))"

section \<open>What is charged\<close>

definition charged :: "stats_state \<Rightarrow> nat" where
  "charged s = sum_list (map (\<lambda>t. unat (sl_run_cycles t)) (st_tasks s)) + unat (st_idle_cycles s)"

lemma sum_list_update_le:
  "i < length xs \<Longrightarrow> f y \<le> f (xs ! i) + d \<Longrightarrow> sum_list (map f (xs[i := y])) \<le> sum_list (map f xs) + (d :: nat)"
proof (induction xs arbitrary: i)
  case (Cons x xs)
  then show ?case by (cases i) fastforce+
qed simp

lemma unat_plus_le: "unat (a + b) \<le> unat a + unat (b :: 'w::len word)"
  by (simp add: unat_word_ariths mod_less_eq_dividend)

lemma unat_diff_le: "unat (a - b) \<le> unat (a :: 'w::len word)" if "b \<le> a"
  using that by (simp add: unat_sub)

lemma account_frame [simp]:
  "length (st_tasks (account now isr s)) = length (st_tasks s)" "st_owner (account now isr s) = st_owner s"
  "st_idle (account now isr s) = st_idle s" "st_mark (account now isr s) = now" "st_hook (account now isr s) = st_hook s"
  by (simp_all add: account_def Let_def split: option.split)

lemma account_charged:
  assumes "\<forall>i. st_owner s = Some i \<longrightarrow> i < length (st_tasks s)"
  shows "charged (account now isr s) \<le> charged s + unat (now - st_mark s)"
proof -
  define el where "el = (if now - st_mark s > ucast (isr - st_isr_mark s) then now - st_mark s - ucast (isr - st_isr_mark s) else 0)"
  have el: "unat el \<le> unat (now - st_mark s)" by (simp add: el_def unat_diff_le)
  have run: "unat (sl_run_cycles t + el) \<le> unat (sl_run_cycles t) + unat (now - st_mark s)" for t
    using unat_plus_le [of "sl_run_cycles t" el] el by linarith
  have idle: "unat (st_idle_cycles s + el) \<le> unat (st_idle_cycles s) + unat (now - st_mark s)"
    using unat_plus_le [of "st_idle_cycles s" el] el by linarith
  show ?thesis
  proof (cases "st_idle s")
    case True
    then show ?thesis using idle by (simp add: account_def el_def [symmetric] charged_def Let_def)
  next
    case False
    show ?thesis
    proof (cases "st_owner s")
      case None
      then show ?thesis using False by (simp add: account_def charged_def Let_def)
    next
      case (Some i)
      then have "i < length (st_tasks s)" using assms by simp
      from sum_list_update_le [OF this, where f = "\<lambda>t. unat (sl_run_cycles t)" and y = "(st_tasks s ! i)\<lparr>sl_run_cycles := sl_run_cycles (st_tasks s ! i) + el\<rparr>"
          and d = "unat (now - st_mark s)"] run [of "st_tasks s ! i"]
      have "sum_list (map (\<lambda>t. unat (sl_run_cycles t)) ((st_tasks s)[i := (st_tasks s ! i)\<lparr>sl_run_cycles := sl_run_cycles (st_tasks s ! i) + el\<rparr>]))
        \<le> sum_list (map (\<lambda>t. unat (sl_run_cycles t)) (st_tasks s)) + unat (now - st_mark s)" by simp
      then show ?thesis using False Some by (simp add: account_def el_def [symmetric] charged_def Let_def)
    qed
  qed
qed

lemma find_slot_bound: "find_slot f i ts = Some j \<Longrightarrow> i \<le> j \<and> j < i + length ts"
  by (induction f i ts rule: find_slot.induct) (auto split: if_splits)

lemma sum_list_update_same:
  "i < length xs \<Longrightarrow> f y = f (xs ! i) \<Longrightarrow> sum_list (map f (xs[i := y])) = sum_list (map f (xs :: 'a list) :: nat list)"
  by (metis list_update_id map_update)

lemma charged_update:
  assumes "sl_run_cycles t = sl_run_cycles (st_tasks s ! i)"
  shows "charged (s\<lparr>st_tasks := (st_tasks s)[i := t]\<rparr>) = charged s"
proof (cases "i < length (st_tasks s)")
  case True
  from sum_list_update_same [OF this, where f = "\<lambda>t. unat (sl_run_cycles t)" and y = t] assms
  show ?thesis by (simp add: charged_def)
qed (simp add: charged_def list_update_beyond)

lemma slot_for_frame:
  assumes "length (st_tasks s) = max_tasks" "slot_for f s = (i, s')"
  shows "i < max_tasks \<and> length (st_tasks s') = max_tasks \<and> charged s' = charged s \<and> st_owner s' = st_owner s \<and>
    st_mark s' = st_mark s"
proof -
  have bound: "j < max_tasks" if "find_slot g 0 (take (max_tasks - 1) (st_tasks s)) = Some j" for g j
    using find_slot_bound [OF that] assms(1) by (simp add: max_tasks_def)
  have update: "charged (s\<lparr>st_tasks := (st_tasks s)[j := t]\<rparr>) = charged s"
    if "j < max_tasks" "sl_run_cycles t = sl_run_cycles (st_tasks s ! j)" for j t
    using that charged_update by simp
  consider "s' = s" "i < max_tasks"
    | j t where "s' = s\<lparr>st_tasks := (st_tasks s)[j := t]\<rparr>" "i = j" "j < max_tasks" "sl_run_cycles t = sl_run_cycles (st_tasks s ! j)"
  proof (cases "find_slot f 0 (take (max_tasks - 1) (st_tasks s))")
    case (Some j)
    then have "s' = s" "i < max_tasks" using assms(2) bound [OF Some] by (simp_all add: slot_for_def Let_def)
    then show ?thesis by (rule that(1))
  next
    case free: None
    show ?thesis
    proof (cases "find_slot 0 0 (take (max_tasks - 1) (st_tasks s))")
      case (Some j)
      then have "s' = s\<lparr>st_tasks := (st_tasks s)[j := (st_tasks s ! j)\<lparr>sl_frame := f\<rparr>]\<rparr>" "i = j" "j < max_tasks"
        using free assms(2) bound [OF Some] by (auto simp: slot_for_def Let_def)
      then show ?thesis by (rule that(2)) simp
    next
      case None
      then have "s' = s\<lparr>st_tasks := (st_tasks s)[max_tasks - 1 := (st_tasks s ! (max_tasks - 1))\<lparr>sl_name := Some other_name\<rparr>]\<rparr>"
        "i = max_tasks - 1" "max_tasks - 1 < max_tasks"
        using free assms(2) by (simp_all add: slot_for_def Let_def max_tasks_def)
      then show ?thesis by (rule that(2)) simp
    qed
  qed
  then show ?thesis
  proof cases
    case (2 j t)
    then show ?thesis using assms(1) update [OF 2(3,4)] by simp
  qed (use assms(1) in simp)
qed

text \<open>Scheduling operations in a run, each with the clock and the interrupt counter it reads.\<close>

datatype stats_op = Resume_begin u64 | Resume_end | Idle_begin | Idle_end | Name u64 "u8 list" | Account

fun stats_step :: "stats_op \<times> u64 \<times> u32 \<Rightarrow> resume_scope list \<times> stats_state \<Rightarrow> (resume_scope list \<times> stats_state) option" where
  "stats_step (Resume_begin f, now, isr) (cs, s) = (let (c, s) = scope_begin f now isr s in Some (c # cs, s))"
| "stats_step (Resume_end, now, isr) (cs, s) = (case cs of [] \<Rightarrow> None | c # cs \<Rightarrow> Some (cs, snd (scope_end c now isr s)))"
| "stats_step (Idle_begin, now, isr) (cs, s) = Some (cs, idle_begin now isr s)"
| "stats_step (Idle_end, now, isr) (cs, s) = Some (cs, snd (idle_end now isr s))"
| "stats_step (Name f n, now, isr) (cs, s) = Some (cs, name_task f n s)"
| "stats_step (Account, now, isr) (cs, s) = Some (cs, account now isr s)"

fun stats_run :: "(stats_op \<times> u64 \<times> u32) list \<Rightarrow> resume_scope list \<times> stats_state \<Rightarrow> (resume_scope list \<times> stats_state) option" where
  "stats_run [] w = Some w"
| "stats_run (x # xs) w = (case stats_step x w of None \<Rightarrow> None | Some w \<Rightarrow> stats_run xs w)"

fun owner_of :: "resume_scope list \<Rightarrow> nat option" where
  "owner_of [] = None"
| "owner_of (c # cs) = Some (rs_self c)"

fun nested :: "resume_scope list \<Rightarrow> bool" where
  "nested [] = True"
| "nested (c # cs) = (rs_self c < max_tasks \<and> rs_prev c = owner_of cs \<and> nested cs)"

definition stats_ok :: "resume_scope list \<times> stats_state \<Rightarrow> bool" where
  "stats_ok w \<longleftrightarrow> length (st_tasks (snd w)) = max_tasks \<and> st_owner (snd w) = owner_of (fst w) \<and> nested (fst w)"

lemma owner_of_bound: "nested cs \<Longrightarrow> owner_of cs = Some i \<Longrightarrow> i < max_tasks"
  by (cases cs) auto

lemma charged_mono_update:
  "charged (s\<lparr>st_tasks := (st_tasks s)[i := (st_tasks s ! i)\<lparr>sl_resumes := n\<rparr>]\<rparr>) = charged s"
  "charged (s\<lparr>st_tasks := (st_tasks s)[i := (st_tasks s ! i)\<lparr>sl_max_cycles := m\<rparr>]\<rparr>) = charged s"
  by (simp_all add: charged_update)

lemma charged_fields [simp]:
  "charged (s\<lparr>st_owner := x\<rparr>) = charged s" "charged (s\<lparr>st_idle := b\<rparr>) = charged s" "charged (s\<lparr>st_idle_start := v\<rparr>) = charged s"
  by (simp_all add: charged_def)

lemma name_task_frame:
  assumes "length (st_tasks s) = max_tasks"
  shows "length (st_tasks (name_task f n s)) = max_tasks \<and> charged (name_task f n s) \<le> charged s \<and>
    st_owner (name_task f n s) = st_owner s \<and> st_mark (name_task f n s) = st_mark s"
proof -
  obtain i s' where slot: "slot_for f s = (i, s')" by fastforce
  note 1 = slot_for_frame [OF assms slot]
  have "sum_list (map (\<lambda>t. unat (sl_run_cycles t)) ((st_tasks s')[i := \<lparr>sl_frame = f, sl_name = Some n, sl_resumes = 0, sl_run_cycles = 0, sl_max_cycles = 0\<rparr>]))
      \<le> sum_list (map (\<lambda>t. unat (sl_run_cycles t)) (st_tasks s')) + 0"
    using 1 by (intro sum_list_update_le) simp_all
  then show ?thesis using 1 slot by (auto simp: name_task_def charged_def)
qed

lemma stats_step_ok:
  assumes ok: "stats_ok w" and step: "stats_step (x, now, isr) w = Some w'"
  shows "stats_ok w' \<and> charged (snd w') \<le> charged (snd w) + unat (now - st_mark (snd w)) \<and>
    (st_mark (snd w') = now \<or> st_mark (snd w') = st_mark (snd w) \<and> charged (snd w') \<le> charged (snd w))"
proof -
  obtain cs s where w: "w = (cs, s)" by fastforce
  from ok w have inv: "length (st_tasks s) = max_tasks" "st_owner s = owner_of cs" "nested cs" by (simp_all add: stats_ok_def)
  have own: "\<forall>i. st_owner t = Some i \<longrightarrow> i < length (st_tasks t)" if "length (st_tasks t) = max_tasks" "st_owner t = owner_of cs" for t
    using that inv(3) owner_of_bound by simp
  show ?thesis
  proof (cases x)
    case (Resume_begin f)
    obtain i s1 where slot: "slot_for f s = (i, s1)" by fastforce
    note 1 = slot_for_frame [OF inv(1) slot]
    have "charged (account now isr s1) \<le> charged s + unat (now - st_mark s)"
      using account_charged [OF own, of s1 now isr] 1 inv by simp
    moreover have "w' = (\<lparr>rs_prev = st_owner s, rs_self = i, rs_start = now\<rparr> # cs,
        (account now isr s1)\<lparr>st_tasks := (st_tasks (account now isr s1))[i := (st_tasks (account now isr s1) ! i)\<lparr>sl_resumes := sl_resumes (st_tasks (account now isr s1) ! i) + 1\<rparr>], st_owner := Some i\<rparr>)"
      using step by (simp add: w Resume_begin scope_begin_def slot Let_def)
    ultimately show ?thesis using 1 inv by (simp add: w stats_ok_def charged_mono_update)
  next
    case Resume_end
    then obtain c cs' where cs: "cs = c # cs'" using step by (auto simp: w split: list.splits)
    have "charged (account now isr s) \<le> charged s + unat (now - st_mark s)" using account_charged [OF own] inv by simp
    then show ?thesis using step inv by (auto simp: w Resume_end cs scope_end_def Let_def stats_ok_def charged_mono_update split: if_splits)
  next
    case (Name f n)
    then show ?thesis using step name_task_frame [OF inv(1), of f n] inv by (auto simp: w stats_ok_def)
  qed (use step account_charged [OF own, of s now isr] inv in
      \<open>auto simp: w idle_begin_def idle_end_def Let_def stats_ok_def\<close>)
qed

text \<open>A clock that does not run backwards: the readings of a run in order, from the mark on.\<close>

fun clock_ordered :: "u64 \<Rightarrow> (stats_op \<times> u64 \<times> u32) list \<Rightarrow> bool" where
  "clock_ordered m [] = True"
| "clock_ordered m ((x, now, isr) # xs) = (m \<le> now \<and> clock_ordered now xs)"

lemma clock_ordered_mono: "clock_ordered m xs \<Longrightarrow> m' \<le> m \<Longrightarrow> clock_ordered m' xs"
  by (cases xs) auto

lemma stats_run_ok:
  "stats_ok w \<Longrightarrow> clock_ordered (st_mark (snd w)) xs \<Longrightarrow> stats_run xs w = Some w' \<Longrightarrow>
    stats_ok w' \<and> st_mark (snd w) \<le> st_mark (snd w') \<and>
    charged (snd w') \<le> charged (snd w) + (unat (st_mark (snd w')) - unat (st_mark (snd w)))"
proof (induction xs arbitrary: w)
  case (Cons x xs)
  obtain k now isr where x: "x = (k, now, isr)" by (metis surj_pair)
  from Cons.prems(3) obtain w1 where w1: "stats_step (k, now, isr) w = Some w1" "stats_run xs w1 = Some w'"
    by (auto simp: x split: option.splits)
  note 1 = stats_step_ok [OF Cons.prems(1) w1(1)]
  from Cons.prems(2) have le: "st_mark (snd w) \<le> now" "clock_ordered now xs" by (simp_all add: x)
  have diff: "unat (now - st_mark (snd w)) = unat now - unat (st_mark (snd w))" using le by (simp add: unat_sub)
  have mark: "st_mark (snd w1) = now \<or> st_mark (snd w1) = st_mark (snd w)" using 1 by blast
  then have order: "clock_ordered (st_mark (snd w1)) xs" "st_mark (snd w) \<le> st_mark (snd w1)"
    using le clock_ordered_mono by auto
  note 2 = Cons.IH [OF _ order(1) w1(2)]
  have "charged (snd w1) \<le> charged (snd w) + (unat (st_mark (snd w1)) - unat (st_mark (snd w)))"
    using 1 diff by auto
  moreover have "unat (st_mark (snd w)) \<le> unat (st_mark (snd w1))" "unat (st_mark (snd w1)) \<le> unat (st_mark (snd w'))"
    using order(2) 1 2 by (simp_all add: word_le_nat_alt)
  ultimately show ?case using 1 2 order(2) by (auto simp: word_le_nat_alt)
qed auto

text \<open>
  (C32) The CPU's time is never charged twice, and nested resumes give it back. Over any resumes, idle times
  and reports with a clock that does not run backwards, all tasks' run cycles and the idle cycles
  together are at most the cycles that have passed, and the owner of the CPU is the innermost resume
  that has not returned, or the loop when there is none.
\<close>

theorem cycles_charged_once:
  assumes "stats_run xs ([], set_cycle_clock hz start isr stats_new) = Some (cs, s)" "clock_ordered start xs"
  shows "charged s \<le> unat (st_mark s) - unat start \<and> st_owner s = owner_of cs \<and> nested cs \<and> length (st_tasks s) = max_tasks"
proof -
  let ?w = "([], set_cycle_clock hz start isr stats_new) :: resume_scope list \<times> stats_state"
  have "stats_ok ?w" by (simp add: stats_ok_def set_cycle_clock_def stats_new_def max_tasks_def)
  moreover have "st_mark (snd ?w) = start" "charged (snd ?w) = 0"
    by (simp_all add: set_cycle_clock_def stats_new_def charged_def empty_slot_def sum_list_replicate)
  ultimately show ?thesis using stats_run_ok [OF _ _ assms(1)] assms(2) by (simp add: stats_ok_def)
qed

lemma replicate_8: "replicate 8 x = [x, x, x, x, x, x, x, x]" "replicate 7 x = [x, x, x, x, x, x, x]"
  by (simp_all add: eval_nat_numeral)

lemma cycles_charged_once_witness:
  "\<exists>s. stats_run [(Resume_begin 64, 10, 0), (Resume_end, 30, 5)] ([], set_cycle_clock 1000 0 0 stats_new) = Some ([], s) \<and>
     sl_run_cycles (st_tasks s ! 0) = 15 \<and> charged s \<le> 30"
proof -
  define c where "c = \<lparr>rs_prev = None, rs_self = 0, rs_start = 10\<rparr>"
  define s1 where "s1 = stats_new\<lparr>st_hz := 1000, st_mark := 10, st_owner := Some 0,
    st_tasks := empty_slot\<lparr>sl_frame := 64, sl_resumes := 1\<rparr> # replicate 7 empty_slot\<rparr>"
  define s2 where "s2 = snd (scope_end c 30 5 s1)"
  have "stats_step (Resume_begin 64, 10, 0) ([], set_cycle_clock 1000 0 0 stats_new) = Some ([c], s1)"
    by (simp add: scope_begin_def slot_for_def account_def set_cycle_clock_def stats_new_def empty_slot_def
      max_tasks_def replicate_8 c_def s1_def)
  moreover have "stats_step (Resume_end, 30, 5) ([c], s1) = Some ([], s2)" by (simp add: s2_def)
  ultimately have run: "stats_run [(Resume_begin 64, 10, 0), (Resume_end, 30, 5)] ([], set_cycle_clock 1000 0 0 stats_new) = Some ([], s2)"
    by (simp only: stats_run.simps option.case)
  have s2: "sl_run_cycles (st_tasks s2 ! 0) = 15" "st_mark s2 = 30"
    by (simp_all add: s2_def scope_end_def account_def Let_def c_def s1_def stats_new_def empty_slot_def)
  have "clock_ordered 0 [(Resume_begin 64, 10, 0), (Resume_end, 30, 5)]" by simp
  from cycles_charged_once [OF run this] s2(2) have "charged s2 \<le> 30" by simp
  with run s2 show ?thesis by blast
qed

text \<open>
  A status report is never too long: it is the 56-byte header, 28 bytes for each task slot in use and
  24 for each driver, at most 424 bytes, which fits the smallest transport buffer after the packet header.
\<close>

lemma length_copy_name [simp]: "length (copy_name cap n) = cap"
  by (simp add: copy_name_def length_copy_text split: option.split)

lemma length_records [simp]: "length (task_record t) = 28" "length (driver_record d) = 24"
  by (simp_all add: task_record_def driver_record_def)

lemma sum_list_const: "sum_list (map (\<lambda>x. c) xs) = length xs * (c :: nat)"
  by (induction xs) auto

theorem status_report_fits:
  assumes "length (st_tasks s) = max_tasks"
  shows "(let ts = reported s; ds = take max_drivers drivers;
       fill = stats_header (length ts) (length ds) now g s @ concat (map task_record ts) @ concat (map driver_record ds)
     in length fill = 56 + 28 * length ts + 24 * length ds \<and> length fill \<le> 424 \<and> header_size + length fill \<le> 496)"
proof -
  have "length (reported s) \<le> 8" using assms length_filter_le [of _ "st_tasks s"] by (simp add: reported_def max_tasks_def)
  moreover have "min (length drivers) 6 \<le> 6" by simp
  ultimately have "length (reported s) * 28 + min (length drivers) 6 * 24 \<le> 368" by linarith
  then show ?thesis
    by (simp add: Let_def stats_header_def length_concat comp_def sum_list_const header_size_def max_drivers_def)
qed

lemma status_report_fits_witness:
  "56 + 28 * length (reported stats_new) + 24 * length (take max_drivers ([] :: driver_stats list)) \<le> 424"
proof -
  have "length (st_tasks stats_new) = max_tasks" by (simp add: stats_new_def)
  note fits = status_report_fits [OF this, of "[]" 0 "\<lparr>ga_pool_used = 0, ga_pool_high_water = 0, ga_pool_capacity = 0,
    ga_dropped_resumes = 0, ga_queue_depth = 0, ga_queue_capacity = 0, ga_queue_high_water = 0, ga_trace_discarded = 0\<rparr>",
    unfolded Let_def]
  show ?thesis by (rule ord_eq_le_trans [OF conjunct1 [OF fits, symmetric] conjunct1 [OF conjunct2 [OF fits]]])
qed

end
