(* ===== verification/Runtime.thy ===== *)
theory Runtime
  imports Combinators Runtime_Stats Timer
begin

text \<open>
  The runtime of \<open>src/runtime.cpp\<close>: the pool of spawned tasks, the step that runs everything once and
  says when to be called again, and the schedule of the status report. What the step calls on the target
  (timer, I/O processor, network, trace flush) are parameters that act on the whole state.
\<close>

section \<open>Spawned tasks\<close>

definition max_active_tasks :: nat where
  "max_active_tasks = 16"

definition work_task_done :: u32 where
  "work_task_done = 16"

definition work_trace_flush :: u32 where
  "work_trace_flush = 8"

text \<open>
  \<open>tp_tasks\<close> is \<open>g_tasks\<close>. \<open>tp_stale\<close> records that a task object was used after the vector had erased
  elements under it.
\<close>

record 'r task_pool =
  tp_tasks :: "handle list"
  tp_heap :: "'r task_heap"
  tp_pending :: u32
  tp_stale :: bool

definition notify_work :: "u32 \<Rightarrow> 'r task_pool \<Rightarrow> 'r task_pool" where
  "notify_work flags p = p\<lparr>tp_pending := tp_pending p OR flags\<rparr>"

definition on_spawned_task_done :: "'r task_pool \<Rightarrow> 'r task_pool" where
  "on_spawned_task_done p = p\<lparr>tp_pending := tp_pending p OR work_task_done\<rparr>"

text \<open>The loop that erases finished tasks; erasing a task object destroys its frame.\<close>

fun erase_done :: "nat \<Rightarrow> handle list \<Rightarrow> 'r task_heap \<Rightarrow> handle list \<times> 'r task_heap" where
  "erase_done n [] s = ([], s)"
| "erase_done n (h # hs) s =
    (if task_done h s then erase_done n hs (destroy_frame n h s)
     else let (ks, s) = erase_done n hs s in (h # ks, s))"

definition clean_pool :: "nat \<Rightarrow> 'r task_pool \<Rightarrow> 'r task_pool" where
  "clean_pool n p = (let (ks, s) = erase_done n (tp_tasks p) (tp_heap p) in p\<lparr>tp_tasks := ks, tp_heap := s\<rparr>)"

text \<open>
  \<open>spawn\<close>; \<open>run\<close> is what starting the coroutine does, which may spawn again. \<open>resume()\<close> is a member of
  the task object at position \<open>k\<close> and reads its handle again when the coroutine has suspended. The cycles the resume costs are charged by \<open>Runtime_Stats\<close>.
\<close>

definition spawn :: "nat \<Rightarrow> (handle \<Rightarrow> 'r task_pool \<Rightarrow> 'r task_pool) \<Rightarrow> handle \<Rightarrow> 'r task_pool \<Rightarrow> bool \<times> 'r task_pool" where
  "spawn n run h p =
    (if task_done h (tp_heap p) then (False, p\<lparr>tp_heap := destroy_frame n h (tp_heap p)\<rparr>)
     else let p = (if length (tp_tasks p) \<ge> max_active_tasks then clean_pool n p else p) in
       if length (tp_tasks p) \<ge> max_active_tasks then (False, p\<lparr>tp_heap := destroy_frame n h (tp_heap p)\<rparr>)
       else let k = length (tp_tasks p);
                p = p\<lparr>tp_heap := set_completion_hook h Spawned_done (tp_heap p), tp_tasks := tp_tasks p @ [h]\<rparr>;
                p = run h p;
                p = (if k < length (tp_tasks p) then p else p\<lparr>tp_stale := True\<rparr>);
                p = (if task_done (last (tp_tasks p)) (tp_heap p) then on_spawned_task_done p else p)
            in (True, p))"

definition spawn_named :: "nat \<Rightarrow> (handle \<Rightarrow> 'r task_pool \<Rightarrow> 'r task_pool) \<Rightarrow> handle \<Rightarrow> u8 list option \<Rightarrow> 'r task_pool \<Rightarrow> stats_state \<Rightarrow>
    bool \<times> 'r task_pool \<times> stats_state" where
  "spawn_named n run h name p st =
    (let st = (case name of Some nm \<Rightarrow> if \<not> task_done h (tp_heap p) then name_task (of_nat h) nm st else st | None \<Rightarrow> st);
         (ok, p) = spawn n run h p
     in (ok, p, st))"

section \<open>The status report's schedule\<close>

definition next_status_due :: "u64 \<Rightarrow> u64 \<Rightarrow> u64 \<Rightarrow> u64" where
  "next_status_due period_us due now =
    (if due \<noteq> 0 \<and> now - due < period_us then due + period_us else now + period_us)"

text \<open>
  \<open>status_service_at\<close>: the events are drained every time, the report is sent when it is due and somebody
  listens. \<open>clock\<close> and \<open>isr\<close> are the cycle counters, \<open>drivers\<close> and \<open>g\<close> what the platform and the runtime report.
\<close>

record 'e trace_service =
  sv_initialized :: bool
  sv_period_ms :: u32
  sv_due_us :: u64
  sv_events :: events_state
  sv_stats :: stats_state
  sv_engine :: "'e ctf_engine"

definition status_service_at :: "bool \<Rightarrow> u64 \<Rightarrow> u32 \<Rightarrow> driver_stats list \<Rightarrow> runtime_gauges \<Rightarrow> u64 \<Rightarrow> 'e trace_service \<Rightarrow> 'e trace_service" where
  "status_service_at listening clock isr drivers g now v =
    (if \<not> sv_initialized v then v
     else let (ev, e) = events_service listening (st_hz (sv_stats v)) clock now (sv_events v) (sv_engine v);
              v = v\<lparr>sv_events := ev, sv_engine := e\<rparr> in
       if sv_period_ms v = 0 \<or> now < sv_due_us v then v
       else let v = v\<lparr>sv_due_us := next_status_due (ucast (sv_period_ms v) * 1000) (sv_due_us v) now\<rparr> in
         if listening then let (st, e) = emit_status now clock isr drivers g (sv_stats v) (sv_engine v)
              in v\<lparr>sv_stats := st, sv_engine := e\<rparr>
         else v)"

definition status_deadline_us :: "'e trace_service \<Rightarrow> u64" where
  "status_deadline_us v = (if sv_period_ms v \<noteq> 0 then sv_due_us v else kNever)"

section \<open>One step\<close>

text \<open>The state of the runtime with the rest of the program in \<open>rt_world\<close>, and what a step calls.\<close>

record ('r, 'w) runtime =
  rt_pool :: "'r task_pool"
  rt_ready_run :: u32
  rt_ready_run_max :: u32
  rt_steps :: u32
  rt_period_ms :: u32
  rt_status_due :: u64
  rt_world :: 'w

record ('r, 'w) step_calls =
  sc_service_due :: "('r, 'w) runtime \<Rightarrow> u64 \<times> ('r, 'w) runtime"
  sc_has_pending :: "('r, 'w) runtime \<Rightarrow> bool"
  sc_process :: "('r, 'w) runtime \<Rightarrow> ('r, 'w) runtime"
  sc_io_step :: "('r, 'w) runtime \<Rightarrow> ('r, 'w) runtime"
  sc_poll_network :: "('r, 'w) runtime \<Rightarrow> ('r, 'w) runtime"
  sc_trace_pending :: "('r, 'w) runtime \<Rightarrow> bool"
  sc_events_pending :: "('r, 'w) runtime \<Rightarrow> bool"
  sc_time :: "('r, 'w) runtime \<Rightarrow> u64 \<times> ('r, 'w) runtime"
  sc_flush :: "u64 \<Rightarrow> ('r, 'w) runtime \<Rightarrow> ('r, 'w) runtime"
  sc_status :: "u64 \<Rightarrow> ('r, 'w) runtime \<Rightarrow> ('r, 'w) runtime"

definition longest_ready_run :: "bool \<Rightarrow> ('r, 'w) runtime \<Rightarrow> u32 \<times> ('r, 'w) runtime" where
  "longest_ready_run reset r =
    (rt_ready_run_max r, if reset then r\<lparr>rt_ready_run_max := rt_ready_run r\<rparr> else r)"

text \<open>Steps 0 to 3: timer, ready coroutines, I/O processor, network; and 4, the snapshot of the work flags.\<close>

definition step_pump :: "('r, 'w) step_calls \<Rightarrow> ('r, 'w) runtime \<Rightarrow> u32 \<times> ('r, 'w) runtime" where
  "step_pump c r =
    (let r = snd (sc_service_due c r);
         r = (if sc_has_pending c r then sc_process c r else r);
         r = sc_poll_network c (sc_io_step c r);
         work = tp_pending (rt_pool r)
     in (work, r\<lparr>rt_pool := (rt_pool r)\<lparr>tp_pending := 0\<rparr>\<rparr>))"

text \<open>Step 5: the trace is flushed and the status serviced, with one reading of the time.\<close>

definition step_trace :: "('r, 'w) step_calls \<Rightarrow> u32 \<Rightarrow> ('r, 'w) runtime \<Rightarrow> ('r, 'w) runtime" where
  "step_trace c work r =
    (let r = r\<lparr>rt_steps := rt_steps r + 1\<rparr>;
         trace = (sc_trace_pending c r \<or> work AND work_trace_flush \<noteq> 0);
         events = sc_events_pending c r;
         status = (rt_period_ms r \<noteq> 0 \<and> (rt_steps r AND 0x3F = 1 \<or> \<not> sc_has_pending c r)) in
     if trace \<or> events \<or> status
     then let (now, r) = sc_time c r; r = (if trace then sc_flush c now r else r) in sc_status c now r
     else r)"

text \<open>Step 6: finished tasks leave the pool.\<close>

definition step_clean :: "nat \<Rightarrow> u32 \<Rightarrow> ('r, 'w) runtime \<Rightarrow> ('r, 'w) runtime" where
  "step_clean n work r =
    (if work AND work_task_done \<noteq> 0 \<and> tp_tasks (rt_pool r) \<noteq> [] then r\<lparr>rt_pool := clean_pool n (rt_pool r)\<rparr> else r)"

text \<open>Step 7: when to call again.\<close>

definition step_answer :: "('r, 'w) step_calls \<Rightarrow> ('r, 'w) runtime \<Rightarrow> u64 \<times> ('r, 'w) runtime" where
  "step_answer c r =
    (let (timer_due, r) = sc_service_due c r in
     if sc_has_pending c r
     then let run = rt_ready_run r + 1; r = r\<lparr>rt_ready_run := run\<rparr>
          in (kNow, if run > rt_ready_run_max r then r\<lparr>rt_ready_run_max := run\<rparr> else r)
     else let r = r\<lparr>rt_ready_run := 0\<rparr>; status_due = (if rt_period_ms r \<noteq> 0 then rt_status_due r else kNever)
          in (if timer_due < status_due then timer_due else status_due, r))"

definition step :: "nat \<Rightarrow> ('r, 'w) step_calls \<Rightarrow> ('r, 'w) runtime \<Rightarrow> u64 \<times> ('r, 'w) runtime" where
  "step n c r = (let (work, r) = step_pump c r in step_answer c (step_clean n work (step_trace c work r)))"

text \<open>
  \<open>run\<close>: the main task is started and the runtime steps until it is done, idling only when nothing is
  ready; then one last step. The fuel bounds the number of steps.
\<close>

fun run_loop :: "nat \<Rightarrow> nat \<Rightarrow> ('r, 'w) step_calls \<Rightarrow> (('r, 'w) runtime \<Rightarrow> ('r, 'w) runtime) \<Rightarrow> handle \<Rightarrow> ('r, 'w) runtime \<Rightarrow> ('r, 'w) runtime option" where
  "run_loop 0 n c idle main_task r = None"
| "run_loop (Suc f) n c idle main_task r =
    (if task_done main_task (tp_heap (rt_pool r)) then Some (snd (step n c r))
     else let r = snd (step n c r)
          in run_loop f n c idle main_task (if \<not> sc_has_pending c r then idle r else r))"

section \<open>The pool of spawned tasks\<close>

lemma heap_ok_perm:
  assumes ok: "heap_ok m rank os s" and perm: "mset os = mset os'"
  shows "heap_ok m rank os' s"
proof (rule heap_okI)
  note ok' = heap_okD [OF ok]
  have set_eq: "set (os' @ owned s) = set (os @ owned s)" using mset_eq_setD [OF perm] by simp
  show "distinct (os' @ owned s)"
    by (rule distinct_mset_eq [OF _ ok'(2)]) (simp add: perm)
  show "fst ` set (th_frames s) = set (os' @ owned s) \<union> {h. \<exists>p. (h, p) \<in> set (th_frames s) \<and> pr_detached p}"
    unfolding set_eq by (rule ok'(5))
  fix h p assume "(h, p) \<in> set (th_frames s)"
  from heap_ok_frame [OF ok this]
  show "h \<noteq> null_handle \<and> rank h < m \<and> (\<forall>c \<in> set (pr_locals p). rank c < rank h) \<and>
      (pr_detached p \<longrightarrow> h \<notin> set (os' @ owned s) \<and> pr_started p \<and> \<not> pr_done p) \<and>
      (pr_done p \<longrightarrow> pr_locals p = [] \<and> h \<notin> set (th_ready s))"
    unfolding set_eq .
qed (use heap_okD [OF ok] in simp_all)

text \<open>Destroying a finished task leaves every other promise as it was.\<close>

lemma destroy_done:
  assumes ok: "heap_ok m rank os s" and h: "h \<in> set os" and fin: "pr_done (promise_of h s)" and n: "m \<le> n" "0 < m"
  shows "heap_ok m rank (remove1 h os) (destroy_frame n h s)" "k \<noteq> h \<Longrightarrow> promise_of k (destroy_frame n h s) = promise_of k s"
    "th_ready (destroy_frame n h s) = th_ready s"
proof -
  have live: "live h s" by (rule owned_live [OF ok]) (use h in simp)
  from heap_ok_frame [OF ok live_frame [OF live]] fin n
  have facts: "h \<noteq> null_handle" "rank h < n" "pr_locals (promise_of h s) = []" "h \<notin> set (th_ready s)" by auto
  have "heap_ok m rank (h # remove1 h os) s" by (rule heap_ok_perm [OF ok]) (use h in simp)
  then show "heap_ok m rank (remove1 h os) (destroy_frame n h s)" by (rule destroy_frame_ok) (rule facts(2))
  obtain n' where "n = Suc n'" using n by (cases n) auto
  then have d: "destroy_frame n h s = purge_ready h (free_frame h s)"
    using facts live by simp
  have "map_of (filter (\<lambda>(k, p). k \<noteq> h) fs) k = map_of fs k" if "k \<noteq> h" for fs :: "(handle \<times> 'a promise) list"
    using that by (induction fs) auto
  then show "k \<noteq> h \<Longrightarrow> promise_of k (destroy_frame n h s) = promise_of k s"
    unfolding d by (simp add: promise_of_def free_frame_def)
  show "th_ready (destroy_frame n h s) = th_ready s"
    unfolding d using facts(4) by (simp add: purge_ready_def filter_id_conv) (metis filter_True)
qed

lemma erase_done_ok:
  "heap_ok m rank (hs @ os) s \<Longrightarrow> m \<le> n \<Longrightarrow>
    fst (erase_done n hs s) = filter (\<lambda>h. \<not> pr_done (promise_of h s)) hs \<and>
    heap_ok m rank (fst (erase_done n hs s) @ os) (snd (erase_done n hs s)) \<and>
    (\<forall>k. k \<notin> set hs \<longrightarrow> promise_of k (snd (erase_done n hs s)) = promise_of k s)"
proof (induction hs arbitrary: s os)
  case (Cons h hs)
  have live: "live h s" by (rule owned_live [OF Cons.prems(1)]) simp
  note frame = heap_ok_frame [OF Cons.prems(1) live_frame [OF live]]
  have dist: "distinct (h # hs)" using heap_okD(2) [OF Cons.prems(1)] by simp
  show ?case
  proof (cases "pr_done (promise_of h s)")
    case True
    have m: "0 < m" using frame by (cases m) auto
    note d = destroy_done [OF Cons.prems(1) _ True Cons.prems(2) m]
    have ok: "heap_ok m rank (hs @ os) (destroy_frame n h s)" using d(1) by simp
    have "promise_of k (destroy_frame n h s) = promise_of k s" if "k \<in> set hs" for k
    proof -
      have "k \<noteq> h" using that dist by auto
      then show ?thesis by (rule d(2) [rotated]) simp
    qed
    then have "filter (\<lambda>k. \<not> pr_done (promise_of k (destroy_frame n h s))) hs = filter (\<lambda>k. \<not> pr_done (promise_of k s)) hs"
      by (intro filter_cong) auto
    moreover note 1 = Cons.IH [OF ok Cons.prems(2)]
    moreover have "\<forall>k. k \<notin> set (h # hs) \<longrightarrow> promise_of k (snd (erase_done n hs (destroy_frame n h s))) = promise_of k s"
      using 1 d(2) by simp
    moreover have "erase_done n (h # hs) s = erase_done n hs (destroy_frame n h s)" using True by (simp add: task_done_def)
    moreover have "filter (\<lambda>k. \<not> pr_done (promise_of k s)) (h # hs) = filter (\<lambda>k. \<not> pr_done (promise_of k s)) hs"
      using True by simp
    ultimately show ?thesis by (elim conjE, intro conjI) (simp_all only:)
  next
    case False
    have "heap_ok m rank (hs @ h # os) s" by (rule heap_ok_perm [OF Cons.prems(1)]) simp
    note 1 = Cons.IH [OF this Cons.prems(2)]
    have "heap_ok m rank (h # fst (erase_done n hs s) @ os) (snd (erase_done n hs s))"
      by (rule heap_ok_perm [OF 1 [THEN conjunct2, THEN conjunct1]]) simp
    moreover have "erase_done n (h # hs) s = (h # fst (erase_done n hs s), snd (erase_done n hs s))"
      using False frame by (simp add: task_done_def case_prod_beta)
    moreover have "\<forall>k. k \<notin> set (h # hs) \<longrightarrow> promise_of k (snd (erase_done n hs s)) = promise_of k s"
      using 1 [THEN conjunct2, THEN conjunct2] by simp
    ultimately show ?thesis using 1 [THEN conjunct1] False by simp
  qed
qed simp

lemma destroy_frame_gone: "live h s \<Longrightarrow> h \<noteq> null_handle \<Longrightarrow> \<not> live h (destroy_frame (Suc n) h s)"
  by (auto simp: live_def Let_def)

text \<open>
  \<open>spawn\<close> refuses a task only when it is already finished or sixteen unfinished tasks hold the pool, and
  then the task's frame is freed; finished tasks make room. The tasks it keeps are the unfinished ones in
  their order, and nothing else in memory changes hands.
\<close>

theorem spawn_refuses_only_when_full:
  assumes ok: "heap_ok m rank (tp_tasks p @ h # os) (tp_heap p)" and n: "m \<le> n"
  shows "(fst (spawn n run h p) \<longleftrightarrow> \<not> task_done h (tp_heap p) \<and>
      length (filter (\<lambda>k. \<not> task_done k (tp_heap p)) (tp_tasks p)) < max_active_tasks) \<and>
    (\<not> fst (spawn n run h p) \<longrightarrow>
      heap_ok m rank (tp_tasks (snd (spawn n run h p)) @ os) (tp_heap (snd (spawn n run h p))) \<and>
      \<not> live h (tp_heap (snd (spawn n run h p))) \<and>
      (task_done h (tp_heap p) \<or> tp_tasks (snd (spawn n run h p)) = filter (\<lambda>k. \<not> task_done k (tp_heap p)) (tp_tasks p)))"
proof -
  let ?s = "tp_heap p"
  have live: "live h ?s" by (rule owned_live [OF ok]) simp
  from heap_ok_frame [OF ok live_frame [OF live]] have h: "h \<noteq> null_handle" "0 < m" by auto
  then obtain n' where n': "n = Suc n'" using n by (cases n) auto
  have "k \<noteq> null_handle" if "k \<in> set (tp_tasks p)" for k
    using heap_ok_frame [OF ok live_frame [OF owned_live [OF ok, of k]]] that by simp
  then have filt: "filter (\<lambda>k. \<not> task_done k ?s) (tp_tasks p) = filter (\<lambda>k. \<not> pr_done (promise_of k ?s)) (tp_tasks p)"
    by (intro filter_cong) (auto simp: task_done_def)
  define q where "q = (if length (tp_tasks p) \<ge> max_active_tasks then clean_pool n p else p)"
  define c where "c = erase_done n (tp_tasks p) ?s"
  note clean = erase_done_ok [OF ok n, folded c_def]
  have cl: "clean_pool n p = p\<lparr>tp_tasks := fst c, tp_heap := snd c\<rparr>"
    by (simp add: clean_pool_def c_def [symmetric] split: prod.split)
  have drop: "heap_ok m rank (ts @ os) (destroy_frame n h s) \<and> \<not> live h (destroy_frame n h s)"
    if "heap_ok m rank (ts @ h # os) s" for ts s
  proof -
    have l: "live h s" by (rule owned_live [OF that]) simp
    have "heap_ok m rank (h # ts @ os) s" by (rule heap_ok_perm [OF that]) simp
    moreover have "rank h < n" using heap_ok_frame [OF that live_frame [OF l]] n by simp
    ultimately show ?thesis using destroy_frame_ok [of m rank h "ts @ os" s n] destroy_frame_gone [OF l h(1), of n'] n' by simp
  qed
  show ?thesis
  proof (cases "task_done h ?s")
    case True
    then show ?thesis using drop [OF ok] by (simp add: spawn_def)
  next
    case going: False
    show ?thesis
    proof (cases "length (tp_tasks q) \<ge> max_active_tasks")
      case True
      then have full: "length (tp_tasks p) \<ge> max_active_tasks" by (auto simp: q_def split: if_splits)
      then have q: "q = p\<lparr>tp_tasks := fst c, tp_heap := snd c\<rparr>" by (simp add: q_def cl)
      have "spawn n run h p = (False, q\<lparr>tp_heap := destroy_frame n h (tp_heap q)\<rparr>)"
        using going True by (simp add: spawn_def q_def [symmetric])
      moreover have "heap_ok m rank (fst c @ os) (destroy_frame n h (snd c)) \<and> \<not> live h (destroy_frame n h (snd c))"
        by (rule drop) (use clean in blast)
      moreover have "fst c = filter (\<lambda>k. \<not> task_done k ?s) (tp_tasks p)"
        using clean unfolding filt by blast
      ultimately show ?thesis using going True by (simp add: q del: destroy_frame.simps)
    next
      case False
      then have "fst (spawn n run h p)" using going by (simp add: spawn_def q_def [symmetric] Let_def)
      moreover have "length (filter (\<lambda>k. \<not> task_done k ?s) (tp_tasks p)) < max_active_tasks"
      proof (cases "length (tp_tasks p) \<ge> max_active_tasks")
        case True
        moreover have "fst c = filter (\<lambda>k. \<not> task_done k ?s) (tp_tasks p)"
          using clean unfolding filt by blast
        ultimately show ?thesis using False by (simp add: q_def cl)
      next
        case False
        then show ?thesis using length_filter_le [of "\<lambda>k. \<not> task_done k ?s" "tp_tasks p"] by linarith
      qed
      ultimately show ?thesis using going by simp
    qed
  qed
qed

definition pool_example :: "nat task_pool" where
  "pool_example = \<lparr>tp_tasks = [1, 2, 3, 4, 5, 6, 7, 8, 9, 10, 11, 12, 13, 14, 15],
     tp_heap = \<lparr>th_frames = map (\<lambda>k. (k, new_promise\<lparr>pr_started := k \<le> 15, pr_done := k \<le> 2\<rparr>))
         [1, 2, 3, 4, 5, 6, 7, 8, 9, 10, 11, 12, 13, 14, 15, 16, 17],
       th_ready = [], th_roots = [], th_freed = [], th_dangling = False\<rparr>,
     tp_pending = 0, tp_stale = False\<rparr>"

lemma pool_example_ok: "heap_ok 1 (\<lambda>h. 0) (tp_tasks pool_example @ [16, 17]) (tp_heap pool_example)"
  by (simp add: heap_ok_def pool_example_def owned_def new_promise_def) auto

lemma spawn_refuses_only_when_full_witness:
  "fst (spawn 1 (\<lambda>h p. p) 16 pool_example) \<and>
   \<not> fst (spawn 1 (\<lambda>h p. p) 1 (pool_example\<lparr>tp_tasks := [2, 3]\<rparr>))"
proof -
  have fin: "task_done k (tp_heap pool_example) \<longleftrightarrow> k \<le> 2" if "k \<in> set (tp_tasks pool_example @ [16, 17])" for k
    using that by (auto simp: pool_example_def task_done_def promise_of_def new_promise_def)
  have "heap_ok 1 (\<lambda>h. 0) (tp_tasks pool_example @ 16 # [17]) (tp_heap pool_example)"
    using pool_example_ok by simp
  note 1 = spawn_refuses_only_when_full [OF this order_refl, of "\<lambda>h p. p"]
  have "length (filter (\<lambda>k. \<not> task_done k (tp_heap pool_example)) (tp_tasks pool_example)) =
      length (filter (\<lambda>k. \<not> k \<le> 2) (tp_tasks pool_example))"
    by (intro arg_cong [of _ _ length] filter_cong) (simp_all add: fin)
  then show ?thesis using 1 fin [of 16] by (simp add: pool_example_def max_active_tasks_def spawn_def task_done_def promise_of_def new_promise_def)
qed

text \<open>
  A coroutine that spawns a task while it is being spawned can find the pool full of finished tasks; the
  inner \<open>spawn\<close> erases them, which moves the outer task object, and the outer \<open>resume()\<close> then reads its
  handle at a position past the end of the vector: a moved-from object with a null handle.
\<close>

theorem spawn_inside_spawn_uses_stale_task:
  "let p' = snd (spawn 1 (\<lambda>h p. snd (spawn 1 (\<lambda>h p. p) 17 p)) 16 pool_example)
   in tp_stale p' \<and> tp_tasks p' = [3, 4, 5, 6, 7, 8, 9, 10, 11, 12, 13, 14, 15, 16, 17]"
  by (simp add: spawn_def pool_example_def max_active_tasks_def task_done_def promise_of_def new_promise_def clean_pool_def
    set_completion_hook_def set_promise_def live_def purge_ready_def free_frame_def Let_def)

section \<open>When to call again\<close>

text \<open>
  Whatever timer, I/O processor and network do, \<open>step\<close> asks to be called at once exactly when a coroutine
  is ready at its end, and otherwise at the earlier of the timer's and the status report's deadline; the
  longest run of busy steps is never less than the current one.
\<close>

theorem step_says_when_to_call:
  assumes law: "\<And>r x y. sc_has_pending c (r\<lparr>rt_ready_run := x, rt_ready_run_max := y\<rparr>) = sc_has_pending c r"
  shows "let r1 = (let (work, r) = step_pump c r in step_clean n work (step_trace c work r));
             (timer_due, r2) = sc_service_due c r1; (due, r') = step n c r in
    sc_has_pending c r' = sc_has_pending c r2 \<and>
    due = (if sc_has_pending c r' then kNow
           else min timer_due (if rt_period_ms r' \<noteq> 0 then rt_status_due r' else kNever)) \<and>
    rt_ready_run r' = (if sc_has_pending c r' then rt_ready_run r2 + 1 else 0) \<and>
    (rt_ready_run r2 \<le> rt_ready_run_max r2 \<longrightarrow>
      rt_ready_run r' \<le> rt_ready_run_max r' \<and> rt_ready_run_max r2 \<le> rt_ready_run_max r')"
proof -
  have 1: "sc_has_pending c (r\<lparr>rt_ready_run := x\<rparr>) = sc_has_pending c r" for r x
    using law [where r = r and x = x and y = "rt_ready_run_max r"] by simp
  show ?thesis
    by (simp add: step_def step_answer_def case_prod_beta Let_def 1 law min_def not_less)
      (auto simp: not_less not_le)
qed

text \<open>
  The status report: while the clock runs on, the next report is later than now and at most one period
  away, and a report sent in time leaves the reports on the grid of whole periods.
\<close>

theorem status_schedule_advances:
  assumes "0 < period" "unat now + unat period < 2 ^ 64" "due \<le> now"
  shows "now < next_status_due period due now" "next_status_due period due now - now \<le> period"
    "due \<noteq> 0 \<Longrightarrow> now - due < period \<Longrightarrow> next_status_due period due now = due + period"
proof -
  have diff: "unat (now - due) = unat now - unat due" using assms(3) by (simp add: unat_sub_if_size word_le_nat_alt)
  have np: "unat (now + period) = unat now + unat period" using assms(2) by (simp add: unat_add_lem [THEN iffD1])
  have dp: "unat (due + period) = unat due + unat period"
    using assms(2,3) by (intro unat_add_lem [THEN iffD1]) (simp add: word_le_nat_alt)
  have pos: "0 < unat period" using assms(1) by (simp add: word_less_nat_alt)
  show "now < next_status_due period due now"
    using diff np dp pos by (auto simp: next_status_due_def word_less_nat_alt)
  have "due + period - now \<le> period" if "now - due < period"
  proof -
    have "unat (due + period - now) = unat due + unat period - unat now"
      using that diff dp by (simp add: unat_sub_if_size word_less_nat_alt)
    then show ?thesis using assms(3) by (simp add: word_le_nat_alt)
  qed
  then show "next_status_due period due now - now \<le> period" by (simp add: next_status_due_def)
  show "due \<noteq> 0 \<Longrightarrow> now - due < period \<Longrightarrow> next_status_due period due now = due + period"
    by (simp add: next_status_due_def)
qed
definition example_calls :: "(nat, bool) step_calls" where
  "example_calls = \<lparr>sc_service_due = \<lambda>r. (7, r), sc_has_pending = rt_world, sc_process = \<lambda>r. r\<lparr>rt_world := False\<rparr>,
     sc_io_step = \<lambda>r. r, sc_poll_network = \<lambda>r. r, sc_trace_pending = \<lambda>r. False, sc_events_pending = \<lambda>r. False,
     sc_time = \<lambda>r. (5, r), sc_flush = \<lambda>t r. r, sc_status = \<lambda>t r. r\<lparr>rt_world := True\<rparr>\<rparr>"

definition example_runtime :: "(nat, bool) runtime" where
  "example_runtime = \<lparr>rt_pool = pool_example, rt_ready_run = 0, rt_ready_run_max = 0, rt_steps = 1,
     rt_period_ms = 0, rt_status_due = 0, rt_world = True\<rparr>"

lemma step_says_when_to_call_witness:
  "fst (step 1 example_calls example_runtime) = 7 \<and>
   fst (step 1 example_calls (example_runtime\<lparr>rt_period_ms := 1, rt_status_due := 3\<rparr>)) = kNow \<and>
   rt_ready_run_max (snd (step 1 example_calls (example_runtime\<lparr>rt_period_ms := 1\<rparr>))) = 1"
proof -
  have law: "sc_has_pending example_calls (r\<lparr>rt_ready_run := x, rt_ready_run_max := y\<rparr>) = sc_has_pending example_calls r" for r x y
    by (simp add: example_calls_def)
  note defs = step_def step_pump_def step_trace_def step_clean_def step_answer_def example_calls_def example_runtime_def
    pool_example_def kNow_def kNever_def Let_def
  show ?thesis
    using step_says_when_to_call [OF law, where n = 1 and r = example_runtime]
      step_says_when_to_call [OF law, where n = 1 and r = "example_runtime\<lparr>rt_period_ms := 1, rt_status_due := 3\<rparr>"]
    by (simp add: defs)
qed

text \<open>\<open>run\<close> returns as soon as the main task is done, after one more step.\<close>

definition run_pass :: "nat \<Rightarrow> ('r, 'w) step_calls \<Rightarrow> (('r, 'w) runtime \<Rightarrow> ('r, 'w) runtime) \<Rightarrow> ('r, 'w) runtime \<Rightarrow> ('r, 'w) runtime" where
  "run_pass n c idle r = (let r = snd (step n c r) in if \<not> sc_has_pending c r then idle r else r)"

lemma run_ends_with_main_task:
  assumes "\<And>j. j < k \<Longrightarrow> \<not> task_done h (tp_heap (rt_pool ((run_pass n c idle ^^ j) r)))"
    "task_done h (tp_heap (rt_pool ((run_pass n c idle ^^ k) r)))" "k < f"
  shows "run_loop f n c idle h r = Some (snd (step n c ((run_pass n c idle ^^ k) r)))"
  using assms
proof (induction k arbitrary: r f)
  case 0
  then show ?case by (cases f) auto
next
  case (Suc k)
  then obtain f' where f: "f = Suc f'" by (cases f) auto
  have "\<not> task_done h (tp_heap (rt_pool r))" using Suc.prems(1) [of 0] by simp
  then have "run_loop f n c idle h r = run_loop f' n c idle h (run_pass n c idle r)"
    by (simp add: f run_pass_def Let_def)
  also have "\<dots> = Some (snd (step n c ((run_pass n c idle ^^ k) (run_pass n c idle r))))"
  proof (rule Suc.IH)
    fix j assume "j < k"
    then show "\<not> task_done h (tp_heap (rt_pool ((run_pass n c idle ^^ j) (run_pass n c idle r))))"
      using Suc.prems(1) [of "Suc j"] by (simp add: funpow_swap1)
  qed (use Suc.prems f in \<open>simp_all add: funpow_swap1\<close>)
  finally show ?case by (simp add: funpow_swap1)
qed

end
