(* ===== verification/Io_Engine.thy ===== *)
theory Io_Engine
  imports Tag_Engine
begin

text \<open>
  The shared I/O processor engine of \<open>include/abstractx/hal/io_engine.hpp\<close>: it decodes request packets,
  runs the automatic channels that a trigger edge starts, and the bridge transfers that requests start,
  and frames the completions. The back end (\<open>IIoBackend\<close>: the bus, its interrupts, the GPIO and serial
  ports) and the ring towards the application are parameters that act on a state of their own.
\<close>

section \<open>Channels, slots, transfers\<close>

text \<open>
  \<open>BusType\<close> and \<open>Channel\<close> are stored from bytes that a packet carries, so they are bytes here.
\<close>

definition bus_spi :: u8 where
  "bus_spi = 0"

definition bus_i2c :: u8 where
  "bus_i2c = 1"

datatype trigger_mode = Trig_none | Trig_gpio_edge | Trig_timer

record auto_channel =
  ac_channel_id :: u8
  ac_auto_mode :: bool
  ac_trigger_mode :: trigger_mode
  ac_trigger_pin :: u32
  ac_trigger_rising :: bool
  ac_timer_period_us :: u32
  ac_bus_type :: u8
  ac_bus_index :: u8
  ac_bus_speed_hz :: u32
  ac_cs_pin :: u32
  ac_tx_cmd :: "u8 list"
  ac_tx_len :: u8
  ac_rx_len :: u16
  ac_tlp_channel :: u8
  ac_tlp_tag :: u8

definition auto_channel_default :: auto_channel where
  "auto_channel_default = \<lparr>ac_channel_id = 0, ac_auto_mode = True, ac_trigger_mode = Trig_gpio_edge, ac_trigger_pin = 0,
     ac_trigger_rising = True, ac_timer_period_us = 0, ac_bus_type = bus_spi, ac_bus_index = 0, ac_bus_speed_hz = 20000000,
     ac_cs_pin = 0, ac_tx_cmd = replicate 8 0, ac_tx_len = 1, ac_rx_len = 15, ac_tlp_channel = 2, ac_tlp_tag = 1\<rparr>"

text \<open>
  \<open>au_busy\<close> covers a whole transfer; \<open>au_pending\<close> is a transfer that waits for its bus; \<open>au_snap\<close> is the
  configuration the transfer was started with.
\<close>

record auto_state =
  au_cfg :: auto_channel
  au_snap :: auto_channel
  au_busy :: bool
  au_pending :: bool
  au_in_flight :: bool
  au_ts_ns :: u64
  au_cmd_len :: nat
  au_seq :: u16
  au_tx :: "u8 list"
  au_rx :: "u8 list"

record bridge_slot =
  bg_in_use :: bool
  bg_in_flight :: bool
  bg_bus :: u8
  bg_bus_index :: u8
  bg_tag :: u8
  bg_channel :: u8
  bg_rx_len :: nat
  bg_tx :: "u8 list"
  bg_rx :: "u8 list"

definition kMaxChannels :: nat where "kMaxChannels = 4"
definition kBridgeSlots :: nat where "kBridgeSlots = 8"
definition kAutoCmdMax :: nat where "kAutoCmdMax = 8"
definition kAutoXferMax :: nat where "kAutoXferMax = 64"
definition kSpiBridgeMax :: nat where "kSpiBridgeMax = 36"
definition kI2cTxMax :: nat where "kI2cTxMax = 32"
definition kI2cRxMax :: nat where "kI2cRxMax = 36"

definition auto_state_new :: auto_state where
  "auto_state_new = \<lparr>au_cfg = auto_channel_default, au_snap = auto_channel_default, au_busy = False, au_pending = False,
     au_in_flight = False, au_ts_ns = 0, au_cmd_len = 0, au_seq = 0, au_tx = replicate kAutoXferMax 0, au_rx = replicate kAutoXferMax 0\<rparr>"

definition bridge_slot_new :: bridge_slot where
  "bridge_slot_new = \<lparr>bg_in_use = False, bg_in_flight = False, bg_bus = bus_spi, bg_bus_index = 0, bg_tag = 0, bg_channel = 1,
     bg_rx_len = 0, bg_tx = replicate kSpiBridgeMax 0, bg_rx = replicate kSpiBridgeMax 0\<rparr>"

record io_result =
  res_ok :: bool
  res_transferred :: nat
  res_duration_us :: u32
  res_timestamp_ns :: u64

text \<open>A transfer carries the bytes to send, the size of the receive buffer and whose \<open>on_done\<close> it calls.\<close>

datatype transfer_owner = Auto_channel nat | Bridge nat

record io_transfer =
  xf_bus :: u8
  xf_bus_index :: u8
  xf_device :: u8
  xf_tx :: "u8 list"
  xf_rx_len :: nat
  xf_done :: transfer_owner

text \<open>
  What \<open>start_transfer\<close> does: it refuses, or it starts and \<open>done\<close> comes later, or \<open>done\<close> is called before it
  has returned (by the back end itself or by the completion interrupt) with the bytes received.
\<close>

datatype start_answer = Refused | Started | Completed io_result "u8 list"

record 'e io_backend =
  be_init_channel :: "auto_channel \<Rightarrow> 'e \<Rightarrow> bool \<times> 'e"
  be_start_transfer :: "io_transfer \<Rightarrow> 'e \<Rightarrow> start_answer \<times> 'e"
  be_gpio :: "gpio_req_header \<Rightarrow> 'e \<Rightarrow> bool \<times> u8 \<times> 'e"
  be_read_reg :: "u32 \<Rightarrow> 'e \<Rightarrow> u32 \<times> 'e"
  be_write_reg :: "u32 \<Rightarrow> u32 \<Rightarrow> 'e \<Rightarrow> 'e"
  be_serial_xfer :: "u8 \<Rightarrow> u32 \<Rightarrow> u8 list \<Rightarrow> nat \<Rightarrow> 'e \<Rightarrow> u8 list \<times> 'e"
  be_notify_host :: "'e \<Rightarrow> 'e"
  be_poll_events :: "int \<Rightarrow> 'e \<Rightarrow> int \<times> 'e"
  be_idle_wait :: "'e \<Rightarrow> 'e"
  be_now_ns :: "'e \<Rightarrow> u64"
  be_on_stop :: "'e \<Rightarrow> 'e"
  be_push_ingress :: "tlp \<Rightarrow> 'e \<Rightarrow> bool \<times> 'e"
  be_on_rx_pushed :: "'e \<Rightarrow> 'e"

text \<open>
  \<open>ie_emitted\<close> records every packet given to the ingress ring and whether the ring took it; \<open>ie_too_deep\<close>
  is set where a completion inside a completion exceeds the bound on nesting.
\<close>

record 'e io_engine =
  ie_configured :: bool
  ie_running :: bool
  ie_num_channels :: nat
  ie_autos :: "auto_state list"
  ie_slots :: "bridge_slot list"
  ie_overruns :: u32
  ie_dropped :: u32
  ie_failed :: u32
  ie_has_ingress :: bool
  ie_env :: 'e
  ie_emitted :: "(tlp \<times> bool) list"
  ie_too_deep :: bool

definition io_engine_new :: "bool \<Rightarrow> 'e \<Rightarrow> 'e io_engine" where
  "io_engine_new ingress env = \<lparr>ie_configured = False, ie_running = False, ie_num_channels = 0,
     ie_autos = replicate kMaxChannels auto_state_new, ie_slots = replicate kBridgeSlots bridge_slot_new,
     ie_overruns = 0, ie_dropped = 0, ie_failed = 0, ie_has_ingress = ingress, ie_env = env, ie_emitted = [], ie_too_deep = False\<rparr>"

definition upd_auto :: "nat \<Rightarrow> (auto_state \<Rightarrow> auto_state) \<Rightarrow> 'e io_engine \<Rightarrow> 'e io_engine" where
  "upd_auto i f e = e\<lparr>ie_autos := (ie_autos e)[i := f (ie_autos e ! i)]\<rparr>"

definition upd_slot :: "nat \<Rightarrow> (bridge_slot \<Rightarrow> bridge_slot) \<Rightarrow> 'e io_engine \<Rightarrow> 'e io_engine" where
  "upd_slot k f e = e\<lparr>ie_slots := (ie_slots e)[k := f (ie_slots e ! k)]\<rparr>"

section \<open>Configuration\<close>

fun configure_loop :: "'e io_backend \<Rightarrow> auto_channel list \<Rightarrow> 'e io_engine \<Rightarrow> bool \<times> 'e io_engine" where
  "configure_loop B [] e = (True, e)"
| "configure_loop B (c # cs) e =
    (if ie_num_channels e \<ge> kMaxChannels then (True, e)
     else let e = upd_auto (ie_num_channels e) (\<lambda>a. a\<lparr>au_cfg := c, au_busy := False, au_pending := False, au_in_flight := False\<rparr>) e;
              (ok, env) = be_init_channel B c (ie_env e); e = e\<lparr>ie_env := env\<rparr>
          in if \<not> ok then (False, e)
             else configure_loop B cs (e\<lparr>ie_num_channels := ie_num_channels e + 1\<rparr>))"

definition io_configure :: "'e io_backend \<Rightarrow> auto_channel list \<Rightarrow> bool \<Rightarrow> 'e io_engine \<Rightarrow> bool \<times> 'e io_engine" where
  "io_configure B channels ingress e =
    (let (ok, e) = configure_loop B channels (e\<lparr>ie_has_ingress := ingress, ie_configured := False, ie_num_channels := 0\<rparr>)
     in (ok, if ok then e\<lparr>ie_configured := True\<rparr> else e))"

definition io_start :: "'e io_engine \<Rightarrow> bool \<times> 'e io_engine" where
  "io_start e = (if \<not> ie_configured e then (False, e) else (True, e\<lparr>ie_running := True\<rparr>))"

definition io_stop :: "'e io_backend \<Rightarrow> 'e io_engine \<Rightarrow> 'e io_engine" where
  "io_stop B e = (if ie_running e then e\<lparr>ie_running := False, ie_env := be_on_stop B (ie_env e)\<rparr> else e)"

text \<open>The search for a channel by its id: the first match among the configured ones.\<close>

definition find_auto :: "u8 \<Rightarrow> 'e io_engine \<Rightarrow> nat option" where
  "find_auto ch e = find (\<lambda>i. ac_channel_id (au_cfg (ie_autos e ! i)) = ch) [0..<ie_num_channels e]"

definition set_auto_mode :: "u8 \<Rightarrow> bool \<Rightarrow> 'e io_engine \<Rightarrow> bool \<times> 'e io_engine" where
  "set_auto_mode ch enable e = (case find_auto ch e of
       None \<Rightarrow> (False, e)
     | Some i \<Rightarrow>
         (True, upd_auto i (\<lambda>a. let a = a\<lparr>au_cfg := (au_cfg a)\<lparr>ac_auto_mode := enable\<rparr>\<rparr>
                 in if \<not> enable \<and> \<not> au_in_flight a then a\<lparr>au_pending := False, au_busy := False\<rparr> else a) e))"

definition is_auto_mode :: "u8 \<Rightarrow> 'e io_engine \<Rightarrow> bool" where
  "is_auto_mode ch e = (case find_auto ch e of None \<Rightarrow> False | Some i \<Rightarrow> ac_auto_mode (au_cfg (ie_autos e ! i)))"

definition bridge_slots_in_use :: "'e io_engine \<Rightarrow> nat" where
  "bridge_slots_in_use e = length (filter bg_in_use (ie_slots e))"

section \<open>Automatic channels\<close>

definition is_bus_in_flight :: "u8 \<Rightarrow> u8 \<Rightarrow> 'e io_engine \<Rightarrow> bool" where
  "is_bus_in_flight bus idx e \<longleftrightarrow>
    (\<exists>a \<in> set (take (ie_num_channels e) (ie_autos e)).
       au_in_flight a \<and> ac_bus_type (au_snap a) = bus \<and> ac_bus_index (au_snap a) = idx) \<or>
    (\<exists>s \<in> set (ie_slots e). bg_in_use s \<and> bg_in_flight s \<and> bg_bus s = bus \<and> bg_bus_index s = idx)"

definition prepare_auto_transfer :: "auto_state \<Rightarrow> auto_state" where
  "prepare_auto_transfer a =
    (let n = (if unat (ac_tx_len (au_snap a)) > kAutoCmdMax then kAutoCmdMax else unat (ac_tx_len (au_snap a)))
     in a\<lparr>au_cmd_len := n, au_tx := put_at 0 (take n (ac_tx_cmd (au_snap a))) (replicate kAutoXferMax 0)\<rparr>)"

text \<open>The transfer of a prepared channel; a bus that is neither SPI nor I2C has none.\<close>

definition auto_transfer :: "nat \<Rightarrow> auto_state \<Rightarrow> io_transfer option" where
  "auto_transfer i a =
    (let c = au_snap a in
     if ac_bus_type c = bus_spi
     then let n = au_cmd_len a + unat (ac_rx_len c); n = (if n > kAutoXferMax then kAutoXferMax else n)
          in Some \<lparr>xf_bus = bus_spi, xf_bus_index = ac_bus_index c, xf_device = ucast (ac_cs_pin c), xf_tx = take n (au_tx a),
               xf_rx_len = n, xf_done = Auto_channel i\<rparr>
     else if ac_bus_type c = bus_i2c
     then let n = (if unat (ac_rx_len c) > kAutoXferMax then kAutoXferMax else unat (ac_rx_len c))
          in Some \<lparr>xf_bus = bus_i2c, xf_bus_index = ac_bus_index c, xf_device = ucast (ac_cs_pin c),
               xf_tx = take (au_cmd_len a) (au_tx a), xf_rx_len = n, xf_done = Auto_channel i\<rparr>
     else None)"

text \<open>
  The functions that start transfers take \<open>dn\<close>, what \<open>on_done\<close> of an automatic channel does when it is
  called before \<open>start_transfer\<close> has returned.
\<close>

type_synonym 'e done_call = "nat \<Rightarrow> io_result \<Rightarrow> u8 list \<Rightarrow> 'e io_engine \<Rightarrow> 'e io_engine"

definition start_auto_transfer :: "'e io_backend \<Rightarrow> 'e done_call \<Rightarrow> nat \<Rightarrow> 'e io_engine \<Rightarrow> bool \<times> 'e io_engine" where
  "start_auto_transfer B dn i e = (case auto_transfer i (ie_autos e ! i) of
       None \<Rightarrow> (False, e)
     | Some x \<Rightarrow>
         let e = upd_auto i (\<lambda>a. a\<lparr>au_in_flight := True\<rparr>) e; (ans, env) = be_start_transfer B x (ie_env e); e = e\<lparr>ie_env := env\<rparr>
         in case ans of
              Refused \<Rightarrow> (False, upd_auto i (\<lambda>a. a\<lparr>au_in_flight := False\<rparr>) e)
            | Started \<Rightarrow> (True, e)
            | Completed r bytes \<Rightarrow> (True, dn i r bytes e))"

definition count_failed :: "'e io_engine \<Rightarrow> 'e io_engine" where
  "count_failed e = e\<lparr>ie_failed := ie_failed e + 1\<rparr>"

fun retry_loop :: "'e io_backend \<Rightarrow> 'e done_call \<Rightarrow> u8 \<Rightarrow> u8 \<Rightarrow> nat list \<Rightarrow> 'e io_engine \<Rightarrow> 'e io_engine" where
  "retry_loop B dn bus idx [] e = e"
| "retry_loop B dn bus idx (i # is) e =
    (let a = ie_autos e ! i in
     if \<not> au_pending a \<or> ac_bus_type (au_snap a) \<noteq> bus \<or> ac_bus_index (au_snap a) \<noteq> idx then retry_loop B dn bus idx is e
     else let (ok, e) = start_auto_transfer B dn i e in
       if ok then upd_auto i (\<lambda>a. a\<lparr>au_pending := False\<rparr>) e
       else if \<not> is_bus_in_flight bus idx e
       then retry_loop B dn bus idx is (upd_auto i (\<lambda>a. a\<lparr>au_pending := False, au_busy := False\<rparr>) (count_failed e))
       else retry_loop B dn bus idx is e)"

definition retry_pending_on_bus :: "'e io_backend \<Rightarrow> 'e done_call \<Rightarrow> u8 \<Rightarrow> u8 \<Rightarrow> 'e io_engine \<Rightarrow> 'e io_engine" where
  "retry_pending_on_bus B dn bus idx e =
    (if is_bus_in_flight bus idx e then e else retry_loop B dn bus idx [0..<ie_num_channels e] e)"

definition retry_pending :: "'e io_backend \<Rightarrow> 'e done_call \<Rightarrow> 'e io_engine \<Rightarrow> 'e io_engine" where
  "retry_pending B dn e = fold (\<lambda>i e. let a = ie_autos e ! i in
     if au_pending a then retry_pending_on_bus B dn (ac_bus_type (au_snap a)) (ac_bus_index (au_snap a)) e else e) [0..<ie_num_channels e] e"

definition emit_tlp :: "'e io_backend \<Rightarrow> tlp \<Rightarrow> 'e io_engine \<Rightarrow> 'e io_engine" where
  "emit_tlp B t e =
    (if \<not> ie_has_ingress e then e
     else let (ok, env) = be_push_ingress B t (ie_env e); e = e\<lparr>ie_env := env, ie_emitted := ie_emitted e @ [(t, ok)]\<rparr> in
       if \<not> ok then e\<lparr>ie_dropped := ie_dropped e + 1\<rparr>
       else e\<lparr>ie_env := be_on_rx_pushed B (be_notify_host B (ie_env e))\<rparr>)"

text \<open>The packet of a sample: \<open>make_stream_tx\<close> on the configured channel byte, with the time of the edge.\<close>

definition sample_tlp :: "auto_state \<Rightarrow> nat \<Rightarrow> tlp" where
  "sample_tlp a transferred =
    (let got = (if transferred < kAutoXferMax then transferred else kAutoXferMax);
         off = (if ac_bus_type (au_snap a) = bus_spi then au_cmd_len a else 0);
         n = (if got > off then got - off else 0)
     in (make_stream_tx Control (au_seq a) (take n (drop off (au_rx a))) (ac_tlp_tag (au_snap a)))
          \<lparr>wchannel := ac_tlp_channel (au_snap a), timestamp_ns := au_ts_ns a\<rparr>)"

text \<open>\<open>auto_done\<close> of channel \<open>i\<close>, after the back end has put the received bytes into its buffer.\<close>

definition auto_done :: "'e io_backend \<Rightarrow> 'e done_call \<Rightarrow> 'e done_call" where
  "auto_done B dn i r bytes e =
    (let e = upd_auto i (\<lambda>a. a\<lparr>au_rx := put_at 0 bytes (au_rx a)\<rparr>) e;
         a = ie_autos e ! i; bus = ac_bus_type (au_snap a); idx = ac_bus_index (au_snap a);
         e = upd_auto i (\<lambda>a. a\<lparr>au_in_flight := False\<rparr>) e in
     if \<not> res_ok r
     then retry_pending_on_bus B dn bus idx (upd_auto i (\<lambda>a. a\<lparr>au_busy := False\<rparr>) (count_failed e))
     else emit_tlp B (sample_tlp a (res_transferred r))
            (retry_pending_on_bus B dn bus idx (upd_auto i (\<lambda>a. a\<lparr>au_busy := False, au_seq := au_seq a + 1\<rparr>) e)))"

text \<open>
  Completions inside completions nest; the number bounds the depth. A back end that completes later
  never nests.
\<close>

fun done_nested :: "'e io_backend \<Rightarrow> nat \<Rightarrow> 'e done_call" where
  "done_nested B 0 i r bytes e = e\<lparr>ie_too_deep := True\<rparr>"
| "done_nested B (Suc n) i r bytes e = auto_done B (done_nested B n) i r bytes e"

definition trigger_channel :: "'e io_backend \<Rightarrow> 'e done_call \<Rightarrow> u32 \<Rightarrow> u64 \<Rightarrow> nat \<Rightarrow> 'e io_engine \<Rightarrow> 'e io_engine" where
  "trigger_channel B dn pin ts i e =
    (let a = ie_autos e ! i in
     if \<not> ac_auto_mode (au_cfg a) \<or> ac_trigger_pin (au_cfg a) \<noteq> pin then e
     else if au_busy a
     then let e = (if au_pending a then upd_auto i (\<lambda>a. a\<lparr>au_ts_ns := ts\<rparr>) e else e) in e\<lparr>ie_overruns := ie_overruns e + 1\<rparr>
     else let e = upd_auto i (\<lambda>a. prepare_auto_transfer (a\<lparr>au_busy := True, au_snap := au_cfg a, au_ts_ns := ts\<rparr>)) e;
              bus = ac_bus_type (au_cfg a); idx = ac_bus_index (au_cfg a) in
       if is_bus_in_flight bus idx e then upd_auto i (\<lambda>a. a\<lparr>au_pending := True\<rparr>) e
       else let (ok, e) = start_auto_transfer B dn i e in
         if ok then e
         else if is_bus_in_flight bus idx e then upd_auto i (\<lambda>a. a\<lparr>au_pending := True\<rparr>) e
         else upd_auto i (\<lambda>a. a\<lparr>au_busy := False\<rparr>) (count_failed e))"

definition on_trigger :: "'e io_backend \<Rightarrow> 'e done_call \<Rightarrow> u32 \<Rightarrow> u64 \<Rightarrow> 'e io_engine \<Rightarrow> 'e io_engine" where
  "on_trigger B dn pin ts e = retry_pending B dn (fold (trigger_channel B dn pin ts) [0..<ie_num_channels e] e)"

section \<open>Bridge transfers\<close>

text \<open>\<open>make_spi_cpl\<close> or \<open>make_i2c_cpl\<close> on the channel byte of the request.\<close>

definition bridge_cpl :: "u8 \<Rightarrow> u8 \<Rightarrow> u8 \<Rightarrow> u8 list \<Rightarrow> u16 \<Rightarrow> u64 \<Rightarrow> u8 \<Rightarrow> tlp" where
  "bridge_cpl bus tag status data dur ts ch =
    (if bus = bus_spi then make_spi_cpl tag status data dur ts Control else make_i2c_cpl tag status data dur ts Control)\<lparr>wchannel := ch\<rparr>"

definition alloc_slot :: "'e io_engine \<Rightarrow> nat option \<times> 'e io_engine" where
  "alloc_slot e = (case find (\<lambda>k. \<not> bg_in_use (ie_slots e ! k)) [0..<length (ie_slots e)] of
       None \<Rightarrow> (None, e)
     | Some k \<Rightarrow> (Some k, upd_slot k (\<lambda>s. s\<lparr>bg_in_use := True\<rparr>) e))"

definition bridge_done :: "'e io_backend \<Rightarrow> 'e done_call \<Rightarrow> 'e done_call" where
  "bridge_done B dn k r bytes e =
    (let e = upd_slot k (\<lambda>s. s\<lparr>bg_rx := put_at 0 bytes (bg_rx s), bg_in_flight := False\<rparr>) e; s = ie_slots e ! k;
         e = retry_pending_on_bus B dn (bg_bus s) (bg_bus_index s) e;
         status = (if res_ok r then ASP_STATUS_OK else ASP_STATUS_DMA_ERROR);
         n = (if res_ok r then res_transferred r else 0); n = (if n > bg_rx_len s then bg_rx_len s else n);
         dur = (if res_duration_us r > 0xFFFF then 0xFFFF else ucast (res_duration_us r));
         e = emit_tlp B (bridge_cpl (bg_bus s) (bg_tag s) status (take n (bg_rx s)) dur (res_timestamp_ns r) (bg_channel s)) e
     in upd_slot k (\<lambda>s. s\<lparr>bg_in_use := False\<rparr>) e)"

definition bus_locked :: "u8 \<Rightarrow> 'e io_engine \<Rightarrow> bool" where
  "bus_locked bus e \<longleftrightarrow> (\<exists>a \<in> set (take (ie_num_channels e) (ie_autos e)). ac_bus_type (au_cfg a) = bus \<and> ac_auto_mode (au_cfg a))"

definition reject_request :: "'e io_backend \<Rightarrow> tlp \<Rightarrow> u8 \<Rightarrow> u8 \<Rightarrow> 'e io_engine \<Rightarrow> 'e io_engine" where
  "reject_request B t bus status e = emit_tlp B (bridge_cpl bus (wtag t) status [] 0 0 (wchannel t)) e"

text \<open>The end of \<open>handle_spi\<close> and \<open>handle_i2c\<close>: the slot is filled, its transfer starts or is refused.\<close>

definition start_bridge :: "'e io_backend \<Rightarrow> 'e done_call \<Rightarrow> tlp \<Rightarrow> nat \<Rightarrow> io_transfer \<Rightarrow> 'e io_engine \<Rightarrow> 'e io_engine" where
  "start_bridge B dn t k x e =
    (let e = upd_slot k (\<lambda>s. s\<lparr>bg_in_flight := True\<rparr>) e; (ans, env) = be_start_transfer B x (ie_env e); e = e\<lparr>ie_env := env\<rparr>
     in case ans of
          Refused \<Rightarrow> reject_request B t (xf_bus x) ASP_STATUS_QUEUE_FULL (upd_slot k (\<lambda>s. s\<lparr>bg_in_flight := False, bg_in_use := False\<rparr>) e)
        | Started \<Rightarrow> e
        | Completed r bytes \<Rightarrow> bridge_done B dn k r bytes e)"

definition handle_spi :: "'e io_backend \<Rightarrow> 'e done_call \<Rightarrow> tlp \<Rightarrow> 'e io_engine \<Rightarrow> 'e io_engine" where
  "handle_spi B dn t e =
    (if bus_locked bus_spi e then reject_request B t bus_spi ASP_STATUS_BUS_LOCKED e
     else let hdr = spi_view_req_header t; tx = spi_view_tx_data t;
              rx_len = (if unat (sr_rx_len hdr) > kSpiBridgeMax then kSpiBridgeMax else unat (sr_rx_len hdr));
              n = (if length tx > rx_len then length tx else rx_len); (slot, e) = alloc_slot e
          in case slot of
               None \<Rightarrow> reject_request B t bus_spi ASP_STATUS_QUEUE_FULL e
             | Some k \<Rightarrow>
                 let e = upd_slot k (\<lambda>s. s\<lparr>bg_bus := bus_spi, bg_bus_index := sr_bus_id hdr, bg_tag := wtag t, bg_channel := wchannel t,
                       bg_rx_len := n, bg_tx := put_at 0 tx (replicate kSpiBridgeMax 0)\<rparr>) e
                 in start_bridge B dn t k \<lparr>xf_bus = bus_spi, xf_bus_index = sr_bus_id hdr, xf_device = sr_cs_pin hdr,
                      xf_tx = take n (bg_tx (ie_slots e ! k)), xf_rx_len = n, xf_done = Bridge k\<rparr> e)"

definition handle_i2c :: "'e io_backend \<Rightarrow> 'e done_call \<Rightarrow> tlp \<Rightarrow> 'e io_engine \<Rightarrow> 'e io_engine" where
  "handle_i2c B dn t e =
    (if bus_locked bus_i2c e then reject_request B t bus_i2c ASP_STATUS_BUS_LOCKED e
     else let hdr = i2c_view_req_header t; (slot, e) = alloc_slot e
          in case slot of
               None \<Rightarrow> reject_request B t bus_i2c ASP_STATUS_QUEUE_FULL e
             | Some k \<Rightarrow>
                 let rx_len = (if unat (ir_rx_len hdr) > kI2cRxMax then kI2cRxMax else unat (ir_rx_len hdr)); tx = i2c_view_tx_data t;
                     out = (if ir_sub_flags hdr AND ASP_I2C_FLAG_USE_REG \<noteq> 0 then ir_reg_offset hdr # take (kI2cTxMax - 1) tx else tx);
                     e = upd_slot k (\<lambda>s. s\<lparr>bg_bus := bus_i2c, bg_bus_index := ir_bus_id hdr, bg_tag := wtag t, bg_channel := wchannel t,
                       bg_rx_len := rx_len, bg_tx := put_at 0 out (bg_tx s)\<rparr>) e
                 in start_bridge B dn t k \<lparr>xf_bus = bus_i2c, xf_bus_index = ir_bus_id hdr, xf_device = ir_slave_addr hdr,
                      xf_tx = take (length out) (bg_tx (ie_slots e ! k)), xf_rx_len = rx_len, xf_done = Bridge k\<rparr> e)"

section \<open>The other requests\<close>

definition auto_dma_of_payload :: "u8 list \<Rightarrow> auto_dma_cfg" where
  "auto_dma_of_payload p = \<lparr>ad_cmd = p ! 0, ad_channel_id = p ! 1, ad_trigger_pin = p ! 2, ad_trigger_edge = p ! 3, ad_bus_type = p ! 4,
     ad_bus_id = p ! 5, ad_tx_len = p ! 6, ad_rx_len = p ! 7, ad_tx_cmd = take 8 (drop 8 p), ad_tlp_channel = p ! 16, ad_tlp_tag = p ! 17\<rparr>"

definition setup_channel :: "auto_dma_cfg \<Rightarrow> auto_channel \<Rightarrow> auto_channel" where
  "setup_channel c ch = ch\<lparr>ac_trigger_pin := ucast (ad_trigger_pin c),
     ac_trigger_rising := (ad_trigger_edge c = 1 \<or> ad_trigger_edge c = 3),
     ac_bus_type := ad_bus_type c, ac_bus_index := ad_bus_id c,
     ac_tx_len := (if unat (ad_tx_len c) > kAutoCmdMax then of_nat kAutoCmdMax else ad_tx_len c),
     ac_rx_len := ucast (ad_rx_len c), ac_tx_cmd := ad_tx_cmd c, ac_tlp_channel := ad_tlp_channel c, ac_tlp_tag := ad_tlp_tag c\<rparr>"

definition handle_dma_cfg :: "'e io_backend \<Rightarrow> tlp \<Rightarrow> 'e io_engine \<Rightarrow> 'e io_engine" where
  "handle_dma_cfg B t e =
    (let c = auto_dma_of_payload (payload t);
         (status, e) =
           (if ad_cmd c = ASP_DMA_CMD_ENABLE \<or> ad_cmd c = ASP_DMA_CMD_DISABLE
            then let (ok, e) = set_auto_mode (ad_channel_id c) (ad_cmd c = ASP_DMA_CMD_ENABLE) e
                 in (if ok then ASP_STATUS_OK else ASP_STATUS_DMA_ERROR, e)
            else if ad_cmd c = ASP_DMA_CMD_SETUP
            then (case find_auto (ad_channel_id c) e of
                None \<Rightarrow> (ASP_STATUS_DMA_ERROR, e)
              | Some i \<Rightarrow>
                  if au_busy (ie_autos e ! i) then (ASP_STATUS_DMA_ERROR, e)
                  else let e = upd_auto i (\<lambda>a. a\<lparr>au_cfg := setup_channel c (au_cfg a)\<rparr>) e;
                           (ok, env) = be_init_channel B (au_cfg (ie_autos e ! i)) (ie_env e)
                       in (if ok then ASP_STATUS_OK else ASP_STATUS_DMA_ERROR, e\<lparr>ie_env := env\<rparr>))
            else (ASP_STATUS_DMA_ERROR, e))
     in emit_tlp B (make_hw_fusion_cpl (wtag t) status (ad_cmd c) (ad_channel_id c)) e)"

definition handle_serial :: "'e io_backend \<Rightarrow> tlp \<Rightarrow> 'e io_engine \<Rightarrow> 'e io_engine" where
  "handle_serial B t e =
    (let port = ucast (drop_bit 8 (target_address t) AND 3);
         setup = (wtype t = tlp_type_code MemWrite \<and> target_address t AND 0xFF = 0x04 \<and> length_dw t \<ge> 1);
         baud = (if setup then payload_word t 0 else 0);
         tx = (if wtype t = tlp_type_code MemWrite \<and> \<not> setup
               then take (if length_dw t \<le> 40 then unat (length_dw t) else 40) (payload t) else []);
         now = be_now_ns B (ie_env e);
         (got, env) = be_serial_xfer B port baud tx ASP_TLP64_PAYLOAD_SIZE (ie_env e);
         cpl = tlp_zero\<lparr>wtype := tlp_type_code Completion, wflags := ASP_STATUS_OK, wtag := wtag t, wchannel := channel_code EscSerial,
           target_address := target_address t, timestamp_ns := now, payload := put_at 0 got (replicate ASP_TLP64_PAYLOAD_SIZE 0),
           length_dw := of_nat (length got)\<rparr>
     in emit_tlp B cpl (e\<lparr>ie_env := env\<rparr>))"

definition handle_gpio :: "'e io_backend \<Rightarrow> tlp \<Rightarrow> 'e io_engine \<Rightarrow> 'e io_engine" where
  "handle_gpio B t e =
    (let req = gpio_view_req_header t;
         (ok, level, env) = (if gr_pin req < 32 then be_gpio B req (ie_env e) else (False, 0, ie_env e)); e = e\<lparr>ie_env := env\<rparr>
     in if gr_cmd req = ASP_GPIO_CMD_READ \<or> \<not> ok
        then emit_tlp B (make_gpio_cpl (wtag t) (if ok then ASP_STATUS_OK else ASP_STATUS_DMA_ERROR) (gr_pin req) level 0 0 0 Control) e
        else e)"

definition in_window :: "u32 \<Rightarrow> u32 \<Rightarrow> u32 \<Rightarrow> bool" where
  "in_window addr base n \<longleftrightarrow> addr \<ge> base \<and> addr - base < n"

definition handle_request :: "'e io_backend \<Rightarrow> 'e done_call \<Rightarrow> tlp \<Rightarrow> 'e io_engine \<Rightarrow> 'e io_engine" where
  "handle_request B dn t e =
    (let ch = wchannel t; addr = target_address t in
     if wtype t = tlp_type_code DmaConfig then handle_dma_cfg B t e
     else if ch = channel_code SpiBridge \<or> in_window addr ASP_ADDR_SPI_BASE 0x80 then handle_spi B dn t e
     else if ch = channel_code I2cBridge \<or> in_window addr ASP_ADDR_I2C_BASE 0x80 then handle_i2c B dn t e
     else if ch = channel_code GpioBridge \<or> in_window addr ASP_ADDR_GPIO_BASE 0x400 then handle_gpio B t e
     else if ch = channel_code EscSerial then handle_serial B t e
     else if wtype t = tlp_type_code MemWrite then e\<lparr>ie_env := be_write_reg B addr (payload_word t 0) (ie_env e)\<rparr>
     else if wtype t = tlp_type_code MemRead
     then let (v, env) = be_read_reg B addr (ie_env e)
          in emit_tlp B ((make_completion_data (wtag t) v Control)\<lparr>wchannel := ch\<rparr>) (e\<lparr>ie_env := env\<rparr>)
     else e)"

text \<open>\<open>drain_egress\<close> pops the ring until it is empty; \<open>step\<close> drains, retries and lets the back end poll.\<close>

definition drain_egress :: "(tlp, 'q) etl_queue \<Rightarrow> 'e io_backend \<Rightarrow> 'e done_call \<Rightarrow> 'q \<Rightarrow> 'e io_engine \<Rightarrow> (nat \<times> 'q \<times> 'e io_engine) option" where
  "drain_egress Q B dn egress e = drain_loop (mpsc_pop Q) (handle_request B dn) 0 egress e"

definition io_step :: "(tlp, 'q) etl_queue \<Rightarrow> 'e io_backend \<Rightarrow> 'e done_call \<Rightarrow> int \<Rightarrow> 'q \<Rightarrow> 'e io_engine \<Rightarrow> (int \<times> 'q \<times> 'e io_engine) option" where
  "io_step Q B dn timeout egress e = (case drain_egress Q B dn egress e of
       None \<Rightarrow> None
     | Some (_, egress, e) \<Rightarrow> let e = retry_pending B dn e; (n, env) = be_poll_events B timeout (ie_env e)
          in Some (n, egress, e\<lparr>ie_env := env\<rparr>))"

end
