(* ===== verification/Io_Invariant.thy ===== *)
theory Io_Invariant
  imports Io_Engine
begin

text \<open>
  The invariant of the I/O processor engine and its preservation by every operation, for back ends whose
  completions come after \<open>start_transfer\<close> has returned: the state of channels, buses and slots, the
  accounting of edges and packets, and what a bridge request leads to.
\<close>

section \<open>Back ends that complete later\<close>

definition completes_later :: "'e io_backend \<Rightarrow> bool" where
  "completes_later B \<longleftrightarrow> (\<forall>x s r bytes. fst (be_start_transfer B x s) \<noteq> Completed r bytes)"

text \<open>Then starting a transfer only marks the channel; \<open>dn\<close> plays no part.\<close>

definition same_rest :: "'e io_engine \<Rightarrow> 'e io_engine \<Rightarrow> bool" where
  "same_rest e e' \<longleftrightarrow> ie_num_channels e' = ie_num_channels e \<and> ie_slots e' = ie_slots e \<and> ie_overruns e' = ie_overruns e \<and>
     ie_dropped e' = ie_dropped e \<and> ie_failed e' = ie_failed e \<and> ie_has_ingress e' = ie_has_ingress e \<and>
     ie_emitted e' = ie_emitted e \<and> ie_too_deep e' = ie_too_deep e"

lemma same_rest_trans: "same_rest e1 e2 \<Longrightarrow> same_rest e2 e3 \<Longrightarrow> same_rest e1 e3"
  by (simp add: same_rest_def)

lemma upd_auto_fields [simp]:
  "ie_num_channels (upd_auto i f e) = ie_num_channels e" "ie_slots (upd_auto i f e) = ie_slots e"
  "ie_overruns (upd_auto i f e) = ie_overruns e" "ie_dropped (upd_auto i f e) = ie_dropped e" "ie_failed (upd_auto i f e) = ie_failed e"
  "ie_has_ingress (upd_auto i f e) = ie_has_ingress e" "ie_env (upd_auto i f e) = ie_env e" "ie_emitted (upd_auto i f e) = ie_emitted e"
  "ie_too_deep (upd_auto i f e) = ie_too_deep e" "ie_autos (upd_auto i f e) = (ie_autos e)[i := f (ie_autos e ! i)]"
  by (simp_all add: upd_auto_def)

lemma upd_slot_fields [simp]:
  "ie_num_channels (upd_slot k f e) = ie_num_channels e" "ie_autos (upd_slot k f e) = ie_autos e"
  "ie_overruns (upd_slot k f e) = ie_overruns e" "ie_dropped (upd_slot k f e) = ie_dropped e" "ie_failed (upd_slot k f e) = ie_failed e"
  "ie_has_ingress (upd_slot k f e) = ie_has_ingress e" "ie_env (upd_slot k f e) = ie_env e" "ie_emitted (upd_slot k f e) = ie_emitted e"
  "ie_too_deep (upd_slot k f e) = ie_too_deep e" "ie_slots (upd_slot k f e) = (ie_slots e)[k := f (ie_slots e ! k)]"
  by (simp_all add: upd_slot_def)

lemma count_failed_fields [simp]:
  "ie_num_channels (count_failed e) = ie_num_channels e" "ie_slots (count_failed e) = ie_slots e" "ie_autos (count_failed e) = ie_autos e"
  "ie_overruns (count_failed e) = ie_overruns e" "ie_dropped (count_failed e) = ie_dropped e" "ie_failed (count_failed e) = ie_failed e + 1"
  "ie_has_ingress (count_failed e) = ie_has_ingress e" "ie_env (count_failed e) = ie_env e" "ie_emitted (count_failed e) = ie_emitted e"
  "ie_too_deep (count_failed e) = ie_too_deep e"
  by (simp_all add: count_failed_def)

lemma start_auto_cases:
  assumes "completes_later B" "\<not> au_in_flight (ie_autos e ! i)"
  obtains (refused) env where "start_auto_transfer B dn i e = (False, e\<lparr>ie_env := env\<rparr>)"
    | (started) env where "start_auto_transfer B dn i e = (True, upd_auto i (\<lambda>a. a\<lparr>au_in_flight := True\<rparr>) (e\<lparr>ie_env := env\<rparr>))"
proof (cases "auto_transfer i (ie_autos e ! i)")
  case None
  then show thesis by (intro refused [of "ie_env e"]) (simp add: start_auto_transfer_def)
next
  case (Some x)
  obtain ans env where ans: "be_start_transfer B x (ie_env e) = (ans, env)" by fastforce
  have same: "(ie_autos e ! i)\<lparr>au_in_flight := False\<rparr> = ie_autos e ! i" using assms(2) by simp
  show thesis
  proof (cases ans)
    case Refused
    have "(ie_autos e)[i := ((ie_autos e)[i := (ie_autos e ! i)\<lparr>au_in_flight := True\<rparr>] ! i)\<lparr>au_in_flight := False\<rparr>] = ie_autos e"
      by (cases "i < length (ie_autos e)") (simp_all add: same list_update_beyond)
    then show thesis using Some ans Refused
      by (intro refused [of env]) (simp add: start_auto_transfer_def upd_auto_def Let_def)
  next
    case Started
    then show thesis using Some ans
      by (intro started [of env]) (simp add: start_auto_transfer_def upd_auto_def Let_def)
  next
    case (Completed r bytes)
    then show thesis using assms(1) ans by (metis completes_later_def fst_conv)
  qed
qed

section \<open>Well-formed engines\<close>

text \<open>
  A channel is busy exactly when its transfer waits for the bus or is in flight; no two automatic
  transfers are in flight on one bus; unused entries of the table are idle; a bridge slot is in use
  exactly while its transfer is in flight.
\<close>

definition auto_ok :: "auto_state \<Rightarrow> bool" where
  "auto_ok a \<longleftrightarrow> \<not> (au_pending a \<and> au_in_flight a) \<and> au_busy a = (au_pending a \<or> au_in_flight a)"

definition bus_of :: "auto_state \<Rightarrow> u8 \<times> u8" where
  "bus_of a = (ac_bus_type (au_snap a), ac_bus_index (au_snap a))"

definition autos_ok :: "nat \<Rightarrow> auto_state list \<Rightarrow> bool" where
  "autos_ok n as \<longleftrightarrow> length as = kMaxChannels \<and> n \<le> kMaxChannels \<and> (\<forall>a \<in> set as. auto_ok a) \<and>
     (\<forall>i < length as. n \<le> i \<longrightarrow> \<not> au_busy (as ! i)) \<and>
     (\<forall>i < length as. \<forall>j < length as. au_in_flight (as ! i) \<and> au_in_flight (as ! j) \<and> bus_of (as ! i) = bus_of (as ! j) \<longrightarrow> i = j)"

definition slots_ok :: "bridge_slot list \<Rightarrow> bool" where
  "slots_ok ss \<longleftrightarrow> length ss = kBridgeSlots \<and> (\<forall>s \<in> set ss. bg_in_flight s = bg_in_use s)"

definition flying :: "nat \<Rightarrow> auto_state list \<Rightarrow> bridge_slot list \<Rightarrow> u8 \<times> u8 \<Rightarrow> bool" where
  "flying n as ss b \<longleftrightarrow> (\<exists>i < n. au_in_flight (as ! i) \<and> bus_of (as ! i) = b) \<or>
     (\<exists>s \<in> set ss. bg_in_use s \<and> bg_in_flight s \<and> (bg_bus s, bg_bus_index s) = b)"

text \<open>A channel that waits has something to wait for: a transfer in flight on its bus, whose completion retries it.\<close>

definition served :: "nat \<Rightarrow> auto_state list \<Rightarrow> bridge_slot list \<Rightarrow> bool" where
  "served n as ss \<longleftrightarrow> (\<forall>i < n. au_pending (as ! i) \<longrightarrow> flying n as ss (bus_of (as ! i)))"

definition engine_ok :: "'e io_engine \<Rightarrow> bool" where
  "engine_ok e \<longleftrightarrow> autos_ok (ie_num_channels e) (ie_autos e) \<and> slots_ok (ie_slots e) \<and> served (ie_num_channels e) (ie_autos e) (ie_slots e)"

lemma autos_okD:
  assumes "autos_ok n as"
  shows "length as = kMaxChannels" "n \<le> length as" "i < length as \<Longrightarrow> auto_ok (as ! i)" "i < length as \<Longrightarrow> n \<le> i \<Longrightarrow> \<not> au_busy (as ! i)"
    "i < length as \<Longrightarrow> j < length as \<Longrightarrow> au_in_flight (as ! i) \<Longrightarrow> au_in_flight (as ! j) \<Longrightarrow> bus_of (as ! i) = bus_of (as ! j) \<Longrightarrow> i = j"
  using assms unfolding autos_ok_def by auto

lemma autos_ok_update:
  assumes ok: "autos_ok n as" and i: "i < n" and a: "auto_ok a"
    and alone: "au_in_flight a \<Longrightarrow> \<forall>j < n. j \<noteq> i \<longrightarrow> au_in_flight (as ! j) \<longrightarrow> bus_of (as ! j) \<noteq> bus_of a"
  shows "autos_ok n (as[i := a])"
proof -
  note d = autos_okD [OF ok]
  have len: "i < length as" using i d(2) by simp
  have idle: "\<not> au_in_flight (as ! j)" if "j < length as" "n \<le> j" for j
    using d(3) [OF that(1)] d(4) [OF that] by (simp add: auto_ok_def)
  have uniq: "p = q" if "p < length as" "q < length as" "au_in_flight (as[i := a] ! p)" "au_in_flight (as[i := a] ! q)"
    "bus_of (as[i := a] ! p) = bus_of (as[i := a] ! q)" for p q
  proof -
    have other: "bus_of (as ! j) \<noteq> bus_of a" if "au_in_flight a" "j < length as" "j \<noteq> i" "au_in_flight (as ! j)" for j
      using alone [OF that(1)] that idle by (metis not_le)
    show ?thesis using that d(5) [of p q] other [of p] other [of q] len
      by (cases "p = i"; cases "q = i") (auto simp: nth_list_update)
  qed
  have all: "auto_ok (as[i := a] ! j)" "n \<le> j \<longrightarrow> \<not> au_busy (as[i := a] ! j)" if "j < length as" for j
    using that a d(3) [OF that] d(4) [OF that] i by (cases "j = i"; simp)+
  show ?thesis
    unfolding autos_ok_def using d(1,2) all uniq by (auto simp: in_set_conv_nth)
qed

lemma is_bus_in_flight_iff:
  assumes "autos_ok (ie_num_channels e) (ie_autos e)"
  shows "is_bus_in_flight bus idx e \<longleftrightarrow> flying (ie_num_channels e) (ie_autos e) (ie_slots e) (bus, idx)"
proof -
  have "(\<exists>a \<in> set (take n as). P a) \<longleftrightarrow> (\<exists>i < n. P (as ! i))" if "n \<le> length as" for n P and as :: "auto_state list"
    using that by (force simp: in_set_conv_nth)
  then show ?thesis using autos_okD(2) [OF assms] by (simp add: is_bus_in_flight_def flying_def bus_of_def)
qed

section \<open>Accounting\<close>

abbreviation is_sample :: "tlp \<Rightarrow> bool" where
  "is_sample t \<equiv> wtype t = tlp_type_code MemWrite"

definition samples :: "'e io_engine \<Rightarrow> nat" where
  "samples e = length (filter (\<lambda>(t, ok). is_sample t) (ie_emitted e))"

definition busy_count :: "auto_state list \<Rightarrow> nat" where
  "busy_count as = length (filter au_busy as)"

text \<open>Where the trigger edges of armed channels have gone.\<close>

definition edges_known :: "'e io_engine \<Rightarrow> u32" where
  "edges_known e = ie_overruns e + ie_failed e + of_nat (samples e) + of_nat (busy_count (ie_autos e))"

lemma busy_count_update:
  "i < length as \<Longrightarrow> busy_count (as[i := a]) + (if au_busy (as ! i) then 1 else 0) = busy_count as + (if au_busy a then 1 else 0)"
proof -
  assume i: "i < length as"
  have "filter au_busy as = filter au_busy (take i as) @ filter au_busy [as ! i] @ filter au_busy (drop (Suc i) as)"
    by (subst id_take_nth_drop [OF i]) (simp only: filter_append [symmetric] append_Cons append_Nil)
  then show ?thesis by (simp add: busy_count_def upd_conv_take_nth_drop [OF i])
qed

lemma busy_count_same: "au_busy a = au_busy (as ! i) \<Longrightarrow> busy_count (as[i := a]) = busy_count as"
  using busy_count_update [of i as a] by (cases "i < length as") (simp_all add: list_update_beyond)

lemma busy_count_set: "i < length as \<Longrightarrow> au_busy a \<Longrightarrow> \<not> au_busy (as ! i) \<Longrightarrow> busy_count (as[i := a]) = Suc (busy_count as)"
  using busy_count_update [of i as a] by simp

lemma busy_count_clear: "i < length as \<Longrightarrow> \<not> au_busy a \<Longrightarrow> au_busy (as ! i) \<Longrightarrow> Suc (busy_count (as[i := a])) = busy_count as"
  using busy_count_update [of i as a] by simp

section \<open>Retrying\<close>

text \<open>What retrying the channels that wait for bus \<open>b\<close> may change.\<close>

definition retried :: "u8 \<times> u8 \<Rightarrow> 'e io_engine \<Rightarrow> 'e io_engine \<Rightarrow> bool" where
  "retried b e e' \<longleftrightarrow> autos_ok (ie_num_channels e) (ie_autos e') \<and> ie_num_channels e' = ie_num_channels e \<and> ie_slots e' = ie_slots e \<and>
     ie_has_ingress e' = ie_has_ingress e \<and> ie_emitted e' = ie_emitted e \<and> ie_too_deep e' = ie_too_deep e \<and> ie_dropped e' = ie_dropped e \<and>
     edges_known e' = edges_known e \<and>
     (\<forall>j < ie_num_channels e. bus_of (ie_autos e' ! j) = bus_of (ie_autos e ! j) \<and> au_cfg (ie_autos e' ! j) = au_cfg (ie_autos e ! j) \<and>
        (bus_of (ie_autos e ! j) \<noteq> b \<longrightarrow> ie_autos e' ! j = ie_autos e ! j) \<and>
        (au_in_flight (ie_autos e ! j) \<longrightarrow> au_in_flight (ie_autos e' ! j)) \<and>
        (au_pending (ie_autos e' ! j) \<longrightarrow> au_pending (ie_autos e ! j)))"

lemma retried_refl: "autos_ok (ie_num_channels e) (ie_autos e) \<Longrightarrow> retried b e e"
  by (simp add: retried_def)

lemma retried_trans: "retried b e1 e2 \<Longrightarrow> retried b e2 e3 \<Longrightarrow> retried b e1 e3"
  unfolding retried_def by (elim conjE) (intro conjI, simp_all)

lemma retried_start:
  assumes ok: "autos_ok (ie_num_channels e) (ie_autos e)" and i: "i < ie_num_channels e" "au_pending (ie_autos e ! i)"
    and free: "\<not> flying (ie_num_channels e) (ie_autos e) (ie_slots e) (bus_of (ie_autos e ! i))"
  shows "retried (bus_of (ie_autos e ! i)) e
    (upd_auto i (\<lambda>a. a\<lparr>au_pending := False\<rparr>) (upd_auto i (\<lambda>a. a\<lparr>au_in_flight := True\<rparr>) (e\<lparr>ie_env := env\<rparr>)))"
    (is "retried _ _ ?e")
proof -
  let ?as = "ie_autos e" and ?a = "ie_autos e ! i"
  have len: "i < length ?as" using autos_okD(2) [OF ok] i by simp
  have a: "auto_ok ?a" by (rule autos_okD(3) [OF ok len])
  have as: "ie_autos ?e = ?as[i := ?a\<lparr>au_in_flight := True, au_pending := False\<rparr>]" using len by simp
  have "autos_ok (ie_num_channels e) (ie_autos ?e)"
    unfolding as by (rule autos_ok_update [OF ok i(1)]) (use a i free in \<open>auto simp: auto_ok_def flying_def bus_of_def\<close>)
  moreover have "busy_count (ie_autos ?e) = busy_count ?as" unfolding as by (rule busy_count_same) simp
  ultimately show ?thesis
    unfolding retried_def using len
    by (simp add: edges_known_def samples_def) (auto simp: nth_list_update bus_of_def)
qed

lemma retried_fail:
  assumes ok: "autos_ok (ie_num_channels e) (ie_autos e)" and i: "i < ie_num_channels e" "au_pending (ie_autos e ! i)"
  shows "retried (bus_of (ie_autos e ! i)) e (upd_auto i (\<lambda>a. a\<lparr>au_pending := False, au_busy := False\<rparr>) (count_failed (e\<lparr>ie_env := env\<rparr>)))"
    (is "retried _ _ ?e")
proof -
  let ?as = "ie_autos e" and ?a = "ie_autos e ! i"
  have len: "i < length ?as" using autos_okD(2) [OF ok] i by simp
  have a: "auto_ok ?a" by (rule autos_okD(3) [OF ok len])
  have as: "ie_autos ?e = ?as[i := ?a\<lparr>au_pending := False, au_busy := False\<rparr>]" using len by simp
  have "autos_ok (ie_num_channels e) (ie_autos ?e)"
    unfolding as by (rule autos_ok_update [OF ok i(1)]) (use a i in \<open>auto simp: auto_ok_def\<close>)
  moreover have "Suc (busy_count (ie_autos ?e)) = busy_count ?as"
    unfolding as by (rule busy_count_clear [OF len]) (use a i in \<open>simp_all add: auto_ok_def\<close>)
  then have "of_nat (busy_count ?as) = of_nat (busy_count (ie_autos ?e)) + (1 :: u32)" by (metis of_nat_Suc add.commute)
  ultimately show ?thesis
    unfolding retried_def using len
    by (simp add: edges_known_def samples_def) (auto simp: nth_list_update bus_of_def)
qed

lemma retry_loop_ok:
  assumes later: "completes_later B"
  shows "autos_ok (ie_num_channels e) (ie_autos e) \<Longrightarrow> \<forall>i \<in> set is. i < ie_num_channels e \<Longrightarrow>
    \<not> flying (ie_num_channels e) (ie_autos e) (ie_slots e) (bus, idx) \<Longrightarrow>
    retried (bus, idx) e (retry_loop B dn bus idx is e) \<and>
    (\<forall>i \<in> set is. au_pending (ie_autos (retry_loop B dn bus idx is e) ! i) \<and> bus_of (ie_autos e ! i) = (bus, idx) \<longrightarrow>
       flying (ie_num_channels e) (ie_autos (retry_loop B dn bus idx is e)) (ie_slots e) (bus, idx))"
proof (induction "is" arbitrary: e)
  case Nil
  then show ?case by (simp add: retried_refl)
next
  case (Cons i "is")
  let ?a = "ie_autos e ! i"
  have i: "i < ie_num_channels e" using Cons.prems(2) by simp
  show ?case
  proof (cases "au_pending ?a \<and> bus_of ?a = (bus, idx)")
    case False
    then have skip: "retry_loop B dn bus idx (i # is) e = retry_loop B dn bus idx is e" by (auto simp: bus_of_def Let_def)
    have 1: "retried (bus, idx) e (retry_loop B dn bus idx is e)" using Cons by simp
    then have "\<not> (au_pending (ie_autos (retry_loop B dn bus idx is e) ! i) \<and> bus_of ?a = (bus, idx))"
      using False i unfolding retried_def by blast
    moreover have "\<forall>i \<in> set is. au_pending (ie_autos (retry_loop B dn bus idx is e) ! i) \<and> bus_of (ie_autos e ! i) = (bus, idx) \<longrightarrow>
       flying (ie_num_channels e) (ie_autos (retry_loop B dn bus idx is e)) (ie_slots e) (bus, idx)"
      using Cons by simp
    ultimately show ?thesis unfolding skip using 1 by auto
  next
    case True
    then have bus: "ac_bus_type (au_snap ?a) = bus" "ac_bus_index (au_snap ?a) = idx" "bus_of ?a = (bus, idx)"
      by (simp_all add: bus_of_def)
    have len: "i < length (ie_autos e)" using autos_okD(2) [OF Cons.prems(1)] i by simp
    have "\<not> au_in_flight ?a" using autos_okD(3) [OF Cons.prems(1) len] True by (simp add: auto_ok_def)
    with later show ?thesis
    proof (cases rule: start_auto_cases [where dn = dn and e = e])
      case (refused env)
      let ?e = "upd_auto i (\<lambda>a. a\<lparr>au_pending := False, au_busy := False\<rparr>) (count_failed (e\<lparr>ie_env := env\<rparr>))"
      have "\<not> is_bus_in_flight bus idx (e\<lparr>ie_env := env\<rparr>)"
        using Cons.prems(1,3) is_bus_in_flight_iff [of "e\<lparr>ie_env := env\<rparr>"] by simp
      then have go: "retry_loop B dn bus idx (i # is) e = retry_loop B dn bus idx is ?e"
        using True bus refused by (simp add: Let_def)
      have r: "retried (bus, idx) e ?e" using retried_fail [OF Cons.prems(1) i, of env] True bus(3) by simp
      then have n: "ie_num_channels ?e = ie_num_channels e" "ie_slots ?e = ie_slots e" "autos_ok (ie_num_channels e) (ie_autos ?e)"
        by (simp_all only: retried_def)
      have "\<not> flying (ie_num_channels e) (ie_autos ?e) (ie_slots e) (bus, idx)"
        using Cons.prems(3) len unfolding flying_def by (auto simp: nth_list_update bus_of_def split: if_splits)
      then have IH: "retried (bus, idx) ?e (retry_loop B dn bus idx is ?e)"
        "\<forall>i \<in> set is. au_pending (ie_autos (retry_loop B dn bus idx is ?e) ! i) \<and> bus_of (ie_autos ?e ! i) = (bus, idx) \<longrightarrow>
           flying (ie_num_channels e) (ie_autos (retry_loop B dn bus idx is ?e)) (ie_slots e) (bus, idx)"
        using Cons.IH [of ?e] n Cons.prems(2) by simp_all
      have "bus_of (ie_autos ?e ! j) = bus_of (ie_autos e ! j)" if "j < ie_num_channels e" for j
        using r that by (simp only: retried_def)
      moreover have "\<not> au_pending (ie_autos (retry_loop B dn bus idx is ?e) ! i)"
        using IH(1) i len n(1) unfolding retried_def by auto
      ultimately show ?thesis unfolding go using IH retried_trans [OF r IH(1)] Cons.prems(2) by simp
    next
      case (started env)
      let ?e = "upd_auto i (\<lambda>a. a\<lparr>au_pending := False\<rparr>) (upd_auto i (\<lambda>a. a\<lparr>au_in_flight := True\<rparr>) (e\<lparr>ie_env := env\<rparr>))"
      have go: "retry_loop B dn bus idx (i # is) e = ?e" using True bus started by (simp add: Let_def)
      have "retried (bus, idx) e ?e" using retried_start [OF Cons.prems(1) i, of env] True bus(3) Cons.prems(3) by simp
      moreover have "flying (ie_num_channels e) (ie_autos ?e) (ie_slots e) (bus, idx)"
        unfolding flying_def using len i bus by (intro disjI1 exI [of _ i]) (simp add: bus_of_def)
      ultimately show ?thesis unfolding go by simp
    qed
  qed
qed

lemma retry_pending_on_bus_ok:
  assumes later: "completes_later B" and ok: "autos_ok (ie_num_channels e) (ie_autos e)"
    and others: "\<forall>i < ie_num_channels e. au_pending (ie_autos e ! i) \<and> bus_of (ie_autos e ! i) \<noteq> (bus, idx) \<longrightarrow>
      flying (ie_num_channels e) (ie_autos e) (ie_slots e) (bus_of (ie_autos e ! i))"
  shows "retried (bus, idx) e (retry_pending_on_bus B dn bus idx e) \<and>
    served (ie_num_channels e) (ie_autos (retry_pending_on_bus B dn bus idx e)) (ie_slots e)"
proof (cases "flying (ie_num_channels e) (ie_autos e) (ie_slots e) (bus, idx)")
  case True
  then have "retry_pending_on_bus B dn bus idx e = e"
    using is_bus_in_flight_iff [OF ok] by (simp add: retry_pending_on_bus_def)
  moreover have "served (ie_num_channels e) (ie_autos e) (ie_slots e)" using True others unfolding served_def by metis
  ultimately show ?thesis using retried_refl [OF ok] by simp
next
  case False
  let ?e = "retry_loop B dn bus idx [0..<ie_num_channels e] e"
  have "retry_pending_on_bus B dn bus idx e = ?e"
    using False is_bus_in_flight_iff [OF ok] by (simp add: retry_pending_on_bus_def)
  moreover have 1: "retried (bus, idx) e ?e \<and> (\<forall>i \<in> set [0..<ie_num_channels e]. au_pending (ie_autos ?e ! i) \<and> bus_of (ie_autos e ! i) = (bus, idx) \<longrightarrow>
       flying (ie_num_channels e) (ie_autos ?e) (ie_slots e) (bus, idx))"
    by (rule retry_loop_ok [OF later ok _ False]) simp
  have r: "retried (bus, idx) e ?e" using 1 by simp
  have mono: "flying (ie_num_channels e) (ie_autos ?e) (ie_slots e) b" if "flying (ie_num_channels e) (ie_autos e) (ie_slots e) b" for b
    using that r unfolding flying_def retried_def by metis
  have "served (ie_num_channels e) (ie_autos ?e) (ie_slots e)"
    unfolding served_def
  proof (intro allI impI)
    fix i assume i: "i < ie_num_channels e" "au_pending (ie_autos ?e ! i)"
    from r i have b: "bus_of (ie_autos ?e ! i) = bus_of (ie_autos e ! i)" "au_pending (ie_autos e ! i)" by (simp_all add: retried_def)
    show "flying (ie_num_channels e) (ie_autos ?e) (ie_slots e) (bus_of (ie_autos ?e ! i))"
    proof (cases "bus_of (ie_autos e ! i) = (bus, idx)")
      case True
      moreover have "i \<in> set [0..<ie_num_channels e]" using i by simp
      ultimately show ?thesis using 1 [THEN conjunct2] i(2) b(1) by (metis set_upt atLeastLessThan_iff)
    next
      case False
      then show ?thesis using others i b mono by simp
    qed
  qed
  ultimately show ?thesis using r by simp
qed

text \<open>When every waiting channel is served there is nothing to retry.\<close>

lemma retry_pending_idle:
  assumes "engine_ok e"
  shows "retry_pending B dn e = e"
proof -
  note ok = assms [unfolded engine_ok_def]
  have "fold (\<lambda>i e. let a = ie_autos e ! i in
     if au_pending a then retry_pending_on_bus B dn (ac_bus_type (au_snap a)) (ac_bus_index (au_snap a)) e else e) is e = e"
    if "\<forall>i \<in> set is. i < ie_num_channels e" for "is"
    using that
  proof (induction "is")
    case (Cons i "is")
    have "is_bus_in_flight (ac_bus_type (au_snap (ie_autos e ! i))) (ac_bus_index (au_snap (ie_autos e ! i))) e" if "au_pending (ie_autos e ! i)"
      using ok Cons.prems that by (simp add: is_bus_in_flight_iff served_def bus_of_def)
    then show ?case using Cons by (simp add: Let_def retry_pending_on_bus_def)
  qed simp
  from this [of "[0..<ie_num_channels e]"] show ?thesis by (simp add: retry_pending_def)
qed

section \<open>Edges and completions\<close>

lemma flying_update:
  "i < length as \<Longrightarrow> au_in_flight a = au_in_flight (as ! i) \<Longrightarrow> au_in_flight a \<longrightarrow> bus_of a = bus_of (as ! i) \<Longrightarrow>
    flying n (as[i := a]) ss b = flying n as ss b"
  unfolding flying_def by (intro arg_cong2 [where f = "(\<or>)"] ex_cong refl) (auto simp: nth_list_update)

lemma flying_mono:
  "i < length as \<Longrightarrow> \<not> au_in_flight (as ! i) \<Longrightarrow> flying n as ss b \<Longrightarrow> flying n (as[i := a]) ss b"
  unfolding flying_def by (metis nth_list_update_neq)

text \<open>A channel's entry changes but its transfer does not.\<close>

lemma engine_ok_update:
  assumes ok: "engine_ok e" and i: "i < ie_num_channels e"
    and a: "auto_ok a" "au_in_flight a = au_in_flight (ie_autos e ! i)" "bus_of a = bus_of (ie_autos e ! i) \<or> \<not> au_in_flight a"
    "au_pending a \<longrightarrow> flying (ie_num_channels e) (ie_autos e) (ie_slots e) (bus_of a)"
    and e': "ie_autos e' = (ie_autos e)[i := a]" "ie_num_channels e' = ie_num_channels e" "ie_slots e' = ie_slots e"
  shows "engine_ok e'"
proof -
  note ok' = ok [unfolded engine_ok_def]
  have len: "i < length (ie_autos e)" using autos_okD(2) [OF ok' [THEN conjunct1]] i by simp
  have fly: "flying n ((ie_autos e)[i := a]) ss b = flying n (ie_autos e) ss b" for n ss b
    by (rule flying_update [OF len a(2)]) (use a in auto)
  have "autos_ok (ie_num_channels e) ((ie_autos e)[i := a])"
  proof (rule autos_ok_update [OF _ i a(1)])
    assume "au_in_flight a"
    then show "\<forall>j<ie_num_channels e. j \<noteq> i \<longrightarrow> au_in_flight (ie_autos e ! j) \<longrightarrow> bus_of (ie_autos e ! j) \<noteq> bus_of a"
      using autos_okD(2,5) [OF ok' [THEN conjunct1]] a(2,3) len by (metis order_less_le_trans)
  qed (use ok' in simp)
  then show ?thesis using ok' a(4) len unfolding engine_ok_def e' served_def fly by (auto simp: nth_list_update)
qed

definition edge_hits :: "u32 \<Rightarrow> auto_state \<Rightarrow> bool" where
  "edge_hits pin a \<longleftrightarrow> ac_auto_mode (au_cfg a) \<and> ac_trigger_pin (au_cfg a) = pin"

definition same_ends :: "'e io_engine \<Rightarrow> 'e io_engine \<Rightarrow> bool" where
  "same_ends e e' \<longleftrightarrow> ie_num_channels e' = ie_num_channels e \<and> ie_slots e' = ie_slots e \<and> ie_has_ingress e' = ie_has_ingress e \<and>
     ie_emitted e' = ie_emitted e \<and> ie_dropped e' = ie_dropped e \<and> ie_too_deep e' = ie_too_deep e"

lemma prepare_fields [simp]:
  "au_cfg (prepare_auto_transfer a) = au_cfg a" "au_snap (prepare_auto_transfer a) = au_snap a" "au_busy (prepare_auto_transfer a) = au_busy a"
  "au_pending (prepare_auto_transfer a) = au_pending a" "au_in_flight (prepare_auto_transfer a) = au_in_flight a"
  by (simp_all add: prepare_auto_transfer_def Let_def)

lemma trigger_channel_ok:
  assumes later: "completes_later B" and ok: "engine_ok e" and i: "i < ie_num_channels e"
  shows "engine_ok (trigger_channel B dn pin ts i e) \<and> same_ends e (trigger_channel B dn pin ts i e) \<and>
    edges_known (trigger_channel B dn pin ts i e) = edges_known e + (if edge_hits pin (ie_autos e ! i) then 1 else 0) \<and>
    map au_cfg (ie_autos (trigger_channel B dn pin ts i e)) = map au_cfg (ie_autos e)"
proof -
  let ?as = "ie_autos e" and ?a = "ie_autos e ! i" and ?n = "ie_num_channels e"
  note ok' = ok [unfolded engine_ok_def]
  note aok = ok' [THEN conjunct1]
  have len: "i < length ?as" using autos_okD(2) [OF aok] i by simp
  have a: "auto_ok ?a" by (rule autos_okD(3) [OF aok len])
  have cfg: "map au_cfg (?as[i := b]) = map au_cfg ?as" if "au_cfg b = au_cfg ?a" for b
    using that len by (simp add: map_update) (metis length_map list_update_id nth_map)
  show ?thesis
  proof (cases "edge_hits pin ?a")
    case False
    then show ?thesis using ok by (auto simp: trigger_channel_def edge_hits_def same_ends_def)
  next
    case hit: True
    then have armed: "ac_auto_mode (au_cfg ?a)" "ac_trigger_pin (au_cfg ?a) = pin" by (simp_all add: edge_hits_def)
    show ?thesis
    proof (cases "au_busy ?a")
      case True
      define b where "b = (if au_pending ?a then ?a\<lparr>au_ts_ns := ts\<rparr> else ?a)"
      have b: "auto_ok b" "au_in_flight b = au_in_flight ?a" "bus_of b = bus_of ?a" "au_pending b = au_pending ?a" "au_cfg b = au_cfg ?a" "au_busy b = au_busy ?a"
        using a by (simp_all add: b_def auto_ok_def bus_of_def)
      define e' where "e' = (upd_auto i (\<lambda>a. b) e)\<lparr>ie_overruns := ie_overruns e + 1\<rparr>"
      have go: "trigger_channel B dn pin ts i e = e'"
        using True armed by (auto simp: trigger_channel_def e'_def b_def upd_auto_def Let_def)
      have as: "ie_autos e' = ?as[i := b]" "ie_num_channels e' = ?n" "ie_slots e' = ie_slots e" by (simp_all add: e'_def)
      have "engine_ok e'"
        by (rule engine_ok_update [OF ok i b(1,2) _ _ as]) (use b ok' i in \<open>auto simp: served_def\<close>)
      moreover have "busy_count (ie_autos e') = busy_count ?as" unfolding as by (rule busy_count_same) (simp add: b)
      ultimately show ?thesis unfolding go using hit cfg [OF b(5)] as(1)
        by (simp add: same_ends_def edges_known_def samples_def) (simp add: e'_def)
    next
      case idle: False
      define b where "b = prepare_auto_transfer (?a\<lparr>au_busy := True, au_snap := au_cfg ?a, au_ts_ns := ts\<rparr>)"
      have b: "au_busy b" "\<not> au_pending b" "\<not> au_in_flight b" "au_cfg b = au_cfg ?a" "\<not> au_in_flight ?a" "\<not> au_pending ?a"
        using a idle by (simp_all add: b_def auto_ok_def)
      define bus idx where "bus = ac_bus_type (au_cfg ?a)" and "idx = ac_bus_index (au_cfg ?a)"
      have bus: "bus_of b = (bus, idx)" by (simp add: b_def bus_of_def bus_def idx_def)
      define e1 where "e1 = upd_auto i (\<lambda>a. b) e"
      have e1: "ie_autos e1 = ?as[i := b]" "ie_num_channels e1 = ?n" "ie_slots e1 = ie_slots e" by (simp_all add: e1_def)
      have fly: "flying n (?as[i := b]) ss c = flying n ?as ss c" for n ss c by (rule flying_update [OF len]) (use b in auto)
      have iff: "is_bus_in_flight bus idx (e1\<lparr>ie_env := env\<rparr>) = flying ?n ?as (ie_slots e) (bus, idx)" for env
      proof -
        have "(\<exists>a \<in> set (take ?n (?as[i := b])). P a) \<longleftrightarrow> (\<exists>j < ?n. P (?as[i := b] ! j))" for P
          using autos_okD(2) [OF aok] by (force simp: in_set_conv_nth)
        then show ?thesis using fly [of ?n "ie_slots e" "(bus, idx)"] by (simp add: is_bus_in_flight_def e1 flying_def bus_of_def)
      qed
      have waits: "engine_ok e' \<and> busy_count (ie_autos e') = Suc (busy_count ?as)"
        if "ie_autos e' = ?as[i := b\<lparr>au_pending := True\<rparr>]" "ie_num_channels e' = ?n" "ie_slots e' = ie_slots e"
          "flying ?n ?as (ie_slots e) (bus, idx)" for e' :: "'a io_engine"
      proof
        show "engine_ok e'"
          by (rule engine_ok_update [OF ok i _ _ _ _ that(1-3)]) (use b bus that(4) in \<open>auto simp: auto_ok_def bus_of_def\<close>)
        show "busy_count (ie_autos e') = Suc (busy_count ?as)" unfolding that(1) by (rule busy_count_set [OF len]) (use b idle in simp_all)
      qed
      have go: "trigger_channel B dn pin ts i e =
          (if is_bus_in_flight bus idx e1 then upd_auto i (\<lambda>a. a\<lparr>au_pending := True\<rparr>) e1
           else let (ok, e) = start_auto_transfer B dn i e1 in
             if ok then e
             else if is_bus_in_flight bus idx e then upd_auto i (\<lambda>a. a\<lparr>au_pending := True\<rparr>) e
             else upd_auto i (\<lambda>a. a\<lparr>au_busy := False\<rparr>) (count_failed e))"
        using idle armed by (simp add: trigger_channel_def e1_def b_def upd_auto_def Let_def flip: bus_def idx_def)
      show ?thesis
      proof (cases "flying ?n ?as (ie_slots e) (bus, idx)")
        case True
        then have go: "trigger_channel B dn pin ts i e = upd_auto i (\<lambda>a. a\<lparr>au_pending := True\<rparr>) e1"
          using iff [of "ie_env e1"] unfolding go by simp
        note 1 = waits [of "upd_auto i (\<lambda>a. a\<lparr>au_pending := True\<rparr>) e1", OF _ _ _ True]
        show ?thesis unfolding go using 1 hit cfg b(4) len
          by (simp add: e1 same_ends_def edges_known_def samples_def) (simp add: e1_def)
      next
        case free: False
        have "\<not> au_in_flight (ie_autos e1 ! i)" using b len by (simp add: e1)
        with later show ?thesis
        proof (cases rule: start_auto_cases [where dn = dn and e = e1])
          case (refused env)
          then have go: "trigger_channel B dn pin ts i e = upd_auto i (\<lambda>a. a\<lparr>au_busy := False\<rparr>) (count_failed (e1\<lparr>ie_env := env\<rparr>))"
            using iff [of "ie_env e1"] iff [of env] free unfolding go by simp
          let ?e = "upd_auto i (\<lambda>a. a\<lparr>au_busy := False\<rparr>) (count_failed (e1\<lparr>ie_env := env\<rparr>))"
          have as: "ie_autos ?e = ?as[i := b\<lparr>au_busy := False\<rparr>]" "ie_num_channels ?e = ?n" "ie_slots ?e = ie_slots e"
            using len by (simp_all add: e1)
          have "engine_ok ?e"
            by (rule engine_ok_update [OF ok i _ _ _ _ as]) (use b in \<open>auto simp: auto_ok_def\<close>)
          moreover have "busy_count (ie_autos ?e) = busy_count ?as" unfolding as by (rule busy_count_same) (simp add: idle)
          ultimately show ?thesis unfolding go using hit cfg [of "b\<lparr>au_busy := False\<rparr>"] b(4) as(1)
            by (simp add: same_ends_def edges_known_def samples_def) (simp add: e1_def)
        next
          case (started env)
          then have go: "trigger_channel B dn pin ts i e = upd_auto i (\<lambda>a. a\<lparr>au_in_flight := True\<rparr>) (e1\<lparr>ie_env := env\<rparr>)"
            using iff [of "ie_env e1"] free unfolding go by simp
          let ?e = "upd_auto i (\<lambda>a. a\<lparr>au_in_flight := True\<rparr>) (e1\<lparr>ie_env := env\<rparr>)" and ?b = "b\<lparr>au_in_flight := True\<rparr>"
          have as: "ie_autos ?e = ?as[i := ?b]" "ie_num_channels ?e = ?n" "ie_slots ?e = ie_slots e" using len by (simp_all add: e1)
          have "autos_ok ?n (?as[i := ?b])"
            by (rule autos_ok_update [OF aok i]) (use b bus free in \<open>auto simp: auto_ok_def flying_def bus_of_def\<close>)
          moreover have "served ?n (?as[i := ?b]) (ie_slots e)"
            using ok' b len flying_mono [OF len b(5)] unfolding served_def by (auto simp: nth_list_update bus_of_def)
          ultimately have "engine_ok ?e" using ok' unfolding engine_ok_def as by simp
          moreover have "busy_count (ie_autos ?e) = Suc (busy_count ?as)"
            unfolding as by (rule busy_count_set [OF len]) (use b idle in simp_all)
          ultimately show ?thesis unfolding go using hit cfg [of ?b] b(4) as(1)
            by (simp add: same_ends_def edges_known_def samples_def) (simp add: e1_def)
        qed
      qed
    qed
  qed
qed

lemma take_eq_map_nth: "n \<le> length xs \<Longrightarrow> take n xs = map (\<lambda>i. xs ! i) [0..<n]"
  by (rule nth_equalityI) simp_all

lemma map_eq_nth: "map f xs = map f ys \<Longrightarrow> j < length ys \<Longrightarrow> f (xs ! j) = f (ys ! j)"
  by (metis length_map nth_map)

definition hits :: "u32 \<Rightarrow> 'e io_engine \<Rightarrow> nat" where
  "hits pin e = length (filter (edge_hits pin) (take (ie_num_channels e) (ie_autos e)))"

lemma on_trigger_ok:
  assumes later: "completes_later B" and ok: "engine_ok e"
  shows "engine_ok (on_trigger B dn pin ts e) \<and> same_ends e (on_trigger B dn pin ts e) \<and>
    edges_known (on_trigger B dn pin ts e) = edges_known e + of_nat (hits pin e)"
proof -
  have loop: "engine_ok (fold (trigger_channel B dn pin ts) is e) \<and> same_ends e (fold (trigger_channel B dn pin ts) is e) \<and>
      edges_known (fold (trigger_channel B dn pin ts) is e) = edges_known e + of_nat (length (filter (\<lambda>i. edge_hits pin (ie_autos e ! i)) is))"
    if "engine_ok e" "\<forall>i \<in> set is. i < ie_num_channels e" for "is" and e :: "'a io_engine"
    using that
  proof (induction "is" arbitrary: e)
    case Nil
    then show ?case by (simp add: same_ends_def)
  next
    case (Cons i "is")
    let ?e = "trigger_channel B dn pin ts i e"
    have i: "i < ie_num_channels e" using Cons.prems(2) by simp
    note 1 = trigger_channel_ok [OF later Cons.prems(1) i, of dn pin ts]
    have n: "ie_num_channels ?e = ie_num_channels e" using 1 by (simp add: same_ends_def)
    have cfg: "edge_hits pin (ie_autos ?e ! j) = edge_hits pin (ie_autos e ! j)" if "j \<in> set is" for j
    proof -
      have "j < length (ie_autos e)" using that Cons.prems autos_okD(2) unfolding engine_ok_def by fastforce
      moreover have "map au_cfg (ie_autos ?e) = map au_cfg (ie_autos e)" using 1 by simp
      ultimately have "au_cfg (ie_autos ?e ! j) = au_cfg (ie_autos e ! j)" by (intro map_eq_nth)
      then show ?thesis by (simp only: edge_hits_def)
    qed
    note 2 = Cons.IH [of ?e]
    have "filter (\<lambda>i. edge_hits pin (ie_autos ?e ! i)) is = filter (\<lambda>i. edge_hits pin (ie_autos e ! i)) is"
      by (intro filter_cong) (simp_all add: cfg)
    then show ?case using 1 2 n Cons.prems(2) by (auto simp: same_ends_def)
  qed
  have "\<forall>i \<in> set [0..<ie_num_channels e]. i < ie_num_channels e" by simp
  note 1 = loop [OF ok this]
  have "take (ie_num_channels e) (ie_autos e) = map (\<lambda>i. ie_autos e ! i) [0..<ie_num_channels e]"
    using autos_okD(2) [OF ok [unfolded engine_ok_def, THEN conjunct1]] by (rule take_eq_map_nth)
  then have "hits pin e = length (filter (\<lambda>i. edge_hits pin (ie_autos e ! i)) [0..<ie_num_channels e])"
    by (simp only: hits_def filter_map length_map comp_def)
  then show ?thesis using 1 retry_pending_idle [OF 1 [THEN conjunct1]] by (simp add: on_trigger_def)
qed

text \<open>The counter of packets the ingress ring refused.\<close>

definition drops_counted :: "'e io_engine \<Rightarrow> bool" where
  "drops_counted e \<longleftrightarrow> ie_has_ingress e \<and> ie_dropped e = of_nat (length (filter (\<lambda>(t, ok). \<not> ok) (ie_emitted e)))"

lemma emit_fields [simp]:
  "ie_num_channels (emit_tlp B t e) = ie_num_channels e" "ie_slots (emit_tlp B t e) = ie_slots e" "ie_autos (emit_tlp B t e) = ie_autos e"
  "ie_overruns (emit_tlp B t e) = ie_overruns e" "ie_failed (emit_tlp B t e) = ie_failed e" "ie_has_ingress (emit_tlp B t e) = ie_has_ingress e"
  "ie_too_deep (emit_tlp B t e) = ie_too_deep e"
  by (auto simp: emit_tlp_def Let_def split: prod.splits)

lemma emit_emitted:
  assumes "ie_has_ingress e"
  shows "\<exists>ok. ie_emitted (emit_tlp B t e) = ie_emitted e @ [(t, ok)]"
  using assms by (auto simp: emit_tlp_def Let_def split: prod.splits)

lemma emit_drops: "drops_counted e \<Longrightarrow> drops_counted (emit_tlp B t e)"
  by (auto simp: emit_tlp_def drops_counted_def Let_def split: prod.splits)

lemma emit_engine_ok [simp]: "engine_ok (emit_tlp B t e) = engine_ok e"
  by (simp add: engine_ok_def)

lemma emit_edges:
  assumes "ie_has_ingress e"
  shows "edges_known (emit_tlp B t e) = edges_known e + (if is_sample t then 1 else 0)"
  using emit_emitted [OF assms, of B t] by (auto simp: edges_known_def samples_def)

lemma sample_is_sample: "is_sample (sample_tlp a n)"
  by (simp add: sample_tlp_def make_stream_tx_def write_payload_def Let_def)

lemma auto_done_ok:
  assumes later: "completes_later B" and ok: "engine_ok e" and i: "i < ie_num_channels e" "au_in_flight (ie_autos e ! i)"
    and ingress: "drops_counted e"
  shows "engine_ok (auto_done B dn i r bytes e) \<and> edges_known (auto_done B dn i r bytes e) = edges_known e \<and>
    drops_counted (auto_done B dn i r bytes e) \<and> ie_slots (auto_done B dn i r bytes e) = ie_slots e \<and>
    ie_num_channels (auto_done B dn i r bytes e) = ie_num_channels e \<and> ie_too_deep (auto_done B dn i r bytes e) = ie_too_deep e"
proof -
  let ?as = "ie_autos e" and ?n = "ie_num_channels e"
  note ok' = ok [unfolded engine_ok_def]
  note aok = ok' [THEN conjunct1]
  have len: "i < length ?as" using autos_okD(2) [OF aok] i by simp
  define a where "a = (?as ! i)\<lparr>au_rx := put_at 0 bytes (au_rx (?as ! i))\<rparr>"
  define bus idx where "bus = ac_bus_type (au_snap a)" and "idx = ac_bus_index (au_snap a)"
  have a: "bus_of a = (bus, idx)" "bus_of (?as ! i) = (bus, idx)" "\<not> au_pending a" "au_busy (?as ! i)"
    using autos_okD(3) [OF aok len] i(2) by (simp_all add: a_def bus_of_def bus_def idx_def auto_ok_def)
  have landed: "engine_ok (retry_pending_on_bus B dn bus idx e1) \<and> edges_known (retry_pending_on_bus B dn bus idx e1) = edges_known e1 \<and>
      same_ends e1 (retry_pending_on_bus B dn bus idx e1)"
    if e1: "ie_autos e1 = ?as[i := b]" "ie_num_channels e1 = ?n" "ie_slots e1 = ie_slots e"
      and b: "\<not> au_busy b" "\<not> au_in_flight b" "\<not> au_pending b" "bus_of b = (bus, idx)" for e1 :: "'a io_engine" and b
  proof -
    have aok1: "autos_ok (ie_num_channels e1) (ie_autos e1)"
      unfolding e1 by (rule autos_ok_update [OF aok i(1)]) (use b in \<open>simp_all add: auto_ok_def\<close>)
    have "flying ?n (?as[i := b]) (ie_slots e) c" if "flying ?n ?as (ie_slots e) c" "c \<noteq> (bus, idx)" for c
      using that a(2) unfolding flying_def by (metis nth_list_update_neq)
    then have "\<forall>j < ie_num_channels e1. au_pending (ie_autos e1 ! j) \<and> bus_of (ie_autos e1 ! j) \<noteq> (bus, idx) \<longrightarrow>
        flying (ie_num_channels e1) (ie_autos e1) (ie_slots e1) (bus_of (ie_autos e1 ! j))"
      using ok' b len unfolding e1 served_def by (auto simp: nth_list_update)
    from retry_pending_on_bus_ok [OF later aok1 this, of dn]
    show ?thesis using ok' e1 unfolding retried_def engine_ok_def same_ends_def by simp
  qed
  show ?thesis
  proof (cases "res_ok r")
    case False
    let ?b = "a\<lparr>au_in_flight := False, au_busy := False\<rparr>"
    define e1 where "e1 = upd_auto i (\<lambda>_. ?b) (count_failed e)"
    have e1: "ie_autos e1 = ?as[i := ?b]" "ie_num_channels e1 = ?n" "ie_slots e1 = ie_slots e" by (simp_all add: e1_def)
    have go: "auto_done B dn i r bytes e = retry_pending_on_bus B dn bus idx e1"
      using False len by (simp add: auto_done_def e1_def a_def bus_def idx_def upd_auto_def count_failed_def Let_def)
    have "Suc (busy_count (ie_autos e1)) = busy_count ?as"
      unfolding e1 by (rule busy_count_clear [OF len]) (use a in simp_all)
    then have "of_nat (busy_count ?as) = of_nat (busy_count (ie_autos e1)) + (1 :: u32)" by (metis of_nat_Suc add.commute)
    then have "edges_known e1 = edges_known e" by (simp add: edges_known_def samples_def) (simp add: e1_def)
    then show ?thesis unfolding go
      using landed [OF e1] a ingress by (simp add: bus_of_def same_ends_def drops_counted_def e1_def)
  next
    case True
    let ?b = "a\<lparr>au_in_flight := False, au_busy := False, au_seq := au_seq a + 1\<rparr>"
    define e1 where "e1 = upd_auto i (\<lambda>_. ?b) e"
    have e1: "ie_autos e1 = ?as[i := ?b]" "ie_num_channels e1 = ?n" "ie_slots e1 = ie_slots e" by (simp_all add: e1_def)
    have go: "auto_done B dn i r bytes e = emit_tlp B (sample_tlp a (res_transferred r)) (retry_pending_on_bus B dn bus idx e1)"
      using True len by (simp add: auto_done_def e1_def a_def bus_def idx_def upd_auto_def Let_def)
    have "Suc (busy_count (ie_autos e1)) = busy_count ?as"
      unfolding e1 by (rule busy_count_clear [OF len]) (use a in simp_all)
    then have "of_nat (busy_count ?as) = of_nat (busy_count (ie_autos e1)) + (1 :: u32)" by (metis of_nat_Suc add.commute)
    then have edges: "edges_known e1 + 1 = edges_known e" by (simp add: edges_known_def samples_def) (simp add: e1_def)
    note 1 = landed [OF e1]
    define e2 where "e2 = retry_pending_on_bus B dn bus idx e1"
    have "engine_ok e2 \<and> edges_known e2 = edges_known e1 \<and> same_ends e1 e2"
      unfolding e2_def by (rule landed [OF e1]) (use a in \<open>simp_all add: bus_of_def\<close>)
    moreover from this have drops: "drops_counted e2" using ingress by (simp add: same_ends_def drops_counted_def e1_def)
    moreover have "edges_known (emit_tlp B (sample_tlp a (res_transferred r)) e2) = edges_known e2 + 1"
      using emit_edges [of e2 B "sample_tlp a (res_transferred r)"] drops sample_is_sample by (simp add: drops_counted_def)
    ultimately show ?thesis unfolding go e2_def [symmetric]
      using edges emit_drops [OF drops] by (simp add: same_ends_def e1_def)
  qed
qed

section \<open>Bridge requests\<close>

lemma flying_slot_mono:
  assumes "k < length ss" and "bg_in_use (ss ! k) \<and> bg_in_flight (ss ! k) \<longrightarrow>
      bg_in_use s \<and> bg_in_flight s \<and> bg_bus s = bg_bus (ss ! k) \<and> bg_bus_index s = bg_bus_index (ss ! k)"
    "flying n as ss b"
  shows "flying n as (ss[k := s]) b"
proof (cases "\<exists>x \<in> set ss. bg_in_use x \<and> bg_in_flight x \<and> (bg_bus x, bg_bus_index x) = b")
  case True
  then obtain j where j: "j < length ss" "bg_in_use (ss ! j)" "bg_in_flight (ss ! j)" "(bg_bus (ss ! j), bg_bus_index (ss ! j)) = b"
    by (auto simp: in_set_conv_nth)
  then have "ss[k := s] ! j \<in> set (ss[k := s])" by simp
  then show ?thesis using assms(1,2) j unfolding flying_def by (cases "j = k") force+
next
  case False
  then show ?thesis using assms(3) by (auto simp: flying_def)
qed

lemma flying_free_slot:
  assumes "k < length ss" "\<not> (bg_in_use (ss ! k) \<and> bg_in_flight (ss ! k))" "\<not> (bg_in_use s \<and> bg_in_flight s)"
  shows "flying n as (ss[k := s]) b = flying n as ss b"
proof
  assume "flying n as ss b"
  then show "flying n as (ss[k := s]) b" using assms by (intro flying_slot_mono) auto
next
  assume "flying n as (ss[k := s]) b"
  then have "flying n as (ss[k := s, k := ss ! k]) b"
    by (intro flying_slot_mono [of k "ss[k := s]"]) (use assms in auto)
  then show "flying n as ss b" by simp
qed

lemma slots_ok_update: "slots_ok ss \<Longrightarrow> bg_in_flight s = bg_in_use s \<Longrightarrow> slots_ok (ss[k := s])"
  unfolding slots_ok_def by (auto dest: set_update_subset_insert [THEN subsetD])

definition in_use_count :: "bridge_slot list \<Rightarrow> nat" where
  "in_use_count ss = length (filter bg_in_use ss)"

lemma bridge_cpl_tag [simp]: "wtag (bridge_cpl bus tag st data dur ts ch) = tag" "wchannel (bridge_cpl bus tag st data dur ts ch) = ch"
  "wtype (bridge_cpl bus tag st data dur ts ch) = 3"
  by (simp_all add: bridge_cpl_def make_spi_cpl_def make_i2c_cpl_def write_payload_def Let_def)

text \<open>
  How a request ends: with a reply at once, or with a transfer of its own in a slot that was free.
\<close>

definition replied :: "tlp \<Rightarrow> 'e io_engine \<Rightarrow> 'e io_engine \<Rightarrow> bool" where
  "replied t e e' \<longleftrightarrow> ie_slots e' = ie_slots e \<and> (\<exists>reply ok. ie_emitted e' = ie_emitted e @ [(reply, ok)] \<and> \<not> is_sample reply \<and> wtag reply = wtag t)"

definition slot_taken :: "tlp \<Rightarrow> 'e io_engine \<Rightarrow> 'e io_engine \<Rightarrow> bool" where
  "slot_taken t e e' \<longleftrightarrow> ie_emitted e' = ie_emitted e \<and> (\<exists>k s. k < length (ie_slots e) \<and> \<not> bg_in_use (ie_slots e ! k) \<and>
     ie_slots e' = (ie_slots e)[k := s] \<and> bg_in_use s \<and> bg_in_flight s \<and> bg_tag s = wtag t \<and> bg_channel s = wchannel t)"

definition same_autos :: "'e io_engine \<Rightarrow> 'e io_engine \<Rightarrow> bool" where
  "same_autos e e' \<longleftrightarrow> ie_num_channels e' = ie_num_channels e \<and> ie_autos e' = ie_autos e \<and> ie_overruns e' = ie_overruns e \<and>
     ie_failed e' = ie_failed e \<and> ie_has_ingress e' = ie_has_ingress e \<and> ie_too_deep e' = ie_too_deep e"

lemma reject_ok:
  assumes "drops_counted e" "engine_ok e"
  shows "engine_ok (reject_request B t bus st e) \<and> drops_counted (reject_request B t bus st e) \<and>
    same_autos e (reject_request B t bus st e) \<and> replied t e (reject_request B t bus st e)"
proof -
  let ?c = "bridge_cpl bus (wtag t) st [] 0 0 (wchannel t)"
  obtain ok where "ie_emitted (emit_tlp B ?c e) = ie_emitted e @ [(?c, ok)]"
    using emit_emitted assms(1) unfolding drops_counted_def by blast
  then have "replied t e (emit_tlp B ?c e)" unfolding replied_def by (intro conjI exI [of _ ?c] exI [of _ ok]) simp_all
  then show ?thesis using assms emit_drops [OF assms(1)] by (simp add: reject_request_def same_autos_def)
qed

lemma alloc_slot_cases:
  obtains (none) "alloc_slot e = (None, e)" "\<forall>s \<in> set (ie_slots e). bg_in_use s"
    | (slot) k where "alloc_slot e = (Some k, upd_slot k (\<lambda>s. s\<lparr>bg_in_use := True\<rparr>) e)" "k < length (ie_slots e)" "\<not> bg_in_use (ie_slots e ! k)"
proof (cases "find (\<lambda>k. \<not> bg_in_use (ie_slots e ! k)) [0..<length (ie_slots e)]")
  case None
  then show thesis by (intro none) (simp add: alloc_slot_def, auto simp: find_None_iff in_set_conv_nth)
next
  case (Some k)
  then show thesis by (intro slot [of k]) (simp add: alloc_slot_def, auto simp: find_Some_iff)
qed

text \<open>A slot is filled in and its transfer started.\<close>

lemma start_bridge_ok:
  assumes later: "completes_later B" and ok: "engine_ok e" "drops_counted e"
    and k: "k < length (ie_slots e)" "\<not> bg_in_use (ie_slots e ! k)"
    and s: "bg_in_use s" "bg_tag s = wtag t" "bg_channel s = wchannel t"
    and e1: "e1 = upd_slot k (\<lambda>_. s) e"
  shows "engine_ok (start_bridge B dn t k x e1) \<and> drops_counted (start_bridge B dn t k x e1) \<and> same_autos e (start_bridge B dn t k x e1) \<and>
    (in_use_count (ie_slots (start_bridge B dn t k x e1)) + length (ie_emitted (start_bridge B dn t k x e1)) =
       Suc (in_use_count (ie_slots e) + length (ie_emitted e))) \<and>
    edges_known (start_bridge B dn t k x e1) = edges_known e \<and>
    ((\<exists>reply ok. ie_emitted (start_bridge B dn t k x e1) = ie_emitted e @ [(reply, ok)] \<and> wtag reply = wtag t) \<or>
     slot_taken t e (start_bridge B dn t k x e1))"
proof -
  let ?n = "ie_num_channels e" and ?as = "ie_autos e" and ?ss = "ie_slots e"
  note ok' = ok(1) [unfolded engine_ok_def]
  have count: "in_use_count (?ss[k := x]) = in_use_count ?ss + (if bg_in_use x then 1 else 0)" for x
  proof -
    have "filter bg_in_use ?ss = filter bg_in_use (take k ?ss) @ filter bg_in_use [?ss ! k] @ filter bg_in_use (drop (Suc k) ?ss)"
      by (subst id_take_nth_drop [OF k(1)]) (simp only: filter_append [symmetric] append_Cons append_Nil)
    then show ?thesis using k(2) by (simp add: in_use_count_def upd_conv_take_nth_drop [OF k(1)])
  qed
  obtain ans env where ans: "be_start_transfer B x (ie_env e) = (ans, env)" by fastforce
  show ?thesis
  proof (cases ans)
    case Refused
    define e2 where "e2 = upd_slot k (\<lambda>_. s\<lparr>bg_in_flight := False, bg_in_use := False\<rparr>) (e\<lparr>ie_env := env\<rparr>)"
    have go: "start_bridge B dn t k x e1 = reject_request B t (xf_bus x) ASP_STATUS_QUEUE_FULL e2"
      using ans Refused k(1) by (simp add: start_bridge_def e1 e2_def upd_slot_def Let_def)
    have "flying n as (ie_slots e2) b = flying n as ?ss b" for n as b
      unfolding e2_def using k by (simp add: flying_free_slot)
    then have "served (ie_num_channels e2) (ie_autos e2) (ie_slots e2)" using ok' unfolding served_def by (simp add: e2_def)
    then have "engine_ok e2" using ok' unfolding engine_ok_def by (simp add: e2_def slots_ok_update)
    moreover have d: "drops_counted e2" using ok(2) by (simp add: drops_counted_def e2_def)
    ultimately have 1: "engine_ok (reject_request B t (xf_bus x) ASP_STATUS_QUEUE_FULL e2) \<and> drops_counted (reject_request B t (xf_bus x) ASP_STATUS_QUEUE_FULL e2)"
      by (simp add: reject_request_def emit_drops)
    obtain c okp where em: "ie_emitted (reject_request B t (xf_bus x) ASP_STATUS_QUEUE_FULL e2) = ie_emitted e @ [(c, okp)]"
      "wtag c = wtag t" "\<not> is_sample c"
      using emit_emitted [of e2 B "bridge_cpl (xf_bus x) (wtag t) ASP_STATUS_QUEUE_FULL [] 0 0 (wchannel t)"] ok(2)
      by (auto simp: reject_request_def drops_counted_def e2_def)
    have "ie_slots e2 = ?ss[k := s\<lparr>bg_in_flight := False, bg_in_use := False\<rparr>]" by (simp add: e2_def)
    then have "in_use_count (ie_slots e2) = in_use_count ?ss" using count by simp
    moreover have "edges_known (reject_request B t (xf_bus x) ASP_STATUS_QUEUE_FULL e2) = edges_known e"
      unfolding edges_known_def samples_def em(1) using em(3) by (simp add: reject_request_def e2_def)
    moreover have "same_autos e (reject_request B t (xf_bus x) ASP_STATUS_QUEUE_FULL e2)" by (simp add: same_autos_def reject_request_def e2_def)
    moreover have "ie_slots (reject_request B t (xf_bus x) ASP_STATUS_QUEUE_FULL e2) = ie_slots e2" by (simp add: reject_request_def)
    ultimately show ?thesis unfolding go using 1 em by simp
  next
    case Started
    define e2 where "e2 = upd_slot k (\<lambda>_. s\<lparr>bg_in_flight := True\<rparr>) (e\<lparr>ie_env := env\<rparr>)"
    have go: "start_bridge B dn t k x e1 = e2"
      using ans Started k(1) by (simp add: start_bridge_def e1 e2_def upd_slot_def Let_def)
    have slots: "ie_slots e2 = ?ss[k := s\<lparr>bg_in_flight := True\<rparr>]" by (simp add: e2_def)
    have "flying n as (ie_slots e2) b" if "flying n as ?ss b" for n as b
      unfolding slots using k that by (intro flying_slot_mono) auto
    then have "served (ie_num_channels e2) (ie_autos e2) (ie_slots e2)" using ok' unfolding served_def by (simp add: e2_def)
    then have "engine_ok e2" using ok' s unfolding engine_ok_def by (simp add: e2_def slots_ok_update)
    moreover have "drops_counted e2" using ok(2) by (simp add: drops_counted_def e2_def)
    moreover have "same_autos e e2" "edges_known e2 = edges_known e" "ie_emitted e2 = ie_emitted e"
      by (simp_all add: same_autos_def e2_def edges_known_def samples_def)
    moreover have "slot_taken t e e2" unfolding slot_taken_def slots using k s \<open>ie_emitted e2 = ie_emitted e\<close>
      by (intro conjI exI [of _ k] exI [of _ "s\<lparr>bg_in_flight := True\<rparr>"]) simp_all
    ultimately show ?thesis unfolding go using count [of "s\<lparr>bg_in_flight := True\<rparr>"] s slots by simp
  next
    case (Completed r bytes)
    then show ?thesis using later ans by (metis completes_later_def fst_conv)
  qed
qed
definition bridge_outcome :: "tlp \<Rightarrow> 'e io_engine \<Rightarrow> 'e io_engine \<Rightarrow> bool" where
  "bridge_outcome t e e' \<longleftrightarrow> engine_ok e' \<and> drops_counted e' \<and> same_autos e e' \<and>
     in_use_count (ie_slots e') + length (ie_emitted e') = Suc (in_use_count (ie_slots e) + length (ie_emitted e)) \<and>
     edges_known e' = edges_known e \<and>
     ((\<exists>reply ok. ie_emitted e' = ie_emitted e @ [(reply, ok)] \<and> wtag reply = wtag t) \<or> slot_taken t e e')"

lemma reject_outcome:
  assumes "drops_counted e" "engine_ok e"
  shows "bridge_outcome t e (reject_request B t bus st e)"
proof -
  have 1: "engine_ok (reject_request B t bus st e) \<and> drops_counted (reject_request B t bus st e) \<and> same_autos e (reject_request B t bus st e)"
    and 2: "replied t e (reject_request B t bus st e)" using reject_ok [OF assms] by simp_all
  from 2 obtain c ok where c: "ie_emitted (reject_request B t bus st e) = ie_emitted e @ [(c, ok)]" "\<not> is_sample c" "wtag c = wtag t"
    "ie_slots (reject_request B t bus st e) = ie_slots e" unfolding replied_def by blast
  have "edges_known (reject_request B t bus st e) = edges_known e"
    unfolding edges_known_def samples_def c(1) using 1 c(2) by (simp add: same_autos_def)
  then show ?thesis unfolding bridge_outcome_def using 1 c by simp
qed

lemma handle_spi_outcome:
  assumes later: "completes_later B" and ok: "engine_ok e" "drops_counted e"
  shows "bridge_outcome t e (handle_spi B dn t e)"
proof (cases "bus_locked bus_spi e")
  case True
  then show ?thesis using reject_outcome [OF ok(2,1)] by (simp add: handle_spi_def)
next
  case False
  show ?thesis
  proof (cases e rule: alloc_slot_cases)
    case none
    then show ?thesis using False reject_outcome [OF ok(2,1)] by (simp add: handle_spi_def Let_def)
  next
    case (slot k)
    let ?hdr = "spi_view_req_header t" and ?tx = "spi_view_tx_data t"
    define n where "n = (if length ?tx > (if unat (sr_rx_len ?hdr) > kSpiBridgeMax then kSpiBridgeMax else unat (sr_rx_len ?hdr)) then length ?tx
      else (if unat (sr_rx_len ?hdr) > kSpiBridgeMax then kSpiBridgeMax else unat (sr_rx_len ?hdr)))"
    define s where "s = (ie_slots e ! k)\<lparr>bg_in_use := True, bg_bus := bus_spi, bg_bus_index := sr_bus_id ?hdr, bg_tag := wtag t,
      bg_channel := wchannel t, bg_rx_len := n, bg_tx := put_at 0 ?tx (replicate kSpiBridgeMax 0)\<rparr>"
    have "\<exists>x. handle_spi B dn t e = start_bridge B dn t k x (upd_slot k (\<lambda>_. s) e)"
      using False slot by (simp add: handle_spi_def upd_slot_def s_def Let_def flip: n_def) blast
    then obtain x where go: "handle_spi B dn t e = start_bridge B dn t k x (upd_slot k (\<lambda>_. s) e)" ..
    show ?thesis unfolding bridge_outcome_def go
      by (rule start_bridge_ok [OF later ok slot(2,3)]) (simp_all add: s_def)
  qed
qed

lemma handle_i2c_outcome:
  assumes later: "completes_later B" and ok: "engine_ok e" "drops_counted e"
  shows "bridge_outcome t e (handle_i2c B dn t e)"
proof (cases "bus_locked bus_i2c e")
  case True
  then show ?thesis using reject_outcome [OF ok(2,1)] by (simp add: handle_i2c_def)
next
  case False
  show ?thesis
  proof (cases e rule: alloc_slot_cases)
    case none
    then show ?thesis using False reject_outcome [OF ok(2,1)] by (simp add: handle_i2c_def Let_def)
  next
    case (slot k)
    let ?hdr = "i2c_view_req_header t"
    define n where "n = (if unat (ir_rx_len ?hdr) > kI2cRxMax then kI2cRxMax else unat (ir_rx_len ?hdr))"
    define out where "out = (if ir_sub_flags ?hdr AND ASP_I2C_FLAG_USE_REG \<noteq> 0 then ir_reg_offset ?hdr # take (kI2cTxMax - 1) (i2c_view_tx_data t)
      else i2c_view_tx_data t)"
    define s where "s = (ie_slots e ! k)\<lparr>bg_in_use := True, bg_bus := bus_i2c, bg_bus_index := ir_bus_id ?hdr, bg_tag := wtag t,
      bg_channel := wchannel t, bg_rx_len := n, bg_tx := put_at 0 out (bg_tx (ie_slots e ! k))\<rparr>"
    have "\<exists>x. handle_i2c B dn t e = start_bridge B dn t k x (upd_slot k (\<lambda>_. s) e)"
      using False slot by (simp add: handle_i2c_def upd_slot_def s_def Let_def flip: n_def out_def) blast
    then obtain x where go: "handle_i2c B dn t e = start_bridge B dn t k x (upd_slot k (\<lambda>_. s) e)" ..
    show ?thesis unfolding bridge_outcome_def go
      by (rule start_bridge_ok [OF later ok slot(2,3)]) (simp_all add: s_def)
  qed
qed

lemma bridge_done_ok:
  assumes later: "completes_later B" and ok: "engine_ok e" "drops_counted e"
    and k: "k < length (ie_slots e)" "bg_in_flight (ie_slots e ! k)"
  shows "engine_ok (bridge_done B dn k r bytes e) \<and> drops_counted (bridge_done B dn k r bytes e) \<and>
    edges_known (bridge_done B dn k r bytes e) = edges_known e \<and> ie_num_channels (bridge_done B dn k r bytes e) = ie_num_channels e \<and>
    ie_too_deep (bridge_done B dn k r bytes e) = ie_too_deep e \<and>
    Suc (in_use_count (ie_slots (bridge_done B dn k r bytes e))) = in_use_count (ie_slots e) \<and>
    (\<exists>reply ok. ie_emitted (bridge_done B dn k r bytes e) = ie_emitted e @ [(reply, ok)] \<and> wtag reply = bg_tag (ie_slots e ! k) \<and>
       wchannel reply = bg_channel (ie_slots e ! k))"
proof -
  let ?n = "ie_num_channels e" and ?as = "ie_autos e" and ?ss = "ie_slots e"
  note ok' = ok(1) [unfolded engine_ok_def]
  have use: "bg_in_use (?ss ! k)" using ok' k unfolding slots_ok_def by (metis nth_mem)
  define s where "s = (?ss ! k)\<lparr>bg_rx := put_at 0 bytes (bg_rx (?ss ! k)), bg_in_flight := False\<rparr>"
  define e1 where "e1 = upd_slot k (\<lambda>_. s) e"
  define e2 where "e2 = retry_pending_on_bus B dn (bg_bus s) (bg_bus_index s) e1"
  obtain st data dur ts where go: "bridge_done B dn k r bytes e =
      upd_slot k (\<lambda>s. s\<lparr>bg_in_use := False\<rparr>) (emit_tlp B (bridge_cpl (bg_bus s) (bg_tag s) st data dur ts (bg_channel s)) e2)"
    using k(1) by (simp add: bridge_done_def e1_def e2_def s_def upd_slot_def Let_def)
  have e1: "ie_slots e1 = ?ss[k := s]" "ie_autos e1 = ?as" "ie_num_channels e1 = ?n" by (simp_all add: e1_def)
  have other: "flying n as (?ss[k := s]) b" if "flying n as ?ss b" "b \<noteq> (bg_bus s, bg_bus_index s)" for n as b
  proof (cases "\<exists>x \<in> set ?ss. bg_in_use x \<and> bg_in_flight x \<and> (bg_bus x, bg_bus_index x) = b")
    case True
    then obtain j where j: "j < length ?ss" "bg_in_use (?ss ! j)" "bg_in_flight (?ss ! j)" "(bg_bus (?ss ! j), bg_bus_index (?ss ! j)) = b"
      by (auto simp: in_set_conv_nth)
    then have "j \<noteq> k" using that(2) by (auto simp: s_def)
    then have "?ss[k := s] ! j = ?ss ! j" by simp
    moreover have "?ss[k := s] ! j \<in> set (?ss[k := s])" using j(1) by (intro nth_mem) simp
    ultimately have "?ss ! j \<in> set (?ss[k := s])" by simp
    then show ?thesis using j unfolding flying_def by metis
  next
    case False
    then show ?thesis using that(1) by (auto simp: flying_def)
  qed
  have "autos_ok (ie_num_channels e1) (ie_autos e1)" using ok' e1 by simp
  moreover have "\<forall>i < ie_num_channels e1. au_pending (ie_autos e1 ! i) \<and> bus_of (ie_autos e1 ! i) \<noteq> (bg_bus s, bg_bus_index s) \<longrightarrow>
      flying (ie_num_channels e1) (ie_autos e1) (ie_slots e1) (bus_of (ie_autos e1 ! i))"
    using ok' other unfolding e1 served_def by simp
  ultimately have 1: "retried (bg_bus s, bg_bus_index s) e1 e2 \<and> served (ie_num_channels e1) (ie_autos e2) (ie_slots e1)"
    unfolding e2_def by (rule retry_pending_on_bus_ok [OF later])
  then have e2: "autos_ok ?n (ie_autos e2)" "served ?n (ie_autos e2) (?ss[k := s])" "ie_slots e2 = ?ss[k := s]" "ie_num_channels e2 = ?n"
    "ie_emitted e2 = ie_emitted e" "drops_counted e2" "edges_known e2 = edges_known e" "ie_too_deep e2 = ie_too_deep e"
    using ok(2) by (simp_all add: retried_def e1 drops_counted_def) (simp_all add: e1_def edges_known_def samples_def)
  define t where "t = bridge_cpl (bg_bus s) (bg_tag s) st data dur ts (bg_channel s)"
  define e3 where "e3 = emit_tlp B t e2"
  let ?s = "s\<lparr>bg_in_use := False\<rparr>"
  have go: "bridge_done B dn k r bytes e = upd_slot k (\<lambda>_. ?s) e3" unfolding go e3_def t_def using k(1) e2(3) by (simp add: upd_slot_def)
  have slots: "ie_slots (upd_slot k (\<lambda>_. ?s) e3) = ?ss[k := ?s]" by (simp add: e3_def e2)
  have "flying n as (?ss[k := s, k := ?s]) b = flying n as (?ss[k := s]) b" for n as b
    by (rule flying_free_slot) (use k in \<open>simp_all add: s_def\<close>)
  then have "served ?n (ie_autos e2) (?ss[k := ?s])" using e2(2) unfolding served_def by simp
  then have "engine_ok (upd_slot k (\<lambda>_. ?s) e3)"
    using ok' e2 slots by (simp add: engine_ok_def e3_def slots_ok_update s_def)
  moreover obtain okp where em: "ie_emitted e3 = ie_emitted e @ [(t, okp)]"
    using emit_emitted [of e2 B t] e2(5,6) by (auto simp: e3_def drops_counted_def)
  moreover have "wtag t = bg_tag (?ss ! k)" "wchannel t = bg_channel (?ss ! k)" "wtype t = 3" by (simp_all add: t_def s_def)
  moreover have "edges_known (upd_slot k (\<lambda>_. ?s) e3) = edges_known e2 + (if is_sample t then 1 else 0)"
    using emit_edges [of e2 B t] e2(6) by (simp add: edges_known_def samples_def e3_def drops_counted_def)
  moreover have "drops_counted (upd_slot k (\<lambda>_. ?s) e3)" using emit_drops [OF e2(6), of B t] by (simp add: drops_counted_def e3_def)
  moreover have "Suc (in_use_count (?ss[k := ?s])) = in_use_count ?ss"
  proof -
    have "filter bg_in_use ?ss = filter bg_in_use (take k ?ss) @ filter bg_in_use [?ss ! k] @ filter bg_in_use (drop (Suc k) ?ss)"
      by (subst id_take_nth_drop [OF k(1)]) (simp only: filter_append [symmetric] append_Cons append_Nil)
    then show ?thesis using use by (simp add: in_use_count_def upd_conv_take_nth_drop [OF k(1)])
  qed
  ultimately show ?thesis unfolding go using e2 slots em by (simp add: e3_def)
qed
end
