(* ===== verification/Io_Runs.thy ===== *)
theory Io_Runs
  imports Io_Invariant
begin

text \<open>
  Runs of the I/O processor engine over any sequence of edges, completions, requests and mode changes, and
  what it promises about them; and two ways in which it fails its users: a completion that comes before
  \<open>start_transfer\<close> has returned, and samples that the coroutine engine takes for completions.
\<close>

section \<open>Runs of the engine\<close>

lemma find_auto_bound: "find_auto ch e = Some i \<Longrightarrow> i < ie_num_channels e"
  by (auto simp: find_auto_def find_Some_iff)

text \<open>Disabling a channel whose transfer waits for the bus gives the transfer up.\<close>

definition gave_up :: "'e io_engine \<Rightarrow> 'e io_engine \<Rightarrow> u32" where
  "gave_up e e' = of_nat (busy_count (ie_autos e)) - of_nat (busy_count (ie_autos e'))"

lemma set_auto_mode_ok:
  assumes ok: "engine_ok e"
  shows "engine_ok (snd (set_auto_mode ch on e)) \<and> same_ends e (snd (set_auto_mode ch on e)) \<and>
    edges_known e = edges_known (snd (set_auto_mode ch on e)) + gave_up e (snd (set_auto_mode ch on e))"
proof (cases "find_auto ch e")
  case None
  then show ?thesis using ok by (simp add: set_auto_mode_def same_ends_def gave_up_def)
next
  case (Some i)
  note i = find_auto_bound [OF Some]
  let ?a = "ie_autos e ! i"
  have aok: "auto_ok ?a" using ok autos_okD(2,3) i unfolding engine_ok_def by (meson order_less_le_trans)
  define b where "b = (let a = ?a\<lparr>au_cfg := (au_cfg ?a)\<lparr>ac_auto_mode := on\<rparr>\<rparr>
      in if \<not> on \<and> \<not> au_in_flight a then a\<lparr>au_pending := False, au_busy := False\<rparr> else a)"
  have go: "snd (set_auto_mode ch on e) = upd_auto i (\<lambda>_. b) e" using Some by (simp add: set_auto_mode_def upd_auto_def b_def)
  have "engine_ok (upd_auto i (\<lambda>_. b) e)"
    by (rule engine_ok_update [OF ok i, of b])
      (use aok ok i in \<open>auto simp: b_def auto_ok_def bus_of_def engine_ok_def served_def Let_def\<close>)
  then show ?thesis unfolding go by (simp add: same_ends_def gave_up_def edges_known_def samples_def)
qed

lemma setup_channel_ok:
  assumes ok: "engine_ok e" and i: "i < ie_num_channels e"
  shows "engine_ok (upd_auto i (\<lambda>a. a\<lparr>au_cfg := c\<rparr>) e) \<and> edges_known (upd_auto i (\<lambda>a. a\<lparr>au_cfg := c\<rparr>) e) = edges_known e \<and>
    busy_count (ie_autos (upd_auto i (\<lambda>a. a\<lparr>au_cfg := c\<rparr>) e)) = busy_count (ie_autos e)"
proof -
  have aok: "auto_ok (ie_autos e ! i)" using ok autos_okD(2,3) i unfolding engine_ok_def by (meson order_less_le_trans)
  have "engine_ok (upd_auto i (\<lambda>a. a\<lparr>au_cfg := c\<rparr>) e)"
    by (rule engine_ok_update [OF ok i, of "(ie_autos e ! i)\<lparr>au_cfg := c\<rparr>"])
      (use aok ok i in \<open>auto simp: auto_ok_def bus_of_def engine_ok_def served_def\<close>)
  moreover have "busy_count ((ie_autos e)[i := (ie_autos e ! i)\<lparr>au_cfg := c\<rparr>]) = busy_count (ie_autos e)" by (rule busy_count_same) simp
  ultimately show ?thesis by (simp add: edges_known_def samples_def)
qed

definition handled :: "'e io_engine \<Rightarrow> 'e io_engine \<Rightarrow> bool" where
  "handled e e' \<longleftrightarrow> engine_ok e' \<and> drops_counted e' \<and> ie_num_channels e' = ie_num_channels e \<and> ie_too_deep e' = ie_too_deep e \<and>
     edges_known e = edges_known e' + gave_up e e'"

lemma handled_emit:
  assumes "handled e e'" "\<not> is_sample t"
  shows "handled e (emit_tlp B t e')"
  using assms emit_drops [of e' B t] emit_edges [of e' B t] by (auto simp: handled_def gave_up_def drops_counted_def)

lemma env_fields [simp]:
  "engine_ok (e\<lparr>ie_env := env\<rparr>) = engine_ok e" "edges_known (e\<lparr>ie_env := env\<rparr>) = edges_known e" "drops_counted (e\<lparr>ie_env := env\<rparr>) = drops_counted e"
  by (simp_all add: engine_ok_def edges_known_def samples_def drops_counted_def)

lemma handled_env: "handled e e' \<Longrightarrow> handled e (e'\<lparr>ie_env := env\<rparr>)"
  by (simp add: handled_def gave_up_def)

lemma handled_refl: "engine_ok e \<Longrightarrow> drops_counted e \<Longrightarrow> handled e e"
  by (simp add: handled_def gave_up_def)

lemma handled_bridge: "bridge_outcome t e e' \<Longrightarrow> handled e e'"
  by (simp add: handled_def bridge_outcome_def gave_up_def same_autos_def)

lemma handle_dma_cfg_ok:
  assumes ok: "engine_ok e" "drops_counted e"
  shows "handled e (handle_dma_cfg B t e)"
proof -
  define c where "c = auto_dma_of_payload (payload t)"
  have cpl: "\<not> is_sample (make_hw_fusion_cpl (wtag t) st (ad_cmd c) (ad_channel_id c))" for st
    by (simp add: make_hw_fusion_cpl_def write_payload_def)
  have set_mode: "handled e e'" if "set_auto_mode ch on e = (b, e')" for ch on b e'
    using set_auto_mode_ok [OF ok(1), of ch on] ok(2) that by (simp add: handled_def same_ends_def drops_counted_def)
  have new_cfg: "handled e (upd_auto i (\<lambda>a. a\<lparr>au_cfg := d\<rparr>) e)" if "i < ie_num_channels e" for i d
    using setup_channel_ok [OF ok(1) that, of d] ok(2) by (simp add: handled_def drops_counted_def gave_up_def)
  consider "ad_cmd c = ASP_DMA_CMD_ENABLE \<or> ad_cmd c = ASP_DMA_CMD_DISABLE"
    | "\<not> (ad_cmd c = ASP_DMA_CMD_ENABLE \<or> ad_cmd c = ASP_DMA_CMD_DISABLE)" "ad_cmd c = ASP_DMA_CMD_SETUP"
    | "\<not> (ad_cmd c = ASP_DMA_CMD_ENABLE \<or> ad_cmd c = ASP_DMA_CMD_DISABLE)" "ad_cmd c \<noteq> ASP_DMA_CMD_SETUP" by blast
  then have "\<exists>st e'. handle_dma_cfg B t e = emit_tlp B (make_hw_fusion_cpl (wtag t) st (ad_cmd c) (ad_channel_id c)) e' \<and> handled e e'"
  proof cases
    case 1
    obtain b e' where s: "set_auto_mode (ad_channel_id c) (ad_cmd c = ASP_DMA_CMD_ENABLE) e = (b, e')" by fastforce
    have "handle_dma_cfg B t e = emit_tlp B (make_hw_fusion_cpl (wtag t) (if b then ASP_STATUS_OK else ASP_STATUS_DMA_ERROR) (ad_cmd c) (ad_channel_id c)) e'"
      using 1 s by (simp add: handle_dma_cfg_def Let_def flip: c_def)
    then show ?thesis using set_mode [OF s] by blast
  next
    case 2
    show ?thesis
    proof (cases "find_auto (ad_channel_id c) e")
      case None
      then have "handle_dma_cfg B t e = emit_tlp B (make_hw_fusion_cpl (wtag t) ASP_STATUS_DMA_ERROR (ad_cmd c) (ad_channel_id c)) e"
        using 2 by (simp add: handle_dma_cfg_def Let_def flip: c_def)
      then show ?thesis using handled_refl [OF ok] by blast
    next
      case (Some i)
      show ?thesis
      proof (cases "au_busy (ie_autos e ! i)")
        case True
        then have "handle_dma_cfg B t e = emit_tlp B (make_hw_fusion_cpl (wtag t) ASP_STATUS_DMA_ERROR (ad_cmd c) (ad_channel_id c)) e"
          using 2 Some by (simp add: handle_dma_cfg_def Let_def flip: c_def)
        then show ?thesis using handled_refl [OF ok] by blast
      next
        case False
        define e1 where "e1 = upd_auto i (\<lambda>a. a\<lparr>au_cfg := setup_channel c (au_cfg (ie_autos e ! i))\<rparr>) e"
        have "e1 = upd_auto i (\<lambda>a. a\<lparr>au_cfg := setup_channel c (au_cfg a)\<rparr>) e" by (simp add: e1_def upd_auto_def)
        moreover obtain b env where "be_init_channel B (au_cfg (ie_autos e1 ! i)) (ie_env e1) = (b, env)" by fastforce
        ultimately have "handle_dma_cfg B t e =
            emit_tlp B (make_hw_fusion_cpl (wtag t) (if b then ASP_STATUS_OK else ASP_STATUS_DMA_ERROR) (ad_cmd c) (ad_channel_id c)) (e1\<lparr>ie_env := env\<rparr>)"
          using 2 Some False by (simp add: handle_dma_cfg_def Let_def flip: c_def)
        moreover have "handled e (e1\<lparr>ie_env := env\<rparr>)" unfolding e1_def by (intro handled_env new_cfg find_auto_bound [OF Some])
        ultimately show ?thesis by blast
      qed
    qed
  next
    case 3
    then have "handle_dma_cfg B t e = emit_tlp B (make_hw_fusion_cpl (wtag t) ASP_STATUS_DMA_ERROR (ad_cmd c) (ad_channel_id c)) e"
      by (simp add: handle_dma_cfg_def Let_def flip: c_def)
    then show ?thesis using handled_refl [OF ok] by blast
  qed
  then show ?thesis using handled_emit [OF _ cpl] by metis
qed

lemma handle_request_ok:
  assumes later: "completes_later B" and ok: "engine_ok e" "drops_counted e"
  shows "handled e (handle_request B dn t e)"
proof -
  have serial: "handled e (handle_serial B t e)"
    unfolding handle_serial_def Let_def case_prod_beta
    by (intro handled_emit handled_env handled_refl ok) simp
  have gpio: "handled e (handle_gpio B t e)"
    unfolding handle_gpio_def Let_def case_prod_beta
    by (auto intro!: handled_emit handled_env handled_refl ok simp: make_gpio_cpl_def write_payload_def Let_def)
  have read: "handled e (emit_tlp B ((make_completion_data tag v Control)\<lparr>wchannel := ch\<rparr>) (e\<lparr>ie_env := env\<rparr>))" for tag v ch env
    by (intro handled_emit handled_env handled_refl ok) (simp add: make_completion_data_def set_payload_word_def Let_def)
  show ?thesis
    unfolding handle_request_def Let_def case_prod_beta
    using serial gpio read handle_dma_cfg_ok [OF ok] handled_bridge [OF handle_spi_outcome [OF later ok]]
      handled_bridge [OF handle_i2c_outcome [OF later ok]] handled_env [OF handled_refl [OF ok]] handled_refl [OF ok]
    by presburger
qed

text \<open>
  What happens to a running engine, in any order: trigger edges, completions of transfers in flight,
  requests, mode changes by the application, and the retry that every \<open>step\<close> makes.
\<close>

datatype io_event = Edge u32 u64 | Auto_finished nat io_result "u8 list" | Bridge_finished nat io_result "u8 list" | Request tlp
  | Set_mode u8 bool | Retry

fun io_apply :: "'e io_backend \<Rightarrow> 'e done_call \<Rightarrow> io_event \<Rightarrow> 'e io_engine \<Rightarrow> 'e io_engine option" where
  "io_apply B dn (Edge pin ts) e = Some (on_trigger B dn pin ts e)"
| "io_apply B dn (Auto_finished i r bytes) e =
    (if i < ie_num_channels e \<and> au_in_flight (ie_autos e ! i) then Some (auto_done B dn i r bytes e) else None)"
| "io_apply B dn (Bridge_finished k r bytes) e =
    (if k < length (ie_slots e) \<and> bg_in_flight (ie_slots e ! k) then Some (bridge_done B dn k r bytes e) else None)"
| "io_apply B dn (Request t) e = Some (handle_request B dn t e)"
| "io_apply B dn (Set_mode ch on) e = Some (snd (set_auto_mode ch on e))"
| "io_apply B dn Retry e = Some (retry_pending B dn e)"

text \<open>With the edges that met an armed channel, and the waiting transfers that were given up.\<close>

fun io_events :: "'e io_backend \<Rightarrow> 'e done_call \<Rightarrow> io_event list \<Rightarrow> u32 \<times> u32 \<times> 'e io_engine \<Rightarrow> (u32 \<times> u32 \<times> 'e io_engine) option" where
  "io_events B dn [] w = Some w"
| "io_events B dn (x # xs) (edges, lost, e) = (case io_apply B dn x e of
       None \<Rightarrow> None
     | Some e' \<Rightarrow> io_events B dn xs
         (edges + (case x of Edge pin ts \<Rightarrow> of_nat (hits pin e) | _ \<Rightarrow> 0),
          lost + (case x of Request t \<Rightarrow> gave_up e e' | Set_mode ch on \<Rightarrow> gave_up e e' | _ \<Rightarrow> 0), e'))"

lemma io_apply_ok:
  assumes later: "completes_later B" and ok: "engine_ok e" "drops_counted e" and step: "io_apply B dn x e = Some e'"
  shows "engine_ok e' \<and> drops_counted e' \<and> ie_too_deep e' = ie_too_deep e \<and>
    edges_known e' + (case x of Request t \<Rightarrow> gave_up e e' | Set_mode ch on \<Rightarrow> gave_up e e' | _ \<Rightarrow> 0) =
      edges_known e + (case x of Edge pin ts \<Rightarrow> of_nat (hits pin e) | _ \<Rightarrow> 0)"
proof (cases x)
  case (Edge pin ts)
  then show ?thesis using step on_trigger_ok [OF later ok(1), of dn pin ts] ok(2) by (auto simp: same_ends_def drops_counted_def)
next
  case (Auto_finished i r bytes)
  then show ?thesis using step auto_done_ok [OF later ok(1) _ _ ok(2)] by (auto split: if_splits)
next
  case (Bridge_finished k r bytes)
  then show ?thesis using step bridge_done_ok [OF later ok] by (auto split: if_splits)
next
  case (Request t)
  then show ?thesis using step handle_request_ok [OF later ok, of dn t] by (simp add: handled_def)
next
  case (Set_mode ch on)
  then show ?thesis using step set_auto_mode_ok [OF ok(1), of ch on] ok(2) by (auto simp: same_ends_def drops_counted_def)
next
  case Retry
  then show ?thesis using step retry_pending_idle [OF ok(1)] ok by simp
qed

lemma io_events_ok:
  "completes_later B \<Longrightarrow> engine_ok e \<Longrightarrow> drops_counted e \<Longrightarrow> io_events B dn xs (edges, lost, e) = Some (edges', lost', e') \<Longrightarrow>
    engine_ok e' \<and> drops_counted e' \<and> ie_too_deep e' = ie_too_deep e \<and> edges_known e' + lost' + edges = edges_known e + lost + edges'"
proof (induction xs arbitrary: edges lost e)
  case (Cons x xs)
  from Cons.prems(4) obtain e1 where step: "io_apply B dn x e = Some e1" by (auto split: option.splits)
  note 1 = io_apply_ok [OF Cons.prems(1-3) step]
  then have ok: "engine_ok e1" "drops_counted e1" by blast+
  from Cons.prems(4) step have "io_events B dn xs
      (edges + (case x of Edge pin ts \<Rightarrow> of_nat (hits pin e) | _ \<Rightarrow> 0),
       lost + (case x of Request t \<Rightarrow> gave_up e e1 | Set_mode ch on \<Rightarrow> gave_up e e1 | _ \<Rightarrow> 0), e1) = Some (edges', lost', e')" by simp
  from Cons.IH [OF Cons.prems(1) ok this] 1 show ?case by (simp add: algebra_simps)
qed simp

lemma configure_ok:
  assumes "io_configure B chans True (io_engine_new False env) = (True, e)"
  shows "engine_ok e \<and> drops_counted e \<and> \<not> ie_too_deep e \<and> edges_known e = 0"
proof -
  define quiet where "quiet = (\<lambda>e :: 'a io_engine. length (ie_autos e) = kMaxChannels \<and> ie_num_channels e \<le> kMaxChannels \<and>
    (\<forall>a \<in> set (ie_autos e). \<not> au_busy a \<and> \<not> au_pending a \<and> \<not> au_in_flight a) \<and> ie_slots e = replicate kBridgeSlots bridge_slot_new \<and>
    ie_has_ingress e \<and> ie_emitted e = [] \<and> ie_dropped e = 0 \<and> ie_overruns e = 0 \<and> ie_failed e = 0 \<and> \<not> ie_too_deep e)"
  have loop: "quiet e \<Longrightarrow> quiet (snd (configure_loop B cs e))" for cs and e :: "'a io_engine"
  proof (induction cs arbitrary: e)
    case (Cons c cs)
    show ?case
    proof (cases "ie_num_channels e \<ge> kMaxChannels")
      case False
      define e1 where "e1 = upd_auto (ie_num_channels e) (\<lambda>a. a\<lparr>au_cfg := c, au_busy := False, au_pending := False, au_in_flight := False\<rparr>) e"
      obtain ok s where s: "be_init_channel B c (ie_env e) = (ok, s)" by fastforce
      have "quiet (e1\<lparr>ie_env := s\<rparr>)" "quiet (e1\<lparr>ie_env := s, ie_num_channels := Suc (ie_num_channels e)\<rparr>)"
        using Cons.prems False set_update_subset_insert [of "ie_autos e" "ie_num_channels e"] unfolding quiet_def
        by (auto simp: e1_def dest: set_update_subset_insert [THEN subsetD])
      then show ?thesis using False Cons.IH [of "e1\<lparr>ie_env := s, ie_num_channels := Suc (ie_num_channels e)\<rparr>"] s
        by (simp add: e1_def Let_def)
    qed (use Cons.prems in simp)
  qed simp
  have "quiet (io_engine_new False env\<lparr>ie_has_ingress := True, ie_configured := False, ie_num_channels := 0\<rparr>)"
    by (simp add: quiet_def io_engine_new_def auto_state_new_def)
  from loop [OF this, of chans] have "quiet e" using assms by (auto simp: io_configure_def quiet_def Let_def split: prod.splits if_splits)
  then show ?thesis
    by (auto simp: quiet_def engine_ok_def autos_ok_def slots_ok_def served_def auto_ok_def bridge_slot_new_def drops_counted_def
      edges_known_def samples_def busy_count_def filter_False)
qed

section \<open>What the engine promises\<close>



text \<open>An SPI channel on pin 20 with one command byte, a back end that only starts transfers, and an edge with its completion.\<close>

definition quiet_backend :: "(nat \<Rightarrow> start_answer) \<Rightarrow> nat io_backend" where
  "quiet_backend ans = \<lparr>be_init_channel = \<lambda>c s. (True, s), be_start_transfer = \<lambda>x s. (ans s, Suc s), be_gpio = \<lambda>r s. (False, 0, s),
     be_read_reg = \<lambda>a s. (0, s), be_write_reg = \<lambda>a v s. s, be_serial_xfer = \<lambda>p b tx n s. ([], s), be_notify_host = \<lambda>s. s,
     be_poll_events = \<lambda>n s. (0, s), be_idle_wait = \<lambda>s. s, be_now_ns = \<lambda>s. 0, be_on_stop = \<lambda>s. s, be_push_ingress = \<lambda>t s. (True, s),
     be_on_rx_pushed = \<lambda>s. s\<rparr>"

definition imu_channel :: "u8 \<Rightarrow> u32 \<Rightarrow> auto_channel" where
  "imu_channel ch pin = auto_channel_default\<lparr>ac_channel_id := ch, ac_trigger_pin := pin, ac_rx_len := 3\<rparr>"

definition three_bytes :: io_result where
  "three_bytes = \<lparr>res_ok = True, res_transferred = 4, res_duration_us = 0, res_timestamp_ns = 0\<rparr>"

lemma auto_transfer_cong:
  "au_snap a = au_snap b \<Longrightarrow> au_cmd_len a = au_cmd_len b \<Longrightarrow> au_tx a = au_tx b \<Longrightarrow> auto_transfer i a = auto_transfer i b"
  by (simp only: auto_transfer_def)

lemma ex_take_iff: "n \<le> length xs \<Longrightarrow> (\<exists>x \<in> set (take n xs). P x) \<longleftrightarrow> (\<exists>i < n. P (xs ! i))"
  by (force simp: in_set_conv_nth)

lemma retry_loop_skip:
  "\<forall>i \<in> set is. \<not> au_pending (ie_autos e ! i) \<Longrightarrow> retry_loop B dn bus idx (is @ js) e = retry_loop B dn bus idx js e"
  by (induction "is") (simp_all add: Let_def)

text \<open>
  The engine clears \<open>pending\<close> of a retried channel only after \<open>start_transfer\<close> has returned. When the
  completion comes before that, it finds the channel still waiting on a free bus and starts it again: one
  edge makes two transfers, and the second runs with \<open>busy\<close> clear, so that the next edge rewrites its
  transmit buffer.
\<close>

theorem early_completion_transfers_twice:
  assumes i: "i < ie_num_channels e" "ie_num_channels e \<le> length (ie_autos e)"
    and waits: "au_pending (ie_autos e ! i)" "\<not> au_in_flight (ie_autos e ! i)" "bus_of (ie_autos e ! i) = (bus, idx)" "\<forall>j < i. \<not> au_pending (ie_autos e ! j)"
    and free: "\<not> is_bus_in_flight bus idx e"
    and x: "auto_transfer i (ie_autos e ! i) = Some x" "be_start_transfer B x (ie_env e) = (Completed r bytes, s1)" "res_ok r"
      "be_start_transfer B x s1 = (Started, s2)"
    and e': "e' = retry_pending_on_bus B (done_nested B (Suc n)) bus idx e"
  shows "au_in_flight (ie_autos e' ! i) \<and> \<not> au_busy (ie_autos e' ! i) \<and> \<not> au_pending (ie_autos e' ! i) \<and>
    (ie_has_ingress e \<longrightarrow> samples e' = Suc (samples e))"
proof -
  let ?n = "ie_num_channels e" and ?a = "ie_autos e ! i"
  have len: "i < length (ie_autos e)" using i by simp
  have bus: "ac_bus_type (au_snap ?a) = bus" "ac_bus_index (au_snap ?a) = idx" using waits(3) by (simp_all add: bus_of_def)
  have split: "[0..<?n] = [0..<i] @ i # [Suc i..<?n]" using i(1) upt_add_eq_append [of 0 i "?n - i"] by (simp add: upt_conv_Cons)
  define b where "b = ?a\<lparr>au_rx := put_at 0 bytes (au_rx ?a), au_in_flight := False, au_busy := False, au_seq := au_seq ?a + 1\<rparr>"
  define e1 where "e1 = e\<lparr>ie_env := s1, ie_autos := (ie_autos e)[i := b]\<rparr>"
  have others: "P b \<longleftrightarrow> P ?a \<Longrightarrow> (\<exists>j < ?n. P ((ie_autos e)[i := b] ! j)) \<longleftrightarrow> (\<exists>j < ?n. P (ie_autos e ! j))" for P
    using len by (metis nth_list_update)
  have "\<not> is_bus_in_flight bus idx e1"
    using free waits(2) others [of "\<lambda>a. au_in_flight a \<and> ac_bus_type (au_snap a) = bus \<and> ac_bus_index (au_snap a) = idx"]
    by (simp add: is_bus_in_flight_def e1_def ex_take_iff i b_def)
  moreover have "\<forall>j \<in> set [0..<i]. \<not> au_pending (ie_autos e1 ! j)" using waits(4) by (simp add: e1_def)
  moreover have xb: "auto_transfer i b = Some x"
    using x(1) auto_transfer_cong [of b ?a i] by (simp add: b_def)
  have "start_auto_transfer B (done_nested B n) i e1 = (True, upd_auto i (\<lambda>a. a\<lparr>au_in_flight := True\<rparr>) (e1\<lparr>ie_env := s2\<rparr>))"
    using xb x(4) len by (simp add: start_auto_transfer_def e1_def upd_auto_def)
  ultimately have again: "retry_pending_on_bus B (done_nested B n) bus idx e1 =
      upd_auto i (\<lambda>a. a\<lparr>au_pending := False\<rparr>) (upd_auto i (\<lambda>a. a\<lparr>au_in_flight := True\<rparr>) (e1\<lparr>ie_env := s2\<rparr>))" (is "_ = ?e2")
    using bus waits(1) len i(1) split retry_loop_skip [of "[0..<i]" e1 B "done_nested B n" bus idx "i # [Suc i..<?n]"]
    by (simp add: retry_pending_on_bus_def) (simp add: e1_def b_def Let_def)
  define t where "t = sample_tlp (?a\<lparr>au_in_flight := True, au_rx := put_at 0 bytes (au_rx ?a)\<rparr>) (res_transferred r)"
  have first: "start_auto_transfer B (done_nested B (Suc n)) i e = (True, emit_tlp B t ?e2)"
    using x(1,2,3) len bus again by (simp add: start_auto_transfer_def auto_done_def upd_auto_def Let_def t_def e1_def b_def)
  have "e' = upd_auto i (\<lambda>a. a\<lparr>au_pending := False\<rparr>) (emit_tlp B t ?e2)"
    using free split retry_loop_skip [of "[0..<i]" e B "done_nested B (Suc n)" bus idx "i # [Suc i..<?n]"] waits(1,4) bus first
    unfolding e' by (simp add: retry_pending_on_bus_def Let_def)
  moreover have "samples (emit_tlp B t ?e2) = Suc (samples ?e2)" if "ie_has_ingress e"
    using emit_emitted [of ?e2 B t] that sample_is_sample by (auto simp: samples_def e1_def t_def)
  ultimately show ?thesis using len by (simp add: e1_def b_def samples_def)
qed

section \<open>Examples\<close>

definition started_backend :: "nat io_backend" where
  "started_backend = quiet_backend (\<lambda>n. Started)"

lemma started_completes_later: "completes_later started_backend"
  by (simp add: completes_later_def started_backend_def quiet_backend_def)

definition one_channel :: "nat io_engine" where
  "one_channel = snd (io_configure started_backend [imu_channel 0 20] True (io_engine_new False 0))"

lemmas io_defs = on_trigger_def trigger_channel_def retry_pending_def retry_pending_on_bus_def start_auto_transfer_def
  auto_transfer_def is_bus_in_flight_def upd_auto_def quiet_backend_def started_backend_def imu_channel_def auto_channel_default_def
  auto_state_new_def io_configure_def io_engine_new_def kMaxChannels_def bus_spi_def bus_i2c_def

lemma one_channel_configured: "io_configure started_backend [imu_channel 0 20] True (io_engine_new False 0) = (True, one_channel)"
proof -
  have "fst (io_configure started_backend [imu_channel 0 20] True (io_engine_new False 0)) = True"
    by (simp add: io_configure_def started_backend_def quiet_backend_def io_engine_new_def kMaxChannels_def)
  then show ?thesis by (simp add: one_channel_def prod_eq_iff)
qed

lemma one_channel_fields:
  "ie_num_channels one_channel = 1" "ie_has_ingress one_channel" "ie_emitted one_channel = []" "ie_overruns one_channel = 0"
  "ie_slots one_channel = replicate kBridgeSlots bridge_slot_new"
  "ie_autos one_channel = auto_state_new\<lparr>au_cfg := imu_channel 0 20\<rparr> # replicate 3 auto_state_new"
  by (simp_all add: one_channel_def io_configure_def started_backend_def quiet_backend_def io_engine_new_def kMaxChannels_def
    auto_state_new_def numeral_eq_Suc)

lemma one_channel_edge: "\<exists>e. io_events started_backend (done_nested started_backend 1) [Edge 20 100, Retry] (0, 0, one_channel) = Some (1, 0, e) \<and>
    ie_num_channels e = 1 \<and> au_in_flight (ie_autos e ! 0)"
proof -
  have ok: "engine_ok one_channel" using configure_ok [OF one_channel_configured] by simp
  let ?a = "prepare_auto_transfer (auto_state_new\<lparr>au_cfg := imu_channel 0 20, au_busy := True, au_snap := imu_channel 0 20, au_ts_ns := 100\<rparr>)"
  obtain x where x: "auto_transfer 0 ?a = Some x"
    by (simp add: auto_transfer_def imu_channel_def auto_channel_default_def Let_def)
  have "\<not> is_bus_in_flight bus idx (upd_auto 0 (\<lambda>_. ?a) one_channel)" for bus idx
    by (simp add: is_bus_in_flight_def one_channel_fields auto_state_new_def bridge_slot_new_def)
  then have "trigger_channel started_backend dn 20 100 0 one_channel =
      (upd_auto 0 (\<lambda>_. ?a\<lparr>au_in_flight := True\<rparr>) one_channel)\<lparr>ie_env := Suc (ie_env one_channel)\<rparr>" for dn
    using x by (simp add: trigger_channel_def one_channel_fields upd_auto_def imu_channel_def auto_channel_default_def auto_state_new_def
      start_auto_transfer_def started_backend_def quiet_backend_def Let_def)
  moreover have "hits 20 one_channel = 1"
    by (simp add: hits_def edge_hits_def one_channel_fields imu_channel_def auto_channel_default_def)
  moreover note on_trigger_ok [OF started_completes_later ok, of "done_nested started_backend 1" 20 100]
  ultimately show ?thesis
    using trigger_channel_ok [OF started_completes_later ok, of 0 "done_nested started_backend 1" 20 100]
      retry_pending_idle [of "trigger_channel started_backend (done_nested started_backend 1) 20 100 0 one_channel"]
    by (simp add: on_trigger_def one_channel_fields same_ends_def)
qed




definition early_answers :: "io_result \<Rightarrow> nat \<Rightarrow> start_answer" where
  "early_answers r n = (if n = 0 then Completed r [0, 1, 2, 3] else Started)"

lemma early_completion_transfers_twice_witness:
  "\<exists>(e :: nat io_engine) (e' :: nat io_engine). samples e = 0 \<and> samples e' = 1 \<and> au_in_flight (ie_autos e' ! 0) \<and> \<not> au_busy (ie_autos e' ! 0)"
proof -
  let ?r = "\<lparr>res_ok = True, res_transferred = 4, res_duration_us = 0, res_timestamp_ns = 0\<rparr>"
  let ?B = "quiet_backend (early_answers ?r)"
  define e where "e = upd_auto 0 (\<lambda>a. a\<lparr>au_busy := True, au_pending := True\<rparr>) one_channel"
  define e' where "e' = retry_pending_on_bus ?B (done_nested ?B (Suc 0)) 0 0 e"
  obtain x where x: "auto_transfer 0 (ie_autos e ! 0) = Some x" by (simp add: e_def one_channel_def io_defs Let_def)
  have "au_in_flight (ie_autos e' ! 0) \<and> \<not> au_busy (ie_autos e' ! 0) \<and> \<not> au_pending (ie_autos e' ! 0) \<and>
    (ie_has_ingress e \<longrightarrow> samples e' = Suc (samples e))"
    by (rule early_completion_transfers_twice [where bus = 0 and idx = 0 and n = 0 and B = ?B and e = e and i = 0 and x = x and r = ?r and
          bytes = "[0, 1, 2, 3]" and ?s1.0 = 1 and ?s2.0 = 2])
      (use x in \<open>simp_all add: e'_def\<close>, simp_all add: e_def one_channel_def io_defs bus_of_def early_answers_def bridge_slot_new_def)
  moreover have "samples e = 0" "ie_has_ingress e" by (simp_all add: e_def samples_def one_channel_fields)
  ultimately have "samples e = 0 \<and> samples e' = 1 \<and> au_in_flight (ie_autos e' ! 0) \<and> \<not> au_busy (ie_autos e' ! 0)" by simp
  then show ?thesis by blast
qed

text \<open>
  A sample of an automatic channel is sent as a memory write, not as a stream packet. The coroutine engine
  that polls the ring (\<open>CoroutineIoEngine\<close>) then never gives it to a coroutine waiting for the stream; if a
  request with the channel's tag is outstanding, the sample completes that request.
\<close>

theorem auto_sample_completes_request:
  "let tag = ac_tlp_tag (au_snap a); t = sample_tlp a n; (e', posts) = rx_one t (e, []) in
    ce_stream_awaiters e' = ce_stream_awaiters e \<and>
    (if pr_active (ce_pending e tag)
     then pr_response_tlp (ce_pending e' tag) = t \<and> \<not> pr_active (ce_pending e' tag) \<and>
       posts = (if pr_awaiting_coro (ce_pending e tag) \<noteq> null_handle then [pr_awaiting_coro (ce_pending e tag)] else [])
     else e' = e \<and> posts = [])"
proof -
  have t: "wtype (sample_tlp a n) = 2" "wtag (sample_tlp a n) = ac_tlp_tag (au_snap a)"
    by (simp_all add: sample_tlp_def make_stream_tx_def write_payload_def Let_def)
  then show ?thesis by (simp add: rx_one_def completion_arrived_def Let_def)
qed

end
