(* ===== verification/Msgbox.thy ===== *)
theory Msgbox
  imports Prelude
begin

text \<open>
  The E906's view of the memory it shares with Linux, and the message box driver of
  \<open>targets/allwinner_e906/src/msgbox.cpp\<close>. Every access of the code to shared memory or to a
  register goes through two functions of a state \<open>'h\<close> that stands for everything outside the core:
  the other processor, the FIFO hardware, the memory. Nothing is assumed of them: the other side
  may change any of it between two accesses. The accesses are logged.
\<close>

section \<open>Accesses\<close>

record 'h host =
  ho_load :: "u32 \<Rightarrow> nat \<Rightarrow> 'h \<Rightarrow> u64 \<times> 'h"
  ho_store :: "u32 \<Rightarrow> nat \<Rightarrow> u64 \<Rightarrow> 'h \<Rightarrow> 'h"

datatype access = Read (acc_addr: u32) (acc_size: nat) (acc_value: u64) | Write (acc_addr: u32) (acc_size: nat) (acc_value: u64)

record 'h host_link =
  lk_env :: 'h
  lk_log :: "access list"

definition hload :: "'h host \<Rightarrow> nat \<Rightarrow> u32 \<Rightarrow> ('h, 'z) host_link_scheme \<Rightarrow> u64 \<times> ('h, 'z) host_link_scheme" where
  "hload B n a l = (let (v, s) = ho_load B a n (lk_env l) in (v, l\<lparr>lk_env := s, lk_log := lk_log l @ [Read a n v]\<rparr>))"

definition hstore :: "'h host \<Rightarrow> nat \<Rightarrow> u32 \<Rightarrow> u64 \<Rightarrow> ('h, 'z) host_link_scheme \<Rightarrow> ('h, 'z) host_link_scheme" where
  "hstore B n a v l = l\<lparr>lk_env := ho_store B a n v (lk_env l), lk_log := lk_log l @ [Write a n v]\<rparr>"

definition load16 :: "'h host \<Rightarrow> u32 \<Rightarrow> ('h, 'z) host_link_scheme \<Rightarrow> u16 \<times> ('h, 'z) host_link_scheme" where
  "load16 B a l = (let (v, l) = hload B 2 a l in (ucast v, l))"

definition load32 :: "'h host \<Rightarrow> u32 \<Rightarrow> ('h, 'z) host_link_scheme \<Rightarrow> u32 \<times> ('h, 'z) host_link_scheme" where
  "load32 B a l = (let (v, l) = hload B 4 a l in (ucast v, l))"

definition store16 :: "'h host \<Rightarrow> u32 \<Rightarrow> u16 \<Rightarrow> ('h, 'z) host_link_scheme \<Rightarrow> ('h, 'z) host_link_scheme" where
  "store16 B a v = hstore B 2 a (ucast v)"

definition store32 :: "'h host \<Rightarrow> u32 \<Rightarrow> u32 \<Rightarrow> ('h, 'z) host_link_scheme \<Rightarrow> ('h, 'z) host_link_scheme" where
  "store32 B a v = hstore B 4 a (ucast v)"

section \<open>Registers\<close>

definition RV_READ_IRQ_EN_REG :: u32 where
  "RV_READ_IRQ_EN_REG = 0x07136000 + 0x020 + 0x200"

definition RV_READ_IRQ_STA_REG :: u32 where
  "RV_READ_IRQ_STA_REG = 0x07136000 + 0x024 + 0x200"

definition RV_MSG_STA_REG :: "u8 \<Rightarrow> u32" where
  "RV_MSG_STA_REG ch = 0x07136000 + 0x060 + 0x200 + ucast ch * 4"

definition RV_MSG_FIFO_REG :: "u8 \<Rightarrow> u32" where
  "RV_MSG_FIFO_REG ch = 0x07136000 + 0x070 + 0x200 + ucast ch * 4"

definition ARM_MSG_STA_REG :: "u8 \<Rightarrow> u32" where
  "ARM_MSG_STA_REG ch = 0x03003000 + 0x060 + 0x200 + ucast ch * 4"

definition ARM_MSG_FIFO_REG :: "u8 \<Rightarrow> u32" where
  "ARM_MSG_FIFO_REG ch = 0x03003000 + 0x070 + 0x200 + ucast ch * 4"

definition DSP_READ_IRQ_EN_REG :: u32 where
  "DSP_READ_IRQ_EN_REG = 0x07120000 + 0x020"

definition DSP_READ_IRQ_STA_REG :: u32 where
  "DSP_READ_IRQ_STA_REG = 0x07120000 + 0x024"

definition DSP_MSG_STA_REG :: "u8 \<Rightarrow> u32" where
  "DSP_MSG_STA_REG ch = 0x07120000 + 0x060 + ucast ch * 4"

definition DSP_MSG_FIFO_REG :: "u8 \<Rightarrow> u32" where
  "DSP_MSG_FIFO_REG ch = 0x07120000 + 0x070 + ucast ch * 4"

definition ARM_DSP_MSG_STA_REG :: "u8 \<Rightarrow> u32" where
  "ARM_DSP_MSG_STA_REG ch = 0x03003000 + 0x100 + 0x060 + ucast ch * 4"

definition ARM_DSP_MSG_FIFO_REG :: "u8 \<Rightarrow> u32" where
  "ARM_DSP_MSG_FIFO_REG ch = 0x03003000 + 0x100 + 0x070 + ucast ch * 4"

definition MSG_NUM_MASK :: u32 where
  "MSG_NUM_MASK = 0x0F"

definition FIFO_DEPTH_MAX :: u32 where
  "FIFO_DEPTH_MAX = 8"

section \<open>Operations\<close>

text \<open>
  The four FIFO operations exist for the RISC-V port and for the DSP port; they differ in their
  registers only. \<open>fifo_send\<close>, \<open>fifo_receive\<close> and \<open>fifo_pending\<close> are the common text.
\<close>

definition fifo_send :: "'h host \<Rightarrow> u32 \<Rightarrow> u32 \<Rightarrow> u32 \<Rightarrow> ('h, 'z) host_link_scheme \<Rightarrow> bool \<times> ('h, 'z) host_link_scheme" where
  "fifo_send B sta fifo data l =
    (let (n, l) = load32 B sta l in
     if n AND MSG_NUM_MASK \<ge> FIFO_DEPTH_MAX then (False, l) else (True, store32 B fifo data l))"

definition fifo_pending :: "'h host \<Rightarrow> u32 \<Rightarrow> ('h, 'z) host_link_scheme \<Rightarrow> bool \<times> ('h, 'z) host_link_scheme" where
  "fifo_pending B sta l = (let (n, l) = load32 B sta l in (n AND MSG_NUM_MASK > 0, l))"

definition irq_bit :: "u8 \<Rightarrow> u32" where
  "irq_bit c = push_bit (2 * unat c) 1"

definition fifo_receive :: "'h host \<Rightarrow> u32 \<Rightarrow> u32 \<Rightarrow> u32 \<Rightarrow> u8 \<Rightarrow> ('h, 'z) host_link_scheme \<Rightarrow> u32 option \<times> ('h, 'z) host_link_scheme" where
  "fifo_receive B sta fifo irq_sta c l =
    (let (some, l) = fifo_pending B sta l in
     if \<not> some then (None, l)
     else let (val, l) = load32 B fifo l in (Some val, store32 B irq_sta (irq_bit c) l))"

definition mbox_send :: "'h host \<Rightarrow> u8 \<Rightarrow> u32 \<Rightarrow> ('h, 'z) host_link_scheme \<Rightarrow> bool \<times> ('h, 'z) host_link_scheme" where
  "mbox_send B c data l = (if c > 3 then (False, l) else fifo_send B (ARM_MSG_STA_REG c) (ARM_MSG_FIFO_REG c) data l)"

definition mbox_send_dsp :: "'h host \<Rightarrow> u8 \<Rightarrow> u32 \<Rightarrow> ('h, 'z) host_link_scheme \<Rightarrow> bool \<times> ('h, 'z) host_link_scheme" where
  "mbox_send_dsp B c data l = (if c > 3 then (False, l) else fifo_send B (ARM_DSP_MSG_STA_REG c) (ARM_DSP_MSG_FIFO_REG c) data l)"

definition mbox_receive :: "'h host \<Rightarrow> u8 \<Rightarrow> ('h, 'z) host_link_scheme \<Rightarrow> u32 option \<times> ('h, 'z) host_link_scheme" where
  "mbox_receive B c l = (if c > 3 then (None, l) else fifo_receive B (RV_MSG_STA_REG c) (RV_MSG_FIFO_REG c) RV_READ_IRQ_STA_REG c l)"

definition mbox_receive_dsp :: "'h host \<Rightarrow> u8 \<Rightarrow> ('h, 'z) host_link_scheme \<Rightarrow> u32 option \<times> ('h, 'z) host_link_scheme" where
  "mbox_receive_dsp B c l = (if c > 3 then (None, l) else fifo_receive B (DSP_MSG_STA_REG c) (DSP_MSG_FIFO_REG c) DSP_READ_IRQ_STA_REG c l)"

definition mbox_is_rx_pending :: "'h host \<Rightarrow> u8 \<Rightarrow> ('h, 'z) host_link_scheme \<Rightarrow> bool \<times> ('h, 'z) host_link_scheme" where
  "mbox_is_rx_pending B c l = (if c \<le> 3 then fifo_pending B (RV_MSG_STA_REG c) l else (False, l))"

definition mbox_is_dsp_rx_pending :: "'h host \<Rightarrow> u8 \<Rightarrow> ('h, 'z) host_link_scheme \<Rightarrow> bool \<times> ('h, 'z) host_link_scheme" where
  "mbox_is_dsp_rx_pending B c l = (if c \<le> 3 then fifo_pending B (DSP_MSG_STA_REG c) l else (False, l))"

definition mbox_is_tx_ready :: "'h host \<Rightarrow> u8 \<Rightarrow> ('h, 'z) host_link_scheme \<Rightarrow> bool \<times> ('h, 'z) host_link_scheme" where
  "mbox_is_tx_ready B c l =
    (if c \<le> 3 then let (n, l) = load32 B (ARM_MSG_STA_REG c) l in (n AND MSG_NUM_MASK < FIFO_DEPTH_MAX, l) else (False, l))"

definition mbox_enable_rx_irq :: "'h host \<Rightarrow> u8 \<Rightarrow> bool \<Rightarrow> ('h, 'z) host_link_scheme \<Rightarrow> ('h, 'z) host_link_scheme" where
  "mbox_enable_rx_irq B c enable l =
    (if c > 3 then l
     else let (v, l) = load32 B RV_READ_IRQ_EN_REG l in
       store32 B RV_READ_IRQ_EN_REG (if enable then v OR irq_bit c else v AND NOT (irq_bit c)) l)"

definition mbox_clear_irq_status :: "'h host \<Rightarrow> u8 \<Rightarrow> ('h, 'z) host_link_scheme \<Rightarrow> ('h, 'z) host_link_scheme" where
  "mbox_clear_irq_status B c l = (if c > 3 then l else store32 B RV_READ_IRQ_STA_REG (irq_bit c) l)"

text \<open>The loops on the FIFO state end only when the other side lets them: no value means that they never do.\<close>

partial_function (option) fifo_wait :: "'h host \<Rightarrow> u32 \<Rightarrow> ('h, 'z) host_link_scheme \<Rightarrow> ('h, 'z) host_link_scheme option" where
  "fifo_wait B sta l = (let (n, l) = load32 B sta l in if n AND MSG_NUM_MASK \<ge> FIFO_DEPTH_MAX then fifo_wait B sta l else Some l)"

definition mbox_send_blocking :: "'h host \<Rightarrow> u8 \<Rightarrow> u32 \<Rightarrow> ('h, 'z) host_link_scheme \<Rightarrow> ('h, 'z) host_link_scheme option" where
  "mbox_send_blocking B c data l =
    (if c > 3 then Some l else map_option (store32 B (ARM_MSG_FIFO_REG c) data) (fifo_wait B (ARM_MSG_STA_REG c) l))"

definition mbox_send_dsp_blocking :: "'h host \<Rightarrow> u8 \<Rightarrow> u32 \<Rightarrow> ('h, 'z) host_link_scheme \<Rightarrow> ('h, 'z) host_link_scheme option" where
  "mbox_send_dsp_blocking B c data l =
    (if c > 3 then Some l else map_option (store32 B (ARM_DSP_MSG_FIFO_REG c) data) (fifo_wait B (ARM_DSP_MSG_STA_REG c) l))"

partial_function (option) fifo_flush :: "'h host \<Rightarrow> u32 \<Rightarrow> u32 \<Rightarrow> ('h, 'z) host_link_scheme \<Rightarrow> ('h, 'z) host_link_scheme option" where
  "fifo_flush B sta fifo l =
    (let (n, l) = load32 B sta l in
     if n AND MSG_NUM_MASK > 0 then let (v, l) = load32 B fifo l in fifo_flush B sta fifo l else Some l)"

fun flush_ports :: "'h host \<Rightarrow> u8 list \<Rightarrow> ('h, 'z) host_link_scheme \<Rightarrow> ('h, 'z) host_link_scheme option" where
  "flush_ports B [] l = Some l"
| "flush_ports B (c # cs) l =
    Option.bind (fifo_flush B (RV_MSG_STA_REG c) (RV_MSG_FIFO_REG c) l) (\<lambda>l.
    Option.bind (fifo_flush B (DSP_MSG_STA_REG c) (DSP_MSG_FIFO_REG c) l) (flush_ports B cs))"

definition mbox_init :: "'h host \<Rightarrow> bool \<Rightarrow> ('h, 'z) host_link_scheme \<Rightarrow> ('h, 'z) host_link_scheme option" where
  "mbox_init B enable_irq l =
    (let en = (if enable_irq then 0x55 else 0);
         l = store32 B RV_READ_IRQ_EN_REG en l; l = store32 B RV_READ_IRQ_STA_REG 0xFFFFFFFF l;
         l = store32 B DSP_READ_IRQ_EN_REG en l; l = store32 B DSP_READ_IRQ_STA_REG 0xFFFFFFFF l
     in flush_ports B [0, 1, 2, 3] l)"

end
