(* ===== verification/Rpmsg.thy ===== *)
theory Rpmsg
  imports Msgbox "HOL-Library.Monad_Syntax"
begin

text \<open>
  The RPMsg transport of \<open>targets/allwinner_e906/src/rpmsg.cpp\<close>: two virtio rings in memory that Linux
  shares and may change at any time. Vring 0 (\<open>tp_tx\<close>) carries messages to the host, vring 1
  (\<open>tp_rx\<close>) messages from it. The loops that end only when the host stops feeding them are partial
  functions; no value means that they do not end.
\<close>

section \<open>Layout of the shared memory\<close>

definition VRING_NUM_DESCS :: u32 where
  "VRING_NUM_DESCS = 16"

definition RPMSG_BUFFER_SIZE :: u32 where
  "RPMSG_BUFFER_SIZE = 512"

definition VRING_USED_F_NO_NOTIFY :: u16 where
  "VRING_USED_F_NO_NOTIFY = 1"

definition VIRTIO_CONFIG_S_DRIVER_OK :: u8 where
  "VIRTIO_CONFIG_S_DRIVER_OK = 4"

definition kMboxSendTries :: nat where
  "kMboxSendTries = 256"

definition kReplyWaitRounds :: nat where
  "kReplyWaitRounds = 64"

definition kRingResyncAfter :: u8 where
  "kRingResyncAfter = 3"

definition kMaxEndpoints :: nat where
  "kMaxEndpoints = 8"

definition kHdr :: u32 where
  "kHdr = 16"

text \<open>Fields by their offsets: \<open>VirtioDesc\<close>, \<open>VirtioAvail\<close>, \<open>VirtioUsed\<close>, \<open>rpmsg_hdr\<close>.\<close>

definition desc_addr_at :: "u32 \<Rightarrow> u16 \<Rightarrow> u32" where
  "desc_addr_at desc i = desc + 16 * ucast i"

definition desc_len_at :: "u32 \<Rightarrow> u16 \<Rightarrow> u32" where
  "desc_len_at desc i = desc + 16 * ucast i + 8"

definition avail_idx_at :: "u32 \<Rightarrow> u32" where
  "avail_idx_at avail = avail + 2"

definition avail_ring_at :: "u32 \<Rightarrow> u32 \<Rightarrow> u32" where
  "avail_ring_at avail i = avail + 4 + 2 * i"

definition used_flags_at :: "u32 \<Rightarrow> u32" where
  "used_flags_at used = used"

definition used_idx_at :: "u32 \<Rightarrow> u32" where
  "used_idx_at used = used + 2"

definition used_id_at :: "u32 \<Rightarrow> u32 \<Rightarrow> u32" where
  "used_id_at used i = used + 4 + 8 * i"

definition used_len_at :: "u32 \<Rightarrow> u32 \<Rightarrow> u32" where
  "used_len_at used i = used + 4 + 8 * i + 4"

record virt_queue =
  vq_da :: u32
  vq_num :: u32
  vq_mask :: u32
  vq_align :: u32
  vq_desc :: u32
  vq_avail :: u32
  vq_used :: u32
  vq_last_avail_idx :: u16
  vq_bad_reads :: u8

definition virt_queue_null :: virt_queue where
  "virt_queue_null = \<lparr>vq_da = 0, vq_num = 0, vq_mask = 0, vq_align = 0, vq_desc = 0, vq_avail = 0, vq_used = 0,
     vq_last_avail_idx = 0, vq_bad_reads = 0\<rparr>"

record host_window =
  hw_host :: u64
  hw_core :: u32
  hw_size :: u32

definition windows :: "host_window list" where
  "windows = [\<lparr>hw_host = 0x48000000, hw_core = 0x48000000, hw_size = 0x100000\<rparr>,
     \<lparr>hw_host = 0x072E0000, hw_core = 0x40020000, hw_size = 0x20000\<rparr>]"

fun translate_loop :: "host_window list \<Rightarrow> u64 \<Rightarrow> u32 \<Rightarrow> u32 option" where
  "translate_loop [] host_addr n = None"
| "translate_loop (w # ws) host_addr n =
    (if n \<le> hw_size w \<and> host_addr \<ge> hw_host w \<and> host_addr - hw_host w \<le> ucast (hw_size w - n)
     then Some (hw_core w + ucast (host_addr - hw_host w)) else translate_loop ws host_addr n)"

definition translate_buf :: "u64 \<Rightarrow> u32 \<Rightarrow> u32 option" where
  "translate_buf = translate_loop windows"

definition vq_avail_offset :: "u32 \<Rightarrow> u32" where
  "vq_avail_offset num = 16 * num"

definition vq_used_offset :: "u32 \<Rightarrow> u32 \<Rightarrow> u32" where
  "vq_used_offset num align = (vq_avail_offset num + 2 * (3 + num) + align - 1) AND NOT (align - 1)"

definition vq_ring_bytes :: "u32 \<Rightarrow> u32 \<Rightarrow> u32" where
  "vq_ring_bytes num align = vq_used_offset num align + 2 * 3 + 8 * num"

definition setup_vq :: "u32 \<Rightarrow> u32 \<Rightarrow> u32 \<Rightarrow> bool \<times> virt_queue" where
  "setup_vq da num align =
    (if num = 0 \<or> num > VRING_NUM_DESCS \<or> num AND (num - 1) \<noteq> 0 \<or> align = 0 \<or> align AND (align - 1) \<noteq> 0
     then (False, virt_queue_null)
     else case translate_buf (ucast da) (vq_ring_bytes num align) of
       None \<Rightarrow> (False, virt_queue_null)
     | Some base \<Rightarrow> (True, \<lparr>vq_da = da, vq_num = num, vq_mask = num - 1, vq_align = align, vq_desc = base,
         vq_avail = base + vq_avail_offset num, vq_used = base + vq_used_offset num align,
         vq_last_avail_idx = 0, vq_bad_reads = 0\<rparr>))"

section \<open>The transport\<close>

record rpmsg_message =
  rm_src :: u32
  rm_dst :: u32
  rm_len :: u16
  rm_data :: u32
  rm_desc_idx :: u16

text \<open>A lent buffer; a size of 0 means that there is none.\<close>

record tx_buffer =
  tb_data :: u32
  tb_size :: u32
  tb_desc_idx :: u16

definition no_buffer :: tx_buffer where
  "no_buffer = \<lparr>tb_data = 0, tb_size = 0, tb_desc_idx = 0\<rparr>"

text \<open>\<open>EndpointSlot\<close>; a callback is the number of its function, with the user's pointer.\<close>

record endpoint_slot =
  ep_addr :: u32
  ep_cb :: "nat option"
  ep_user_data :: u32

definition endpoint_null :: endpoint_slot where
  "endpoint_null = \<lparr>ep_addr = 0, ep_cb = None, ep_user_data = 0\<rparr>"

text \<open>
  \<open>Transport\<close>. \<open>tp_handed\<close> is no variable of the code: it records the messages given to callbacks,
  \<open>tp_taken\<close> and \<open>tp_returned\<close> the receive descriptors taken from the ring and given back. Callbacks of
  endpoints have state of their own: every operation works on each extension of the record.
\<close>

record 'h rpmsg_transport = "'h host_link" +
  tp_kick_channel :: u8
  tp_rsc :: u32
  tp_ready :: bool
  tp_kick_owed :: bool
  tp_can_cancel :: bool
  tp_cancel_pos :: u16
  tp_rx_count :: u32
  tp_tx_count :: u32
  tp_ring_errors :: u32
  tp_tx_full_waits :: u32
  tp_mbox_full_waits :: u32
  tp_host_kicks :: u32
  tp_endpoints :: "endpoint_slot list"
  tp_num_endpoints :: nat
  tp_tx :: virt_queue
  tp_rx :: virt_queue
  tp_handed :: "rpmsg_message list"
  tp_taken :: "u16 list"
  tp_returned :: "u16 list"

definition transport_new :: "u8 \<Rightarrow> 'h \<Rightarrow> 'h rpmsg_transport" where
  "transport_new ch env = \<lparr>lk_env = env, lk_log = [], tp_kick_channel = ch, tp_rsc = 0, tp_ready = False, tp_kick_owed = False,
     tp_can_cancel = False, tp_cancel_pos = 0, tp_rx_count = 0, tp_tx_count = 0, tp_ring_errors = 0, tp_tx_full_waits = 0,
     tp_mbox_full_waits = 0, tp_host_kicks = 0, tp_endpoints = replicate kMaxEndpoints endpoint_null, tp_num_endpoints = 0,
     tp_tx = virt_queue_null, tp_rx = virt_queue_null, tp_handed = [], tp_taken = [], tp_returned = []\<rparr>"

type_synonym ('h, 'z) ep_call = "nat \<Rightarrow> u32 \<Rightarrow> rpmsg_message \<Rightarrow> ('h, 'z) rpmsg_transport_scheme \<Rightarrow> ('h, 'z) rpmsg_transport_scheme option"

definition rpmsg_reset :: "'h host \<Rightarrow> u32 \<Rightarrow> ('h, 'z) rpmsg_transport_scheme \<Rightarrow> ('h, 'z) rpmsg_transport_scheme option" where
  "rpmsg_reset B rsc t = map_option (\<lambda>t. t\<lparr>tp_rsc := rsc, tp_ready := False, tp_kick_owed := False, tp_can_cancel := False,
     tp_tx := virt_queue_null, tp_rx := virt_queue_null, tp_rx_count := 0, tp_tx_count := 0, tp_ring_errors := 0,
     tp_tx_full_waits := 0, tp_mbox_full_waits := 0, tp_host_kicks := 0, tp_num_endpoints := 0,
     tp_endpoints := replicate kMaxEndpoints endpoint_null\<rparr>) (mbox_init B False t)"

definition ring_error :: "('h, 'z) rpmsg_transport_scheme \<Rightarrow> ('h, 'z) rpmsg_transport_scheme" where
  "ring_error t = t\<lparr>tp_ring_errors := tp_ring_errors t + 1\<rparr>"

definition set_flags :: "'h host \<Rightarrow> virt_queue \<Rightarrow> u16 \<Rightarrow> ('h, 'z) rpmsg_transport_scheme \<Rightarrow> ('h, 'z) rpmsg_transport_scheme" where
  "set_flags B vq flags t =
    (let (f, t) = load16 B (used_flags_at (vq_used vq)) t in
     if f \<noteq> flags then store16 B (used_flags_at (vq_used vq)) flags t else t)"

text \<open>The resource table is packed: \<open>vdev.status\<close> is at 96, ring \<open>i\<close> at \<open>100 + 20 i\<close> with \<open>da\<close>, \<open>align\<close>, \<open>num\<close>.\<close>

definition rsc_status_at :: "u32 \<Rightarrow> u32" where
  "rsc_status_at rsc = rsc + 96"

definition rsc_vring_at :: "u32 \<Rightarrow> u32 \<Rightarrow> u32" where
  "rsc_vring_at rsc i = rsc + 100 + 20 * i"

definition load_vring :: "'h host \<Rightarrow> u32 \<Rightarrow> ('h, 'z) rpmsg_transport_scheme \<Rightarrow> (bool \<times> virt_queue) \<times> ('h, 'z) rpmsg_transport_scheme" where
  "load_vring B v t =
    (let (da, t) = load32 B v t; (num, t) = load32 B (v + 8) t; (align, t) = load32 B (v + 4) t in (setup_vq da num align, t))"

definition load_rings :: "'h host \<Rightarrow> ('h, 'z) rpmsg_transport_scheme \<Rightarrow> ('h, 'z) rpmsg_transport_scheme" where
  "load_rings B t =
    (let ((tx_ok, tx), t) = load_vring B (rsc_vring_at (tp_rsc t) 0) t; ((rx_ok, rx), t) = load_vring B (rsc_vring_at (tp_rsc t) 1) t in
     if tx_ok \<and> rx_ok
     then let t = t\<lparr>tp_tx := tx, tp_rx := rx\<rparr>; t = store16 B (used_flags_at (vq_used tx)) VRING_USED_F_NO_NOTIFY t;
              t = store16 B (used_flags_at (vq_used rx)) 0 t in t\<lparr>tp_ready := True\<rparr>
     else ring_error (t\<lparr>tp_tx := virt_queue_null, tp_rx := virt_queue_null\<rparr>))"

definition ready :: "'h host \<Rightarrow> ('h, 'z) rpmsg_transport_scheme \<Rightarrow> bool \<times> ('h, 'z) rpmsg_transport_scheme" where
  "ready B t =
    (if tp_rsc t = 0 then (False, t)
     else if tp_ready t then (True, t)
     else let (status, t) = hload B 1 (rsc_status_at (tp_rsc t)) t in
       if ucast status AND VIRTIO_CONFIG_S_DRIVER_OK = 0 then (tp_ready t, t)
       else let (da0, t) = load32 B (rsc_vring_at (tp_rsc t) 0) t in
         if da0 = 0 then (tp_ready t, t)
         else let (da1, t) = load32 B (rsc_vring_at (tp_rsc t) 1) t in
           if da1 = 0 then (tp_ready t, t) else let t = load_rings B t in (tp_ready t, t))"

fun find_endpoint :: "u32 \<Rightarrow> endpoint_slot list \<Rightarrow> nat option" where
  "find_endpoint addr [] = None"
| "find_endpoint addr (e # es) = (if ep_addr e = addr then Some 0 else map_option Suc (find_endpoint addr es))"

definition register_ep :: "u32 \<Rightarrow> nat option \<Rightarrow> u32 \<Rightarrow> ('h, 'z) rpmsg_transport_scheme \<Rightarrow> bool \<times> ('h, 'z) rpmsg_transport_scheme" where
  "register_ep addr cb user_data t =
    (case find_endpoint addr (take (tp_num_endpoints t) (tp_endpoints t)) of
       Some i \<Rightarrow> (True, t\<lparr>tp_endpoints := (tp_endpoints t)[i := (tp_endpoints t ! i)\<lparr>ep_cb := cb, ep_user_data := user_data\<rparr>]\<rparr>)
     | None \<Rightarrow> if tp_num_endpoints t \<ge> kMaxEndpoints then (False, t)
         else (True, t\<lparr>tp_endpoints := (tp_endpoints t)[tp_num_endpoints t := \<lparr>ep_addr = addr, ep_cb = cb, ep_user_data = user_data\<rparr>],
                tp_num_endpoints := tp_num_endpoints t + 1\<rparr>))"

section \<open>Rings\<close>

text \<open>
  \<open>avail_pending\<close> is called with the transmit or the receive ring of the same transport; here it
  returns the ring as it leaves it. A result of \<open>None\<close> is the answer false.
\<close>

definition avail_pending :: "'h host \<Rightarrow> virt_queue \<Rightarrow> ('h, 'z) rpmsg_transport_scheme \<Rightarrow> (u16 option \<times> virt_queue) \<times> ('h, 'z) rpmsg_transport_scheme" where
  "avail_pending B vq t =
    (if vq_avail vq = 0 then ((None, vq), t)
     else let (avail_idx, t) = load16 B (avail_idx_at (vq_avail vq)) t; ahead = avail_idx - vq_last_avail_idx vq in
       if ucast ahead > vq_num vq
       then let t = ring_error t; bad = vq_bad_reads vq + 1 in
         if bad \<ge> kRingResyncAfter then ((None, vq\<lparr>vq_last_avail_idx := avail_idx, vq_bad_reads := 0\<rparr>), t)
         else ((None, vq\<lparr>vq_bad_reads := bad\<rparr>), t)
       else ((Some ahead, vq\<lparr>vq_bad_reads := 0\<rparr>), t))"

fun notify_loop :: "'h host \<Rightarrow> nat \<Rightarrow> ('h, 'z) rpmsg_transport_scheme \<Rightarrow> ('h, 'z) rpmsg_transport_scheme" where
  "notify_loop B 0 t = t\<lparr>tp_kick_owed := True\<rparr>"
| "notify_loop B (Suc n) t =
    (let (sent, t) = mbox_send B (tp_kick_channel t) 0 t in
     if sent then t\<lparr>tp_kick_owed := False\<rparr> else notify_loop B n (t\<lparr>tp_mbox_full_waits := tp_mbox_full_waits t + 1\<rparr>))"

definition notify :: "'h host \<Rightarrow> ('h, 'z) rpmsg_transport_scheme \<Rightarrow> ('h, 'z) rpmsg_transport_scheme" where
  "notify B = notify_loop B kMboxSendTries"

definition retry_owed_kick :: "'h host \<Rightarrow> ('h, 'z) rpmsg_transport_scheme \<Rightarrow> ('h, 'z) rpmsg_transport_scheme" where
  "retry_owed_kick B t = (if tp_kick_owed t then notify B t else t)"

partial_function (option) drain_channel :: "'h host \<Rightarrow> u8 \<Rightarrow> u32 \<Rightarrow> ('h, 'z) rpmsg_transport_scheme \<Rightarrow> (u32 \<times> ('h, 'z) rpmsg_transport_scheme) option" where
  "drain_channel B c n t =
    (let (some, t) = mbox_is_rx_pending B c t in
     if some then let (v, t) = mbox_receive B c t in drain_channel B c (n + 1) t else Some (n, t))"

definition drain_doorbells :: "'h host \<Rightarrow> ('h, 'z) rpmsg_transport_scheme \<Rightarrow> ('h, 'z) rpmsg_transport_scheme option" where
  "drain_doorbells B t =
    do { (n, t) \<leftarrow> drain_channel B 0 0 t; (n, t) \<leftarrow> drain_channel B 1 n t;
         Some (if n \<noteq> 0 then t\<lparr>tp_host_kicks := tp_host_kicks t + n\<rparr> else t) }"

definition publish_used :: "'h host \<Rightarrow> virt_queue \<Rightarrow> u16 \<Rightarrow> u32 \<Rightarrow> ('h, 'z) rpmsg_transport_scheme \<Rightarrow> ('h, 'z) rpmsg_transport_scheme" where
  "publish_used B vq desc_idx len t =
    (let (used_idx, t) = load16 B (used_idx_at (vq_used vq)) t; slot = ucast used_idx AND vq_mask vq;
         t = store32 B (used_id_at (vq_used vq) slot) (ucast desc_idx) t;
         t = store32 B (used_len_at (vq_used vq) slot) len t
     in store16 B (used_idx_at (vq_used vq)) (used_idx + 1) t)"

section \<open>Transmitting\<close>

definition tx_free :: "'h host \<Rightarrow> ('h, 'z) rpmsg_transport_scheme \<Rightarrow> u16 \<times> ('h, 'z) rpmsg_transport_scheme" where
  "tx_free B t =
    (let (r, t) = ready B t in
     if \<not> r then (0, t)
     else let ((pending, vq), t) = avail_pending B (tp_tx t) t; t = t\<lparr>tp_tx := vq\<rparr>; n = (case pending of None \<Rightarrow> 0 | Some n \<Rightarrow> n)
       in (n, set_flags B vq (if n = 0 then 0 else VRING_USED_F_NO_NOTIFY) t))"

text \<open>One pass of the loop of \<open>tx_take\<close>: \<open>None\<close> is \<open>continue\<close>.\<close>

definition tx_take_one :: "'h host \<Rightarrow> u16 \<Rightarrow> ('h, 'z) rpmsg_transport_scheme \<Rightarrow> tx_buffer option \<times> ('h, 'z) rpmsg_transport_scheme" where
  "tx_take_one B min_free_after t =
    (let (n, t) = tx_free B t in
     if n \<le> min_free_after then (Some no_buffer, t)
     else let pos = vq_last_avail_idx (tp_tx t);
              (desc_idx, t) = load16 B (avail_ring_at (vq_avail (tp_tx t)) (ucast pos AND vq_mask (tp_tx t))) t;
              t = t\<lparr>tp_tx := (tp_tx t)\<lparr>vq_last_avail_idx := pos + 1\<rparr>\<rparr> in
       if ucast desc_idx \<ge> vq_num (tp_tx t) then (None, ring_error t)
       else let (addr, t) = hload B 8 (desc_addr_at (vq_desc (tp_tx t)) desc_idx) t;
                (len, t) = load32 B (desc_len_at (vq_desc (tp_tx t)) desc_idx) t;
                len = (if len > RPMSG_BUFFER_SIZE then RPMSG_BUFFER_SIZE else len) in
         case (if len > kHdr then translate_buf addr len else None) of
           None \<Rightarrow> (None, ring_error t)
         | Some hdr \<Rightarrow> (Some \<lparr>tb_data = hdr + kHdr, tb_size = len - kHdr, tb_desc_idx = desc_idx\<rparr>,
             t\<lparr>tp_can_cancel := True, tp_cancel_pos := pos\<rparr>))"

partial_function (option) tx_take_loop :: "'h host \<Rightarrow> u16 \<Rightarrow> ('h, 'z) rpmsg_transport_scheme \<Rightarrow> (tx_buffer \<times> ('h, 'z) rpmsg_transport_scheme) option" where
  "tx_take_loop B min_free_after t =
    (case tx_take_one B min_free_after t of (None, t) \<Rightarrow> tx_take_loop B min_free_after t | (Some buf, t) \<Rightarrow> Some (buf, t))"

definition tx_take :: "'h host \<Rightarrow> u16 \<Rightarrow> ('h, 'z) rpmsg_transport_scheme \<Rightarrow> (tx_buffer \<times> ('h, 'z) rpmsg_transport_scheme) option" where
  "tx_take B min_free_after t = tx_take_loop B min_free_after (retry_owed_kick B t)"

definition tx_cancel :: "'h host \<Rightarrow> tx_buffer \<Rightarrow> ('h, 'z) rpmsg_transport_scheme \<Rightarrow> bool \<times> ('h, 'z) rpmsg_transport_scheme" where
  "tx_cancel B buf t =
    (if tb_size buf = 0 \<or> \<not> tp_can_cancel t \<or> \<not> tp_ready t \<or> tp_cancel_pos t + 1 \<noteq> vq_last_avail_idx (tp_tx t) then (False, t)
     else let (desc_idx, t) = load16 B (avail_ring_at (vq_avail (tp_tx t)) (ucast (tp_cancel_pos t) AND vq_mask (tp_tx t))) t in
       if desc_idx \<noteq> tb_desc_idx buf then (False, t)
       else (True, t\<lparr>tp_tx := (tp_tx t)\<lparr>vq_last_avail_idx := tp_cancel_pos t\<rparr>, tp_can_cancel := False\<rparr>))"

definition tx_publish :: "'h host \<Rightarrow> tx_buffer \<Rightarrow> u16 \<Rightarrow> u32 \<Rightarrow> u32 \<Rightarrow> ('h, 'z) rpmsg_transport_scheme \<Rightarrow> bool \<times> ('h, 'z) rpmsg_transport_scheme" where
  "tx_publish B buf used_len src dst t =
    (if \<not> tp_ready t \<or> vq_used (tp_tx t) = 0 \<or> tb_size buf = 0 \<or> ucast (tb_desc_idx buf) \<ge> vq_num (tp_tx t) \<or> ucast used_len > tb_size buf
     then (False, t)
     else let hdr = tb_data buf - kHdr;
              t = store32 B hdr src t; t = store32 B (hdr + 4) dst t; t = store16 B (hdr + 12) used_len t;
              t = store16 B (hdr + 14) 0 t; t = store32 B (hdr + 8) 0 t;
              t = publish_used B (tp_tx t) (tb_desc_idx buf) (kHdr + ucast used_len) t;
              t = notify B (t\<lparr>tp_can_cancel := False\<rparr>)
       in (True, t\<lparr>tp_tx_count := tp_tx_count t + 1\<rparr>))"

fun store_bytes :: "'h host \<Rightarrow> u32 \<Rightarrow> u8 list \<Rightarrow> ('h, 'z) rpmsg_transport_scheme \<Rightarrow> ('h, 'z) rpmsg_transport_scheme" where
  "store_bytes B a [] t = t"
| "store_bytes B a (x # xs) t = store_bytes B (a + 1) xs (hstore B 1 a (ucast x) t)"

text \<open>The wait of \<open>reply\<close>: the counter is the number of rounds left.\<close>

fun reply_wait :: "'h host \<Rightarrow> nat \<Rightarrow> ('h, 'z) rpmsg_transport_scheme \<Rightarrow> (tx_buffer \<times> ('h, 'z) rpmsg_transport_scheme) option" where
  "reply_wait B rounds t =
    do { (buf, t) \<leftarrow> tx_take B 0 t;
         if tb_size buf \<noteq> 0 then Some (buf, t)
         else case rounds of
           0 \<Rightarrow> Some (no_buffer, t)
         | Suc n \<Rightarrow> do { t \<leftarrow> drain_doorbells B (notify B (t\<lparr>tp_tx_full_waits := tp_tx_full_waits t + 1\<rparr>)); reply_wait B n t } }"

definition reply :: "'h host \<Rightarrow> rpmsg_message \<Rightarrow> u8 list option \<Rightarrow> u16 \<Rightarrow> ('h, 'z) rpmsg_transport_scheme \<Rightarrow> (bool \<times> ('h, 'z) rpmsg_transport_scheme) option" where
  "reply B incoming payload len t =
    (let (r, t) = ready B t in
     if \<not> r \<or> ucast len > RPMSG_BUFFER_SIZE - kHdr then Some (False, t)
     else do { (buf, t) \<leftarrow> reply_wait B kReplyWaitRounds t;
       Some (if tb_size buf = 0 then (False, t)
         else if tb_size buf < ucast len then let (c, t) = tx_cancel B buf t in (False, ring_error t)
         else let t = (case payload of None \<Rightarrow> t | Some bytes \<Rightarrow> store_bytes B (tb_data buf) (take (unat len) bytes) t)
           in tx_publish B buf len (rm_dst incoming) (rm_src incoming) t) })"

definition RPMSG_NS_ADDR :: u32 where
  "RPMSG_NS_ADDR = 53"

definition RPMSG_NS_CREATE :: u32 where
  "RPMSG_NS_CREATE = 0"

definition announce_service :: "'h host \<Rightarrow> u8 list \<Rightarrow> u32 \<Rightarrow> ('h, 'z) rpmsg_transport_scheme \<Rightarrow> (bool \<times> ('h, 'z) rpmsg_transport_scheme) option" where
  "announce_service B name addr t =
    do { (buf, t) \<leftarrow> tx_take B 0 t;
         Some (if tb_size buf < 40 then let (c, t) = tx_cancel B buf t in (False, t)
           else let t = store_bytes B (tb_data buf) (replicate 32 0) t;
                    t = store_bytes B (tb_data buf) (take 31 (takeWhile (\<lambda>c. c \<noteq> 0) name)) t;
                    t = store32 B (tb_data buf + 32) addr t; t = store32 B (tb_data buf + 36) RPMSG_NS_CREATE t
             in tx_publish B buf 40 addr RPMSG_NS_ADDR t) }"

definition flush_kick :: "'h host \<Rightarrow> ('h, 'z) rpmsg_transport_scheme \<Rightarrow> ('h, 'z) rpmsg_transport_scheme" where
  "flush_kick B t = (if tp_ready t then retry_owed_kick B t else t)"

definition kick_owed :: "('h, 'z) rpmsg_transport_scheme \<Rightarrow> bool" where
  "kick_owed t = (tp_ready t \<and> tp_kick_owed t)"

section \<open>Receiving\<close>

fun dispatch_loop :: "endpoint_slot list \<Rightarrow> u32 \<Rightarrow> endpoint_slot option \<Rightarrow> endpoint_slot option" where
  "dispatch_loop [] dst any = any"
| "dispatch_loop (e # es) dst any =
    (if ep_addr e = dst then Some e else dispatch_loop es dst (if ep_addr e = 0 \<and> any = None then Some e else any))"

definition rpmsg_dispatch :: "('h, 'z) ep_call \<Rightarrow> rpmsg_message \<Rightarrow> ('h, 'z) rpmsg_transport_scheme \<Rightarrow> ('h, 'z) rpmsg_transport_scheme option" where
  "rpmsg_dispatch call msg t =
    (case dispatch_loop (take (tp_num_endpoints t) (tp_endpoints t)) (rm_dst msg) None of
       None \<Rightarrow> Some t
     | Some e \<Rightarrow> case ep_cb e of None \<Rightarrow> Some t | Some f \<Rightarrow> call f (ep_user_data e) msg (t\<lparr>tp_handed := tp_handed t @ [msg]\<rparr>))"

text \<open>One pass of the inner loop of \<open>poll\<close>.\<close>

definition consume_message :: "'h host \<Rightarrow> ('h, 'z) ep_call \<Rightarrow> u16 \<Rightarrow> ('h, 'z) rpmsg_transport_scheme \<Rightarrow> ('h, 'z) rpmsg_transport_scheme option" where
  "consume_message B call desc_idx t =
    (let (buf_addr, t) = hload B 8 (desc_addr_at (vq_desc (tp_rx t)) desc_idx) t;
         (buf_len, t) = load32 B (desc_len_at (vq_desc (tp_rx t)) desc_idx) t;
         buf_len = (if buf_len > RPMSG_BUFFER_SIZE then RPMSG_BUFFER_SIZE else buf_len) in
     case (if buf_len \<ge> kHdr then translate_buf buf_addr buf_len else None) of
       None \<Rightarrow> Some (ring_error t)
     | Some hdr \<Rightarrow> let (msg_len, t) = load16 B (hdr + 12) t in
         if ucast msg_len > buf_len - kHdr then Some (ring_error t)
         else let (src, t) = load32 B hdr t; (dst, t) = load32 B (hdr + 4) t;
                  msg = \<lparr>rm_src = src, rm_dst = dst, rm_len = msg_len, rm_data = hdr + kHdr, rm_desc_idx = desc_idx\<rparr>
           in rpmsg_dispatch call msg (t\<lparr>tp_rx_count := tp_rx_count t + 1\<rparr>))"

definition poll_one :: "'h host \<Rightarrow> ('h, 'z) ep_call \<Rightarrow> ('h, 'z) rpmsg_transport_scheme \<Rightarrow> ('h, 'z) rpmsg_transport_scheme option" where
  "poll_one B call t =
    (let pos = vq_last_avail_idx (tp_rx t);
         (desc_idx, t) = load16 B (avail_ring_at (vq_avail (tp_rx t)) (ucast pos AND vq_mask (tp_rx t))) t;
         t = t\<lparr>tp_rx := (tp_rx t)\<lparr>vq_last_avail_idx := pos + 1\<rparr>\<rparr> in
     if ucast desc_idx \<ge> vq_num (tp_rx t) then Some (ring_error t)
     else do { t \<leftarrow> consume_message B call desc_idx (t\<lparr>tp_taken := tp_taken t @ [desc_idx]\<rparr>);
               Some (publish_used B (tp_rx t) desc_idx 0 (t\<lparr>tp_returned := tp_returned t @ [desc_idx]\<rparr>)) })"

fun poll_batch :: "'h host \<Rightarrow> ('h, 'z) ep_call \<Rightarrow> nat \<Rightarrow> ('h, 'z) rpmsg_transport_scheme \<Rightarrow> ('h, 'z) rpmsg_transport_scheme option" where
  "poll_batch B call 0 t = Some t"
| "poll_batch B call (Suc n) t = do { t \<leftarrow> poll_one B call t; poll_batch B call n t }"

partial_function (option) poll_loop :: "'h host \<Rightarrow> ('h, 'z) ep_call \<Rightarrow> u16 \<Rightarrow> ('h, 'z) rpmsg_transport_scheme \<Rightarrow> ('h, 'z) rpmsg_transport_scheme option" where
  "poll_loop B call pending t =
    do { t \<leftarrow> poll_batch B call (unat pending) t;
         (case avail_pending B (tp_rx t) t of ((p, vq), t) \<Rightarrow>
            (case p of None \<Rightarrow> Some (t\<lparr>tp_rx := vq\<rparr>) | Some n \<Rightarrow> if n = 0 then Some (t\<lparr>tp_rx := vq\<rparr>) else poll_loop B call n (t\<lparr>tp_rx := vq\<rparr>))) }"

text \<open>
  \<open>poll\<close>. Whenever the inner loop is entered, it runs at least once, so \<open>consumed\<close> is true behind it.
\<close>

definition poll :: "'h host \<Rightarrow> ('h, 'z) ep_call \<Rightarrow> ('h, 'z) rpmsg_transport_scheme \<Rightarrow> (bool \<times> ('h, 'z) rpmsg_transport_scheme) option" where
  "poll B call t =
    (let (r, t) = ready B t in
     if \<not> r then Some (False, t)
     else do { t \<leftarrow> drain_doorbells B (retry_owed_kick B t);
       let ((p, vq), t) = avail_pending B (tp_rx t) t; t = set_flags B vq 0 (t\<lparr>tp_rx := vq\<rparr>) in
       case p of None \<Rightarrow> Some (False, t)
       | Some n \<Rightarrow> if n = 0 then Some (False, t) else do { t \<leftarrow> poll_loop B call n t; Some (True, notify B t) } })"

definition enable_rx_kick :: "'h host \<Rightarrow> bool \<Rightarrow> ('h, 'z) rpmsg_transport_scheme \<Rightarrow> ('h, 'z) rpmsg_transport_scheme" where
  "enable_rx_kick B enable t =
    (let (r, t) = ready B t in
     if r \<and> vq_used (tp_rx t) \<noteq> 0 then set_flags B (tp_rx t) (if enable then 0 else VRING_USED_F_NO_NOTIFY) t else t)"

definition is_rx_pending :: "'h host \<Rightarrow> ('h, 'z) rpmsg_transport_scheme \<Rightarrow> bool \<times> ('h, 'z) rpmsg_transport_scheme" where
  "is_rx_pending B t =
    (let (r, t) = ready B t in
     if \<not> r \<or> vq_avail (tp_rx t) = 0 then (False, t)
     else let (i, t) = load16 B (avail_idx_at (vq_avail (tp_rx t))) t in (vq_last_avail_idx (tp_rx t) \<noteq> i, t))"

end
