(* ===== verification/Rpmsg_Safety.thy ===== *)
theory Rpmsg_Safety
  imports Rpmsg
begin

text \<open>
  What the RPMsg transport touches: whatever the host writes into the shared memory, and whenever it
  does, the code reads and writes only the two RPMsg pools, the message box registers and its own
  resource table; and it gives every receive buffer it takes back exactly once, in order.
\<close>

section \<open>Windows\<close>

definition in_pool :: "u32 \<Rightarrow> nat \<Rightarrow> bool" where
  "in_pool a n = (\<exists>w \<in> set windows. unat (hw_core w) \<le> unat a \<and> unat a + n \<le> unat (hw_core w) + unat (hw_size w))"

lemma in_pool_offset:
  assumes "in_pool a n" "k + m \<le> n"
  shows "in_pool (a + of_nat k) m"
proof -
  obtain w where w: "w \<in> set windows" "unat (hw_core w) \<le> unat a" "unat a + n \<le> unat (hw_core w) + unat (hw_size w)"
    using assms(1) by (auto simp: in_pool_def)
  have "unat (hw_core w) + unat (hw_size w) < 2 ^ 32" using w(1) by (auto simp: windows_def)
  then have "unat (a + of_nat k) = unat a + k"
    using w(3) assms(2) by (simp add: unat_word_ariths unat_of_nat)
  then have "unat (hw_core w) \<le> unat (a + of_nat k) \<and> unat (a + of_nat k) + m \<le> unat (hw_core w) + unat (hw_size w)"
    using w assms(2) by linarith
  then show ?thesis using w(1) unfolding in_pool_def by blast
qed

lemma in_pool_less: "in_pool a n \<Longrightarrow> m \<le> n \<Longrightarrow> in_pool a m"
  using in_pool_offset [of a n 0 m] by simp

lemma in_pool_not_null: "in_pool a n \<Longrightarrow> a \<noteq> 0"
  by (auto simp: in_pool_def windows_def)

lemma unat_ucast_widen:
  assumes "LENGTH('a::len) \<le> LENGTH('b::len)"
  shows "unat (ucast (x :: 'a word) :: 'b word) = unat x"
proof -
  have "unat x < 2 ^ LENGTH('b)"
    by (rule less_le_trans [OF unsigned_less]) (use assms in \<open>simp add: power_increasing\<close>)
  then show ?thesis by (simp add: unsigned_ucast_eq take_bit_nat_eq_self)
qed

lemma unat_ucast_32_64: "unat (ucast (x :: u32) :: u64) = unat x"
  by (rule unat_ucast_widen) simp

lemma unat_ucast_16_32 [simp]: "unat (ucast (x :: u16) :: u32) = unat x"
  by (rule unat_ucast_widen) simp

lemma ucast_of_nat_unat: "(ucast (x :: 'a::len word) :: 'b::len word) = of_nat (unat x)"
  by (rule of_nat_unat [symmetric])

lemma translate_loop_in:
  assumes "translate_loop ws a n = Some p" "set ws \<subseteq> set windows"
  shows "in_pool p (unat n)"
  using assms
proof (induction ws)
  case (Cons w ws)
  show ?case
  proof (cases "n \<le> hw_size w \<and> a \<ge> hw_host w \<and> a - hw_host w \<le> ucast (hw_size w - n)")
    case True
    define d where "d = unat (a - hw_host w)"
    from True have n: "unat n \<le> unat (hw_size w)" by (simp add: word_le_nat_alt)
    then have s: "unat (hw_size w - n) = unat (hw_size w) - unat n" by (simp add: unat_sub word_le_nat_alt)
    have "d \<le> unat (ucast (hw_size w - n) :: u64)" using True unfolding d_def by (simp add: word_le_nat_alt)
    also have "\<dots> = unat (hw_size w) - unat n" by (simp only: unat_ucast_32_64 s)
    finally have d: "d \<le> unat (hw_size w) - unat n" .
    have lim: "unat (hw_core w) + unat (hw_size w) < 2 ^ 32" using Cons.prems(2) by (auto simp: windows_def)
    have "a - hw_host w = of_nat d" unfolding d_def by simp
    then have "(ucast (a - hw_host w) :: u32) = of_nat d"
      unfolding ucast_of_nat_unat d_def by simp
    moreover have "p = hw_core w + ucast (a - hw_host w)" using True Cons.prems(1) by simp
    ultimately have "p = hw_core w + of_nat d" by simp
    then have "unat p = unat (hw_core w) + d" using lim d by (simp add: unat_word_ariths unat_of_nat)
    then have "unat (hw_core w) \<le> unat p \<and> unat p + unat n \<le> unat (hw_core w) + unat (hw_size w)" using d n by linarith
    then show ?thesis using Cons.prems(2) unfolding in_pool_def by auto
  next
    case False
    then show ?thesis using Cons by auto
  qed
qed simp

lemma translate_buf_in: "translate_buf a n = Some p \<Longrightarrow> in_pool p (unat n)"
  unfolding translate_buf_def by (rule translate_loop_in) auto

section \<open>Rings\<close>

definition vq_mapped :: "virt_queue \<Rightarrow> bool" where
  "vq_mapped vq = (\<exists>n off. n \<in> {1, 2, 4, 8, 16} \<and> vq_num vq = of_nat n \<and> vq_mask vq = of_nat (n - 1) \<and>
     vq_avail vq = vq_desc vq + of_nat (16 * n) \<and> vq_used vq = vq_desc vq + of_nat off \<and> 18 * n + 6 \<le> off \<and>
     in_pool (vq_desc vq) (off + 6 + 8 * n))"

lemma power_of_two_below_17:
  fixes num :: u32
  assumes "num \<noteq> 0" "num \<le> 16" "num AND (num - 1) = 0"
  shows "unat num \<in> {1, 2, 4, 8, 16}"
proof -
  have "unat num \<le> 16" using assms(2) by (simp add: word_le_nat_alt)
  then have "unat num \<in> set [0..<17]" by simp
  moreover have "num = of_nat (unat num)" by simp
  moreover have "\<forall>k \<in> set [0..<17]. (of_nat k :: u32) \<noteq> 0 \<longrightarrow> (of_nat k :: u32) AND (of_nat k - 1) = 0 \<longrightarrow> k \<in> {1, 2, 4, 8, 16}"
    by (simp add: upt_rec)
  ultimately show ?thesis using assms by metis
qed

lemma and_not_ge:
  fixes x m :: u32
  shows "unat x \<le> unat (x AND NOT m) + unat m"
proof -
  have "(x AND NOT m) + (x AND m) = (x AND NOT m) OR (x AND m)"
    by (rule disjunctive_add) (simp add: bit_simps)
  also have "\<dots> = x" by (rule bit_word_eqI) (auto simp: bit_simps)
  finally have "x = (x AND NOT m) + (x AND m)" by simp
  then have "unat x \<le> unat (x AND NOT m) + unat (x AND m)"
    by (metis unat_word_ariths(1) mod_less_eq_dividend)
  moreover have "unat (x AND m) \<le> unat m" using word_and_le1 [of x m] by (simp add: word_le_nat_alt)
  ultimately show ?thesis by simp
qed

lemma power_of_two_at_most_half:
  fixes a :: u32
  assumes "a AND (a - 1) = 0"
  shows "unat a \<le> 2 ^ 31"
proof (rule ccontr)
  assume big: "\<not> unat a \<le> 2 ^ 31"
  then have "a \<noteq> 0" by auto
  then have "unat (a - 1) = unat a - 1" by (simp add: unat_minus_one)
  then have "2 ^ 31 \<le> unat (a - 1)" "2 ^ 31 \<le> unat a" using big by auto
  moreover have "bit x 31" if "2 ^ 31 \<le> unat x" for x :: u32
  proof -
    have "unat x < 2 * 2 ^ 31" using unsigned_less [of x] by simp
    then have "unat x div 2 ^ 31 = 1" using that by (intro div_nat_eqI) auto
    then have "bit (unat x) 31" by (simp add: bit_iff_odd)
    then show ?thesis by (simp add: bit_unsigned_iff)
  qed
  ultimately have "bit (a AND (a - 1)) 31" by (simp add: bit_and_iff)
  then show False using assms by simp
qed

lemma setup_vq_mapped:
  assumes "setup_vq da num align = (True, vq)"
  shows "vq_mapped vq"
proof -
  have c: "num \<noteq> 0" "num \<le> 16" "num AND (num - 1) = 0" "align \<noteq> 0" "align AND (align - 1) = 0"
    and t: "(case translate_buf (ucast da) (vq_ring_bytes num align) of None \<Rightarrow> False | Some base \<Rightarrow>
      vq = \<lparr>vq_da = da, vq_num = num, vq_mask = num - 1, vq_align = align, vq_desc = base,
         vq_avail = base + vq_avail_offset num, vq_used = base + vq_used_offset num align, vq_last_avail_idx = 0, vq_bad_reads = 0\<rparr>)"
    using assms by (auto simp: setup_vq_def VRING_NUM_DESCS_def split: if_splits option.splits)
  define n where "n = unat num"
  define off where "off = unat (vq_used_offset num align)"
  have n: "n \<in> {1, 2, 4, 8, 16}" unfolding n_def using c(1,2,3) by (rule power_of_two_below_17)
  then have n16: "n \<le> 16" by auto
  have num: "num = of_nat n" unfolding n_def by simp
  have al0: "0 < unat align" using c(4) by (simp add: unat_gt_0)
  define x where "x = vq_avail_offset num + 2 * (3 + num) + align - 1"
  have al: "unat align \<le> 2 ^ 31" using c(5) by (rule power_of_two_at_most_half)
  have "align = of_nat (unat align)" by simp
  then have "x = of_nat (18 * n + 6 + unat align - 1)"
    unfolding x_def vq_avail_offset_def num by (cases "unat align") (simp_all add: algebra_simps)
  moreover have "18 * n + 6 + unat align - 1 < 2 ^ 32" using al n16 by simp
  ultimately have x: "unat x = 18 * n + 6 + unat align - 1" by (simp add: unat_of_nat_small del: of_nat_diff of_nat_add)
  have m: "unat (align - 1) = unat align - 1" using c(4) by (simp add: unat_minus_one)
  have off_eq: "vq_used_offset num align = x AND NOT (align - 1)" unfolding vq_used_offset_def x_def by (rule refl)
  have "unat x \<le> off + unat (align - 1)" unfolding off_def off_eq by (rule and_not_ge)
  then have off: "18 * n + 6 \<le> off" using x m al0 by linarith
  have "unat (x AND NOT (align - 1)) \<le> unat x" using word_and_le2 [of x "NOT (align - 1)"] by (simp add: word_le_nat_alt)
  then have "off \<le> 18 * n + 6 + unat align - 1" unfolding off_def off_eq x .
  then have "off + 6 + 8 * n < 2 ^ LENGTH(32)" using al n16 by simp
  then have "unat (of_nat (off + 6 + 8 * n) :: u32) = off + 6 + 8 * n" by (rule unat_of_nat_small)
  moreover have ring: "vq_ring_bytes num align = of_nat (off + 6 + 8 * n)"
    unfolding vq_ring_bytes_def num off_def by (simp add: algebra_simps)
  ultimately have "unat (vq_ring_bytes num align) = off + 6 + 8 * n" by (simp only:)
  with t obtain base where "in_pool base (off + 6 + 8 * n)"
    "vq = \<lparr>vq_da = da, vq_num = num, vq_mask = num - 1, vq_align = align, vq_desc = base,
       vq_avail = base + vq_avail_offset num, vq_used = base + vq_used_offset num align, vq_last_avail_idx = 0, vq_bad_reads = 0\<rparr>"
    by (auto split: option.splits dest: translate_buf_in)
  moreover have "num - 1 = of_nat (n - 1)" unfolding num using n by (cases n) auto
  moreover have "vq_avail_offset num = of_nat (16 * n)" unfolding vq_avail_offset_def num by simp
  moreover have "vq_used_offset num align = of_nat off" unfolding off_def by simp
  ultimately show ?thesis unfolding vq_mapped_def using n num off by auto
qed

lemma and_mask_below:
  fixes x :: u32
  assumes "n \<in> {1, 2, 4, 8, 16}"
  obtains i where "i < n" "x AND of_nat (n - 1) = of_nat i"
proof -
  have "of_nat (n - 1) = (2 ^ (if n = 1 then 0 else if n = 2 then 1 else if n = 4 then 2 else if n = 8 then 3 else 4) - 1 :: u32)"
    using assms by auto
  then have "unat (x AND of_nat (n - 1)) < n" using assms by (auto simp: unat_and_exp_minus_1)
  then show thesis by (rule that) simp
qed

text \<open>Every access to a mapped ring lies in a pool.\<close>

named_theorems ring_access "accesses to a mapped ring lie in a pool"

lemma mapped_avail_idx [ring_access]: "vq_mapped vq \<Longrightarrow> in_pool (avail_idx_at (vq_avail vq)) 2"
proof -
  assume "vq_mapped vq"
  then obtain n off where *: "vq_avail vq = vq_desc vq + of_nat (16 * n)" "18 * n + 6 \<le> off" "in_pool (vq_desc vq) (off + 6 + 8 * n)"
    by (auto simp: vq_mapped_def)
  have "in_pool (vq_desc vq + of_nat (16 * n + 2)) 2" by (rule in_pool_offset [OF *(3)]) (use *(2) in linarith)
  then show ?thesis by (simp add: avail_idx_at_def * add_ac)
qed

lemma mapped_avail_ring [ring_access]: "vq_mapped vq \<Longrightarrow> in_pool (avail_ring_at (vq_avail vq) (x AND vq_mask vq)) 2"
proof -
  assume "vq_mapped vq"
  then obtain n off where *: "vq_avail vq = vq_desc vq + of_nat (16 * n)" "18 * n + 6 \<le> off" "in_pool (vq_desc vq) (off + 6 + 8 * n)"
    "n \<in> {1, 2, 4, 8, 16}" "vq_mask vq = of_nat (n - 1)" by (auto simp: vq_mapped_def)
  obtain i where i: "i < n" "x AND vq_mask vq = of_nat i" using and_mask_below [OF *(4)] *(5) by metis
  have "in_pool (vq_desc vq + of_nat (16 * n + 4 + 2 * i)) 2" by (rule in_pool_offset [OF *(3)]) (use *(2) i(1) in linarith)
  then show ?thesis unfolding avail_ring_at_def i(2) *(1) by (simp add: add_ac)
qed

lemma mapped_used [ring_access]:
  assumes "vq_mapped vq"
  shows "in_pool (used_flags_at (vq_used vq)) 2" "in_pool (used_idx_at (vq_used vq)) 2"
    "in_pool (used_id_at (vq_used vq) (x AND vq_mask vq)) 4" "in_pool (used_len_at (vq_used vq) (x AND vq_mask vq)) 4"
proof -
  obtain n off where *: "vq_used vq = vq_desc vq + of_nat off" "in_pool (vq_desc vq) (off + 6 + 8 * n)"
    "n \<in> {1, 2, 4, 8, 16}" "vq_mask vq = of_nat (n - 1)" using assms by (auto simp: vq_mapped_def)
  obtain i where i: "i < n" "x AND vq_mask vq = of_nat i" using and_mask_below [OF *(3)] *(4) by metis
  have at: "in_pool (vq_desc vq + of_nat (off + k)) m" if "k + m \<le> 6 + 8 * n" for k m
    by (rule in_pool_offset [OF *(2)]) (use that in linarith)
  show "in_pool (used_flags_at (vq_used vq)) 2" using at [of 0 2] by (simp add: used_flags_at_def *)
  show "in_pool (used_idx_at (vq_used vq)) 2" using at [of 2 2] by (simp add: used_idx_at_def * add_ac)
  show "in_pool (used_id_at (vq_used vq) (x AND vq_mask vq)) 4"
    using at [of "4 + 8 * i" 4] i(1) unfolding used_id_at_def i(2) *(1) by (simp add: add_ac)
  show "in_pool (used_len_at (vq_used vq) (x AND vq_mask vq)) 4"
    using at [of "8 + 8 * i" 4] i(1) unfolding used_len_at_def i(2) *(1) by (simp add: add_ac)
qed

lemma mapped_desc [ring_access]:
  assumes "vq_mapped vq" "\<not> vq_num vq \<le> ucast (i :: u16)"
  shows "in_pool (desc_addr_at (vq_desc vq) i) 8" "in_pool (desc_len_at (vq_desc vq) i) 4"
proof -
  obtain n off where *: "vq_num vq = of_nat n" "18 * n + 6 \<le> off" "in_pool (vq_desc vq) (off + 6 + 8 * n)" "n \<in> {1, 2, 4, 8, 16}"
    using assms(1) by (auto simp: vq_mapped_def)
  have u: "(ucast i :: u32) = of_nat (unat i)" by (rule ucast_of_nat_unat)
  have "n < 2 ^ 32" using *(4) by auto
  then have i: "unat i < n" using assms(2) unfolding *(1) u by (simp add: word_le_nat_alt unat_of_nat)
  have at: "in_pool (vq_desc vq + of_nat k) m" if "k + m \<le> 16 * n" for k m
    by (rule in_pool_offset [OF *(3)]) (use that *(2) in linarith)
  show "in_pool (desc_addr_at (vq_desc vq) i) 8" using at [of "16 * unat i" 8] i by (simp add: desc_addr_at_def)
  show "in_pool (desc_len_at (vq_desc vq) i) 4" using at [of "16 * unat i + 8" 4] i by (simp add: desc_len_at_def add_ac)
qed

section \<open>The invariant\<close>

definition mbox_regs :: "u32 set" where
  "mbox_regs = {RV_READ_IRQ_EN_REG, RV_READ_IRQ_STA_REG, DSP_READ_IRQ_EN_REG, DSP_READ_IRQ_STA_REG} \<union>
     (\<Union>c \<in> {0, 1, 2, 3}. {RV_MSG_STA_REG c, RV_MSG_FIFO_REG c, ARM_MSG_STA_REG c, ARM_MSG_FIFO_REG c, DSP_MSG_STA_REG c, DSP_MSG_FIFO_REG c})"

text \<open>An access may touch a pool or a message box register, and read the resource table at \<open>rsc\<close>.\<close>

fun allowed :: "u32 \<Rightarrow> access \<Rightarrow> bool" where
  "allowed rsc (Read a n v) = (in_pool a n \<or> a \<in> mbox_regs \<or> unat (a - rsc) + n \<le> 140)"
| "allowed rsc (Write a n v) = (in_pool a n \<or> a \<in> mbox_regs)"

definition rp_ok :: "u32 \<Rightarrow> ('h, 'z) rpmsg_transport_scheme \<Rightarrow> bool" where
  "rp_ok rsc t = ((\<forall>x \<in> set (lk_log t). allowed rsc x) \<and> (tp_rsc t = 0 \<or> tp_rsc t = rsc) \<and>
     (tp_ready t \<longrightarrow> tp_rsc t \<noteq> 0 \<and> vq_mapped (tp_tx t) \<and> vq_mapped (tp_rx t)))"

lemma rp_ok_fields [simp]:
  "rp_ok rsc (t\<lparr>tp_kick_owed := x0\<rparr>) = rp_ok rsc t"
  "rp_ok rsc (t\<lparr>tp_can_cancel := x1\<rparr>) = rp_ok rsc t"
  "rp_ok rsc (t\<lparr>tp_cancel_pos := x2\<rparr>) = rp_ok rsc t"
  "rp_ok rsc (t\<lparr>tp_rx_count := x3\<rparr>) = rp_ok rsc t"
  "rp_ok rsc (t\<lparr>tp_tx_count := x4\<rparr>) = rp_ok rsc t"
  "rp_ok rsc (t\<lparr>tp_ring_errors := x5\<rparr>) = rp_ok rsc t"
  "rp_ok rsc (t\<lparr>tp_tx_full_waits := x6\<rparr>) = rp_ok rsc t"
  "rp_ok rsc (t\<lparr>tp_mbox_full_waits := x7\<rparr>) = rp_ok rsc t"
  "rp_ok rsc (t\<lparr>tp_host_kicks := x8\<rparr>) = rp_ok rsc t"
  "rp_ok rsc (t\<lparr>tp_endpoints := x9\<rparr>) = rp_ok rsc t"
  "rp_ok rsc (t\<lparr>tp_num_endpoints := x10\<rparr>) = rp_ok rsc t"
  "rp_ok rsc (t\<lparr>tp_handed := x11\<rparr>) = rp_ok rsc t"
  "rp_ok rsc (t\<lparr>tp_taken := x12\<rparr>) = rp_ok rsc t"
  "rp_ok rsc (t\<lparr>tp_returned := x13\<rparr>) = rp_ok rsc t"
  by (simp_all add: rp_ok_def)

lemma ring_error_fields [simp]:
  "rp_ok rsc (ring_error t) = rp_ok rsc t" "tp_tx (ring_error t) = tp_tx t" "tp_rx (ring_error t) = tp_rx t" "tp_ready (ring_error t) = tp_ready t" "tp_rsc (ring_error t) = tp_rsc t" "tp_taken (ring_error t) = tp_taken t" "tp_returned (ring_error t) = tp_returned t" "tp_can_cancel (ring_error t) = tp_can_cancel t" "tp_cancel_pos (ring_error t) = tp_cancel_pos t" "tp_kick_owed (ring_error t) = tp_kick_owed t" "tp_endpoints (ring_error t) = tp_endpoints t" "tp_num_endpoints (ring_error t) = tp_num_endpoints t" "rpmsg_transport.more (ring_error t) = rpmsg_transport.more t"
  by (simp_all add: ring_error_def)

lemma hload_fields [simp]:
  "tp_tx (snd (hload B n a t)) = tp_tx t" "tp_rx (snd (hload B n a t)) = tp_rx t" "tp_ready (snd (hload B n a t)) = tp_ready t" "tp_rsc (snd (hload B n a t)) = tp_rsc t"
  "tp_taken (snd (hload B n a t)) = tp_taken t" "tp_returned (snd (hload B n a t)) = tp_returned t" "tp_can_cancel (snd (hload B n a t)) = tp_can_cancel t" "tp_cancel_pos (snd (hload B n a t)) = tp_cancel_pos t"
  "tp_kick_owed (snd (hload B n a t)) = tp_kick_owed t" "tp_endpoints (snd (hload B n a t)) = tp_endpoints t" "tp_num_endpoints (snd (hload B n a t)) = tp_num_endpoints t" "rpmsg_transport.more (snd (hload B n a t)) = rpmsg_transport.more t"
  by (simp_all add: hload_def hstore_def Let_def split_def)

lemma hstore_fields [simp]:
  "tp_tx (hstore B n a v t) = tp_tx t" "tp_rx (hstore B n a v t) = tp_rx t" "tp_ready (hstore B n a v t) = tp_ready t" "tp_rsc (hstore B n a v t) = tp_rsc t"
  "tp_taken (hstore B n a v t) = tp_taken t" "tp_returned (hstore B n a v t) = tp_returned t" "tp_can_cancel (hstore B n a v t) = tp_can_cancel t" "tp_cancel_pos (hstore B n a v t) = tp_cancel_pos t"
  "tp_kick_owed (hstore B n a v t) = tp_kick_owed t" "tp_endpoints (hstore B n a v t) = tp_endpoints t" "tp_num_endpoints (hstore B n a v t) = tp_num_endpoints t" "rpmsg_transport.more (hstore B n a v t) = rpmsg_transport.more t"
  by (simp_all add: hload_def hstore_def Let_def split_def)

lemma load16_fields [simp]:
  "tp_tx (snd (load16 B a t)) = tp_tx t" "tp_rx (snd (load16 B a t)) = tp_rx t" "tp_ready (snd (load16 B a t)) = tp_ready t" "tp_rsc (snd (load16 B a t)) = tp_rsc t"
  "tp_taken (snd (load16 B a t)) = tp_taken t" "tp_returned (snd (load16 B a t)) = tp_returned t" "tp_can_cancel (snd (load16 B a t)) = tp_can_cancel t" "tp_cancel_pos (snd (load16 B a t)) = tp_cancel_pos t"
  "tp_kick_owed (snd (load16 B a t)) = tp_kick_owed t" "tp_endpoints (snd (load16 B a t)) = tp_endpoints t" "tp_num_endpoints (snd (load16 B a t)) = tp_num_endpoints t" "rpmsg_transport.more (snd (load16 B a t)) = rpmsg_transport.more t"
  by (simp_all add: load16_def load32_def store16_def store32_def hload_def hstore_def Let_def split_def)

lemma load32_fields [simp]:
  "tp_tx (snd (load32 B a t)) = tp_tx t" "tp_rx (snd (load32 B a t)) = tp_rx t" "tp_ready (snd (load32 B a t)) = tp_ready t" "tp_rsc (snd (load32 B a t)) = tp_rsc t"
  "tp_taken (snd (load32 B a t)) = tp_taken t" "tp_returned (snd (load32 B a t)) = tp_returned t" "tp_can_cancel (snd (load32 B a t)) = tp_can_cancel t" "tp_cancel_pos (snd (load32 B a t)) = tp_cancel_pos t"
  "tp_kick_owed (snd (load32 B a t)) = tp_kick_owed t" "tp_endpoints (snd (load32 B a t)) = tp_endpoints t" "tp_num_endpoints (snd (load32 B a t)) = tp_num_endpoints t" "rpmsg_transport.more (snd (load32 B a t)) = rpmsg_transport.more t"
  by (simp_all add: load16_def load32_def store16_def store32_def hload_def hstore_def Let_def split_def)

lemma store16_fields [simp]:
  "tp_tx (store16 B a v16 t) = tp_tx t" "tp_rx (store16 B a v16 t) = tp_rx t" "tp_ready (store16 B a v16 t) = tp_ready t" "tp_rsc (store16 B a v16 t) = tp_rsc t"
  "tp_taken (store16 B a v16 t) = tp_taken t" "tp_returned (store16 B a v16 t) = tp_returned t" "tp_can_cancel (store16 B a v16 t) = tp_can_cancel t" "tp_cancel_pos (store16 B a v16 t) = tp_cancel_pos t"
  "tp_kick_owed (store16 B a v16 t) = tp_kick_owed t" "tp_endpoints (store16 B a v16 t) = tp_endpoints t" "tp_num_endpoints (store16 B a v16 t) = tp_num_endpoints t" "rpmsg_transport.more (store16 B a v16 t) = rpmsg_transport.more t"
  by (simp_all add: load16_def load32_def store16_def store32_def hload_def hstore_def Let_def split_def)

lemma store32_fields [simp]:
  "tp_tx (store32 B a v32 t) = tp_tx t" "tp_rx (store32 B a v32 t) = tp_rx t" "tp_ready (store32 B a v32 t) = tp_ready t" "tp_rsc (store32 B a v32 t) = tp_rsc t"
  "tp_taken (store32 B a v32 t) = tp_taken t" "tp_returned (store32 B a v32 t) = tp_returned t" "tp_can_cancel (store32 B a v32 t) = tp_can_cancel t" "tp_cancel_pos (store32 B a v32 t) = tp_cancel_pos t"
  "tp_kick_owed (store32 B a v32 t) = tp_kick_owed t" "tp_endpoints (store32 B a v32 t) = tp_endpoints t" "tp_num_endpoints (store32 B a v32 t) = tp_num_endpoints t" "rpmsg_transport.more (store32 B a v32 t) = rpmsg_transport.more t"
  by (simp_all add: load16_def load32_def store16_def store32_def hload_def hstore_def Let_def split_def)

text \<open>An allowed access keeps the invariant.\<close>

lemma hload_ok: "rp_ok rsc t \<Longrightarrow> in_pool a n \<or> a \<in> mbox_regs \<or> unat (a - rsc) + n \<le> 140 \<Longrightarrow> rp_ok rsc (snd (hload B n a t))"
  by (auto simp: rp_ok_def hload_def Let_def split_def)

lemma hstore_ok: "rp_ok rsc t \<Longrightarrow> in_pool a n \<or> a \<in> mbox_regs \<Longrightarrow> rp_ok rsc (hstore B n a v t)"
  by (auto simp: rp_ok_def hstore_def)

lemma snd_load: "snd (load16 B a t) = snd (hload B 2 a t)" "snd (load32 B a t) = snd (hload B 4 a t)"
  by (simp_all add: load16_def load32_def Let_def split_def)

named_theorems rp_intros "operations keep the invariant"

lemma load_ok [rp_intros]:
  "rp_ok rsc t \<Longrightarrow> in_pool a n \<Longrightarrow> rp_ok rsc (snd (hload B n a t))"
  "rp_ok rsc t \<Longrightarrow> in_pool a 2 \<Longrightarrow> rp_ok rsc (snd (load16 B a t))"
  "rp_ok rsc t \<Longrightarrow> in_pool a 4 \<Longrightarrow> rp_ok rsc (snd (load32 B a t))"
  by (simp_all add: hload_ok snd_load)

lemma store_ok [rp_intros]:
  "rp_ok rsc t \<Longrightarrow> in_pool a n \<Longrightarrow> rp_ok rsc (hstore B n a v t)"
  "rp_ok rsc t \<Longrightarrow> in_pool a 2 \<Longrightarrow> rp_ok rsc (store16 B a v16 t)"
  "rp_ok rsc t \<Longrightarrow> in_pool a 4 \<Longrightarrow> rp_ok rsc (store32 B a v32 t)"
  by (simp_all add: hstore_ok store16_def store32_def)

lemma reg_load_ok: "rp_ok rsc t \<Longrightarrow> a \<in> mbox_regs \<Longrightarrow> rp_ok rsc (snd (load32 B a t))"
  by (simp add: hload_ok snd_load)

lemma reg_store_ok: "rp_ok rsc t \<Longrightarrow> a \<in> mbox_regs \<Longrightarrow> rp_ok rsc (store32 B a v t)"
  by (simp add: hstore_ok store32_def)

section \<open>Message box and kicks\<close>

text \<open>
  What an operation on the message box leaves alone: \<open>framed rsc t t'\<close> says that it kept the
  invariant and the rings, flags, endpoints and records of the transport.
\<close>

definition framed :: "u32 \<Rightarrow> ('h, 'z) rpmsg_transport_scheme \<Rightarrow> ('h, 'z) rpmsg_transport_scheme \<Rightarrow> bool" where
  "framed rsc t t' = ((rp_ok rsc t \<longrightarrow> rp_ok rsc t') \<and> tp_tx t' = tp_tx t \<and> tp_rx t' = tp_rx t \<and> tp_ready t' = tp_ready t \<and>
     tp_rsc t' = tp_rsc t \<and> tp_taken t' = tp_taken t \<and> tp_returned t' = tp_returned t \<and> tp_can_cancel t' = tp_can_cancel t \<and>
     tp_cancel_pos t' = tp_cancel_pos t \<and> tp_endpoints t' = tp_endpoints t \<and> tp_num_endpoints t' = tp_num_endpoints t \<and>
     rpmsg_transport.more t' = rpmsg_transport.more t)"

lemma framed_refl [simp]: "framed rsc t t"
  by (simp add: framed_def)

lemma framed_trans: "framed rsc t u \<Longrightarrow> framed rsc u v \<Longrightarrow> framed rsc t v"
  by (simp add: framed_def)

lemma framedD:
  assumes "framed rsc t t'"
  shows "rp_ok rsc t \<Longrightarrow> rp_ok rsc t'" "tp_tx t' = tp_tx t" "tp_rx t' = tp_rx t" "tp_ready t' = tp_ready t" "tp_rsc t' = tp_rsc t"
    "tp_taken t' = tp_taken t" "tp_returned t' = tp_returned t" "tp_can_cancel t' = tp_can_cancel t" "tp_cancel_pos t' = tp_cancel_pos t"
    "tp_endpoints t' = tp_endpoints t" "tp_num_endpoints t' = tp_num_endpoints t" "rpmsg_transport.more t' = rpmsg_transport.more t"
  using assms by (simp_all add: framed_def)

lemma framed_access:
  "a \<in> mbox_regs \<Longrightarrow> framed rsc t (snd (load32 B a t))" "a \<in> mbox_regs \<Longrightarrow> framed rsc t (store32 B a v t)"
  by (simp_all add: framed_def reg_load_ok reg_store_ok)

lemma channel_cases: "\<not> c > (3 :: u8) \<Longrightarrow> c \<in> {0, 1, 2, 3}"
proof -
  assume "\<not> c > 3"
  then have "unat c \<le> 3" by (simp add: word_less_nat_alt)
  then have "unat c = 0 \<or> unat c = 1 \<or> unat c = 2 \<or> unat c = 3" by linarith
  then show ?thesis by (simp add: word_unat_eq_iff)
qed

lemma regs_in:
  "RV_READ_IRQ_EN_REG \<in> mbox_regs" "RV_READ_IRQ_STA_REG \<in> mbox_regs" "DSP_READ_IRQ_EN_REG \<in> mbox_regs" "DSP_READ_IRQ_STA_REG \<in> mbox_regs"
  "\<not> c > 3 \<Longrightarrow> RV_MSG_STA_REG c \<in> mbox_regs" "\<not> c > 3 \<Longrightarrow> RV_MSG_FIFO_REG c \<in> mbox_regs"
  "\<not> c > 3 \<Longrightarrow> ARM_MSG_STA_REG c \<in> mbox_regs" "\<not> c > 3 \<Longrightarrow> ARM_MSG_FIFO_REG c \<in> mbox_regs"
  "\<not> c > 3 \<Longrightarrow> DSP_MSG_STA_REG c \<in> mbox_regs" "\<not> c > 3 \<Longrightarrow> DSP_MSG_FIFO_REG c \<in> mbox_regs"
  unfolding mbox_regs_def using channel_cases [of c] by blast+

lemma framed_mbox_ops:
  "framed rsc t (snd (mbox_send B c d t))" "framed rsc t (snd (mbox_is_rx_pending B c t))" "framed rsc t (snd (mbox_receive B c t))"
  by (simp_all add: framed_def mbox_send_def fifo_send_def mbox_is_rx_pending_def fifo_pending_def mbox_receive_def fifo_receive_def
      Let_def split_def regs_in reg_load_ok reg_store_ok)

lemmas framed_mbox = framed_mbox_ops [THEN framed_trans]

lemma framed_fields [simp]:
  "framed rsc t (t\<lparr>tp_kick_owed := b\<rparr>)" "framed rsc t (t\<lparr>tp_mbox_full_waits := n\<rparr>)" "framed rsc t (t\<lparr>tp_host_kicks := n\<rparr>)"
  "framed rsc t (t\<lparr>tp_tx_full_waits := n\<rparr>)" "framed rsc t (t\<lparr>tp_rx_count := n\<rparr>)" "framed rsc t (t\<lparr>tp_tx_count := n\<rparr>)"
  "framed rsc t (ring_error t)"
  by (simp_all add: framed_def)

lemma framed_notify_loop: "framed rsc t (notify_loop B n t)"
proof (induction n arbitrary: t)
  case (Suc n)
  obtain b t1 where send: "mbox_send B (tp_kick_channel t) 0 t = (b, t1)" by force
  have 1: "framed rsc t t1" using framed_mbox_ops(1) [of rsc t B "tp_kick_channel t" 0] send by simp
  have "framed rsc t1 (notify_loop B n (t1\<lparr>tp_mbox_full_waits := x\<rparr>))" for x
    by (rule framed_trans [OF _ Suc.IH]) simp
  then show ?case using framed_trans [OF 1] by (simp add: send)
qed simp

lemma framed_notify: "framed rsc t (notify B t)" "framed rsc t (retry_owed_kick B t)"
  by (simp_all add: notify_def retry_owed_kick_def framed_notify_loop)

lemma framed_drain_channel:
  fixes t :: "('h, 'z) rpmsg_transport_scheme"
  assumes "drain_channel B c n t = Some y"
  shows "framed rsc t (snd y)"
proof (rule drain_channel.raw_induct [of "\<lambda>B c n t y. framed rsc t (snd y)", OF _ assms])
  fix f :: "'h host \<Rightarrow> u8 \<Rightarrow> u32 \<Rightarrow> ('h, 'z) rpmsg_transport_scheme \<Rightarrow> (u32 \<times> ('h, 'z) rpmsg_transport_scheme) option" and B c n t y
  assume IH: "\<And>B c n t y. f B c n t = Some y \<Longrightarrow> framed rsc t (snd y)"
    and body: "(let (some, t) = mbox_is_rx_pending B c t in
       if some then let (v, t) = mbox_receive B c t in f B c (n + 1) t else Some (n, t)) = Some y"
  obtain some t1 where p: "mbox_is_rx_pending B c t = (some, t1)" by force
  obtain v t2 where r: "mbox_receive B c t1 = (v, t2)" by force
  have 1: "framed rsc t t1" "framed rsc t1 t2" using framed_mbox_ops(2) [of rsc t B c] framed_mbox_ops(3) [of rsc t1 B c] p r by simp_all
  have "(if some then f B c (n + 1) t2 else Some (n, t1)) = Some y" using body by (simp only: p r Let_def prod.case)
  then consider "y = (n, t1)" | "f B c (n + 1) t2 = Some y" by (cases some) simp_all
  then show "framed rsc t (snd y)"
  proof cases
    case 2
    from IH [OF this] 1 show ?thesis by (blast intro: framed_trans)
  qed (use 1 in simp)
qed

lemma framed_drain_doorbells:
  assumes "drain_doorbells B t = Some t'"
  shows "framed rsc t t'"
proof -
  obtain n t1 m t2 where d: "drain_channel B 0 0 t = Some (n, t1)" "drain_channel B 1 n t1 = Some (m, t2)"
    and t': "t' = (if m \<noteq> 0 then t2\<lparr>tp_host_kicks := tp_host_kicks t2 + m\<rparr> else t2)"
    using assms by (auto simp: drain_doorbells_def split: Option.bind_splits)
  have "framed rsc t2 t'" by (simp add: t')
  moreover have "framed rsc t t1" "framed rsc t1 t2" using d [THEN framed_drain_channel, of rsc] by simp_all
  ultimately show ?thesis by (blast intro: framed_trans)
qed

section \<open>Transmitting\<close>

text \<open>
  What an operation that sends leaves alone: the receive ring of a ready transport, the record of the
  receive buffers, the endpoints.
\<close>

definition tx_framed :: "u32 \<Rightarrow> ('h, 'z) rpmsg_transport_scheme \<Rightarrow> ('h, 'z) rpmsg_transport_scheme \<Rightarrow> bool" where
  "tx_framed rsc t t' = (rp_ok rsc t \<longrightarrow> rp_ok rsc t' \<and> (tp_ready t \<longrightarrow> tp_ready t' \<and> tp_rx t' = tp_rx t) \<and> tp_rsc t' = tp_rsc t \<and>
     tp_taken t' = tp_taken t \<and> tp_returned t' = tp_returned t \<and> tp_endpoints t' = tp_endpoints t \<and>
     tp_num_endpoints t' = tp_num_endpoints t \<and> rpmsg_transport.more t' = rpmsg_transport.more t)"

lemma tx_framed_refl [simp]: "tx_framed rsc t t"
  by (simp add: tx_framed_def)

lemma tx_framed_trans: "tx_framed rsc t u \<Longrightarrow> tx_framed rsc u v \<Longrightarrow> tx_framed rsc t v"
  by (simp add: tx_framed_def)

lemma framed_tx_framed: "framed rsc t u \<Longrightarrow> tx_framed rsc t u"
  by (simp add: framed_def tx_framed_def)

lemma tx_framed_ok: "tx_framed rsc t t' \<Longrightarrow> rp_ok rsc t \<Longrightarrow> rp_ok rsc t'"
  by (simp add: tx_framed_def)

lemma set_flags_framed: "vq_mapped vq \<Longrightarrow> framed rsc t (set_flags B vq f t)"
  by (simp add: framed_def set_flags_def Let_def split_def load_ok store_ok ring_access)

lemma vq_mapped_idx [simp]: "vq_mapped (vq\<lparr>vq_last_avail_idx := i\<rparr>) = vq_mapped vq" "vq_mapped (vq\<lparr>vq_bad_reads := b\<rparr>) = vq_mapped vq"
  by (simp_all add: vq_mapped_def)

lemma avail_pending_framed:
  assumes "avail_pending B vq t = ((p, vq'), t')" "vq_mapped vq"
  shows "framed rsc t t'" "vq_mapped vq'" "vq_num vq' = vq_num vq" "vq_used vq' = vq_used vq" "vq_avail vq' = vq_avail vq"
    "vq_mask vq' = vq_mask vq" "vq_desc vq' = vq_desc vq" "p = Some n \<Longrightarrow> ucast n \<le> vq_num vq"
  using assms(1) mapped_avail_idx [OF assms(2)] assms(2)
  by (simp_all add: avail_pending_def framed_def Let_def split_def load_ok split: if_splits) (auto intro: load_ok)

lemma publish_used_framed: "vq_mapped vq \<Longrightarrow> framed rsc t (publish_used B vq i n t)"
  by (simp add: framed_def publish_used_def Let_def split_def load_ok store_ok ring_access)

lemma rsc_load_ok:
  assumes "rp_ok rsc t" "tp_rsc t \<noteq> 0" "unat k + n \<le> 140"
  shows "rp_ok rsc (snd (hload B n (tp_rsc t + k) t))"
  using assms by (intro hload_ok) (auto simp: rp_ok_def)

lemma rsc_vring_at_eq: "rsc_vring_at rsc 0 = rsc + 100" "rsc_vring_at rsc 1 = rsc + 120"
  by (simp_all add: rsc_vring_at_def)

lemma load_vring_ok:
  assumes "rp_ok rsc t" "tp_rsc t \<noteq> 0" "k = 100 \<or> k = 120" "load_vring B (tp_rsc t + k) t = ((b, vq), t')"
  shows "rp_ok rsc t'" "b \<Longrightarrow> vq_mapped vq" "tp_rsc t' = tp_rsc t" "tp_ready t' = tp_ready t" "tp_taken t' = tp_taken t" "tp_returned t' = tp_returned t"
    "tp_endpoints t' = tp_endpoints t" "tp_num_endpoints t' = tp_num_endpoints t" "rpmsg_transport.more t' = rpmsg_transport.more t"
proof -
  have small: "unat k + 4 \<le> 140" "unat (k + 8) + 4 \<le> 140" "unat (k + 4) + 4 \<le> 140" using assms(3) by auto
  define t1 where "t1 = snd (load32 B (tp_rsc t + k) t)"
  define t2 where "t2 = snd (load32 B (tp_rsc t + (k + 8)) t1)"
  have t': "t' = snd (load32 B (tp_rsc t + (k + 4)) t2)" and vq: "\<exists>da num align. setup_vq da num align = (b, vq)"
    using assms(4) unfolding t1_def t2_def load_vring_def Let_def split_def add.assoc by blast+
  have 1: "rp_ok rsc t1" "tp_rsc t1 = tp_rsc t" using rsc_load_ok [OF assms(1,2) small(1)] by (simp_all add: t1_def snd_load)
  have 2: "rp_ok rsc t2" "tp_rsc t2 = tp_rsc t" using rsc_load_ok [OF 1(1) _ small(2)] 1(2) assms(2) by (simp_all add: t2_def snd_load)
  show "rp_ok rsc t'" using rsc_load_ok [OF 2(1) _ small(3)] 2(2) assms(2) by (simp add: t' snd_load)
  show "b \<Longrightarrow> vq_mapped vq" using vq setup_vq_mapped by auto
qed (use assms(4) in \<open>auto simp: load_vring_def Let_def split_def\<close>)

lemma load_rings_ok:
  assumes "rp_ok rsc t" "tp_rsc t \<noteq> 0" "\<not> tp_ready t"
  shows "rp_ok rsc (load_rings B t)" "tp_rsc (load_rings B t) = tp_rsc t" "tp_taken (load_rings B t) = tp_taken t"
    "tp_returned (load_rings B t) = tp_returned t" "tp_endpoints (load_rings B t) = tp_endpoints t"
    "tp_num_endpoints (load_rings B t) = tp_num_endpoints t" "rpmsg_transport.more (load_rings B t) = rpmsg_transport.more t"
proof -
  obtain b1 tx t1 where 1: "load_vring B (rsc_vring_at (tp_rsc t) 0) t = ((b1, tx), t1)" by (metis surj_pair)
  note 1 = this load_vring_ok [OF assms(1,2) disjI1 [OF refl] this [unfolded rsc_vring_at_eq]]
  obtain b2 rx t2 where 2: "load_vring B (rsc_vring_at (tp_rsc t1) 1) t1 = ((b2, rx), t2)" by (metis surj_pair)
  have "tp_rsc t1 \<noteq> 0" using 1 assms(2) by simp
  note 2 = 2 load_vring_ok [OF 1(2) this disjI2 [OF refl] 2 [unfolded rsc_vring_at_eq]]
  have t': "load_rings B t = (if b1 \<and> b2
     then (store16 B (used_flags_at (vq_used rx)) 0 (store16 B (used_flags_at (vq_used tx)) VRING_USED_F_NO_NOTIFY (t2\<lparr>tp_tx := tx, tp_rx := rx\<rparr>)))\<lparr>tp_ready := True\<rparr>
     else ring_error (t2\<lparr>tp_tx := virt_queue_null, tp_rx := virt_queue_null\<rparr>))"
    by (simp add: load_rings_def 1(1) 2(1))
  have r: "rp_ok rsc (t2\<lparr>tp_tx := q, tp_rx := q'\<rparr>)" for q q' using 1 2 assms(3) by (simp add: rp_ok_def)
  show "rp_ok rsc (load_rings B t)"
  proof (cases "b1 \<and> b2")
    case True
    then have m: "vq_mapped tx" "vq_mapped rx" using 1 2 by blast+
    have "rp_ok rsc (store16 B (used_flags_at (vq_used rx)) 0 (store16 B (used_flags_at (vq_used tx)) VRING_USED_F_NO_NOTIFY (t2\<lparr>tp_tx := tx, tp_rx := rx\<rparr>)))"
      by (intro store_ok r mapped_used m)
    then show ?thesis using True m \<open>tp_rsc t1 \<noteq> 0\<close> 2(4) by (simp add: t' rp_ok_def)
  next
    case False
    then have "load_rings B t = ring_error (t2\<lparr>tp_tx := virt_queue_null, tp_rx := virt_queue_null\<rparr>)" by (simp add: t' del: de_Morgan_conj)
    then show ?thesis using r by simp
  qed
  show "tp_rsc (load_rings B t) = tp_rsc t" "tp_taken (load_rings B t) = tp_taken t"
    "tp_returned (load_rings B t) = tp_returned t" "tp_endpoints (load_rings B t) = tp_endpoints t"
    "tp_num_endpoints (load_rings B t) = tp_num_endpoints t" "rpmsg_transport.more (load_rings B t) = rpmsg_transport.more t"
    using 1 2 by (simp_all add: t')
qed

lemma ready_keeps: "tp_ready t \<Longrightarrow> snd (ready B t) = t"
  by (simp add: ready_def)

lemma rsc_load_framed:
  assumes "tp_rsc t \<noteq> 0" "unat k + n \<le> 140"
  shows "framed rsc t (snd (hload B n (tp_rsc t + k) t))"
  using assms by (auto simp: framed_def intro: rsc_load_ok)

lemma load_rings_framed: "tp_rsc t \<noteq> 0 \<Longrightarrow> \<not> tp_ready t \<Longrightarrow> tx_framed rsc t (load_rings B t)"
  by (simp add: tx_framed_def load_rings_ok)

lemma ready_framed:
  assumes "ready B t = (r, t')"
  shows "tx_framed rsc t t'" "r \<Longrightarrow> tp_ready t'"
proof -
  define t1 where "t1 = snd (hload B 1 (tp_rsc t + 96) t)"
  define t2 where "t2 = snd (load32 B (tp_rsc t + 100) t1)"
  define t3 where "t3 = snd (load32 B (tp_rsc t + 120) t2)"
  have "tx_framed rsc t t' \<and> (r \<longrightarrow> tp_ready t')" if z: "tp_rsc t \<noteq> 0" and nr: "\<not> tp_ready t"
  proof -
    have 1: "framed rsc t t1" using rsc_load_framed [OF z, of 96 1] by (simp add: t1_def)
    have 2: "framed rsc t1 t2" using rsc_load_framed [of t1 100 4] framedD(5) [OF 1] z by (simp add: t2_def snd_load)
    have 3: "framed rsc t2 t3" using rsc_load_framed [of t2 120 4] framedD(5) [OF 1] framedD(5) [OF 2] z by (simp add: t3_def snd_load)
    have f: "framed rsc t t2" "framed rsc t t3" using 1 2 3 framed_trans by blast+
    have "tx_framed rsc t3 (load_rings B t3)" using framedD(4,5) [OF f(2)] z nr by (intro load_rings_framed) simp_all
    then have "tx_framed rsc t (load_rings B t3)" by (rule tx_framed_trans [OF framed_tx_framed [OF f(2)]])
    moreover have "t' = t1 \<or> t' = t2 \<or> t' = t3 \<or> t' = load_rings B t3" "r = tp_ready t'"
      using assms z nr by (auto simp: ready_def rsc_status_at_def rsc_vring_at_eq t1_def t2_def t3_def Let_def split_def split: if_splits)
    ultimately show ?thesis using 1 f framed_tx_framed by blast
  qed
  moreover have "tx_framed rsc t t' \<and> (r \<longrightarrow> tp_ready t')" if "tp_rsc t = 0 \<or> tp_ready t"
    using assms that by (auto simp: ready_def split: if_splits)
  ultimately show "tx_framed rsc t t'" "r \<Longrightarrow> tp_ready t'" by blast+
qed

text \<open>Lent buffers lie in a pool, with the header before the payload.\<close>

definition buf_ok :: "tx_buffer \<Rightarrow> bool" where
  "buf_ok buf = (tb_size buf = 0 \<or> in_pool (tb_data buf - kHdr) (16 + unat (tb_size buf)))"

lemma tx_framed_tx: "vq_mapped vq \<Longrightarrow> tx_framed rsc t (t\<lparr>tp_tx := vq\<rparr>)"
  by (simp add: tx_framed_def rp_ok_def)

lemma rp_ok_ready: "rp_ok rsc t \<Longrightarrow> tp_ready t \<Longrightarrow> vq_mapped (tp_tx t)" "rp_ok rsc t \<Longrightarrow> tp_ready t \<Longrightarrow> vq_mapped (tp_rx t)"
  by (simp_all add: rp_ok_def)

lemma pool_access_framed:
  "in_pool a n \<Longrightarrow> framed rsc t (snd (hload B n a t))" "in_pool a 2 \<Longrightarrow> framed rsc t (snd (load16 B a t))"
  "in_pool a 4 \<Longrightarrow> framed rsc t (snd (load32 B a t))" "in_pool a n \<Longrightarrow> framed rsc t (hstore B n a v t)"
  "in_pool a 2 \<Longrightarrow> framed rsc t (store16 B a v16 t)" "in_pool a 4 \<Longrightarrow> framed rsc t (store32 B a v32 t)"
  by (simp_all add: framed_def load_ok store_ok)

lemma tx_free_framed:
  assumes "tx_free B t = (n, t')" "rp_ok rsc t"
  shows "tx_framed rsc t t'" "n > m \<Longrightarrow> tp_ready t'"
proof -
  obtain r t1 where r: "ready B t = (r, t1)" by force
  note r' = ready_framed [OF r]
  have "tx_framed rsc t t' \<and> (n > m \<longrightarrow> tp_ready t')"
  proof (cases r)
    case True
    have 1: "rp_ok rsc t1" using r'(1) assms(2) by (rule tx_framed_ok)
    have m: "vq_mapped (tp_tx t1)" using 1 r'(2) True by (simp add: rp_ok_ready)
    obtain p vq t2 where a: "avail_pending B (tp_tx t1) t1 = ((p, vq), t2)" by (metis surj_pair)
    note a' = avail_pending_framed [OF a m]
    have "t' = set_flags B vq (if n = 0 then 0 else VRING_USED_F_NO_NOTIFY) (t2\<lparr>tp_tx := vq\<rparr>)"
      using assms(1) True by (auto simp: tx_free_def r a Let_def)
    then have "framed rsc (t2\<lparr>tp_tx := vq\<rparr>) t'" by (simp only: set_flags_framed [OF a'(2)])
    then have "tx_framed rsc t2 t'" by (rule tx_framed_trans [OF tx_framed_tx [OF a'(2)] framed_tx_framed])
    note 2 = tx_framed_trans [OF r'(1) tx_framed_trans [OF framed_tx_framed [OF a'(1)] this]]
    have "tp_ready t2" "rp_ok rsc t2" using framedD(1,4) [OF a'(1)] r'(2) True 1 by simp_all
    then have "tp_ready t'" using \<open>tx_framed rsc t2 t'\<close> by (simp add: tx_framed_def)
    with 2 show ?thesis by simp
  qed (use assms(1) r r' in \<open>auto simp: tx_free_def\<close>)
  then show "tx_framed rsc t t'" "n > m \<Longrightarrow> tp_ready t'" by blast+
qed

lemma hdr_in_pool:
  assumes "(if len > kHdr then translate_buf addr len else None) = Some hdr"
  shows "buf_ok \<lparr>tb_data = hdr + kHdr, tb_size = len - kHdr, tb_desc_idx = i\<rparr>"
proof -
  have len: "kHdr < len" "translate_buf addr len = Some hdr" using assms by (auto split: if_splits)
  then have "in_pool hdr (unat len)" using translate_buf_in by blast
  moreover have "16 + unat (len - kHdr) = unat len"
    using len(1) by (simp add: kHdr_def unat_sub word_le_nat_alt word_less_nat_alt)
  ultimately show ?thesis by (simp add: buf_ok_def)
qed

lemma tx_take_one_framed:
  assumes "tx_take_one B m t = (b, t')" "rp_ok rsc t"
  shows "tx_framed rsc t t'" "b = Some buf \<Longrightarrow> buf_ok buf"
proof -
  obtain n t1 where f: "tx_free B t = (n, t1)" by force
  note f' = tx_free_framed [OF f assms(2)]
  have "tx_framed rsc t t' \<and> (b = Some buf \<longrightarrow> buf_ok buf)"
  proof (cases "n \<le> m")
    case True
    then show ?thesis using assms(1) f f'(1) by (auto simp: tx_take_one_def buf_ok_def no_buffer_def)
  next
    case False
    then have r: "tp_ready t1" using f'(2) [of m] by simp
    have 1: "rp_ok rsc t1" using f'(1) assms(2) by (rule tx_framed_ok)
    have m: "vq_mapped (tp_tx t1)" using 1 r by (simp add: rp_ok_ready)
    define pos where "pos = vq_last_avail_idx (tp_tx t1)"
    obtain desc_idx u where u: "load16 B (avail_ring_at (vq_avail (tp_tx t1)) (ucast pos AND vq_mask (tp_tx t1))) t1 = (desc_idx, u)" by force
    define t2 where "t2 = u\<lparr>tp_tx := (tp_tx u)\<lparr>vq_last_avail_idx := pos + 1\<rparr>\<rparr>"
    have u': "framed rsc t1 u" using pool_access_framed(2) [OF mapped_avail_ring [OF m], of rsc t1 B] u by (metis snd_conv)
    have 2: "tx_framed rsc t1 t2" "tp_tx t2 = (tp_tx t1)\<lparr>vq_last_avail_idx := pos + 1\<rparr>"
      unfolding t2_def
      by (rule tx_framed_trans [OF framed_tx_framed [OF u'] tx_framed_tx]) (simp_all add: m framedD(2) [OF u'])
    obtain addr t3 where t3: "hload B 8 (desc_addr_at (vq_desc (tp_tx t2)) desc_idx) t2 = (addr, t3)" by force
    obtain len t4 where t4: "load32 B (desc_len_at (vq_desc (tp_tx t3)) desc_idx) t3 = (len, t4)" by force
    let ?len = "if len > RPMSG_BUFFER_SIZE then RPMSG_BUFFER_SIZE else len"
    let ?hdr = "if ?len > kHdr then translate_buf addr ?len else None"
    have out: "(b, t') = (if ucast desc_idx \<ge> vq_num (tp_tx t2) then (None, ring_error t2)
      else case ?hdr of None \<Rightarrow> (None, ring_error t4)
      | Some hdr \<Rightarrow> (Some \<lparr>tb_data = hdr + kHdr, tb_size = ?len - kHdr, tb_desc_idx = desc_idx\<rparr>, t4\<lparr>tp_can_cancel := True, tp_cancel_pos := pos\<rparr>))"
      unfolding assms(1) [symmetric] tx_take_one_def f Let_def prod.case if_not_P [OF False] u pos_def [symmetric] t2_def [symmetric] t3 t4
      by (rule refl)
    have r2: "tx_framed rsc t2 (ring_error t2)" by (simp add: framed_tx_framed)
    show ?thesis
    proof (cases "ucast desc_idx \<ge> vq_num (tp_tx t2)")
      case True
      then show ?thesis using out 2(1) r2 f'(1) by (auto intro: tx_framed_trans)
    next
      case ok: False
      have m2: "vq_mapped (tp_tx t2)" using m by (simp add: 2(2))
      have "framed rsc t2 t3" "framed rsc t3 t4" 
        using mapped_desc [OF m2 ok] pool_access_framed(1) [of _ 8 rsc t2 B] pool_access_framed(3) [of _ rsc t3 B] t3 t4
        by (metis snd_conv, metis snd_conv framedD(2))
      then have 4: "tx_framed rsc t t4" 
        using tx_framed_trans [OF f'(1) 2(1)] by (metis framed_trans framed_tx_framed tx_framed_trans)
      have c: "tx_framed rsc t4 (ring_error t4)" "tx_framed rsc t4 (t4\<lparr>tp_can_cancel := True, tp_cancel_pos := pos\<rparr>)"
        by (simp_all add: framed_tx_framed tx_framed_def)
      show ?thesis using out ok 4 c tx_framed_trans hdr_in_pool [of ?len addr] by (cases ?hdr) (auto split: if_splits)
    qed
  qed
  then show "tx_framed rsc t t'" "b = Some buf \<Longrightarrow> buf_ok buf" by blast+
qed

lemma tx_take_loop_framed:
  fixes t :: "('h, 'z) rpmsg_transport_scheme"
  assumes "tx_take_loop B m t = Some y" "rp_ok rsc t"
  shows "tx_framed rsc t (snd y) \<and> buf_ok (fst y)"
proof -
  have "rp_ok rsc t \<longrightarrow> tx_framed rsc t (snd y) \<and> buf_ok (fst y)"
  proof (rule tx_take_loop.raw_induct [of "\<lambda>B m t y. rp_ok rsc t \<longrightarrow> tx_framed rsc t (snd y) \<and> buf_ok (fst y)", OF _ assms(1)], rule impI)
    fix f :: "'h host \<Rightarrow> u16 \<Rightarrow> ('h, 'z) rpmsg_transport_scheme \<Rightarrow> (tx_buffer \<times> ('h, 'z) rpmsg_transport_scheme) option" and B m t y
    assume IH: "\<And>B m t y. f B m t = Some y \<Longrightarrow> rp_ok rsc t \<longrightarrow> tx_framed rsc t (snd y) \<and> buf_ok (fst y)"
      and body: "(case tx_take_one B m t of (None, t) \<Rightarrow> f B m t | (Some buf, t) \<Rightarrow> Some (buf, t)) = Some y" and ok: "rp_ok rsc t"
    obtain b t1 where 1: "tx_take_one B m t = (b, t1)" by force
    note 1 = 1 tx_take_one_framed [OF 1 ok]
    show "tx_framed rsc t (snd y) \<and> buf_ok (fst y)"
    proof (cases b)
      case None
      then have "f B m t1 = Some y" using body 1(1) by simp
      from IH [OF this] show ?thesis using tx_framed_ok [OF 1(2) ok] tx_framed_trans [OF 1(2)] by blast
    next
      case (Some buf)
      then show ?thesis using body 1 by auto
    qed
  qed
  then show ?thesis using assms(2) by blast
qed

lemma tx_take_framed:
  assumes "tx_take B m t = Some (buf, t')" "rp_ok rsc t"
  shows "tx_framed rsc t t'" "buf_ok buf"
proof -
  have 1: "framed rsc t (retry_owed_kick B t)" by (rule framed_notify)
  have "tx_framed rsc (retry_owed_kick B t) t' \<and> buf_ok buf"
    using tx_take_loop_framed [of B m "retry_owed_kick B t" "(buf, t')" rsc] assms framedD(1) [OF 1] by (simp add: tx_take_def)
  then show "tx_framed rsc t t'" "buf_ok buf" using tx_framed_trans [OF framed_tx_framed [OF 1]] by blast+
qed

lemma tx_cancel_framed:
  assumes "tx_cancel B buf t = (b, t')" "rp_ok rsc t"
  shows "tx_framed rsc t t'"
proof (cases "tb_size buf = 0 \<or> \<not> tp_can_cancel t \<or> \<not> tp_ready t \<or> tp_cancel_pos t + 1 \<noteq> vq_last_avail_idx (tp_tx t)")
  case False
  then have m: "vq_mapped (tp_tx t)" using assms(2) by (simp add: rp_ok_ready)
  obtain i u where u: "load16 B (avail_ring_at (vq_avail (tp_tx t)) (ucast (tp_cancel_pos t) AND vq_mask (tp_tx t))) t = (i, u)" by force
  have 1: "framed rsc t u" using pool_access_framed(2) [OF mapped_avail_ring [OF m], of rsc t B] u by (metis snd_conv)
  have "t' = u \<or> t' = u\<lparr>tp_tx := (tp_tx u)\<lparr>vq_last_avail_idx := tp_cancel_pos u\<rparr>, tp_can_cancel := False\<rparr>"
    using assms(1) False by (auto simp: tx_cancel_def u split: if_splits)
  moreover have "tx_framed rsc u (u\<lparr>tp_tx := (tp_tx u)\<lparr>vq_last_avail_idx := tp_cancel_pos u\<rparr>, tp_can_cancel := False\<rparr>)"
    using m by (simp add: tx_framed_def rp_ok_def framedD(2) [OF 1])
  ultimately show ?thesis using tx_framed_trans [OF framed_tx_framed [OF 1]] framed_tx_framed [OF 1] by blast
qed (use assms(1) in \<open>auto simp: tx_cancel_def\<close>)

lemma tx_publish_framed:
  assumes "tx_publish B buf n src dst t = (b, t')" "rp_ok rsc t" "buf_ok buf"
  shows "tx_framed rsc t t'"
proof (cases "\<not> tp_ready t \<or> vq_used (tp_tx t) = 0 \<or> tb_size buf = 0 \<or> ucast (tb_desc_idx buf) \<ge> vq_num (tp_tx t) \<or> ucast n > tb_size buf")
  case False
  define h where "h = tb_data buf - kHdr"
  have pool: "in_pool h (16 + unat (tb_size buf))" using assms(3) False by (simp add: buf_ok_def h_def)
  have at: "in_pool (h + of_nat k) m" if "k + m \<le> 16" for k m by (rule in_pool_offset [OF pool]) (use that in simp)
  define t1 where "t1 = store32 B (h + 8) 0 (store16 B (h + 14) 0 (store16 B (h + 12) n (store32 B (h + 4) dst (store32 B h src t))))"
  have 1: "framed rsc t t1" unfolding t1_def
    using at [of 0 4] at [of 4 4] at [of 12 2] at [of 14 2] at [of 8 4]
    by (simp add: framed_def pool_access_framed store_ok)
  define t2 where "t2 = publish_used B (tp_tx t1) (tb_desc_idx buf) (kHdr + ucast n) t1"
  have 2: "framed rsc t1 t2" unfolding t2_def
    by (rule publish_used_framed) (use False assms(2) in \<open>simp add: framedD(2) [OF 1] rp_ok_ready\<close>)
  define t3 where "t3 = notify B (t2\<lparr>tp_can_cancel := False\<rparr>)"
  have "t' = t3\<lparr>tp_tx_count := tp_tx_count t3 + 1\<rparr>"
    using assms(1) False by (auto simp: tx_publish_def Let_def t3_def t2_def t1_def h_def)
  moreover have "tx_framed rsc t2 (t2\<lparr>tp_can_cancel := False\<rparr>)" by (simp add: tx_framed_def)
  moreover have "tx_framed rsc (t2\<lparr>tp_can_cancel := False\<rparr>) t3" unfolding t3_def by (rule framed_tx_framed [OF framed_notify(1)])
  moreover have "tx_framed rsc t3 (t3\<lparr>tp_tx_count := tp_tx_count t3 + 1\<rparr>)" by (rule framed_tx_framed) simp
  ultimately show ?thesis using framed_tx_framed [OF framed_trans [OF 1 2]] tx_framed_trans by metis
qed (use assms(1) in \<open>auto simp: tx_publish_def\<close>)

lemma store_bytes_framed: "in_pool a (length xs) \<Longrightarrow> framed rsc t (store_bytes B a xs t)"
proof (induction xs arbitrary: a t)
  case (Cons x xs)
  have "in_pool (a + 1) (length xs)" "in_pool a 1" using in_pool_offset [OF Cons.prems, of 1 "length xs"] in_pool_less [OF Cons.prems] by simp_all
  then show ?case using framed_trans [OF pool_access_framed(4) Cons.IH] by simp
qed simp

lemma reply_wait_framed:
  "reply_wait B n t = Some (buf, t') \<Longrightarrow> rp_ok rsc t \<Longrightarrow> tx_framed rsc t t' \<and> buf_ok buf"
proof (induction B n t arbitrary: buf t' rule: reply_wait.induct)
  case (1 B n t)
  obtain b1 t1 where take: "tx_take B 0 t = Some (b1, t1)" using "1.prems"(1) by (auto split: Option.bind_splits)
  note 2 = tx_take_framed [OF take "1.prems"(2)]
  show ?case
  proof (cases "tb_size b1 \<noteq> 0")
    case True
    then show ?thesis using "1.prems"(1) 2 by (simp add: take)
  next
    case False
    show ?thesis
    proof (cases n)
      case 0
      then show ?thesis using "1.prems"(1) 2 False by (auto simp: take buf_ok_def no_buffer_def)
    next
      case (Suc k)
      define t2 where "t2 = notify B (t1\<lparr>tp_tx_full_waits := tp_tx_full_waits t1 + 1\<rparr>)"
      obtain t3 where d: "drain_doorbells B t2 = Some t3" "reply_wait B k t3 = Some (buf, t')"
        using "1.prems"(1) False Suc by (auto simp: take t2_def split: Option.bind_splits)
      have "framed rsc t1 t2" unfolding t2_def by (rule framed_trans [OF framed_fields(4) framed_notify(1)])
      then have "framed rsc t1 t3" by (rule framed_trans [OF _ framed_drain_doorbells [OF d(1)]])
      then have 3: "tx_framed rsc t t3" by (rule tx_framed_trans [OF 2(1) framed_tx_framed])
      have "tx_framed rsc t3 t' \<and> buf_ok buf"
        by (rule "1.IH" [OF take refl False Suc d(1) [unfolded t2_def] d(2) tx_framed_ok [OF 3 "1.prems"(2)]])
      then show ?thesis using tx_framed_trans [OF 3] by blast
    qed
  qed
qed

lemma reply_framed:
  assumes "reply B msg payload n t = Some (b, t')" "rp_ok rsc t"
  shows "tx_framed rsc t t'"
proof -
  obtain r t1 where r: "ready B t = (r, t1)" by force
  note 1 = ready_framed(1) [OF r, of rsc]
  show ?thesis
  proof (cases "\<not> r \<or> ucast n > RPMSG_BUFFER_SIZE - kHdr")
    case True
    then show ?thesis using assms(1) 1 by (auto simp: reply_def r)
  next
    case False
    then obtain buf t2 where w: "reply_wait B kReplyWaitRounds t1 = Some (buf, t2)"
      using assms(1) by (auto simp: reply_def r split: Option.bind_splits)
    note 2 = reply_wait_framed [OF w tx_framed_ok [OF 1 assms(2)]]
    have 12: "tx_framed rsc t t2" using tx_framed_trans [OF 1] 2 by blast
    note ok2 = tx_framed_ok [OF 12 assms(2)]
    consider "tb_size buf = 0" "t' = t2" | c t3 where "tb_size buf \<noteq> 0" "tx_cancel B buf t2 = (c, t3)" "t' = ring_error t3"
      | xs where "tb_size buf \<noteq> 0" "length xs \<le> unat (tb_size buf)" "tx_publish B buf n (rm_dst msg) (rm_src msg) (store_bytes B (tb_data buf) xs t2) = (b, t')"
    proof -
      note out = assms(1) [unfolded reply_def r Let_def prod.case if_not_P [OF False] w bind.bind_lunit option.inject]
      show thesis
      proof (cases "tb_size buf < ucast n")
        case True
        then show thesis using out that(1,2) by (auto split: if_splits prod.splits)
      next
        case big: False
        then have "unat n \<le> unat (tb_size buf)" by (simp add: word_less_nat_alt)
        then show thesis using out big that(1) that(3) [of "[]"] that(3) [of "take (unat n) (the payload)"]
          by (auto split: if_splits option.splits)
      qed
    qed
    then show ?thesis
    proof cases
      case 1
      then show ?thesis using 12 by simp
    next
      case (2 c t3)
      then show ?thesis using tx_framed_trans [OF tx_framed_trans [OF 12 tx_cancel_framed [OF 2(2) ok2]]] framed_tx_framed [OF framed_fields(7)] by blast
    next
      case (3 xs)
      have "in_pool (tb_data buf) (length xs)"
        using in_pool_offset [of "tb_data buf - kHdr" "16 + unat (tb_size buf)" 16 "length xs"] \<open>tx_framed rsc t1 t2 \<and> buf_ok buf\<close> 3(1,2)
        by (simp add: buf_ok_def kHdr_def)
      then have s: "tx_framed rsc t2 (store_bytes B (tb_data buf) xs t2)" by (rule framed_tx_framed [OF store_bytes_framed])
      show ?thesis
        using tx_framed_trans [OF 12 tx_framed_trans [OF s tx_publish_framed [OF 3(3) tx_framed_ok [OF s ok2]]]] \<open>tx_framed rsc t1 t2 \<and> buf_ok buf\<close> by blast
    qed
  qed
qed

section \<open>Receiving\<close>

definition msg_ok :: "rpmsg_message \<Rightarrow> bool" where
  "msg_ok m = in_pool (rm_data m) (unat (rm_len m))"

text \<open>
  What a callback may do: anything that keeps the invariant and leaves the receive ring alone. \<open>P\<close> is
  a property of the state that callers keep beside the transport.
\<close>

definition cb_framed :: "u32 \<Rightarrow> ('z \<Rightarrow> bool) \<Rightarrow> ('h, 'z) rpmsg_transport_scheme \<Rightarrow> ('h, 'z) rpmsg_transport_scheme \<Rightarrow> bool" where
  "cb_framed rsc P t t' = (rp_ok rsc t \<and> P (rpmsg_transport.more t) \<longrightarrow> rp_ok rsc t' \<and> P (rpmsg_transport.more t') \<and>
     (tp_ready t \<longrightarrow> tp_ready t' \<and> tp_rx t' = tp_rx t) \<and> tp_taken t' = tp_taken t \<and> tp_returned t' = tp_returned t)"

lemma cb_framed_refl [simp]: "cb_framed rsc P t t"
  by (simp add: cb_framed_def)

lemma cb_framed_trans: "cb_framed rsc P t u \<Longrightarrow> cb_framed rsc P u v \<Longrightarrow> cb_framed rsc P t v"
  by (simp add: cb_framed_def)

lemma tx_framed_cb: "tx_framed rsc t u \<Longrightarrow> cb_framed rsc P t u"
  by (simp add: cb_framed_def tx_framed_def)

lemma framed_cb: "framed rsc t u \<Longrightarrow> cb_framed rsc P t u"
  by (rule tx_framed_cb [OF framed_tx_framed])

text \<open>The receive ring has moved on by \<open>n\<close> entries; every valid descriptor taken was given back, in order.\<close>

definition rx_moved :: "u32 \<Rightarrow> ('z \<Rightarrow> bool) \<Rightarrow> nat \<Rightarrow> ('h, 'z) rpmsg_transport_scheme \<Rightarrow> ('h, 'z) rpmsg_transport_scheme \<Rightarrow> bool" where
  "rx_moved rsc P n t t' = (rp_ok rsc t' \<and> tp_ready t' \<and> P (rpmsg_transport.more t') \<and>
     vq_avail (tp_rx t') = vq_avail (tp_rx t) \<and> vq_last_avail_idx (tp_rx t') = vq_last_avail_idx (tp_rx t) + of_nat n \<and>
     (\<exists>zs. tp_taken t' = tp_taken t @ zs \<and> tp_returned t' = tp_returned t @ zs \<and> length zs \<le> n))"

lemma rx_moved_trans: "rx_moved rsc P m t u \<Longrightarrow> rx_moved rsc P n u v \<Longrightarrow> rx_moved rsc P (m + n) t v"
  unfolding rx_moved_def by (auto simp: add_mono)

lemma load_framed:
  "hload B n a t = (v, t') \<Longrightarrow> in_pool a n \<Longrightarrow> framed rsc t t'" "load16 B a t = (v16, t') \<Longrightarrow> in_pool a 2 \<Longrightarrow> framed rsc t t'"
  "load32 B a t = (v32, t') \<Longrightarrow> in_pool a 4 \<Longrightarrow> framed rsc t t'"
  by (metis pool_access_framed snd_conv)+

lemma rp_ok_rx: "rp_ok rsc t \<Longrightarrow> vq_mapped q \<Longrightarrow> rp_ok rsc (t\<lparr>tp_rx := q\<rparr>)"
  by (simp add: rp_ok_def)

locale endpoint_callbacks =
  fixes B :: "'h host" and rsc :: u32 and P :: "'z \<Rightarrow> bool" and call :: "('h, 'z) ep_call"
  assumes call_framed: "\<lbrakk>msg_ok m; call f u m t = Some t'\<rbrakk> \<Longrightarrow> cb_framed rsc P t t'"
begin

lemma dispatch_framed: "msg_ok m \<Longrightarrow> rpmsg_dispatch call m t = Some t' \<Longrightarrow> cb_framed rsc P t t'"
  by (auto simp: rpmsg_dispatch_def split: option.splits
      dest!: call_framed intro!: cb_framed_trans [of rsc P t "t\<lparr>tp_handed := tp_handed t @ [m]\<rparr>"] simp: cb_framed_def)

lemma consume_framed:
  assumes "consume_message B call i t = Some t'" "rp_ok rsc t" "tp_ready t" "\<not> vq_num (tp_rx t) \<le> ucast i"
  shows "cb_framed rsc P t t'"
proof -
  have m: "vq_mapped (tp_rx t)" using assms(2,3) by (rule rp_ok_ready)
  obtain addr t1 where t1: "hload B 8 (desc_addr_at (vq_desc (tp_rx t)) i) t = (addr, t1)" by force
  obtain len t2 where t2: "load32 B (desc_len_at (vq_desc (tp_rx t1)) i) t1 = (len, t2)" by force
  have 1: "framed rsc t t1" using pool_access_framed(1) [OF mapped_desc(1) [OF m assms(4)], of rsc t B] t1 by (metis snd_conv)
  have 2: "framed rsc t1 t2" using pool_access_framed(3) [OF mapped_desc(2) [OF m assms(4)], of rsc t1 B] t2 framedD(3) [OF 1] by (metis snd_conv)
  let ?len = "if len > RPMSG_BUFFER_SIZE then RPMSG_BUFFER_SIZE else len"
  let ?hdr = "if ?len \<ge> kHdr then translate_buf addr ?len else None"
  note 12 = framed_trans [OF 1 2]
  note out = assms(1) [unfolded consume_message_def Let_def t1 prod.case t2]
  show ?thesis
  proof (cases ?hdr)
    case None
    then have "t' = ring_error t2" using out by simp
    then show ?thesis using framed_cb [OF framed_trans [OF 12 framed_fields(7)]] by simp
  next
    case (Some h)
    then have h: "?len \<ge> kHdr" "in_pool h (unat ?len)" by (auto split: if_splits dest: translate_buf_in)
    then have sz: "16 + unat (?len - kHdr) = unat ?len" by (simp add: kHdr_def unat_sub word_le_nat_alt)
    have at: "in_pool (h + of_nat k) n" if "k + n \<le> 16 + unat (?len - kHdr)" for k n
      by (rule in_pool_offset [OF h(2)]) (use that sz in simp)
    obtain msg_len t3 where t3: "load16 B (h + 12) t2 = (msg_len, t3)" by force
    obtain src t4 where t4: "load32 B h t3 = (src, t4)" by force
    obtain dst t5 where t5: "load32 B (h + 4) t4 = (dst, t5)" by force
    have 3: "framed rsc t2 t3" using load_framed(2) [OF t3] at [of 12 2] by simp
    have 4: "framed rsc t3 t4" using load_framed(3) [OF t4] at [of 0 4] by simp
    have 5: "framed rsc t4 t5" using load_framed(3) [OF t5] at [of 4 4] by simp
    note 13 = framed_trans [OF 12 3] and 15 = framed_trans [OF framed_trans [OF framed_trans [OF 12 3] 4] 5]
    let ?msg = "\<lparr>rm_src = src, rm_dst = dst, rm_len = msg_len, rm_data = h + kHdr, rm_desc_idx = i\<rparr>"
    note out = out [unfolded Some option.case t3 prod.case t4 t5]
    show ?thesis
    proof (cases "ucast msg_len > ?len - kHdr")
      case True
      then have "t' = ring_error t3" using out by simp
      then show ?thesis using framed_cb [OF framed_trans [OF 13 framed_fields(7)]] by simp
    next
      case False
      then have "unat msg_len \<le> unat (?len - kHdr)" by (simp add: word_less_nat_alt)
      then have msg: "msg_ok ?msg" using at [of 16 "unat msg_len"] by (simp add: msg_ok_def kHdr_def)
      have "rpmsg_dispatch call ?msg (t5\<lparr>tp_rx_count := tp_rx_count t5 + 1\<rparr>) = Some t'" using out False by simp
      from dispatch_framed [OF msg this] framed_cb [OF framed_trans [OF 15 framed_fields(5)]] show ?thesis
        by (blast intro: cb_framed_trans)
    qed
  qed
qed

lemma poll_one_moved:
  assumes "poll_one B call t = Some t'" "rp_ok rsc t" "tp_ready t" "P (rpmsg_transport.more t)"
  shows "rx_moved rsc P 1 t t'"
proof -
  have m: "vq_mapped (tp_rx t)" using assms(2,3) by (rule rp_ok_ready)
  define pos where "pos = vq_last_avail_idx (tp_rx t)"
  obtain i u where u: "load16 B (avail_ring_at (vq_avail (tp_rx t)) (ucast pos AND vq_mask (tp_rx t))) t = (i, u)" by force
  have 1: "framed rsc t u" using load_framed(2) [OF u mapped_avail_ring [OF m]] .
  define t2 where "t2 = u\<lparr>tp_rx := (tp_rx u)\<lparr>vq_last_avail_idx := pos + 1\<rparr>\<rparr>"
  have 2: "rp_ok rsc t2" "tp_ready t2" "tp_rx t2 = (tp_rx t)\<lparr>vq_last_avail_idx := pos + 1\<rparr>" "tp_taken t2 = tp_taken t" "tp_returned t2 = tp_returned t"
    "rpmsg_transport.more t2 = rpmsg_transport.more t"
    unfolding t2_def using framedD(1) [OF 1 assms(2)] m by (simp_all add: rp_ok_rx framedD(2-) [OF 1] assms(3))
  note out = assms(1) [unfolded poll_one_def Let_def pos_def [symmetric] u prod.case t2_def [symmetric]]
  show ?thesis
  proof (cases "ucast i \<ge> vq_num (tp_rx t2)")
    case True
    then have "t' = ring_error t2" using out by simp
    then show ?thesis using 2 assms(4) by (simp add: rx_moved_def pos_def)
  next
    case False
    then obtain t3 where c: "consume_message B call i (t2\<lparr>tp_taken := tp_taken t2 @ [i]\<rparr>) = Some t3"
      and t': "t' = publish_used B (tp_rx t3) i 0 (t3\<lparr>tp_returned := tp_returned t3 @ [i]\<rparr>)"
      using out by (auto split: Option.bind_splits)
    have 3: "rp_ok rsc t3" "tp_ready t3" "tp_rx t3 = tp_rx t2" "tp_taken t3 = tp_taken t @ [i]" "tp_returned t3 = tp_returned t"
      "P (rpmsg_transport.more t3)"
      using consume_framed [OF c] 2 assms(4) False by (simp_all add: cb_framed_def)
    have "framed rsc (t3\<lparr>tp_returned := tp_returned t3 @ [i]\<rparr>) t'"
      unfolding t' by (rule publish_used_framed) (rule rp_ok_ready [OF 3(1,2)])
    from framedD [OF this] 2 3 show ?thesis by (simp add: rx_moved_def pos_def)
  qed
qed

lemma poll_batch_moved: "poll_batch B call n t = Some t' \<Longrightarrow> rp_ok rsc t \<Longrightarrow> tp_ready t \<Longrightarrow> P (rpmsg_transport.more t) \<Longrightarrow> rx_moved rsc P n t t'"
proof (induction n arbitrary: t)
  case 0
  then show ?case by (simp add: rx_moved_def)
next
  case (Suc n)
  obtain u where 1: "poll_one B call t = Some u" and 2: "poll_batch B call n u = Some t'"
    using Suc.prems(1) by (auto split: Option.bind_splits)
  have u: "rx_moved rsc P 1 t u" using poll_one_moved [OF 1 Suc.prems(2-4)] .
  then have "rx_moved rsc P n u t'" using Suc.IH [OF 2] by (simp add: rx_moved_def)
  from rx_moved_trans [OF u this] show ?case by simp
qed

end

text \<open>Whatever the number of entries, the buffers taken were given back.\<close>

definition rx_done :: "u32 \<Rightarrow> ('z \<Rightarrow> bool) \<Rightarrow> ('h, 'z) rpmsg_transport_scheme \<Rightarrow> ('h, 'z) rpmsg_transport_scheme \<Rightarrow> bool" where
  "rx_done rsc P t t' = (rp_ok rsc t' \<and> P (rpmsg_transport.more t') \<and> (\<exists>zs. tp_taken t' = tp_taken t @ zs \<and> tp_returned t' = tp_returned t @ zs))"

lemma rx_done_trans: "rx_done rsc P t u \<Longrightarrow> rx_done rsc P u v \<Longrightarrow> rx_done rsc P t v"
  by (auto simp: rx_done_def)

lemma rx_moved_done: "rx_moved rsc P n t u \<Longrightarrow> rx_done rsc P t u"
  by (auto simp: rx_moved_def rx_done_def)

lemma cb_framed_done: "cb_framed rsc P t u \<Longrightarrow> rp_ok rsc t \<Longrightarrow> P (rpmsg_transport.more t) \<Longrightarrow> rx_done rsc P t u"
  by (simp add: cb_framed_def rx_done_def)

context endpoint_callbacks
begin

lemma poll_loop_done:
  assumes "poll_loop B call n t = Some t'" "rp_ok rsc t" "tp_ready t" "P (rpmsg_transport.more t)"
  shows "rx_done rsc P t t'"
proof -
  have "rp_ok rsc t \<longrightarrow> tp_ready t \<longrightarrow> P (rpmsg_transport.more t) \<longrightarrow> rx_done rsc P t t'"
  proof (rule poll_loop.raw_induct [of "\<lambda>B' call' n t t'. B' = B \<longrightarrow> call' = call \<longrightarrow> rp_ok rsc t \<longrightarrow> tp_ready t \<longrightarrow> P (rpmsg_transport.more t) \<longrightarrow> rx_done rsc P t t'", OF _ assms(1),
        THEN mp [OF _ refl], THEN mp [OF _ refl]], intro impI)
    fix f :: "'h host \<Rightarrow> ('h, 'z) ep_call \<Rightarrow> u16 \<Rightarrow> ('h, 'z) rpmsg_transport_scheme \<Rightarrow> ('h, 'z) rpmsg_transport_scheme option"
      and B' call' and n :: u16 and t t' :: "('h, 'z) rpmsg_transport_scheme"
    assume IH: "\<And>B' call' n t t'. f B' call' n t = Some t' \<Longrightarrow> B' = B \<longrightarrow> call' = call \<longrightarrow> rp_ok rsc t \<longrightarrow> tp_ready t \<longrightarrow> P (rpmsg_transport.more t) \<longrightarrow> rx_done rsc P t t'"
      and eq: "B' = B" "call' = call" and ok: "rp_ok rsc t" "tp_ready t" "P (rpmsg_transport.more t)"
      and body: "Option.bind (poll_batch B' call' (unat n) t) (\<lambda>t. case avail_pending B' (tp_rx t) t of ((None, vq), t) \<Rightarrow> Some (t\<lparr>tp_rx := vq\<rparr>)
          | ((Some n, vq), t) \<Rightarrow> if n = 0 then Some (t\<lparr>tp_rx := vq\<rparr>) else f B' call' n (t\<lparr>tp_rx := vq\<rparr>)) = Some t'"
    obtain u where batch: "poll_batch B call (unat n) t = Some u" using body unfolding eq by (auto split: Option.bind_splits)
    have u: "rx_moved rsc P (unat n) t u" using poll_batch_moved [OF batch ok] .
    then have u': "rp_ok rsc u" "tp_ready u" "P (rpmsg_transport.more u)" by (simp_all add: rx_moved_def)
    obtain p vq v where a: "avail_pending B (tp_rx u) u = ((p, vq), v)" by (metis surj_pair)
    note a' = avail_pending_framed [OF a rp_ok_ready(2) [OF u'(1,2)]]
    define w where "w = v\<lparr>tp_rx := vq\<rparr>"
    have w: "rp_ok rsc w" "tp_ready w" "tp_taken w = tp_taken u" "tp_returned w = tp_returned u" "rpmsg_transport.more w = rpmsg_transport.more u"
      unfolding w_def using rp_ok_rx [OF framedD(1) [OF a'(1) u'(1)] a'(2)] by (simp_all add: framedD(2-) [OF a'(1)] u')
    have "rx_done rsc P u w" using w u'(3) by (simp add: rx_done_def)
    then have tw: "rx_done rsc P t w" by (rule rx_done_trans [OF rx_moved_done [OF u]])
    have "t' = w \<or> (\<exists>n. f B call n w = Some t')"
      using body unfolding eq batch bind.bind_lunit a prod.case w_def by (auto split: option.splits if_splits)
    then show "rx_done rsc P t t'" using IH tw rx_done_trans w(1,2,5) u'(3) by metis
  qed
  then show ?thesis using assms(2-4) by blast
qed

theorem poll_done:
  assumes "poll B call t = Some (b, t')" "rp_ok rsc t" "P (rpmsg_transport.more t)"
  shows "rx_done rsc P t t'"
proof -
  obtain r t1 where r: "ready B t = (r, t1)" by force
  note 1 = ready_framed [OF r]
  note d1 = cb_framed_done [where P = P, OF tx_framed_cb [OF 1(1)] assms(2,3)]
  show ?thesis
  proof (cases r)
    case False
    then show ?thesis using assms(1) d1 by (auto simp: poll_def r)
  next
    case True
    have ok1: "rp_ok rsc t1" "tp_ready t1" using tx_framed_ok [OF 1(1) assms(2)] 1(2) [OF True] by simp_all
    obtain t2 where d: "drain_doorbells B (retry_owed_kick B t1) = Some t2"
      using assms(1) True by (auto simp: poll_def r split: Option.bind_splits)
    have 2: "framed rsc t1 t2" by (rule framed_trans [OF framed_notify(2) framed_drain_doorbells [OF d]])
    have ok2: "rp_ok rsc t2" "tp_ready t2" using framedD(1,4) [OF 2] ok1 by simp_all
    obtain p vq t3 where a: "avail_pending B (tp_rx t2) t2 = ((p, vq), t3)" by (metis surj_pair)
    note a' = avail_pending_framed [OF a rp_ok_ready(2) [OF ok2]]
    define t4 where "t4 = set_flags B vq 0 (t3\<lparr>tp_rx := vq\<rparr>)"
    have 4: "framed rsc (t3\<lparr>tp_rx := vq\<rparr>) t4" unfolding t4_def by (rule set_flags_framed [OF a'(2)])
    have ok4: "rp_ok rsc t4" "tp_ready t4" "tp_taken t4 = tp_taken t1" "tp_returned t4 = tp_returned t1" "rpmsg_transport.more t4 = rpmsg_transport.more t1"
      using framedD(1) [OF 4] rp_ok_rx [OF framedD(1) [OF a'(1) ok2(1)] a'(2)]
      by (simp_all add: framedD(2-) [OF 4] framedD(2-) [OF a'(1)] framedD(2-) [OF 2] ok1)
    have P1: "P (rpmsg_transport.more t1)" using d1 by (simp add: rx_done_def)
    then have "rx_done rsc P t1 t4" using ok4 by (simp add: rx_done_def)
    then have d4: "rx_done rsc P t t4" by (rule rx_done_trans [OF d1])
    have "t' = t4 \<or> (\<exists>n u. poll_loop B call n t4 = Some u \<and> t' = notify B u)"
      using assms(1) True by (auto simp: poll_def r d a t4_def Let_def split: option.splits if_splits Option.bind_splits)
    then show ?thesis
    proof
      assume "\<exists>n u. poll_loop B call n t4 = Some u \<and> t' = notify B u"
      then obtain n u where u: "poll_loop B call n t4 = Some u" "t' = notify B u" by blast
      have "rx_done rsc P t4 u" by (rule poll_loop_done [OF u(1) ok4(1,2)]) (simp add: ok4(5) P1)
      then have tu: "rx_done rsc P t u" by (rule rx_done_trans [OF d4])
      have "rp_ok rsc u" "P (rpmsg_transport.more u)" using tu by (simp_all add: rx_done_def)
      then have "rx_done rsc P u t'" unfolding u(2) by (rule cb_framed_done [where P = P, OF framed_cb [OF framed_notify(1)]])
      with tu show ?thesis by (rule rx_done_trans)
    qed (use d4 in simp)
  qed
qed

end

section \<open>The other operations\<close>

lemma flush_kick_framed: "framed rsc t (flush_kick B t)"
  by (simp add: flush_kick_def framed_notify)

lemma enable_rx_kick_framed: "rp_ok rsc t \<Longrightarrow> tx_framed rsc t (enable_rx_kick B enable t)"
proof -
  assume ok: "rp_ok rsc t"
  obtain r t1 where r: "ready B t = (r, t1)" by force
  note 1 = ready_framed [OF r]
  have "tx_framed rsc t1 (enable_rx_kick B enable t)"
    using 1(2) rp_ok_ready(2) [OF tx_framed_ok [OF 1(1) ok]]
    by (auto simp: enable_rx_kick_def r intro: framed_tx_framed set_flags_framed)
  with 1(1) show ?thesis by (rule tx_framed_trans)
qed

lemma is_rx_pending_framed:
  assumes "is_rx_pending B t = (b, t')" "rp_ok rsc t"
  shows "tx_framed rsc t t'"
proof -
  obtain r t1 where r: "ready B t = (r, t1)" by force
  note 1 = ready_framed [OF r]
  have "r \<Longrightarrow> in_pool (avail_idx_at (vq_avail (tp_rx t1))) 2"
    using 1(2) rp_ok_ready(2) [OF tx_framed_ok [OF 1(1) assms(2)]] mapped_avail_idx by blast
  then have "framed rsc t1 t'" using assms(1)
    by (auto simp: is_rx_pending_def r Let_def split: prod.splits if_splits dest: load_framed(2))
  then show ?thesis using tx_framed_trans [OF 1(1) framed_tx_framed] by blast
qed

lemma announce_framed:
  assumes "announce_service B name addr t = Some (b, t')" "rp_ok rsc t"
  shows "tx_framed rsc t t'"
proof -
  obtain buf t1 where w: "tx_take B 0 t = Some (buf, t1)" using assms(1) by (auto simp: announce_service_def split: Option.bind_splits)
  note 1 = tx_take_framed [OF w assms(2)]
  note ok1 = tx_framed_ok [OF 1(1) assms(2)]
  show ?thesis
  proof (cases "tb_size buf < 40")
    case True
    then obtain c where "tx_cancel B buf t1 = (c, t')" using assms(1) by (auto simp: announce_service_def w split: prod.splits)
    from tx_framed_trans [OF 1(1) tx_cancel_framed [OF this ok1]] show ?thesis .
  next
    case False
    then have sz: "40 \<le> unat (tb_size buf)" by (simp add: word_less_nat_alt)
    then have "in_pool (tb_data buf - kHdr) (16 + 40)" using 1(2) in_pool_less [of _ "16 + unat (tb_size buf)" "16 + 40"] by (auto simp: buf_ok_def)
    note room = this
    have at: "in_pool (tb_data buf + of_nat k) m" if "k + m \<le> 40" for k m
    proof -
      have "tb_data buf - kHdr + of_nat (16 + k) = tb_data buf + of_nat k" by (simp add: kHdr_def)
      then show ?thesis using in_pool_offset [OF room, of "16 + k" m] that by simp
    qed
    define s1 where "s1 = store_bytes B (tb_data buf) (replicate 32 0) t1"
    define s2 where "s2 = store_bytes B (tb_data buf) (take 31 (takeWhile (\<lambda>c. c \<noteq> 0) name)) s1"
    define s3 where "s3 = store32 B (tb_data buf + 36) RPMSG_NS_CREATE (store32 B (tb_data buf + 32) addr s2)"
    have "framed rsc t1 s1" unfolding s1_def by (rule store_bytes_framed) (use at [of 0 32] in simp)
    moreover have "framed rsc s1 s2" unfolding s2_def by (rule store_bytes_framed) (use in_pool_less [OF at [of 0 40]] in simp)
    moreover have "framed rsc s2 s3" unfolding s3_def
      by (rule framed_trans [OF pool_access_framed(6) pool_access_framed(6)]) (use at [of 32 4] at [of 36 4] in simp_all)
    ultimately have s: "tx_framed rsc t1 s3" by (metis framed_trans framed_tx_framed)
    have "tx_publish B buf 40 addr RPMSG_NS_ADDR s3 = (b, t')"
      using assms(1) False by (auto simp: announce_service_def w Let_def s1_def s2_def s3_def)
    from tx_framed_trans [OF 1(1) tx_framed_trans [OF s tx_publish_framed [OF this tx_framed_ok [OF s ok1] 1(2)]]] show ?thesis .
  qed
qed

lemma register_ep_framed: "register_ep addr cb u t = (b, t') \<Longrightarrow> cb_framed rsc P t t'"
  by (auto simp: register_ep_def cb_framed_def rp_ok_def split: option.splits if_splits)

lemma fifo_flush_framed:
  fixes t :: "('h, 'z) rpmsg_transport_scheme"
  assumes "fifo_flush B sta fifo t = Some t'" "sta \<in> mbox_regs" "fifo \<in> mbox_regs"
  shows "framed rsc t t'"
proof -
  have "sta \<in> mbox_regs \<longrightarrow> fifo \<in> mbox_regs \<longrightarrow> framed rsc t t'"
  proof (rule fifo_flush.raw_induct [of "\<lambda>B sta fifo t t'. sta \<in> mbox_regs \<longrightarrow> fifo \<in> mbox_regs \<longrightarrow> framed rsc t t'", OF _ assms(1)], intro impI)
    fix f :: "'h host \<Rightarrow> u32 \<Rightarrow> u32 \<Rightarrow> ('h, 'z) rpmsg_transport_scheme \<Rightarrow> ('h, 'z) rpmsg_transport_scheme option" and B sta fifo t t'
    assume IH: "\<And>B sta fifo t t'. f B sta fifo t = Some t' \<Longrightarrow> sta \<in> mbox_regs \<longrightarrow> fifo \<in> mbox_regs \<longrightarrow> framed rsc t t'"
      and regs: "sta \<in> mbox_regs" "fifo \<in> mbox_regs"
      and body: "(let (n, l) = load32 B sta t in if n AND MSG_NUM_MASK > 0 then let (v, l) = load32 B fifo l in f B sta fifo l else Some l) = Some t'"
    obtain n u where u: "load32 B sta t = (n, u)" by force
    obtain v w where w: "load32 B fifo u = (v, w)" by force
    have 1: "framed rsc t u" using framed_access(1) [OF regs(1), of rsc t B] u by (metis snd_conv)
    have 2: "framed rsc u w" using framed_access(1) [OF regs(2), of rsc u B] w by (metis snd_conv)
    have "t' = u \<or> f B sta fifo w = Some t'" using body unfolding u Let_def prod.case w by (auto split: if_splits)
    then show "framed rsc t t'" using IH regs framed_trans [OF 1 framed_trans [OF 2]] 1 by blast
  qed
  then show ?thesis using assms(2,3) by blast
qed

lemma flush_ports_framed: "flush_ports B cs t = Some t' \<Longrightarrow> \<forall>c \<in> set cs. \<not> c > 3 \<Longrightarrow> framed rsc t t'"
proof (induction cs arbitrary: t)
  case (Cons c cs)
  obtain t1 t2 where f: "fifo_flush B (RV_MSG_STA_REG c) (RV_MSG_FIFO_REG c) t = Some t1"
    "fifo_flush B (DSP_MSG_STA_REG c) (DSP_MSG_FIFO_REG c) t1 = Some t2" "flush_ports B cs t2 = Some t'"
    using Cons.prems(1) by (auto split: Option.bind_splits)
  have "framed rsc t t1" "framed rsc t1 t2" using fifo_flush_framed [OF f(1)] fifo_flush_framed [OF f(2)] regs_in Cons.prems(2) by auto
  moreover have "framed rsc t2 t'" using Cons.IH [OF f(3)] Cons.prems(2) by auto
  ultimately show ?case by (blast intro: framed_trans)
qed simp

lemma mbox_init_framed: "mbox_init B irq t = Some t' \<Longrightarrow> framed rsc t t'"
proof -
  assume init: "mbox_init B irq t = Some t'"
  have reg: "framed rsc t u \<Longrightarrow> a \<in> mbox_regs \<Longrightarrow> framed rsc t (store32 B a v u)" for u a v
    by (rule framed_trans [OF _ framed_access(2)])
  from init obtain u where u: "flush_ports B [0, 1, 2, 3] u = Some t'" "framed rsc t u"
    unfolding mbox_init_def Let_def by (blast intro: reg regs_in framed_refl)
  have "framed rsc u t'" by (rule flush_ports_framed [OF u(1)]) simp
  with u(2) show ?thesis by (rule framed_trans)
qed

lemma reset_ok: "rpmsg_reset B rsc t = Some t' \<Longrightarrow> rp_ok rsc t \<Longrightarrow> P (rpmsg_transport.more t) \<Longrightarrow> rx_done rsc P t t'"
  by (auto simp: rpmsg_reset_def rx_done_def rp_ok_def framed_def dest!: mbox_init_framed [where rsc = rsc])

end
