(* ===== verification/Rpmsg_Endpoints.thy ===== *)
theory Rpmsg_Endpoints
  imports Rpmsg_Safety Tlp
begin

text \<open>
  The two endpoints over one RPMsg channel of \<open>targets/allwinner_e906/src/rpmsg_endpoints.cpp\<close>: the TLP
  channel batches 64-byte packets into lent host buffers and unpacks the host's messages into a ring,
  the trace transport lends host buffers to the trace engine. Both learn the host's address from its
  first message. The cycle clock and the ring towards the application act on the outside state.
\<close>

section \<open>State\<close>

definition kTlpReserve :: u16 where
  "kTlpReserve = 4"

definition kNoHost :: u32 where
  "kNoHost = 0xFFFFFFFF"

definition kTlpBytes :: nat where
  "kTlpBytes = 64"

record rpmsg_endpoint =
  re_addr :: u32
  re_name :: "u8 list"
  re_host_addr :: u32
  re_announced :: bool

record trace_endpoint = rpmsg_endpoint +
  te_cur :: tx_buffer
  te_last_hello_ticks :: u64
  te_heard :: bool

record tlp_endpoint = rpmsg_endpoint +
  le_cur :: tx_buffer
  le_count :: nat
  le_tx_dropped :: u32
  le_rx_dropped :: u32
  le_rx_rejected :: u32

record 'h rpmsg_world = "'h rpmsg_transport" +
  rw_trace :: trace_endpoint
  rw_tlp :: tlp_endpoint

text \<open>
  What the endpoints use of the rest of the system: \<open>stats::now_cycles\<close>, \<open>stats::g_state.hz\<close> and the
  ingress ring, if one is set.
\<close>

record 'h services =
  sv_now_cycles :: "'h \<Rightarrow> u64"
  sv_hz :: u64
  sv_ingress :: "(tlp \<Rightarrow> 'h \<Rightarrow> bool \<times> 'h) option"

definition trace_endpoint_new :: "u8 list \<Rightarrow> trace_endpoint" where
  "trace_endpoint_new name = \<lparr>re_addr = 1025, re_name = name, re_host_addr = kNoHost, re_announced = False,
     te_cur = no_buffer, te_last_hello_ticks = 0, te_heard = False\<rparr>"

definition tlp_endpoint_new :: "u8 list \<Rightarrow> tlp_endpoint" where
  "tlp_endpoint_new name = \<lparr>re_addr = 1024, re_name = name, re_host_addr = kNoHost, re_announced = False,
     le_cur = no_buffer, le_count = 0, le_tx_dropped = 0, le_rx_dropped = 0, le_rx_rejected = 0\<rparr>"

definition host_connected :: "'e rpmsg_endpoint_scheme \<Rightarrow> bool" where
  "host_connected ep = (re_host_addr ep \<noteq> kNoHost)"

abbreviation upd_trace :: "(trace_endpoint \<Rightarrow> trace_endpoint) \<Rightarrow> 'h rpmsg_world \<Rightarrow> 'h rpmsg_world" where
  "upd_trace f w \<equiv> w\<lparr>rw_trace := f (rw_trace w)\<rparr>"

abbreviation upd_tlp :: "(tlp_endpoint \<Rightarrow> tlp_endpoint) \<Rightarrow> 'h rpmsg_world \<Rightarrow> 'h rpmsg_world" where
  "upd_tlp f w \<equiv> w\<lparr>rw_tlp := f (rw_tlp w)\<rparr>"

section \<open>Announcing\<close>

definition ep_service :: "'h host \<Rightarrow> 'e rpmsg_endpoint_scheme \<Rightarrow> 'h rpmsg_world \<Rightarrow> ('e rpmsg_endpoint_scheme \<times> 'h rpmsg_world) option" where
  "ep_service B ep w =
    (if re_announced ep then Some (ep, w)
     else let (r, w) = ready B w in
       if \<not> r then Some (ep, w)
       else do { (ok, w) \<leftarrow> announce_service B (re_name ep) (re_addr ep) w; Some (ep\<lparr>re_announced := ok\<rparr>, w) })"

definition trace_ep_service :: "'h host \<Rightarrow> 'h rpmsg_world \<Rightarrow> 'h rpmsg_world option" where
  "trace_ep_service B w = do { (ep, w) \<leftarrow> ep_service B (rw_trace w) w; Some (w\<lparr>rw_trace := ep\<rparr>) }"

definition tlp_ep_service :: "'h host \<Rightarrow> 'h rpmsg_world \<Rightarrow> 'h rpmsg_world option" where
  "tlp_ep_service B w = do { (ep, w) \<leftarrow> ep_service B (rw_tlp w) w; Some (w\<lparr>rw_tlp := ep\<rparr>) }"

section \<open>Trace transport\<close>

definition trace_on_message :: "'h services \<Rightarrow> rpmsg_message \<Rightarrow> 'h rpmsg_world \<Rightarrow> 'h rpmsg_world" where
  "trace_on_message S msg w = upd_trace (\<lambda>e. e\<lparr>te_last_hello_ticks := sv_now_cycles S (lk_env w), te_heard := True\<rparr>) w"

definition listening :: "'h services \<Rightarrow> 'h rpmsg_world \<Rightarrow> bool" where
  "listening S w =
    (let lease = 3 * sv_hz S; e = rw_trace w in
     te_heard e \<and> host_connected e \<and> (lease = 0 \<or> sv_now_cycles S (lk_env w) - te_last_hello_ticks e < lease))"

text \<open>The span that \<open>acquire\<close> returns is the first \<open>max_bytes\<close> of the payload: its length is returned.\<close>

definition trace_acquire :: "'h host \<Rightarrow> 'h services \<Rightarrow> u32 \<Rightarrow> 'h rpmsg_world \<Rightarrow> (u32 \<times> 'h rpmsg_world) option" where
  "trace_acquire B S max_bytes w =
    (if \<not> listening S w \<or> tb_size (te_cur (rw_trace w)) \<noteq> 0 then Some (0, w)
     else do { (buf, w) \<leftarrow> tx_take B kTlpReserve w;
               let w = upd_trace (\<lambda>e. e\<lparr>te_cur := buf\<rparr>) w in
               Some (if tb_size buf > max_bytes then max_bytes else tb_size buf, w) })"

definition trace_commit :: "'h host \<Rightarrow> u32 \<Rightarrow> 'h rpmsg_world \<Rightarrow> 'h rpmsg_world" where
  "trace_commit B used_bytes w =
    (let e = rw_trace w; cur = te_cur e in
     if tb_size cur = 0 then w
     else let w = (if used_bytes = 0 \<or> used_bytes > tb_size cur
                   then let (ok, w) = tx_cancel B cur w in if ok then w else snd (tx_publish B cur 0 (re_addr e) (re_host_addr e) w)
                   else snd (tx_publish B cur (ucast used_bytes) (re_addr e) (re_host_addr e) w))
       in upd_trace (\<lambda>e. e\<lparr>te_cur := no_buffer\<rparr>) w)"

section \<open>TLP channel\<close>

definition tlp_flush :: "'h host \<Rightarrow> 'h rpmsg_world \<Rightarrow> 'h rpmsg_world" where
  "tlp_flush B w =
    (let e = rw_tlp w in
     if tb_size (le_cur e) \<noteq> 0 \<and> le_count e > 0
     then let (ok, w) = tx_publish B (le_cur e) (of_nat (le_count e * kTlpBytes)) (re_addr e) (re_host_addr e) w
       in upd_tlp (\<lambda>e. e\<lparr>le_cur := no_buffer, le_count := 0\<rparr>) w
     else w)"

definition tlp_dropped :: "'h rpmsg_world \<Rightarrow> 'h rpmsg_world" where
  "tlp_dropped w = upd_tlp (\<lambda>e. e\<lparr>le_tx_dropped := le_tx_dropped e + 1\<rparr>) w"

text \<open>The buffer of the current batch, taken if there is none. False is \<open>return nullptr\<close>.\<close>

definition tlp_open :: "'h host \<Rightarrow> 'h rpmsg_world \<Rightarrow> (bool \<times> 'h rpmsg_world) option" where
  "tlp_open B w =
    (if tb_size (le_cur (rw_tlp w)) \<noteq> 0 then Some (True, w)
     else if \<not> host_connected (rw_tlp w) then Some (False, tlp_dropped w)
     else do { (buf, w) \<leftarrow> tx_take B 0 w;
       let w = upd_tlp (\<lambda>e. e\<lparr>le_cur := buf, le_count := 0\<rparr>) w in
       Some (if unat (tb_size buf) < kTlpBytes
         then let w = (if tb_size buf \<noteq> 0 then let (ok, w) = tx_cancel B buf w in upd_tlp (\<lambda>e. e\<lparr>le_cur := no_buffer\<rparr>) w else w)
           in (False, tlp_dropped w)
         else (True, w)) })"

definition tlp_emplace :: "'h host \<Rightarrow> 'h rpmsg_world \<Rightarrow> (u32 option \<times> 'h rpmsg_world) option" where
  "tlp_emplace B w =
    (let w = (if tb_size (le_cur (rw_tlp w)) \<noteq> 0 \<and> (le_count (rw_tlp w) + 1) * kTlpBytes > unat (tb_size (le_cur (rw_tlp w)))
              then tlp_flush B w else w)
     in do { (ok, w) \<leftarrow> tlp_open B w;
       Some (if \<not> ok then (None, w)
         else let e = rw_tlp w; slot = tb_data (le_cur e) + of_nat (le_count e * kTlpBytes);
                  w = upd_tlp (\<lambda>e. e\<lparr>le_count := le_count e + 1\<rparr>) w
           in (Some slot, store_bytes B slot (replicate kTlpBytes 0) w)) })"

definition tlp_send :: "'h host \<Rightarrow> tlp \<Rightarrow> 'h rpmsg_world \<Rightarrow> (bool \<times> 'h rpmsg_world) option" where
  "tlp_send B p w = do { (slot, w) \<leftarrow> tlp_emplace B w;
     Some (case slot of None \<Rightarrow> (False, w) | Some a \<Rightarrow> (True, store_bytes B a (tlp_store (replicate kTlpBytes 0) p) w)) }"

fun load_bytes :: "'h host \<Rightarrow> u32 \<Rightarrow> nat \<Rightarrow> ('h, 'z) host_link_scheme \<Rightarrow> u8 list \<times> ('h, 'z) host_link_scheme" where
  "load_bytes B a 0 l = ([], l)"
| "load_bytes B a (Suc n) l = (let (v, l) = hload B 1 a l; (vs, l) = load_bytes B (a + 1) n l in (ucast v # vs, l))"

definition tlp_push :: "'h services \<Rightarrow> tlp \<Rightarrow> 'h rpmsg_world \<Rightarrow> 'h rpmsg_world" where
  "tlp_push S p w =
    (case sv_ingress S of
       None \<Rightarrow> upd_tlp (\<lambda>e. e\<lparr>le_rx_dropped := le_rx_dropped e + 1\<rparr>) w
     | Some push \<Rightarrow> let (ok, env) = push p (lk_env w); w = w\<lparr>lk_env := env\<rparr>
         in if ok then w else upd_tlp (\<lambda>e. e\<lparr>le_rx_dropped := le_rx_dropped e + 1\<rparr>) w)"

fun tlp_unpack :: "'h host \<Rightarrow> 'h services \<Rightarrow> u32 \<Rightarrow> nat \<Rightarrow> 'h rpmsg_world \<Rightarrow> 'h rpmsg_world" where
  "tlp_unpack B S a 0 w = w"
| "tlp_unpack B S a (Suc n) w =
    (let (bytes, w) = load_bytes B a kTlpBytes w in tlp_unpack B S (a + of_nat kTlpBytes) n (tlp_push S (tlp_load tlp_zero bytes) w))"

definition tlp_on_message :: "'h host \<Rightarrow> 'h services \<Rightarrow> rpmsg_message \<Rightarrow> 'h rpmsg_world \<Rightarrow> 'h rpmsg_world" where
  "tlp_on_message B S msg w =
    (if unat (rm_len msg) mod kTlpBytes \<noteq> 0
     then if unat (rm_len msg) \<ge> kTlpBytes then upd_tlp (\<lambda>e. e\<lparr>le_rx_rejected := le_rx_rejected e + 1\<rparr>) w else w
     else tlp_unpack B S (rm_data msg) (unat (rm_len msg) div kTlpBytes) w)"

section \<open>Dispatch\<close>

text \<open>
  \<open>RpmsgEndpoint::dispatch\<close> is the one callback (number 0); its argument is the endpoint's address,
  which stands for its object.
\<close>

definition endpoint_call :: "'h host \<Rightarrow> 'h services \<Rightarrow> nat \<Rightarrow> u32 \<Rightarrow> rpmsg_message \<Rightarrow> 'h rpmsg_world \<Rightarrow> 'h rpmsg_world option" where
  "endpoint_call B S f self msg w = Some
    (if self = 1024 then tlp_on_message B S msg (upd_tlp (\<lambda>e. e\<lparr>re_host_addr := rm_src msg\<rparr>) w)
     else if self = 1025 then trace_on_message S msg (upd_trace (\<lambda>e. e\<lparr>re_host_addr := rm_src msg\<rparr>) w)
     else w)"

definition attach :: "u32 \<Rightarrow> 'h rpmsg_world \<Rightarrow> 'h rpmsg_world" where
  "attach addr w = snd (register_ep addr (Some 0) addr w)"

section \<open>The invariant of the endpoints\<close>

definition batch_ok :: "tlp_endpoint \<Rightarrow> bool" where
  "batch_ok e = (buf_ok (le_cur e) \<and> (tb_size (le_cur e) \<noteq> 0 \<longrightarrow>
     le_count e * kTlpBytes \<le> unat (tb_size (le_cur e)) \<and> kTlpBytes \<le> unat (tb_size (le_cur e))))"

text \<open>It speaks of the extension of the transport only, so it is stated of that.\<close>

definition ext_ok where
  "ext_ok m = (let w = rpmsg_transport.extend (transport_new 0 ()) m in buf_ok (te_cur (rw_trace w)) \<and> batch_ok (rw_tlp w))"

lemma ext_ok_more [simp]: "ext_ok (rpmsg_transport.more w) = (buf_ok (te_cur (rw_trace w)) \<and> batch_ok (rw_tlp w))"
  by (cases w) (simp add: ext_ok_def rpmsg_transport.extend_def)

lemma more_eq:
  fixes w w' :: "'h rpmsg_world"
  shows "rpmsg_transport.more w' = rpmsg_transport.more w \<Longrightarrow> rw_trace w' = rw_trace w \<and> rw_tlp w' = rw_tlp w"
  by (cases w; cases w') simp

definition world_ok :: "u32 \<Rightarrow> 'h rpmsg_world \<Rightarrow> bool" where
  "world_ok rsc w = (rp_ok rsc w \<and> buf_ok (te_cur (rw_trace w)) \<and> batch_ok (rw_tlp w))"

text \<open>What an operation of an endpoint keeps.\<close>

definition world_step :: "u32 \<Rightarrow> 'h rpmsg_world \<Rightarrow> 'h rpmsg_world \<Rightarrow> bool" where
  "world_step rsc w w' = (world_ok rsc w \<longrightarrow> world_ok rsc w' \<and> (tp_ready w \<longrightarrow> tp_ready w' \<and> tp_rx w' = tp_rx w) \<and>
     tp_taken w' = tp_taken w \<and> tp_returned w' = tp_returned w)"

lemma world_step_refl [simp]: "world_step rsc w w"
  by (simp add: world_step_def)

lemma world_step_trans: "world_step rsc u v \<Longrightarrow> world_step rsc v w \<Longrightarrow> world_step rsc u w"
  by (simp add: world_step_def)

lemma tx_framed_ends:
  fixes w w' :: "'h rpmsg_world"
  shows "tx_framed rsc w w' \<Longrightarrow> rp_ok rsc w \<Longrightarrow> rw_trace w' = rw_trace w \<and> rw_tlp w' = rw_tlp w"
  by (rule more_eq) (simp add: tx_framed_def)

lemma tx_framed_world: "tx_framed rsc w w' \<Longrightarrow> world_step rsc w w'"
  using tx_framed_ends [of rsc w w'] by (auto simp: world_step_def world_ok_def tx_framed_def)

lemma framed_world: "framed rsc w w' \<Longrightarrow> world_step rsc w w'"
  by (rule tx_framed_world [OF framed_tx_framed])

lemma rp_ok_ends [simp]: "rp_ok rsc (w\<lparr>rw_trace := x\<rparr>) = rp_ok rsc w" "rp_ok rsc (w\<lparr>rw_tlp := y\<rparr>) = rp_ok rsc w"
  by (simp_all add: rp_ok_def)

lemma upd_trace_step: "(buf_ok (te_cur (rw_trace w)) \<Longrightarrow> buf_ok (te_cur (f (rw_trace w)))) \<Longrightarrow> world_step rsc w (upd_trace f w)"
  by (simp add: world_step_def world_ok_def)

lemma upd_tlp_step: "(batch_ok (rw_tlp w) \<Longrightarrow> batch_ok (f (rw_tlp w))) \<Longrightarrow> world_step rsc w (upd_tlp f w)"
  by (simp add: world_step_def world_ok_def)

lemma no_buffer_ok [simp]: "buf_ok no_buffer" "tb_size no_buffer = 0"
  by (simp_all add: buf_ok_def no_buffer_def)

lemma trace_acquire_step:
  assumes "trace_acquire B S n w = Some (m, w')"
  shows "world_step rsc w w'"
proof (cases "world_ok rsc w \<and> listening S w \<and> tb_size (te_cur (rw_trace w)) = 0")
  case True
  then obtain buf w1 where take: "tx_take B kTlpReserve w = Some (buf, w1)" and w': "w' = upd_trace (\<lambda>e. e\<lparr>te_cur := buf\<rparr>) w1"
    using assms by (auto simp: trace_acquire_def split: Option.bind_splits)
  have 1: "tx_framed rsc w w1" "buf_ok buf" using tx_take_framed [OF take] True by (auto simp: world_ok_def)
  have "world_step rsc w1 w'" unfolding w' by (rule upd_trace_step) (simp add: 1)
  with tx_framed_world [OF 1(1)] show ?thesis by (rule world_step_trans)
qed (use assms in \<open>auto simp: trace_acquire_def world_step_def\<close>)

lemma trace_commit_step: "world_step rsc w (trace_commit B n w)"
proof (cases "world_ok rsc w \<and> tb_size (te_cur (rw_trace w)) \<noteq> 0")
  case True
  let ?e = "rw_trace w"
  have ok: "rp_ok rsc w" "buf_ok (te_cur ?e)" using True by (simp_all add: world_ok_def)
  obtain c w1 where c: "tx_cancel B (te_cur ?e) w = (c, w1)" by force
  have 1: "tx_framed rsc w w1" by (rule tx_cancel_framed [OF c ok(1)])
  have pub: "tx_framed rsc u (snd (tx_publish B (te_cur ?e) k a b u))" if "rp_ok rsc u" for u k a b
    by (rule tx_publish_framed [OF prod.collapse [symmetric] that ok(2)])
  define w2 where "w2 = (if n = 0 \<or> n > tb_size (te_cur ?e)
     then if c then w1 else snd (tx_publish B (te_cur ?e) 0 (re_addr ?e) (re_host_addr ?e) w1)
     else snd (tx_publish B (te_cur ?e) (ucast n) (re_addr ?e) (re_host_addr ?e) w))"
  have "tx_framed rsc w w2" unfolding w2_def
    using 1 pub [OF ok(1)] tx_framed_trans [OF 1 pub [OF tx_framed_ok [OF 1 ok(1)]]] by simp
  moreover have "trace_commit B n w = upd_trace (\<lambda>e. e\<lparr>te_cur := no_buffer\<rparr>) w2"
    using True by (simp add: trace_commit_def Let_def c w2_def)
  moreover have "world_step rsc w2 (upd_trace (\<lambda>e. e\<lparr>te_cur := no_buffer\<rparr>) w2)" by (rule upd_trace_step) simp
  ultimately show ?thesis using world_step_trans [OF tx_framed_world] by metis
qed (auto simp: trace_commit_def world_step_def)

lemma tlp_flush_step: "world_step rsc w (tlp_flush B w)"
proof (cases "world_ok rsc w \<and> tb_size (le_cur (rw_tlp w)) \<noteq> 0 \<and> le_count (rw_tlp w) > 0")
  case True
  let ?e = "rw_tlp w"
  obtain b w1 where p: "tx_publish B (le_cur ?e) (of_nat (le_count ?e * kTlpBytes)) (re_addr ?e) (re_host_addr ?e) w = (b, w1)" by force
  have "tx_framed rsc w w1" using tx_publish_framed [OF p] True by (simp add: world_ok_def batch_ok_def)
  moreover have "tlp_flush B w = upd_tlp (\<lambda>e. e\<lparr>le_cur := no_buffer, le_count := 0\<rparr>) w1"
    using True p by (simp add: tlp_flush_def Let_def)
  moreover have "world_step rsc w1 (upd_tlp (\<lambda>e. e\<lparr>le_cur := no_buffer, le_count := 0\<rparr>) w1)"
    by (rule upd_tlp_step) (simp add: batch_ok_def)
  ultimately show ?thesis using world_step_trans [OF tx_framed_world] by metis
qed (auto simp: tlp_flush_def world_step_def Let_def)

lemma tlp_dropped_step: "world_step rsc w (tlp_dropped w)"
  unfolding tlp_dropped_def by (rule upd_tlp_step) (simp add: batch_ok_def)

lemma tlp_open_step:
  assumes "tlp_open B w = Some (b, w')" "world_ok rsc w"
  shows "world_step rsc w w'" "b \<Longrightarrow> tb_size (le_cur (rw_tlp w')) \<noteq> 0"
    "b \<Longrightarrow> w' = w \<or> le_count (rw_tlp w') = 0"
proof -
  have "world_step rsc w w' \<and> (b \<longrightarrow> tb_size (le_cur (rw_tlp w')) \<noteq> 0 \<and> (w' = w \<or> le_count (rw_tlp w') = 0))"
  proof (cases "tb_size (le_cur (rw_tlp w)) = 0 \<and> host_connected (rw_tlp w)")
    case True
    then obtain buf w1 where take: "tx_take B 0 w = Some (buf, w1)" using assms(1) by (auto simp: tlp_open_def split: Option.bind_splits)
    have 1: "tx_framed rsc w w1" "buf_ok buf" using tx_take_framed [OF take] assms(2) by (auto simp: world_ok_def)
    define w2 where "w2 = upd_tlp (\<lambda>e. e\<lparr>le_cur := buf, le_count := 0\<rparr>) w1"
    have ok1: "rp_ok rsc w1" using tx_framed_ok [OF 1(1)] assms(2) by (simp add: world_ok_def)
    note out = assms(1) [unfolded tlp_open_def take bind.bind_lunit prod.case Let_def w2_def [symmetric]]
    show ?thesis
    proof (cases "unat (tb_size buf) < kTlpBytes")
      case small: True
      obtain c w3 where c: "tx_cancel B buf w2 = (c, w3)" by force
      have 3: "tx_framed rsc w2 w3" by (rule tx_cancel_framed [OF c]) (simp add: w2_def ok1)
      define w4 where "w4 = (if tb_size buf \<noteq> 0 then upd_tlp (\<lambda>e. e\<lparr>le_cur := no_buffer\<rparr>) w3 else w2)"
      have out': "b = False" "w' = tlp_dropped w4" using out True small by (simp_all add: w4_def c split: if_splits)
      have ends: "rw_trace w3 = rw_trace w2" "rw_tlp w3 = rw_tlp w2" using tx_framed_ends [OF 3] ok1 by (simp_all add: w2_def)
      have w1: "world_ok rsc w1" using tx_framed_world [OF 1(1)] assms(2) by (simp add: world_step_def)
      have "world_ok rsc w4 \<and> (tp_ready w1 \<longrightarrow> tp_ready w4 \<and> tp_rx w4 = tp_rx w1) \<and> tp_taken w4 = tp_taken w1 \<and> tp_returned w4 = tp_returned w1"
        using 3 w1 ends by (auto simp: w4_def w2_def world_ok_def batch_ok_def tx_framed_def buf_ok_def)
      then have "world_step rsc w1 w4" by (simp add: world_step_def)
      from world_step_trans [OF tx_framed_world [OF 1(1)] world_step_trans [OF this tlp_dropped_step]] show ?thesis
        by (simp add: out')
    next
      case False
      then have "b" "w' = w2" using out True by (auto split: if_splits)
      moreover have "world_step rsc w1 w2" unfolding w2_def by (rule upd_tlp_step) (use False 1(2) in \<open>simp add: batch_ok_def\<close>)
      ultimately show ?thesis using world_step_trans [OF tx_framed_world [OF 1(1)]] False by (auto simp: w2_def kTlpBytes_def)
    qed
  next
    case False
    then show ?thesis using assms(1) tlp_dropped_step by (auto simp: tlp_open_def split: if_splits)
  qed
  then show "world_step rsc w w'" "b \<Longrightarrow> tb_size (le_cur (rw_tlp w')) \<noteq> 0" "b \<Longrightarrow> w' = w \<or> le_count (rw_tlp w') = 0" by simp_all
qed

lemma in_pool_payload:
  assumes "buf_ok buf" "tb_size buf \<noteq> 0" "k + n \<le> unat (tb_size buf)"
  shows "in_pool (tb_data buf + of_nat k) n"
  using in_pool_offset [of "tb_data buf - kHdr" "16 + unat (tb_size buf)" "16 + k" n] assms by (simp add: buf_ok_def kHdr_def)

lemma tlp_emplace_step:
  assumes "tlp_emplace B w = Some (slot, w')" "world_ok rsc w"
  shows "world_step rsc w w'" "slot = Some a \<Longrightarrow> in_pool a kTlpBytes"
proof -
  let ?full = "tb_size (le_cur (rw_tlp w)) \<noteq> 0 \<and> (le_count (rw_tlp w) + 1) * kTlpBytes > unat (tb_size (le_cur (rw_tlp w)))"
  define w1 where "w1 = (if ?full then tlp_flush B w else w)"
  have 1: "world_step rsc w w1" by (simp add: w1_def tlp_flush_step)
  then have ok1: "world_ok rsc w1" using assms(2) by (simp add: world_step_def)
  obtain b w2 where open2: "tlp_open B w1 = Some (b, w2)"
    using assms(1) unfolding tlp_emplace_def w1_def [symmetric] by (auto simp: Let_def split: Option.bind_splits)
  note 2 = tlp_open_step [OF open2 ok1]
  note 12 = world_step_trans [OF 1 2(1)]
  have ok2: "world_ok rsc w2" using 12 assms(2) by (simp add: world_step_def)
  note out = assms(1) [unfolded tlp_emplace_def w1_def [symmetric] Let_def open2 bind.bind_lunit prod.case option.inject]
  have "world_step rsc w w' \<and> (slot = Some a \<longrightarrow> in_pool a kTlpBytes)"
  proof (cases b)
    case False
    then show ?thesis using out 12 by auto
  next
    case True
    let ?e = "rw_tlp w2"
    have room: "(le_count ?e + 1) * kTlpBytes \<le> unat (tb_size (le_cur ?e))"
    proof (cases "w2 = w1")
      case same: True
      have cur: "tb_size (le_cur (rw_tlp w1)) \<noteq> 0" using 2(2) True same by simp
      have "\<not> ?full"
      proof
        assume full: ?full
        then have "tb_size (le_cur (rw_tlp (tlp_flush B w))) = 0" using assms(2)
          by (cases "le_count (rw_tlp w) > 0") (auto simp: tlp_flush_def Let_def split_def world_ok_def batch_ok_def)
        then show False using cur full by (simp add: w1_def)
      qed
      then have "w1 = w" unfolding w1_def by (rule if_not_P)
      then show ?thesis using cur same \<open>\<not> ?full\<close> by simp
    next
      case False
      then show ?thesis using 2(2,3) True ok2 by (simp add: world_ok_def batch_ok_def)
    qed
    define sl where "sl = tb_data (le_cur ?e) + of_nat (le_count ?e * kTlpBytes)"
    have sl: "in_pool sl kTlpBytes" unfolding sl_def
      by (rule in_pool_payload) (use ok2 2(2) True room in \<open>simp_all add: world_ok_def batch_ok_def\<close>)
    define w3 where "w3 = upd_tlp (\<lambda>e. e\<lparr>le_count := le_count e + 1\<rparr>) w2"
    have 3: "world_step rsc w2 w3" unfolding w3_def
      by (rule upd_tlp_step) (use room in \<open>simp add: batch_ok_def\<close>)
    have "framed rsc w3 (store_bytes B sl (replicate kTlpBytes 0) w3)" by (rule store_bytes_framed) (simp add: sl)
    note 34 = world_step_trans [OF 3 framed_world [OF this]]
    have "slot = Some sl" "w' = store_bytes B sl (replicate kTlpBytes 0) w3"
      using out True by (auto simp: sl_def w3_def)
    then show ?thesis using world_step_trans [OF 12 34] sl by auto
  qed
  then show "world_step rsc w w'" "slot = Some a \<Longrightarrow> in_pool a kTlpBytes" by simp_all
qed

lemma tlp_send_step:
  assumes "tlp_send B p w = Some (b, w')" "wf_tlp p"
  shows "world_step rsc w w'"
proof (cases "world_ok rsc w")
  case True
  obtain slot w1 where 1: "tlp_emplace B w = Some (slot, w1)"
    and out: "(b, w') = (case slot of None \<Rightarrow> (False, w1) | Some a \<Rightarrow> (True, store_bytes B a (tlp_store (replicate kTlpBytes 0) p) w1))"
    using assms(1) by (auto simp: tlp_send_def split: Option.bind_splits)
  note e = tlp_emplace_step [OF 1 True]
  show ?thesis
  proof (cases slot)
    case (Some a)
    have "length (tlp_store (replicate kTlpBytes 0) p) = 64"
      using assms(2) by (simp add: tlp_store_eq kTlpBytes_def wf_tlp_def tlp_bytes_def ASP_TLP64_PAYLOAD_SIZE_def)
    then have "framed rsc w1 (store_bytes B a (tlp_store (replicate kTlpBytes 0) p) w1)"
      by (intro store_bytes_framed) (use e(2) [OF Some] in \<open>simp add: kTlpBytes_def\<close>)
    then show ?thesis using world_step_trans [OF e(1) framed_world] out Some by simp
  qed (use e(1) out in simp)
qed (simp add: world_step_def)

section \<open>Messages\<close>

lemma load_bytes_step:
  fixes w :: "'h rpmsg_world"
  shows "load_bytes B a n w = (bs, w') \<Longrightarrow> in_pool a n \<Longrightarrow> framed rsc w w' \<and> length bs = n"
proof (induction n arbitrary: a w bs w')
  case (Suc n)
  obtain v w1 where v: "hload B 1 a w = (v, w1)" by force
  obtain vs w2 where vs: "load_bytes B (a + 1) n w1 = (vs, w2)" by force
  have "in_pool (a + 1) n" "in_pool a 1" using in_pool_offset [OF Suc.prems(2), of 1 n] in_pool_less [OF Suc.prems(2)] by simp_all
  then have "framed rsc w w1" "framed rsc w1 w2 \<and> length vs = n" using load_framed(1) [OF v] Suc.IH [OF vs] by simp_all
  moreover have "bs = ucast v # vs" "w' = w2" using Suc.prems(1) unfolding load_bytes.simps v Let_def prod.case vs by simp_all
  ultimately show ?case by (auto intro: framed_trans)
qed simp

lemma tlp_push_step: "world_step rsc w (tlp_push S p w)"
proof -
  have "batch_ok (e\<lparr>le_rx_dropped := n\<rparr>) = batch_ok e" for e n by (simp add: batch_ok_def)
  then show ?thesis
    by (auto simp: tlp_push_def world_step_def world_ok_def rp_ok_def Let_def split: option.splits prod.splits)
qed

lemma tlp_unpack_step: "in_pool a (n * kTlpBytes) \<Longrightarrow> world_step rsc w (tlp_unpack B S a n w)"
proof (induction n arbitrary: a w)
  case (Suc n)
  obtain bs w1 where b: "load_bytes B a kTlpBytes w = (bs, w1)" by force
  have "in_pool a kTlpBytes" "in_pool (a + of_nat kTlpBytes) (n * kTlpBytes)"
    using in_pool_less [OF Suc.prems] in_pool_offset [OF Suc.prems, of kTlpBytes "n * kTlpBytes"] by simp_all
  then have "world_step rsc w w1"
    "world_step rsc (tlp_push S (tlp_load tlp_zero bs) w1) (tlp_unpack B S (a + of_nat kTlpBytes) n (tlp_push S (tlp_load tlp_zero bs) w1))"
    using load_bytes_step [OF b] Suc.IH by (auto intro: framed_world)
  then show ?case using world_step_trans tlp_push_step by (simp add: b) blast
qed simp

lemma endpoint_call_step:
  assumes "msg_ok m" "endpoint_call B S f self m w = Some w'"
  shows "world_step rsc w w'"
proof -
  have tlp: "world_step rsc w (upd_tlp (\<lambda>e. e\<lparr>re_host_addr := h\<rparr>) w)" for h by (rule upd_tlp_step) (simp add: batch_ok_def)
  have trace: "world_step rsc w (upd_trace (\<lambda>e. e\<lparr>re_host_addr := h\<rparr>) w)" for h by (rule upd_trace_step) simp
  have hello: "world_step rsc u (trace_on_message S m u)" for u
    unfolding trace_on_message_def by (rule upd_trace_step) simp
  have msg: "world_step rsc u (tlp_on_message B S m u)" for u
  proof (cases "unat (rm_len m) mod kTlpBytes = 0")
    case True
    then have "unat (rm_len m) div kTlpBytes * kTlpBytes = unat (rm_len m)" using div_mult_mod_eq [of "unat (rm_len m)" kTlpBytes] by simp
    then show ?thesis using assms(1) True tlp_unpack_step [of "rm_data m" "unat (rm_len m) div kTlpBytes"]
      by (simp add: tlp_on_message_def msg_ok_def)
  next
    case False
    have "world_step rsc u (upd_tlp (\<lambda>e. e\<lparr>le_rx_rejected := le_rx_rejected e + 1\<rparr>) u)"
      by (rule upd_tlp_step) (simp add: batch_ok_def)
    then show ?thesis using False by (simp add: tlp_on_message_def)
  qed
  show ?thesis using assms(2) world_step_trans [OF tlp msg] world_step_trans [OF trace hello]
    by (auto simp: endpoint_call_def split: if_splits)
qed

text \<open>The endpoints keep what the transport asks of a callback.\<close>

interpretation eps: endpoint_callbacks B rsc ext_ok "endpoint_call B S" for B rsc S
proof
  fix m f u and t t' :: "'a rpmsg_world"
  assume m: "msg_ok m" and c: "endpoint_call B S f u m t = Some t'"
  from endpoint_call_step [OF m c] show "cb_framed rsc ext_ok t t'" by (auto simp: cb_framed_def world_step_def world_ok_def)
qed

section \<open>Any use of the channel\<close>

text \<open>
  What the firmware does with the channel after \<open>init\<close>, in any order: \<open>rpmsg_apply\<close> is one call.
\<close>

datatype rpmsg_op = Op_init | Op_poll | Op_reply rpmsg_message "u8 list option" u16 | Op_announce "u8 list" u32 | Op_attach u32
  | Op_trace_service | Op_tlp_service | Op_trace_acquire u32 | Op_trace_commit u32 | Op_tlp_send tlp | Op_tlp_flush
  | Op_flush_kick | Op_enable_rx_kick bool | Op_is_rx_pending | Op_tx_free

fun rpmsg_apply :: "'h host \<Rightarrow> 'h services \<Rightarrow> u32 \<Rightarrow> rpmsg_op \<Rightarrow> 'h rpmsg_world \<Rightarrow> 'h rpmsg_world option" where
  "rpmsg_apply B S rsc Op_init w = rpmsg_reset B rsc w"
| "rpmsg_apply B S rsc Op_poll w = map_option snd (poll B (endpoint_call B S) w)"
| "rpmsg_apply B S rsc (Op_reply m bytes n) w = map_option snd (reply B m bytes n w)"
| "rpmsg_apply B S rsc (Op_announce name addr) w = map_option snd (announce_service B name addr w)"
| "rpmsg_apply B S rsc (Op_attach addr) w = Some (attach addr w)"
| "rpmsg_apply B S rsc Op_trace_service w = trace_ep_service B w"
| "rpmsg_apply B S rsc Op_tlp_service w = tlp_ep_service B w"
| "rpmsg_apply B S rsc (Op_trace_acquire n) w = map_option snd (trace_acquire B S n w)"
| "rpmsg_apply B S rsc (Op_trace_commit n) w = Some (trace_commit B n w)"
| "rpmsg_apply B S rsc (Op_tlp_send p) w = map_option snd (tlp_send B p w)"
| "rpmsg_apply B S rsc Op_tlp_flush w = Some (tlp_flush B w)"
| "rpmsg_apply B S rsc Op_flush_kick w = Some (flush_kick B w)"
| "rpmsg_apply B S rsc (Op_enable_rx_kick b) w = Some (enable_rx_kick B b w)"
| "rpmsg_apply B S rsc Op_is_rx_pending w = Some (snd (is_rx_pending B w))"
| "rpmsg_apply B S rsc Op_tx_free w = Some (snd (tx_free B w))"

fun rpmsg_run :: "'h host \<Rightarrow> 'h services \<Rightarrow> u32 \<Rightarrow> rpmsg_op list \<Rightarrow> 'h rpmsg_world \<Rightarrow> 'h rpmsg_world option" where
  "rpmsg_run B S rsc [] w = Some w"
| "rpmsg_run B S rsc (x # xs) w = do { w \<leftarrow> rpmsg_apply B S rsc x w; rpmsg_run B S rsc xs w }"

definition rpmsg_world_new :: "u8 \<Rightarrow> 'h \<Rightarrow> 'h rpmsg_world" where
  "rpmsg_world_new ch env = rpmsg_transport.extend (transport_new ch env)
     (rpmsg_world.fields (trace_endpoint_new (map of_char ''abstractx-trace'')) (tlp_endpoint_new (map of_char ''abstractx-tlp'')))"

definition world_good :: "u32 \<Rightarrow> 'h rpmsg_world \<Rightarrow> bool" where
  "world_good rsc w = (world_ok rsc w \<and> tp_returned w = tp_taken w)"

lemma world_step_good: "world_step rsc w w' \<Longrightarrow> world_good rsc w \<Longrightarrow> world_good rsc w'"
  by (simp add: world_step_def world_good_def)

lemma rx_done_good: "rx_done rsc ext_ok w w' \<Longrightarrow> world_good rsc w \<Longrightarrow> world_good rsc w'"
  by (auto simp: rx_done_def world_good_def world_ok_def)

lemma ep_service_step:
  assumes "ep_service B ep w = Some (ep', w')" "rp_ok rsc w"
  shows "tx_framed rsc w w' \<and> (\<exists>b. ep' = ep \<or> ep' = ep\<lparr>re_announced := b\<rparr>)"
proof (cases "re_announced ep")
  case False
  obtain r w1 where r: "ready B w = (r, w1)" by force
  note 1 = ready_framed(1) [OF r, of rsc]
  show ?thesis
  proof (cases r)
    case True
    then obtain ok where a: "announce_service B (re_name ep) (re_addr ep) w1 = Some (ok, w')" "ep' = ep\<lparr>re_announced := ok\<rparr>"
      using assms(1) False by (auto simp: ep_service_def r split: Option.bind_splits)
    show ?thesis using tx_framed_trans [OF 1 announce_framed [OF a(1) tx_framed_ok [OF 1 assms(2)]]] a(2) by blast
  qed (use assms(1) False 1 in \<open>auto simp: ep_service_def r\<close>)
qed (use assms(1) in \<open>auto simp: ep_service_def\<close>)

lemma service_step:
  "trace_ep_service B w = Some w' \<Longrightarrow> world_step rsc w w'" "tlp_ep_service B w = Some w' \<Longrightarrow> world_step rsc w w'"
proof -
  assume "trace_ep_service B w = Some w'"
  then obtain ep w1 where s: "ep_service B (rw_trace w) w = Some (ep, w1)" "w' = w1\<lparr>rw_trace := ep\<rparr>"
    by (auto simp: trace_ep_service_def split: Option.bind_splits)
  show "world_step rsc w w'"
  proof (cases "world_ok rsc w")
    case True
    then have 1: "tx_framed rsc w w1" "te_cur ep = te_cur (rw_trace w)" using ep_service_step [OF s(1), of rsc] by (auto simp: world_ok_def)
    have "world_step rsc w1 w'" using True tx_framed_ends [OF 1(1)] 1(2) by (auto simp: s(2) world_step_def world_ok_def)
    with tx_framed_world [OF 1(1)] show ?thesis by (rule world_step_trans)
  qed (simp add: world_step_def)
next
  assume "tlp_ep_service B w = Some w'"
  then obtain ep w1 where s: "ep_service B (rw_tlp w) w = Some (ep, w1)" "w' = w1\<lparr>rw_tlp := ep\<rparr>"
    by (auto simp: tlp_ep_service_def split: Option.bind_splits)
  show "world_step rsc w w'"
  proof (cases "world_ok rsc w")
    case True
    then have 1: "tx_framed rsc w w1" "batch_ok ep = batch_ok (rw_tlp w)" using ep_service_step [OF s(1), of rsc] by (auto simp: world_ok_def batch_ok_def)
    have "world_step rsc w1 w'" using True tx_framed_ends [OF 1(1)] 1(2) by (auto simp: s(2) world_step_def world_ok_def)
    with tx_framed_world [OF 1(1)] show ?thesis by (rule world_step_trans)
  qed (simp add: world_step_def)
qed

lemma attach_step: "world_step rsc w (attach addr w)"
  by (auto simp: attach_def register_ep_def world_step_def world_ok_def rp_ok_def split: option.splits)

lemma rpmsg_apply_good:
  assumes "rpmsg_apply B S rsc x w = Some w'" "world_good rsc w" "\<And>p. x = Op_tlp_send p \<Longrightarrow> wf_tlp p"
  shows "world_good rsc w'"
proof -
  have ok: "rp_ok rsc w" "ext_ok (rpmsg_transport.more w)" using assms(2) by (simp_all add: world_good_def world_ok_def)
  have tx: "tx_framed rsc w w' \<Longrightarrow> world_good rsc w'" using world_step_good [OF tx_framed_world _] assms(2) by blast
  show ?thesis
  proof (cases x)
    case Op_init
    then show ?thesis using assms(1,2) rx_done_good [OF reset_ok [where P = ext_ok, OF _ ok]] by simp
  next
    case Op_poll
    then obtain b where "poll B (endpoint_call B S) w = Some (b, w')" using assms(1) by auto
    from rx_done_good [OF eps.poll_done [OF this ok] assms(2)] show ?thesis .
  next
    case (Op_tlp_send p)
    then show ?thesis using assms world_step_good [OF tlp_send_step] by auto
  next
    case Op_is_rx_pending
    then show ?thesis using assms(1) tx [OF is_rx_pending_framed [OF _ ok(1)]] by (cases "is_rx_pending B w") auto
  next
    case Op_tx_free
    then show ?thesis using assms(1) tx [OF tx_free_framed(1) [OF _ ok(1)]] by (cases "tx_free B w") auto
  qed (use assms(1,2) tx ok(1) in \<open>auto dest: reply_framed announce_framed
    intro: world_step_good [OF attach_step] world_step_good [OF trace_commit_step] world_step_good [OF tlp_flush_step]
      world_step_good [OF framed_world [OF flush_kick_framed]] world_step_good [OF service_step(1)] world_step_good [OF service_step(2)]
      world_step_good [OF trace_acquire_step] enable_rx_kick_framed\<close>)
qed

lemma rpmsg_run_good:
  "rpmsg_run B S rsc xs w = Some w' \<Longrightarrow> world_good rsc w \<Longrightarrow> \<forall>p. Op_tlp_send p \<in> set xs \<longrightarrow> wf_tlp p \<Longrightarrow> world_good rsc w'"
proof (induction xs arbitrary: w)
  case (Cons x xs)
  then obtain u where u: "rpmsg_apply B S rsc x w = Some u" "rpmsg_run B S rsc xs u = Some w'" by (auto split: Option.bind_splits)
  have "world_good rsc u" by (rule rpmsg_apply_good [OF u(1) Cons.prems(2)]) (use Cons.prems(3) in auto)
  then show ?case using Cons.IH [OF u(2)] Cons.prems(3) by simp
qed simp

lemma world_new_good: "world_good rsc (rpmsg_world_new ch env)"
  by (simp add: world_good_def world_ok_def rpmsg_world_new_def transport_new_def rpmsg_transport.extend_def rpmsg_world.fields_def rp_ok_def
      trace_endpoint_new_def tlp_endpoint_new_def batch_ok_def)

text \<open>
  (C17) Whatever the host writes into the shared memory and whenever it does, any use of the channel reads
  and writes only the two RPMsg pools and the message box registers, and reads the resource table;
  and every receive buffer with a valid descriptor that \<open>poll\<close> takes from the ring is given back
  exactly once, in the order taken.
\<close>

theorem rpmsg_host_cannot_misdirect:
  assumes "rpmsg_run B S rsc xs (rpmsg_world_new ch env) = Some w" "\<forall>p. Op_tlp_send p \<in> set xs \<longrightarrow> wf_tlp p"
  shows "(\<forall>x \<in> set (lk_log w). allowed rsc x) \<and> tp_returned w = tp_taken w"
  using rpmsg_run_good [OF assms(1) world_new_good assms(2)] by (simp add: world_good_def world_ok_def rp_ok_def)

section \<open>A run\<close>

declare fifo_flush.simps [code] fifo_wait.simps [code] drain_channel.simps [code] tx_take_loop.simps [code] poll_loop.simps [code]

text \<open>A host that answers every read from a table: it has mapped both rings and posted one message with one packet.\<close>

definition one_message :: "u32 \<Rightarrow> u64" where
  "one_message a = (if a = 0x1060 then 4 else if a = 0x1064 then 0x072E0000 else if a = 0x1068 then 4 else if a = 0x106C then 2
     else if a = 0x1078 then 0x072E1000 else if a = 0x107C then 4 else if a = 0x1080 then 2
     else if a = 0x40021022 then 1 else if a = 0x40021000 then 0x072E2000 else if a = 0x40021008 then 80
     else if a = 0x40022000 then 55 else if a = 0x40022004 then 1024 else if a = 0x4002200C then 64 else 0)"

definition table_host :: "unit host" where
  "table_host = \<lparr>ho_load = \<lambda>a n h. (one_message a, h), ho_store = \<lambda>a n v h. h\<rparr>"

definition no_services :: "unit services" where
  "no_services = \<lparr>sv_now_cycles = \<lambda>h. 0, sv_hz = 0, sv_ingress = None\<rparr>"

lemmas table_defs = table_host_def one_message_def no_services_def

lemma table_access:
  "hload table_host n a t = (one_message a, t\<lparr>lk_log := lk_log t @ [Read a n (one_message a)]\<rparr>)"
  "hstore table_host n a v t = t\<lparr>lk_log := lk_log t @ [Write a n v]\<rparr>"
  by (simp_all add: table_host_def hload_def hstore_def)

lemmas table_simps = table_access load16_def load32_def store16_def store32_def

lemma table_flush: "one_message sta = 0 \<Longrightarrow> fifo_flush table_host sta fifo t = Some (snd (load32 table_host sta t))"
  by (subst fifo_flush.simps) (simp add: table_simps)

lemma one_message_regs: "one_message (RV_MSG_STA_REG c) = 0" "one_message (DSP_MSG_STA_REG c) = 0" if "c \<in> {0, 1, 2, 3}" for c
  using that by (auto simp: one_message_def RV_MSG_STA_REG_def DSP_MSG_STA_REG_def)

lemma table_init: "\<exists>log. rpmsg_reset table_host 0x1000 (rpmsg_world_new 1 ()) = Some ((rpmsg_world_new 1 ())\<lparr>tp_rsc := 0x1000, lk_log := log\<rparr>)"
  by (simp add: rpmsg_reset_def mbox_init_def table_flush one_message_regs table_simps Let_def rpmsg_world_new_def transport_new_def rpmsg_transport.extend_def)

definition table_world :: "access list \<Rightarrow> unit rpmsg_world" where
  "table_world log = attach 1024 ((rpmsg_world_new 1 ())\<lparr>tp_rsc := 0x1000, lk_log := log\<rparr>)"

lemma table_ready: "\<exists>log'. ready table_host (table_world log) = (True, (table_world log)\<lparr>tp_ready := True, lk_log := log',
    tp_tx := \<lparr>vq_da = 0x072E0000, vq_num = 2, vq_mask = 1, vq_align = 4, vq_desc = 0x40020000, vq_avail = 0x40020020, vq_used = 0x4002002C, vq_last_avail_idx = 0, vq_bad_reads = 0\<rparr>,
    tp_rx := \<lparr>vq_da = 0x072E1000, vq_num = 2, vq_mask = 1, vq_align = 4, vq_desc = 0x40021000, vq_avail = 0x40021020, vq_used = 0x4002102C, vq_last_avail_idx = 0, vq_bad_reads = 0\<rparr>\<rparr>)"
  by (simp add: ready_def table_world_def attach_def register_ep_def rpmsg_world_new_def transport_new_def rpmsg_transport.extend_def
      table_simps rsc_status_at_def rsc_vring_at_def one_message_def VIRTIO_CONFIG_S_DRIVER_OK_def load_rings_def load_vring_def
      setup_vq_def VRING_NUM_DESCS_def translate_buf_def windows_def vq_ring_bytes_def vq_used_offset_def vq_avail_offset_def kMaxEndpoints_def)

lemma table_load_bytes: "\<exists>bs log. load_bytes table_host a n w = (bs, w\<lparr>lk_log := log\<rparr>)" for w :: "unit rpmsg_world"
proof (induction n arbitrary: a w)
  case 0
  show ?case by (intro exI [of _ "[]"] exI [of _ "lk_log w"]) simp
next
  case (Suc n)
  obtain bs log where "load_bytes table_host (a + 1) n (w\<lparr>lk_log := lk_log w @ [Read a 1 (one_message a)]\<rparr>) =
    (bs, w\<lparr>lk_log := log\<rparr>)" using Suc [of "a + 1" "w\<lparr>lk_log := lk_log w @ [Read a 1 (one_message a)]\<rparr>"] by auto
  then show ?case by (auto simp: table_access)
qed

lemma table_call:
  "\<exists>log. endpoint_call table_host no_services 0 1024 \<lparr>rm_src = 55, rm_dst = 1024, rm_len = 64, rm_data = a, rm_desc_idx = 0\<rparr> w =
    Some (w\<lparr>lk_log := log, rw_tlp := (rw_tlp w)\<lparr>re_host_addr := 55, le_rx_dropped := le_rx_dropped (rw_tlp w) + 1\<rparr>\<rparr>)"
proof -
  obtain bs log where "load_bytes table_host a 64 (w\<lparr>rw_tlp := (rw_tlp w)\<lparr>re_host_addr := 55\<rparr>\<rparr>) =
    (bs, w\<lparr>rw_tlp := (rw_tlp w)\<lparr>re_host_addr := 55\<rparr>, lk_log := log\<rparr>)" using table_load_bytes by metis
  then show ?thesis
    by (auto simp: endpoint_call_def tlp_on_message_def kTlpBytes_def tlp_push_def no_services_def numeral_eq_Suc [of "num.One"])
qed

lemma table_drain:
  "c \<in> {0, 1} \<Longrightarrow> drain_channel table_host c n t = Some (n, t\<lparr>lk_log := lk_log t @ [Read (RV_MSG_STA_REG c) 4 0]\<rparr>)"
  by (subst drain_channel.simps) (auto simp: mbox_is_rx_pending_def fifo_pending_def table_simps one_message_regs)

lemma table_poll:
  "\<exists>w'. poll table_host (endpoint_call table_host no_services) (table_world log) = Some (True, w') \<and>
    tp_taken w' = [0] \<and> re_host_addr (rw_tlp w') = 55 \<and> le_rx_dropped (rw_tlp w') = 1"
proof -
  let ?call = "endpoint_call table_host no_services"
  obtain L where call: "\<And>a w. ?call 0 1024 \<lparr>rm_src = 55, rm_dst = 1024, rm_len = 64, rm_data = a, rm_desc_idx = 0\<rparr> w =
    Some (w\<lparr>lk_log := L a w, rw_tlp := (rw_tlp w)\<lparr>re_host_addr := 55, le_rx_dropped := le_rx_dropped (rw_tlp w) + 1\<rparr>\<rparr>)"
    using table_call by metis
  let ?tx = "\<lparr>vq_da = 0x072E0000, vq_num = 2, vq_mask = 1, vq_align = 4, vq_desc = 0x40020000, vq_avail = 0x40020020, vq_used = 0x4002002C, vq_last_avail_idx = 0, vq_bad_reads = 0\<rparr>"
  let ?rx = "\<lambda>i. \<lparr>vq_da = 0x072E1000, vq_num = 2, vq_mask = 1, vq_align = 4, vq_desc = 0x40021000, vq_avail = 0x40021020, vq_used = 0x4002102C, vq_last_avail_idx = i, vq_bad_reads = 0\<rparr>"
  define W where "W = (\<lambda>l. (table_world log)\<lparr>tp_ready := True, lk_log := l, tp_tx := ?tx, tp_rx := ?rx 0\<rparr>)"
  obtain l1 where r: "ready table_host (table_world log) = (True, W l1)" using table_ready unfolding W_def by blast
  have Wf: "tp_rx (W l) = ?rx 0" "tp_kick_owed (W l) = False" "(W l)\<lparr>lk_log := l'\<rparr> = W l'" "(W l)\<lparr>tp_rx := ?rx 0\<rparr> = W l" "lk_log (W l) = l"
    "tp_taken (W l) = []" "take (tp_num_endpoints (W l)) (tp_endpoints (W l)) = [\<lparr>ep_addr = 1024, ep_cb = Some 0, ep_user_data = 1024\<rparr>]"
    "tp_kick_channel (W l) = 1" "le_rx_dropped (rw_tlp (W l)) = 0" for l l'
    by (simp_all add: W_def table_world_def attach_def register_ep_def rpmsg_world_new_def transport_new_def rpmsg_transport.extend_def kMaxEndpoints_def
        rpmsg_world.fields_def tlp_endpoint_new_def)
  have a: "\<exists>l'. avail_pending table_host (?rx 0) (W l) = ((Some 1, ?rx 0), W l')" for l
    by (simp add: avail_pending_def avail_idx_at_def table_simps one_message_def Wf) blast
  have f: "\<exists>l'. set_flags table_host (?rx 0) 0 (W l) = W l'" for l
    by (simp add: set_flags_def used_flags_at_def table_simps one_message_def Wf) blast
  have consume: "\<exists>l k m. consume_message table_host ?call 0 w = Some (w\<lparr>tp_rx_count := k, tp_handed := m, lk_log := l,
      rw_tlp := (rw_tlp w)\<lparr>re_host_addr := 55, le_rx_dropped := le_rx_dropped (rw_tlp w) + 1\<rparr>\<rparr>)"
    if "tp_rx w = ?rx 1" "take (tp_num_endpoints w) (tp_endpoints w) = [\<lparr>ep_addr = 1024, ep_cb = Some 0, ep_user_data = 1024\<rparr>]" for w
    using that by (simp add: consume_message_def rpmsg_dispatch_def table_simps call Let_def desc_addr_at_def desc_len_at_def
        one_message_def RPMSG_BUFFER_SIZE_def kHdr_def translate_buf_def windows_def) blast
  have pub: "\<exists>l. publish_used table_host q i n w = w\<lparr>lk_log := l\<rparr>" for q i n and w :: "unit rpmsg_world"
    by (simp add: publish_used_def table_simps Let_def) blast
  have pf: "tp_taken (publish_used table_host q i n w) = tp_taken w" "rw_tlp (publish_used table_host q i n w) = rw_tlp w"
    "tp_rx (publish_used table_host q i n w) = tp_rx w" "tp_kick_channel (publish_used table_host q i n w) = tp_kick_channel w"
    for q i n and w :: "unit rpmsg_world" using pub [of q i n w] by auto
  have one: "\<exists>w. poll_one table_host ?call (W l) = Some w \<and> tp_taken w = [0] \<and> re_host_addr (rw_tlp w) = 55 \<and> le_rx_dropped (rw_tlp w) = 1 \<and>
    tp_rx w = ?rx 1 \<and> tp_kick_channel w = 1" for l
  proof -
    define u where "u = (W (l @ [Read 0x40021024 2 0]))\<lparr>tp_rx := ?rx 1\<rparr>"
    have uf: "tp_rx u = ?rx 1" "tp_taken u = []" "le_rx_dropped (rw_tlp u) = 0" "tp_kick_channel u = 1"
      "take (tp_num_endpoints u) (tp_endpoints u) = [\<lparr>ep_addr = 1024, ep_cb = Some 0, ep_user_data = 1024\<rparr>]"
      using Wf by (simp_all add: u_def)
    obtain l' k m where c: "consume_message table_host ?call 0 (u\<lparr>tp_taken := [0]\<rparr>) = Some (u\<lparr>tp_taken := [0], tp_rx_count := k, tp_handed := m, lk_log := l',
      rw_tlp := (rw_tlp u)\<lparr>re_host_addr := 55, le_rx_dropped := le_rx_dropped (rw_tlp u) + 1\<rparr>\<rparr>)"
      using consume [of "u\<lparr>tp_taken := [0]\<rparr>"] uf by auto
    have "poll_one table_host ?call (W l) = Option.bind (consume_message table_host ?call 0 (u\<lparr>tp_taken := [0]\<rparr>))
      (\<lambda>t. Some (publish_used table_host (tp_rx t) 0 0 (t\<lparr>tp_returned := tp_returned t @ [0]\<rparr>)))"
      using uf by (simp add: poll_one_def table_simps Wf avail_ring_at_def one_message_def u_def)
    then show ?thesis by (simp add: c pf uf)
  qed
  have last: "\<exists>l. avail_pending table_host (?rx 1) w = ((Some 0, ?rx 1), w\<lparr>lk_log := l\<rparr>)" for w :: "unit rpmsg_world"
    by (simp add: avail_pending_def avail_idx_at_def table_simps one_message_def) blast
  have send: "\<exists>l. notify table_host w = w\<lparr>lk_log := l, tp_kick_owed := False\<rparr>" if "tp_kick_channel w = 1" for w :: "unit rpmsg_world"
  proof -
    have tries: "kMboxSendTries = Suc 255" by (simp add: kMboxSendTries_def)
    show ?thesis unfolding notify_def tries notify_loop.simps
      using that by (simp add: mbox_send_def fifo_send_def table_simps one_message_def ARM_MSG_STA_REG_def
        MSG_NUM_MASK_def FIFO_DEPTH_MAX_def) (rule exI, rule refl)
  qed
  obtain l2 where d: "drain_doorbells table_host (W l1) = Some (W l2)"
    by (simp add: drain_doorbells_def table_drain Wf)
  obtain l3 where a3: "avail_pending table_host (?rx 0) (W l2) = ((Some 1, ?rx 0), W l3)" using a by blast
  obtain l4 where f4: "set_flags table_host (?rx 0) 0 (W l3) = W l4" using f by blast
  obtain w where w: "poll_one table_host ?call (W l4) = Some w" "tp_taken w = [0]" "re_host_addr (rw_tlp w) = 55"
    "le_rx_dropped (rw_tlp w) = 1" "tp_rx w = ?rx 1" "tp_kick_channel w = 1" using one by blast
  obtain l5 where a5: "avail_pending table_host (?rx 1) w = ((Some 0, ?rx 1), w\<lparr>lk_log := l5\<rparr>)" using last by blast
  define w6 where "w6 = w\<lparr>lk_log := l5, tp_rx := ?rx 1\<rparr>"
  have loop: "poll_loop table_host ?call 1 (W l4) = Some w6"
    by (subst poll_loop.simps) (simp add: w a5 w6_def)
  obtain l7 where s7: "notify table_host w6 = w6\<lparr>lk_log := l7, tp_kick_owed := False\<rparr>" using send [of w6] w(6) by (auto simp: w6_def)
  have "poll table_host ?call (table_world log) = Some (True, w6\<lparr>lk_log := l7, tp_kick_owed := False\<rparr>)"
    by (simp add: poll_def r retry_owed_kick_def Wf d a3 f4 loop s7)
  then show ?thesis using w by (simp add: w6_def)
qed

lemma rpmsg_host_cannot_misdirect_witness:
  "\<exists>w. rpmsg_run table_host no_services 0x1000 [Op_init, Op_attach 1024, Op_poll] (rpmsg_world_new 1 ()) = Some w \<and>
    tp_returned w = [0] \<and> re_host_addr (rw_tlp w) = 55 \<and> (\<forall>x \<in> set (lk_log w). allowed 0x1000 x)"
proof -
  obtain log where i: "rpmsg_reset table_host 0x1000 (rpmsg_world_new 1 ()) = Some ((rpmsg_world_new 1 ())\<lparr>tp_rsc := 0x1000, lk_log := log\<rparr>)"
    using table_init by blast
  obtain w where w: "poll table_host (endpoint_call table_host no_services) (table_world log) = Some (True, w)"
    "tp_taken w = [0]" "re_host_addr (rw_tlp w) = 55" using table_poll by blast
  have run: "rpmsg_run table_host no_services 0x1000 [Op_init, Op_attach 1024, Op_poll] (rpmsg_world_new 1 ()) = Some w"
    using w(1) by (simp add: i table_world_def)
  from rpmsg_host_cannot_misdirect [OF run] w run show ?thesis by simp
qed

end
