(* ===== verification/Rpmsg_Flow.thy ===== *)
theory Rpmsg_Flow
  imports Rpmsg_Endpoints
begin

text \<open>
  How the RPMsg channel behaves when the host does its part: the calls return, a lent buffer can be
  handed back, and the packets of a batch arrive as they were sent.
\<close>

section \<open>Handing a buffer back\<close>

lemma tx_take_one_position:
  assumes "tx_take_one B m t = (Some buf, t')" "tb_size buf \<noteq> 0"
  shows "tp_can_cancel t'" "tp_ready t'" "tp_cancel_pos t' + 1 = vq_last_avail_idx (tp_tx t')"
proof -
  obtain n t1 where f: "tx_free B t = (n, t1)" by force
  have r: "tp_ready t1" if "n \<noteq> 0"
  proof -
    obtain r u where u: "ready B t = (r, u)" by force
    then have "r" using f that by (cases r) (auto simp: tx_free_def)
    then have "tp_ready u" using ready_framed(2) [OF u] by simp
    then show ?thesis using f u \<open>r\<close>
      by (auto simp: tx_free_def avail_pending_def set_flags_def Let_def split_def split: if_splits)
  qed
  have "n > m" using assms f by (auto simp: tx_take_one_def no_buffer_def split: if_splits)
  then have "n \<noteq> 0" by auto
  then show "tp_can_cancel t'" "tp_ready t'" "tp_cancel_pos t' + 1 = vq_last_avail_idx (tp_tx t')"
    using assms f r by (auto simp: tx_take_one_def no_buffer_def Let_def split_def split: if_splits option.splits)
qed

lemma tx_take_position:
  fixes t :: "('h, 'z) rpmsg_transport_scheme"
  assumes "tx_take B m t = Some (buf, t')" "tb_size buf \<noteq> 0"
  shows "tp_can_cancel t' \<and> tp_ready t' \<and> tp_cancel_pos t' + 1 = vq_last_avail_idx (tp_tx t')"
proof -
  let ?P = "\<lambda>y :: tx_buffer \<times> ('h, 'z) rpmsg_transport_scheme. tb_size (fst y) \<noteq> 0 \<longrightarrow>
    tp_can_cancel (snd y) \<and> tp_ready (snd y) \<and> tp_cancel_pos (snd y) + 1 = vq_last_avail_idx (tp_tx (snd y))"
  have "?P (buf, t')"
  proof (rule tx_take_loop.raw_induct [of "\<lambda>B m t. ?P", OF _ assms(1) [unfolded tx_take_def]])
    fix f :: "'h host \<Rightarrow> u16 \<Rightarrow> ('h, 'z) rpmsg_transport_scheme \<Rightarrow> (tx_buffer \<times> ('h, 'z) rpmsg_transport_scheme) option" and B m t y
    assume IH: "\<And>B m t y. f B m t = Some y \<Longrightarrow> ?P y"
      and body: "(case tx_take_one B m t of (None, t) \<Rightarrow> f B m t | (Some buf, t) \<Rightarrow> Some (buf, t)) = Some y"
    show "?P y"
    proof (cases "tx_take_one B m t")
      case (Pair b u)
      then show ?thesis using body IH by (cases b) (auto dest: tx_take_one_position)
    qed
  qed
  then show ?thesis using assms(2) by simp
qed

text \<open>
  The buffer taken last can be handed back, once: if the host left the ring entry alone, \<open>tx_cancel\<close>
  accepts it and the ring stands before the entry again. After any other buffer has been committed
  \<open>tx_cancel\<close> refuses it, although no later buffer was taken.
\<close>

theorem tx_cancel_undoes_take:
  assumes take: "tx_take B m t = Some (buf, t')" "tb_size buf \<noteq> 0"
    and entry: "fst (load16 B (avail_ring_at (vq_avail (tp_tx t')) (ucast (tp_cancel_pos t') AND vq_mask (tp_tx t'))) t') = tb_desc_idx buf"
  shows "(\<exists>t''. tx_cancel B buf t' = (True, t'') \<and> vq_last_avail_idx (tp_tx t'') + 1 = vq_last_avail_idx (tp_tx t') \<and>
      tx_cancel B buf t'' = (False, t'')) \<and>
    (\<forall>other n src dst u. tx_publish B other n src dst t' = (True, u) \<longrightarrow> tx_cancel B buf u = (False, u))"
proof -
  note pos = tx_take_position [OF take]
  have "\<exists>t''. tx_cancel B buf t' = (True, t'') \<and> vq_last_avail_idx (tp_tx t'') = tp_cancel_pos t' \<and> \<not> tp_can_cancel t''"
    using pos entry take(2) by (simp add: tx_cancel_def split_def Let_def)
  then obtain t'' where "tx_cancel B buf t' = (True, t'')" "vq_last_avail_idx (tp_tx t'') = tp_cancel_pos t'" "\<not> tp_can_cancel t''" by blast
  moreover from this(3) have "tx_cancel B buf t'' = (False, t'')" by (simp add: tx_cancel_def)
  moreover have "tx_cancel B buf u = (False, u)" if p: "tx_publish B other n src dst t' = (True, u)" for other n src dst u
  proof -
    have "\<exists>v. u = (notify B (v\<lparr>tp_can_cancel := False\<rparr>))\<lparr>tp_tx_count := tp_tx_count (notify B (v\<lparr>tp_can_cancel := False\<rparr>)) + 1\<rparr>"
      using p by (auto simp: tx_publish_def Let_def split: if_splits)
    then obtain v where "u = (notify B (v\<lparr>tp_can_cancel := False\<rparr>))\<lparr>tp_tx_count := tp_tx_count (notify B (v\<lparr>tp_can_cancel := False\<rparr>)) + 1\<rparr>" ..
    then have "\<not> tp_can_cancel u" using framedD(8) [OF framed_notify(1), of B "v\<lparr>tp_can_cancel := False\<rparr>"] by simp
    then show ?thesis by (simp add: tx_cancel_def)
  qed
  ultimately show ?thesis using pos by auto
qed

section \<open>Calls return\<close>

text \<open>
  A host that does its part while a call runs: it posts no further buffer (the available index of
  each mapped ring reads the same all the time), and the message box empties: reading its status
  changes nothing, reading a word out of a FIFO that is not empty lowers the number \<open>f\<close> of words left,
  and no other access raises it.
\<close>

definition index_still :: "'h host \<Rightarrow> virt_queue \<Rightarrow> u16 \<Rightarrow> bool" where
  "index_still B vq i = (\<forall>h. (ucast (fst (ho_load B (avail_idx_at (vq_avail vq)) 2 h)) :: u16) = i)"

definition mbox_drains :: "'h host \<Rightarrow> ('h \<Rightarrow> nat) \<Rightarrow> bool" where
  "mbox_drains B f = (\<forall>c \<in> {0, 1}. \<forall>h. snd (ho_load B (RV_MSG_STA_REG c) 4 h) = h \<and>
     ((ucast (fst (ho_load B (RV_MSG_STA_REG c) 4 h)) :: u32) AND MSG_NUM_MASK > 0 \<longrightarrow>
        f (snd (ho_load B (RV_MSG_FIFO_REG c) 4 h)) < f h) \<and>
     (\<forall>v. f (ho_store B RV_READ_IRQ_STA_REG 4 v h) \<le> f h))"

lemma drain_channel_returns:
  assumes "mbox_drains B f" "c \<in> {0, 1}"
  shows "\<exists>m t'. drain_channel B c n t = Some (m, t')"
proof (induction "f (lk_env t)" arbitrary: n t rule: less_induct)
  case less
  let ?sta = "\<lambda>h. ho_load B (RV_MSG_STA_REG c) 4 h"
  have c3: "c \<le> 3" "\<not> c > 3" using assms(2) by auto
  have same: "snd (?sta h) = h" for h using assms by (auto simp: mbox_drains_def)
  show ?case
  proof (cases "(ucast (fst (?sta (lk_env t))) :: u32) AND MSG_NUM_MASK > 0")
    case False
    then show ?thesis
      by (subst drain_channel.simps) (simp add: mbox_is_rx_pending_def c3 fifo_pending_def load32_def hload_def Let_def split_def)
  next
    case True
    obtain t1 where p: "mbox_is_rx_pending B c t = (True, t1)" "lk_env t1 = lk_env t"
      using True same by (simp add: mbox_is_rx_pending_def c3 fifo_pending_def load32_def hload_def Let_def split_def)
    obtain v t2 where r: "mbox_receive B c t1 = (v, t2)" by force
    have "lk_env t2 = ho_store B RV_READ_IRQ_STA_REG 4 (ucast (irq_bit c)) (snd (ho_load B (RV_MSG_FIFO_REG c) 4 (lk_env t)))"
      using r True same p(2) c3
      by (auto simp: mbox_receive_def fifo_receive_def fifo_pending_def load32_def hload_def store32_def hstore_def Let_def split_def)
    moreover have "f (ho_store B RV_READ_IRQ_STA_REG 4 (ucast (irq_bit c)) (snd (ho_load B (RV_MSG_FIFO_REG c) 4 (lk_env t)))) \<le>
        f (snd (ho_load B (RV_MSG_FIFO_REG c) 4 (lk_env t)))" "f (snd (ho_load B (RV_MSG_FIFO_REG c) 4 (lk_env t))) < f (lk_env t)"
      using assms True unfolding mbox_drains_def by blast+
    ultimately have "f (lk_env t2) < f (lk_env t)" by simp
    from less [OF this, of "n + 1"] show ?thesis
      by (subst drain_channel.simps) (simp add: p(1) r)
  qed
qed

lemma drain_doorbells_returns:
  assumes "mbox_drains B f"
  shows "\<exists>t'. drain_doorbells B t = Some t'"
proof -
  obtain n t1 where 1: "drain_channel B 0 0 t = Some (n, t1)" using drain_channel_returns [OF assms, of 0] by blast
  obtain m t2 where 2: "drain_channel B 1 n t1 = Some (m, t2)" using drain_channel_returns [OF assms, of 1] by blast
  show ?thesis by (simp add: drain_doorbells_def 1 2)
qed

definition still :: "'h host \<Rightarrow> u16 \<Rightarrow> ('h, 'z) rpmsg_transport_scheme \<Rightarrow> bool" where
  "still B i t = (tp_ready t \<and> tp_rsc t \<noteq> 0 \<and> index_still B (tp_tx t) i)"

lemma still_cong: "tp_ready t' = tp_ready t \<Longrightarrow> tp_rsc t' = tp_rsc t \<Longrightarrow> vq_avail (tp_tx t') = vq_avail (tp_tx t) \<Longrightarrow> still B i t' = still B i t"
  by (simp add: still_def index_still_def)

lemma framed_still: "framed rsc t t' \<Longrightarrow> still B i t' = still B i t"
  by (rule still_cong) (simp_all add: framed_def)

lemma tx_free_still:
  assumes "still B i t" "tx_free B t = (n, t')"
  shows "still B i t'" "n \<noteq> 0 \<Longrightarrow> vq_last_avail_idx (tp_tx t') = vq_last_avail_idx (tp_tx t) \<and> n = i - vq_last_avail_idx (tp_tx t)"
  using assms
  by (auto simp: still_def tx_free_def ready_def avail_pending_def index_still_def load16_def hload_def set_flags_def Let_def split_def split: if_splits)

lemma tx_take_one_still:
  assumes "still B i t" "tx_take_one B m t = (b, t')"
  shows "still B i t'" "b = None \<Longrightarrow> unat (i - vq_last_avail_idx (tp_tx t')) < unat (i - vq_last_avail_idx (tp_tx t))"
proof -
  obtain n t1 where f: "tx_free B t = (n, t1)" by force
  note s = tx_free_still [OF assms(1) f]
  have "tp_ready t' = tp_ready t1 \<and> tp_rsc t' = tp_rsc t1 \<and> vq_avail (tp_tx t') = vq_avail (tp_tx t1)"
    using assms(2) f by (auto simp: tx_take_one_def Let_def split_def split: if_splits option.splits)
  then show "still B i t'" using still_cong s(1) by blast
  assume none: "b = None"
  have "n > m" using assms(2) f none by (auto simp: tx_take_one_def split: if_splits)
  then have n: "n \<noteq> 0" by auto
  have t': "vq_last_avail_idx (tp_tx t') = vq_last_avail_idx (tp_tx t1) + 1"
    using assms(2) f none by (auto simp: tx_take_one_def Let_def split_def split: if_splits option.splits)
  have "i - vq_last_avail_idx (tp_tx t') = n - 1" "i - vq_last_avail_idx (tp_tx t) = n" using s(2) [OF n] t' by simp_all
  moreover have "unat (n - 1) < unat n" using n by (simp add: unat_minus_one unat_gt_0)
  ultimately show "unat (i - vq_last_avail_idx (tp_tx t')) < unat (i - vq_last_avail_idx (tp_tx t))" by (simp only:)
qed

lemma tx_take_loop_returns:
  assumes "still B i t"
  shows "\<exists>buf t'. tx_take_loop B m t = Some (buf, t') \<and> still B i t'"
  using assms
proof (induction "unat (i - vq_last_avail_idx (tp_tx t))" arbitrary: t rule: less_induct)
  case less
  obtain b t1 where 1: "tx_take_one B m t = (b, t1)" by force
  note s = tx_take_one_still [OF less.prems 1]
  show ?case
  proof (cases b)
    case None
    from less.hyps [OF s(2) [OF None] s(1)] show ?thesis by (subst tx_take_loop.simps) (simp add: 1 None)
  next
    case (Some buf)
    then show ?thesis using s(1) by (subst tx_take_loop.simps) (simp add: 1)
  qed
qed

lemma tx_take_returns: "still B i t \<Longrightarrow> \<exists>buf t'. tx_take B m t = Some (buf, t') \<and> still B i t'"
  unfolding tx_take_def by (rule tx_take_loop_returns) (simp add: framed_still [OF framed_notify(2)])

lemma reply_wait_returns:
  assumes "mbox_drains B f"
  shows "still B i t \<Longrightarrow> \<exists>buf t'. reply_wait B n t = Some (buf, t') \<and> still B i t'"
proof (induction n arbitrary: t)
  case 0
  then obtain buf t1 where 1: "tx_take B 0 t = Some (buf, t1)" "still B i t1" using tx_take_returns by blast
  then show ?case by (subst reply_wait.simps) simp
next
  case (Suc n)
  then obtain buf t1 where 1: "tx_take B 0 t = Some (buf, t1)" "still B i t1" using tx_take_returns by blast
  define t2 where "t2 = notify B (t1\<lparr>tp_tx_full_waits := tp_tx_full_waits t1 + 1\<rparr>)"
  have "still B i t2" unfolding t2_def framed_still [OF framed_notify(1)] using 1(2) by (simp add: still_def)
  moreover obtain t3 where 3: "drain_doorbells B t2 = Some t3" using drain_doorbells_returns [OF assms] by blast
  ultimately have "still B i t3" by (simp add: framed_still [OF framed_drain_doorbells [OF 3]])
  from Suc.IH [OF this] show ?case using 1 3 by (subst reply_wait.simps) (simp add: t2_def)
qed

lemma reply_returns:
  assumes "mbox_drains B f" "still B i t"
  shows "\<exists>b t'. reply B msg bytes n t = Some (b, t')"
proof -
  obtain r t1 where r: "ready B t = (r, t1)" by force
  then have "still B i t1" using assms(2) by (simp add: ready_def still_def)
  then obtain buf t2 where "reply_wait B kReplyWaitRounds t1 = Some (buf, t2)" using reply_wait_returns [OF assms(1)] by blast
  then show ?thesis by (auto simp: reply_def r Let_def split_def)
qed

section \<open>Polling returns\<close>

text \<open>The same for the receive ring: the loop of \<open>poll\<close> ends when the index read again shows nothing new.\<close>

lemma endpoint_call_returns: "\<exists>w'. rpmsg_dispatch (endpoint_call B S) m w = Some w'"
  by (auto simp: rpmsg_dispatch_def endpoint_call_def split: option.splits)

lemma poll_one_returns: "\<exists>w'. poll_one B (endpoint_call B S) w = Some w'"
proof -
  have "\<exists>w'. consume_message B (endpoint_call B S) i w = Some w'" for i w
    using endpoint_call_returns by (auto simp: consume_message_def Let_def split_def split: option.splits)
  note consume = this
  obtain i u where u: "load16 B (avail_ring_at (vq_avail (tp_rx w)) (ucast (vq_last_avail_idx (tp_rx w)) AND vq_mask (tp_rx w))) w = (i, u)"
    by force
  define v where "v = u\<lparr>tp_rx := (tp_rx u)\<lparr>vq_last_avail_idx := vq_last_avail_idx (tp_rx w) + 1\<rparr>\<rparr>"
  obtain w' where "consume_message B (endpoint_call B S) i (v\<lparr>tp_taken := tp_taken v @ [i]\<rparr>) = Some w'" using consume by blast
  then show ?thesis unfolding poll_one_def Let_def u prod.case v_def [symmetric] by simp
qed

lemma poll_batch_returns: "\<exists>w'. poll_batch B (endpoint_call B S) n w = Some w'"
proof (induction n arbitrary: w)
  case (Suc n)
  obtain u where "poll_one B (endpoint_call B S) w = Some u" using poll_one_returns by blast
  then show ?case using Suc by simp
qed simp

lemma mapped_not_null: "vq_mapped vq \<Longrightarrow> vq_avail vq \<noteq> 0"
proof -
  assume "vq_mapped vq"
  then obtain n off where *: "vq_avail vq = vq_desc vq + of_nat (16 * n)" "18 * n + 6 \<le> off" "in_pool (vq_desc vq) (off + 6 + 8 * n)"
    by (auto simp: vq_mapped_def)
  have "in_pool (vq_desc vq + of_nat (16 * n)) 1" by (rule in_pool_offset [OF *(3)]) (use *(2) in linarith)
  then show ?thesis unfolding *(1) by (rule in_pool_not_null)
qed

lemma poll_loop_returns:
  fixes w :: "'h rpmsg_world"
  assumes "world_ok rsc w" "tp_ready w" "index_still B (tp_rx w) i" "n = i - vq_last_avail_idx (tp_rx w)"
  shows "\<exists>w'. poll_loop B (endpoint_call B S) n w = Some w'"
proof -
  obtain u where u: "poll_batch B (endpoint_call B S) (unat n) w = Some u" using poll_batch_returns by blast
  have "rx_moved rsc ext_ok (unat n) w u"
    by (rule eps.poll_batch_moved [OF u]) (use assms(1,2) in \<open>simp_all add: world_ok_def\<close>)
  then have "vq_last_avail_idx (tp_rx u) = i" "index_still B (tp_rx u) i" "tp_ready u" "rp_ok rsc u"
    using assms(3,4) by (simp_all add: rx_moved_def index_still_def)
  moreover from this have "vq_avail (tp_rx u) \<noteq> 0"
    using rp_ok_ready(2) mapped_not_null by blast
  ultimately have "\<exists>vq v. avail_pending B (tp_rx u) u = ((Some 0, vq), v)"
    by (simp add: avail_pending_def index_still_def load16_def hload_def Let_def split_def)
  then obtain vq v where "avail_pending B (tp_rx u) u = ((Some 0, vq), v)" by blast
  then show ?thesis by (subst poll_loop.simps) (simp add: u)
qed

text \<open>
  (C19) While the host posts nothing more and the message box empties, every call on a ready transport
  returns: taking a buffer, replying (which waits for a buffer at most 64 times), draining the
  doorbells and polling, whatever the descriptors hold.
\<close>

theorem rpmsg_calls_return:
  fixes w :: "'h rpmsg_world"
  assumes "world_ok rsc w" "tp_ready w" "mbox_drains B f"
    and "index_still B (tp_tx w) i" "index_still B (tp_rx w) j" "unat (j - vq_last_avail_idx (tp_rx w)) \<le> unat (vq_num (tp_rx w))"
  shows "(\<exists>y. tx_take B m w = Some y) \<and> (\<exists>y. reply B msg bytes n w = Some y) \<and> (\<exists>y. drain_doorbells B w = Some y) \<and>
    (\<exists>y. poll B (endpoint_call B S) w = Some y)"
proof -
  have ok: "rp_ok rsc w" "tp_rsc w \<noteq> 0" using assms(1,2) unfolding world_ok_def rp_ok_def by blast+
  have still: "still B i w" using assms(2,4) ok(2) by (simp add: still_def)
  have r: "ready B w = (True, w)" using ok(2) assms(2) by (simp add: ready_def)
  obtain w2 where d: "drain_doorbells B (retry_owed_kick B w) = Some w2" using drain_doorbells_returns [OF assms(3)] by blast
  have 2: "framed rsc w w2" by (rule framed_trans [OF framed_notify(2) framed_drain_doorbells [OF d]])
  have w2: "world_ok rsc w2" "tp_ready w2" using framed_world [OF 2] assms(1,2) by (simp_all add: world_step_def)
  obtain p vq w3 where a: "avail_pending B (tp_rx w2) w2 = ((p, vq), w3)" by (metis surj_pair)
  have m2: "vq_mapped (tp_rx w2)" using w2 unfolding world_ok_def rp_ok_def by blast
  note a' = avail_pending_framed [OF a m2]
  have p: "p = Some (j - vq_last_avail_idx (tp_rx w2))" "vq_last_avail_idx vq = vq_last_avail_idx (tp_rx w2)"
    using a assms(5,6) mapped_not_null [OF m2] framedD(3) [OF 2]
    by (auto simp: avail_pending_def index_still_def load16_def hload_def Let_def split_def word_less_nat_alt not_less split: if_splits)
  define w4 where "w4 = set_flags B vq 0 (w3\<lparr>tp_rx := vq\<rparr>)"
  have "framed rsc (w3\<lparr>tp_rx := vq\<rparr>) w4" unfolding w4_def by (rule set_flags_framed [OF a'(2)])
  note f4 = framedD [OF this]
  have ends: "rw_trace w4 = rw_trace w2 \<and> rw_tlp w4 = rw_tlp w2"
    by (rule more_eq) (simp add: f4(12) framedD(12) [OF a'(1)])
  have "rp_ok rsc w4" using f4(1) rp_ok_rx [OF framedD(1) [OF a'(1)] a'(2)] w2(1) by (simp add: world_ok_def)
  then have w4: "world_ok rsc w4" "tp_ready w4" "tp_rx w4 = vq"
    using ends w2 by (simp_all add: world_ok_def f4 framedD [OF a'(1)])
  have "index_still B (tp_rx w4) j" using assms(5) by (simp add: index_still_def w4(3) a'(5) framedD(3) [OF 2])
  then obtain w5 where "poll_loop B (endpoint_call B S) (j - vq_last_avail_idx (tp_rx w4)) w4 = Some w5"
    using poll_loop_returns [OF w4(1,2)] by blast
  then have "\<exists>y. poll B (endpoint_call B S) w = Some y"
    by (simp add: poll_def r d a w4_def [symmetric] p w4(3) Let_def ex_bool_eq)
  moreover have "\<exists>y. tx_take B m w = Some y" using tx_take_returns [OF still] by blast
  moreover have "\<exists>y. reply B msg bytes n w = Some y" using reply_returns [OF assms(3) still] by blast
  ultimately show ?thesis using drain_doorbells_returns [OF assms(3)] by blast
qed

lemma rpmsg_calls_return_witness:
  "\<exists>w. snd (ready table_host (table_world [])) = w \<and> world_ok 0x1000 w \<and> tp_ready w \<and> (\<exists>y. tx_take table_host 0 w = Some y) \<and>
    (\<exists>y. poll table_host (endpoint_call table_host no_services) w = Some y)"
proof -
  obtain log where r: "ready table_host (table_world []) = (True, (table_world [])\<lparr>tp_ready := True, lk_log := log,
    tp_tx := \<lparr>vq_da = 0x072E0000, vq_num = 2, vq_mask = 1, vq_align = 4, vq_desc = 0x40020000, vq_avail = 0x40020020, vq_used = 0x4002002C, vq_last_avail_idx = 0, vq_bad_reads = 0\<rparr>,
    tp_rx := \<lparr>vq_da = 0x072E1000, vq_num = 2, vq_mask = 1, vq_align = 4, vq_desc = 0x40021000, vq_avail = 0x40021020, vq_used = 0x4002102C, vq_last_avail_idx = 0, vq_bad_reads = 0\<rparr>\<rparr>)"
    (is "_ = (True, ?w)") using table_ready by blast
  have "world_good 0x1000 (rpmsg_world_new 1 ())" by (rule world_new_good)
  then have "world_ok 0x1000 (table_world [])"
    by (simp add: world_good_def table_world_def world_ok_def rp_ok_def attach_def register_ep_def rpmsg_world_new_def transport_new_def
        rpmsg_transport.extend_def rpmsg_world.fields_def kMaxEndpoints_def)
  then have "world_ok 0x1000 ?w" using tx_framed_world [OF ready_framed(1) [OF r]] by (simp add: world_step_def)
  moreover have "mbox_drains table_host (\<lambda>h. 0)"
    by (simp add: mbox_drains_def table_host_def one_message_regs)
  moreover have "index_still table_host (tp_tx ?w) 0" "index_still table_host (tp_rx ?w) 1"
    by (simp_all add: index_still_def avail_idx_at_def table_host_def one_message_def)
  ultimately show ?thesis
    using rpmsg_calls_return [of "0x1000" ?w table_host "\<lambda>h. 0" 0 1 0 undefined undefined undefined no_services] r by simp
qed

section \<open>Packets through shared memory\<close>

text \<open>
  Memory that keeps what is written, byte by byte, beside the list of packets that the ring towards the
  application has accepted. Only the accesses of the endpoints to message payloads are at stake here.
\<close>

type_synonym memory = "(u32 \<Rightarrow> u8) \<times> tlp list"

definition memory_host :: "memory host" where
  "memory_host = \<lparr>ho_load = \<lambda>a n (m, q). (le_word (map (\<lambda>i. m (a + of_nat i)) [0..<n]), m, q),
     ho_store = \<lambda>a n v (m, q). (\<lambda>x. if unat (x - a) < n then le_bytes n v ! unat (x - a) else m x, q)\<rparr>"

definition memory_services :: "memory services" where
  "memory_services = \<lparr>sv_now_cycles = \<lambda>h. 0, sv_hz = 0, sv_ingress = Some (\<lambda>p (m, q). (True, m, q @ [p]))\<rparr>"

definition mem_get :: "u32 \<Rightarrow> nat \<Rightarrow> (u32 \<Rightarrow> u8) \<Rightarrow> u8 list" where
  "mem_get a n m = map (\<lambda>i. m (a + of_nat i)) [0..<n]"

definition mem_put :: "u32 \<Rightarrow> u8 list \<Rightarrow> (u32 \<Rightarrow> u8) \<Rightarrow> u32 \<Rightarrow> u8" where
  "mem_put a xs m x = (if unat (x - a) < length xs then xs ! unat (x - a) else m x)"

lemma length_mem_get [simp]: "length (mem_get a n m) = n"
  by (simp add: mem_get_def)

lemma unat_mem_offset:
  fixes a :: u32
  shows "n < 2 ^ 32 \<Longrightarrow> unat (a + of_nat n - a) = n"
  by (simp add: unat_of_nat)

lemma unat_minus_of_nat:
  assumes "0 < d" "d < 2 ^ 32"
  shows "unat (- of_nat d :: u32) = 2 ^ 32 - d"
proof -
  have "(of_nat (2 ^ 32 - d) :: u32) = of_nat (2 ^ 32) - of_nat d" using assms by (intro of_nat_diff) simp
  also have "(of_nat (2 ^ 32) :: u32) = 0" by simp
  finally have "- of_nat d = (of_nat (2 ^ 32 - d) :: u32)" by simp
  then have "unat (- of_nat d :: u32) = unat (of_nat (2 ^ 32 - d) :: u32)" by (simp only:)
  also have "\<dots> = 2 ^ 32 - d" by (rule unat_of_nat_small) (use assms in simp)
  finally show ?thesis .
qed

lemma byte_in_word [simp]: "(ucast (ucast (x :: u8) :: u64) :: u8) = x"
  by (rule bit_word_eqI) (simp add: bit_simps)

lemma mem_put_Cons: "Suc (length xs) < 2 ^ 32 \<Longrightarrow> mem_put (a + 1) xs (mem_put a [x] m) = mem_put a (x # xs) m"
proof
  fix y
  assume len: "Suc (length xs) < 2 ^ 32"
  show "mem_put (a + 1) xs (mem_put a [x] m) y = mem_put a (x # xs) m y"
  proof (cases "y = a")
    case True
    have "y - (a + 1) = - of_nat 1" using True by simp
    moreover have "unat (- of_nat 1 :: u32) = 2 ^ 32 - 1" by (rule unat_minus_of_nat) simp_all
    ultimately have "unat (y - (a + 1)) = 2 ^ 32 - 1" by (simp only:)
    then show ?thesis using len True by (simp add: mem_put_def)
  next
    case False
    then have nz: "y - a \<noteq> 0" by simp
    have "unat (y - a - 1) = unat (y - a) - 1" by (rule unat_minus_one [OF nz])
    moreover have "y - (a + 1) = y - a - 1" by simp
    ultimately have "unat (y - (a + 1)) = unat (y - a) - 1" by (simp only:)
    moreover have "unat (y - a) \<noteq> 0" using nz by (simp add: unat_eq_zero)
    ultimately show ?thesis by (cases "unat (y - a)") (simp_all add: mem_put_def)
  qed
qed

lemma mem_get_append: "mem_get a (n + k) m = mem_get a n m @ mem_get (a + of_nat n) k m"
proof -
  have "[0..<n + k] = [0..<n] @ map (\<lambda>i. n + i) [0..<k]"
    by (rule nth_equalityI) (auto simp: nth_append)
  then show ?thesis by (simp add: mem_get_def add.assoc)
qed

lemma mem_get_put_same: "length xs < 2 ^ 32 \<Longrightarrow> mem_get a (length xs) (mem_put a xs m) = xs"
  by (rule nth_equalityI) (auto simp: mem_get_def mem_put_def unat_of_nat)

lemma mem_get_put_before:
  assumes "n \<le> k" "k + length xs < 2 ^ 32"
  shows "mem_get a n (mem_put (a + of_nat k) xs m) = mem_get a n m"
proof (rule nth_equalityI)
  fix i
  assume "i < length (mem_get a n (mem_put (a + of_nat k) xs m))"
  then have i: "i < k" using assms(1) by simp
  have "a + of_nat i - (a + of_nat k) = - (of_nat (k - i) :: u32)" using i by (simp add: of_nat_diff)
  then have "unat (a + of_nat i - (a + of_nat k)) = 2 ^ 32 - (k - i)"
    using unat_minus_of_nat [of "k - i"] i assms(2) by (simp only:)
  then have "\<not> unat (a + of_nat i - (a + of_nat k)) < length xs" using assms(2) by simp
  then show "mem_get a n (mem_put (a + of_nat k) xs m) ! i = mem_get a n m ! i"
    using \<open>i < length _\<close> by (simp add: mem_get_def mem_put_def)
qed simp

lemma memory_byte_load:
  "hload memory_host 1 a w = (ucast (fst (lk_env w) a), w\<lparr>lk_log := lk_log w @ [Read a 1 (ucast (fst (lk_env w) a))]\<rparr>)"
  by (cases w) (simp add: hload_def memory_host_def split_def)

lemma memory_byte_store:
  "hstore memory_host 1 a (ucast (x :: u8)) w =
    w\<lparr>lk_env := (mem_put a [x] (fst (lk_env w)), snd (lk_env w)), lk_log := lk_log w @ [Write a 1 (ucast x)]\<rparr>"
proof -
  have "unat (y - a) = 0 \<longleftrightarrow> y = a" for y :: u32 by (simp add: unat_eq_zero)
  then have "(\<lambda>y. if y = a then le_bytes (Suc 0) (ucast x :: u64) ! unat (y - a) else m y) = mem_put a [x] m" for m
    by (auto simp: mem_put_def fun_eq_iff)
  then show ?thesis by (simp add: hstore_def memory_host_def split_def)
qed

lemma memory_load: "\<exists>log. load_bytes memory_host a n w = (mem_get a n (fst (lk_env w)), w\<lparr>lk_log := log\<rparr>)"
  for w :: "(memory, 'z) rpmsg_transport_scheme"
proof (induction n arbitrary: a w)
  case 0
  show ?case by (intro exI [of _ "lk_log w"]) (simp add: mem_get_def)
next
  case (Suc n)
  have "mem_get a (Suc n) m = m a # mem_get (a + 1) n m" for m
    using mem_get_append [of a 1 n m] by (simp add: mem_get_def)
  then show ?case using Suc [of "a + 1" "w\<lparr>lk_log := lk_log w @ [Read a 1 (ucast (fst (lk_env w) a))]\<rparr>"]
    by (fastforce simp: memory_byte_load [simplified])
qed

lemma memory_store:
  "length xs < 2 ^ 32 \<Longrightarrow> \<exists>log. store_bytes memory_host a xs w = w\<lparr>lk_env := (mem_put a xs (fst (lk_env w)), snd (lk_env w)), lk_log := log\<rparr>"
proof (induction xs arbitrary: a w)
  case Nil
  have "mem_put a [] m = m" for m by (simp add: mem_put_def fun_eq_iff)
  then show ?case by (intro exI [of _ "lk_log w"]) simp
next
  case (Cons x xs)
  let ?w = "w\<lparr>lk_env := (mem_put a [x] (fst (lk_env w)), snd (lk_env w)), lk_log := lk_log w @ [Write a 1 (ucast x)]\<rparr>"
  obtain log where "store_bytes memory_host (a + 1) xs ?w =
    ?w\<lparr>lk_env := (mem_put (a + 1) xs (fst (lk_env ?w)), snd (lk_env ?w)), lk_log := log\<rparr>"
    using Cons.IH [of "a + 1" ?w] Cons.prems by auto
  then show ?case using mem_put_Cons [of xs a x] Cons.prems by (auto simp: memory_byte_store [simplified])
qed

text \<open>Packets sent one after another, as long as each is accepted.\<close>

fun tlp_send_all :: "'h host \<Rightarrow> tlp list \<Rightarrow> 'h rpmsg_world \<Rightarrow> (bool \<times> 'h rpmsg_world) option" where
  "tlp_send_all B [] w = Some (True, w)"
| "tlp_send_all B (p # ps) w = do { (ok, w) \<leftarrow> tlp_send B p w; if ok then tlp_send_all B ps w else Some (False, w) }"

lemma tlp_send_open:
  fixes w :: "memory rpmsg_world"
  assumes "wf_tlp p" "tb_size (le_cur (rw_tlp w)) \<noteq> 0" "(le_count (rw_tlp w) + 1) * kTlpBytes \<le> unat (tb_size (le_cur (rw_tlp w)))"
  defines "a \<equiv> tb_data (le_cur (rw_tlp w)) + of_nat (le_count (rw_tlp w) * kTlpBytes)"
  obtains log where "tlp_send memory_host p w = Some (True, w\<lparr>lk_log := log,
    lk_env := (mem_put a (tlp_bytes p) (mem_put a (replicate kTlpBytes 0) (fst (lk_env w))), snd (lk_env w)),
    rw_tlp := (rw_tlp w)\<lparr>le_count := le_count (rw_tlp w) + 1\<rparr>\<rparr>)"
proof -
  let ?w1 = "upd_tlp (\<lambda>e. e\<lparr>le_count := le_count (rw_tlp w) + 1\<rparr>) w"
  obtain l1 where l1: "store_bytes memory_host a (replicate kTlpBytes 0) ?w1 =
      ?w1\<lparr>lk_env := (mem_put a (replicate kTlpBytes 0) (fst (lk_env ?w1)), snd (lk_env ?w1)), lk_log := l1\<rparr>" (is "_ = ?w2")
    using memory_store [of "replicate kTlpBytes 0" a ?w1] by (auto simp: kTlpBytes_def)
  obtain l2 where l2: "store_bytes memory_host a (tlp_bytes p) ?w2 =
      ?w2\<lparr>lk_env := (mem_put a (tlp_bytes p) (fst (lk_env ?w2)), snd (lk_env ?w2)), lk_log := l2\<rparr>"
    using memory_store [of "tlp_bytes p" a ?w2] assms(1) by auto
  have "tlp_emplace memory_host w = Some (Some a, ?w2)"
    using assms(2,3) l1 unfolding a_def by (simp add: tlp_emplace_def tlp_open_def Let_def not_less)
  moreover have "tlp_store (replicate kTlpBytes 0) p = tlp_bytes p" using assms(1) by (simp add: tlp_store_eq kTlpBytes_def)
  ultimately show ?thesis using that [of l2] l2 by (simp add: tlp_send_def)
qed

lemma tlp_send_batch:
  fixes w :: "memory rpmsg_world"
  assumes "\<forall>p \<in> set ps. wf_tlp p" "tb_size (le_cur (rw_tlp w)) \<noteq> 0" "(le_count (rw_tlp w) + length ps) * kTlpBytes \<le> unat (tb_size (le_cur (rw_tlp w)))"
  shows "\<exists>w'. tlp_send_all memory_host ps w = Some (True, w') \<and> rw_tlp w' = (rw_tlp w)\<lparr>le_count := le_count (rw_tlp w) + length ps\<rparr> \<and>
    snd (lk_env w') = snd (lk_env w) \<and>
    (let d = tb_data (le_cur (rw_tlp w)); n = le_count (rw_tlp w) * kTlpBytes in
      mem_get d (n + length ps * kTlpBytes) (fst (lk_env w')) = mem_get d n (fst (lk_env w)) @ concat (map tlp_bytes ps))"
  using assms
proof (induction ps arbitrary: w)
  case (Cons p ps)
  define e where "e = rw_tlp w"
  define d where "d = tb_data (le_cur e)"
  define n where "n = le_count e * kTlpBytes"
  define m where "m = mem_put (d + of_nat n) (replicate kTlpBytes 0) (fst (lk_env w))"
  have room: "(le_count (rw_tlp w) + 1) * kTlpBytes \<le> unat (tb_size (le_cur (rw_tlp w)))"
    using Cons.prems(3) by (auto simp: kTlpBytes_def)
  obtain log where s: "tlp_send memory_host p w = Some (True, w\<lparr>lk_log := log,
      lk_env := (mem_put (d + of_nat n) (tlp_bytes p) m, snd (lk_env w)), rw_tlp := e\<lparr>le_count := le_count e + 1\<rparr>\<rparr>)" (is "_ = Some (True, ?w1)")
    using tlp_send_open [OF _ Cons.prems(2) room, of p] Cons.prems(1) unfolding e_def d_def n_def m_def by auto
  obtain w' where w': "tlp_send_all memory_host ps ?w1 = Some (True, w')" "rw_tlp w' = e\<lparr>le_count := le_count e + 1 + length ps\<rparr>"
      "snd (lk_env w') = snd (lk_env w)"
      "mem_get d (n + kTlpBytes + length ps * kTlpBytes) (fst (lk_env w')) = mem_get d (n + kTlpBytes) (fst (lk_env ?w1)) @ concat (map tlp_bytes ps)"
    using Cons.IH [of ?w1] Cons.prems by (auto simp: e_def d_def n_def Let_def algebra_simps)
  have len: "length (tlp_bytes p) = kTlpBytes" using Cons.prems(1) by (simp add: kTlpBytes_def)
  have "n + kTlpBytes \<le> unat (tb_size (le_cur e))" using room by (simp add: e_def n_def)
  then have small: "n + kTlpBytes < 2 ^ 32" using unsigned_less [where 'a = nat, of "tb_size (le_cur e)"] by simp
  have "mem_get d (n + kTlpBytes) (fst (lk_env ?w1)) = mem_get d n (fst (lk_env w)) @ tlp_bytes p"
    using mem_get_put_same [of "tlp_bytes p" "d + of_nat n" m] small mem_get_put_before [of n n "tlp_bytes p" d m]
      mem_get_put_before [of n n "replicate kTlpBytes 0" d "fst (lk_env w)"]
    by (simp add: mem_get_append len m_def)
  then show ?case using s w' by (auto simp: e_def d_def n_def Let_def algebra_simps)
qed (simp add: mem_get_def Let_def)

lemma tlp_unpack_memory:
  fixes w :: "memory rpmsg_world"
  assumes "mem_get a (length ps * kTlpBytes) (fst (lk_env w)) = concat (map tlp_bytes ps)" "\<forall>p \<in> set ps. wf_tlp p"
  shows "\<exists>log. tlp_unpack memory_host memory_services a (length ps) w = w\<lparr>lk_env := (fst (lk_env w), snd (lk_env w) @ ps), lk_log := log\<rparr>"
  using assms
proof (induction ps arbitrary: a w)
  case Nil
  show ?case by (intro exI [of _ "lk_log w"]) simp
next
  case (Cons p ps)
  have len: "length (tlp_bytes p) = kTlpBytes" using Cons.prems(2) by (simp add: kTlpBytes_def)
  have "mem_get a kTlpBytes (fst (lk_env w)) = tlp_bytes p"
    "mem_get (a + of_nat kTlpBytes) (length ps * kTlpBytes) (fst (lk_env w)) = concat (map tlp_bytes ps)"
    using Cons.prems(1) len by (simp_all add: mem_get_append)
  note m = this
  obtain log where l: "load_bytes memory_host a kTlpBytes w = (tlp_bytes p, w\<lparr>lk_log := log\<rparr>)" using memory_load [of a kTlpBytes w] m(1) by auto
  have p: "tlp_load tlp_zero (tlp_bytes p) = p" using Cons.prems(2) by (simp add: tlp_load_eq)
  have "tlp_push memory_services p (w\<lparr>lk_log := log\<rparr>) = w\<lparr>lk_log := log, lk_env := (fst (lk_env w), snd (lk_env w) @ [p])\<rparr>"
    by (simp add: tlp_push_def memory_services_def split_def)
  then show ?case using Cons.IH [of "a + of_nat kTlpBytes" "w\<lparr>lk_log := log, lk_env := (fst (lk_env w), snd (lk_env w) @ [p])\<rparr>"] m(2) Cons.prems(2)
    by (auto simp: l p)
qed

text \<open>
  (C20) Packets sent into an open batch that has room for them arrive in order and unchanged: when the bytes
  of the batch come as a message from the other side, the endpoint gives exactly these packets, in this
  order, to its ring, and counts none as dropped or rejected.
\<close>

theorem tlp_batch_roundtrip:
  fixes w :: "memory rpmsg_world"
  assumes "\<forall>p \<in> set ps. wf_tlp p" "tb_size (le_cur (rw_tlp w)) \<noteq> 0" "le_count (rw_tlp w) = 0"
    and "length ps * kTlpBytes \<le> unat (tb_size (le_cur (rw_tlp w)))" "length ps * kTlpBytes < 2 ^ 16" "msg = \<lparr>rm_src = s, rm_dst = d, rm_len = of_nat (length ps * kTlpBytes),
      rm_data = tb_data (le_cur (rw_tlp w)), rm_desc_idx = i\<rparr>"
  shows "\<exists>w' w''. tlp_send_all memory_host ps w = Some (True, w') \<and> tlp_on_message memory_host memory_services msg w' = w'' \<and>
    snd (lk_env w'') = snd (lk_env w) @ ps \<and> le_rx_dropped (rw_tlp w'') = le_rx_dropped (rw_tlp w) \<and>
    le_rx_rejected (rw_tlp w'') = le_rx_rejected (rw_tlp w) \<and> le_tx_dropped (rw_tlp w'') = le_tx_dropped (rw_tlp w)"
proof -
  let ?d = "tb_data (le_cur (rw_tlp w))"
  obtain w' where s: "tlp_send_all memory_host ps w = Some (True, w')" "rw_tlp w' = (rw_tlp w)\<lparr>le_count := length ps\<rparr>"
      "snd (lk_env w') = snd (lk_env w)" "mem_get ?d (length ps * kTlpBytes) (fst (lk_env w')) = concat (map tlp_bytes ps)"
    using tlp_send_batch [OF assms(1,2)] assms(3,4) by (auto simp: Let_def mem_get_def)
  obtain log where u: "tlp_unpack memory_host memory_services ?d (length ps) w' = w'\<lparr>lk_env := (fst (lk_env w'), snd (lk_env w') @ ps), lk_log := log\<rparr>"
    using tlp_unpack_memory [OF s(4) assms(1)] by blast
  have "unat (of_nat (length ps * kTlpBytes) :: u16) = length ps * kTlpBytes" by (rule unat_of_nat_small) (use assms(5) in simp)
  then have "tlp_on_message memory_host memory_services msg w' = tlp_unpack memory_host memory_services ?d (length ps) w'"
    by (simp add: tlp_on_message_def assms(6) kTlpBytes_def)
  then show ?thesis using s(1-3) u by auto
qed

lemma tlp_batch_roundtrip_witness:
  "\<exists>w' w''. tlp_send_all memory_host [tlp_zero\<lparr>wtag := 7\<rparr>, tlp_zero\<lparr>wtag := 9\<rparr>]
      ((rpmsg_world_new 1 (\<lambda>a. 0, []))\<lparr>rw_tlp := (tlp_endpoint_new [])\<lparr>le_cur := \<lparr>tb_data = 0x48001010, tb_size = 496, tb_desc_idx = 3\<rparr>\<rparr>\<rparr>) = Some (True, w') \<and>
    tlp_on_message memory_host memory_services \<lparr>rm_src = 1, rm_dst = 1024, rm_len = 128, rm_data = 0x48001010, rm_desc_idx = 3\<rparr> w' = w'' \<and>
    snd (lk_env w'') = [tlp_zero\<lparr>wtag := 7\<rparr>, tlp_zero\<lparr>wtag := 9\<rparr>] \<and> le_rx_dropped (rw_tlp w'') = 0"
  using tlp_batch_roundtrip [of "[tlp_zero\<lparr>wtag := 7\<rparr>, tlp_zero\<lparr>wtag := 9\<rparr>]"
      "(rpmsg_world_new 1 (\<lambda>a. 0, []))\<lparr>rw_tlp := (tlp_endpoint_new [])\<lparr>le_cur := \<lparr>tb_data = 0x48001010, tb_size = 496, tb_desc_idx = 3\<rparr>\<rparr>\<rparr>"
      "\<lparr>rm_src = 1, rm_dst = 1024, rm_len = 128, rm_data = 0x48001010, rm_desc_idx = 3\<rparr>" 1 1024 3]
  by (auto simp: tlp_endpoint_new_def kTlpBytes_def rpmsg_world_new_def transport_new_def rpmsg_transport.extend_def rpmsg_world.fields_def)

section \<open>The state is well formed\<close>

text \<open>
  (C18) After any calls, whatever the host has written: a transport that calls itself ready has two mapped
  rings, each with a power of two of descriptors and wholly inside a pool; a buffer that an endpoint
  still holds lies inside a pool with its header; and the batch of the packet channel fits its buffer.
\<close>

theorem rpmsg_state_well_formed:
  assumes "rpmsg_run B S rsc xs (rpmsg_world_new ch env) = Some w" "\<forall>p. Op_tlp_send p \<in> set xs \<longrightarrow> wf_tlp p"
  shows "(tp_ready w \<longrightarrow> tp_rsc w = rsc \<and> vq_mapped (tp_tx w) \<and> vq_mapped (tp_rx w)) \<and> buf_ok (te_cur (rw_trace w)) \<and> batch_ok (rw_tlp w)"
  using rpmsg_run_good [OF assms(1) world_new_good assms(2)] by (auto simp: world_good_def world_ok_def rp_ok_def)

lemma rpmsg_state_well_formed_witness:
  "\<exists>w. rpmsg_run table_host no_services 0x1000 [Op_init, Op_attach 1024, Op_is_rx_pending] (rpmsg_world_new 1 ()) = Some w \<and>
    tp_ready w \<and> vq_mapped (tp_tx w) \<and> vq_mapped (tp_rx w) \<and> vq_num (tp_rx w) = 2"
proof -
  obtain log where i: "rpmsg_reset table_host 0x1000 (rpmsg_world_new 1 ()) = Some ((rpmsg_world_new 1 ())\<lparr>tp_rsc := 0x1000, lk_log := log\<rparr>)"
    using table_init by blast
  define w where "w = snd (is_rx_pending table_host (table_world log))"
  have run: "rpmsg_run table_host no_services 0x1000 [Op_init, Op_attach 1024, Op_is_rx_pending] (rpmsg_world_new 1 ()) = Some w"
    by (simp add: i table_world_def w_def)
  have "tp_ready w \<and> vq_num (tp_rx w) = 2"
    using table_ready [of log] by (auto simp: w_def is_rx_pending_def table_simps)
  with rpmsg_state_well_formed [OF run] run show ?thesis by simp
qed

end
