(* ===== verification/Rpmsg_Wake.thy ===== *)
theory Rpmsg_Wake
  imports Prelude "HOL-Library.Multiset"
begin

text \<open>
  Waking on a message from Linux: the awaiter, the doorbell interrupt and its consumers of
  \<open>targets/allwinner_e906/src/rpmsg.cpp\<close>, with the parts of \<open>src/platform.cpp\<close> that poll and sleep. The
  main loop is cut at its accesses to what the interrupt or Linux also accesses; the interrupt, which runs
  on the same hart, is one step, and Linux takes its own. The driver is ready, so \<open>is_rx_pending\<close> and
  \<open>enable_rx_kick\<close> reach the ring; \<open>poll\<close> appears as what it does to the message box FIFOs and the ring.
\<close>

section \<open>State\<close>

text \<open>
  Where the main loop stands. The handle of the arming phases is the coroutine in \<open>await_suspend\<close>, or
  null when \<open>platform_poll_network\<close> arms; the flag of the polling phases says whether that function polls
  or \<open>await_resume\<close>. The stores of \<open>enable_rx_irq\<close> keep what was loaded of the other channel's bit.
\<close>

datatype wake_pc = Idle | Cas handle | Kicks_on handle | Arm_load handle | Arm_swap handle | Arm_clear handle
  | En0_load handle | En0_store handle bool | En1_load handle | En1_store handle bool
  | Look handle | Withdraw handle | Resume_cas handle
  | Take_load | Take_swap | Drain0 bool | Drain1 bool | Ring bool
  | Sleep_check | Sleep_kicks | Sleep_look | Asleep

text \<open>
  Linux posts a descriptor, then looks whether it must kick, then kicks on one of the channels 0 and 1:
  the documented order of a virtio driver.
\<close>

datatype host_pc = H_idle | H_check | H_kick

text \<open>
  \<open>wk_new\<close> is how far \<open>avail.idx\<close> is ahead of \<open>last_avail_idx\<close>, \<open>wk_no_notify\<close> the flag in \<open>used.flags\<close>,
  \<open>wk_en0\<close> and \<open>wk_en1\<close> the bits of the interrupt enable register, \<open>wk_fifo0\<close> and \<open>wk_fifo1\<close> the filling
  of the FIFOs. \<open>wk_ready\<close> is the ready queue as far as it concerns the waiters, and \<open>wk_suspended\<close> lists
  the coroutines that \<open>await_suspend\<close> left suspended. \<open>wk_started\<close>: \<open>platform_poll_network\<close> has run once.
\<close>

record wake_world =
  wk_pc :: wake_pc
  wk_host :: host_pc
  wk_waiter :: handle
  wk_doorbell :: bool
  wk_armed :: bool
  wk_irqs :: u32
  wk_en0 :: bool
  wk_en1 :: bool
  wk_fifo0 :: nat
  wk_fifo1 :: nat
  wk_no_notify :: bool
  wk_new :: nat
  wk_ready :: "handle list"
  wk_suspended :: "handle list"
  wk_started :: bool

definition wake_new :: "bool \<Rightarrow> wake_world" where
  "wake_new no_notify = \<lparr>wk_pc = Idle, wk_host = H_idle, wk_waiter = null_handle, wk_doorbell = False, wk_armed = False, wk_irqs = 0,
     wk_en0 = False, wk_en1 = False, wk_fifo0 = 0, wk_fifo1 = 0, wk_no_notify = no_notify, wk_new = 0, wk_ready = [],
     wk_suspended = [], wk_started = False\<rparr>"

section \<open>Steps\<close>

text \<open>\<open>fc_msgbox_doorbell_isr\<close>. It also ends the sleep of the core.\<close>

definition irq_line :: "wake_world \<Rightarrow> bool" where
  "irq_line w = (wk_en0 w \<and> wk_fifo0 w > 0 \<or> wk_en1 w \<and> wk_fifo1 w > 0)"

definition doorbell_isr :: "wake_world \<Rightarrow> wake_world" where
  "doorbell_isr w =
    (let w = w\<lparr>wk_en0 := False, wk_en1 := False, wk_armed := False, wk_irqs := wk_irqs w + 1, wk_doorbell := True\<rparr>; h = wk_waiter w in
     (if h \<noteq> null_handle then w\<lparr>wk_waiter := null_handle, wk_ready := wk_ready w @ [h]\<rparr> else w)\<lparr>wk_pc := if wk_pc w = Asleep then Idle else wk_pc w\<rparr>)"

text \<open>\<open>rpmsg_arm_doorbell\<close>, one access a step; behind it \<open>await_suspend\<close> looks at the ring again.\<close>

definition arm_done :: "handle \<Rightarrow> wake_world \<Rightarrow> wake_world" where
  "arm_done h w = (if h = null_handle then w\<lparr>wk_pc := Idle, wk_started := True\<rparr> else w\<lparr>wk_pc := Look h\<rparr>)"

definition arm_step :: "wake_pc \<Rightarrow> wake_world \<Rightarrow> wake_world" where
  "arm_step pc w = (case pc of
     Arm_load h \<Rightarrow> if wk_armed w then arm_done h w else w\<lparr>wk_pc := Arm_swap h\<rparr>
   | Arm_swap h \<Rightarrow> if wk_armed w then arm_done h w else w\<lparr>wk_armed := True, wk_pc := Arm_clear h\<rparr>
   | Arm_clear h \<Rightarrow> w\<lparr>wk_pc := En0_load h\<rparr>
   | En0_load h \<Rightarrow> w\<lparr>wk_pc := En0_store h (wk_en1 w)\<rparr>
   | En0_store h b \<Rightarrow> w\<lparr>wk_en0 := True, wk_en1 := b, wk_pc := En1_load h\<rparr>
   | En1_load h \<Rightarrow> w\<lparr>wk_pc := En1_store h (wk_en0 w)\<rparr>
   | En1_store h b \<Rightarrow> arm_done h (w\<lparr>wk_en0 := b, wk_en1 := True\<rparr>)
   | _ \<Rightarrow> w)"

text \<open>
  \<open>AsyncRxAwaiter\<close>. Where \<open>await_suspend\<close> returns false the coroutine goes on with \<open>await_resume\<close>, which
  polls; where it returns true, the coroutine is suspended and the main loop goes on.
\<close>

definition await_step :: "wake_pc \<Rightarrow> wake_world \<Rightarrow> wake_world" where
  "await_step pc w = (case pc of
     Cas h \<Rightarrow> if wk_waiter w = null_handle then w\<lparr>wk_waiter := h, wk_pc := Kicks_on h\<rparr> else w\<lparr>wk_pc := Drain0 False\<rparr>
   | Kicks_on h \<Rightarrow> w\<lparr>wk_no_notify := False, wk_pc := Arm_load h\<rparr>
   | Look h \<Rightarrow> if wk_new w > 0 then w\<lparr>wk_pc := Withdraw h\<rparr> else w\<lparr>wk_suspended := wk_suspended w @ [h], wk_pc := Idle\<rparr>
   | Withdraw h \<Rightarrow> if wk_waiter w = h then w\<lparr>wk_waiter := null_handle, wk_pc := Drain0 False\<rparr>
       else w\<lparr>wk_suspended := wk_suspended w @ [h], wk_pc := Idle\<rparr>
   | Resume_cas h \<Rightarrow> (if wk_waiter w = h then w\<lparr>wk_waiter := null_handle\<rparr> else w)\<lparr>wk_pc := Drain0 False\<rparr>
   | _ \<Rightarrow> w)"

text \<open>
  \<open>platform_poll_network\<close>: \<open>rpmsg_take_doorbell\<close>, then \<open>poll\<close> if it says so, then \<open>rpmsg_arm_doorbell\<close>.
  \<open>poll\<close> empties the two FIFOs, clears the flag and consumes the ring until it finds nothing.
\<close>

definition net_step :: "wake_pc \<Rightarrow> wake_world \<Rightarrow> wake_world" where
  "net_step pc w = (case pc of
     Take_load \<Rightarrow> w\<lparr>wk_pc := if wk_doorbell w then Take_swap else Arm_load null_handle\<rparr>
   | Take_swap \<Rightarrow> w\<lparr>wk_doorbell := False, wk_pc := if wk_doorbell w then Drain0 True else Arm_load null_handle\<rparr>
   | Drain0 net \<Rightarrow> if wk_fifo0 w > 0 then w\<lparr>wk_fifo0 := wk_fifo0 w - 1\<rparr> else w\<lparr>wk_pc := Drain1 net\<rparr>
   | Drain1 net \<Rightarrow> if wk_fifo1 w > 0 then w\<lparr>wk_fifo1 := wk_fifo1 w - 1\<rparr> else w\<lparr>wk_no_notify := False, wk_pc := Ring net\<rparr>
   | Ring net \<Rightarrow> if wk_new w > 0 then w\<lparr>wk_new := wk_new w - 1\<rparr> else w\<lparr>wk_pc := if net then Arm_load null_handle else Idle\<rparr>
   | _ \<Rightarrow> w)"

text \<open>\<open>platform_idle_wait\<close> with \<open>rpmsg_pending_before_sleep\<close>; interrupts are masked until the sleep.\<close>

definition sleep_step :: "wake_pc \<Rightarrow> wake_world \<Rightarrow> wake_world" where
  "sleep_step pc w = (case pc of
     Sleep_check \<Rightarrow> w\<lparr>wk_pc := if wk_ready w \<noteq> [] \<or> wk_doorbell w then Idle else Sleep_kicks\<rparr>
   | Sleep_kicks \<Rightarrow> w\<lparr>wk_no_notify := False, wk_pc := Sleep_look\<rparr>
   | Sleep_look \<Rightarrow> if wk_new w > 0 then w\<lparr>wk_doorbell := True, wk_pc := Idle\<rparr> else w\<lparr>wk_pc := Asleep\<rparr>
   | _ \<Rightarrow> w)"

definition main_step :: "wake_world \<Rightarrow> wake_world" where
  "main_step w = (case wk_pc w of
     Cas h \<Rightarrow> await_step (wk_pc w) w | Kicks_on h \<Rightarrow> await_step (wk_pc w) w | Look h \<Rightarrow> await_step (wk_pc w) w
   | Withdraw h \<Rightarrow> await_step (wk_pc w) w | Resume_cas h \<Rightarrow> await_step (wk_pc w) w
   | Arm_load h \<Rightarrow> arm_step (wk_pc w) w | Arm_swap h \<Rightarrow> arm_step (wk_pc w) w | Arm_clear h \<Rightarrow> arm_step (wk_pc w) w
   | En0_load h \<Rightarrow> arm_step (wk_pc w) w | En0_store h b \<Rightarrow> arm_step (wk_pc w) w | En1_load h \<Rightarrow> arm_step (wk_pc w) w
   | En1_store h b \<Rightarrow> arm_step (wk_pc w) w
   | Take_load \<Rightarrow> net_step (wk_pc w) w | Take_swap \<Rightarrow> net_step (wk_pc w) w | Drain0 b \<Rightarrow> net_step (wk_pc w) w
   | Drain1 b \<Rightarrow> net_step (wk_pc w) w | Ring b \<Rightarrow> net_step (wk_pc w) w
   | Sleep_check \<Rightarrow> sleep_step (wk_pc w) w | Sleep_kicks \<Rightarrow> sleep_step (wk_pc w) w | Sleep_look \<Rightarrow> sleep_step (wk_pc w) w
   | Asleep \<Rightarrow> w\<lparr>wk_pc := Idle\<rparr>
   | Idle \<Rightarrow> w)"

text \<open>
  What may happen: a step of the main loop; from its top, a coroutine that is not suspended awaits a
  message (with \<open>await_ready\<close> false), a posted one is resumed, the network is polled, the loop sleeps (it
  has polled before), or other code stops the kicks while nobody waits; the interrupt, when its line is
  up and interrupts are on; and Linux.
\<close>

inductive wake_step :: "wake_world \<Rightarrow> wake_world \<Rightarrow> bool" where
  main: "wk_pc w \<noteq> Idle \<Longrightarrow> wake_step w (main_step w)"
| await: "wk_pc w = Idle \<Longrightarrow> h \<noteq> null_handle \<Longrightarrow> h \<notin> set (wk_suspended w) \<Longrightarrow> wake_step w (w\<lparr>wk_pc := Cas h\<rparr>)"
| resume: "wk_pc w = Idle \<Longrightarrow> wk_ready w = h # hs \<Longrightarrow>
    wake_step w (w\<lparr>wk_ready := hs, wk_suspended := remove1 h (wk_suspended w), wk_pc := Resume_cas h\<rparr>)"
| network: "wk_pc w = Idle \<Longrightarrow> wake_step w (w\<lparr>wk_pc := Take_load\<rparr>)"
| sleep: "wk_pc w = Idle \<Longrightarrow> wk_started w \<Longrightarrow> wake_step w (w\<lparr>wk_pc := Sleep_check\<rparr>)"
| suppress: "wk_pc w = Idle \<Longrightarrow> wk_waiter w = null_handle \<Longrightarrow> wake_step w (w\<lparr>wk_no_notify := True\<rparr>)"
| interrupt: "irq_line w \<Longrightarrow> wk_pc w \<notin> {Sleep_check, Sleep_kicks, Sleep_look} \<Longrightarrow> wake_step w (doorbell_isr w)"
| post: "wk_host w = H_idle \<Longrightarrow> wake_step w (w\<lparr>wk_new := wk_new w + 1, wk_host := H_check\<rparr>)"
| check: "wk_host w = H_check \<Longrightarrow> wake_step w (w\<lparr>wk_host := if wk_no_notify w then H_idle else H_kick\<rparr>)"
| kick0: "wk_host w = H_kick \<Longrightarrow> wake_step w (w\<lparr>wk_fifo0 := wk_fifo0 w + 1, wk_host := H_idle\<rparr>)"
| kick1: "wk_host w = H_kick \<Longrightarrow> wake_step w (w\<lparr>wk_fifo1 := wk_fifo1 w + 1, wk_host := H_idle\<rparr>)"

section \<open>The invariant\<close>

text \<open>The coroutine that is inside \<open>await_suspend\<close> with the wake slot taken, and whether it has yet to arm the doorbell.\<close>

fun own :: "wake_pc \<Rightarrow> handle" where
  "own (Kicks_on h) = h"
| "own (Arm_load h) = h"
| "own (Arm_swap h) = h"
| "own (Arm_clear h) = h"
| "own (En0_load h) = h"
| "own (En0_store h b) = h"
| "own (En1_load h) = h"
| "own (En1_store h b) = h"
| "own (Look h) = h"
| "own (Withdraw h) = h"
| "own pc = null_handle"

fun to_arm :: "wake_pc \<Rightarrow> bool" where
  "to_arm (Kicks_on h) = True"
| "to_arm (Arm_load h) = (h \<noteq> null_handle)"
| "to_arm (Arm_swap h) = (h \<noteq> null_handle)"
| "to_arm pc = False"

fun enabled_by :: "wake_pc \<Rightarrow> wake_world \<Rightarrow> bool" where
  "enabled_by (Arm_clear h) w = True"
| "enabled_by (En0_load h) w = True"
| "enabled_by (En0_store h b) w = True"
| "enabled_by (En1_load h) w = wk_en0 w"
| "enabled_by (En1_store h b) w = b"
| "enabled_by pc w = (wk_en0 w \<and> wk_en1 w)"

text \<open>Linux will kick, or has kicked and no one has read the FIFO.\<close>

definition kick_coming :: "wake_world \<Rightarrow> bool" where
  "kick_coming w = (wk_host w = H_kick \<or> wk_host w = H_check \<and> \<not> wk_no_notify w \<or> wk_fifo0 w > 0 \<or> wk_fifo1 w > 0)"

definition polling :: "wake_pc \<Rightarrow> bool" where
  "polling pc = (\<exists>b. pc = Drain0 b \<or> pc = Drain1 b \<or> pc = Ring b)"

definition arming :: "wake_pc \<Rightarrow> bool" where
  "arming pc = (\<exists>h b. pc = Arm_clear h \<or> pc = En0_load h \<or> pc = En0_store h b \<or> pc = En1_load h \<or> pc = En1_store h b)"

definition armed_ok :: "wake_world \<Rightarrow> bool" where
  "armed_ok w = ((wk_armed w \<longrightarrow> enabled_by (wk_pc w) w) \<and> (wk_waiter w \<noteq> null_handle \<longrightarrow> wk_armed w \<or> to_arm (wk_pc w)) \<and>
     (arming (wk_pc w) \<longrightarrow> wk_doorbell w \<or> wk_armed w) \<and>
     (wk_started w \<longrightarrow> wk_doorbell w \<or> wk_armed w \<or> wk_pc w \<in> {Drain0 True, Drain1 True, Ring True, Arm_load null_handle, Arm_swap null_handle}))"

definition sleep_ok :: "wake_world \<Rightarrow> bool" where
  "sleep_ok w = ((wk_pc w \<in> {Sleep_check, Sleep_kicks, Sleep_look} \<longrightarrow> wk_started w) \<and> (wk_pc w \<in> {Sleep_kicks, Sleep_look} \<longrightarrow> \<not> wk_doorbell w) \<and>
     (wk_pc w \<in> {Sleep_look, Asleep} \<longrightarrow> \<not> wk_no_notify w) \<and> (wk_pc w = Asleep \<longrightarrow> wk_armed w))"

definition kick_ok :: "wake_world \<Rightarrow> bool" where
  "kick_ok w = ((wk_waiter w \<noteq> null_handle \<and> (\<forall>h. wk_pc w \<noteq> Kicks_on h) \<longrightarrow> \<not> wk_no_notify w) \<and>
     (wk_waiter w \<noteq> null_handle \<and> own (wk_pc w) = null_handle \<and> \<not> polling (wk_pc w) \<or> wk_pc w = Asleep \<longrightarrow> wk_new w > 0 \<longrightarrow> kick_coming w))"

definition slot_list :: "wake_world \<Rightarrow> handle list" where
  "slot_list w = (if wk_waiter w = null_handle then [] else [wk_waiter w])"

definition own_list :: "wake_world \<Rightarrow> handle list" where
  "own_list w = (if own (wk_pc w) = null_handle then [] else [own (wk_pc w)])"

definition waiters_ok :: "wake_world \<Rightarrow> bool" where
  "waiters_ok w = (mset (slot_list w @ wk_ready w) = mset (wk_suspended w @ own_list w) \<and> distinct (wk_suspended w @ own_list w) \<and>
     null_handle \<notin> set (wk_suspended w) \<and> (own (wk_pc w) \<noteq> null_handle \<longrightarrow> wk_waiter w \<in> {null_handle, own (wk_pc w)}) \<and>
     (\<forall>h. wk_pc w = Cas h \<or> wk_pc w = Kicks_on h \<or> wk_pc w = Look h \<or> wk_pc w = Withdraw h \<longrightarrow> h \<noteq> null_handle) \<and>
     (\<forall>h. wk_pc w = Cas h \<longrightarrow> h \<notin> set (wk_suspended w)) \<and> (\<forall>h. wk_pc w = Resume_cas h \<longrightarrow> h \<notin> set (wk_suspended w) \<and> h \<noteq> null_handle))"

definition wake_ok :: "wake_world \<Rightarrow> bool" where
  "wake_ok w = (armed_ok w \<and> sleep_ok w \<and> kick_ok w \<and> waiters_ok w)"

lemmas step_defs = main_step_def await_step_def arm_step_def net_step_def sleep_step_def arm_done_def doorbell_isr_def Let_def

lemma wake_new_ok: "wake_ok (wake_new b)"
  by (simp add: wake_ok_def wake_new_def armed_ok_def sleep_ok_def kick_ok_def waiters_ok_def slot_list_def own_list_def arming_def polling_def)

lemma armed_ok_main: "wake_ok w \<Longrightarrow> armed_ok (main_step w)"
  unfolding wake_ok_def armed_ok_def sleep_ok_def kick_ok_def waiters_ok_def
  by (cases "wk_pc w") (auto simp: step_defs arming_def)

lemma sleep_ok_main: "wake_ok w \<Longrightarrow> sleep_ok (main_step w)"
  unfolding wake_ok_def armed_ok_def sleep_ok_def
  by (cases "wk_pc w") (auto simp: step_defs)

lemma kick_ok_main:
  assumes "wake_ok w"
  shows "kick_ok (main_step w)"
proof -
  have own: "own (wk_pc w) \<noteq> null_handle \<Longrightarrow> wk_waiter w = null_handle \<or> wk_waiter w = own (wk_pc w)"
    "\<And>h. wk_pc w = Cas h \<or> wk_pc w = Kicks_on h \<or> wk_pc w = Look h \<or> wk_pc w = Withdraw h \<Longrightarrow> h \<noteq> null_handle"
    using assms by (auto simp: wake_ok_def waiters_ok_def)
  have flag: "wk_waiter w \<noteq> null_handle \<and> (\<forall>h. wk_pc w \<noteq> Kicks_on h) \<Longrightarrow> \<not> wk_no_notify w"
    and kick: "wk_waiter w \<noteq> null_handle \<and> own (wk_pc w) = null_handle \<and> \<not> polling (wk_pc w) \<or> wk_pc w = Asleep \<Longrightarrow> wk_new w > 0 \<Longrightarrow> kick_coming w"
    using assms by (auto simp: wake_ok_def kick_ok_def)
  have flag': "wk_waiter (main_step w) \<noteq> null_handle \<and> (\<forall>h. wk_pc (main_step w) \<noteq> Kicks_on h) \<longrightarrow> \<not> wk_no_notify (main_step w)"
    using flag by (cases "wk_pc w") (auto simp: step_defs)
  have "wk_new (main_step w) > 0 \<longrightarrow> kick_coming (main_step w)"
    if q: "wk_waiter (main_step w) \<noteq> null_handle \<and> own (wk_pc (main_step w)) = null_handle \<and> \<not> polling (wk_pc (main_step w)) \<or> wk_pc (main_step w) = Asleep"
  proof (cases "wk_pc w")
    case (Withdraw h)
    then show ?thesis using q own(1) own(2) [of h] by (auto simp: step_defs polling_def split: if_splits)
  next
    case (Drain1 b)
    then show ?thesis using q by (auto simp: step_defs polling_def split: if_splits)
  qed (use q kick own(2) in \<open>auto simp: step_defs polling_def kick_coming_def split: if_splits\<close>)
  with flag' show ?thesis by (simp add: kick_ok_def)
qed

lemma waiters_ok_main:
  assumes "wake_ok w"
  shows "waiters_ok (main_step w)"
proof (cases "wk_pc w")
  case (Resume_cas h)
  have w: "mset (slot_list w @ wk_ready w) = mset (wk_suspended w)" "h \<notin> set (wk_suspended w)"
    using assms Resume_cas by (simp_all add: wake_ok_def waiters_ok_def own_list_def)
  have "h \<noteq> null_handle" using assms Resume_cas by (simp add: wake_ok_def waiters_ok_def)
  then have "wk_waiter w = h \<Longrightarrow> h \<in># mset (slot_list w @ wk_ready w)" by (simp add: slot_list_def)
  then have "wk_waiter w \<noteq> h" using w(2) unfolding w(1) by auto
  then show ?thesis using assms Resume_cas by (auto simp: wake_ok_def waiters_ok_def step_defs slot_list_def own_list_def)
qed (use assms in \<open>auto simp: wake_ok_def waiters_ok_def step_defs slot_list_def own_list_def\<close>)

lemma doorbell_isr_ok:
  assumes "wake_ok w" "wk_pc w \<notin> {Sleep_check, Sleep_kicks, Sleep_look}"
  shows "wake_ok (doorbell_isr w)"
proof -
  have "armed_ok (doorbell_isr w)" by (simp add: armed_ok_def doorbell_isr_def Let_def)
  moreover have "sleep_ok (doorbell_isr w)" using assms(2) by (simp add: sleep_ok_def doorbell_isr_def Let_def)
  moreover have "kick_ok (doorbell_isr w)" by (simp add: kick_ok_def doorbell_isr_def Let_def)
  moreover have "own (wk_pc (doorbell_isr w)) = own (wk_pc w)" by (auto simp: doorbell_isr_def Let_def)
  with assms(1) have "waiters_ok (doorbell_isr w)"
    by (auto simp: wake_ok_def waiters_ok_def doorbell_isr_def Let_def slot_list_def own_list_def)
  ultimately show ?thesis by (simp add: wake_ok_def)
qed

lemma enabled_by_fields [simp]:
  "enabled_by pc (w\<lparr>wk_new := n\<rparr>) = enabled_by pc w" "enabled_by pc (w\<lparr>wk_host := x\<rparr>) = enabled_by pc w"
  "enabled_by pc (w\<lparr>wk_fifo0 := n\<rparr>) = enabled_by pc w" "enabled_by pc (w\<lparr>wk_fifo1 := n\<rparr>) = enabled_by pc w"
  by (cases pc; simp)+

lemma armed_ok_step: "wake_step w w' \<Longrightarrow> wake_ok w \<Longrightarrow> armed_ok w'"
proof (induction rule: wake_step.induct)
  case (main w)
  then show ?case using armed_ok_main by blast
next
  case (interrupt w)
  then show ?case using doorbell_isr_ok by (simp add: wake_ok_def)
next
  case (await w h)
  then show ?case by (simp add: wake_ok_def armed_ok_def arming_def)
next
  case (resume w h hs)
  then show ?case by (simp add: wake_ok_def armed_ok_def arming_def)
next
  case (network w)
  then show ?case by (simp add: wake_ok_def armed_ok_def arming_def)
next
  case (sleep w)
  then show ?case by (simp add: wake_ok_def armed_ok_def arming_def)
next
  case (suppress w)
  then show ?case by (simp add: wake_ok_def armed_ok_def arming_def)
qed (simp_all add: wake_ok_def armed_ok_def)

lemma sleep_ok_step: "wake_step w w' \<Longrightarrow> wake_ok w \<Longrightarrow> sleep_ok w'"
proof (induction rule: wake_step.induct)
  case (main w)
  then show ?case using sleep_ok_main by blast
next
  case (interrupt w)
  then show ?case using doorbell_isr_ok by (simp add: wake_ok_def)
qed (auto simp: wake_ok_def sleep_ok_def)

lemma kick_ok_step: "wake_step w w' \<Longrightarrow> wake_ok w \<Longrightarrow> kick_ok w'"
proof (induction rule: wake_step.induct)
  case (main w)
  then show ?case using kick_ok_main by blast
next
  case (interrupt w)
  then show ?case using doorbell_isr_ok by (simp add: wake_ok_def)
next
  case (post w)
  have "own (wk_pc w) \<noteq> null_handle" if "wk_pc w = Kicks_on h" for h using post that by (simp add: wake_ok_def waiters_ok_def)
  then have "\<not> wk_no_notify w" if "wk_waiter w \<noteq> null_handle \<and> own (wk_pc w) = null_handle \<and> \<not> polling (wk_pc w) \<or> wk_pc w = Asleep"
    using post that by (auto simp: wake_ok_def kick_ok_def sleep_ok_def)
  then show ?case using post by (simp add: wake_ok_def kick_ok_def kick_coming_def)
qed (auto simp: wake_ok_def kick_ok_def polling_def kick_coming_def)

lemma waiters_ok_step: "wake_step w w' \<Longrightarrow> wake_ok w \<Longrightarrow> waiters_ok w'"
proof (induction rule: wake_step.induct)
  case (main w)
  then show ?case using waiters_ok_main by blast
next
  case (interrupt w)
  then show ?case using doorbell_isr_ok by (simp add: wake_ok_def)
next
  case (resume w h hs)
  have "mset (slot_list w @ h # hs) = mset (wk_suspended w)" "distinct (wk_suspended w)" "null_handle \<notin> set (wk_suspended w)"
    using resume by (simp_all add: wake_ok_def waiters_ok_def own_list_def)
  moreover from this(1) have "h \<in> set (wk_suspended w)" by (metis in_set_conv_decomp set_mset_mset)
  moreover have "mset (wk_suspended w) = add_mset h (mset (slot_list w @ hs))" using calculation(1) by simp
  then have "mset (remove1 h (wk_suspended w)) = mset (slot_list w @ hs)" by simp
  moreover have "h \<noteq> null_handle" using calculation(3,4) by metis
  ultimately have "mset (slot_list w @ hs) = mset (remove1 h (wk_suspended w))" "h \<noteq> null_handle" "h \<notin> set (remove1 h (wk_suspended w))"
    "distinct (remove1 h (wk_suspended w))" "null_handle \<notin> set (remove1 h (wk_suspended w))"
    using notin_set_remove1 by fastforce+
  then show ?case by (simp add: waiters_ok_def slot_list_def own_list_def split: if_splits)
qed (auto simp: wake_ok_def waiters_ok_def slot_list_def own_list_def)

lemma wake_step_ok: "wake_step w w' \<Longrightarrow> wake_ok w \<Longrightarrow> wake_ok w'"
  using armed_ok_step sleep_ok_step kick_ok_step waiters_ok_step by (simp add: wake_ok_def)

lemma reachable_wake_ok: "wake_step\<^sup>*\<^sup>* (wake_new b) w \<Longrightarrow> wake_ok w"
  by (induction rule: rtranclp_induct) (auto intro: wake_new_ok wake_step_ok)

section \<open>No wake is lost\<close>


text \<open>Steps of the main loop up to its top, at most \<open>n\<close>.\<close>

fun main_run :: "nat \<Rightarrow> wake_world \<Rightarrow> wake_world" where
  "main_run 0 w = w"
| "main_run (Suc n) w = (if wk_pc w = Idle then w else main_run n (main_step w))"

lemma main_run_steps: "wake_step\<^sup>*\<^sup>* w (main_run n w)"
  by (induction n w rule: main_run.induct) (auto intro: converse_rtranclp_into_rtranclp wake_step.main)


end
