(* ===== verification/Ublox_Gps.thy ===== *)
theory Ublox_Gps
  imports Ctf_Tracer
begin

text \<open>
  The UBX receiver of \<open>applib/include/applib/drivers/gps/ublox_gps.hpp\<close>: a byte-wise state machine over
  frames with two sync bytes, class, identifier, little-endian length, payload and an 8-bit Fletcher
  checksum; NAV-PVT messages become fixes, which are traced and wake a waiting coroutine.
\<close>

section \<open>State\<close>

datatype ubx_state = SYNC_1 | SYNC_2 | CLASS | ID | LENGTH_L | LENGTH_H | PAYLOAD | CK_A | CK_B

text \<open>\<open>GpsFixType\<close> is an \<open>enum class : uint8_t\<close>, cast from the received byte: it may hold any byte.\<close>

record gps_fix =
  gf_lat_1e7 :: u32
  gf_lon_1e7 :: u32
  gf_alt_msl_mm :: u32
  gf_ground_speed_mm_s :: u32
  gf_heading_1e5 :: u32
  gf_satellites :: u8
  gf_fix_type :: u8
  gf_itow_ms :: u32
  gf_timestamp_us :: u64
  gf_valid :: bool

definition gps_fix_new :: gps_fix where
  "gps_fix_new = \<lparr>gf_lat_1e7 = 0, gf_lon_1e7 = 0, gf_alt_msl_mm = 0, gf_ground_speed_mm_s = 0, gf_heading_1e5 = 0,
     gf_satellites = 0, gf_fix_type = 0, gf_itow_ms = 0, gf_timestamp_us = 0, gf_valid = False\<rparr>"

definition MAX_PAYLOAD :: nat where
  "MAX_PAYLOAD = 128"

definition TLP_TAG_GPS :: u8 where
  "TLP_TAG_GPS = 2"

text \<open>The members of \<open>UbloxGps\<close>, and the tracer that its fixes are reported to.\<close>

record 'e ublox =
  ub_state :: ubx_state
  ub_msg_class :: u8
  ub_msg_id :: u8
  ub_payload_len :: u16
  ub_payload_idx :: u16
  ub_ck_a :: u8
  ub_ck_b :: u8
  ub_payload_buf :: "u8 list"
  ub_last_fix :: gps_fix
  ub_pending_handle :: handle
  ub_tracer :: "'e ctf_engine"

definition ublox_new :: "'e ctf_engine \<Rightarrow> 'e ublox" where
  "ublox_new tracer = \<lparr>ub_state = SYNC_1, ub_msg_class = 0, ub_msg_id = 0, ub_payload_len = 0, ub_payload_idx = 0, ub_ck_a = 0,
     ub_ck_b = 0, ub_payload_buf = replicate MAX_PAYLOAD 0, ub_last_fix = gps_fix_new, ub_pending_handle = null_handle, ub_tracer = tracer\<rparr>"

section \<open>Receiving\<close>

definition reset_parser :: "'e ublox \<Rightarrow> 'e ublox" where
  "reset_parser u = u\<lparr>ub_state := SYNC_1, ub_payload_idx := 0, ub_payload_len := 0\<rparr>"

definition update_checksum :: "u8 \<Rightarrow> 'e ublox \<Rightarrow> 'e ublox" where
  "update_checksum ch u = (let a = ub_ck_a u + ch in u\<lparr>ub_ck_a := a, ub_ck_b := ub_ck_b u + a\<rparr>)"

text \<open>Four bytes of the payload buffer, copied into an integer.\<close>

definition payload_u32 :: "nat \<Rightarrow> u8 list \<Rightarrow> u32" where
  "payload_u32 off buf = le_word (take 4 (drop off buf))"

definition nav_pvt :: "u8 list \<Rightarrow> gps_fix \<Rightarrow> gps_fix" where
  "nav_pvt buf fix = fix\<lparr>gf_itow_ms := payload_u32 0 buf, gf_fix_type := buf ! 20, gf_satellites := buf ! 23,
     gf_lon_1e7 := payload_u32 24 buf, gf_lat_1e7 := payload_u32 28 buf, gf_alt_msl_mm := payload_u32 36 buf,
     gf_ground_speed_mm_s := payload_u32 60 buf, gf_heading_1e5 := payload_u32 64 buf, gf_valid := buf ! 20 \<ge> 2\<rparr>"

definition trace_fix :: "gps_fix \<Rightarrow> 'e ctf_engine \<Rightarrow> 'e ctf_engine" where
  "trace_fix fix = trace_gps (gf_itow_ms fix) (gf_lat_1e7 fix) (gf_lon_1e7 fix) (gf_alt_msl_mm fix) (gf_ground_speed_mm_s fix)
     (gf_heading_1e5 fix) (gf_satellites fix) (gf_fix_type fix) (gf_timestamp_us fix)"

definition parse_payload :: "gps_fix \<Rightarrow> 'e ublox \<Rightarrow> bool \<times> gps_fix \<times> 'e ublox" where
  "parse_payload out u =
    (if ub_msg_class u = 1 \<and> ub_msg_id u = 7 \<and> ub_payload_len u \<ge> 92
     then let out = nav_pvt (ub_payload_buf u) out
       in (True, out, if gf_valid out then u\<lparr>ub_tracer := trace_fix out (ub_tracer u)\<rparr> else u)
     else (False, out, u))"

definition feed_byte :: "u8 \<Rightarrow> gps_fix \<Rightarrow> 'e ublox \<Rightarrow> bool \<times> gps_fix \<times> 'e ublox" where
  "feed_byte ch out u = (case ub_state u of
     SYNC_1 \<Rightarrow> (False, out, if ch = 0xB5 then u\<lparr>ub_state := SYNC_2\<rparr> else u)
   | SYNC_2 \<Rightarrow> (False, out, if ch = 0x62 then u\<lparr>ub_state := CLASS, ub_ck_a := 0, ub_ck_b := 0\<rparr> else u\<lparr>ub_state := SYNC_1\<rparr>)
   | CLASS \<Rightarrow> (False, out, (update_checksum ch (u\<lparr>ub_msg_class := ch\<rparr>))\<lparr>ub_state := ID\<rparr>)
   | ID \<Rightarrow> (False, out, (update_checksum ch (u\<lparr>ub_msg_id := ch\<rparr>))\<lparr>ub_state := LENGTH_L\<rparr>)
   | LENGTH_L \<Rightarrow> (False, out, (update_checksum ch (u\<lparr>ub_payload_len := ucast ch\<rparr>))\<lparr>ub_state := LENGTH_H\<rparr>)
   | LENGTH_H \<Rightarrow> (False, out,
       let u = (update_checksum ch (u\<lparr>ub_payload_len := ub_payload_len u OR push_bit 8 (ucast ch)\<rparr>))\<lparr>ub_payload_idx := 0\<rparr> in
       if unat (ub_payload_len u) \<le> MAX_PAYLOAD then u\<lparr>ub_state := PAYLOAD\<rparr> else reset_parser u)
   | PAYLOAD \<Rightarrow> (False, out,
       let u = update_checksum ch (u\<lparr>ub_payload_buf := (ub_payload_buf u)[unat (ub_payload_idx u) := ch], ub_payload_idx := ub_payload_idx u + 1\<rparr>) in
       if ub_payload_idx u \<ge> ub_payload_len u then u\<lparr>ub_state := CK_A\<rparr> else u)
   | CK_A \<Rightarrow> (False, out, if ch = ub_ck_a u then u\<lparr>ub_state := CK_B\<rparr> else reset_parser u)
   | CK_B \<Rightarrow> if ch = ub_ck_b u then let (parsed, out, u) = parse_payload out u in (parsed, out, reset_parser u)
       else (False, out, reset_parser u))"

text \<open>
  \<open>on_uart_rx_ready\<close>, with the bytes that \<open>read_byte\<close> gives out until it has none; \<open>finished\<close> is
  \<open>coro_handle.done()\<close>. The result lists the coroutines posted.
\<close>

definition deliver_fix :: "(handle \<Rightarrow> bool) \<Rightarrow> gps_fix \<Rightarrow> 'e ublox \<Rightarrow> handle list \<times> 'e ublox" where
  "deliver_fix finished fix u =
    (let u = u\<lparr>ub_last_fix := fix\<rparr>; h = ub_pending_handle u in
     if h \<noteq> null_handle \<and> \<not> finished h then ([h], u\<lparr>ub_pending_handle := null_handle\<rparr>) else ([], u))"

fun on_uart_rx_ready :: "(handle \<Rightarrow> bool) \<Rightarrow> u8 list \<Rightarrow> 'e ublox \<Rightarrow> handle list \<times> 'e ublox" where
  "on_uart_rx_ready finished [] u = ([], u)"
| "on_uart_rx_ready finished (ch # bytes) u =
    (let (ok, fix, u) = feed_byte ch gps_fix_new u; (posted, u) = (if ok then deliver_fix finished fix u else ([], u));
         (more, u) = on_uart_rx_ready finished bytes u
     in (posted @ more, u))"

definition fix_await_suspend :: "handle \<Rightarrow> 'e ublox \<Rightarrow> 'e ublox" where
  "fix_await_suspend h u = u\<lparr>ub_pending_handle := h\<rparr>"

definition fix_await_resume :: "'e ublox \<Rightarrow> gps_fix" where
  "fix_await_resume u = ub_last_fix u"

definition fix_to_tlp :: "gps_fix \<Rightarrow> tlp" where
  "fix_to_tlp fix = make_ctf Telemetry TLP_TAG_GPS
     (gps_event (gf_itow_ms fix) (gf_lat_1e7 fix) (gf_lon_1e7 fix) (gf_alt_msl_mm fix) (gf_ground_speed_mm_s fix) (gf_heading_1e5 fix)
        (gf_satellites fix) (gf_fix_type fix) (gf_timestamp_us fix)) (gf_timestamp_us fix * 1000) DmaStream"

section \<open>Reference: frames\<close>

text \<open>The checksum of the protocol over class, identifier, length and payload.\<close>

fun fletcher :: "u8 list \<Rightarrow> u8 \<times> u8 \<Rightarrow> u8 \<times> u8" where
  "fletcher [] c = c"
| "fletcher (x # xs) (a, b) = fletcher xs (a + x, b + (a + x))"

definition ubx_body :: "u8 \<Rightarrow> u8 \<Rightarrow> u8 list \<Rightarrow> u8 list" where
  "ubx_body c i pl = [c, i] @ le_bytes 2 (of_nat (length pl) :: u16) @ pl"

definition ubx_frame :: "u8 \<Rightarrow> u8 \<Rightarrow> u8 list \<Rightarrow> u8 list" where
  "ubx_frame c i pl = (let (a, b) = fletcher (ubx_body c i pl) (0, 0) in [0xB5, 0x62] @ ubx_body c i pl @ [a, b])"

text \<open>The fix that a message carries, if it is a complete NAV-PVT.\<close>

definition message_fix :: "u8 \<times> u8 \<times> u8 list \<Rightarrow> gps_fix option" where
  "message_fix m = (case m of (c, i, pl) \<Rightarrow> if c = 1 \<and> i = 7 \<and> length pl \<ge> 92 then Some (nav_pvt pl gps_fix_new) else None)"

text \<open>What a receiver of whole messages does with a sequence of them: the last fix, the waiting coroutine, the tracer.\<close>

fun receive_messages :: "(handle \<Rightarrow> bool) \<Rightarrow> (u8 \<times> u8 \<times> u8 list) list \<Rightarrow> gps_fix \<times> handle \<times> 'e ctf_engine \<Rightarrow>
  handle list \<times> gps_fix \<times> handle \<times> 'e ctf_engine" where
  "receive_messages finished [] s = ([], s)"
| "receive_messages finished (m # ms) (prev, h, tracer) = (case message_fix m of
     None \<Rightarrow> receive_messages finished ms (prev, h, tracer)
   | Some fix \<Rightarrow> let wake = (h \<noteq> null_handle \<and> \<not> finished h);
         (more, s) = receive_messages finished ms (fix, if wake then null_handle else h, if gf_valid fix then trace_fix fix tracer else tracer)
       in ((if wake then [h] else []) @ more, s))"

definition ub_view :: "'e ublox \<Rightarrow> gps_fix \<times> handle \<times> 'e ctf_engine" where
  "ub_view u = (ub_last_fix u, ub_pending_handle u, ub_tracer u)"

text \<open>Between frames the parser waits for the first sync byte.\<close>

definition ub_idle :: "'e ublox \<Rightarrow> bool" where
  "ub_idle u = (ub_state u = SYNC_1 \<and> length (ub_payload_buf u) = MAX_PAYLOAD)"

section \<open>Frames\<close>

lemma fletcher_append: "fletcher (xs @ ys) c = fletcher ys (fletcher xs c)"
  by (induction xs c rule: fletcher.induct) simp_all

lemma fst_fletcher: "fst (fletcher xs c) = fst c + sum_list xs"
  by (induction xs c rule: fletcher.induct) (simp_all add: add.assoc)

lemma on_rx_append:
  "on_uart_rx_ready f (xs @ ys) u = (let (p, u) = on_uart_rx_ready f xs u; (q, u) = on_uart_rx_ready f ys u in (p @ q, u))"
  by (induction xs arbitrary: u) (simp_all add: split_def Let_def)

lemma le_word_two: "le_word [a, b] = (ucast a OR push_bit 8 (ucast b) :: u16)"
  by simp

lemma on_rx_header:
  assumes "ub_state u = SYNC_1" "unat (le_word [l0, l1] :: u16) \<le> MAX_PAYLOAD"
  shows "on_uart_rx_ready f [0xB5, 0x62, c, i, l0, l1] u = ([], u\<lparr>ub_state := PAYLOAD, ub_msg_class := c, ub_msg_id := i,
    ub_payload_len := le_word [l0, l1], ub_payload_idx := 0, ub_ck_a := fst (fletcher [c, i, l0, l1] (0, 0)),
    ub_ck_b := snd (fletcher [c, i, l0, l1] (0, 0))\<rparr>)"
  using assms by (simp add: feed_byte_def update_checksum_def Let_def)

lemma on_rx_payload:
  assumes "ub_state u = PAYLOAD" "xs \<noteq> []" "unat (ub_payload_idx u) + length xs \<le> unat (ub_payload_len u)"
    "unat (ub_payload_len u) \<le> MAX_PAYLOAD" "length (ub_payload_buf u) = MAX_PAYLOAD"
  shows "on_uart_rx_ready f xs u = ([], u\<lparr>ub_state := if unat (ub_payload_idx u) + length xs = unat (ub_payload_len u) then CK_A else PAYLOAD,
    ub_payload_idx := ub_payload_idx u + of_nat (length xs), ub_payload_buf := put_at (unat (ub_payload_idx u)) xs (ub_payload_buf u),
    ub_ck_a := fst (fletcher xs (ub_ck_a u, ub_ck_b u)), ub_ck_b := snd (fletcher xs (ub_ck_a u, ub_ck_b u))\<rparr>)"
  using assms
proof (induction xs arbitrary: u)
  case (Cons x xs)
  have lt: "unat (ub_payload_idx u) < unat (ub_payload_len u)" using Cons.prems(3) by simp
  have "unat (ub_payload_idx u) < 128" using lt Cons.prems(4) by (simp add: MAX_PAYLOAD_def)
  then have next_idx: "unat (ub_payload_idx u + 1) = Suc (unat (ub_payload_idx u))" by (simp add: unat_word_ariths)
  define v where "v = u\<lparr>ub_payload_idx := ub_payload_idx u + 1, ub_payload_buf := put_at (unat (ub_payload_idx u)) [x] (ub_payload_buf u),
    ub_ck_a := ub_ck_a u + x, ub_ck_b := ub_ck_b u + (ub_ck_a u + x)\<rparr>"
  have buf: "(ub_payload_buf u)[unat (ub_payload_idx u) := x] = put_at (unat (ub_payload_idx u)) [x] (ub_payload_buf u)"
    by (rule list_update_eq_put_at) (use lt Cons.prems(4,5) in simp)
  have step: "feed_byte x out u = (False, out, if unat (ub_payload_idx u) + 1 = unat (ub_payload_len u) then v\<lparr>ub_state := CK_A\<rparr> else v)" for out
    using Cons.prems(1) lt next_idx by (simp add: feed_byte_def update_checksum_def Let_def buf v_def word_le_nat_alt)
  show ?case
  proof (cases xs)
    case Nil
    then show ?thesis using Cons.prems(1) by (simp add: step v_def)
  next
    case (Cons y ys)
    then have ne: "xs \<noteq> []" "unat (ub_payload_idx u) + 1 \<noteq> unat (ub_payload_len u)" using Cons.prems(3) by auto
    have "put_at (Suc (unat (ub_payload_idx u))) xs (put_at (unat (ub_payload_idx u)) [x] (ub_payload_buf u)) =
      put_at (unat (ub_payload_idx u)) ([x] @ xs) (ub_payload_buf u)"
      by (rule put_at_put_at_adjacent) (use lt Cons.prems(4,5) in simp_all)
    moreover have "on_uart_rx_ready f xs v = ([], v\<lparr>ub_state := if unat (ub_payload_idx v) + length xs = unat (ub_payload_len v) then CK_A else PAYLOAD,
      ub_payload_idx := ub_payload_idx v + of_nat (length xs), ub_payload_buf := put_at (unat (ub_payload_idx v)) xs (ub_payload_buf v),
      ub_ck_a := fst (fletcher xs (ub_ck_a v, ub_ck_b v)), ub_ck_b := snd (fletcher xs (ub_ck_a v, ub_ck_b v))\<rparr>)"
      by (rule Cons.IH [OF _ ne(1)]) (use Cons.prems next_idx lt in \<open>simp_all add: v_def\<close>)
    ultimately show ?thesis using ne(2) next_idx by (simp add: step, simp add: v_def add.assoc)
  qed
qed simp

lemma on_rx_append_quiet: "on_uart_rx_ready f xs u = ([], v) \<Longrightarrow> on_uart_rx_ready f (xs @ ys) u = on_uart_rx_ready f ys v"
  by (simp add: on_rx_append split_def)

text \<open>After the two sync bytes and a body of a length that fits, the parser waits for the checksum of what it read.\<close>

lemma on_rx_body:
  assumes "ub_idle u" "1 \<le> length pl" "length pl \<le> MAX_PAYLOAD"
  shows "\<exists>v. on_uart_rx_ready f ([0xB5, 0x62] @ ubx_body c i pl) u = ([], v) \<and> ub_state v = CK_A \<and> ub_view v = ub_view u \<and>
    ub_msg_class v = c \<and> ub_msg_id v = i \<and> ub_payload_len v = of_nat (length pl) \<and>
    ub_payload_buf v = put_at 0 pl (ub_payload_buf u) \<and> (ub_ck_a v, ub_ck_b v) = fletcher (ubx_body c i pl) (0, 0)"
proof -
  obtain l0 l1 where l: "le_bytes 2 (of_nat (length pl) :: u16) = [l0, l1]" by (simp add: numeral_2_eq_2)
  have len: "le_word [l0, l1] = (of_nat (length pl) :: u16)"
    using le_word_le_bytes [of 2 "of_nat (length pl) :: u16"] l by simp
  have small: "unat (of_nat (length pl) :: u16) = length pl"
    by (rule unat_of_nat_small) (use assms(3) in \<open>simp add: MAX_PAYLOAD_def\<close>)
  define h where "h = u\<lparr>ub_state := PAYLOAD, ub_msg_class := c, ub_msg_id := i, ub_payload_len := of_nat (length pl), ub_payload_idx := 0,
    ub_ck_a := fst (fletcher [c, i, l0, l1] (0, 0)), ub_ck_b := snd (fletcher [c, i, l0, l1] (0, 0))\<rparr>"
  have header: "on_uart_rx_ready f [0xB5, 0x62, c, i, l0, l1] u = ([], h)"
    unfolding h_def by (subst on_rx_header) (use assms in \<open>simp_all add: ub_idle_def len small del: le_word.simps\<close>)
  have ne: "pl \<noteq> []" using assms(2) by auto
  have load: "on_uart_rx_ready f pl h = ([], h\<lparr>ub_state := CK_A, ub_payload_idx := of_nat (length pl), ub_payload_buf := put_at 0 pl (ub_payload_buf u),
    ub_ck_a := fst (fletcher pl (ub_ck_a h, ub_ck_b h)), ub_ck_b := snd (fletcher pl (ub_ck_a h, ub_ck_b h))\<rparr>)"
    by (subst on_rx_payload) (use ne assms in \<open>simp_all add: h_def small ub_idle_def\<close>)
  have "fletcher (ubx_body c i pl) (0, 0) = fletcher pl (fletcher [c, i, l0, l1] (0, 0))"
    by (simp add: ubx_body_def l fletcher_append)
  moreover have "[0xB5, 0x62] @ ubx_body c i pl = [0xB5, 0x62, c, i, l0, l1] @ pl" by (simp add: ubx_body_def l)
  moreover define k where "k = h\<lparr>ub_state := CK_A, ub_payload_idx := of_nat (length pl),
      ub_payload_buf := put_at 0 pl (ub_payload_buf u), ub_ck_a := fst (fletcher pl (ub_ck_a h, ub_ck_b h)),
      ub_ck_b := snd (fletcher pl (ub_ck_a h, ub_ck_b h))\<rparr>"
  ultimately have run: "on_uart_rx_ready f ([0xB5, 0x62] @ ubx_body c i pl) u = ([], k)"
    using on_rx_append_quiet [OF header, of pl] load by (simp only:)
  have "(ub_ck_a k, ub_ck_b k) = fletcher (ubx_body c i pl) (0, 0)" by (simp add: k_def h_def ubx_body_def l)
  moreover have "ub_state k = CK_A \<and> ub_view k = ub_view u \<and> ub_msg_class k = c \<and> ub_msg_id k = i \<and>
    ub_payload_len k = of_nat (length pl) \<and> ub_payload_buf k = put_at 0 pl (ub_payload_buf u)" by (simp add: k_def h_def ub_view_def)
  ultimately show ?thesis using run by blast
qed

lemma payload_u32_put_at: "off + 4 \<le> length pl \<Longrightarrow> payload_u32 off (put_at 0 pl buf) = payload_u32 off pl"
  by (simp add: payload_u32_def put_at_def)

lemma nth_put_at_front: "k < length pl \<Longrightarrow> put_at 0 pl buf ! k = pl ! k"
  by (simp add: put_at_def nth_append)

lemma nav_pvt_put_at: "92 \<le> length pl \<Longrightarrow> nav_pvt (put_at 0 pl buf) fix = nav_pvt pl fix"
  by (simp add: nav_pvt_def payload_u32_put_at nth_put_at_front)

lemma on_rx_frame:
  assumes "ub_idle u" "1 \<le> length pl" "length pl \<le> MAX_PAYLOAD"
  shows "\<exists>v. on_uart_rx_ready f (ubx_frame c i pl) u = (fst (receive_messages f [(c, i, pl)] (ub_view u)), v) \<and>
    ub_view v = snd (receive_messages f [(c, i, pl)] (ub_view u)) \<and> ub_idle v"
proof -
  obtain a b where ck: "fletcher (ubx_body c i pl) (0, 0) = (a, b)" by force
  obtain v where v: "on_uart_rx_ready f ([0xB5, 0x62] @ ubx_body c i pl) u = ([], v)" "ub_state v = CK_A" "ub_view v = ub_view u"
    "ub_msg_class v = c" "ub_msg_id v = i" "ub_payload_len v = of_nat (length pl)" "ub_payload_buf v = put_at 0 pl (ub_payload_buf u)"
    "ub_ck_a v = a" "ub_ck_b v = b" using on_rx_body [OF assms, of f c i] ck by auto
  have len: "(92 \<le> (of_nat (length pl) :: u16)) = (92 \<le> length pl)"
    using assms(3) by (simp add: MAX_PAYLOAD_def word_le_nat_alt unat_of_nat)
  have buf: "length (ub_payload_buf v) = MAX_PAYLOAD" using assms(1,3) v(7) by (simp add: ub_idle_def)
  have frame: "ubx_frame c i pl = ([0xB5, 0x62] @ ubx_body c i pl) @ [a, b]" by (simp add: ubx_frame_def ck)
  have run: "on_uart_rx_ready f (ubx_frame c i pl) u = on_uart_rx_ready f [a, b] v"
    unfolding frame by (rule on_rx_append_quiet [OF v(1)])
  have a: "on_uart_rx_ready f [a, b] v = on_uart_rx_ready f [b] (v\<lparr>ub_state := CK_B\<rparr>)"
    using v(2,8) by (simp add: feed_byte_def)
  show ?thesis
  proof (cases "c = 1 \<and> i = 7 \<and> 92 \<le> length pl")
    case True
    then have msg: "message_fix (c, i, pl) = Some (nav_pvt pl gps_fix_new)" by (simp add: message_fix_def)
    let ?fix = "nav_pvt pl gps_fix_new"
    have "feed_byte b gps_fix_new (v\<lparr>ub_state := CK_B\<rparr>) = (True, ?fix, reset_parser (v\<lparr>ub_state := CK_B, ub_tracer := if gf_valid ?fix then trace_fix ?fix (ub_tracer v) else ub_tracer v\<rparr>))"
      using True v(4-7,9) len by (simp add: feed_byte_def parse_payload_def nav_pvt_put_at Let_def)
    then show ?thesis using v(3) buf unfolding run a
      by (auto simp: deliver_fix_def reset_parser_def ub_view_def ub_idle_def msg Let_def)
  next
    case False
    then have msg: "message_fix (c, i, pl) = None" by (auto simp: message_fix_def)
    have "feed_byte b gps_fix_new (v\<lparr>ub_state := CK_B\<rparr>) = (False, gps_fix_new, reset_parser (v\<lparr>ub_state := CK_B\<rparr>))"
      using False v(4-6,9) len by (auto simp: feed_byte_def parse_payload_def)
    then show ?thesis using v(3) buf unfolding run a
      by (auto simp: reset_parser_def ub_view_def ub_idle_def msg)
  qed
qed

lemma on_rx_noise: "0xB5 \<notin> set xs \<Longrightarrow> ub_idle u \<Longrightarrow> on_uart_rx_ready f xs u = ([], u)"
  by (induction xs) (auto simp: feed_byte_def ub_idle_def)



text \<open>
  (C34) A frame with one byte wrong, in the class, the identifier, the payload or the checksum, gives no fix:
  nothing is stored, posted or traced, and the parser looks for the next sync byte.
\<close>

theorem ubx_corruption_rejected:
  assumes "ub_idle u" "1 \<le> length pl" "length pl \<le> MAX_PAYLOAD"
    and "k < length (ubx_frame c i pl)" "k \<notin> {0, 1, 4, 5}" "x \<noteq> ubx_frame c i pl ! k"
  shows "\<exists>v. on_uart_rx_ready f ((ubx_frame c i pl)[k := x]) u = ([], v) \<and> ub_view v = ub_view u \<and> ub_state v \<in> {SYNC_1, SYNC_2}"
proof -
  obtain a b where ck: "fletcher (ubx_body c i pl) (0, 0) = (a, b)" by force
  have frame: "ubx_frame c i pl = [0xB5, 0x62] @ ubx_body c i pl @ [a, b]" by (simp add: ubx_frame_def ck)
  have len: "length (ubx_body c i pl) = length pl + 4" by (simp add: ubx_body_def)
  define pre where "pre = [0xB5, 0x62] @ ubx_body c i pl"
  have pre: "length pre = length pl + 6" "\<And>ys. [0xB5, 0x62] @ ubx_body c i pl @ ys = pre @ ys" by (simp_all add: pre_def len)
  have reject: "\<exists>v. on_uart_rx_ready f ([0xB5, 0x62] @ ubx_body c' i' pl' @ [a', b']) u = ([], v) \<and> ub_view v = ub_view u \<and> ub_state v \<in> {SYNC_1, SYNC_2}"
    if bad: "length pl' = length pl" "fletcher (ubx_body c' i' pl') (0, 0) = (a2, b2)" "a' \<noteq> a2 \<or> b' \<noteq> b2" for c' i' pl' a' b' a2 b2
  proof -
    obtain v where v: "on_uart_rx_ready f ([0xB5, 0x62] @ ubx_body c' i' pl') u = ([], v)" "ub_state v = CK_A" "ub_view v = ub_view u"
      "ub_ck_a v = a2" "ub_ck_b v = b2" using on_rx_body [of u pl' f c' i'] assms(1-3) bad(1,2) by auto
    have "on_uart_rx_ready f ([0xB5, 0x62] @ ubx_body c' i' pl' @ [a', b']) u = on_uart_rx_ready f [a', b'] v"
      using on_rx_append_quiet [OF v(1), of "[a', b']"] by simp
    then show ?thesis using v(2-5) bad(3) by (auto simp: feed_byte_def reset_parser_def ub_view_def)
  qed
  consider "k = 2" | "k = 3" | j where "k = 6 + j" "j < length pl" | "k = length pl + 6" | "k = length pl + 7"
  proof -
    have "k < length pl + 8" using assms(4) by (simp add: frame len)
    then have "k = 2 \<or> k = 3 \<or> (\<exists>j. k = 6 + j \<and> j < length pl) \<or> k = length pl + 6 \<or> k = length pl + 7"
      using assms(5) by (cases "k < 6") (auto simp: nat_le_iff_add not_less intro: exI [of _ "k - 6"])
    then show thesis using that by blast
  qed
  then show ?thesis
  proof cases
    case 1
    then have "(ubx_frame c i pl)[k := x] = [0xB5, 0x62] @ ubx_body x i pl @ [a, b]" "x \<noteq> c"
      using assms(6) by (simp_all add: frame ubx_body_def numeral_2_eq_2)
    moreover have "a \<noteq> fst (fletcher (ubx_body x i pl) (0, 0))" if "x \<noteq> c"
      using that ck [THEN arg_cong [where f = fst]] by (auto simp: fst_fletcher ubx_body_def simp del: fletcher.simps)
    ultimately show ?thesis using reject [of pl x i _ _ a b] by (metis prod.collapse)
  next
    case 2
    then have "(ubx_frame c i pl)[k := x] = [0xB5, 0x62] @ ubx_body c x pl @ [a, b]" "x \<noteq> i"
      using assms(6) by (simp_all add: frame ubx_body_def eval_nat_numeral)
    moreover have "a \<noteq> fst (fletcher (ubx_body c x pl) (0, 0))" if "x \<noteq> i"
      using that ck [THEN arg_cong [where f = fst]] by (auto simp: fst_fletcher ubx_body_def simp del: fletcher.simps)
    ultimately show ?thesis using reject [of pl c x _ _ a b] by (metis prod.collapse)
  next
    case 3
    have nth: "ubx_frame c i pl ! k = pl ! j" using 3 by (simp add: frame ubx_body_def eval_nat_numeral nth_append)
    have upd: "(ubx_frame c i pl)[k := x] = [0xB5, 0x62] @ ubx_body c i (pl[j := x]) @ [a, b]"
      using 3 by (simp add: frame ubx_body_def eval_nat_numeral list_update_append)
    have "sum_list (pl[j := x]) = sum_list (take j pl) + x + sum_list (drop (Suc j) pl)" using 3 by (simp add: upd_conv_take_nth_drop)
    moreover have "sum_list pl = sum_list (take j pl) + pl ! j + sum_list (drop (Suc j) pl)"
      by (subst id_take_nth_drop [OF 3(2)]) simp
    ultimately have "a \<noteq> fst (fletcher (ubx_body c i (pl[j := x])) (0, 0))"
      using assms(6) nth ck [THEN arg_cong [where f = fst]] by (auto simp: fst_fletcher ubx_body_def simp del: fletcher.simps)
    then show ?thesis using reject [of "pl[j := x]" c i _ _ a b] upd by (metis prod.collapse length_list_update)
  next
    case 4
    have "(ubx_frame c i pl)[k := x] = [0xB5, 0x62] @ ubx_body c i pl @ [x, b]" "x \<noteq> a"
      using assms(6) 4 unfolding frame pre(2) by (simp_all add: pre(1) list_update_append nth_append)
    then show ?thesis using reject [OF refl ck, of x b] by simp
  next
    case 5
    have "(ubx_frame c i pl)[k := x] = [0xB5, 0x62] @ ubx_body c i pl @ [a, x]" "x \<noteq> b"
      using assms(6) 5 unfolding frame pre(2) by (simp_all add: pre(1) list_update_append nth_append)
    then show ?thesis using reject [OF refl ck, of a x] by simp
  qed
qed

lemma length_ubx_frame: "length (ubx_frame c i pl) = length pl + 8"
  by (simp add: ubx_frame_def ubx_body_def split_def Let_def)

lemma nth_ubx_frame_payload: "j < length pl \<Longrightarrow> ubx_frame c i pl ! (6 + j) = pl ! j"
  by (simp add: ubx_frame_def ubx_body_def split_def Let_def eval_nat_numeral nth_append)

lemma ubx_corruption_rejected_witness:
  "\<exists>v. on_uart_rx_ready (\<lambda>h. False) ((ubx_frame 1 7 (replicate 92 3))[26 := 4]) (ublox_new undefined) = ([], v) \<and> ub_last_fix v = gps_fix_new"
proof -
  have "length (ubx_frame 1 7 (replicate 92 3)) = 100" "ubx_frame 1 7 (replicate 92 3) ! 26 = 3"
    using nth_ubx_frame_payload [of 20 "replicate 92 3" 1 7] by (simp_all add: length_ubx_frame)
  then show ?thesis
    using ubx_corruption_rejected [of "ublox_new undefined" "replicate 92 3" 26 1 7 4 "\<lambda>h. False"]
    by (auto simp: ub_idle_def ublox_new_def MAX_PAYLOAD_def ub_view_def)
qed

section \<open>Any bytes\<close>

definition ub_ok :: "'e ublox \<Rightarrow> bool" where
  "ub_ok u = (length (ub_payload_buf u) = MAX_PAYLOAD \<and> (ub_state u = PAYLOAD \<longrightarrow> unat (ub_payload_len u) \<le> MAX_PAYLOAD \<and>
     (ub_payload_idx u = 0 \<or> ub_payload_idx u < ub_payload_len u)))"

lemma feed_byte_ok:
  assumes "feed_byte ch out u = (ok, fix', v)" "ub_ok u"
  shows "ub_ok v"
proof (cases "ub_state u")
  case PAYLOAD
  have buf: "ub_ok w" if "length (ub_payload_buf w) = MAX_PAYLOAD" "ub_state w = PAYLOAD \<Longrightarrow> unat (ub_payload_len w) \<le> MAX_PAYLOAD \<and>
     ub_payload_idx w < ub_payload_len w" for w :: "'a ublox" using that by (simp add: ub_ok_def)
  show ?thesis using assms PAYLOAD
    by (intro buf) (auto simp: feed_byte_def update_checksum_def Let_def ub_ok_def not_le split: if_splits)
qed (use assms in \<open>auto simp: feed_byte_def update_checksum_def reset_parser_def parse_payload_def Let_def ub_ok_def split: if_splits\<close>)

lemma on_rx_ok: "on_uart_rx_ready f bytes u = (posted, v) \<Longrightarrow> ub_ok u \<Longrightarrow> ub_ok v"
proof (induction bytes arbitrary: u posted)
  case (Cons ch bytes)
  obtain ok fix' w where w: "feed_byte ch gps_fix_new u = (ok, fix', w)" by (metis prod_cases3)
  obtain p w' where d: "(if ok then deliver_fix f fix' w else ([], w)) = (p, w')" by force
  obtain q v' where r: "on_uart_rx_ready f bytes w' = (q, v')" by force
  have "ub_ok w" by (rule feed_byte_ok [OF w Cons.prems(2)])
  then have "ub_ok w'" using d by (auto simp: deliver_fix_def ub_ok_def Let_def split: if_splits)
  moreover have "v = v'" using Cons.prems(1) by (simp add: w d r)
  ultimately show ?case using Cons.IH r by blast
qed simp

text \<open>
  Whatever bytes arrive, the payload buffer is never written out of range: whenever the parser is
  about to store a byte, its index is below the 128 bytes of the buffer.
\<close>

theorem ubx_writes_in_range:
  assumes "on_uart_rx_ready f bytes (ublox_new tracer) = (posted, v)" "ub_state v = PAYLOAD"
  shows "unat (ub_payload_idx v) < length (ub_payload_buf v) \<and> length (ub_payload_buf v) = 128"
proof -
  have "ub_ok (ublox_new tracer)" by (simp add: ub_ok_def ublox_new_def)
  from on_rx_ok [OF assms(1) this] assms(2) show ?thesis
    by (auto simp: ub_ok_def MAX_PAYLOAD_def word_less_nat_alt)
qed

lemma ubx_writes_in_range_witness:
  "\<exists>v. on_uart_rx_ready (\<lambda>h. False) [0xB5, 0x62, 1, 7, 0, 0] (ublox_new undefined) = ([], v) \<and> unat (ub_payload_idx v) < length (ub_payload_buf v)"
proof -
  have "\<exists>v. on_uart_rx_ready (\<lambda>h. False) [0xB5, 0x62, 1, 7, 0, 0] (ublox_new undefined) = ([], v) \<and> ub_state v = PAYLOAD"
    by (simp add: feed_byte_def update_checksum_def ublox_new_def MAX_PAYLOAD_def)
  then show ?thesis using ubx_writes_in_range [of "\<lambda>h. False" "[0xB5, 0x62, 1, 7, 0, 0]" undefined "[]"] by blast
qed

section \<open>What is lost\<close>

text \<open>
  A first sync byte in front of a frame hides it: the second one sends the parser back to the
  search without being taken for a first one. The frame is lost although all of it arrived.
\<close>

lemma stray_sync_loses_frame:
  assumes "ub_idle u" "0xB5 \<notin> set (tl (ubx_frame c i pl))"
  shows "on_uart_rx_ready f (0xB5 # ubx_frame c i pl) u = ([], u)"
proof -
  obtain xs where xs: "ubx_frame c i pl = 0xB5 # xs" by (simp add: ubx_frame_def split_def Let_def)
  have two: "on_uart_rx_ready f [0xB5, 0xB5] u = ([], u)" using assms(1) by (simp add: feed_byte_def ub_idle_def)
  have "on_uart_rx_ready f xs u = ([], u)" by (rule on_rx_noise) (use assms xs in auto)
  then show ?thesis using on_rx_append_quiet [OF two, of xs] by (simp add: xs del: on_uart_rx_ready.simps)
qed

end
