(* ===== verification/Twi_Driver.thy ===== *)
theory Twi_Driver
  imports Msgbox Bus_Checks "HOL-Library.Monad_Syntax"
begin

text \<open>
  The interrupt-driven I2C master of \<open>targets/allwinner_e906/src/i2c.cpp\<close>: one interrupt for each bus
  step, synchronous transfers with bounded waits, asynchronous ones with a deadline, and the recovery of a
  bus that a device holds. Registers are accesses to the outside state of \<open>Msgbox\<close>; the clock, the delays
  and the sleep of the core act on the same state. Completions pushed to the driver base are recorded.
\<close>

section \<open>Registers and state\<close>

definition kData :: u32 where "kData = 0x08"
definition kCntr :: u32 where "kCntr = 0x0C"
definition kStat :: u32 where "kStat = 0x10"
definition kCcr :: u32 where "kCcr = 0x14"
definition kSrst :: u32 where "kSrst = 0x18"
definition kIntEn :: u32 where "kIntEn = push_bit 7 1"
definition kBusEn :: u32 where "kBusEn = push_bit 6 1"
definition kMSta :: u32 where "kMSta = push_bit 5 1"
definition kMStp :: u32 where "kMStp = push_bit 4 1"
definition kIntFlg :: u32 where "kIntFlg = push_bit 3 1"
definition kAAck :: u32 where "kAAck = push_bit 2 1"
definition kCcr400k :: u32 where "kCcr400k = push_bit 3 2 OR 1"
definition kCcr100k :: u32 where "kCcr100k = push_bit 3 5 OR 2"
definition PIO_BASE :: u32 where "PIO_BASE = 0x02000000"
definition kTwiTimeoutMs :: u64 where "kTwiTimeoutMs = 20"
definition kI2cDefaultTimeoutUs :: u32 where "kI2cDefaultTimeoutUs = 20000"
definition TICKS_PER_US :: u64 where "TICKS_PER_US = 24"
definition TICKS_PER_MS :: u64 where "TICKS_PER_MS = 24000"

lemmas twi_consts = kData_def kCntr_def kStat_def kCcr_def kSrst_def kIntEn_def kBusEn_def kMSta_def kMStp_def kIntFlg_def kAAck_def

datatype twi_state = Twi_Idle | Twi_Busy | Twi_Done | Twi_Error

text \<open>\<open>TwiPort\<close>: the base address and the pins, with no configuration register (0) where they are not routed.\<close>

record twi_port =
  pt_base :: u32
  pt_cfg :: u32
  pt_mask :: u32
  pt_func :: u32

text \<open>
  \<open>I2cRequest\<close>; of a span to receive into only the length matters, the bytes received are kept by the
  driver. \<open>ir_id\<close> tells requests apart. Fields the driver does not read are left out.
\<close>

record i2c_request =
  ir_id :: nat
  ir_slave_addr :: u8
  ir_address :: u16
  ir_msgs :: "i2c_msg list"
  ir_timeout_us :: u32
  ir_recover_bus :: bool
  ir_tx_data :: "u8 list"
  ir_rx_size :: nat

record i2c_result =
  is_status :: i2c_status
  is_transferred :: nat
  is_timestamp_us :: u64
  is_msgs_done :: u8

record 'h twi = "'h host_link" +
  tw_state :: twi_state
  tw_status :: i2c_status
  tw_async :: bool
  tw_deadline :: u64
  tw_active_req :: i2c_request
  tw_addr :: u8
  tw_read_phase :: bool
  tw_tx :: "u8 list"
  tw_tx_idx :: nat
  tw_rx_size :: nat
  tw_rx_got :: "u8 list"
  tw_timeouts :: u32
  tw_needs_recovery :: bool
  tw_recoveries :: u32
  tw_ccr :: u32
  tw_completed :: "(i2c_request \<times> i2c_result) list"

definition i2c_request_null :: i2c_request where
  "i2c_request_null = \<lparr>ir_id = 0, ir_slave_addr = 0, ir_address = 0, ir_msgs = [], ir_timeout_us = 0, ir_recover_bus = False, ir_tx_data = [], ir_rx_size = 0\<rparr>"

definition twi_new :: "'h \<Rightarrow> 'h twi" where
  "twi_new env = \<lparr>lk_env = env, lk_log = [], tw_state = Twi_Idle, tw_status = I2c_Ok, tw_async = False, tw_deadline = 0,
     tw_active_req = i2c_request_null, tw_addr = 0, tw_read_phase = False, tw_tx = [], tw_tx_idx = 0, tw_rx_size = 0, tw_rx_got = [],
     tw_timeouts = 0, tw_needs_recovery = False, tw_recoveries = 0, tw_ccr = 0, tw_completed = []\<rparr>"

text \<open>
  \<open>Timer::get_ticks\<close>, \<open>delay_us\<close>, \<open>arm_wake\<close>, and \<open>driver_wait\<close>, which sleeps until an interrupt or the
  deadline and says whether the interrupt of this controller came.
\<close>

record 'h clock =
  cl_ticks :: "'h \<Rightarrow> u64 \<times> 'h"
  cl_delay_us :: "u32 \<Rightarrow> 'h \<Rightarrow> 'h"
  cl_arm_wake :: "u64 \<Rightarrow> 'h \<Rightarrow> 'h"
  cl_wait :: "u64 \<Rightarrow> 'h \<Rightarrow> bool \<times> 'h"

definition twi_ticks :: "'h clock \<Rightarrow> 'h twi \<Rightarrow> u64 \<times> 'h twi" where
  "twi_ticks E t = (let (n, h) = cl_ticks E (lk_env t) in (n, t\<lparr>lk_env := h\<rparr>))"

definition twi_delay :: "'h clock \<Rightarrow> u32 \<Rightarrow> 'h twi \<Rightarrow> 'h twi" where
  "twi_delay E us t = t\<lparr>lk_env := cl_delay_us E us (lk_env t)\<rparr>"

definition twi_load :: "'h host \<Rightarrow> twi_port \<Rightarrow> u32 \<Rightarrow> 'h twi \<Rightarrow> u32 \<times> 'h twi" where
  "twi_load B P off = load32 B (pt_base P + off)"

definition twi_store :: "'h host \<Rightarrow> twi_port \<Rightarrow> u32 \<Rightarrow> u32 \<Rightarrow> 'h twi \<Rightarrow> 'h twi" where
  "twi_store B P off v = store32 B (pt_base P + off) v"

section \<open>The transfer\<close>

definition twi_cmd :: "'h host \<Rightarrow> twi_port \<Rightarrow> u32 \<Rightarrow> 'h twi \<Rightarrow> 'h twi" where
  "twi_cmd B P bits = twi_store B P kCntr (kBusEn OR kIntEn OR kIntFlg OR bits)"

definition twi_start :: "'h host \<Rightarrow> twi_port \<Rightarrow> u8 \<Rightarrow> u8 list \<Rightarrow> nat \<Rightarrow> 'h twi \<Rightarrow> 'h twi" where
  "twi_start B P addr tx rx t = twi_cmd B P kMSta (t\<lparr>tw_addr := addr, tw_tx := tx, tw_rx_size := rx, tw_tx_idx := 0, tw_rx_got := [],
     tw_read_phase := (tx = [] \<and> rx \<noteq> 0), tw_status := I2c_Ok, tw_state := Twi_Busy\<rparr>)"

text \<open>\<open>push_completion_from_isr\<close> and \<open>set_hardware_idle_from_isr\<close> are the driver base's; the completion is recorded.\<close>

definition complete_async :: "'h clock \<Rightarrow> i2c_status \<Rightarrow> nat \<Rightarrow> 'h twi \<Rightarrow> 'h twi" where
  "complete_async E status bytes t =
    (let (now, t) = twi_ticks E t in t\<lparr>tw_completed := tw_completed t @ [(tw_active_req t,
       \<lparr>is_status = status, is_transferred = bytes, is_timestamp_us = (now * 125 div 3) div 1000,
        is_msgs_done = (if status = I2c_Ok then of_nat (length (ir_msgs (tw_active_req t))) else 0)\<rparr>)]\<rparr>)"

definition twi_finish :: "'h host \<Rightarrow> 'h clock \<Rightarrow> twi_port \<Rightarrow> i2c_status \<Rightarrow> 'h twi \<Rightarrow> 'h twi" where
  "twi_finish B E P status t =
    (let t = twi_store B P kCntr (kBusEn OR kMStp OR kIntFlg) t;
         t = t\<lparr>tw_status := status, tw_state := if status = I2c_Ok then Twi_Done else Twi_Error\<rparr> in
     if tw_async t then complete_async E status (tw_tx_idx t + length (tw_rx_got t)) (t\<lparr>tw_async := False\<rparr>) else t)"

definition after_tx :: "'h host \<Rightarrow> 'h clock \<Rightarrow> twi_port \<Rightarrow> 'h twi \<Rightarrow> 'h twi" where
  "after_tx B E P t =
    (if tw_tx_idx t < length (tw_tx t)
     then twi_cmd B P 0 (twi_store B P kData (ucast (tw_tx t ! tw_tx_idx t)) (t\<lparr>tw_tx_idx := tw_tx_idx t + 1\<rparr>))
     else if tw_rx_size t \<noteq> 0 \<and> \<not> tw_read_phase t then twi_cmd B P kMSta (t\<lparr>tw_read_phase := True\<rparr>)
     else twi_finish B E P I2c_Ok t)"

definition take_byte :: "'h host \<Rightarrow> twi_port \<Rightarrow> 'h twi \<Rightarrow> 'h twi" where
  "take_byte B P t = (if length (tw_rx_got t) < tw_rx_size t
     then let (v, t) = twi_load B P kData t in t\<lparr>tw_rx_got := tw_rx_got t @ [ucast v]\<rparr> else t)"

definition address_byte :: "u8 \<Rightarrow> bool \<Rightarrow> u32" where
  "address_byte addr read_phase = push_bit 1 (ucast addr) OR (if read_phase then 1 else 0)"

definition twi_event :: "'h host \<Rightarrow> 'h clock \<Rightarrow> twi_port \<Rightarrow> u32 \<Rightarrow> 'h twi \<Rightarrow> 'h twi" where
  "twi_event B E P stat t =
    (if stat = 0x08 \<or> stat = 0x10
     then twi_cmd B P 0 (twi_store B P kData (address_byte (tw_addr t) (tw_read_phase t)) t)
     else if stat = 0x18 \<or> stat = 0x28 then after_tx B E P t
     else if stat = 0x40 then twi_cmd B P (if tw_rx_size t > 1 then kAAck else 0) t
     else if stat = 0x50 then let t = take_byte B P t in twi_cmd B P (if tw_rx_size t - length (tw_rx_got t) > 1 then kAAck else 0) t
     else if stat = 0x58 then twi_finish B E P I2c_Ok (take_byte B P t)
     else if stat = 0x20 \<or> stat = 0x48 then twi_finish B E P I2c_NackAddress t
     else if stat = 0x30 then twi_finish B E P I2c_NackData t
     else if stat = 0x38 then twi_finish B E P I2c_ArbitrationLost t
     else twi_finish B E P I2c_BusError t)"

definition on_irq :: "'h host \<Rightarrow> 'h clock \<Rightarrow> twi_port \<Rightarrow> 'h twi \<Rightarrow> 'h twi" where
  "on_irq B E P t =
    (let (cntr, t) = twi_load B P kCntr t in
     if cntr AND kIntFlg = 0 then t
     else let (stat, t) = twi_load B P kStat t in
       if tw_state t \<noteq> Twi_Busy then twi_store B P kCntr (kBusEn OR kIntFlg) t else twi_event B E P (stat AND 0xFF) t)"

section \<open>Recovery\<close>

definition twi_set_frequency :: "'h host \<Rightarrow> twi_port \<Rightarrow> u32 \<Rightarrow> 'h twi \<Rightarrow> bool \<times> 'h twi" where
  "twi_set_frequency B P hz t =
    (let t = t\<lparr>tw_ccr := if hz \<ge> 400000 then kCcr400k else kCcr100k\<rparr> in (True, twi_store B P kCcr (tw_ccr t) t))"

definition reset_controller :: "'h host \<Rightarrow> 'h clock \<Rightarrow> twi_port \<Rightarrow> 'h twi \<Rightarrow> 'h twi" where
  "reset_controller B E P t =
    (let t = twi_store B P kCntr 0 t; t = twi_store B P kSrst 1 t; t = twi_delay E 20 t;
         t = (if tw_ccr t \<noteq> 0 then twi_store B P kCcr (tw_ccr t) t else t)
     in (twi_store B P kCntr kBusEn t)\<lparr>tw_state := Twi_Idle\<rparr>)"

text \<open>\<open>__builtin_ctz\<close>, and the positions of the pins in the configuration and data registers of their bank.\<close>

definition ctz :: "u32 \<Rightarrow> nat" where
  "ctz w = length (takeWhile (\<lambda>i. \<not> bit w i) [0..<32])"

definition pin_bank :: "twi_port \<Rightarrow> u32" where
  "pin_bank P = (if pt_cfg P \<ge> PIO_BASE \<and> pt_cfg P < PIO_BASE + 0x0400 then PIO_BASE + ((pt_cfg P - PIO_BASE) div 0x30) * 0x30 else pt_cfg P)"

definition pin_dat :: "twi_port \<Rightarrow> u32" where
  "pin_dat P = pin_bank P + 0x10"

definition pin_scl :: "twi_port \<Rightarrow> nat" where
  "pin_scl P = unat ((pt_cfg P - pin_bank P) div 4) * 8 + ctz (pt_mask P) div 4"

definition sda_high :: "'h host \<Rightarrow> twi_port \<Rightarrow> 'h twi \<Rightarrow> bool \<times> 'h twi" where
  "sda_high B P t = (let (v, t) = load32 B (pin_dat P) t in (drop_bit (pin_scl P + 1) v AND 1 \<noteq> 0, t))"

definition clear_dat :: "'h host \<Rightarrow> twi_port \<Rightarrow> nat \<Rightarrow> 'h twi \<Rightarrow> 'h twi" where
  "clear_dat B P pin t = (let (v, t) = load32 B (pin_dat P) t in store32 B (pin_dat P) (v AND NOT (push_bit pin 1)) t)"

definition scl_low :: "'h host \<Rightarrow> 'h clock \<Rightarrow> twi_port \<Rightarrow> u32 \<Rightarrow> bool \<Rightarrow> 'h twi \<Rightarrow> 'h twi" where
  "scl_low B E P inputs low t =
    twi_delay E 5 (if low then store32 B (pt_cfg P) (inputs OR push_bit (ctz (pt_mask P)) 1) (clear_dat B P (pin_scl P) t)
      else store32 B (pt_cfg P) inputs t)"

fun clock_out :: "nat \<Rightarrow> 'h host \<Rightarrow> 'h clock \<Rightarrow> twi_port \<Rightarrow> u32 \<Rightarrow> 'h twi \<Rightarrow> 'h twi" where
  "clock_out 0 B E P inputs t = t"
| "clock_out (Suc n) B E P inputs t =
    (let (high, t) = sda_high B P t in
     if high then t else clock_out n B E P inputs (scl_low B E P inputs False (scl_low B E P inputs True t)))"

definition stop_by_hand :: "'h host \<Rightarrow> 'h clock \<Rightarrow> twi_port \<Rightarrow> u32 \<Rightarrow> 'h twi \<Rightarrow> 'h twi" where
  "stop_by_hand B E P inputs t =
    (let scl = push_bit (ctz (pt_mask P)) 1; sda = push_bit (ctz (pt_mask P) + 4) 1;
         t = scl_low B E P inputs True t; t = clear_dat B P (pin_scl P + 1) t;
         t = twi_delay E 5 (store32 B (pt_cfg P) (inputs OR scl OR sda) t);
         t = twi_delay E 5 (store32 B (pt_cfg P) (inputs OR sda) t)
     in twi_delay E 5 (store32 B (pt_cfg P) inputs t))"

definition twi_recover_bus :: "'h host \<Rightarrow> 'h clock \<Rightarrow> twi_port \<Rightarrow> 'h twi \<Rightarrow> 'h twi" where
  "twi_recover_bus B E P t =
    (if pt_cfg P = 0 \<or> pt_mask P = 0 then t
     else let (cfg, t) = load32 B (pt_cfg P) t; inputs = cfg AND NOT (pt_mask P);
              t = twi_delay E 5 (store32 B (pt_cfg P) inputs t); (high, t) = sda_high B P t;
              t = (if high then t
                   else let t = stop_by_hand B E P inputs (clock_out 9 B E P inputs t) in t\<lparr>tw_recoveries := tw_recoveries t + 1\<rparr>)
       in store32 B (pt_cfg P) (inputs OR pt_func P) t)"

section \<open>Synchronous transfers\<close>

text \<open>The two waits for the STOP: with the status, before a transfer, and without, behind it.\<close>

definition stop_sent :: "'h host \<Rightarrow> twi_port \<Rightarrow> bool \<Rightarrow> 'h twi \<Rightarrow> bool \<times> 'h twi" where
  "stop_sent B P with_stat t =
    (let (c, t) = twi_load B P kCntr t in
     if c AND kMStp \<noteq> 0 then (False, t)
     else if \<not> with_stat then (True, t) else let (s, t) = twi_load B P kStat t in (s AND 0xFF = 0xF8, t))"

partial_function (option) stop_wait :: "'h host \<Rightarrow> 'h clock \<Rightarrow> twi_port \<Rightarrow> bool \<Rightarrow> u64 \<Rightarrow> 'h twi \<Rightarrow> 'h twi option" where
  "stop_wait B E port with_stat deadline t =
    (let (ok, t) = stop_sent B port with_stat t in
     if ok then Some t
     else let (now, t) = twi_ticks E t in
       if now < deadline then stop_wait B E port with_stat deadline (twi_delay E 1 t) else Some t)"

definition twi_timed_out :: "'h host \<Rightarrow> 'h clock \<Rightarrow> twi_port \<Rightarrow> 'h twi \<Rightarrow> 'h twi" where
  "twi_timed_out B E P t = (let t = twi_finish B E P I2c_Timeout t in t\<lparr>tw_timeouts := tw_timeouts t + 1, tw_needs_recovery := True\<rparr>)"

text \<open>The wait for the end of the transfer; true is a timeout.\<close>

partial_function (option) busy_wait :: "'h host \<Rightarrow> 'h clock \<Rightarrow> twi_port \<Rightarrow> u64 \<Rightarrow> 'h twi \<Rightarrow> (bool \<times> 'h twi) option" where
  "busy_wait B E port deadline t =
    (if tw_state t \<noteq> Twi_Busy then Some (False, t)
     else let (now, t) = twi_ticks E t in
       if now \<ge> deadline then Some (True, twi_timed_out B E port t)
       else let (irq, h) = cl_wait E deadline (lk_env t); t = t\<lparr>lk_env := h\<rparr>
         in busy_wait B E port deadline (if irq then on_irq B E port t else t))"

definition prepare_bus :: "'h host \<Rightarrow> 'h clock \<Rightarrow> twi_port \<Rightarrow> 'h twi \<Rightarrow> 'h twi option" where
  "prepare_bus B E P t =
    (let t = (if tw_needs_recovery t then reset_controller B E P (twi_recover_bus B E P (t\<lparr>tw_needs_recovery := False\<rparr>)) else t);
         (now, t) = twi_ticks E t in
     do { t \<leftarrow> stop_wait B E P True (now + 200 * TICKS_PER_US) t;
          let (ok, t) = stop_sent B P True t in Some (if ok then t else reset_controller B E P (twi_recover_bus B E P t)) })"

definition transfer_sync :: "'h host \<Rightarrow> 'h clock \<Rightarrow> twi_port \<Rightarrow> u8 \<Rightarrow> u8 list \<Rightarrow> nat \<Rightarrow> 'h twi \<Rightarrow> (i2c_status \<times> 'h twi) option" where
  "transfer_sync B E P addr tx rx t =
    (if tw_state t = Twi_Busy \<and> tw_async t then Some (I2c_QueueFull, t)
     else do {
       t \<leftarrow> prepare_bus B E P (if tw_state t = Twi_Busy then twi_finish B E P I2c_Cancelled t else t);
       let t = twi_start B P addr tx rx (twi_delay E 5 t); (now, t) = twi_ticks E t in do {
       (late, t) \<leftarrow> busy_wait B E P (now + kTwiTimeoutMs * TICKS_PER_MS) t;
       if late then Some (I2c_Timeout, t)
       else let (now, t) = twi_ticks E t in do {
         t \<leftarrow> stop_wait B E P False (now + 200 * TICKS_PER_US) t;
         let t = twi_delay E 5 t in Some (tw_status t, t) } } })"

definition write_read_sync :: "'h host \<Rightarrow> 'h clock \<Rightarrow> twi_port \<Rightarrow> u8 \<Rightarrow> u8 list \<Rightarrow> nat \<Rightarrow> 'h twi \<Rightarrow> (bool \<times> 'h twi) option" where
  "write_read_sync B E P addr tx rx t = map_option (\<lambda>(s, t). (s = I2c_Ok, t)) (transfer_sync B E P addr tx rx t)"

definition write_sync :: "'h host \<Rightarrow> 'h clock \<Rightarrow> twi_port \<Rightarrow> u8 \<Rightarrow> u8 list \<Rightarrow> 'h twi \<Rightarrow> (bool \<times> 'h twi) option" where
  "write_sync B E P addr tx t = map_option (\<lambda>(s, t). (s = I2c_Ok, t)) (transfer_sync B E P addr tx 0 t)"

definition read_sync :: "'h host \<Rightarrow> 'h clock \<Rightarrow> twi_port \<Rightarrow> u8 \<Rightarrow> nat \<Rightarrow> 'h twi \<Rightarrow> (bool \<times> 'h twi) option" where
  "read_sync B E P addr rx t = map_option (\<lambda>(s, t). (s = I2c_Ok, t)) (transfer_sync B E P addr [] rx t)"

section \<open>Asynchronous transfers\<close>

definition twi_capabilities :: i2c_capabilities where
  "twi_capabilities = \<lparr>ic_max_hz = 400000, ic_fifo_bytes = 0, ic_max_msg_bytes = 0, ic_max_msgs = 2, ic_ten_bit = False, ic_no_start = False,
     ic_stop_between = False, ic_zero_length_write = True, ic_bus_recovery = False, ic_dma = False, ic_per_device_hz = False,
     ic_ignore_nack = False, ic_recv_len = False, ic_step_hooks = False, ic_trigger_kinds = 0\<rparr>"

text \<open>What a request transfers: address, bytes to write, number of bytes to read; none if it is not supported.\<close>

definition twi_plan :: "i2c_request \<Rightarrow> (u8 \<times> u8 list \<times> nat) option" where
  "twi_plan req =
    (if ir_msgs req = [] \<and> \<not> ir_recover_bus req then Some (ir_slave_addr req, ir_tx_data req, ir_rx_size req)
     else let a = ucast (ir_address req AND 0x7F) in case ir_msgs req of
       [m] \<Rightarrow> if msg_is_read m then Some (a, [], im_rx m) else Some (a, im_tx m, 0)
     | [m, n] \<Rightarrow> if \<not> msg_is_read m \<and> msg_is_read n then Some (a, im_tx m, im_rx n) else None
     | _ \<Rightarrow> None)"

definition twi_start_hardware :: "'h host \<Rightarrow> 'h clock \<Rightarrow> twi_port \<Rightarrow> i2c_request \<Rightarrow> 'h twi \<Rightarrow> 'h twi" where
  "twi_start_hardware B E P req t =
    (let t = t\<lparr>tw_active_req := req\<rparr> in
     if tw_state t = Twi_Busy then complete_async E I2c_QueueFull 0 t
     else case twi_plan req of
       None \<Rightarrow> complete_async E I2c_NotSupported 0 t
     | Some (addr, tx, rx) \<Rightarrow>
         let t = t\<lparr>tw_async := True\<rparr>; us = (if ir_timeout_us req \<noteq> 0 then ir_timeout_us req else kI2cDefaultTimeoutUs);
             (now, t) = twi_ticks E t; t = t\<lparr>tw_deadline := now + ucast us * TICKS_PER_US\<rparr>;
             t = t\<lparr>lk_env := cl_arm_wake E (tw_deadline t) (lk_env t)\<rparr>
         in twi_start B P addr tx rx t)"

definition poll_timeout :: "'h host \<Rightarrow> 'h clock \<Rightarrow> twi_port \<Rightarrow> 'h twi \<Rightarrow> 'h twi" where
  "poll_timeout B E P t =
    (if \<not> tw_async t \<or> tw_state t \<noteq> Twi_Busy then t
     else let (now, t) = twi_ticks E t in
       if now \<ge> tw_deadline t
       then twi_finish B E P I2c_Timeout (t\<lparr>tw_timeouts := tw_timeouts t + 1, tw_needs_recovery := True\<rparr>) else t)"

section \<open>A controller with a device\<close>

text \<open>
  What the controller is documented to do, with one device on the bus: a write to the control register
  with the interrupt flag clears it and starts the next bus step, after which the status says what
  happened and the flag is up again. The device sends the bytes of \<open>hw_reply\<close>. A device that is absent
  does not acknowledge its address, a dead controller never raises the flag. \<open>hw_wire\<close> is what one would
  see on the bus; of a byte read, whether the master acknowledged it.
\<close>

datatype wire = W_start | W_byte u8 | W_read u8 bool | W_stop

record twi_hw =
  hw_ticks :: nat
  hw_flag :: bool
  hw_stat :: u32
  hw_data :: u32
  hw_wire :: "wire list"
  hw_reply :: "u8 list"
  hw_present :: bool
  hw_dead :: bool

definition hw_control :: "u32 \<Rightarrow> twi_hw \<Rightarrow> twi_hw" where
  "hw_control v h =
    (if v AND kMStp \<noteq> 0 then h\<lparr>hw_wire := hw_wire h @ [W_stop], hw_stat := 0xF8, hw_flag := False\<rparr>
     else if v AND kIntFlg = 0 then h
     else if v AND kMSta \<noteq> 0
     then h\<lparr>hw_wire := hw_wire h @ [W_start], hw_stat := if hw_stat h = 0xF8 then 0x08 else 0x10, hw_flag := \<not> hw_dead h\<rparr>
     else if hw_stat h = 0x08 \<or> hw_stat h = 0x10
     then h\<lparr>hw_wire := hw_wire h @ [W_byte (ucast (hw_data h))], hw_flag := \<not> hw_dead h,
            hw_stat := if hw_data h AND 1 = 0 then (if hw_present h then 0x18 else 0x20) else (if hw_present h then 0x40 else 0x48)\<rparr>
     else if hw_stat h = 0x18 \<or> hw_stat h = 0x28
     then h\<lparr>hw_wire := hw_wire h @ [W_byte (ucast (hw_data h))], hw_flag := \<not> hw_dead h, hw_stat := 0x28\<rparr>
     else if hw_stat h = 0x40 \<or> hw_stat h = 0x50
     then h\<lparr>hw_wire := hw_wire h @ [W_read (hd (hw_reply h)) (v AND kAAck \<noteq> 0)], hw_data := ucast (hd (hw_reply h)), hw_reply := tl (hw_reply h),
            hw_flag := \<not> hw_dead h, hw_stat := if v AND kAAck \<noteq> 0 then 0x50 else 0x58\<rparr>
     else h\<lparr>hw_flag := False\<rparr>)"

definition hw_host :: "twi_hw host" where
  "hw_host = \<lparr>ho_load = \<lambda>a n h. (if a = kCntr then (if hw_flag h then ucast kIntFlg else 0) else if a = kStat then ucast (hw_stat h)
       else if a = kData then ucast (hw_data h) else 0, h),
     ho_store = \<lambda>a n v h. if a = kData then h\<lparr>hw_data := ucast v\<rparr> else if a = kCntr then hw_control (ucast v) h else h\<rparr>"

definition hw_clock :: "twi_hw clock" where
  "hw_clock = \<lparr>cl_ticks = \<lambda>h. (of_nat (min (hw_ticks h) (2 ^ 64 - 1)), h), cl_delay_us = \<lambda>us h. h\<lparr>hw_ticks := hw_ticks h + 24 * unat us\<rparr>, cl_arm_wake = \<lambda>d h. h,
     cl_wait = \<lambda>d h. (hw_flag h, h\<lparr>hw_ticks := Suc (hw_ticks h)\<rparr>)\<rparr>"

definition hw_port :: twi_port where
  "hw_port = \<lparr>pt_base = 0, pt_cfg = 0, pt_mask = 0, pt_func = 0\<rparr>"

fun read_wire :: "u8 list \<Rightarrow> wire list" where
  "read_wire [] = []"
| "read_wire (d # ds) = W_read d (ds \<noteq> []) # read_wire ds"

text \<open>The bus of a transfer: the write part, unless there is only something to read, then the read part, then STOP.\<close>

definition transfer_wire :: "u8 \<Rightarrow> u8 list \<Rightarrow> u8 list \<Rightarrow> wire list" where
  "transfer_wire addr tx ds = (if tx = [] \<and> ds \<noteq> [] then [] else [W_start, W_byte (push_bit 1 addr)] @ map W_byte tx) @
     (if ds = [] then [] else [W_start, W_byte (push_bit 1 addr OR 1)] @ read_wire ds) @ [W_stop]"

lemma word_in_word [simp]: "(ucast (ucast (x :: u32) :: u64) :: u32) = x"
  by (rule bit_word_eqI) (simp add: bit_simps)

lemma hw_load:
  "twi_load hw_host hw_port kCntr t = (if hw_flag (lk_env t) then kIntFlg else 0, t\<lparr>lk_log := lk_log t @ [Read kCntr 4 (if hw_flag (lk_env t) then ucast kIntFlg else 0)]\<rparr>)"
  "twi_load hw_host hw_port kStat t = (hw_stat (lk_env t), t\<lparr>lk_log := lk_log t @ [Read kStat 4 (ucast (hw_stat (lk_env t)))]\<rparr>)"
  "twi_load hw_host hw_port kData t = (hw_data (lk_env t), t\<lparr>lk_log := lk_log t @ [Read kData 4 (ucast (hw_data (lk_env t)))]\<rparr>)"
  by (simp_all add: twi_load_def load32_def hload_def hw_host_def hw_port_def twi_consts)

lemma hw_store:
  "twi_store hw_host hw_port kData v t = t\<lparr>lk_log := lk_log t @ [Write kData 4 (ucast v)], lk_env := (lk_env t)\<lparr>hw_data := v\<rparr>\<rparr>"
  "twi_store hw_host hw_port kCntr v t = t\<lparr>lk_log := lk_log t @ [Write kCntr 4 (ucast v)], lk_env := hw_control v (lk_env t)\<rparr>"
  by (simp_all add: twi_store_def store32_def hstore_def hw_host_def hw_port_def twi_consts)

lemma hw_cmd:
  "twi_cmd hw_host hw_port 0 t = t\<lparr>lk_log := lk_log t @ [Write kCntr 4 (ucast (kBusEn OR kIntEn OR kIntFlg))], lk_env := hw_control 0xC8 (lk_env t)\<rparr>"
  "twi_cmd hw_host hw_port kAAck t = t\<lparr>lk_log := lk_log t @ [Write kCntr 4 (ucast (kBusEn OR kIntEn OR kIntFlg OR kAAck))], lk_env := hw_control 0xCC (lk_env t)\<rparr>"
  "twi_cmd hw_host hw_port kMSta t = t\<lparr>lk_log := lk_log t @ [Write kCntr 4 (ucast (kBusEn OR kIntEn OR kIntFlg OR kMSta))], lk_env := hw_control 0xE8 (lk_env t)\<rparr>"
  by (simp_all add: twi_cmd_def hw_store, simp_all add: twi_consts)

lemma hw_control_cmd:
  "hw_control 0xE8 h = h\<lparr>hw_wire := hw_wire h @ [W_start], hw_stat := if hw_stat h = 0xF8 then 0x08 else 0x10, hw_flag := \<not> hw_dead h\<rparr>"
  "hw_control 0x58 h = h\<lparr>hw_wire := hw_wire h @ [W_stop], hw_stat := 0xF8, hw_flag := False\<rparr>"
  by (simp_all add: hw_control_def twi_consts)

lemma hw_control_step:
  "v = 0xC8 \<or> v = 0xCC \<Longrightarrow> hw_stat h = 0x08 \<or> hw_stat h = 0x10 \<Longrightarrow> hw_control v h =
    h\<lparr>hw_wire := hw_wire h @ [W_byte (ucast (hw_data h))], hw_flag := \<not> hw_dead h,
      hw_stat := if hw_data h AND 1 = 0 then (if hw_present h then 0x18 else 0x20) else (if hw_present h then 0x40 else 0x48)\<rparr>"
  "v = 0xC8 \<or> v = 0xCC \<Longrightarrow> hw_stat h = 0x18 \<or> hw_stat h = 0x28 \<Longrightarrow> hw_control v h =
    h\<lparr>hw_wire := hw_wire h @ [W_byte (ucast (hw_data h))], hw_flag := \<not> hw_dead h, hw_stat := 0x28\<rparr>"
  "v = 0xC8 \<or> v = 0xCC \<Longrightarrow> hw_stat h = 0x40 \<or> hw_stat h = 0x50 \<Longrightarrow> hw_control v h =
    h\<lparr>hw_wire := hw_wire h @ [W_read (hd (hw_reply h)) (v = 0xCC)], hw_data := ucast (hd (hw_reply h)), hw_reply := tl (hw_reply h),
      hw_flag := \<not> hw_dead h, hw_stat := if v = 0xCC then 0x50 else 0x58\<rparr>"
  by (elim disjE; simp add: hw_control_def twi_consts)+

text \<open>One pass of the wait: the clock moves, the interrupt runs.\<close>

definition hw_pass :: "twi_hw twi \<Rightarrow> twi_hw twi" where
  "hw_pass t = on_irq hw_host hw_clock hw_port (t\<lparr>lk_env := (lk_env t)\<lparr>hw_ticks := Suc (hw_ticks (lk_env t))\<rparr>\<rparr>)"

lemma hw_clock [simp]:
  "cl_ticks hw_clock h = (of_nat (min (hw_ticks h) (2 ^ 64 - 1)), h)" "cl_delay_us hw_clock us h = h\<lparr>hw_ticks := hw_ticks h + 24 * unat us\<rparr>" "cl_arm_wake hw_clock d h = h"
  "cl_wait hw_clock d h = (hw_flag h, h\<lparr>hw_ticks := Suc (hw_ticks h)\<rparr>)"
  by (simp_all add: hw_clock_def)

lemma busy_wait_pass:
  assumes "tw_state t = Twi_Busy" "hw_ticks (lk_env t) < unat d" "hw_flag (lk_env t)"
  shows "busy_wait hw_host hw_clock hw_port d t = busy_wait hw_host hw_clock hw_port d (hw_pass t)"
proof -
  have "\<not> d \<le> of_nat (min (hw_ticks (lk_env t)) (2 ^ 64 - 1))" using assms(2) unsigned_less [of d]
    by (simp add: not_le word_less_nat_alt unat_of_nat)
  then show ?thesis using assms(1,3) by (subst busy_wait.simps) (simp add: twi_ticks_def hw_pass_def)
qed

lemma hw_pass_event:
  assumes "tw_state t = Twi_Busy" "hw_flag (lk_env t)" "hw_stat (lk_env t) \<in> {0x08, 0x10, 0x18, 0x20, 0x28, 0x40, 0x48, 0x50, 0x58}"
  shows "\<exists>l. hw_pass t = twi_event hw_host hw_clock hw_port (hw_stat (lk_env t))
    (t\<lparr>lk_env := (lk_env t)\<lparr>hw_ticks := Suc (hw_ticks (lk_env t))\<rparr>, lk_log := l\<rparr>)"
proof -
  have "hw_stat (lk_env t) AND 0xFF = hw_stat (lk_env t)" using assms(3) by auto
  moreover have "kIntFlg AND kIntFlg \<noteq> 0" by (simp add: twi_consts)
  ultimately have "hw_pass t = twi_event hw_host hw_clock hw_port (hw_stat (lk_env t)) (t\<lparr>lk_env := (lk_env t)\<lparr>hw_ticks := Suc (hw_ticks (lk_env t))\<rparr>,
      lk_log := lk_log t @ [Read kCntr 4 (ucast kIntFlg), Read kStat 4 (ucast (hw_stat (lk_env t)))]\<rparr>)"
    using assms(1,2) by (simp add: hw_pass_def on_irq_def hw_load del: and.idem)
  then show ?thesis by (intro exI [of _ "lk_log t @ [Read kCntr 4 (ucast kIntFlg), Read kStat 4 (ucast (hw_stat (lk_env t)))]"]) simp
qed

text \<open>What a pass leaves alone: \<open>n\<close> passes.\<close>

definition passed :: "nat \<Rightarrow> twi_hw twi \<Rightarrow> twi_hw twi \<Rightarrow> bool" where
  "passed n t u = (tw_async u = tw_async t \<and> tw_addr u = tw_addr t \<and> tw_tx u = tw_tx t \<and> tw_rx_size u = tw_rx_size t \<and>
     tw_needs_recovery u = tw_needs_recovery t \<and> tw_timeouts u = tw_timeouts t \<and> tw_recoveries u = tw_recoveries t \<and>
     (\<not> tw_async t \<longrightarrow> tw_completed u = tw_completed t) \<and>
     hw_present (lk_env u) = hw_present (lk_env t) \<and> hw_dead (lk_env u) = hw_dead (lk_env t) \<and> hw_ticks (lk_env u) = hw_ticks (lk_env t) + n)"

lemma passed_trans: "passed m t u \<Longrightarrow> passed n u v \<Longrightarrow> passed (m + n) t v"
  by (simp add: passed_def)

lemma address_byte:
  "address_byte a r AND 1 = (if r then 1 else 0)"
  "(ucast (address_byte a r) :: u8) = push_bit 1 a OR (if r then 1 else 0)"
  unfolding address_byte_def by (rule bit_word_eqI, auto simp: bit_simps simp del: push_bit_Suc push_bit_of_1)+

lemma log_last: "t\<lparr>lk_log := l, lk_env := h\<rparr> = t\<lparr>lk_env := h, lk_log := l\<rparr>"
  by (cases t) simp

lemma pass_address:
  assumes "tw_state t = Twi_Busy" "hw_flag (lk_env t)" "hw_stat (lk_env t) \<in> {0x08, 0x10}" "\<not> hw_dead (lk_env t)"
  shows "passed 1 t (hw_pass t)" "tw_state (hw_pass t) = Twi_Busy" "hw_flag (lk_env (hw_pass t))"
    "hw_stat (lk_env (hw_pass t)) = (if tw_read_phase t then (if hw_present (lk_env t) then 0x40 else 0x48) else (if hw_present (lk_env t) then 0x18 else 0x20))"
    "hw_wire (lk_env (hw_pass t)) = hw_wire (lk_env t) @ [W_byte (push_bit 1 (tw_addr t) OR (if tw_read_phase t then 1 else 0))]"
    "tw_tx_idx (hw_pass t) = tw_tx_idx t" "tw_read_phase (hw_pass t) = tw_read_phase t" "tw_rx_got (hw_pass t) = tw_rx_got t"
    "hw_reply (lk_env (hw_pass t)) = hw_reply (lk_env t)"
proof -
  obtain l where "hw_pass t = twi_event hw_host hw_clock hw_port (hw_stat (lk_env t)) (t\<lparr>lk_env := (lk_env t)\<lparr>hw_ticks := Suc (hw_ticks (lk_env t))\<rparr>, lk_log := l\<rparr>)"
    using hw_pass_event [of t] assms by auto
  then have "\<exists>l. hw_pass t = t\<lparr>lk_env := hw_control 0xC8 ((lk_env t)\<lparr>hw_ticks := Suc (hw_ticks (lk_env t)), hw_data := address_byte (tw_addr t) (tw_read_phase t)\<rparr>), lk_log := l\<rparr>"
    using assms(3) by (auto simp: twi_event_def hw_cmd hw_store log_last)
  then obtain l where l: "hw_pass t = t\<lparr>lk_env := hw_control 0xC8 ((lk_env t)\<lparr>hw_ticks := Suc (hw_ticks (lk_env t)), hw_data := address_byte (tw_addr t) (tw_read_phase t)\<rparr>), lk_log := l\<rparr>" ..
  note c = hw_control_step(1) [of "0xC8" "(lk_env t)\<lparr>hw_ticks := Suc (hw_ticks (lk_env t)), hw_data := address_byte (tw_addr t) (tw_read_phase t)\<rparr>"]
  show "passed 1 t (hw_pass t)" "tw_state (hw_pass t) = Twi_Busy" "hw_flag (lk_env (hw_pass t))"
    "hw_stat (lk_env (hw_pass t)) = (if tw_read_phase t then (if hw_present (lk_env t) then 0x40 else 0x48) else (if hw_present (lk_env t) then 0x18 else 0x20))"
    "hw_wire (lk_env (hw_pass t)) = hw_wire (lk_env t) @ [W_byte (push_bit 1 (tw_addr t) OR (if tw_read_phase t then 1 else 0))]"
    "tw_tx_idx (hw_pass t) = tw_tx_idx t" "tw_read_phase (hw_pass t) = tw_read_phase t" "tw_rx_got (hw_pass t) = tw_rx_got t"
    "hw_reply (lk_env (hw_pass t)) = hw_reply (lk_env t)"
    using assms(1,3,4) unfolding l by (simp_all add: c address_byte passed_def)
qed

lemma u8_through_u32 [simp]: "(ucast (ucast (x :: u8) :: u32) :: u8) = x"
  by (rule bit_word_eqI) (simp add: bit_simps)

lemma env_order: "t\<lparr>tw_tx_idx := i, lk_env := h, lk_log := l\<rparr> = t\<lparr>lk_env := h, lk_log := l, tw_tx_idx := i\<rparr>"
  "t\<lparr>tw_read_phase := b, lk_env := h, lk_log := l\<rparr> = t\<lparr>lk_env := h, lk_log := l, tw_read_phase := b\<rparr>"
  by (cases t; simp)+

lemma pass_write:
  assumes "tw_state t = Twi_Busy" "hw_flag (lk_env t)" "hw_stat (lk_env t) \<in> {0x18, 0x28}" "\<not> hw_dead (lk_env t)"
    and "tw_tx_idx t < length (tw_tx t)"
  shows "passed 1 t (hw_pass t)" "tw_state (hw_pass t) = Twi_Busy" "hw_flag (lk_env (hw_pass t))"
    "hw_stat (lk_env (hw_pass t)) = 0x28" "hw_wire (lk_env (hw_pass t)) = hw_wire (lk_env t) @ [W_byte (tw_tx t ! tw_tx_idx t)]"
    "tw_tx_idx (hw_pass t) = tw_tx_idx t + 1" "tw_read_phase (hw_pass t) = tw_read_phase t" "tw_rx_got (hw_pass t) = tw_rx_got t"
    "hw_reply (lk_env (hw_pass t)) = hw_reply (lk_env t)"
proof -
  let ?h = "(lk_env t)\<lparr>hw_ticks := Suc (hw_ticks (lk_env t)), hw_data := ucast (tw_tx t ! tw_tx_idx t)\<rparr>"
  obtain l where "hw_pass t = twi_event hw_host hw_clock hw_port (hw_stat (lk_env t)) (t\<lparr>lk_env := (lk_env t)\<lparr>hw_ticks := Suc (hw_ticks (lk_env t))\<rparr>, lk_log := l\<rparr>)"
    using hw_pass_event [of t] assms by auto
  then have "\<exists>l. hw_pass t = t\<lparr>tw_tx_idx := tw_tx_idx t + 1, lk_env := hw_control 0xC8 ?h, lk_log := l\<rparr>"
    using assms(3,5) by (auto simp: twi_event_def after_tx_def hw_cmd hw_store log_last env_order)
  then obtain l where l: "hw_pass t = t\<lparr>tw_tx_idx := tw_tx_idx t + 1, lk_env := hw_control 0xC8 ?h, lk_log := l\<rparr>" ..
  have c: "hw_control 0xC8 ?h = ?h\<lparr>hw_wire := hw_wire (lk_env t) @ [W_byte (tw_tx t ! tw_tx_idx t)], hw_flag := True, hw_stat := 0x28\<rparr>"
    using assms(3,4) by (subst hw_control_step(2)) auto
  show "passed 1 t (hw_pass t)" "tw_state (hw_pass t) = Twi_Busy" "hw_flag (lk_env (hw_pass t))"
    "hw_stat (lk_env (hw_pass t)) = 0x28" "hw_wire (lk_env (hw_pass t)) = hw_wire (lk_env t) @ [W_byte (tw_tx t ! tw_tx_idx t)]"
    "tw_tx_idx (hw_pass t) = tw_tx_idx t + 1" "tw_read_phase (hw_pass t) = tw_read_phase t" "tw_rx_got (hw_pass t) = tw_rx_got t"
    "hw_reply (lk_env (hw_pass t)) = hw_reply (lk_env t)"
    using assms(1) unfolding l c by (simp_all add: passed_def)
qed

lemma pass_turn:
  assumes "tw_state t = Twi_Busy" "hw_flag (lk_env t)" "hw_stat (lk_env t) \<in> {0x18, 0x28}" "\<not> hw_dead (lk_env t)"
    and "tw_tx_idx t = length (tw_tx t)" "tw_rx_size t \<noteq> 0" "\<not> tw_read_phase t"
  shows "passed 1 t (hw_pass t)" "tw_state (hw_pass t) = Twi_Busy" "hw_flag (lk_env (hw_pass t))"
    "hw_stat (lk_env (hw_pass t)) = 0x10" "hw_wire (lk_env (hw_pass t)) = hw_wire (lk_env t) @ [W_start]"
    "tw_read_phase (hw_pass t)" "tw_rx_got (hw_pass t) = tw_rx_got t" "hw_reply (lk_env (hw_pass t)) = hw_reply (lk_env t)"
proof -
  let ?h = "(lk_env t)\<lparr>hw_ticks := Suc (hw_ticks (lk_env t))\<rparr>"
  obtain l where "hw_pass t = twi_event hw_host hw_clock hw_port (hw_stat (lk_env t)) (t\<lparr>lk_env := (lk_env t)\<lparr>hw_ticks := Suc (hw_ticks (lk_env t))\<rparr>, lk_log := l\<rparr>)"
    using hw_pass_event [of t] assms by auto
  then have "\<exists>l. hw_pass t = t\<lparr>tw_read_phase := True, lk_env := hw_control 0xE8 ?h, lk_log := l\<rparr>"
    using assms(3,5-7) by (auto simp: twi_event_def after_tx_def hw_cmd log_last env_order)
  then obtain l where l: "hw_pass t = t\<lparr>tw_read_phase := True, lk_env := hw_control 0xE8 ?h, lk_log := l\<rparr>" ..
  show "passed 1 t (hw_pass t)" "tw_state (hw_pass t) = Twi_Busy" "hw_flag (lk_env (hw_pass t))"
    "hw_stat (lk_env (hw_pass t)) = 0x10" "hw_wire (lk_env (hw_pass t)) = hw_wire (lk_env t) @ [W_start]"
    "tw_read_phase (hw_pass t)" "tw_rx_got (hw_pass t) = tw_rx_got t" "hw_reply (lk_env (hw_pass t)) = hw_reply (lk_env t)"
    using assms(1,3,4) unfolding l hw_control_cmd by (auto simp: passed_def)
qed

text \<open>The end of a transfer.\<close>

lemma hw_finish:
  "\<exists>l c. twi_finish hw_host hw_clock hw_port s t = t\<lparr>tw_status := s, tw_state := if s = I2c_Ok then Twi_Done else Twi_Error, tw_async := False,
    tw_completed := c, lk_env := hw_control 0x58 (lk_env t), lk_log := l\<rparr> \<and> (\<not> tw_async t \<longrightarrow> c = tw_completed t)"
proof -
  have v: "kBusEn OR kMStp OR kIntFlg = 0x58" by (simp add: twi_consts)
  show ?thesis by (cases t) (simp add: twi_finish_def v hw_store complete_async_def twi_ticks_def Let_def)
qed

lemma busy_wait_done: "tw_state t \<noteq> Twi_Busy \<Longrightarrow> busy_wait B E P d t = Some (False, t)"
  by (subst busy_wait.simps) simp

lemma pass_end:
  assumes "tw_state t = Twi_Busy" "hw_flag (lk_env t)" "hw_stat (lk_env t) \<in> {0x18, 0x28}"
    and "tw_tx_idx t = length (tw_tx t)" "tw_rx_size t = 0 \<or> tw_read_phase t"
  shows "passed 1 t (hw_pass t) \<or> tw_async t" "tw_state (hw_pass t) = Twi_Done" "tw_status (hw_pass t) = I2c_Ok"
    "hw_stat (lk_env (hw_pass t)) = 0xF8" "\<not> hw_flag (lk_env (hw_pass t))" "hw_wire (lk_env (hw_pass t)) = hw_wire (lk_env t) @ [W_stop]"
    "tw_rx_got (hw_pass t) = tw_rx_got t"
proof -
  obtain l where "hw_pass t = twi_event hw_host hw_clock hw_port (hw_stat (lk_env t)) (t\<lparr>lk_env := (lk_env t)\<lparr>hw_ticks := Suc (hw_ticks (lk_env t))\<rparr>, lk_log := l\<rparr>)"
    using hw_pass_event [of t] assms by auto
  then have f: "hw_pass t = twi_finish hw_host hw_clock hw_port I2c_Ok (t\<lparr>lk_env := (lk_env t)\<lparr>hw_ticks := Suc (hw_ticks (lk_env t))\<rparr>, lk_log := l\<rparr>)"
    using assms(3-5) by (auto simp: twi_event_def after_tx_def)
  obtain l' c where l: "hw_pass t = (t\<lparr>lk_env := (lk_env t)\<lparr>hw_ticks := Suc (hw_ticks (lk_env t))\<rparr>, lk_log := l\<rparr>)\<lparr>tw_status := I2c_Ok, tw_state := Twi_Done, tw_async := False,
    tw_completed := c, lk_env := hw_control 0x58 ((lk_env t)\<lparr>hw_ticks := Suc (hw_ticks (lk_env t))\<rparr>), lk_log := l'\<rparr>" "\<not> tw_async t \<longrightarrow> c = tw_completed t"
    using hw_finish [of I2c_Ok "t\<lparr>lk_env := (lk_env t)\<lparr>hw_ticks := Suc (hw_ticks (lk_env t))\<rparr>, lk_log := l\<rparr>"] unfolding f by auto
  show "passed 1 t (hw_pass t) \<or> tw_async t" "tw_state (hw_pass t) = Twi_Done" "tw_status (hw_pass t) = I2c_Ok"
    "hw_stat (lk_env (hw_pass t)) = 0xF8" "\<not> hw_flag (lk_env (hw_pass t))" "hw_wire (lk_env (hw_pass t)) = hw_wire (lk_env t) @ [W_stop]"
    "tw_rx_got (hw_pass t) = tw_rx_got t"
    using l(2) unfolding l(1) hw_control_cmd by (auto simp: passed_def)
qed

lemma env_order_rx: "t\<lparr>tw_rx_got := g, lk_env := h, lk_log := l\<rparr> = t\<lparr>lk_env := h, lk_log := l, tw_rx_got := g\<rparr>"
  by (cases t) simp

lemma pass_first_read:
  assumes "tw_state t = Twi_Busy" "hw_flag (lk_env t)" "hw_stat (lk_env t) = 0x40" "\<not> hw_dead (lk_env t)"
    and "hw_reply (lk_env t) = d # r" "tw_rx_size t = Suc (length r)"
  shows "passed 1 t (hw_pass t)" "tw_state (hw_pass t) = Twi_Busy" "hw_flag (lk_env (hw_pass t))"
    "hw_stat (lk_env (hw_pass t)) = (if r = [] then 0x58 else 0x50)" "hw_wire (lk_env (hw_pass t)) = hw_wire (lk_env t) @ [W_read d (r \<noteq> [])]"
    "hw_data (lk_env (hw_pass t)) = ucast d" "hw_reply (lk_env (hw_pass t)) = r" "tw_rx_got (hw_pass t) = tw_rx_got t"
proof -
  let ?h = "(lk_env t)\<lparr>hw_ticks := Suc (hw_ticks (lk_env t))\<rparr>" and ?v = "if r = [] then 0xC8 else 0xCC :: u32"
  obtain l where "hw_pass t = twi_event hw_host hw_clock hw_port (hw_stat (lk_env t)) (t\<lparr>lk_env := (lk_env t)\<lparr>hw_ticks := Suc (hw_ticks (lk_env t))\<rparr>, lk_log := l\<rparr>)"
    using hw_pass_event [of t] assms by auto
  then have "\<exists>l. hw_pass t = t\<lparr>lk_env := hw_control ?v ?h, lk_log := l\<rparr>"
    using assms(3,6) by (auto simp: twi_event_def hw_cmd log_last)
  then obtain l where l: "hw_pass t = t\<lparr>lk_env := hw_control ?v ?h, lk_log := l\<rparr>" ..
  have c: "hw_control ?v ?h = ?h\<lparr>hw_wire := hw_wire (lk_env t) @ [W_read d (r \<noteq> [])], hw_data := ucast d, hw_reply := r,
      hw_flag := True, hw_stat := if r = [] then 0x58 else 0x50\<rparr>"
    using assms(3-5) by (subst hw_control_step(3)) auto
  show "passed 1 t (hw_pass t)" "tw_state (hw_pass t) = Twi_Busy" "hw_flag (lk_env (hw_pass t))"
    "hw_stat (lk_env (hw_pass t)) = (if r = [] then 0x58 else 0x50)" "hw_wire (lk_env (hw_pass t)) = hw_wire (lk_env t) @ [W_read d (r \<noteq> [])]"
    "hw_data (lk_env (hw_pass t)) = ucast d" "hw_reply (lk_env (hw_pass t)) = r" "tw_rx_got (hw_pass t) = tw_rx_got t"
    using assms(1) unfolding l c by (simp_all add: passed_def)
qed

lemma pass_next_read:
  assumes "tw_state t = Twi_Busy" "hw_flag (lk_env t)" "hw_stat (lk_env t) = 0x50" "\<not> hw_dead (lk_env t)"
    and "hw_data (lk_env t) = ucast e" "hw_reply (lk_env t) = d # r" "tw_rx_size t = length (tw_rx_got t) + Suc (Suc (length r))"
  shows "passed 1 t (hw_pass t)" "tw_state (hw_pass t) = Twi_Busy" "hw_flag (lk_env (hw_pass t))"
    "hw_stat (lk_env (hw_pass t)) = (if r = [] then 0x58 else 0x50)" "hw_wire (lk_env (hw_pass t)) = hw_wire (lk_env t) @ [W_read d (r \<noteq> [])]"
    "hw_data (lk_env (hw_pass t)) = ucast d" "hw_reply (lk_env (hw_pass t)) = r" "tw_rx_got (hw_pass t) = tw_rx_got t @ [e]"
proof -
  let ?h = "(lk_env t)\<lparr>hw_ticks := Suc (hw_ticks (lk_env t))\<rparr>" and ?v = "if r = [] then 0xC8 else 0xCC :: u32"
  obtain l where "hw_pass t = twi_event hw_host hw_clock hw_port (hw_stat (lk_env t)) (t\<lparr>lk_env := (lk_env t)\<lparr>hw_ticks := Suc (hw_ticks (lk_env t))\<rparr>, lk_log := l\<rparr>)"
    using hw_pass_event [of t] assms by auto
  then have "\<exists>l. hw_pass t = t\<lparr>tw_rx_got := tw_rx_got t @ [e], lk_env := hw_control ?v ?h, lk_log := l\<rparr>"
    using assms(3,5,7) by (auto simp: twi_event_def take_byte_def hw_load hw_cmd log_last env_order_rx)
  then obtain l where l: "hw_pass t = t\<lparr>tw_rx_got := tw_rx_got t @ [e], lk_env := hw_control ?v ?h, lk_log := l\<rparr>" ..
  have c: "hw_control ?v ?h = ?h\<lparr>hw_wire := hw_wire (lk_env t) @ [W_read d (r \<noteq> [])], hw_data := ucast d, hw_reply := r,
      hw_flag := True, hw_stat := if r = [] then 0x58 else 0x50\<rparr>"
    using assms(3,4,6) by (subst hw_control_step(3)) auto
  show "passed 1 t (hw_pass t)" "tw_state (hw_pass t) = Twi_Busy" "hw_flag (lk_env (hw_pass t))"
    "hw_stat (lk_env (hw_pass t)) = (if r = [] then 0x58 else 0x50)" "hw_wire (lk_env (hw_pass t)) = hw_wire (lk_env t) @ [W_read d (r \<noteq> [])]"
    "hw_data (lk_env (hw_pass t)) = ucast d" "hw_reply (lk_env (hw_pass t)) = r" "tw_rx_got (hw_pass t) = tw_rx_got t @ [e]"
    using assms(1) unfolding l c by (simp_all add: passed_def)
qed

text \<open>The end states: what is true of the driver and the bus when the wait is over.\<close>

definition ended :: "i2c_status \<Rightarrow> wire list \<Rightarrow> u8 list \<Rightarrow> nat \<Rightarrow> twi_hw twi \<Rightarrow> twi_hw twi \<Rightarrow> bool" where
  "ended s w g n t u = (passed n t u \<and> tw_state u = (if s = I2c_Ok then Twi_Done else Twi_Error) \<and> tw_status u = s \<and> hw_stat (lk_env u) = 0xF8 \<and>
     \<not> hw_flag (lk_env u) \<and> hw_wire (lk_env u) = hw_wire (lk_env t) @ w @ [W_stop] \<and> tw_rx_got u = tw_rx_got t @ g)"

lemma finish_ended:
  assumes "hw_pass t = twi_finish hw_host hw_clock hw_port s (t\<lparr>lk_env := (lk_env t)\<lparr>hw_ticks := Suc (hw_ticks (lk_env t))\<rparr>, lk_log := l, tw_rx_got := tw_rx_got t @ g\<rparr>)"
    and "\<not> tw_async t"
  shows "ended s [] g 1 t (hw_pass t)"
proof -
  obtain l' c where l: "hw_pass t = (t\<lparr>lk_env := (lk_env t)\<lparr>hw_ticks := Suc (hw_ticks (lk_env t))\<rparr>, lk_log := l, tw_rx_got := tw_rx_got t @ g\<rparr>)\<lparr>tw_status := s,
      tw_state := if s = I2c_Ok then Twi_Done else Twi_Error, tw_async := False,
      tw_completed := c, lk_env := hw_control 0x58 ((lk_env t)\<lparr>hw_ticks := Suc (hw_ticks (lk_env t))\<rparr>), lk_log := l'\<rparr>" "c = tw_completed t"
    using hw_finish [of s "t\<lparr>lk_env := (lk_env t)\<lparr>hw_ticks := Suc (hw_ticks (lk_env t))\<rparr>, lk_log := l, tw_rx_got := tw_rx_got t @ g\<rparr>"] assms(2) unfolding assms(1) by auto
  show ?thesis using assms(2) l(2) unfolding l(1) hw_control_cmd ended_def by (simp add: passed_def)
qed

lemma got_same: "t\<lparr>lk_env := h, lk_log := l, tw_rx_got := tw_rx_got t @ []\<rparr> = t\<lparr>lk_env := h, lk_log := l\<rparr>"
  by (cases t) simp

lemma ended_write:
  assumes "tw_state t = Twi_Busy" "hw_flag (lk_env t)" "hw_stat (lk_env t) \<in> {0x18, 0x28}" "tw_tx_idx t = length (tw_tx t)"
    "tw_rx_size t = 0 \<or> tw_read_phase t" "\<not> tw_async t"
  shows "ended I2c_Ok [] [] 1 t (hw_pass t)"
proof -
  obtain l where "hw_pass t = twi_event hw_host hw_clock hw_port (hw_stat (lk_env t)) (t\<lparr>lk_env := (lk_env t)\<lparr>hw_ticks := Suc (hw_ticks (lk_env t))\<rparr>, lk_log := l\<rparr>)"
    using hw_pass_event [of t] assms by auto
  then show ?thesis using assms(3-6) by (intro finish_ended [where l = l]) (auto simp: twi_event_def after_tx_def got_same)
qed

lemma ended_read:
  assumes "tw_state t = Twi_Busy" "hw_flag (lk_env t)" "hw_stat (lk_env t) = 0x58" "hw_data (lk_env t) = ucast e"
    "length (tw_rx_got t) < tw_rx_size t" "\<not> tw_async t"
  shows "ended I2c_Ok [] [e] 1 t (hw_pass t)"
proof -
  obtain l where "hw_pass t = twi_event hw_host hw_clock hw_port (hw_stat (lk_env t)) (t\<lparr>lk_env := (lk_env t)\<lparr>hw_ticks := Suc (hw_ticks (lk_env t))\<rparr>, lk_log := l\<rparr>)"
    using hw_pass_event [of t] assms by auto
  then have "\<exists>l. hw_pass t = twi_finish hw_host hw_clock hw_port I2c_Ok (t\<lparr>lk_env := (lk_env t)\<lparr>hw_ticks := Suc (hw_ticks (lk_env t))\<rparr>, lk_log := l, tw_rx_got := tw_rx_got t @ [e]\<rparr>)"
    using assms(3-5) by (auto simp: twi_event_def take_byte_def hw_load)
  then show ?thesis using assms(6) finish_ended by blast
qed

lemma ended_nack:
  assumes "tw_state t = Twi_Busy" "hw_flag (lk_env t)" "hw_stat (lk_env t) \<in> {0x20, 0x48}" "\<not> tw_async t"
  shows "ended I2c_NackAddress [] [] 1 t (hw_pass t)"
proof -
  obtain l where "hw_pass t = twi_event hw_host hw_clock hw_port (hw_stat (lk_env t)) (t\<lparr>lk_env := (lk_env t)\<lparr>hw_ticks := Suc (hw_ticks (lk_env t))\<rparr>, lk_log := l\<rparr>)"
    using hw_pass_event [of t] assms by auto
  then show ?thesis using assms(3,4) by (intro finish_ended [where l = l]) (auto simp: twi_event_def got_same)
qed

text \<open>There is time for \<open>n\<close> more passes.\<close>

definition room :: "nat \<Rightarrow> u64 \<Rightarrow> twi_hw twi \<Rightarrow> bool" where
  "room n d t = (hw_ticks (lk_env t) + n < unat d)"

lemma room_less: "room n d t \<Longrightarrow> hw_ticks (lk_env t) < unat d"
  by (simp add: room_def)

lemma room_pass: "room (Suc n) d t \<Longrightarrow> passed 1 t u \<Longrightarrow> room n d u"
  by (simp add: room_def passed_def)

lemma room_mono: "room n d t \<Longrightarrow> m \<le> n \<Longrightarrow> room m d t"
  by (simp add: room_def)

lemma ended_cons:
  assumes "passed m t u" "hw_wire (lk_env u) = hw_wire (lk_env t) @ w1" "tw_rx_got u = tw_rx_got t @ g1" "ended s w g n u v"
  shows "ended s (w1 @ w) (g1 @ g) (m + n) t v"
  using assms passed_trans [of m t u n v] by (simp add: ended_def)

definition runs :: "u64 \<Rightarrow> i2c_status \<Rightarrow> wire list \<Rightarrow> u8 list \<Rightarrow> twi_hw twi \<Rightarrow> bool" where
  "runs d s w g t = (\<exists>u n. busy_wait hw_host hw_clock hw_port d t = Some (False, u) \<and> ended s w g n t u)"

lemma runs_last:
  assumes "tw_state t = Twi_Busy" "hw_flag (lk_env t)" "room n d t" "ended s w g 1 t (hw_pass t)"
  shows "runs d s w g t"
proof -
  have "tw_state (hw_pass t) \<noteq> Twi_Busy" using assms(4) by (simp add: ended_def)
  then have "busy_wait hw_host hw_clock hw_port d t = Some (False, hw_pass t)"
    using assms(1-3) by (simp add: busy_wait_pass room_less busy_wait_done)
  then show ?thesis using assms(4) unfolding runs_def by blast
qed

lemma runs_pass:
  assumes "tw_state t = Twi_Busy" "hw_flag (lk_env t)" "room n d t" "passed 1 t (hw_pass t)"
    "hw_wire (lk_env (hw_pass t)) = hw_wire (lk_env t) @ w1" "tw_rx_got (hw_pass t) = tw_rx_got t @ g1" "runs d s w g (hw_pass t)"
  shows "runs d s (w1 @ w) (g1 @ g) t"
proof -
  obtain u n where "busy_wait hw_host hw_clock hw_port d (hw_pass t) = Some (False, u)" "ended s w g n (hw_pass t) u"
    using assms(7) unfolding runs_def by blast
  moreover have "busy_wait hw_host hw_clock hw_port d t = busy_wait hw_host hw_clock hw_port d (hw_pass t)"
    using assms(1-3) by (simp add: busy_wait_pass room_less)
  ultimately show ?thesis using ended_cons [OF assms(4-6)] unfolding runs_def by metis
qed

lemma read_run:
  "tw_state t = Twi_Busy \<Longrightarrow> hw_flag (lk_env t) \<Longrightarrow> hw_stat (lk_env t) = (if r = [] then 0x58 else 0x50) \<Longrightarrow> \<not> hw_dead (lk_env t) \<Longrightarrow>
   \<not> tw_async t \<Longrightarrow> hw_data (lk_env t) = ucast e \<Longrightarrow> hw_reply (lk_env t) = r \<Longrightarrow> tw_rx_size t = length (tw_rx_got t) + Suc (length r) \<Longrightarrow>
   room (Suc (length r)) d t \<Longrightarrow> runs d I2c_Ok (read_wire r) (e # r) t"
proof (induction r arbitrary: t e)
  case Nil
  then show ?case using runs_last [OF Nil.prems(1,2,9) ended_read [of t e]] by simp
next
  case (Cons x r)
  have p: "hw_stat (lk_env t) = 0x50" using Cons.prems by simp
  note n = pass_next_read [OF Cons.prems(1,2) p Cons.prems(4,6,7)]
  have s: "tw_rx_size t = length (tw_rx_got t) + Suc (Suc (length r))" using Cons.prems(8) by simp
  have "runs d I2c_Ok (read_wire r) (x # r) (hw_pass t)"
    using n [OF s] Cons.prems(4,5,8,9) room_pass [of "Suc (length r)" d t "hw_pass t"] by (intro Cons.IH) (simp_all add: passed_def)
  from runs_pass [OF Cons.prems(1,2,9) n(1,5,8) [OF s] this] show ?case by simp
qed

lemma read_part:
  assumes "tw_state t = Twi_Busy" "hw_flag (lk_env t)" "hw_stat (lk_env t) \<in> {0x08, 0x10}" "\<not> hw_dead (lk_env t)" "hw_present (lk_env t)"
    and "\<not> tw_async t" "tw_read_phase t" "tw_rx_got t = []" "hw_reply (lk_env t) = ds" "ds \<noteq> []" "tw_rx_size t = length ds" "room (Suc (Suc (length ds))) d t"
  shows "runs d I2c_Ok (W_byte (push_bit 1 (tw_addr t) OR 1) # read_wire ds) ds t"
proof -
  let ?u = "hw_pass t"
  obtain x r where x: "ds = x # r" using assms(10) by (cases ds) auto
  note a = pass_address [OF assms(1-4)]
  have st: "hw_stat (lk_env ?u) = 0x40" using a(4) assms(5,7) by simp
  have rep: "hw_reply (lk_env ?u) = x # r" using a(9) assms(9) x by simp
  have alive: "\<not> hw_dead (lk_env ?u)" using a(1) assms(4) by (simp add: passed_def)
  have sz: "tw_rx_size ?u = Suc (length r)" using a(1) assms(11) x by (simp add: passed_def)
  have ro: "room (Suc (length ds)) d ?u" using room_pass [OF assms(12) a(1)] .
  note f = pass_first_read [OF a(2,3) st alive rep sz]
  have "runs d I2c_Ok (read_wire r) (x # r) (hw_pass ?u)"
    using f a(1,8) assms(6,8,11) alive x room_pass [OF ro f(1)] by (intro read_run) (simp_all add: passed_def)
  then have "runs d I2c_Ok ([W_read x (r \<noteq> [])] @ read_wire r) ([] @ x # r) ?u"
    using f(8) by (intro runs_pass [OF a(2,3) ro f(1,5)]) simp_all
  then have "runs d I2c_Ok ([W_byte (push_bit 1 (tw_addr t) OR (if tw_read_phase t then 1 else 0))] @ read_wire ds) ([] @ ds) t"
    using a(8) x by (intro runs_pass [OF assms(1,2,12) a(1,5)]) simp_all
  then show ?thesis using assms(7) by simp
qed

lemma write_run:
  "tw_state t = Twi_Busy \<Longrightarrow> hw_flag (lk_env t) \<Longrightarrow> hw_stat (lk_env t) \<in> {0x18, 0x28} \<Longrightarrow> \<not> hw_dead (lk_env t) \<Longrightarrow> hw_present (lk_env t) \<Longrightarrow>
   \<not> tw_async t \<Longrightarrow> \<not> tw_read_phase t \<Longrightarrow> tw_rx_got t = [] \<Longrightarrow> hw_reply (lk_env t) = ds \<Longrightarrow> tw_rx_size t = length ds \<Longrightarrow>
   tw_tx_idx t \<le> length (tw_tx t) \<Longrightarrow> drop (tw_tx_idx t) (tw_tx t) = ws \<Longrightarrow> room (length ws + length ds + 4) d t \<Longrightarrow>
   runs d I2c_Ok (map W_byte ws @ (if ds = [] then [] else [W_start, W_byte (push_bit 1 (tw_addr t) OR 1)] @ read_wire ds)) ds t"
proof (induction ws arbitrary: t)
  case Nil
  have i: "tw_tx_idx t = length (tw_tx t)" using Nil.prems(11,12) by simp
  show ?case
  proof (cases "ds = []")
    case True
    then show ?thesis using runs_last [OF Nil.prems(1,2,13) ended_write] Nil.prems i by simp
  next
    case False
    then have "tw_rx_size t \<noteq> 0" using Nil.prems(10) by simp
    note p = pass_turn [OF Nil.prems(1-4) i this Nil.prems(7)]
    have "room (length ds + 3) d (hw_pass t)" using room_pass [OF _ p(1)] Nil.prems(13) by (simp add: numeral_eq_Suc)
    then have "runs d I2c_Ok (W_byte (push_bit 1 (tw_addr (hw_pass t)) OR 1) # read_wire ds) ds (hw_pass t)"
      using p Nil.prems False room_mono by (intro read_part) (auto simp: passed_def numeral_eq_Suc)
    from runs_pass [OF Nil.prems(1,2,13) p(1,5) _ this, of "[]"] show ?thesis using False p by (simp add: passed_def)
  qed
next
  case (Cons x ws)
  have i: "tw_tx_idx t < length (tw_tx t)" using Cons.prems(11,12) by (metis drop_eq_Nil2 leI list.distinct(1))
  have x: "tw_tx t ! tw_tx_idx t = x" "drop (Suc (tw_tx_idx t)) (tw_tx t) = ws"
    using Cons.prems(12) i by (simp_all add: Cons_nth_drop_Suc [symmetric])
  note p = pass_write [OF Cons.prems(1-4) i]
  have "room (length ws + length ds + 4) d (hw_pass t)" using room_pass [OF _ p(1)] Cons.prems(13) by simp
  then have "runs d I2c_Ok (map W_byte ws @ (if ds = [] then [] else [W_start, W_byte (push_bit 1 (tw_addr (hw_pass t)) OR 1)] @ read_wire ds)) ds (hw_pass t)"
    using p Cons.prems i x by (intro Cons.IH) (auto simp: passed_def)
  from runs_pass [OF Cons.prems(1,2,13) p(1,5) _ this, of "[]"] p(8) have
    "runs d I2c_Ok ([W_byte x] @ map W_byte ws @ (if ds = [] then [] else [W_start, W_byte (push_bit 1 (tw_addr (hw_pass t)) OR 1)] @ read_wire ds)) ([] @ ds) t"
    using x by simp
  moreover have "tw_addr (hw_pass t) = tw_addr t" using p(1) by (simp add: passed_def)
  ultimately show ?case by (simp only: list.map append.simps)
qed

text \<open>The controller between transfers.\<close>

definition twi_ready :: "twi_hw twi \<Rightarrow> bool" where
  "twi_ready t = (tw_state t \<noteq> Twi_Busy \<and> \<not> tw_async t \<and> \<not> tw_needs_recovery t \<and> hw_stat (lk_env t) = 0xF8 \<and> \<not> hw_flag (lk_env t))"

lemma stop_wait_now:
  "\<not> hw_flag (lk_env t) \<Longrightarrow> \<exists>l. stop_wait hw_host hw_clock hw_port False d t = Some (t\<lparr>lk_log := l\<rparr>)"
  "hw_stat (lk_env t) = 0xF8 \<Longrightarrow> \<not> hw_flag (lk_env t) \<Longrightarrow> \<exists>l. stop_wait hw_host hw_clock hw_port True d t = Some (t\<lparr>lk_log := l\<rparr>)"
  by (auto simp: stop_wait.simps [of _ _ _ _ _ t] stop_sent_def hw_load)

text \<open>What the clock says.\<close>

definition clock_reads :: "nat \<Rightarrow> u64" where
  "clock_reads n = of_nat (min n (2 ^ 64 - 1))"

lemma hw_time: "twi_ticks hw_clock t = (clock_reads (hw_ticks (lk_env t)), t)"
  "twi_delay hw_clock us t = t\<lparr>lk_env := (lk_env t)\<lparr>hw_ticks := hw_ticks (lk_env t) + 24 * unat us\<rparr>\<rparr>"
  by (cases t; simp add: twi_ticks_def twi_delay_def clock_reads_def)+

lemma twi_status_delay: "tw_status (twi_delay E us t) = tw_status t"
  by (simp add: twi_delay_def)

lemma prepare_idle:
  assumes "\<not> tw_needs_recovery t" "hw_stat (lk_env t) = 0xF8" "\<not> hw_flag (lk_env t)"
  shows "\<exists>l. prepare_bus hw_host hw_clock hw_port t = Some (t\<lparr>lk_log := l\<rparr>)"
proof -
  obtain l where "stop_wait hw_host hw_clock hw_port True (clock_reads (hw_ticks (lk_env t)) + 200 * TICKS_PER_US) t = Some (t\<lparr>lk_log := l\<rparr>)"
    using stop_wait_now(2) assms(2,3) by blast
  then show ?thesis using assms by (auto simp: prepare_bus_def hw_time stop_sent_def hw_load)
qed

definition twi_started :: "u8 \<Rightarrow> u8 list \<Rightarrow> nat \<Rightarrow> access list \<Rightarrow> twi_hw twi \<Rightarrow> twi_hw twi" where
  "twi_started addr tx rx l t = t\<lparr>tw_addr := addr, tw_tx := tx, tw_rx_size := rx, tw_tx_idx := 0, tw_rx_got := [],
     tw_read_phase := (tx = [] \<and> rx \<noteq> 0), tw_status := I2c_Ok, tw_state := Twi_Busy, lk_log := l,
     lk_env := (lk_env t)\<lparr>hw_ticks := hw_ticks (lk_env t) + 120, hw_wire := hw_wire (lk_env t) @ [W_start], hw_stat := 0x08, hw_flag := \<not> hw_dead (lk_env t)\<rparr>\<rparr>"

lemma transfer_sync_ready:
  assumes "twi_ready t"
  shows "\<exists>l. transfer_sync hw_host hw_clock hw_port addr tx rx t =
    do { (late, u) \<leftarrow> busy_wait hw_host hw_clock hw_port (clock_reads (hw_ticks (lk_env t) + 120) + kTwiTimeoutMs * TICKS_PER_MS) (twi_started addr tx rx l t);
         if late then Some (I2c_Timeout, u)
         else do { u \<leftarrow> stop_wait hw_host hw_clock hw_port False (clock_reads (hw_ticks (lk_env u)) + 200 * TICKS_PER_US) u; Some (tw_status u, twi_delay hw_clock 5 u) } }"
proof -
  obtain l where l: "prepare_bus hw_host hw_clock hw_port t = Some (t\<lparr>lk_log := l\<rparr>)"
    using prepare_idle assms unfolding twi_ready_def by blast
  have "\<exists>l'. twi_start hw_host hw_port addr tx rx (twi_delay hw_clock 5 (t\<lparr>lk_log := l\<rparr>)) = twi_started addr tx rx l' t"
    using assms unfolding twi_start_def hw_cmd hw_control_cmd twi_started_def twi_ready_def hw_time by (cases t) auto
  then obtain l' where s: "twi_start hw_host hw_port addr tx rx (twi_delay hw_clock 5 (t\<lparr>lk_log := l\<rparr>)) = twi_started addr tx rx l' t" ..
  have e: "hw_ticks (lk_env (twi_started addr tx rx l' t)) = hw_ticks (lk_env t) + 120" by (simp add: twi_started_def)
  show ?thesis
    using assms by (intro exI [of _ l']) (simp add: transfer_sync_def l s e twi_ready_def hw_time(1) twi_status_delay Let_def cong: if_cong)
qed

lemma deadline_room: "n < 2 ^ 63 \<Longrightarrow> k < 480000 \<Longrightarrow> n + k < unat (clock_reads n + kTwiTimeoutMs * TICKS_PER_MS)"
  by (simp add: clock_reads_def min_def unat_word_ariths(1) unat_of_nat kTwiTimeoutMs_def TICKS_PER_MS_def)

lemma transfer_runs:
  assumes "twi_ready t" "\<And>l. runs (clock_reads (hw_ticks (lk_env t) + 120) + kTwiTimeoutMs * TICKS_PER_MS) s w g (twi_started addr tx rx l t)"
  shows "\<exists>u. transfer_sync hw_host hw_clock hw_port addr tx rx t = Some (s, u) \<and> tw_rx_got u = g \<and>
    hw_wire (lk_env u) = hw_wire (lk_env t) @ W_start # w @ [W_stop] \<and> tw_timeouts u = tw_timeouts t \<and> tw_completed u = tw_completed t \<and> twi_ready u"
proof -
  obtain l where l: "transfer_sync hw_host hw_clock hw_port addr tx rx t =
    do { (late, u) \<leftarrow> busy_wait hw_host hw_clock hw_port (clock_reads (hw_ticks (lk_env t) + 120) + kTwiTimeoutMs * TICKS_PER_MS) (twi_started addr tx rx l t);
         if late then Some (I2c_Timeout, u)
         else do { u \<leftarrow> stop_wait hw_host hw_clock hw_port False (clock_reads (hw_ticks (lk_env u)) + 200 * TICKS_PER_US) u; Some (tw_status u, twi_delay hw_clock 5 u) } }"
    using transfer_sync_ready [OF assms(1)] by blast
  obtain u n where u: "busy_wait hw_host hw_clock hw_port (clock_reads (hw_ticks (lk_env t) + 120) + kTwiTimeoutMs * TICKS_PER_MS) (twi_started addr tx rx l t) = Some (False, u)"
    "ended s w g n (twi_started addr tx rx l t) u" using assms(2) [of l] unfolding runs_def by blast
  obtain k where k: "stop_wait hw_host hw_clock hw_port False (clock_reads (hw_ticks (lk_env u)) + 200 * TICKS_PER_US) u = Some (u\<lparr>lk_log := k\<rparr>)"
    using stop_wait_now(1) u(2) unfolding ended_def by blast
  have "transfer_sync hw_host hw_clock hw_port addr tx rx t = Some (s, twi_delay hw_clock 5 (u\<lparr>lk_log := k\<rparr>))"
    unfolding l u(1) using u(2) by (simp add: k ended_def)
  then show ?thesis using u(2) assms(1) by (auto simp: hw_time(2) ended_def twi_started_def passed_def twi_ready_def)
qed

lemma transfer_completes:
  assumes "twi_ready t" "hw_present (lk_env t)" "\<not> hw_dead (lk_env t)" "hw_reply (lk_env t) = ds"
    and "hw_ticks (lk_env t) < 2 ^ 62" "length tx + length ds < 400000"
  shows "\<exists>u. transfer_sync hw_host hw_clock hw_port addr tx (length ds) t = Some (I2c_Ok, u) \<and> tw_rx_got u = ds \<and>
    hw_wire (lk_env u) = hw_wire (lk_env t) @ transfer_wire addr tx ds \<and> tw_timeouts u = tw_timeouts t \<and> tw_completed u = tw_completed t \<and> twi_ready u"
proof -
  let ?d = "clock_reads (hw_ticks (lk_env t) + 120) + kTwiTimeoutMs * TICKS_PER_MS"
  have room: "room (length tx + length ds + 5) ?d (twi_started addr tx (length ds) l t)" for l
    using deadline_room [of "hw_ticks (lk_env t) + 120" "length tx + length ds + 5"] assms(5,6) by (simp add: room_def twi_started_def)
  show ?thesis
  proof (cases "tx = [] \<and> ds \<noteq> []")
    case True
    have "runs ?d I2c_Ok (W_byte (push_bit 1 addr OR 1) # read_wire ds) ds (twi_started addr tx (length ds) l t)" for l
      using read_part [of "twi_started addr tx (length ds) l t" ds ?d] assms True room_mono [OF room] by (simp add: twi_started_def twi_ready_def)
    from transfer_runs [OF assms(1) this] show ?thesis using True by (simp add: transfer_wire_def)
  next
    case False
    have "runs ?d I2c_Ok ([W_byte (push_bit 1 addr)] @ map W_byte tx @ (if ds = [] then [] else [W_start, W_byte (push_bit 1 addr OR 1)] @ read_wire ds)) ([] @ ds)
      (twi_started addr tx (length ds) l t)" for l
    proof -
      let ?s = "twi_started addr tx (length ds) l t"
      have s: "tw_state ?s = Twi_Busy" "hw_flag (lk_env ?s)" "hw_stat (lk_env ?s) \<in> {0x08, 0x10}" "\<not> hw_dead (lk_env ?s)"
        using assms(3) by (simp_all add: twi_started_def)
      note a = pass_address [OF s]
      have n: "\<not> tw_read_phase ?s" "tw_addr ?s = addr" "tw_tx ?s = tx" "tw_tx_idx ?s = 0" "tw_rx_got ?s = []" "tw_rx_size ?s = length ds"
        "\<not> tw_async ?s" "hw_present (lk_env ?s)" "hw_reply (lk_env ?s) = ds"
        using False assms(1,2,4) by (auto simp: twi_started_def twi_ready_def)
      have r: "room (Suc (length tx + length ds + 4)) ?d ?s" using room_mono [OF room] by simp
      have "runs ?d I2c_Ok (map W_byte tx @ (if ds = [] then [] else [W_start, W_byte (push_bit 1 (tw_addr (hw_pass ?s)) OR 1)] @ read_wire ds)) ds (hw_pass ?s)"
        using a n s(4) room_pass [OF r a(1)] by (intro write_run) (simp_all add: passed_def)
      moreover have "tw_addr (hw_pass ?s) = addr" using a(1) n(2) by (simp add: passed_def)
      ultimately have h: "runs ?d I2c_Ok (map W_byte tx @ (if ds = [] then [] else [W_start, W_byte (push_bit 1 addr OR 1)] @ read_wire ds)) ds (hw_pass ?s)"
        by (simp only:)
      show ?thesis using a(5,8) n(1,2) by (intro runs_pass [OF s(1,2) r a(1) _ _ h]) simp_all
    qed
    from transfer_runs [OF assms(1) this] show ?thesis using False by (auto simp: transfer_wire_def)
  qed
qed


section \<open>What a transfer does\<close>

definition twi_hw_new :: "nat \<Rightarrow> bool \<Rightarrow> bool \<Rightarrow> u8 list \<Rightarrow> twi_hw twi" where
  "twi_hw_new ticks present dead reply = twi_new \<lparr>hw_ticks = ticks, hw_flag = False, hw_stat = 0xF8, hw_data = 0, hw_wire = [], hw_reply = reply,
     hw_present = present, hw_dead = dead\<rparr>"

lemma twi_hw_new [simp]: "twi_ready (twi_hw_new n p d r)" "lk_env (twi_hw_new n p d r) = \<lparr>hw_ticks = n, hw_flag = False, hw_stat = 0xF8, hw_data = 0,
     hw_wire = [], hw_reply = r, hw_present = p, hw_dead = d\<rparr>"
  by (simp_all add: twi_hw_new_def twi_new_def twi_ready_def)

text \<open>
  (C23) A synchronous transfer with a device that answers returns Ok, having sent START, the address and the
  bytes to write, a repeated START and the address when there is also something to read, received exactly
  the bytes of the device, acknowledged all of them but the last, and sent STOP; it leaves the controller
  ready for the next transfer. The clock is far from its end, and there is time for the bytes.
\<close>

theorem twi_transfer_completes:
  assumes "tw_state t \<noteq> Twi_Busy" "\<not> tw_async t" "\<not> tw_needs_recovery t" "hw_stat (lk_env t) = 0xF8" "\<not> hw_flag (lk_env t)"
    and "hw_present (lk_env t)" "\<not> hw_dead (lk_env t)" "hw_reply (lk_env t) = ds"
    and "hw_ticks (lk_env t) < 2 ^ 62" "length tx + length ds < 400000"
  shows "\<exists>u. transfer_sync hw_host hw_clock hw_port addr tx (length ds) t = Some (I2c_Ok, u) \<and> tw_rx_got u = ds \<and>
    hw_wire (lk_env u) = hw_wire (lk_env t) @ transfer_wire addr tx ds \<and> tw_timeouts u = tw_timeouts t \<and> tw_completed u = tw_completed t \<and> twi_ready u"
  using transfer_completes [OF _ assms(6-10)] assms(1-5) by (simp add: twi_ready_def)

lemma twi_transfer_completes_witness:
  "\<exists>u. transfer_sync hw_host hw_clock hw_port 0x68 [0x75] (Suc (Suc 0)) (twi_hw_new 7 True False [0x11, 0x22]) = Some (I2c_Ok, u) \<and> tw_rx_got u = [0x11, 0x22] \<and>
    hw_wire (lk_env u) = [W_start, W_byte 0xD0, W_byte 0x75, W_start, W_byte 0xD1, W_read 0x11 True, W_read 0x22 False, W_stop]"
proof -
  have t: "tw_state (twi_hw_new 7 True False [0x11, 0x22]) \<noteq> Twi_Busy" "\<not> tw_async (twi_hw_new 7 True False [0x11, 0x22])"
    "\<not> tw_needs_recovery (twi_hw_new 7 True False [0x11, 0x22])"
    by (simp_all add: twi_hw_new_def twi_new_def)
  show ?thesis
    using twi_transfer_completes [OF t, where addr = "0x68" and tx = "[0x75]" and ds = "[0x11, 0x22]"] by (auto simp: transfer_wire_def)
qed

text \<open>
  A device that is not there: the transfer ends with NackAddress after the address byte, nothing is
  received, STOP is sent, and the controller is ready for the next transfer.
\<close>

theorem twi_no_answer:
  assumes "twi_ready t" "\<not> hw_present (lk_env t)" "\<not> hw_dead (lk_env t)" "hw_ticks (lk_env t) < 2 ^ 62"
  shows "\<exists>u. transfer_sync hw_host hw_clock hw_port addr tx rx t = Some (I2c_NackAddress, u) \<and> tw_rx_got u = [] \<and>
    hw_wire (lk_env u) = hw_wire (lk_env t) @ [W_start, W_byte (push_bit 1 addr OR (if tx = [] \<and> rx \<noteq> 0 then 1 else 0)), W_stop] \<and> twi_ready u"
proof -
  let ?d = "clock_reads (hw_ticks (lk_env t) + 120) + kTwiTimeoutMs * TICKS_PER_MS"
  have "runs ?d I2c_NackAddress ([W_byte (push_bit 1 addr OR (if tx = [] \<and> rx \<noteq> 0 then 1 else 0))] @ []) ([] @ []) (twi_started addr tx rx l t)" for l
  proof -
    let ?s = "twi_started addr tx rx l t"
    have s: "tw_state ?s = Twi_Busy" "hw_flag (lk_env ?s)" "hw_stat (lk_env ?s) \<in> {0x08, 0x10}" "\<not> hw_dead (lk_env ?s)"
      using assms(3) by (simp_all add: twi_started_def)
    note a = pass_address [OF s]
    have r: "room 2 ?d ?s" using deadline_room [of "hw_ticks (lk_env t) + 120" 2] assms(4) by (simp add: room_def twi_started_def)
    have "ended I2c_NackAddress [] [] 1 (hw_pass ?s) (hw_pass (hw_pass ?s))"
      using a assms(1,2) by (intro ended_nack) (auto simp: passed_def twi_started_def twi_ready_def)
    then have n: "runs ?d I2c_NackAddress [] [] (hw_pass ?s)"
      using runs_last [OF a(2,3) room_pass [OF _ a(1)]] r by (simp add: numeral_2_eq_2)
    have "tw_addr ?s = addr" "tw_read_phase ?s = (tx = [] \<and> rx \<noteq> 0)" by (simp_all add: twi_started_def)
    then show ?thesis using a(5,8) by (intro runs_pass [OF s(1,2) r a(1) _ _ n]) (simp_all only: append_Nil2)
  qed
  from transfer_runs [OF assms(1) this] show ?thesis by auto
qed

lemma twi_no_answer_witness:
  "\<exists>u. transfer_sync hw_host hw_clock hw_port 0x68 [0x75] 2 (twi_hw_new 7 False False []) = Some (I2c_NackAddress, u) \<and>
    hw_wire (lk_env u) = [W_start, W_byte 0xD0, W_stop]"
  using twi_no_answer [of "twi_hw_new 7 False False []" "0x68" "[0x75]" 2] by auto

section \<open>Every synchronous transfer comes back\<close>

text \<open>
  The clock of a world with interrupts, devices and anything else: it never goes back, and it goes on in
  every delay and every wait.
\<close>

definition clock_runs :: "'h host \<Rightarrow> 'h clock \<Rightarrow> ('h \<Rightarrow> nat) \<Rightarrow> bool" where
  "clock_runs B E time = ((\<forall>a n h. time h \<le> time (snd (ho_load B a n h))) \<and> (\<forall>a n v h. time h \<le> time (ho_store B a n v h)) \<and>
     (\<forall>h. fst (cl_ticks E h) = clock_reads (time h) \<and> time h \<le> time (snd (cl_ticks E h))) \<and>
     (\<forall>us h. time h \<le> time (cl_delay_us E us h)) \<and> (\<forall>h. time h < time (cl_delay_us E 1 h)) \<and> (\<forall>d h. time h < time (snd (cl_wait E d h))))"

lemma clock_reads_less: "clock_reads n < d \<Longrightarrow> n < unat d"
proof -
  assume a: "clock_reads n < d"
  have "unat d < 2 ^ 64" using unsigned_less [of d] by simp
  moreover have "unat (clock_reads n) = min n (2 ^ 64 - 1)" by (simp add: clock_reads_def unat_of_nat min_def)
  ultimately show ?thesis using a by (simp add: word_less_nat_alt min_def split: if_splits)
qed

lemma later_ops:
  assumes "clock_runs B E time"
  shows "time (lk_env t) \<le> time (lk_env (snd (twi_load B P off t)))" "time (lk_env t) \<le> time (lk_env (twi_store B P off v t))"
    "time (lk_env t) \<le> time (lk_env (twi_cmd B P bits t))" "time (lk_env t) \<le> time (lk_env (snd (twi_ticks E t)))"
    "time (lk_env t) \<le> time (lk_env (twi_delay E us t))"
  using assms by (auto simp: clock_runs_def twi_load_def twi_store_def twi_cmd_def load32_def store32_def hload_def hstore_def
    twi_ticks_def twi_delay_def split: prod.splits) (metis snd_conv)+

lemma later_finish: "clock_runs B E time \<Longrightarrow> time (lk_env t) \<le> time (lk_env (twi_finish B E P s t))"
  using later_ops(2) [of B E time "t" P kCntr "kBusEn OR kMStp OR kIntFlg"]
    later_ops(4) [of B E time "(twi_store B P kCntr (kBusEn OR kMStp OR kIntFlg) t)\<lparr>tw_status := s, tw_state := if s = I2c_Ok then Twi_Done else Twi_Error, tw_async := False\<rparr>"]
  by (auto simp: twi_finish_def complete_async_def Let_def split: prod.splits)

lemma later_chain: "clock_runs B E time \<Longrightarrow> time (lk_env t) \<le> time (lk_env u) \<Longrightarrow> time (lk_env u) \<le> time (lk_env v) \<Longrightarrow> time (lk_env t) \<le> time (lk_env v)"
  by simp

lemma later_after_tx: "clock_runs B E time \<Longrightarrow> time (lk_env t) \<le> time (lk_env (after_tx B E P t))"
  unfolding after_tx_def
  using later_ops(2) [of B E time "t\<lparr>tw_tx_idx := tw_tx_idx t + 1\<rparr>" P kData "ucast (tw_tx t ! tw_tx_idx t)"]
    later_ops(3) [of B E time "twi_store B P kData (ucast (tw_tx t ! tw_tx_idx t)) (t\<lparr>tw_tx_idx := tw_tx_idx t + 1\<rparr>)" P 0]
    later_ops(3) [of B E time "t\<lparr>tw_read_phase := True\<rparr>" P kMSta] later_finish [of B E time t P I2c_Ok]
  by auto

lemma later_take_byte: "clock_runs B E time \<Longrightarrow> time (lk_env t) \<le> time (lk_env (take_byte B P t))"
  using later_ops(1) [of B E time t P kData] by (auto simp: take_byte_def split: prod.splits)

lemma later_event: "clock_runs B E time \<Longrightarrow> time (lk_env t) \<le> time (lk_env (twi_event B E P stat t))"
  unfolding twi_event_def Let_def
  by (auto intro!: later_after_tx later_finish later_ops(3) intro: order_trans later_ops(2,3) later_take_byte later_finish)

lemma later_irq: "clock_runs B E time \<Longrightarrow> time (lk_env t) \<le> time (lk_env (on_irq B E P t))"
proof -
  assume r: "clock_runs B E time"
  obtain c t1 where c: "twi_load B P kCntr t = (c, t1)" by fastforce
  obtain s t2 where s: "twi_load B P kStat t1 = (s, t2)" by fastforce
  have "time (lk_env t) \<le> time (lk_env t1)" using later_ops(1) [OF r, of t P kCntr] c by simp
  moreover have "time (lk_env t1) \<le> time (lk_env t2)" using later_ops(1) [OF r, of t1 P kStat] s by simp
  ultimately show ?thesis
    using later_ops(2) [OF r, of t2 P kCntr "kBusEn OR kIntFlg"] later_event [OF r, of t2 P "s AND 0xFF"] by (simp add: on_irq_def c s)
qed

lemma stop_sent_state: "clock_runs B E time \<Longrightarrow> stop_sent B P w t = (ok, u) \<Longrightarrow> time (lk_env t) \<le> time (lk_env u) \<and> tw_state u = tw_state t"
proof -
  assume r: "clock_runs B E time" and u: "stop_sent B P w t = (ok, u)"
  obtain c t1 where c: "twi_load B P kCntr t = (c, t1)" by fastforce
  obtain s t2 where s: "twi_load B P kStat t1 = (s, t2)" by fastforce
  have "tw_state t1 = tw_state t" "tw_state t2 = tw_state t1"
    using c s by (auto simp: twi_load_def load32_def hload_def split: prod.splits)
  then show ?thesis using u later_ops(1) [OF r, of t P kCntr] later_ops(1) [OF r, of t1 P kStat]
    by (auto simp: stop_sent_def c s split: if_splits)
qed

lemma stop_wait_returns:
  assumes r: "clock_runs B E time"
  shows "\<exists>u. stop_wait B E P w d t = Some u \<and> tw_state u = tw_state t"
proof (induction "unat d - time (lk_env t)" arbitrary: t rule: less_induct)
  case less
  obtain ok t1 where o: "stop_sent B P w t = (ok, t1)" by fastforce
  obtain now t2 where n: "twi_ticks E t1 = (now, t2)" by fastforce
  note s1 = stop_sent_state [OF r o]
  have t2: "now = clock_reads (time (lk_env t1))" "time (lk_env t1) \<le> time (lk_env t2)" "tw_state t2 = tw_state t1"
    using n r by (auto simp: twi_ticks_def clock_runs_def split: prod.splits) (metis fst_conv snd_conv)+
  have d: "time (lk_env t2) < time (lk_env (twi_delay E 1 t2))" "tw_state (twi_delay E 1 t2) = tw_state t2"
    using r by (simp_all add: clock_runs_def twi_delay_def)
  show ?case
  proof (cases "ok \<or> \<not> now < d")
    case True
    then show ?thesis using s1 t2 by (subst stop_wait.simps) (auto simp: o n)
  next
    case False
    then have "time (lk_env t1) < unat d" using t2(1) clock_reads_less by simp
    then have "unat d - time (lk_env (twi_delay E 1 t2)) < unat d - time (lk_env t)" using s1 t2(2) d(1) by linarith
    from less.hyps [OF this] show ?thesis using False s1 t2 d by (subst stop_wait.simps) (simp add: o n)
  qed
qed

lemma finish_not_busy: "tw_state (twi_finish B E P s t) \<noteq> Twi_Busy"
  by (auto simp: twi_finish_def complete_async_def twi_ticks_def Let_def split: prod.splits)

lemma busy_wait_returns:
  assumes r: "clock_runs B E time"
  shows "\<exists>late u. busy_wait B E P d t = Some (late, u) \<and> tw_state u \<noteq> Twi_Busy"
proof (induction "unat d - time (lk_env t)" arbitrary: t rule: less_induct)
  case less
  obtain now t1 where n: "twi_ticks E t = (now, t1)" by fastforce
  obtain irq h where w: "cl_wait E d (lk_env t1) = (irq, h)" by fastforce
  have t1: "now = clock_reads (time (lk_env t))" "time (lk_env t) \<le> time (lk_env t1)"
    using n r by (auto simp: twi_ticks_def clock_runs_def split: prod.splits) (metis fst_conv snd_conv)+
  have h: "time (lk_env t1) < time h" using r w unfolding clock_runs_def by (metis snd_conv)
  let ?u = "if irq then on_irq B E P (t1\<lparr>lk_env := h\<rparr>) else t1\<lparr>lk_env := h\<rparr>"
  have u: "time h \<le> time (lk_env ?u)" using later_irq [OF r, of "t1\<lparr>lk_env := h\<rparr>" P] by simp
  show ?case
  proof (cases "tw_state t \<noteq> Twi_Busy \<or> now \<ge> d")
    case True
    then show ?thesis by (subst busy_wait.simps) (auto simp: n twi_timed_out_def Let_def finish_not_busy)
  next
    case False
    then have "time (lk_env t) < unat d" using t1(1) clock_reads_less by (simp add: not_le)
    then have "unat d - time (lk_env ?u) < unat d - time (lk_env t)" using t1(2) h u by linarith
    from less.hyps [OF this] show ?thesis using False by (subst busy_wait.simps) (simp add: n w Let_def)
  qed
qed

lemma prepare_bus_returns: "clock_runs B E time \<Longrightarrow> \<exists>u. prepare_bus B E P t = Some u"
proof -
  assume r: "clock_runs B E time"
  let ?t = "if tw_needs_recovery t then reset_controller B E P (twi_recover_bus B E P (t\<lparr>tw_needs_recovery := False\<rparr>)) else t"
  obtain now t1 where n: "twi_ticks E ?t = (now, t1)" by fastforce
  obtain t2 where "stop_wait B E P True (now + 200 * TICKS_PER_US) t1 = Some t2" using stop_wait_returns [OF r] by blast
  then show ?thesis unfolding prepare_bus_def Let_def n by (simp split: prod.split)
qed

text \<open>
  (C24) Whatever the bus does -- no device, a device that stretches the clock for ever, a stuck line, a
  controller that never interrupts, interrupts that come early, late or for others -- a synchronous
  transfer returns, and unless it refused because an asynchronous one is under way, the driver is not
  busy when it does.
\<close>

theorem transfer_sync_returns:
  assumes "clock_runs B E time"
  shows "\<exists>s u. transfer_sync B E P addr tx rx t = Some (s, u) \<and> (s = I2c_QueueFull \<and> u = t \<or> tw_state u \<noteq> Twi_Busy)"
proof (cases "tw_state t = Twi_Busy \<and> tw_async t")
  case True
  then show ?thesis by (simp add: transfer_sync_def)
next
  case False
  let ?t = "if tw_state t = Twi_Busy then twi_finish B E P I2c_Cancelled t else t"
  obtain t1 where p: "prepare_bus B E P ?t = Some t1" using prepare_bus_returns [OF assms] by blast
  obtain now t2 where n: "twi_ticks E (twi_start B P addr tx rx (twi_delay E 5 t1)) = (now, t2)" by fastforce
  obtain late t3 where b: "busy_wait B E P (now + kTwiTimeoutMs * TICKS_PER_MS) t2 = Some (late, t3)" "tw_state t3 \<noteq> Twi_Busy"
    using busy_wait_returns [OF assms] by blast
  obtain now' t4 where n': "twi_ticks E t3 = (now', t4)" by fastforce
  have "tw_state t4 = tw_state t3" using n' by (auto simp: twi_ticks_def split: prod.splits)
  moreover obtain t5 where w: "stop_wait B E P False (now' + 200 * TICKS_PER_US) t4 = Some t5" "tw_state t5 = tw_state t4"
    using stop_wait_returns [OF assms] by blast
  ultimately have "tw_state (twi_delay E 5 t5) \<noteq> Twi_Busy" using b(2) by (simp add: twi_delay_def)
  then show ?thesis using False b(2) by (cases late) (auto simp: transfer_sync_def p n b(1) n' w(1) Let_def)
qed

lemma hw_clock_runs: "clock_runs hw_host hw_clock hw_ticks"
  by (auto simp: clock_runs_def hw_host_def hw_control_def clock_reads_def)

text \<open>With a controller that never raises its interrupt.\<close>

lemma transfer_sync_returns_witness:
  "\<exists>s u. transfer_sync hw_host hw_clock hw_port 0x68 [1, 2] 3 (twi_hw_new 0 True True [5, 6, 7]) = Some (s, u) \<and>
    (s = I2c_QueueFull \<and> u = twi_hw_new 0 True True [5, 6, 7] \<or> tw_state u \<noteq> Twi_Busy)"
  by (rule transfer_sync_returns [OF hw_clock_runs])

section \<open>Every request is completed once\<close>

text \<open>The books: requests completed and the one under way, and whether the transfer is asynchronous.\<close>

definition books :: "'h twi \<Rightarrow> (i2c_request \<times> i2c_result) list \<times> bool \<times> i2c_request \<times> twi_state" where
  "books t = (tw_completed t, tw_async t, tw_active_req t, tw_state t)"

definition accounted :: "i2c_request list \<Rightarrow> 'h twi \<Rightarrow> bool" where
  "accounted rs t = (map fst (tw_completed t) @ (if tw_async t then [tw_active_req t] else []) = rs \<and> (tw_async t \<longrightarrow> tw_state t = Twi_Busy))"

lemma accounted_books: "books u = books t \<Longrightarrow> accounted rs u = accounted rs t"
  by (simp add: books_def accounted_def)

lemma books_ops [simp]:
  "twi_load B P off t = (v, u) \<Longrightarrow> books u = books t" "books (twi_store B P off v t) = books t" "books (twi_cmd B P bits t) = books t"
  "twi_ticks E t = (n, u) \<Longrightarrow> books u = books t" "books (twi_delay E us t) = books t" "load32 B a t = (v, u) \<Longrightarrow> books u = books t"
  "books (store32 B a v t) = books t"
  by (auto simp: books_def twi_load_def twi_store_def twi_cmd_def load32_def store32_def hload_def hstore_def twi_ticks_def twi_delay_def split: prod.splits)

lemma books_updates [simp]:
  "books (t\<lparr>lk_env := h\<rparr>) = books t" "books (t\<lparr>tw_tx_idx := n\<rparr>) = books t" "books (t\<lparr>tw_read_phase := b\<rparr>) = books t" "books (t\<lparr>tw_rx_got := g\<rparr>) = books t"
  "books (t\<lparr>tw_timeouts := m, tw_needs_recovery := b\<rparr>) = books t" "books (t\<lparr>tw_needs_recovery := b\<rparr>) = books t" "books (t\<lparr>tw_recoveries := m\<rparr>) = books t"
  by (simp_all add: books_def)

lemma books_take_byte [simp]: "books (take_byte B P t) = books t"
  by (auto simp: take_byte_def split: prod.splits)

lemma finish_accounted: "accounted rs t \<Longrightarrow> accounted rs (twi_finish B E P s t)" "accounted rs t \<Longrightarrow> \<not> tw_async (twi_finish B E P s t)"
proof -
  assume a: "accounted rs t"
  let ?t = "twi_store B P kCntr (kBusEn OR kMStp OR kIntFlg) t"
  have b: "books ?t = books t" by simp
  then show "accounted rs (twi_finish B E P s t)" "\<not> tw_async (twi_finish B E P s t)"
    using a unfolding books_def
    by (auto simp: twi_finish_def Let_def complete_async_def accounted_def twi_ticks_def split: prod.splits)
qed

lemma after_tx_accounted: "accounted rs t \<Longrightarrow> accounted rs (after_tx B E P t)"
  unfolding after_tx_def by (simp add: finish_accounted(1) accounted_books [of "twi_cmd B P b u" t for b u])

lemma event_accounted: "accounted rs t \<Longrightarrow> accounted rs (twi_event B E P stat t)"
  unfolding twi_event_def Let_def
  by (simp add: finish_accounted(1) after_tx_accounted accounted_books [of "twi_cmd B P b u" t for b u] accounted_books [of "take_byte B P t" t])

lemma irq_accounted:
  assumes "accounted rs t" shows "accounted rs (on_irq B E P t)"
proof -
  obtain c t1 where c: "twi_load B P kCntr t = (c, t1)" by fastforce
  obtain s t2 where s: "twi_load B P kStat t1 = (s, t2)" by fastforce
  have b: "books t1 = books t" "books t2 = books t" using c s by simp_all
  then have "accounted rs t1" "accounted rs t2" "accounted rs (twi_store B P kCntr (kBusEn OR kIntFlg) t2)"
    using assms accounted_books books_ops(2) by metis+
  then show ?thesis by (simp add: on_irq_def c s event_accounted)
qed

text \<open>No asynchronous transfer, and all of \<open>rs\<close> completed: this is what a synchronous transfer keeps.\<close>

definition settled :: "i2c_request list \<Rightarrow> 'h twi \<Rightarrow> bool" where
  "settled rs t = (\<not> tw_async t \<and> map fst (tw_completed t) = rs)"

lemma settled_accounted: "settled rs t = (accounted rs t \<and> \<not> tw_async t)"
  by (auto simp: settled_def accounted_def)

lemma settled_books: "books u = books t \<Longrightarrow> settled rs u = settled rs t"
  by (simp add: books_def settled_def)

lemma settled_state [simp]: "settled rs (t\<lparr>tw_state := s\<rparr>) = settled rs t" "settled rs (t\<lparr>tw_status := st, tw_state := s\<rparr>) = settled rs t"
  by (simp_all add: settled_def)

lemma finish_settled: "settled rs t \<Longrightarrow> settled rs (twi_finish B E P s t)"
  using finish_accounted [of rs t B E P s] by (simp add: settled_accounted)

lemma after_tx_settled: "settled rs t \<Longrightarrow> settled rs (after_tx B E P t)"
  unfolding after_tx_def by (simp add: finish_settled settled_books [of "twi_cmd B P b u" t for b u])

lemma irq_settled:
  assumes "settled rs t" shows "settled rs (on_irq B E P t)"
proof -
  obtain c t1 where c: "twi_load B P kCntr t = (c, t1)" by fastforce
  obtain s t2 where s: "twi_load B P kStat t1 = (s, t2)" by fastforce
  have b: "books t1 = books t" "books t2 = books t" using c s by simp_all
  then have st: "settled rs t1" "settled rs t2" "settled rs (twi_store B P kCntr (kBusEn OR kIntFlg) t2)"
    using assms settled_books books_ops(2) by metis+
  have "settled rs (twi_event B E P stat t2)" for stat
    unfolding twi_event_def Let_def
    using st(2) by (simp add: finish_settled after_tx_settled settled_books [of "twi_cmd B P b u" t2 for b u] settled_books [of "take_byte B P t2" t2])
  then show ?thesis using st by (simp add: on_irq_def c s)
qed

lemma stop_sent_settled: "stop_sent B P w t = (ok, u) \<Longrightarrow> settled rs t \<Longrightarrow> settled rs u"
  by (auto simp: stop_sent_def split: prod.splits if_splits) (metis books_ops(1) settled_books)+

lemma stop_wait_settled:
  assumes "stop_wait B E P w d t = Some u"
  shows "settled rs t \<longrightarrow> settled rs u"
proof (rule stop_wait.raw_induct [of "\<lambda>B E P w d t u. settled rs t \<longrightarrow> settled rs u", OF _ assms], rule impI)
  fix f and B :: "'a host" and E P w d and t u :: "'a twi"
  assume ih: "\<And>B E P w d t u. f B E P w d t = Some u \<Longrightarrow> settled rs t \<longrightarrow> settled rs u"
    and run: "(let (ok, t) = stop_sent B P w t in if ok then Some t
      else let (now, t) = twi_ticks E t in if now < d then f B E P w d (twi_delay E 1 t) else Some t) = Some u" and t: "settled rs t"
  obtain ok t1 where o: "stop_sent B P w t = (ok, t1)" by fastforce
  obtain now t2 where n: "twi_ticks E t1 = (now, t2)" by fastforce
  have "books (twi_delay E 1 t2) = books t1" "books t2 = books t1" using n by simp_all
  then have "settled rs t1 \<and> settled rs t2 \<and> settled rs (twi_delay E 1 t2)"
    using stop_sent_settled [OF o t] settled_books by metis
  then show "settled rs u" using run ih by (auto simp: o n split: if_splits)
qed

lemma busy_wait_settled:
  assumes "busy_wait B E P d t = Some y"
  shows "settled rs t \<longrightarrow> settled rs (snd y)"
proof (rule busy_wait.raw_induct [of "\<lambda>B E P d t y. settled rs t \<longrightarrow> settled rs (snd y)", OF _ assms], rule impI)
  fix f and B :: "'a host" and E P d and t :: "'a twi" and y
  assume ih: "\<And>B E P d t y. f B E P d t = Some y \<Longrightarrow> settled rs t \<longrightarrow> settled rs (snd y)"
    and run: "(if tw_state t \<noteq> Twi_Busy then Some (False, t)
      else let (now, t) = twi_ticks E t in if now \<ge> d then Some (True, twi_timed_out B E P t)
        else let (irq, h) = cl_wait E d (lk_env t); t = t\<lparr>lk_env := h\<rparr> in f B E P d (if irq then on_irq B E P t else t)) = Some y"
    and t: "settled rs t"
  obtain now t1 where n: "twi_ticks E t = (now, t1)" by fastforce
  obtain irq h where w: "cl_wait E d (lk_env t1) = (irq, h)" by fastforce
  have "books t1 = books t" "books (t1\<lparr>lk_env := h\<rparr>) = books t1" using n by simp_all
  then have s: "settled rs t1" "settled rs (t1\<lparr>lk_env := h\<rparr>)" using t settled_books by metis+
  have "settled rs (twi_timed_out B E P t1)"
    using finish_settled [OF s(1), of B E P I2c_Timeout] by (simp add: twi_timed_out_def Let_def settled_def)
  then show "settled rs (snd y)" using run t ih [of B E P d "if irq then on_irq B E P (t1\<lparr>lk_env := h\<rparr>) else t1\<lparr>lk_env := h\<rparr>" y] irq_settled [OF s(2), of B E P] s
    by (auto simp: n w Let_def split: if_splits)
qed

lemma clear_dat_books [simp]: "books (clear_dat B P n t) = books t"
  by (auto simp: clear_dat_def split: prod.splits)

lemma scl_low_books [simp]: "books (scl_low B E P i b t) = books t"
  by (simp add: scl_low_def)

lemma sda_books: "sda_high B P t = (h, u) \<Longrightarrow> books u = books t"
  by (auto simp: sda_high_def split: prod.splits)

lemma clock_out_books [simp]: "books (clock_out n B E P i t) = books t"
  by (induction n arbitrary: t) (auto split: prod.splits dest: sda_books)

lemma recover_books [simp]: "books (twi_recover_bus B E P t) = books t"
proof -
  obtain cfg t1 where c: "load32 B (pt_cfg P) t = (cfg, t1)" by fastforce
  let ?i = "cfg AND NOT (pt_mask P)"
  obtain h t2 where s: "sda_high B P (twi_delay E 5 (store32 B (pt_cfg P) ?i t1)) = (h, t2)" by fastforce
  have b: "books t1 = books t" "books t2 = books t1" using c sda_books [OF s] by simp_all
  have "books (stop_by_hand B E P i u) = books u" for i u unfolding stop_by_hand_def Let_def by simp
  then show ?thesis using b by (simp add: twi_recover_bus_def c s Let_def)
qed

lemma reset_settled: "settled rs t \<Longrightarrow> settled rs (reset_controller B E P t)"
  unfolding reset_controller_def Let_def by (auto intro: settled_books [THEN iffD2])

lemma start_settled: "settled rs (twi_start B P addr tx rx t) = settled rs t"
proof -
  have "settled rs (twi_cmd B P kMSta u) = settled rs u" for u :: "'a twi" by (intro settled_books) simp
  then show ?thesis by (simp add: twi_start_def settled_def)
qed

lemma prepare_settled: "prepare_bus B E P t = Some u \<Longrightarrow> settled rs t \<Longrightarrow> settled rs u"
proof -
  assume u: "prepare_bus B E P t = Some u" and t: "settled rs t"
  let ?t = "if tw_needs_recovery t then reset_controller B E P (twi_recover_bus B E P (t\<lparr>tw_needs_recovery := False\<rparr>)) else t"
  obtain now t1 where n: "twi_ticks E ?t = (now, t1)" by fastforce
  obtain t2 where w: "stop_wait B E P True (now + 200 * TICKS_PER_US) t1 = Some t2"
    using u by (auto simp: prepare_bus_def n bind_eq_Some_conv)
  obtain ok t3 where s: "stop_sent B P True t2 = (ok, t3)" by fastforce
  have again: "settled rs (reset_controller B E P (twi_recover_bus B E P v))" if "settled rs v" for v
    using that by (intro reset_settled) (simp add: settled_books [of "twi_recover_bus B E P v" v])
  have "settled rs ?t" using t again [of "t\<lparr>tw_needs_recovery := False\<rparr>"] by (simp add: settled_def)
  moreover have "books t1 = books ?t" using n by (rule books_ops(4))
  ultimately have "settled rs t1" using settled_books by metis
  then have "settled rs t3" using stop_wait_settled [OF w] stop_sent_settled [OF s] by blast
  then show ?thesis using u again by (auto simp: prepare_bus_def n w s Let_def split: if_splits)
qed

lemma transfer_settled:
  assumes "transfer_sync B E P addr tx rx t = Some (s, u)" "settled rs t"
  shows "settled rs u"
proof -
  let ?t = "if tw_state t = Twi_Busy then twi_finish B E P I2c_Cancelled t else t"
  have a: "\<not> tw_async t" using assms(2) by (simp add: settled_def)
  obtain t1 where p: "prepare_bus B E P ?t = Some t1" using assms(1) a by (auto simp: transfer_sync_def bind_eq_Some_conv)
  obtain now t2 where n: "twi_ticks E (twi_start B P addr tx rx (twi_delay E 5 t1)) = (now, t2)" by fastforce
  obtain late t3 where b: "busy_wait B E P (now + kTwiTimeoutMs * TICKS_PER_MS) t2 = Some (late, t3)"
    using assms(1) a by (auto simp: transfer_sync_def p n bind_eq_Some_conv)
  obtain now' t4 where n': "twi_ticks E t3 = (now', t4)" by fastforce
  have "settled rs ?t" using assms(2) finish_settled by auto
  from prepare_settled [OF p this] have "settled rs t1" .
  then have "settled rs (twi_start B P addr tx rx (twi_delay E 5 t1))" by (simp add: start_settled settled_books [of "twi_delay E 5 t1" t1])
  then have "settled rs t2" using settled_books [OF books_ops(4) [OF n]] by simp
  then have t3: "settled rs t3" using busy_wait_settled [OF b] by simp
  then have t4: "settled rs t4" using settled_books [OF books_ops(4) [OF n']] by simp
  have "settled rs (twi_delay E 5 t5)" if "stop_wait B E P False d t4 = Some t5" for d t5
    using stop_wait_settled [OF that] t4 settled_books [of "twi_delay E 5 t5" t5] by simp
  then show ?thesis using assms(1) a t3 by (auto simp: transfer_sync_def p n b n' bind_eq_Some_conv Let_def split: if_splits)
qed

lemma start_hardware_accounted:
  assumes "accounted rs t" "\<not> tw_async t"
  shows "accounted (rs @ [req]) (twi_start_hardware B E P req t)"
proof -
  have c: "accounted (rs @ [req]) (complete_async E s n (t\<lparr>tw_active_req := req\<rparr>))" for s n
    using assms by (auto simp: complete_async_def accounted_def twi_ticks_def split: prod.splits)
  have b: "accounted (rs @ [req]) (twi_start B P a tx rx u)" if "tw_completed u = tw_completed t" "tw_async u" "tw_active_req u = req" for a tx rx u
  proof -
    let ?u = "u\<lparr>tw_addr := a, tw_tx := tx, tw_rx_size := rx, tw_tx_idx := 0, tw_rx_got := [], tw_read_phase := (tx = [] \<and> rx \<noteq> 0), tw_status := I2c_Ok, tw_state := Twi_Busy\<rparr>"
    have "accounted (rs @ [req]) ?u" using that assms by (simp add: accounted_def)
    then show ?thesis using accounted_books [of "twi_cmd B P kMSta ?u" ?u] by (simp add: twi_start_def)
  qed
  show ?thesis
    by (cases "twi_plan req") (auto simp: twi_start_hardware_def c Let_def twi_ticks_def split: prod.splits intro!: b)
qed

lemma poll_accounted: "accounted rs t \<Longrightarrow> accounted rs (poll_timeout B E P t)"
proof -
  assume t: "accounted rs t"
  obtain now u where n: "twi_ticks E t = (now, u)" by fastforce
  have u: "accounted rs u" using t accounted_books [OF books_ops(4) [OF n]] by simp
  then have "accounted rs (u\<lparr>tw_timeouts := tw_timeouts u + 1, tw_needs_recovery := True\<rparr>)" by (auto simp: accounted_def)
  then show ?thesis using t u finish_accounted(1) [of rs "u\<lparr>tw_timeouts := tw_timeouts u + 1, tw_needs_recovery := True\<rparr>" B E P I2c_Timeout]
    by (auto simp: poll_timeout_def n)
qed

text \<open>
  What happens to the driver: the driver base starts a request when none is under way, interrupts come,
  the main loop looks at the deadline, the program transfers synchronously, and the world goes on.
\<close>

inductive twi_reach :: "'h host \<Rightarrow> 'h clock \<Rightarrow> twi_port \<Rightarrow> i2c_request list \<Rightarrow> 'h twi \<Rightarrow> bool" for B E P where
  begin_twi: "twi_reach B E P [] (twi_new h)"
| request: "twi_reach B E P rs t \<Longrightarrow> \<not> tw_async t \<Longrightarrow> twi_reach B E P (rs @ [req]) (twi_start_hardware B E P req t)"
| interrupt: "twi_reach B E P rs t \<Longrightarrow> twi_reach B E P rs (on_irq B E P t)"
| deadline: "twi_reach B E P rs t \<Longrightarrow> twi_reach B E P rs (poll_timeout B E P t)"
| transfer: "twi_reach B E P rs t \<Longrightarrow> transfer_sync B E P addr tx rx t = Some (s, u) \<Longrightarrow> twi_reach B E P rs u"
| world: "twi_reach B E P rs t \<Longrightarrow> twi_reach B E P rs (t\<lparr>lk_env := h\<rparr>)"

lemma reach_accounted: "twi_reach B E P rs t \<Longrightarrow> accounted rs t"
proof (induction rule: twi_reach.induct)
  case (transfer rs t addr tx rx s u)
  show ?case
  proof (cases "tw_async t")
    case True
    then show ?thesis using transfer.IH transfer.hyps(2) by (simp add: transfer_sync_def accounted_def)
  next
    case False
    then show ?thesis using transfer.IH transfer_settled [OF transfer.hyps(2)] by (simp add: settled_accounted)
  qed
next
  case (begin_twi h)
  show ?case by (simp add: accounted_def twi_new_def)
next
  case (world rs t h)
  then show ?case by (auto simp: accounted_def)
qed (simp_all add: start_hardware_accounted irq_accounted poll_accounted)

text \<open>
  (C22) Each asynchronous request is completed exactly once and in order: at any moment the requests started
  are those completed, followed by the one under way if there is one, and while there is one the
  controller is busy. So a timeout and a late interrupt do not both complete a request, and a
  synchronous transfer in between completes none.
\<close>

theorem twi_completes_once:
  assumes "twi_reach B E P rs t"
  shows "rs = map fst (tw_completed t) @ (if tw_async t then [tw_active_req t] else []) \<and> (tw_async t \<longrightarrow> tw_state t = Twi_Busy)"
  using reach_accounted [OF assms] by (simp add: accounted_def)

lemma twi_completes_once_witness:
  "\<exists>t :: twi_hw twi. tw_async t \<and> [i2c_request_null] = map fst (tw_completed t) @ (if tw_async t then [tw_active_req t] else [])"
proof -
  let ?t = "twi_start_hardware hw_host hw_clock hw_port i2c_request_null (twi_hw_new 0 True False [])"
  have r: "twi_reach hw_host hw_clock hw_port ([] @ [i2c_request_null]) ?t"
    by (intro request) (simp_all add: twi_hw_new_def begin_twi, simp add: twi_new_def)
  have "tw_async ?t"
    by (simp add: twi_start_hardware_def twi_plan_def i2c_request_null_def twi_hw_new_def twi_new_def twi_ticks_def Let_def twi_start_def hw_cmd split: prod.split)
  then show ?thesis using conjunct1 [OF twi_completes_once [OF r]] unfolding append_Nil by blast
qed

text \<open>
  The capabilities allow any two messages, the driver only a write followed by a read: two writes pass the
  check of the transfer and are then refused.
\<close>

lemma two_writes_pass_check_and_are_refused:
  assumes "\<not> tw_state t = Twi_Busy" "ir_msgs req = [msg_write [1] 0, msg_write [2] 0]"
  shows "check_i2c_transfer twi_capabilities 0x50 (ir_msgs req) 1000 = I2c_Ok"
    "twi_start_hardware B E P req t = complete_async E I2c_NotSupported 0 (t\<lparr>tw_active_req := req\<rparr>)"
proof -
  show "check_i2c_transfer twi_capabilities 0x50 (ir_msgs req) 1000 = I2c_Ok" unfolding assms(2) by code_simp
  have "\<not> msg_is_read (msg_write d 0)" for d by (simp add: msg_is_read_def has_flag_def msg_write_def)
  then have "twi_plan req = None" by (simp add: twi_plan_def assms(2))
  then show "twi_start_hardware B E P req t = complete_async E I2c_NotSupported 0 (t\<lparr>tw_active_req := req\<rparr>)"
    using assms(1) by (simp add: twi_start_hardware_def Let_def)
qed

section \<open>Initialisation\<close>

text \<open>The clock and interrupt set-up that \<open>init\<close> calls: the module clock, the route of the line, the attachment of the handler.\<close>

record 'h set_up =
  su_enable_clock :: "'h \<Rightarrow> 'h"
  su_route :: "'h \<Rightarrow> 'h"
  su_attach :: "'h \<Rightarrow> bool \<times> 'h"

definition pins_to_function :: "'h host \<Rightarrow> twi_port \<Rightarrow> 'h twi \<Rightarrow> 'h twi" where
  "pins_to_function B P t =
    (if pt_cfg P \<noteq> 0 then let (v, t) = load32 B (pt_cfg P) t in store32 B (pt_cfg P) ((v AND NOT (pt_mask P)) OR pt_func P) t else t)"

definition twi_init :: "'h host \<Rightarrow> 'h clock \<Rightarrow> twi_port \<Rightarrow> 'h set_up \<Rightarrow> u32 \<Rightarrow> bool \<times> 'h twi \<Rightarrow> bool \<times> 'h twi" where
  "twi_init B E P S hz = (\<lambda>(attached, t).
    (let t = twi_store B P kCntr 0 t; t = t\<lparr>lk_env := su_enable_clock S (lk_env t)\<rparr>; t = pins_to_function B P (twi_recover_bus B E P t);
         t = twi_delay E 20 (twi_store B P kSrst 1 (t\<lparr>tw_needs_recovery := False\<rparr>));
         t = snd (twi_set_frequency B P (if hz \<noteq> 0 then hz else 400000) t);
         t = (twi_store B P kCntr kBusEn t)\<lparr>tw_state := Twi_Idle\<rparr>; t = t\<lparr>lk_env := su_route S (lk_env t)\<rparr>
     in if attached then (True, t) else let (ok, h) = su_attach S (lk_env t) in (ok, t\<lparr>lk_env := h\<rparr>)))"

lemma init_parts_books [simp]: "books (snd (twi_set_frequency B P hz t)) = books t" "books (pins_to_function B P t) = books t"
  by (auto simp: twi_set_frequency_def pins_to_function_def Let_def split: prod.splits) (simp_all add: books_def)

lemma init_books:
  assumes "twi_init B E P S hz (a, t) = (b, u)"
  shows "tw_async u = tw_async t" "tw_completed u = tw_completed t" "tw_active_req u = tw_active_req t" "tw_state u = Twi_Idle"
proof -
  define c where "c = twi_store B P kCntr 0 t"
  define d where "d = pins_to_function B P (twi_recover_bus B E P (c\<lparr>lk_env := su_enable_clock S (lk_env c)\<rparr>))"
  define e where "e = twi_store B P kCntr kBusEn (snd (twi_set_frequency B P (if hz \<noteq> 0 then hz else 400000)
    (twi_delay E 20 (twi_store B P kSrst 1 (d\<lparr>tw_needs_recovery := False\<rparr>)))))"
  have e: "books e = books t" by (simp add: c_def d_def e_def)
  have "\<exists>h. u = e\<lparr>tw_state := Twi_Idle, lk_env := h\<rparr>"
    using assms unfolding twi_init_def Let_def c_def [symmetric] d_def [symmetric] prod.case e_def [symmetric] by (auto split: if_splits prod.splits)
  then show "tw_async u = tw_async t" "tw_completed u = tw_completed t" "tw_active_req u = tw_active_req t" "tw_state u = Twi_Idle"
    using e by (auto simp: books_def)
qed

text \<open>
  Initialising the controller while an asynchronous transfer is under way strands the request: the state
  is Idle but the transfer still counts as under way, so the deadline is not looked at any more and no
  interrupt completes it.
\<close>

lemma init_strands_the_request:
  assumes "twi_init B E P S hz (a, t) = (b, u)" "tw_async t"
  shows "poll_timeout B E P u = u" "tw_completed (on_irq B E P u) = tw_completed t" "tw_async (on_irq B E P u)" "tw_state (on_irq B E P u) = Twi_Idle"
proof -
  note i = init_books [OF assms(1)]
  show "poll_timeout B E P u = u" using i(4) by (simp add: poll_timeout_def)
  obtain c t1 where c: "twi_load B P kCntr u = (c, t1)" by fastforce
  obtain s t2 where s: "twi_load B P kStat t1 = (s, t2)" by fastforce
  have "books t1 = books u" "books t2 = books u" "books (twi_store B P kCntr (kBusEn OR kIntFlg) t2) = books t2"
    using c s by simp_all
  then show "tw_completed (on_irq B E P u) = tw_completed t" "tw_async (on_irq B E P u)" "tw_state (on_irq B E P u) = Twi_Idle"
    using i assms(2) by (auto simp: on_irq_def c s books_def)
qed

end
