(* ===== verification/E906_Timer.thy ===== *)
theory E906_Timer
  imports Timer "HOL-Library.Monad_Syntax"
begin

text \<open>
  The core timer of the E906, \<open>targets/allwinner_e906/src/timer.cpp\<close>: one 64-bit comparator serves three
  deadlines -- the earliest sleeper, a wake-up of the idle loop and the profiler sample. The intrusive
  list of the ETL holds awaiters; it is the list of their numbers, an awaiter's members are in a store.
  Callbacks of awaiters are a function on the whole state, which also holds the state they act on;
  posted handles and samples are recorded. Operations that read the clock take what they read.
\<close>

record sleep_node =
  sn_target :: u64
  sn_handle :: handle
  sn_callback :: bool

record 'c e906_timer =
  et_cmp :: u64
  et_nodes :: "nat \<Rightarrow> sleep_node"
  et_waiters :: "nat list"
  et_coro_target :: u64
  et_coro_due :: bool
  et_wake_target :: u64
  et_sample_target :: u64
  et_sample_period :: u64
  et_external :: bool
  et_sample_only :: bool
  et_posted :: "handle list"
  et_samples :: "u32 list"
  et_client :: 'c

section \<open>The registers\<close>

definition word_hi :: "u64 \<Rightarrow> u32" where
  "word_hi w = ucast (drop_bit 32 w)"

definition word_join :: "u32 \<Rightarrow> u32 \<Rightarrow> u64" where
  "word_join hi lo = push_bit 32 (ucast hi) OR ucast lo"

text \<open>
  \<open>get_ticks\<close> over what the counter is at each access: the high word, the low word, the high word again,
  until the high word has not changed.
\<close>

fun get_ticks :: "u64 list \<Rightarrow> u64 option" where
  "get_ticks (a # b # c # obs) = (if word_hi a \<noteq> word_hi c then get_ticks obs else Some (word_join (word_hi a) (ucast b)))"
| "get_ticks _ = None"

definition ticks_to_us :: "u64 \<Rightarrow> u64" where
  "ticks_to_us t = t div 24"

definition ticks_to_ns :: "u64 \<Rightarrow> u64" where
  "ticks_to_ns t = (t * 125) div 3"

definition ticks_to_ms :: "u64 \<Rightarrow> u32" where
  "ticks_to_ms t = ucast (t div 24000)"

text \<open>The comparator after each of the writes that set it to \<open>target\<close>.\<close>

definition compare_writes :: "u64 \<Rightarrow> u64 \<Rightarrow> u64 list" where
  "compare_writes cmp target =
    word_join 0xFFFFFFFF (ucast cmp) # (if target = kNever then [] else [word_join 0xFFFFFFFF (ucast target), word_join (word_hi target) (ucast target)])"

definition program_compare :: "u64 \<Rightarrow> 'c e906_timer \<Rightarrow> 'c e906_timer" where
  "program_compare target t = (if et_external t then t else t\<lparr>et_cmp := last (compare_writes (et_cmp t) target)\<rparr>)"

definition earliest_target :: "'c e906_timer \<Rightarrow> u64" where
  "earliest_target t =
    (let a = (if et_coro_due t then kNever else et_coro_target t); b = et_wake_target t; c = et_sample_target t;
         ab = (if a < b then a else b) in if ab < c then ab else c)"

definition reprogram :: "'c e906_timer \<Rightarrow> 'c e906_timer" where
  "reprogram t = program_compare (earliest_target t) t"

section \<open>Deadlines\<close>

definition front_target :: "'c e906_timer \<Rightarrow> u64" where
  "front_target t = (if et_waiters t \<noteq> [] then sn_target (et_nodes t (hd (et_waiters t))) else kNever)"

definition timer_cancel_alarm :: "'c e906_timer \<Rightarrow> 'c e906_timer" where
  "timer_cancel_alarm t = reprogram (t\<lparr>et_waiters := [], et_coro_target := kNever, et_wake_target := kNever\<rparr>)"

definition insert_waiter :: "'c e906_timer \<Rightarrow> nat \<Rightarrow> nat list \<Rightarrow> nat list" where
  "insert_waiter t n xs =
    (let early = takeWhile (\<lambda>i. sn_target (et_nodes t i) \<le> sn_target (et_nodes t n)) xs
     in early @ n # drop (length early) xs)"

definition schedule_waiter :: "nat \<Rightarrow> 'c e906_timer \<Rightarrow> 'c e906_timer" where
  "schedule_waiter n t =
    (let t = (if n \<in> set (et_waiters t) then t\<lparr>et_waiters := remove1 n (et_waiters t)\<rparr> else t);
         t = t\<lparr>et_waiters := insert_waiter t n (et_waiters t)\<rparr>
     in reprogram (if front_target t < et_coro_target t then t\<lparr>et_coro_target := front_target t\<rparr> else t))"

definition cancel_waiter :: "nat \<Rightarrow> 'c e906_timer \<Rightarrow> 'c e906_timer" where
  "cancel_waiter n t =
    (if n \<notin> set (et_waiters t) then t
     else let was_front = (hd (et_waiters t) = n); t = t\<lparr>et_waiters := remove1 n (et_waiters t)\<rparr>
       in if was_front then reprogram (t\<lparr>et_coro_target := front_target t\<rparr>) else t)"

definition set_sample_period :: "u64 \<Rightarrow> u64 \<Rightarrow> 'c e906_timer \<Rightarrow> 'c e906_timer" where
  "set_sample_period ticks now t =
    reprogram (t\<lparr>et_sample_period := ticks, et_sample_target := if ticks \<noteq> 0 then now + ticks else kNever\<rparr>)"

definition timer_arm_wake :: "u64 \<Rightarrow> u64 \<Rightarrow> 'c e906_timer \<Rightarrow> 'c e906_timer" where
  "timer_arm_wake target now t =
    reprogram (if target < et_wake_target t \<or> et_wake_target t \<le> now then t\<lparr>et_wake_target := target\<rparr> else t)"

text \<open>One waiter taken off the front: its callback, then its handle.\<close>

definition serve_waiter :: "('c e906_timer \<Rightarrow> 'c e906_timer) \<Rightarrow> 'c e906_timer \<Rightarrow> 'c e906_timer" where
  "serve_waiter call t =
    (let n = hd (et_waiters t); h = sn_handle (et_nodes t n); cb = sn_callback (et_nodes t n);
         t = t\<lparr>et_waiters := tl (et_waiters t)\<rparr>; t = (if cb then call t else t)
     in if h \<noteq> null_handle then t\<lparr>et_posted := et_posted t @ [h]\<rparr> else t)"

partial_function (option) post_due_loop :: "('c e906_timer \<Rightarrow> 'c e906_timer) \<Rightarrow> u64 \<Rightarrow> bool \<Rightarrow> 'c e906_timer \<Rightarrow> (bool \<times> 'c e906_timer) option" where
  "post_due_loop call now any t =
    (if et_waiters t \<noteq> [] \<and> now \<ge> front_target t then post_due_loop call now True (serve_waiter call t) else Some (any, t))"

definition post_due_waiters :: "('c e906_timer \<Rightarrow> 'c e906_timer) \<Rightarrow> u64 \<Rightarrow> 'c e906_timer \<Rightarrow> (bool \<times> 'c e906_timer) option" where
  "post_due_waiters call now t = do { (any, t) \<leftarrow> post_due_loop call now False t; Some (any, t\<lparr>et_coro_target := front_target t\<rparr>) }"

definition timer_service_due :: "('c e906_timer \<Rightarrow> 'c e906_timer) \<Rightarrow> u64 \<Rightarrow> 'c e906_timer \<Rightarrow> (bool \<times> 'c e906_timer) option" where
  "timer_service_due call now t = do { (any, t) \<leftarrow> post_due_waiters call now (t\<lparr>et_coro_due := False\<rparr>); Some (any, reprogram t) }"

definition use_external_tick :: "'c e906_timer \<Rightarrow> 'c e906_timer" where
  "use_external_tick t = t\<lparr>et_external := True\<rparr>"

text \<open>
  The interrupt: \<open>pc\<close> is the interrupted address that is sampled, \<open>packet_ready\<close> whether enough samples
  or spans are waiting to be sent.
\<close>

definition timer_handle_irq :: "u32 \<Rightarrow> bool \<Rightarrow> u64 \<Rightarrow> 'c e906_timer \<Rightarrow> 'c e906_timer" where
  "timer_handle_irq pc packet_ready now t =
    (let t = (if now \<ge> et_sample_target t
              then let next = et_sample_target t + et_sample_period t
                in t\<lparr>et_samples := et_samples t @ [pc], et_sample_target := if next > now then next else now + et_sample_period t\<rparr> else t);
         due = (\<not> et_coro_due t \<and> now \<ge> et_coro_target t); wake = (now \<ge> et_wake_target t);
         t = (if due then t\<lparr>et_coro_due := True\<rparr> else t);
         t = (if wake then t\<lparr>et_wake_target := kNever\<rparr> else t)
     in reprogram (t\<lparr>et_sample_only := \<not> (due \<or> wake \<or> packet_ready)\<rparr>))"

section \<open>Sleeping\<close>

definition e906_await_ready :: "nat \<Rightarrow> u64 \<Rightarrow> 'c e906_timer \<Rightarrow> bool" where
  "e906_await_ready n now t = (now \<ge> sn_target (et_nodes t n))"

definition e906_await_suspend :: "nat \<Rightarrow> handle \<Rightarrow> u64 \<Rightarrow> 'c e906_timer \<Rightarrow> bool \<times> 'c e906_timer" where
  "e906_await_suspend n h now t =
    (if now \<ge> sn_target (et_nodes t n) then (False, t)
     else (True, schedule_waiter n (t\<lparr>et_nodes := (et_nodes t)(n := (et_nodes t n)\<lparr>sn_handle := h\<rparr>)\<rparr>)))"

definition e906_awaiter_destroy :: "nat \<Rightarrow> 'c e906_timer \<Rightarrow> 'c e906_timer" where
  "e906_awaiter_destroy n t = cancel_waiter n t"

definition sleep_ticks_async :: "u64 \<Rightarrow> u64 \<Rightarrow> sleep_node" where
  "sleep_ticks_async ticks now = \<lparr>sn_target = now + ticks, sn_handle = null_handle, sn_callback = False\<rparr>"

definition sleep_us_async :: "u32 \<Rightarrow> u64 \<Rightarrow> sleep_node" where
  "sleep_us_async us = sleep_ticks_async (ucast us * 24)"

definition sleep_ms_async :: "u32 \<Rightarrow> u64 \<Rightarrow> sleep_node" where
  "sleep_ms_async ms = sleep_ticks_async (ucast ms * 24000)"

section \<open>The registers, in parts\<close>

lemma word_hi_join [simp]: "word_hi (word_join h l) = h"
  by (rule bit_word_eqI) (auto simp: word_hi_def word_join_def bit_simps dest: bit_imp_le_length)

lemma word_lo_join [simp]: "(ucast (word_join h l) :: u32) = l"
  by (rule bit_word_eqI) (auto simp: word_join_def bit_simps)

lemma word_join_parts [simp]: "word_join (word_hi w) (ucast w) = w"
proof (rule bit_word_eqI)
  fix n assume "n < LENGTH(64)"
  then show "bit (word_join (word_hi w) (ucast w)) n = bit w n"
    by (cases "n < 32") (auto simp: word_hi_def word_join_def bit_simps)
qed

lemma unat_word_hi: "unat (word_hi w) = unat w div 2 ^ 32"
proof -
  have "unat (word_hi w) = unat w div 2 ^ 32 mod 2 ^ 32"
    by (simp add: word_hi_def unsigned_ucast_eq unsigned_drop_bit_eq take_bit_eq_mod drop_bit_eq_div unat_div)
  moreover have "unat w < 2 ^ 64" using unsigned_less [of w] by simp
  then have "unat w div 2 ^ 32 < 2 ^ 32" by (intro less_mult_imp_div_less) simp
  ultimately show ?thesis by simp
qed

lemma unat_word_lo: "unat (ucast (w :: u64) :: u32) = unat w mod 2 ^ 32"
  by (simp add: unsigned_ucast_eq take_bit_eq_mod)

lemma word_hi_mono: "a \<le> b \<Longrightarrow> word_hi a \<le> word_hi b"
  by (simp add: word_le_nat_alt unat_word_hi div_le_mono)

lemma unat_word_join: "unat (word_join h l) = unat h * 2 ^ 32 + unat l"
proof -
  let ?w = "word_join h l"
  have "unat ?w = unat ?w div 2 ^ 32 * 2 ^ 32 + unat ?w mod 2 ^ 32" by (rule div_mult_mod_eq [symmetric])
  then show ?thesis using unat_word_hi [of ?w] unat_word_lo [of ?w] by simp
qed

text \<open>
  Reading the counter in halves never mixes two of its values: what \<open>get_ticks\<close> returns is what the
  counter was when the low word was read, however far it ran on between the accesses.
\<close>

theorem get_ticks_is_a_reading:
  assumes "sorted obs" "get_ticks obs = Some t"
  shows "t \<in> set obs"
  using assms
proof (induction obs rule: get_ticks.induct)
  case (1 a b c obs)
  show ?case
  proof (cases "word_hi a = word_hi c")
    case False
    then show ?thesis using 1 by simp
  next
    case True
    have "word_hi a \<le> word_hi b" "word_hi b \<le> word_hi c" using 1(2) by (auto intro: word_hi_mono)
    then have "word_hi b = word_hi a" using True by simp
    then have "t = b" using 1(3) True word_join_parts [of b] by simp
    then show ?thesis by simp
  qed
qed simp_all

text \<open>It reads a second time only if the high word changed during the first.\<close>

lemma get_ticks_twice: "word_hi c = word_hi a \<or> word_hi f = word_hi d \<Longrightarrow> get_ticks (a # b # c # d # e # f # obs) \<noteq> None"
  by auto

lemma get_ticks_is_a_reading_witness:
  "get_ticks [0x1FFFFFFFE, 0x1FFFFFFFF, 0x200000000, 0x200000001, 0x200000002, 0x200000003] = Some 0x200000002 \<and>
   (0x200000002 :: u64) \<in> set [0x1FFFFFFFE, 0x1FFFFFFFF, 0x200000000, 0x200000001, 0x200000002, 0x200000003]"
proof -
  have g: "get_ticks [0x1FFFFFFFE, 0x1FFFFFFFF, 0x200000000, 0x200000001, 0x200000002, 0x200000003] = Some 0x200000002"
    by code_simp
  have s: "sorted [0x1FFFFFFFE, 0x1FFFFFFFF, 0x200000000, 0x200000001, 0x200000002, 0x200000003 :: u64]" by simp
  show ?thesis using g get_ticks_is_a_reading [OF s g] by blast
qed

text \<open>What the comparator holds when it is set to \<open>x\<close>: parked in the last \<open>2 ^ 32\<close> ticks for \<open>kNever\<close>.\<close>

definition cmp_is :: "u64 \<Rightarrow> u64 \<Rightarrow> bool" where
  "cmp_is cmp x = (if x = kNever then word_hi cmp = 0xFFFFFFFF else cmp = x)"

lemma last_compare_writes: "cmp_is (last (compare_writes cmp x)) x"
  by (simp add: compare_writes_def cmp_is_def)

lemma parked_late: "word_hi w = 0xFFFFFFFF \<Longrightarrow> word_hi x \<noteq> 0xFFFFFFFF \<Longrightarrow> x < w"
proof -
  assume w: "word_hi w = 0xFFFFFFFF" and x: "word_hi x \<noteq> 0xFFFFFFFF"
  have "unat (word_hi x) < 2 ^ 32" using unsigned_less [of "word_hi x"] by simp
  moreover have "unat (word_hi x) \<noteq> unat (0xFFFFFFFF :: u32)" using x word_unat_eq_iff by blast
  ultimately have "unat x div 2 ^ 32 < 0xFFFFFFFF" using unat_word_hi [of x] by simp
  moreover have "unat w div 2 ^ 32 = 0xFFFFFFFF" using unat_word_hi [of w] w by simp
  ultimately have "unat x div 2 ^ 32 < unat w div 2 ^ 32" by simp
  then have "unat x < unat w" using div_le_mono [of "unat w" "unat x" "2 ^ 32"] by linarith
  then show ?thesis by (simp add: word_less_nat_alt)
qed

text \<open>
  The three writes that move the comparator never let it match early: after each of them it is at or
  after the new target, wherever it stood before.
\<close>

lemma compare_writes_never_early:
  assumes "word_hi target \<noteq> 0xFFFFFFFF" "v \<in> set (compare_writes cmp target)"
  shows "target \<le> v"
  using assms parked_late [of _ target] by (fastforce simp: compare_writes_def less_imp_le split: if_splits)

section \<open>The invariant\<close>

abbreviation waiter_targets :: "'c e906_timer \<Rightarrow> u64 list" where
  "waiter_targets t \<equiv> map (\<lambda>i. sn_target (et_nodes t i)) (et_waiters t)"

text \<open>
  The list holds each waiter once and in the order of the deadlines, no waiter is earlier than the deadline
  of the sleepers, and only a running profiler has a sample deadline.
\<close>

definition sleepers_ok :: "'c e906_timer \<Rightarrow> bool" where
  "sleepers_ok t = (distinct (et_waiters t) \<and> sorted (waiter_targets t) \<and>
     (\<forall>i \<in> set (et_waiters t). et_coro_target t \<le> sn_target (et_nodes t i)) \<and> (et_sample_period t = 0 \<longrightarrow> et_sample_target t = kNever))"

definition compare_ok :: "'c e906_timer \<Rightarrow> bool" where
  "compare_ok t = (et_external t \<or> cmp_is (et_cmp t) (earliest_target t))"

lemma reprogram_fields [simp]:
  "et_waiters (reprogram t) = et_waiters t" "et_nodes (reprogram t) = et_nodes t" "et_coro_target (reprogram t) = et_coro_target t"
  "et_coro_due (reprogram t) = et_coro_due t" "et_wake_target (reprogram t) = et_wake_target t" "et_sample_target (reprogram t) = et_sample_target t"
  "et_sample_period (reprogram t) = et_sample_period t" "et_external (reprogram t) = et_external t" "et_posted (reprogram t) = et_posted t"
  "et_client (reprogram t) = et_client t" "et_samples (reprogram t) = et_samples t" "et_sample_only (reprogram t) = et_sample_only t"
  by (simp_all add: reprogram_def program_compare_def)

lemma reprogram_sleepers_ok [simp]: "sleepers_ok (reprogram t) = sleepers_ok t"
  by (simp add: sleepers_ok_def)

lemma earliest_reprogram [simp]: "earliest_target (reprogram t) = earliest_target t"
  by (simp add: earliest_target_def)

lemma reprogram_compare_ok [simp]: "compare_ok (reprogram t)"
  using last_compare_writes [of "et_cmp t" "earliest_target t"]
  by (simp add: compare_ok_def) (simp add: reprogram_def program_compare_def)

lemma le_kNever [simp]: "x \<le> kNever"
proof -
  have "kNever = - 1" by (simp add: kNever_def)
  then show ?thesis using word_order.extremum [of x] by argo
qed

lemma sorted_front:
  assumes "sorted (waiter_targets t)" "i \<in> set (et_waiters t)"
  shows "front_target t \<le> sn_target (et_nodes t i)"
  using assms by (cases "et_waiters t") (auto simp: front_target_def)

lemma mem_sorted_hd: "sleepers_ok t \<Longrightarrow> i \<in> set (et_waiters t) \<Longrightarrow> front_target t \<le> sn_target (et_nodes t i)"
  by (simp add: sleepers_ok_def sorted_front)

text \<open>Inserting keeps the order, as for insertion sort.\<close>

lemma insert_waiter_parts:
  "insert_waiter t n xs = takeWhile (\<lambda>i. sn_target (et_nodes t i) \<le> sn_target (et_nodes t n)) xs @ n #
     dropWhile (\<lambda>i. sn_target (et_nodes t i) \<le> sn_target (et_nodes t n)) xs"
  by (simp add: insert_waiter_def dropWhile_eq_drop Let_def)

lemma set_insert_waiter [simp]: "set (insert_waiter t n xs) = insert n (set xs)"
  unfolding insert_waiter_parts by simp (metis set_append takeWhile_dropWhile_id)

lemma distinct_insert_waiter: "distinct xs \<Longrightarrow> n \<notin> set xs \<Longrightarrow> distinct (insert_waiter t n xs)"
  unfolding insert_waiter_parts
  by (auto dest: set_takeWhileD set_dropWhileD) (metis IntI distinct_append empty_iff takeWhile_dropWhile_id)

lemma sorted_insert_waiter:
  assumes "sorted (map (\<lambda>i. sn_target (et_nodes t i)) xs)"
  shows "sorted (map (\<lambda>i. sn_target (et_nodes t i)) (insert_waiter t n xs))"
  using assms by (induction xs) (auto simp: insert_waiter_parts dest: set_takeWhileD set_dropWhileD)

text \<open>Scheduling a node whose members were just written, whether it was in the list or not.\<close>

lemma sorted_remove_node:
  assumes "sorted (waiter_targets t)" "distinct (et_waiters t)"
  shows "sorted (map (\<lambda>i. sn_target (((et_nodes t)(n := d)) i)) (remove1 n (et_waiters t)))"
proof -
  have "map (\<lambda>i. sn_target (((et_nodes t)(n := d)) i)) (remove1 n (et_waiters t)) = map (\<lambda>i. sn_target (et_nodes t i)) (remove1 n (et_waiters t))"
    using assms(2) by auto
  moreover have "remove1 n (et_waiters t) = filter (\<lambda>i. n \<noteq> i) (et_waiters t)"
    using assms(2) by (simp add: distinct_remove1_removeAll removeAll_filter_not_eq)
  ultimately show ?thesis using assms(1) by (simp only: sorted_filter)
qed

lemma lower_target_ok:
  assumes "sorted (waiter_targets v)" "distinct (et_waiters v)" "et_sample_period v = 0 \<longrightarrow> et_sample_target v = kNever"
  shows "sleepers_ok (if front_target v < et_coro_target v then v\<lparr>et_coro_target := front_target v\<rparr> else v)"
proof (cases "front_target v < et_coro_target v")
  case True
  then show ?thesis using assms sorted_front [OF assms(1)] by (auto simp: sleepers_ok_def)
next
  case False
  then have "et_coro_target v \<le> sn_target (et_nodes v i)" if "i \<in> set (et_waiters v)" for i
    using order_trans [OF _ sorted_front [OF assms(1) that]] by (simp add: not_less)
  then show ?thesis using False assms by (auto simp: sleepers_ok_def)
qed

lemma schedule_ok:
  assumes "sleepers_ok t"
  shows "sleepers_ok (schedule_waiter n (t\<lparr>et_nodes := (et_nodes t)(n := d)\<rparr>))" "compare_ok (schedule_waiter n (t\<lparr>et_nodes := (et_nodes t)(n := d)\<rparr>))"
proof -
  let ?u = "t\<lparr>et_nodes := (et_nodes t)(n := d), et_waiters := remove1 n (et_waiters t)\<rparr>"
  let ?v = "?u\<lparr>et_waiters := insert_waiter ?u n (et_waiters ?u)\<rparr>"
  let ?w = "if front_target ?v < et_coro_target ?v then ?v\<lparr>et_coro_target := front_target ?v\<rparr> else ?v"
  have eq: "schedule_waiter n (t\<lparr>et_nodes := (et_nodes t)(n := d)\<rparr>) = reprogram ?w"
    by (cases "n \<in> set (et_waiters t)") (simp_all add: schedule_waiter_def Let_def remove1_idem insert_waiter_def)
  have s: "sorted (waiter_targets ?u)" "distinct (et_waiters ?u)" "n \<notin> set (et_waiters ?u)"
    using sorted_remove_node [of t n d] assms by (simp_all add: sleepers_ok_def)
  have v: "sorted (waiter_targets ?v)" "distinct (et_waiters ?v)"
    using sorted_insert_waiter [OF s(1), of n] distinct_insert_waiter [OF s(2,3), of ?u] by (simp_all add: insert_waiter_def)
  have "sleepers_ok ?w" using lower_target_ok [OF v] assms by (simp add: sleepers_ok_def)
  then show "sleepers_ok (schedule_waiter n (t\<lparr>et_nodes := (et_nodes t)(n := d)\<rparr>))" "compare_ok (schedule_waiter n (t\<lparr>et_nodes := (et_nodes t)(n := d)\<rparr>))"
    unfolding eq by simp_all
qed

lemma front_least: "sleepers_ok t \<Longrightarrow> sleepers_ok (t\<lparr>et_coro_target := front_target t\<rparr>)"
  using sorted_front [of t] by (auto simp: sleepers_ok_def)

lemma remove_waiter_ok:
  assumes "sleepers_ok t"
  shows "sleepers_ok (t\<lparr>et_waiters := remove1 n (et_waiters t)\<rparr>)"
proof -
  have "remove1 n (et_waiters t) = filter (\<lambda>i. n \<noteq> i) (et_waiters t)"
    using assms by (simp add: sleepers_ok_def distinct_remove1_removeAll removeAll_filter_not_eq)
  then show ?thesis using assms by (auto simp: sleepers_ok_def sorted_filter)
qed

lemma cancel_waiter_ok:
  assumes "sleepers_ok t" "compare_ok t"
  shows "sleepers_ok (cancel_waiter n t)" "compare_ok (cancel_waiter n t)"
proof -
  have "earliest_target (t\<lparr>et_waiters := xs\<rparr>) = earliest_target t" for xs by (simp add: earliest_target_def)
  then have "compare_ok (t\<lparr>et_waiters := xs\<rparr>)" for xs using assms(2) by (simp add: compare_ok_def)
  then show "sleepers_ok (cancel_waiter n t)" "compare_ok (cancel_waiter n t)"
    using assms remove_waiter_ok [OF assms(1)] front_least [OF remove_waiter_ok [OF assms(1), of n]]
    by (auto simp: cancel_waiter_def Let_def front_target_def)
qed

lemma serve_ok:
  assumes "sleepers_ok t" "et_waiters t \<noteq> []" "\<And>u. sleepers_ok u \<Longrightarrow> sleepers_ok (call u)"
  shows "sleepers_ok (serve_waiter call t)"
proof -
  have "sleepers_ok (t\<lparr>et_waiters := tl (et_waiters t)\<rparr>)"
    using assms(1,2) by (cases "et_waiters t") (auto simp: sleepers_ok_def)
  then have "sleepers_ok (if b then call (t\<lparr>et_waiters := tl (et_waiters t)\<rparr>) else t\<lparr>et_waiters := tl (et_waiters t)\<rparr>)" for b
    using assms(3) by simp
  moreover have "sleepers_ok (u\<lparr>et_posted := p\<rparr>) = sleepers_ok u" for u :: "'a e906_timer" and p by (simp add: sleepers_ok_def)
  ultimately show ?thesis unfolding serve_waiter_def Let_def by (simp del: split_paired_Ex)
qed

lemma post_due_loop_ok:
  assumes "post_due_loop call now any t = Some y" "\<And>u. sleepers_ok u \<Longrightarrow> sleepers_ok (call u)"
  shows "sleepers_ok t \<longrightarrow> sleepers_ok (snd y)"
proof (rule post_due_loop.raw_induct [of "\<lambda>call now any t y. (\<forall>u. sleepers_ok u \<longrightarrow> sleepers_ok (call u)) \<longrightarrow> sleepers_ok t \<longrightarrow> sleepers_ok (snd y)",
    OF _ assms(1), THEN mp], intro impI)
  fix f and call :: "'a e906_timer \<Rightarrow> 'a e906_timer" and now any t y
  assume ih: "\<And>call now any t y. f call now any t = Some y \<Longrightarrow> (\<forall>u. sleepers_ok u \<longrightarrow> sleepers_ok (call u)) \<longrightarrow> sleepers_ok t \<longrightarrow> sleepers_ok (snd y)"
    and run: "(if et_waiters t \<noteq> [] \<and> now \<ge> front_target t then f call now True (serve_waiter call t) else Some (any, t)) = Some y"
    and call: "\<forall>u. sleepers_ok u \<longrightarrow> sleepers_ok (call u)" and t: "sleepers_ok t"
  show "sleepers_ok (snd y)"
    using run t call ih [of call now True "serve_waiter call t" y] serve_ok [OF t, of call] by (auto split: if_splits)
qed (use assms(2) in blast)

lemma service_ok:
  assumes "timer_service_due call now t = Some (any, u)" "sleepers_ok t" "\<And>u. sleepers_ok u \<Longrightarrow> sleepers_ok (call u)"
  shows "sleepers_ok u \<and> compare_ok u"
proof -
  obtain a v where v: "post_due_loop call now False (t\<lparr>et_coro_due := False\<rparr>) = Some (a, v)" "u = reprogram (v\<lparr>et_coro_target := front_target v\<rparr>)"
    using assms(1) by (auto simp: timer_service_due_def post_due_waiters_def bind_eq_Some_conv)
  have "sleepers_ok (t\<lparr>et_coro_due := False\<rparr>)" using assms(2) by (simp add: sleepers_ok_def)
  then have "sleepers_ok v" using post_due_loop_ok [OF v(1) assms(3)] by simp
  then show ?thesis using front_least v(2) by simp
qed

lemma irq_ok: "sleepers_ok t \<Longrightarrow> now \<noteq> kNever \<Longrightarrow> sleepers_ok (timer_handle_irq pc ready now t)" "compare_ok (timer_handle_irq pc ready now t)"
  by (auto simp: timer_handle_irq_def Let_def sleepers_ok_def) (use le_kNever [of now] in auto)

lemma deadlines_ok: "sleepers_ok t \<Longrightarrow> sleepers_ok (timer_arm_wake w now t) \<and> compare_ok (timer_arm_wake w now t)"
  "sleepers_ok t \<Longrightarrow> sleepers_ok (set_sample_period p now t) \<and> compare_ok (set_sample_period p now t)"
  "sleepers_ok t \<Longrightarrow> sleepers_ok (timer_cancel_alarm t) \<and> compare_ok (timer_cancel_alarm t)"
  by (auto simp: timer_arm_wake_def set_sample_period_def timer_cancel_alarm_def sleepers_ok_def)

section \<open>Runs\<close>

text \<open>
  What happens to the timer: an awaiter or the alarm node is (re)written and scheduled, or cancelled; the
  profiler and the waits set their deadlines; the main loop serves what is due; the interrupt; hand-over
  of the comparator to an RTOS.
\<close>

inductive e906_reach :: "('c e906_timer \<Rightarrow> 'c e906_timer) \<Rightarrow> 'c e906_timer \<Rightarrow> bool" for call where
  timer_init: "sleepers_ok t \<Longrightarrow> e906_reach call (timer_cancel_alarm t)"
| scheduled: "e906_reach call t \<Longrightarrow> e906_reach call (schedule_waiter n (t\<lparr>et_nodes := (et_nodes t)(n := d)\<rparr>))"
| cancelled: "e906_reach call t \<Longrightarrow> e906_reach call (cancel_waiter n t)"
| sampled: "e906_reach call t \<Longrightarrow> e906_reach call (set_sample_period p now t)"
| armed: "e906_reach call t \<Longrightarrow> e906_reach call (timer_arm_wake w now t)"
| served: "e906_reach call t \<Longrightarrow> timer_service_due call now t = Some (any, u) \<Longrightarrow> e906_reach call u"
| interrupted: "e906_reach call t \<Longrightarrow> now \<noteq> kNever \<Longrightarrow> e906_reach call (timer_handle_irq pc ready now t)"
| handed_over: "e906_reach call t \<Longrightarrow> e906_reach call (use_external_tick t)"

lemma e906_reach_ok:
  assumes "e906_reach call t" "\<And>u. sleepers_ok u \<Longrightarrow> sleepers_ok (call u)"
  shows "sleepers_ok t \<and> compare_ok t"
  using assms(1)
proof (induction rule: e906_reach.induct)
  case (served t now any u)
  then show ?case using service_ok assms(2) by blast
next
  case (handed_over t)
  then show ?case by (simp add: use_external_tick_def sleepers_ok_def compare_ok_def)
qed (auto simp: schedule_ok cancel_waiter_ok irq_ok deadlines_ok)

lemma if_less_min: "(if a < b then a else b) = min a (b :: u64)"
  by (simp add: min_def not_le [symmetric]) (metis antisym linear)

lemma earliest_target_min:
  "earliest_target t = min (min (if et_coro_due t then kNever else et_coro_target t) (et_wake_target t)) (et_sample_target t)"
  unfolding earliest_target_def Let_def if_less_min ..

lemma earliest_least:
  "earliest_target t \<le> et_wake_target t" "earliest_target t \<le> et_sample_target t" "\<not> et_coro_due t \<Longrightarrow> earliest_target t \<le> et_coro_target t"
  unfolding earliest_target_min by (simp_all add: min_le_iff_disj)

lemma less_earliest:
  "x < (if et_coro_due t then kNever else et_coro_target t) \<Longrightarrow> x < et_wake_target t \<Longrightarrow> x < et_sample_target t \<Longrightarrow> x < earliest_target t"
  unfolding earliest_target_min by simp

lemma irq_fields:
  "et_sample_target (timer_handle_irq pc ready now t) = (if now \<ge> et_sample_target t then if et_sample_target t + et_sample_period t > now
     then et_sample_target t + et_sample_period t else now + et_sample_period t else et_sample_target t)"
  "et_wake_target (timer_handle_irq pc ready now t) = (if now \<ge> et_wake_target t then kNever else et_wake_target t)"
  "et_coro_due (timer_handle_irq pc ready now t) = (et_coro_due t \<or> now \<ge> et_coro_target t)"
  "et_coro_target (timer_handle_irq pc ready now t) = et_coro_target t" "et_external (timer_handle_irq pc ready now t) = et_external t"
  by (auto simp: timer_handle_irq_def Let_def)

lemma cmp_is_le: "cmp_is c x \<Longrightarrow> x \<le> y \<Longrightarrow> c \<le> y \<or> y = kNever"
  by (metis cmp_is_def le_kNever antisym)

definition e906_timer_new :: "'c \<Rightarrow> 'c e906_timer" where
  "e906_timer_new c = \<lparr>et_cmp = 0, et_nodes = (\<lambda>_. \<lparr>sn_target = 0, sn_handle = null_handle, sn_callback = False\<rparr>), et_waiters = [], et_coro_target = kNever,
     et_coro_due = False, et_wake_target = kNever, et_sample_target = kNever, et_sample_period = 0, et_external = False, et_sample_only = False,
     et_posted = [], et_samples = [], et_client = c\<rparr>"

lemma e906_timer_new_ok: "sleepers_ok (e906_timer_new c)"
  by (simp add: sleepers_ok_def e906_timer_new_def)

text \<open>
  (C25) No sleeper is forgotten: at any moment, unless an RTOS owns the comparator, either the main loop has been
  told that a sleeper is due or the comparator matches no later than the deadline of every waiter in the
  list. It also matches no later than the profiler's sample. The waiters are in the order of their deadlines.
\<close>

theorem e906_sleepers_covered:
  assumes "e906_reach call t" "\<And>u. sleepers_ok u \<Longrightarrow> sleepers_ok (call u)" "\<not> et_external t"
  shows "(\<forall>i \<in> set (et_waiters t). et_coro_due t \<or> et_cmp t \<le> sn_target (et_nodes t i)) \<and>
    (et_sample_period t \<noteq> 0 \<longrightarrow> et_cmp t \<le> et_sample_target t) \<and> sorted (waiter_targets t) \<and> distinct (et_waiters t)"
proof -
  have ok: "sleepers_ok t" "cmp_is (et_cmp t) (earliest_target t)"
    using e906_reach_ok [OF assms(1,2)] assms(3) by (simp_all add: compare_ok_def)
  have le: "et_cmp t \<le> y" if "earliest_target t \<le> y" for y
    using cmp_is_le [OF ok(2) that] by auto
  have "\<forall>i \<in> set (et_waiters t). et_coro_due t \<or> et_cmp t \<le> sn_target (et_nodes t i)"
    using ok(1) earliest_least(3) [of t] le by (auto simp: sleepers_ok_def intro: order_trans)
  then show ?thesis using le earliest_least(2) [of t] ok(1) by (simp add: sleepers_ok_def)
qed

text \<open>Two sleepers that come in the wrong order, with identity callbacks.\<close>

definition two_sleepers :: "unit e906_timer" where
  "two_sleepers = (let t = timer_cancel_alarm (e906_timer_new ());
     t = schedule_waiter 1 (t\<lparr>et_nodes := (et_nodes t)(1 := \<lparr>sn_target = 500, sn_handle = 11, sn_callback = False\<rparr>)\<rparr>)
   in schedule_waiter 2 (t\<lparr>et_nodes := (et_nodes t)(2 := \<lparr>sn_target = 300, sn_handle = 12, sn_callback = False\<rparr>)\<rparr>))"

lemma two_sleepers_reach: "e906_reach id two_sleepers"
  unfolding two_sleepers_def Let_def by (intro scheduled timer_init e906_timer_new_ok)

lemma two_sleepers_fields: "et_waiters two_sleepers = [2, 1]" "\<not> et_external two_sleepers" "et_cmp two_sleepers = 300"
  by code_simp+

lemma e906_sleepers_covered_witness:
  "et_waiters two_sleepers = [2, 1] \<and> (et_coro_due two_sleepers \<or> et_cmp two_sleepers \<le> sn_target (et_nodes two_sleepers 1)) \<and>
   (et_coro_due two_sleepers \<or> et_cmp two_sleepers \<le> sn_target (et_nodes two_sleepers 2))"
proof -
  have "\<forall>i \<in> set (et_waiters two_sleepers). et_coro_due two_sleepers \<or> et_cmp two_sleepers \<le> sn_target (et_nodes two_sleepers i)"
    by (rule conjunct1 [OF e906_sleepers_covered [OF two_sleepers_reach _ two_sleepers_fields(2)]]) (simp only: id_apply)
  moreover have "2 \<in> set (et_waiters two_sleepers)" "1 \<in> set (et_waiters two_sleepers)" by (simp_all only: two_sleepers_fields(1) list.set_intros)
  ultimately show ?thesis using two_sleepers_fields(1) by blast
qed

text \<open>
  (C26) The timer interrupt is a level: it stays while the clock is at or past the comparator. The handler
  always leaves the comparator in the future, whatever was due, so it does not run again at once.
\<close>

theorem e906_irq_leaves_future:
  assumes "e906_reach call t" "\<And>u. sleepers_ok u \<Longrightarrow> sleepers_ok (call u)" "\<not> et_external t"
    and "word_hi now \<noteq> 0xFFFFFFFF" "unat now + unat (et_sample_period t) < 2 ^ 64"
  shows "now < et_cmp (timer_handle_irq pc ready now t)"
proof -
  let ?u = "timer_handle_irq pc ready now t"
  have ok: "sleepers_ok t" using e906_reach_ok [OF assms(1,2)] by simp
  have n: "now \<noteq> kNever" using assms(4) by (auto simp: word_hi_def kNever_def)
  have later: "now < now + et_sample_period t" if "et_sample_period t \<noteq> 0"
    using assms(5) that by (simp add: word_less_nat_alt unat_word_ariths(1) unat_gt_0)
  have never: "now < kNever" using n le_kNever [of now] by (simp add: order_less_le)
  have s: "now < et_sample_target ?u"
  proof (cases "et_sample_period t = 0")
    case True
    then have "et_sample_target t = kNever" using ok by (simp add: sleepers_ok_def)
    then show ?thesis using never True unfolding irq_fields by (simp add: not_le)
  next
    case False
    then show ?thesis using later unfolding irq_fields by (simp add: not_le)
  qed
  have "now < earliest_target ?u"
    using never by (intro less_earliest s) (simp_all add: irq_fields not_le)
  moreover have "cmp_is (et_cmp ?u) (earliest_target ?u)"
    using irq_ok(2) [of pc ready now t] assms(3) unfolding compare_ok_def irq_fields by blast
  ultimately show ?thesis using parked_late [OF _ assms(4)] by (auto simp: cmp_is_def split: if_splits)
qed

lemma e906_irq_leaves_future_witness: "300 < et_cmp (timer_handle_irq 0 False 300 two_sleepers)"
proof -
  have "et_sample_period two_sleepers = 0" by code_simp
  then have "word_hi 300 \<noteq> 0xFFFFFFFF" "unat (300 :: u64) + unat (et_sample_period two_sleepers) < 2 ^ 64" by (simp_all add: word_hi_def)
  from e906_irq_leaves_future [OF two_sleepers_reach _ two_sleepers_fields(2) this] show ?thesis by simp
qed

section \<open>Serving the sleepers\<close>

lemma post_due_coroutines:
  assumes "sorted (waiter_targets t)" "\<forall>i \<in> set (et_waiters t). \<not> sn_callback (et_nodes t i)"
  shows "\<exists>any. post_due_loop call now b t = Some (any, t\<lparr>et_waiters := filter (\<lambda>i. now < sn_target (et_nodes t i)) (et_waiters t),
    et_posted := et_posted t @ filter (\<lambda>h. h \<noteq> null_handle) (map (\<lambda>i. sn_handle (et_nodes t i)) (filter (\<lambda>i. sn_target (et_nodes t i) \<le> now) (et_waiters t)))\<rparr>)"
  using assms
proof (induction "et_waiters t" arbitrary: t b)
  case Nil
  then show ?case by (subst post_due_loop.simps) simp
next
  case (Cons n xs)
  note w = Cons.hyps(2) [symmetric]
  show ?case
  proof (cases "sn_target (et_nodes t n) \<le> now")
    case True
    let ?u = "serve_waiter call t"
    have u: "?u = t\<lparr>et_waiters := xs, et_posted := et_posted t @ filter (\<lambda>h. h \<noteq> null_handle) [sn_handle (et_nodes t n)]\<rparr>"
      using Cons.prems(2) w by (cases t) (simp add: serve_waiter_def Let_def)
    have "post_due_loop call now b t = post_due_loop call now True ?u"
      using True w by (subst post_due_loop.simps) (simp add: front_target_def)
    moreover obtain any where "post_due_loop call now True ?u = Some (any, ?u\<lparr>et_waiters := filter (\<lambda>i. now < sn_target (et_nodes ?u i)) (et_waiters ?u),
        et_posted := et_posted ?u @ filter (\<lambda>h. h \<noteq> null_handle) (map (\<lambda>i. sn_handle (et_nodes ?u i)) (filter (\<lambda>i. sn_target (et_nodes ?u i) \<le> now) (et_waiters ?u)))\<rparr>)"
      using Cons.hyps(1) [of ?u True] Cons.prems w by (auto simp: u)
    moreover have "\<not> now < sn_target (et_nodes t n)" using True by (simp add: not_less)
    then have "?u\<lparr>et_waiters := filter (\<lambda>i. now < sn_target (et_nodes ?u i)) (et_waiters ?u),
        et_posted := et_posted ?u @ filter (\<lambda>h. h \<noteq> null_handle) (map (\<lambda>i. sn_handle (et_nodes ?u i)) (filter (\<lambda>i. sn_target (et_nodes ?u i) \<le> now) (et_waiters ?u)))\<rparr> =
      t\<lparr>et_waiters := filter (\<lambda>i. now < sn_target (et_nodes t i)) (et_waiters t),
        et_posted := et_posted t @ filter (\<lambda>h. h \<noteq> null_handle) (map (\<lambda>i. sn_handle (et_nodes t i)) (filter (\<lambda>i. sn_target (et_nodes t i) \<le> now) (et_waiters t)))\<rparr>"
      using True by (simp add: u w)
    ultimately show ?thesis by simp
  next
    case False
    have "\<forall>i \<in> set xs. sn_target (et_nodes t n) \<le> sn_target (et_nodes t i)" using Cons.prems(1) w by simp
    then have late: "\<forall>i \<in> set (et_waiters t). now < sn_target (et_nodes t i)" using False w by (auto simp: not_le intro: less_le_trans)
    then have "filter (\<lambda>i. now < sn_target (et_nodes t i)) (et_waiters t) = et_waiters t" "filter (\<lambda>i. sn_target (et_nodes t i) \<le> now) (et_waiters t) = []"
      by (auto simp: filter_empty_conv not_le intro: filter_True)
    then show ?thesis using False w by (subst post_due_loop.simps) (simp add: front_target_def)
  qed
qed

text \<open>
  Serving at a time posts exactly the coroutines whose deadline has come, in the order of their
  deadlines, keeps the others, and moves the comparator to the next deadline.
\<close>

theorem e906_service_posts_due:
  assumes "sleepers_ok t" "\<forall>i \<in> set (et_waiters t). \<not> sn_callback (et_nodes t i) \<and> sn_handle (et_nodes t i) \<noteq> null_handle"
  shows "\<exists>any u. timer_service_due call now t = Some (any, u) \<and>
    et_posted u = et_posted t @ map (\<lambda>i. sn_handle (et_nodes t i)) (filter (\<lambda>i. sn_target (et_nodes t i) \<le> now) (et_waiters t)) \<and>
    et_waiters u = filter (\<lambda>i. now < sn_target (et_nodes t i)) (et_waiters t) \<and> et_coro_target u = front_target u \<and> compare_ok u"
proof -
  let ?d = "filter (\<lambda>i. sn_target (et_nodes t i) \<le> now) (et_waiters t)"
  have h: "filter (\<lambda>h. h \<noteq> null_handle) (map (\<lambda>i. sn_handle (et_nodes t i)) ?d) = map (\<lambda>i. sn_handle (et_nodes t i)) ?d"
    using assms(2) by (intro filter_True) auto
  have s: "sorted (waiter_targets (t\<lparr>et_coro_due := False\<rparr>))" using assms(1) by (simp add: sleepers_ok_def)
  obtain any where "post_due_loop call now False (t\<lparr>et_coro_due := False\<rparr>) = Some (any, t\<lparr>et_coro_due := False,
      et_waiters := filter (\<lambda>i. now < sn_target (et_nodes t i)) (et_waiters t), et_posted := et_posted t @ map (\<lambda>i. sn_handle (et_nodes t i)) ?d\<rparr>)"
    using post_due_coroutines [OF s, of call now False] assms(2) h by auto
  then show ?thesis by (simp add: timer_service_due_def post_due_waiters_def front_target_def)
qed

lemma e906_service_posts_due_witness:
  "\<exists>any u. timer_service_due id 400 two_sleepers = Some (any, u) \<and> et_posted u = [12] \<and> et_waiters u = [1]"
proof -
  have f: "\<forall>i \<in> set (et_waiters two_sleepers). \<not> sn_callback (et_nodes two_sleepers i) \<and> sn_handle (et_nodes two_sleepers i) \<noteq> null_handle" by code_simp
  have "sleepers_ok two_sleepers" using e906_reach_ok [OF two_sleepers_reach] by simp
  moreover have "et_posted two_sleepers = []"
    "map (\<lambda>i. sn_handle (et_nodes two_sleepers i)) (filter (\<lambda>i. sn_target (et_nodes two_sleepers i) \<le> 400) (et_waiters two_sleepers)) = [12]"
    "filter (\<lambda>i. 400 < sn_target (et_nodes two_sleepers i)) (et_waiters two_sleepers) = [1]" by code_simp+
  ultimately show ?thesis using e906_service_posts_due [OF _ f, of id 400] by auto
qed

section \<open>A synchronous delay\<close>

text \<open>
  \<open>delay_ticks\<close> with the core asleep in between: it arms the wake-up once, then sleeps until an interrupt
  and looks at the clock again. With no other interrupt the core wakes when the clock reaches the comparator; parked
  means never, which is no value.
\<close>

partial_function (option) delay_loop :: "u64 \<Rightarrow> u64 \<Rightarrow> 'c e906_timer \<Rightarrow> (u64 \<times> 'c e906_timer) option" where
  "delay_loop end_ticks now t =
    (if now \<ge> end_ticks then Some (now, t)
     else if word_hi (et_cmp t) = 0xFFFFFFFF then None
     else let now = max now (et_cmp t) in delay_loop end_ticks now (timer_handle_irq 0 False now t))"

definition delay_ticks :: "u64 \<Rightarrow> u64 \<Rightarrow> 'c e906_timer \<Rightarrow> (u64 \<times> 'c e906_timer) option" where
  "delay_ticks ticks now t = (let end_ticks = now + ticks in delay_loop end_ticks now (timer_arm_wake end_ticks now t))"

text \<open>
  One wake-up deadline is kept. If an earlier one is pending when a delay starts, the delay's own is not
  taken; the earlier one wakes the core, is cleared, and the loop sleeps again with nothing armed.
\<close>

lemma delay_loses_its_wake_up:
  "delay_ticks 500 0 (timer_arm_wake 100 0 (timer_cancel_alarm (e906_timer_new ()))) = None"
  "\<exists>t. delay_ticks 500 0 (timer_cancel_alarm (e906_timer_new ())) = Some (500, t)"
proof -
  let ?t = "timer_cancel_alarm (e906_timer_new ())"
  define u where "u = timer_arm_wake 500 0 (timer_arm_wake 100 0 ?t)"
  have u: "et_cmp u = 100" "word_hi (et_cmp u) \<noteq> 0xFFFFFFFF" "word_hi (et_cmp (timer_handle_irq 0 False 100 u)) = 0xFFFFFFFF"
    unfolding u_def by code_simp+
  then have "delay_loop 500 0 u = None"
    by (simp add: delay_loop.simps [of 500 0] delay_loop.simps [of 500 100])
  then show "delay_ticks 500 0 (timer_arm_wake 100 0 ?t) = None" by (simp add: delay_ticks_def u_def)
  define v where "v = timer_arm_wake 500 0 ?t"
  have v: "et_cmp v = 500" "word_hi (et_cmp v) \<noteq> 0xFFFFFFFF" unfolding v_def by code_simp+
  then have "delay_loop 500 0 v = Some (500, timer_handle_irq 0 False 500 v)"
    by (simp add: delay_loop.simps [of 500 0] delay_loop.simps [of 500 500])
  then show "\<exists>t. delay_ticks 500 0 ?t = Some (500, t)" by (simp add: delay_ticks_def v_def)
qed

end
