(* ===== verification/Spec2Isabelle.thy ===== *)
theory Spec2Isabelle
  imports Tlp Spsc_Steps Dispatcher Frame_Pool Sync Async_Queue Tag_Engine Async_Driver Bus_Lock Io_Status
    Bus_Checks Timer Uart_Rx Trigger_Ring Runtime Io_Runs Rpmsg_Flow Rpmsg_Wake Ublox_Gps Twi_Driver E906_Timer
begin

text \<open>
  \<^bold>\<open>AbstractX: a verification development.\<close>

  AbstractX is a C++20 runtime for small processors: coroutines on a ready queue, split-transaction I/O
  with 64-byte packets (TLPs) between an application and an I/O processor, drivers that interrupts feed,
  and the channel between a co-processor and Linux. The theories model the code under \<open>src/\<close>
  as executable functions on explicit states and prove what makes its parts correct.

  \<^bold>\<open>Parts and how they meet.\<close> Interrupts and other coroutines post coroutine handles to the
  ready queue (\<open>Dispatcher\<close>); the master runtime (\<open>Runtime\<close>) drains it in \<open>step\<close>, polls its
  sources and says when it wants to be called again. Coroutine frames come from one static pool
  (\<open>Frame_Pool\<close>) and are owned by task objects (\<open>Task_Life\<close>), which \<open>Combinators\<close> joins. Coroutines
  wait on events, semaphores, queues (\<open>Sync\<close>, \<open>Async_Queue\<close>), timers (\<open>Timer\<close>), drivers
  (\<open>Async_Driver\<close>, \<open>Uart_Rx\<close>, \<open>Trigger_Ring\<close>) and tagged transactions (\<open>Tag_Engine\<close>). The latter send
  \<open>Tlp\<close> packets through \<open>Ring_Buffers\<close> to the I/O processor (\<open>Io_Engine\<close>), whose transfers pass
  \<open>Bus_Checks\<close> and \<open>Bus_Lock\<close> and end in an \<open>Io_Status\<close>. \<open>Ctf_Tracer\<close>, \<open>Event_Trace\<close> and
  \<open>Runtime_Stats\<close> observe all of it. On the E906 co-processor packets and trace buffers travel over
  RPMsg (\<open>Msgbox\<close>, \<open>Rpmsg\<close>, \<open>Rpmsg_Endpoints\<close>).

  \<^bold>\<open>Theories and sources\<close> (paths below \<open>src/\<close>; state records carry the members of the class under a
  two-letter prefix, and each operation has the name of its function where Isabelle allows it).

  \<^item> \<open>Prelude\<close>, \<open>Intrusive_List\<close>: words, bytes, lists; linked lists of awaiters with the interface
    \<open>waiter_list\<close>, interpreted by the wait queues of the coroutines and by the bus lock.
  \<^item> \<open>Tlp\<close>: \<open>include/asp_tlp64.h\<close>, \<open>asp_tlp64.hpp\<close>, \<open>asp_tlp_msg.hpp\<close>. Layouts and round trips.
  \<^item> \<open>Ring_Buffers\<close>, \<open>Spsc_Steps\<close>: \<open>include/tlp_ring.hpp\<close> and the Pico frame ring; refinement of a bounded
    queue (locale \<open>bounded_fifo\<close>), then every interleaving of producer and consumer.
  \<^item> \<open>Dispatcher\<close>: \<open>domain_dispatcher.hpp\<close>, \<open>executor.cpp\<close>, \<open>wake.cpp\<close>.
  \<^item> \<open>Frame_Pool\<close>, \<open>Task_Life\<close>, \<open>Combinators\<close>, \<open>Sync\<close>, \<open>Async_Queue\<close>, \<open>Tag_Engine\<close>: the parts of
    \<open>include/asp_coro.hpp\<close>.
  \<^item> \<open>Async_Driver\<close> (\<open>async_driver.hpp\<close>, \<open>cancel.cpp\<close>), \<open>Bus_Lock\<close>, \<open>Io_Status\<close>, \<open>Bus_Checks\<close>
    (\<open>spi.hpp\<close>, \<open>i2c.hpp\<close>), \<open>Timer\<close> (\<open>timer.hpp\<close>, \<open>deadline.hpp\<close>), \<open>Uart_Rx\<close>, \<open>Trigger_Ring\<close>: the
    hardware layer \<open>include/abstractx/hal\<close>.
  \<^item> \<open>Io_Engine\<close> (\<open>io_engine.hpp\<close>), \<open>Io_Invariant\<close>, \<open>Io_Runs\<close>: its operations, the invariant each keeps,
    and what any run promises.
  \<^item> \<open>Ctf_Tracer\<close> (\<open>trace/tracer.hpp\<close>; locale \<open>ctf_transport\<close>), \<open>Event_Trace\<close>, \<open>Runtime_Stats\<close>, \<open>Runtime\<close>
    (\<open>src/runtime.cpp\<close>).
  \<^item> \<open>Ublox_Gps\<close>: the UBX receiver of \<open>applib/.../gps/ublox_gps.hpp\<close>, refined to a receiver of whole messages.
  \<^item> \<open>Msgbox\<close> (\<open>msgbox.cpp\<close> of \<open>targets/allwinner_e906/src\<close>), \<open>Rpmsg\<close> (\<open>rpmsg.cpp\<close>), \<open>Rpmsg_Safety\<close> (what they
    touch, and the interface \<open>endpoint_callbacks\<close> of a callback), \<open>Rpmsg_Endpoints\<close> (\<open>rpmsg_endpoints.cpp\<close>,
    which provides it), \<open>Rpmsg_Flow\<close> (returning, handing back, round trip), \<open>Rpmsg_Wake\<close> (the awaiter, the
    doorbell interrupt, polling and sleeping).
  \<^item> \<open>Twi_Driver\<close> (\<open>src/i2c.cpp\<close>): the I2C master, over a controller with one device for the bus behaviour,
    over any outside state for returning and for completing each request once.
  \<^item> \<open>E906_Timer\<close> (\<open>src/timer.cpp\<close>): the comparator shared by sleepers, waits and the profiler.

  \<^bold>\<open>What the lemmas show.\<close> For each component: an invariant of its state that every operation keeps;
  the behaviour of the operations on every branch; refinement of an abstract object (queue, stream,
  list of waiters) where it has one; that its loops end. Where interrupts or other threads take part,
  operations are cut at their accesses to shared memory and the properties are proved for every
  interleaving (\<open>Spsc_Steps\<close>, \<open>Async_Driver\<close>, \<open>Trigger_Ring\<close>, \<open>Combinators\<close>, \<open>Rpmsg_Wake\<close>). The shared memory of
  RPMsg belongs to a host that may change it between any two accesses. Lemmas that show a defect are
  named after it.

  \<^bold>\<open>Loops and bounds.\<close> A walk over pointers or a wait for hardware is a \<open>partial_function\<close> into
  \<open>option\<close>; no value means that it does not end, and separate lemmas show that it does (lists of awaiters
  that are linked, hosts that stop posting). Three recursions take a bound. \<open>destroy_frame\<close> takes the
  depth of nested ownership: any number from the count of events on is enough, since frames nest at most
  as deep as they are many. \<open>done_nested\<close> takes how deep completions may nest inside \<open>start_transfer\<close>;
  the invariant is proved for back ends that complete later, the case of one nested completion is a
  lemma of its own. \<open>run_loop\<close> takes the number of steps of a program that need not end.
  The bounded loops of the code (kick tries, reply rounds, packets per drain) recurse on their counters.

  \<^bold>\<open>Third parties.\<close> The ETL queue is a parameter with the laws of a bounded queue, shown to hold of a
  list; back ends, hooks, clocks and resumed coroutines are functions on a state of their own.

  \<^bold>\<open>Not modelled.\<close> Formatting of trace files and sockets (\<open>trace/sink.hpp\<close>); start-up code, linker
  and clock set-up; the register drivers and platform glue of the targets; the applications, examples, benchmarks
  and the MicroPython module, which call the modelled parts; floating point (attitude filter, sensor
  scaling); generated and vendored code, the FPGA sources, the Python tools. Memory orders appear as program
  order of the accesses, as the fences of the code make it. The compiler's coroutine transformation appears
  as the frames and awaiters that it creates.
\<close>

end
